(* ===== verification/Plan9_Prelude.thy ===== *)
theory Plan9_Prelude
  imports Main "HOL-Library.Word"
begin

unbundle bit_operations_syntax

text \<open>
  What the components of the development share: the integer types of the Plan 9 C
  dialect (\<open>uchar\<close>, \<open>ushort\<close>, \<open>ulong\<close> of 32 bits, \<open>uvlong\<close> of 64 bits), the faults a
  kernel routine can end in, sequencing of fallible routines, byte-level stores into a
  buffer, and the bit-mask lemmas behind the \<open>state\<close>, \<open>flag\<close> and \<open>type\<close> words of the
  sources.
\<close>

named_theorems chain_simps \<open>rewriting of the bytes held by chains of blocks\<close>
named_theorems wf_intros \<open>well-formedness rules of the block operations\<close>
named_theorems flag_simps \<open>bit masks: setting, clearing and testing flags\<close>

type_synonym u8 = "8 word"
type_synonym u16 = "16 word"
type_synonym u32 = "32 word"
type_synonym u64 = "64 word"

text \<open>The clock frequency of the kernel, ticks a second (\<open>src/k10/mem.h\<close>).\<close>

definition HZ :: int where "HZ = 1000"

text \<open>A value assigned to an \<open>int\<close> of 32 bits.\<close>

definition s32 :: "int \<Rightarrow> int" where
  "s32 = signed_take_bit 31"

lemma s32_le: "- (2 ^ 31) \<le> x \<Longrightarrow> s32 x \<le> x"
proof -
  assume a: "- (2 ^ 31) \<le> x"
  have "s32 x + 2 ^ 31 = (x + 2 ^ 31) mod 2 ^ 32"
    by (simp add: s32_def signed_take_bit_eq_take_bit_shift take_bit_eq_mod)
  also have "\<dots> \<le> x + 2 ^ 31" using a by (intro zmod_le_nonneg_dividend) simp
  finally show ?thesis by simp
qed

lemma s32_ge: "- (2 ^ 31) \<le> s32 x"
  using signed_take_bit_int_greater_eq_minus_exp[of 31 x] by (simp add: s32_def)

lemma s32_less: "s32 x < 2 ^ 31"
  using signed_take_bit_int_less_exp[of 31 x] by (simp add: s32_def)

lemma s32_small: "- (2 ^ 31) \<le> x \<Longrightarrow> x < 2 ^ 31 \<Longrightarrow> s32 x = x"
  unfolding s32_def by (rule signed_take_bit_int_eq_self) simp_all

section \<open>Faults and sequencing\<close>

text \<open>
  A routine that may not return normally has a result of type \<open>fault + 'a\<close>.
  \<open>Panic\<close> is a call of \<open>panic\<close>, \<open>Exit\<close> a call of \<open>exit\<close>.
  \<open>Overrun\<close> and \<open>NilDeref\<close> are the two memory errors C does not detect: a store past the
  end of a buffer and a dereference of \<open>nil\<close>; the models report them so that their
  absence is a theorem.
\<close>

datatype fault = Panic string | Exit | Overrun | NilDeref

definition bindE :: "fault + 'a \<Rightarrow> ('a \<Rightarrow> fault + 'b) \<Rightarrow> fault + 'b" where
  "bindE r f = (case r of Inl e \<Rightarrow> Inl e | Inr x \<Rightarrow> f x)"

lemma bindE_simps [simp]:
  "bindE (Inl e) f = Inl e"
  "bindE (Inr x) f = f x"
  by (simp_all add: bindE_def)

lemma bindE_Inr_iff:
  "bindE r f = Inr y \<longleftrightarrow> (\<exists>x. r = Inr x \<and> f x = Inr y)"
  by (cases r) simp_all

lemma bindE_cong [fundef_cong]:
  "r = r' \<Longrightarrow> (\<And>x. r' = Inr x \<Longrightarrow> f x = f' x) \<Longrightarrow> bindE r f = bindE r' f'"
  by (cases r') (simp_all add: bindE_def)

text \<open>
  How a process-level routine ends when it neither panics nor corrupts memory: it goes to
  sleep, raises an error string for the system call to report, or returns a value.
\<close>

datatype 'a outcome = Sleeps | Raises string | Returns 'a

section \<open>Bytes in a buffer\<close>

text \<open>\<open>poke xs i ys\<close> is the buffer after \<open>memmove(xs+i, ys, |ys|)\<close>.\<close>

definition poke :: "'a list \<Rightarrow> nat \<Rightarrow> 'a list \<Rightarrow> 'a list" where
  "poke xs i ys = take i xs @ ys @ drop (i + length ys) xs"

lemma length_poke [simp]:
  "i + length ys \<le> length xs \<Longrightarrow> length (poke xs i ys) = length xs"
  by (simp add: poke_def)

lemma poke_Nil [simp]: "poke xs i [] = xs"
  by (simp add: poke_def)

lemma take_drop_poke_same:
  "i + length ys \<le> length xs \<Longrightarrow> take (length ys) (drop i (poke xs i ys)) = ys"
  by (simp add: poke_def)

lemma take_drop_poke_append:
  assumes "a \<le> i" and "i + length ys \<le> length xs"
  shows "take (i + length ys - a) (drop a (poke xs i ys)) = take (i - a) (drop a xs) @ ys"
proof -
  have "drop a (poke xs i ys) = drop a (take i xs) @ ys @ drop (i + length ys) xs"
    using assms by (simp add: poke_def)
  moreover have "drop a (take i xs) = take (i - a) (drop a xs)"
    by (simp add: drop_take)
  moreover have "length (take (i - a) (drop a xs)) = i - a"
    using assms by simp
  ultimately show ?thesis
    using assms by simp
qed

lemma take_take_drop_drop:
  "take m (drop n (take k (drop j xs))) = take (min m (k - n)) (drop (j + n) xs)"
  by (simp add: drop_take add.commute min.commute)

section \<open>Flags\<close>

text \<open>\<open>flag_on s f\<close> is the C test \<open>s & f\<close>, \<open>flag_set\<close> is \<open>s |= f\<close>, \<open>flag_clr\<close> is \<open>s &= ~f\<close>.\<close>

definition flag_on :: "'n::len word \<Rightarrow> 'n word \<Rightarrow> bool" where
  "flag_on s f \<longleftrightarrow> s AND f \<noteq> 0"

definition flag_set :: "'n::len word \<Rightarrow> 'n word \<Rightarrow> 'n word" where
  "flag_set s f = s OR f"

definition flag_clr :: "'n::len word \<Rightarrow> 'n word \<Rightarrow> 'n word" where
  "flag_clr s f = s AND NOT f"

lemma flag_on_set [flag_simps]: "flag_on (flag_set s f) g \<longleftrightarrow> flag_on s g \<or> flag_on f g"
  by (auto simp: flag_on_def flag_set_def bit_eq_iff bit_simps)

lemma flag_on_clr_disjoint [flag_simps]:
  "f AND g = 0 \<Longrightarrow> flag_on (flag_clr s f) g \<longleftrightarrow> flag_on s g"
  by (auto simp: flag_on_def flag_clr_def bit_eq_iff bit_simps)

lemma flag_on_clr_self [flag_simps]: "\<not> flag_on (flag_clr s f) f"
  by (auto simp: flag_on_def flag_clr_def bit_eq_iff bit_simps)

lemma flag_on_zero [flag_simps]: "\<not> flag_on 0 f"
  by (simp add: flag_on_def)

lemma flag_set_idem [flag_simps]: "flag_set (flag_set s f) f = flag_set s f"
  by (simp add: flag_set_def or.assoc)

lemma flag_clr_idem [flag_simps]: "flag_clr (flag_clr s f) f = flag_clr s f"
  by (simp add: flag_clr_def and.assoc)

section \<open>Invariants of step relations\<close>

text \<open>
  The interface of an inductive invariant: it holds initially and every step keeps it. Its
  clients take from it that it holds in every state a run reaches.
\<close>

locale invariant =
  fixes init :: "'s \<Rightarrow> bool" and step :: "'s \<Rightarrow> 's \<Rightarrow> bool" and inv :: "'s \<Rightarrow> bool"
  assumes init_inv: "init s \<Longrightarrow> inv s"
    and step_inv: "inv s \<Longrightarrow> step s t \<Longrightarrow> inv t"
begin

lemma steps_inv: "step\<^sup>*\<^sup>* s t \<Longrightarrow> inv s \<Longrightarrow> inv t"
  by (induction rule: rtranclp_induct) (auto dest: step_inv)

lemma reached_inv: "init s \<Longrightarrow> step\<^sup>*\<^sup>* s t \<Longrightarrow> inv t"
  using init_inv steps_inv by blast

end

text \<open>A stronger interface: an invariant that implies a goal in every state.\<close>

locale safety = invariant +
  fixes goal :: "'s \<Rightarrow> bool"
  assumes inv_goal: "inv s \<Longrightarrow> goal s"
begin

lemma reached_goal: "init s \<Longrightarrow> step\<^sup>*\<^sup>* s t \<Longrightarrow> goal t"
  using reached_inv inv_goal by blast

end

section \<open>Queues ordered by a key\<close>

text \<open>
  The interface of insertion into a list kept in the order of a key: the new element goes
  between the ones before it and the ones after it; where it goes among equal keys is left
  open. Clients take from it that the list stays ordered and gains just that element.
\<close>

locale sorted_queue =
  fixes key :: "'a \<Rightarrow> 'k::linorder" and ins :: "'a \<Rightarrow> 'a list \<Rightarrow> 'a list"
  assumes ins_split: "sorted (map key xs) \<Longrightarrow> \<exists>ys zs. xs = ys @ zs \<and> ins x xs = ys @ x # zs
    \<and> (\<forall>y \<in> set ys. key y \<le> key x) \<and> (\<forall>z \<in> set zs. key x \<le> key z)"
begin

lemma sorted_ins: "sorted (map key xs) \<Longrightarrow> sorted (map key (ins x xs))"
  using ins_split[of xs x] by (fastforce simp: sorted_append)

lemma set_ins: "sorted (map key xs) \<Longrightarrow> set (ins x xs) = insert x (set xs)"
  using ins_split[of xs x] by auto

lemma distinct_ins: "sorted (map key xs) \<Longrightarrow> distinct (ins x xs) \<longleftrightarrow> x \<notin> set xs \<and> distinct xs"
  using ins_split[of xs x] by auto

lemma hd_ins: "sorted (map key xs) \<Longrightarrow> hd (ins x xs) = x \<or> xs \<noteq> [] \<and> hd (ins x xs) = hd xs \<and> key (hd xs) \<le> key x"
  using ins_split[of xs x] by (fastforce simp: hd_append)

lemma ins_not_Nil: "sorted (map key xs) \<Longrightarrow> ins x xs \<noteq> []"
  using ins_split[of xs x] by auto

end

lemma sorted_map_cong: "(\<And>x. x \<in> set xs \<Longrightarrow> f x = g x) \<Longrightarrow> sorted (map f xs) \<longleftrightarrow> sorted (map g xs)"
  by (metis map_cong)

section \<open>Chains of pointers\<close>

text \<open>The list of the nodes reached from \<open>h\<close> through the pointers \<open>nx\<close>, which end in \<open>nil\<close>.\<close>

fun chain :: "(nat \<Rightarrow> nat option) \<Rightarrow> nat option \<Rightarrow> nat list \<Rightarrow> bool" where
  "chain nx h [] \<longleftrightarrow> h = None"
| "chain nx h (x # xs) \<longleftrightarrow> h = Some x \<and> chain nx (nx x) xs"

lemma chain_upd [simp]: "p \<notin> set xs \<Longrightarrow> chain (nx(p := v)) h xs = chain nx h xs"
  by (induction xs arbitrary: h) auto

lemma chain_snoc:
  "chain nx h xs \<Longrightarrow> xs \<noteq> [] \<Longrightarrow> distinct xs \<Longrightarrow> u \<notin> set xs \<Longrightarrow> chain (nx(last xs := Some u, u := None)) h (xs @ [u])"
  by (induction xs arbitrary: h) auto

lemma chain_link: "chain nx h (as @ x # bs) \<Longrightarrow> nx x = (if bs = [] then None else Some (hd bs)) \<and> chain nx (nx x) bs"
  by (induction as arbitrary: h) (cases bs; auto)+

lemma chain_unlink:
  "chain nx h (as @ x # bs) \<Longrightarrow> distinct (as @ x # bs) \<Longrightarrow> as \<noteq> [] \<Longrightarrow> chain (nx(last as := nx x)) h (as @ bs)"
proof (induction as arbitrary: h)
  case (Cons a as)
  show ?case
  proof (cases "as = []")
    case True
    then show ?thesis using Cons.prems by (simp add: fun_upd_same del: fun_upd_apply)
  next
    case False
    then have "last as \<noteq> a" using Cons.prems(2) last_in_set[of as] by auto
    then show ?thesis using Cons False by auto
  qed
qed simp

text \<open>
  The loop that looks through a chain for a node and keeps the one before it: the node, if there is
  one, and the last one passed.
\<close>

partial_function (option) seek :: "nat option \<Rightarrow> nat option \<Rightarrow> (nat \<Rightarrow> bool) \<Rightarrow> (nat \<Rightarrow> nat option) \<Rightarrow> (nat option \<times> nat option) option" where
  "seek p l ok nx =
    (case p of
       None \<Rightarrow> Some (None, l)
     | Some q \<Rightarrow> if ok q then Some (Some q, l) else seek (nx q) (Some q) ok nx)"

declare seek.simps [code]

lemma seek_chain:
  "chain nx h (as @ bs) \<Longrightarrow> (\<And>x. x \<in> set as \<Longrightarrow> \<not> ok x) \<Longrightarrow> bs = [] \<or> ok (hd bs)
    \<Longrightarrow> seek h l ok nx = Some (if bs = [] then None else Some (hd bs), if as = [] then l else Some (last as))"
proof (induction as arbitrary: h l)
  case Nil
  then show ?case by (cases bs) (simp_all add: seek.simps)
next
  case (Cons a as)
  then show ?case using Cons.IH[of "nx a" "Some a"] by (simp add: seek.simps[of "Some a"])
qed

text \<open>The store through the pointer the loop ends with: to the head, or into a node.\<close>

definition setlink :: "nat option \<Rightarrow> nat option \<Rightarrow> nat option \<times> (nat \<Rightarrow> nat option) \<Rightarrow> nat option \<times> (nat \<Rightarrow> nat option)" where
  "setlink l v c = (case l of None \<Rightarrow> (v, snd c) | Some q \<Rightarrow> (fst c, (snd c)(q := v)))"

lemma setlink_unlink:
  assumes "chain nx h (as @ x # bs)" "distinct (as @ x # bs)" "setlink (if as = [] then None else Some (last as)) (nx x) (h, nx) = (h', nx')"
  shows "chain nx' h' (as @ bs)"
  using assms chain_unlink[OF assms(1,2)] chain_link[OF assms(1)] by (cases "as = []") (auto simp: setlink_def)

lemma setlink_append:
  assumes "chain nx h xs" "distinct xs" "u \<notin> set xs" "setlink (if xs = [] then None else Some (last xs)) (Some u) (h, nx(u := None)) = (h', nx')"
  shows "chain nx' h' (xs @ [u])"
proof (cases "xs = []")
  case True
  then show ?thesis using assms(4) by (auto simp: setlink_def)
next
  case False
  then have "last xs \<noteq> u" using assms(3) last_in_set[of xs] by auto
  then show ?thesis using False assms(4) chain_snoc[OF assms(1) False assms(2,3)] by (auto simp: setlink_def fun_upd_twist)
qed

lemma setlink_other: "setlink l v (h, nx) = (h', nx') \<Longrightarrow> l \<noteq> Some q \<Longrightarrow> nx' q = nx q"
  by (auto simp: setlink_def split: option.splits)

end
