(* ===== verification/Block.thy ===== *)
theory Block
  imports Plan9_Prelude
begin

text \<open>
  Blocks and their allocator (\<open>src/port/allocb.c\<close>, \<open>struct Block\<close> of
  \<open>src/port/portdat.h\<close>).

  A block is a header with four pointers into one buffer. Pointers are natural-number
  addresses; the bytes from \<open>base\<close> up to \<open>lim\<close> are the list \<open>buf\<close>. The \<open>next\<close> link is not
  a field: a \<open>Block*\<close> that heads a chain is a list of blocks, \<open>nil\<close> is the empty list.
  The address of the header itself is \<open>baddr\<close>. Live blocks have different allocations, so
  \<open>base\<close> tells them apart.

  \<open>kmem\<close> is the part of the kernel state the allocator touches. What \<open>malloc\<close> answers is
  not determined here: \<open>mallocs\<close> lists the answers of the next calls, \<open>None\<close> (or the end of
  the list) being a \<open>nil\<close> answer. \<open>freed\<close> logs the buffers handed to \<open>free\<close>, latest first,
  so that leaks and double frees can be stated.
\<close>

section \<open>Data\<close>

record block =
  baddr :: nat
  base :: nat
  rp :: nat
  wp :: nat
  lim :: nat
  buf :: "u8 list"
  hook :: bool   \<comment> \<open>the \<open>free\<close> field is set\<close>
  bflag :: u16

definition BINTR :: u16 where "BINTR = 1"

definition BLEN :: "block \<Rightarrow> int" where
  "BLEN b = int (wp b) - int (rp b)"

definition BALLOC :: "block \<Rightarrow> int" where
  "BALLOC b = int (lim b) - int (base b)"

datatype cnt = Cpadblockcnt | Ccatblockbytes | Cpullupblockcnt | Ccopyblockcnt
  | Cconsumebytes | Cproducebytes | Cqcopybytes | Cqbwritecnt | Cqbwritepricnt

record kmem =
  mallocs :: "nat option list"
  freed :: "nat list"
  hooked :: "nat list"
  ibytes :: u32        \<comment> \<open>\<open>ialloc.bytes\<close>\<close>
  ilimit :: u64        \<comment> \<open>\<open>sys->ialloc\<close>\<close>
  m1 :: int
  m2 :: int
  mp :: int
  inproc :: bool       \<comment> \<open>\<open>up != nil\<close>\<close>
  qcount :: "cnt \<Rightarrow> u64"

definition malloc :: "kmem \<Rightarrow> nat option \<times> kmem" where
  "malloc k = (case mallocs k of
      [] \<Rightarrow> (None, k)
    | a # as \<Rightarrow> (a, k\<lparr>mallocs := as\<rparr>))"

text \<open>The bytes a block holds, from \<open>rp\<close> up to \<open>wp\<close>.\<close>

definition bdata :: "block \<Rightarrow> u8 list" where
  "bdata b = take (wp b - rp b) (drop (rp b - base b) (buf b))"

text \<open>The order \<open>checkb\<close> insists on, and a buffer as long as its bounds say.\<close>

definition wfb :: "block \<Rightarrow> bool" where
  "wfb b \<longleftrightarrow> base b \<le> rp b \<and> rp b \<le> wp b \<and> wp b \<le> lim b \<and> length (buf b) = lim b - base b"

section \<open>Operations\<close>

definition Hdrspc :: nat where "Hdrspc = 64"

definition BLOCKALIGN :: nat where "BLOCKALIGN = 8"

text \<open>\<open>sizeof(Block)\<close> on the 64-bit kernel: seven pointers and two shorts, rounded up.\<close>

definition sizeofBlock :: nat where "sizeofBlock = 64"

definition HOWMANY :: "nat \<Rightarrow> nat \<Rightarrow> nat" where
  "HOWMANY x y = (x + (y - 1)) div y"

definition ROUNDUP :: "nat \<Rightarrow> nat \<Rightarrow> nat" where
  "ROUNDUP x y = HOWMANY x y * y"

text \<open>\<open>p & ~(a-1)\<close> for a power of two \<open>a\<close>.\<close>

definition aligndown :: "nat \<Rightarrow> nat \<Rightarrow> nat" where
  "aligndown p a = p div a * a"

definition alloc_size :: "nat \<Rightarrow> nat" where
  "alloc_size sz = BLOCKALIGN + ROUNDUP (sz + Hdrspc) BLOCKALIGN + sizeofBlock"

text \<open>
  The header a successful \<open>malloc\<close> at address \<open>p\<close> is laid out with. The buffer's bytes are
  unspecified in C; the allocator clears what it hands out, so they are zero here.
\<close>

definition layoutb :: "nat \<Rightarrow> nat \<Rightarrow> block" where
  "layoutb p sz =
    (let n = alloc_size sz;
         b = p + n - sizeofBlock;
         l = aligndown b BLOCKALIGN;
         r = l - ROUNDUP sz BLOCKALIGN
     in \<lparr>baddr = b, base = p, rp = r, wp = r, lim = l,
         buf = replicate (l - p) 0, hook = False, bflag = 0\<rparr>)"

definition allocb0 :: "nat \<Rightarrow> kmem \<Rightarrow> fault + (block option \<times> kmem)" where
  "allocb0 sz k =
    (case malloc k of
       (None, k') \<Rightarrow> Inr (None, k')
     | (Some p, k') \<Rightarrow>
         let b = layoutb p sz in
         if rp b < base b \<or> int (lim b) - int (rp b) < int sz then Inl (Panic ''_allocb'')
         else Inr (Some b, k'))"

definition allocb :: "nat \<Rightarrow> kmem \<Rightarrow> fault + (block \<times> kmem)" where
  "allocb sz k =
    (if \<not> inproc k then Inl (Panic ''allocb without up'')
     else bindE (allocb0 sz k) (\<lambda>(r, k').
       case r of
         None \<Rightarrow> Inl (Panic ''allocb: no memory'')
       | Some b \<Rightarrow> Inr (b, k')))"

text \<open>
  \<open>if((m++%10000)==0){ if(mp++ > 1000) exit(0); iprint(...); }\<close>: the increments happen
  in the order the conditions are evaluated.
\<close>

definition icomplain1 :: "kmem \<Rightarrow> fault + kmem" where
  "icomplain1 k =
    (let c = m1 k; k = k\<lparr>m1 := c + 1\<rparr> in
     if c mod 10000 = 0 then
       if mp k > 1000 then Inl Exit else Inr (k\<lparr>mp := mp k + 1\<rparr>)
     else Inr k)"

definition icomplain2 :: "kmem \<Rightarrow> fault + kmem" where
  "icomplain2 k =
    (let c = m2 k; k = k\<lparr>m2 := c + 1\<rparr> in
     if c mod 10000 = 0 then
       if mp k > 1000 then Inl Exit else Inr (k\<lparr>mp := mp k + 1\<rparr>)
     else Inr k)"

definition iallocb :: "nat \<Rightarrow> kmem \<Rightarrow> fault + (block option \<times> kmem)" where
  "iallocb sz k =
    (if unat (ibytes k) > unat (ilimit k) then
       bindE (icomplain1 k) (\<lambda>k. Inr (None, k))
     else bindE (allocb0 sz k) (\<lambda>(r, k).
       case r of
         None \<Rightarrow> bindE (icomplain2 k) (\<lambda>k. Inr (None, k))
       | Some b \<Rightarrow>
           let b = b\<lparr>bflag := BINTR\<rparr> in
           Inr (Some b, k\<lparr>ibytes := ibytes k + of_int (BALLOC b)\<rparr>)))"

definition freeb :: "block \<Rightarrow> kmem \<Rightarrow> kmem" where
  "freeb b k =
    (if hook b then k\<lparr>hooked := base b # hooked k\<rparr>
     else
       let k = (if flag_on (bflag b) BINTR
                then k\<lparr>ibytes := ibytes k - of_int (BALLOC b)\<rparr> else k)
       in k\<lparr>freed := base b # freed k\<rparr>)"

text \<open>\<open>checkb\<close> on a live block: the numbered panics in order.\<close>

definition checkb :: "block \<Rightarrow> fault + unit" where
  "checkb b =
    (if base b > lim b then Inl (Panic ''checkb 0'')
     else if rp b < base b then Inl (Panic ''checkb 1'')
     else if wp b < base b then Inl (Panic ''checkb 2'')
     else if rp b > lim b then Inl (Panic ''checkb 3'')
     else if wp b > lim b then Inl (Panic ''checkb 4'')
     else Inr ())"

section \<open>The layout\<close>

lemma ROUNDUP_bounds: "0 < y \<Longrightarrow> x \<le> ROUNDUP x y \<and> ROUNDUP x y < x + y"
proof -
  assume y: "0 < y"
  have "(x + (y - 1)) div y * y = x + (y - 1) - (x + (y - 1)) mod y"
    by (simp add: minus_mod_eq_div_mult)
  moreover have "(x + (y - 1)) mod y < y" using y by simp
  ultimately show ?thesis using y unfolding ROUNDUP_def HOWMANY_def by linarith
qed

lemma ROUNDUP_add_mult: "0 < y \<Longrightarrow> ROUNDUP (x + m * y) y = ROUNDUP x y + m * y"
proof -
  assume y: "0 < y"
  have "(x + m * y + (y - 1)) div y = (x + (y - 1)) div y + m"
    using y by (metis add.commute add.left_commute div_mult_self1 less_not_refl3)
  then show ?thesis by (simp add: ROUNDUP_def HOWMANY_def algebra_simps)
qed

lemma aligndown_bounds: "0 < a \<Longrightarrow> aligndown p a \<le> p \<and> p < aligndown p a + a"
proof -
  assume "0 < a"
  then have "p mod a < a" by simp
  moreover have "aligndown p a + p mod a = p" by (simp add: aligndown_def)
  ultimately show ?thesis by linarith
qed

lemma aligndown_dvd [simp]: "a dvd aligndown p a"
  by (simp add: aligndown_def)

lemma ROUNDUP_dvd [simp]: "a dvd ROUNDUP x a"
  by (simp add: ROUNDUP_def)

text \<open>Every field of a fresh block is between the bounds of its allocation.\<close>

lemma layoutb_bounds:
  fixes p sz :: nat
  defines "b \<equiv> layoutb p sz"
  shows "base b + Hdrspc < rp b" and "wp b = rp b" and "rp b + sz \<le> lim b"
    and "lim b \<le> baddr b" and "baddr b + sizeofBlock = base b + alloc_size sz"
    and "BLOCKALIGN dvd lim b" and "BLOCKALIGN dvd rp b"
proof -
  let ?R = "ROUNDUP sz 8"
  have R: "sz \<le> ?R" using ROUNDUP_bounds[of 8 sz] by simp
  have R64: "ROUNDUP (sz + 64) 8 = ?R + 64" using ROUNDUP_add_mult[of 8 sz 8] by simp
  have al: "alloc_size sz = ?R + 136"
    by (simp add: alloc_size_def BLOCKALIGN_def Hdrspc_def sizeofBlock_def R64)
  define l where "l = aligndown (p + ?R + 72) 8"
  have l: "l \<le> p + ?R + 72" "p + ?R + 72 < l + 8"
    using aligndown_bounds[of 8 "p + ?R + 72"] by (simp_all add: l_def)
  have b: "b = \<lparr>baddr = p + ?R + 72, base = p, rp = l - ?R, wp = l - ?R, lim = l,
     buf = replicate (l - p) 0, hook = False, bflag = 0\<rparr>"
    by (simp add: b_def layoutb_def al sizeofBlock_def BLOCKALIGN_def l_def Let_def ac_simps)
  show "base b + Hdrspc < rp b" using l R by (simp add: b Hdrspc_def)
  show "wp b = rp b" by (simp add: b)
  show "rp b + sz \<le> lim b" using l R by (simp add: b)
  show "lim b \<le> baddr b" using l by (simp add: b)
  show "baddr b + sizeofBlock = base b + alloc_size sz"
    by (simp add: b al sizeofBlock_def)
  show "BLOCKALIGN dvd lim b" by (simp add: b l_def BLOCKALIGN_def)
  show "BLOCKALIGN dvd rp b" by (simp add: b l_def BLOCKALIGN_def dvd_diff_nat)
qed

lemma layoutb_fields [simp]:
  "base (layoutb p sz) = p" "hook (layoutb p sz) = False" "bflag (layoutb p sz) = 0"
  "length (buf (layoutb p sz)) = lim (layoutb p sz) - p"
  by (simp_all add: layoutb_def Let_def)

lemma wfb_layoutb [wf_intros]: "wfb (layoutb p sz)"
  using layoutb_bounds[of p sz] by (simp add: wfb_def Hdrspc_def)

lemma bdata_layoutb [chain_simps]: "bdata (layoutb p sz) = []"
  using layoutb_bounds(2)[of p sz] by (simp add: bdata_def)

lemma BLEN_bdata: "wfb b \<Longrightarrow> BLEN b = int (length (bdata b))"
  by (auto simp: wfb_def BLEN_def bdata_def)

lemma wfb_length_bdata: "wfb b \<Longrightarrow> length (bdata b) = wp b - rp b"
  by (auto simp: wfb_def bdata_def)

lemma BALLOC_nonneg: "wfb b \<Longrightarrow> 0 \<le> BALLOC b"
  by (auto simp: wfb_def BALLOC_def)

lemma BLEN_le_BALLOC: "wfb b \<Longrightarrow> BLEN b \<le> BALLOC b"
  by (auto simp: wfb_def BALLOC_def BLEN_def)

section \<open>The allocator\<close>

text \<open>What \<open>allocb0\<close> does: it never takes its panic branch.\<close>

lemma allocb0_eq:
  "allocb0 sz k = (case mallocs k of
      [] \<Rightarrow> Inr (None, k)
    | None # as \<Rightarrow> Inr (None, k\<lparr>mallocs := as\<rparr>)
    | Some p # as \<Rightarrow> Inr (Some (layoutb p sz), k\<lparr>mallocs := as\<rparr>))"
proof -
  have "\<not> rp (layoutb p sz) < base (layoutb p sz)" for p
    using layoutb_bounds(1)[of p sz] by simp
  moreover have "\<not> int (lim (layoutb p sz)) - int (rp (layoutb p sz)) < int sz" for p
    using layoutb_bounds(3)[of p sz] by linarith
  ultimately show ?thesis
    by (simp add: allocb0_def malloc_def Let_def split: list.split option.split)
qed

lemma allocb_eq:
  "allocb sz k = (if \<not> inproc k then Inl (Panic ''allocb without up'')
    else case mallocs k of
      Some p # as \<Rightarrow> Inr (layoutb p sz, k\<lparr>mallocs := as\<rparr>)
    | _ \<Rightarrow> Inl (Panic ''allocb: no memory''))"
  by (simp add: allocb_def allocb0_eq split: list.splits option.splits)

lemma allocb_Some [simp]:
  "inproc k \<Longrightarrow> mallocs k = Some p # as \<Longrightarrow> allocb sz k = Inr (layoutb p sz, k\<lparr>mallocs := as\<rparr>)"
  by (simp add: allocb_eq)

end
