(* ===== verification/BlockList.thy ===== *)
theory BlockList
  imports Block "HOL-Library.Multiset"
begin

text \<open>
  The routines of \<open>src/port/qio.c\<close> that work on chains of blocks, before any queue is
  involved: padding, concatenating, pulling up, trimming, copying, adjusting, discarding,
  packing, and moving between memory and chains. A \<open>Block*\<close> argument is the list of the
  blocks its \<open>next\<close> links reach, \<open>nil\<close> is \<open>[]\<close>. Each routine owns the chain it is given, as
  its callers in the kernel arrange; what it releases goes through \<open>freeb\<close>.

  Two quantities carry the theorems: \<open>cdata\<close>, the bytes a chain holds, and \<open>held\<close>, the
  buffers that are accounted for outside any chain (given back to \<open>free\<close> or to a driver, or
  not yet handed out by \<open>malloc\<close>). An operation loses no buffer and frees none twice when
  the buffers of its chains together with \<open>held\<close> stay the same multiset.
\<close>

section \<open>Operations\<close>

definition counter :: "cnt \<Rightarrow> kmem \<Rightarrow> kmem" where
  "counter i k = k\<lparr>qcount := (qcount k)(i := qcount k i + 1)\<rparr>"

definition bytes :: "cnt \<Rightarrow> int \<Rightarrow> kmem \<Rightarrow> kmem" where
  "bytes i n k = k\<lparr>qcount := (qcount k)(i := qcount k i + of_int n)\<rparr>"

text \<open>\<open>memmove(b->wp, xs, |xs|); b->wp += |xs|;\<close>\<close>

definition bappend :: "block \<Rightarrow> u8 list \<Rightarrow> block" where
  "bappend b xs = b\<lparr>buf := poke (buf b) (wp b - base b) xs, wp := wp b + length xs\<rparr>"

definition bput :: "block \<Rightarrow> u8 list \<Rightarrow> fault + block" where
  "bput b xs = (if wp b + length xs \<le> lim b then Inr (bappend b xs) else Inl Overrun)"

fun freeblist :: "block list \<Rightarrow> kmem \<Rightarrow> kmem" where
  "freeblist [] k = k"
| "freeblist (b # nxt) k = freeblist nxt (freeb b k)"

fun padblock :: "block list \<Rightarrow> int \<Rightarrow> kmem \<Rightarrow> fault + (block list \<times> kmem)" where
  "padblock [] sz k = Inl NilDeref"
| "padblock (bp # nxt) sz k =
    (if sz \<ge> 0 then
       if int (rp bp) - int (base bp) \<ge> sz then
         Inr (bp\<lparr>rp := nat (int (rp bp) - sz)\<rparr> # nxt, k)
       else if nxt \<noteq> [] then Inl (Panic ''padblock'')
       else
         let n = BLEN bp; k = counter Cpadblockcnt k in
         bindE (allocb (nat (sz + n)) k) (\<lambda>(nbp, k).
         let nbp = nbp\<lparr>rp := rp nbp + nat sz\<rparr>;
             nbp = nbp\<lparr>wp := rp nbp\<rparr> in
         bindE (bput nbp (bdata bp)) (\<lambda>nbp.
         let k = freeb bp k in
         Inr ([nbp\<lparr>rp := rp nbp - nat sz\<rparr>], k)))
     else
       let sz = - sz in
       if nxt \<noteq> [] then Inl (Panic ''padblock'')
       else if int (lim bp) - int (wp bp) \<ge> sz then Inr ([bp], k)
       else
         let n = BLEN bp; k = counter Cpadblockcnt k in
         bindE (allocb (nat (sz + n)) k) (\<lambda>(nbp, k).
         bindE (bput nbp (bdata bp)) (\<lambda>nbp.
         Inr ([nbp], freeb bp k))))"

fun blocklen :: "block list \<Rightarrow> int" where
  "blocklen [] = 0"
| "blocklen (bp # nxt) = BLEN bp + blocklen nxt"

fun blockalloclen :: "block list \<Rightarrow> int" where
  "blockalloclen [] = 0"
| "blockalloclen (bp # nxt) = BALLOC bp + blockalloclen nxt"

fun catloop :: "block \<Rightarrow> block list \<Rightarrow> fault + block" where
  "catloop nb [] = Inr nb"
| "catloop nb (f # nxt) = bindE (bput nb (bdata f)) (\<lambda>nb. catloop nb nxt)"

fun concatblock :: "block list \<Rightarrow> kmem \<Rightarrow> fault + (block list \<times> kmem)" where
  "concatblock [] k = Inl NilDeref"
| "concatblock [bp] k = Inr ([bp], k)"
| "concatblock bps k =
    bindE (allocb (nat (blocklen bps)) k) (\<lambda>(nb, k).
    bindE (catloop nb bps) (\<lambda>nb.
    let k = bytes Ccatblockbytes (BLEN nb) k in
    Inr ([nb], freeblist bps k)))"

text \<open>The copy loop of \<open>pullupblock\<close>: \<open>bp\<close> is the first block, the list its successors.\<close>

fun pulluploop :: "block \<Rightarrow> int \<Rightarrow> block list \<Rightarrow> kmem \<Rightarrow> fault + (block list \<times> kmem)" where
  "pulluploop bp n [] k = Inr ([], freeb bp k)"
| "pulluploop bp n (nbp # nxt) k =
    (let i = BLEN nbp in
     if i > n then
       bindE (bput bp (take (nat n) (bdata nbp))) (\<lambda>bp.
       Inr (bp # nbp\<lparr>rp := rp nbp + nat n\<rparr> # nxt, counter Cpullupblockcnt k))
     else
       let i = (if i < 0 then 0 else i) in
       bindE (bput bp (take (nat i) (bdata nbp))) (\<lambda>bp.
       let k = freeb nbp (counter Cpullupblockcnt k); n = n - i in
       if n = 0 then Inr (bp # nxt, k) else pulluploop bp n nxt k))"

fun pullupblock :: "block list \<Rightarrow> int \<Rightarrow> kmem \<Rightarrow> fault + (block list \<times> kmem)" where
  "pullupblock [] n k = Inl NilDeref"
| "pullupblock (bp # nxt) n k =
    (if BLEN bp \<ge> n then Inr (bp # nxt, k)
     else if int (lim bp) - int (rp bp) < n then
       bindE (allocb (nat n) k) (\<lambda>(nbp, k).
       pulluploop nbp (n - BLEN nbp) (bp # nxt) k)
     else pulluploop bp (n - BLEN bp) nxt k)"

fun trimskip :: "block list \<Rightarrow> int \<Rightarrow> kmem \<Rightarrow> fault + (block list \<times> int \<times> kmem)" where
  "trimskip [] offset k = Inl NilDeref"
| "trimskip (bp # nxt) offset k =
    (if BLEN bp < offset then trimskip nxt (offset - BLEN bp) (freeb bp k)
     else Inr (bp # nxt, offset, k))"

fun trimtail :: "block list \<Rightarrow> int \<Rightarrow> kmem \<Rightarrow> fault + (block list \<times> kmem)" where
  "trimtail [] len k = Inl NilDeref"
| "trimtail (bp # nxt) len k =
    (if BLEN bp < len then
       bindE (trimtail nxt (len - BLEN bp) k) (\<lambda>(bs, k). Inr (bp # bs, k))
     else Inr ([bp\<lparr>wp := wp bp - nat (BLEN bp - len)\<rparr>], freeblist nxt k))"

definition trimblock :: "block list \<Rightarrow> int \<Rightarrow> int \<Rightarrow> kmem \<Rightarrow> fault + (block list \<times> kmem)" where
  "trimblock bps offset len k =
    (if blocklen bps < offset + len then Inr ([], freeblist bps k)
     else bindE (trimskip bps offset k) (\<lambda>(bps, offset, k).
       case bps of
         [] \<Rightarrow> Inl NilDeref
       | bp # nxt \<Rightarrow> trimtail (bp\<lparr>rp := rp bp + nat offset\<rparr> # nxt) len k))"

fun copyloop :: "block \<Rightarrow> block list \<Rightarrow> int \<Rightarrow> fault + (block \<times> int)" where
  "copyloop nbp [] cn = Inr (nbp, cn)"
| "copyloop nbp (bp # nxt) cn =
    (if cn > 0 then
       let l = (if BLEN bp > cn then cn else BLEN bp) in
       bindE (bput nbp (take (nat l) (bdata bp))) (\<lambda>nbp. copyloop nbp nxt (cn - l))
     else Inr (nbp, cn))"

fun copyblock :: "block list \<Rightarrow> int \<Rightarrow> kmem \<Rightarrow> fault + (block option \<times> kmem)" where
  "copyblock [] cn k = Inl NilDeref"
| "copyblock (bp # nxt) cn k =
    bindE (if flag_on (bflag bp) BINTR then iallocb (nat cn) k
           else bindE (allocb (nat cn) k) (\<lambda>(b, k). Inr (Some b, k))) (\<lambda>(r, k).
    case r of
      None \<Rightarrow> Inr (None, k)
    | Some nbp \<Rightarrow>
        bindE (copyloop nbp (bp # nxt) cn) (\<lambda>(nbp, cn).
        bindE (if cn > 0 then bput nbp (replicate (nat cn) 0) else Inr nbp) (\<lambda>nbp.
        Inr (Some nbp, counter Ccopyblockcnt k))))"

fun adjustblock :: "block list \<Rightarrow> int \<Rightarrow> kmem \<Rightarrow> fault + (block list \<times> kmem)" where
  "adjustblock [] len k = Inl NilDeref"
| "adjustblock (bp # nxt) len k =
    (if len < 0 then Inr ([], freeb bp k)
     else if int (rp bp) + len > int (lim bp) then
       bindE (copyblock (bp # nxt) len k) (\<lambda>(r, k).
       Inr ((case r of None \<Rightarrow> [] | Some nbp \<Rightarrow> [nbp]), freeblist (bp # nxt) k))
     else
       let n = BLEN bp in
       bindE (if len > n then bput bp (replicate (nat (len - n)) 0) else Inr bp) (\<lambda>bp.
       Inr (bp\<lparr>wp := rp bp + nat len\<rparr> # nxt, k)))"

text \<open>
  One pass of the loop either empties the first block, which is freed, or uses \<open>count\<close> up
  within it, which ends the loop.
\<close>

fun pullblock :: "block list \<Rightarrow> int \<Rightarrow> kmem \<Rightarrow> int \<times> block list \<times> kmem" where
  "pullblock [] cn k = (0, [], k)"
| "pullblock (bp # nxt) cn k =
    (if cn = 0 then (0, bp # nxt, k)
     else
       let n = (if cn < BLEN bp then cn else BLEN bp);
           bp = bp\<lparr>rp := nat (int (rp bp) + n)\<rparr> in
       if BLEN bp = 0 then
         let (m, bps, k) = pullblock nxt (cn - n) (freeb bp k) in (n + m, bps, k)
       else (n, bp # nxt, k))"

fun packblock :: "block list \<Rightarrow> kmem \<Rightarrow> fault + (block list \<times> kmem)" where
  "packblock [] k = Inr ([], k)"
| "packblock (nbp # nxt) k =
    (let n = BLEN nbp in
     if n * 4 < BALLOC nbp then
       bindE (allocb (nat n) k) (\<lambda>(b, k).
       bindE (bput b (bdata nbp)) (\<lambda>b.
       bindE (packblock nxt (freeb nbp k)) (\<lambda>(bs, k). Inr (b # bs, k))))
     else bindE (packblock nxt k) (\<lambda>(bs, k). Inr (nbp # bs, k)))"

text \<open>The result of \<open>bl2mem\<close> is what it stored at \<open>p\<close>, with the chain it returns.\<close>

fun bl2mem :: "block list \<Rightarrow> int \<Rightarrow> kmem \<Rightarrow> u8 list \<times> block list \<times> kmem" where
  "bl2mem [] n k = ([], [], k)"
| "bl2mem (b # nxt) n k =
    (let i = BLEN b in
     if i > n then (take (nat n) (bdata b), b\<lparr>rp := rp b + nat n\<rparr> # nxt, k)
     else
       let (xs, bs, k) = bl2mem nxt (n - i) (freeb (b\<lparr>rp := rp b + nat i\<rparr>) k)
       in (bdata b @ xs, bs, k))"

definition Maxatomic :: nat where "Maxatomic = 64 * 1024"

text \<open>The \<open>do ... while(len > 0)\<close> loop of \<open>mem2bl\<close>: an empty \<open>p\<close> still gives one block.\<close>

function mem2bl :: "u8 list \<Rightarrow> kmem \<Rightarrow> fault + (block list \<times> kmem)" where
  "mem2bl p k =
    (let n = min (length p) Maxatomic in
     bindE (allocb n k) (\<lambda>(b, k).
     bindE (bput b (take n p)) (\<lambda>b.
     if length p - n > 0 then bindE (mem2bl (drop n p) k) (\<lambda>(bs, k). Inr (b # bs, k))
     else Inr ([b], k))))"
  by pat_completeness auto
termination
  by (relation "measure (\<lambda>(p, k). length p)") (auto simp: Maxatomic_def)

declare mem2bl.simps [simp del]

section \<open>Bytes and ownership\<close>

definition cdata :: "block list \<Rightarrow> u8 list" where
  "cdata bs = concat (map bdata bs)"

definition wfc :: "block list \<Rightarrow> bool" where
  "wfc bs = list_all wfb bs"

definition bases :: "block list \<Rightarrow> nat multiset" where
  "bases bs = mset (map base bs)"

definition held :: "kmem \<Rightarrow> nat multiset" where
  "held k = mset (freed k) + mset (hooked k) + mset (List.map_filter id (mallocs k))"

text \<open>
  Concrete blocks and allocator states: a block at \<open>a\<close> with \<open>h\<close> free bytes in front of \<open>xs\<close>
  and \<open>t\<close> behind; an allocator that will answer \<open>ms\<close>.
\<close>

definition blk :: "nat \<Rightarrow> nat \<Rightarrow> u8 list \<Rightarrow> nat \<Rightarrow> block" where
  "blk a h xs t =
    \<lparr>baddr = a + h + length xs + t, base = a, rp = a + h, wp = a + h + length xs,
     lim = a + h + length xs + t, buf = replicate h 0 @ xs @ replicate t 0, hook = False, bflag = 0\<rparr>"

definition kmem0 :: "nat option list \<Rightarrow> kmem" where
  "kmem0 ms =
    \<lparr>mallocs = ms, freed = [], hooked = [], ibytes = 0, ilimit = 1000000, m1 = 0, m2 = 0, mp = 0,
     inproc = True, qcount = (\<lambda>_. 0)\<rparr>"

lemma blk_simps [simp]:
  "wfb (blk a h xs t)" "bdata (blk a h xs t) = xs" "base (blk a h xs t) = a"
  "BLEN (blk a h xs t) = int (length xs)" "BALLOC (blk a h xs t) = int (h + length xs + t)"
  "rp (blk a h xs t) = a + h" "lim (blk a h xs t) = a + h + length xs + t" "bflag (blk a h xs t) = 0"
  by (simp_all add: blk_def wfb_def bdata_def BLEN_def BALLOC_def)

lemma kmem0_simps [simp]:
  "mallocs (kmem0 ms) = ms" "inproc (kmem0 ms)" "held (kmem0 ms) = mset (List.map_filter id ms)"
  "ibytes (kmem0 ms) = 0" "ilimit (kmem0 ms) = 1000000"
  by (simp_all add: kmem0_def held_def)

lemma cdata_simps [simp, chain_simps]:
  "cdata [] = []" "cdata (b # bs) = bdata b @ cdata bs" "cdata (xs @ ys) = cdata xs @ cdata ys"
  by (simp_all add: cdata_def)

lemma wfc_simps [simp]:
  "wfc []" "wfc (b # bs) \<longleftrightarrow> wfb b \<and> wfc bs" "wfc (xs @ ys) \<longleftrightarrow> wfc xs \<and> wfc ys"
  by (simp_all add: wfc_def)

lemma bases_simps [simp]:
  "bases [] = {#}" "bases (b # bs) = add_mset (base b) (bases bs)"
  "bases (xs @ ys) = bases xs + bases ys"
  by (simp_all add: bases_def)

lemma blocklen_cdata: "wfc bs \<Longrightarrow> blocklen bs = int (length (cdata bs))"
  by (induction bs) (auto simp: BLEN_bdata)

lemma blocklen_append [simp]: "blocklen (xs @ ys) = blocklen xs + blocklen ys"
  by (induction xs) auto

lemma blockalloclen_append [simp]: "blockalloclen (xs @ ys) = blockalloclen xs + blockalloclen ys"
  by (induction xs) auto

lemma blockalloclen_nonneg: "wfc bs \<Longrightarrow> 0 \<le> blockalloclen bs"
  by (induction bs) (auto simp: BALLOC_nonneg)

lemma blocklen_le_alloc: "wfc bs \<Longrightarrow> blocklen bs \<le> blockalloclen bs"
  by (induction bs) (auto intro: add_mono BLEN_le_BALLOC)

lemma held_counter [simp]: "held (counter i k) = held k" "held (bytes i n k) = held k"
  by (simp_all add: held_def counter_def bytes_def)

lemma counter_fields [simp]:
  "mallocs (counter i k) = mallocs k" "inproc (counter i k) = inproc k"
  "mallocs (bytes i n k) = mallocs k" "inproc (bytes i n k) = inproc k"
  by (simp_all add: counter_def bytes_def)

lemma freeb_fields [simp]:
  "mallocs (freeb b k) = mallocs k" "inproc (freeb b k) = inproc k"
  by (simp_all add: freeb_def Let_def)

lemma held_freeb [simp]: "held (freeb b k) = add_mset (base b) (held k)"
  by (simp add: held_def freeb_def Let_def)

lemma freeblist_fields [simp]:
  "mallocs (freeblist bs k) = mallocs k" "inproc (freeblist bs k) = inproc k"
  by (induction bs arbitrary: k) simp_all

lemma held_freeblist [simp]: "held (freeblist bs k) = bases bs + held k"
  by (induction bs arbitrary: k) (simp_all add: ac_simps)

lemma held_malloc [simp]:
  "mallocs k = Some p # as \<Longrightarrow> held k = add_mset p (held (k\<lparr>mallocs := as\<rparr>))"
  by (simp add: held_def List.map_filter_simps)

lemma allocb_InrD:
  assumes "allocb sz k = Inr (b, k')"
  obtains p where "b = layoutb p sz" "mallocs k = Some p # mallocs k'" "inproc k" "inproc k'"
    "held k = add_mset p (held k')" "wfb b" "bdata b = []" "rp b + sz \<le> lim b" "wp b = rp b"
    "base b = p" "freed k' = freed k"
  using assms layoutb_bounds[of _ sz]
  by (auto simp: allocb_eq held_def List.map_filter_simps wf_intros chain_simps
      split: if_splits list.splits option.splits)

section \<open>Storing bytes\<close>

lemma bappend_fields [simp]:
  "base (bappend b xs) = base b" "rp (bappend b xs) = rp b" "lim (bappend b xs) = lim b"
  "wp (bappend b xs) = wp b + length xs" "baddr (bappend b xs) = baddr b"
  "hook (bappend b xs) = hook b" "bflag (bappend b xs) = bflag b"
  by (simp_all add: bappend_def)

lemma wfb_bappend [wf_intros]: "wfb b \<Longrightarrow> wp b + length xs \<le> lim b \<Longrightarrow> wfb (bappend b xs)"
  by (auto simp: wfb_def bappend_def)

lemma bdata_bappend [chain_simps]:
  assumes "wfb b" and "wp b + length xs \<le> lim b"
  shows "bdata (bappend b xs) = bdata b @ xs"
proof -
  have "take (wp b - base b + length xs - (rp b - base b))
          (drop (rp b - base b) (poke (buf b) (wp b - base b) xs))
      = take (wp b - base b - (rp b - base b)) (drop (rp b - base b) (buf b)) @ xs"
    using assms by (intro take_drop_poke_append) (auto simp: wfb_def)
  then show ?thesis
    using assms by (simp add: bdata_def bappend_def wfb_def)
qed

lemma bput_Inr [simp]: "wp b + length xs \<le> lim b \<Longrightarrow> bput b xs = Inr (bappend b xs)"
  by (simp add: bput_def)

lemma BLEN_bappend [simp]: "BLEN (bappend b xs) = BLEN b + int (length xs)"
  by (simp add: BLEN_def)

text \<open>Dropping bytes from the front and the back of a block.\<close>

lemma wfb_rp_add [wf_intros]: "wfb b \<Longrightarrow> n \<le> length (bdata b) \<Longrightarrow> wfb (b\<lparr>rp := rp b + n\<rparr>)"
  by (auto simp: wfb_def wfb_length_bdata bdata_def)

lemma bdata_rp_add [chain_simps]:
  "wfb b \<Longrightarrow> bdata (b\<lparr>rp := rp b + n\<rparr>) = drop n (bdata b)"
  by (auto simp: bdata_def wfb_def drop_take add.commute)

lemma wfb_wp [wf_intros]:
  "wfb b \<Longrightarrow> n \<le> length (bdata b) \<Longrightarrow> wfb (b\<lparr>wp := rp b + n\<rparr>)"
  by (auto simp: wfb_def wfb_length_bdata bdata_def)

lemma bdata_wp [chain_simps]:
  assumes "wfb b" and "n \<le> length (bdata b)"
  shows "bdata (b\<lparr>wp := rp b + n\<rparr>) = take n (bdata b)"
proof -
  have "n \<le> wp b - rp b" using assms by (simp add: wfb_length_bdata)
  then show ?thesis by (simp add: bdata_def)
qed

lemma bdata_rp_sub:
  assumes "wfb b" and "base b + s \<le> rp b"
  shows "\<exists>pad. length pad = s \<and> bdata (b\<lparr>rp := rp b - s\<rparr>) = pad @ bdata b"
proof -
  let ?d = "drop (rp b - s - base b) (buf b)"
  have "bdata (b\<lparr>rp := rp b - s\<rparr>) = take (s + (wp b - rp b)) ?d"
    using assms by (auto simp: bdata_def wfb_def intro!: arg_cong2[where f=take])
  also have "\<dots> = take s ?d @ take (wp b - rp b) (drop s ?d)"
    by (simp add: take_add)
  also have "drop s ?d = drop (rp b - base b) (buf b)"
    using assms by (simp add: add.commute)
  finally have "bdata (b\<lparr>rp := rp b - s\<rparr>) = take s ?d @ bdata b" by (simp add: bdata_def)
  moreover have "length (take s ?d) = s" using assms by (auto simp: wfb_def)
  ultimately show ?thesis by blast
qed

lemma wfb_rp_sub [wf_intros]:
  "wfb b \<Longrightarrow> base b + s \<le> rp b \<Longrightarrow> wfb (b\<lparr>rp := rp b - s\<rparr>)"
  by (auto simp: wfb_def)

lemma wfb_room: "wfb b \<Longrightarrow> length (bdata b) + n \<le> lim b - rp b \<longleftrightarrow> wp b + n \<le> lim b"
  by (auto simp: wfb_length_bdata wfb_def)

section \<open>Padding\<close>

text \<open>
  The block \<open>padblock\<close> allocates, with \<open>s\<close> bytes set aside in front of what it copies.
\<close>

lemma padded_copy:
  fixes p s n :: nat
  defines "nb \<equiv> (layoutb p (s + n))\<lparr>rp := rp (layoutb p (s + n)) + s, wp := rp (layoutb p (s + n)) + s\<rparr>"
  assumes "length xs = n"
  shows "wfb (bappend nb xs)" and "bdata (bappend nb xs) = xs"
    and "bput nb xs = Inr (bappend nb xs)" and "base nb + s \<le> rp nb"
proof -
  note lb = layoutb_bounds[of p "s + n"]
  have fits: "wp nb + length xs \<le> lim nb" using lb assms by (simp add: nb_def)
  have wf: "wfb nb" using lb by (simp add: wfb_def nb_def Hdrspc_def)
  show "wfb (bappend nb xs)" using wf fits by (rule wfb_bappend)
  have "bdata nb = []" by (simp add: nb_def bdata_def)
  then show "bdata (bappend nb xs) = xs" using wf fits by (simp add: bdata_bappend)
  show "bput nb xs = Inr (bappend nb xs)" using fits by simp
  show "base nb + s \<le> rp nb" using lb by (simp add: nb_def)
qed

text \<open>
  padding with headroom to spare moves only \<open>rp\<close>: the same block, the chain behind it and
  the allocator untouched, with \<open>size\<close> more bytes in front of the data.
\<close>

lemma padblock_in_place:
  assumes "wfb bp" and "0 \<le> sz" and "sz \<le> int (rp bp) - int (base bp)"
  shows "\<exists>nb pad. padblock (bp # nxt) sz k = Inr (nb # nxt, k) \<and> wfb nb \<and> base nb = base bp
    \<and> bdata nb = pad @ bdata bp \<and> int (length pad) = sz"
proof -
  let ?nb = "bp\<lparr>rp := rp bp - nat sz\<rparr>"
  have room: "base bp + nat sz \<le> rp bp" using assms by linarith
  obtain pad where "length pad = nat sz" "bdata ?nb = pad @ bdata bp"
    using bdata_rp_sub[OF assms(1) room] by blast
  moreover have "wfb ?nb" using assms(1) room by (rule wfb_rp_sub)
  moreover have "nat (int (rp bp) - sz) = rp bp - nat sz" using assms room by linarith
  ultimately show ?thesis using assms by auto
qed

text \<open>
  padding without headroom copies into one fresh block with \<open>size\<close> bytes set aside, frees
  the old block, and neither loses nor duplicates a buffer.
\<close>

lemma padblock_realloc:
  assumes wf: "wfb bp" and sz: "0 \<le> sz" "\<not> sz \<le> int (rp bp) - int (base bp)"
    and al: "inproc k" "mallocs k = Some p # as"
  shows "\<exists>nb pad k'. padblock [bp] sz k = Inr ([nb], k') \<and> wfb nb
    \<and> bdata nb = pad @ bdata bp \<and> int (length pad) = sz \<and> mallocs k' = as \<and> inproc k'
    \<and> bases [nb] + held k' = bases [bp] + held k"
proof -
  let ?s = "nat sz" and ?n = "length (bdata bp)"
  let ?l = "layoutb p (?s + ?n)"
  let ?nb = "?l\<lparr>rp := rp ?l + ?s, wp := rp ?l + ?s\<rparr>"
  let ?b = "bappend ?nb (bdata bp)"
  have pc: "wfb ?b" "bdata ?b = bdata bp" "bput ?nb (bdata bp) = Inr ?b" "base ?nb + ?s \<le> rp ?nb"
    using padded_copy[of "bdata bp" ?n p ?s] by simp_all
  obtain pad where pad: "length pad = ?s" "bdata (?b\<lparr>rp := rp ?b - ?s\<rparr>) = pad @ bdata bp"
    using bdata_rp_sub[of ?b ?s] pc by auto
  have wfnb: "wfb (?b\<lparr>rp := rp ?b - ?s\<rparr>)" using pc by (intro wfb_rp_sub) auto
  have nn: "nat (sz + BLEN bp) = ?s + ?n" using sz wf by (simp add: BLEN_bdata nat_add_distrib)
  have alloc: "allocb (?s + ?n) (counter Cpadblockcnt k)
      = Inr (?l, (counter Cpadblockcnt k)\<lparr>mallocs := as\<rparr>)" using al by simp
  define nb k' where "nb = ?b\<lparr>rp := rp ?b - ?s\<rparr>"
    and "k' = freeb bp ((counter Cpadblockcnt k)\<lparr>mallocs := as\<rparr>)"
  have "padblock [bp] sz k = Inr ([nb], k')"
    using sz pc(3) by (simp add: Let_def nn alloc nb_def k'_def)
  moreover have "bases [nb] + held k' = bases [bp] + held k"
    using held_malloc[of "counter Cpadblockcnt k" p as] al by (simp add: nb_def k'_def)
  moreover have "mallocs k' = as" "inproc k'" using al by (simp_all add: k'_def)
  ultimately show ?thesis using pad wfnb sz unfolding nb_def[symmetric] by auto
qed

section \<open>Concatenation\<close>

lemma catloop_ok:
  assumes "wfb nb" and "wfc bs" and "wp nb + length (cdata bs) \<le> lim nb"
  shows "\<exists>nb'. catloop nb bs = Inr nb' \<and> wfb nb' \<and> bdata nb' = bdata nb @ cdata bs
    \<and> base nb' = base nb \<and> lim nb' = lim nb \<and> rp nb' = rp nb"
  using assms
proof (induction bs arbitrary: nb)
  case Nil
  then show ?case by simp
next
  case (Cons b bs)
  have "wfb (bappend nb (bdata b))" using Cons.prems by (intro wfb_bappend) auto
  then show ?case
    using Cons.IH[of "bappend nb (bdata b)"] Cons.prems by (auto simp: bdata_bappend)
qed

text \<open>
  \<open>concatblock\<close> turns a chain into one block with exactly the chain's bytes, and frees every
  block it copied from.
\<close>

lemma concatblock_ok:
  assumes "wfc bs" and "bs \<noteq> []" and "inproc k" and "mallocs k = Some p # as"
  shows "\<exists>nb k'. concatblock bs k = Inr ([nb], k') \<and> wfb nb \<and> bdata nb = cdata bs
    \<and> bases [nb] + held k' = bases bs + held k"
proof (cases "\<exists>b. bs = [b]")
  case True
  then show ?thesis using assms by auto
next
  case False
  then obtain b1 b2 bs' where bs: "bs = b1 # b2 # bs'"
    using assms(2) by (metis neq_Nil_conv)
  let ?l = "layoutb p (length (cdata bs))"
  have room: "wp ?l + length (cdata bs) \<le> lim ?l"
    using layoutb_bounds[of p "length (cdata bs)"] by simp
  obtain nb where nb: "catloop ?l bs = Inr nb" "wfb nb" "bdata nb = cdata bs" "base nb = p"
    using catloop_ok[OF wfb_layoutb assms(1) room] by (auto simp: bdata_layoutb)
  have len: "nat (blocklen bs) = length (cdata bs)" using assms(1) by (simp add: blocklen_cdata)
  have "concatblock bs k =
      Inr ([nb], freeblist bs (bytes Ccatblockbytes (BLEN nb) (k\<lparr>mallocs := as\<rparr>)))"
    using nb(1) assms(3,4) len unfolding bs concatblock.simps by (simp add: Let_def)
  then show ?thesis using nb assms(4) by (auto simp: held_malloc[OF assms(4)])
qed

section \<open>Pulling up\<close>

lemma pulluploop_enough:
  assumes "wfb bp" and "wfc nxt" and "0 < n" and "wp bp + n \<le> lim bp" and "n \<le> length (cdata nxt)"
  shows "\<exists>b nx k'. pulluploop bp (int n) nxt k = Inr (b # nx, k') \<and> wfc (b # nx)
    \<and> cdata (b # nx) = bdata bp @ cdata nxt \<and> length (bdata b) = length (bdata bp) + n
    \<and> bases (b # nx) + held k' = bases (bp # nxt) + held k"
  using assms
proof (induction nxt arbitrary: bp n k)
  case Nil
  then show ?case by simp
next
  case (Cons nb nx)
  let ?i = "length (bdata nb)"
  have wf: "wfb nb" "wfc nx" and L: "BLEN nb = int ?i" using Cons.prems(2) by (simp_all add: BLEN_bdata)
  show ?case
  proof (cases "n < ?i")
    case True
    let ?b = "bappend bp (take n (bdata nb))"
    have "pulluploop bp (int n) (nb # nx) k
        = Inr (?b # nb\<lparr>rp := rp nb + n\<rparr> # nx, counter Cpullupblockcnt k)"
      using True Cons.prems by (simp add: Let_def L)
    moreover have "wfb ?b" "wfb (nb\<lparr>rp := rp nb + n\<rparr>)" "bdata ?b = bdata bp @ take n (bdata nb)"
      using True Cons.prems wf by (auto intro!: wf_intros simp: chain_simps)
    ultimately show ?thesis using True wf by (simp add: bdata_rp_add)
  next
    case False
    let ?b = "bappend bp (bdata nb)" and ?k = "freeb nb (counter Cpullupblockcnt k)"
    have wfb': "wfb ?b" and d: "bdata ?b = bdata bp @ bdata nb"
      using False Cons.prems by (auto intro!: wf_intros simp: chain_simps)
    have eq: "pulluploop bp (int n) (nb # nx) k =
        (if n = ?i then Inr (?b # nx, ?k) else pulluploop ?b (int (n - ?i)) nx ?k)"
      using False Cons.prems by (simp add: Let_def L of_nat_diff)
    show ?thesis
    proof (cases "n = ?i")
      case True
      then show ?thesis using eq wfb' wf d by simp
    next
      case neq: False
      have "\<exists>b nx' k'. pulluploop ?b (int (n - ?i)) nx ?k = Inr (b # nx', k') \<and> wfc (b # nx')
        \<and> cdata (b # nx') = bdata ?b @ cdata nx \<and> length (bdata b) = length (bdata ?b) + (n - ?i)
        \<and> bases (b # nx') + held k' = bases (?b # nx) + held ?k"
        using False neq Cons.prems by (intro Cons.IH wfb' wf) auto
      then show ?thesis using eq neq False d by auto
    qed
  qed
qed

lemma pulluploop_short:
  assumes "wfb bp" and "wfc nxt" and "wp bp + length (cdata nxt) \<le> lim bp"
    and "int (length (cdata nxt)) < n"
  shows "\<exists>k'. pulluploop bp n nxt k = Inr ([], k') \<and> held k' = bases (bp # nxt) + held k"
  using assms
proof (induction nxt arbitrary: bp n k)
  case Nil
  then show ?case by simp
next
  case (Cons nb nx)
  let ?b = "bappend bp (bdata nb)" and ?k = "freeb nb (counter Cpullupblockcnt k)"
  let ?i = "int (length (bdata nb))"
  have L: "BLEN nb = ?i" using Cons.prems(2) by (simp add: BLEN_bdata)
  have "\<exists>k'. pulluploop ?b (n - ?i) nx ?k = Inr ([], k') \<and> held k' = bases (?b # nx) + held ?k"
    using Cons.prems by (intro Cons.IH) (auto intro!: wf_intros)
  moreover have "pulluploop bp n (nb # nx) k = pulluploop ?b (n - ?i) nx ?k"
    using Cons.prems by (simp add: Let_def L)
  ultimately show ?case by (simp add: add_mset_commute)
qed

lemma pullupblock_enough:
  assumes "wfc (bp # nxt)" and "n \<le> blocklen (bp # nxt)"
    and "inproc k" and "mallocs k = Some p # as"
  shows "\<exists>b nx k'. pullupblock (bp # nxt) n k = Inr (b # nx, k') \<and> wfc (b # nx)
    \<and> cdata (b # nx) = cdata (bp # nxt) \<and> n \<le> BLEN b
    \<and> bases (b # nx) + held k' = bases (bp # nxt) + held k"
proof (cases "BLEN bp \<ge> n")
  case True
  then show ?thesis using assms by auto
next
  case small: False
  have wf: "wfb bp" "wfc nxt" using assms(1) by auto
  have L: "BLEN bp = int (length (bdata bp))" using wf by (simp add: BLEN_bdata)
  define m where "m = nat n - length (bdata bp)"
  have m: "0 < m" "n = int (length (bdata bp) + m)" "m \<le> length (cdata nxt)"
    using small assms by (simp_all add: m_def L blocklen_cdata)
  show ?thesis
  proof (cases "int (lim bp) - int (rp bp) < n")
    case False
    then have "wp bp + m \<le> lim bp" using wf m by (auto simp: wfb_def wfb_length_bdata)
    then obtain b nx k' where "pulluploop bp (int m) nxt k = Inr (b # nx, k')" "wfc (b # nx)"
      "cdata (b # nx) = bdata bp @ cdata nxt" "length (bdata b) = length (bdata bp) + m"
      "bases (b # nx) + held k' = bases (bp # nxt) + held k"
      using pulluploop_enough[OF wf m(1) _ m(3), of k] by blast
    then show ?thesis using False small m by (auto simp: L BLEN_bdata)
  next
    case True
    let ?l = "layoutb p (nat n)" and ?k = "k\<lparr>mallocs := as\<rparr>"
    have room: "wp ?l + nat n \<le> lim ?l" using layoutb_bounds[of p "nat n"] by simp
    have "nat n \<le> length (cdata (bp # nxt))" "0 < nat n" using m by auto
    then obtain b nx k' where lp: "pulluploop ?l (int (nat n)) (bp # nxt) ?k = Inr (b # nx, k')"
      "wfc (b # nx)" "cdata (b # nx) = cdata (bp # nxt)" "length (bdata b) = nat n"
      "bases (b # nx) + held k' = bases (?l # bp # nxt) + held ?k"
      using pulluploop_enough[OF wfb_layoutb[of p "nat n"] assms(1) _ room, of ?k]
      by (auto simp: bdata_layoutb)
    have "pullupblock (bp # nxt) n k = Inr (b # nx, k')"
      using True small lp(1) assms m layoutb_bounds(2)[of p "nat n"] by (simp add: BLEN_def)
    then show ?thesis using lp assms m by (auto simp: BLEN_bdata)
  qed
qed

lemma pullupblock_short:
  assumes "wfc (bp # nxt)" and "blocklen (bp # nxt) < n"
    and "inproc k" and "mallocs k = Some p # as"
  shows "\<exists>k'. pullupblock (bp # nxt) n k = Inr ([], k')
    \<and> held k' = bases (bp # nxt) + held k"
proof -
  have wf: "wfb bp" "wfc nxt" using assms(1) by auto
  have L: "BLEN bp = int (length (bdata bp))" using wf by (simp add: BLEN_bdata)
  have short: "length (cdata (bp # nxt)) < nat n" "n = int (nat n)"
    using assms by (simp_all add: blocklen_cdata L)
  have small: "\<not> BLEN bp \<ge> n" using short by (simp add: L)
  show ?thesis
  proof (cases "int (lim bp) - int (rp bp) < n")
    case False
    then have "wp bp + length (cdata nxt) \<le> lim bp"
      using wf short by (auto simp: wfb_def wfb_length_bdata)
    then show ?thesis using pulluploop_short[OF wf, of "n - BLEN bp" k] False small short
      by (auto simp: L)
  next
    case True
    let ?l = "layoutb p (nat n)" and ?k = "k\<lparr>mallocs := as\<rparr>"
    have "wp ?l + length (cdata (bp # nxt)) \<le> lim ?l"
      using layoutb_bounds[of p "nat n"] short(1) by simp
    then show ?thesis
      using pulluploop_short[OF wfb_layoutb[of p "nat n"] assms(1), of n ?k] True small short
        assms layoutb_bounds(2)[of p "nat n"] by (auto simp: BLEN_def)
  qed
qed

section \<open>Trimming, copying, adjusting\<close>

lemma trimskip_ok:
  assumes "wfc bs" and "bs \<noteq> []" and "0 \<le> off" and "off \<le> blocklen bs"
  shows "\<exists>b nx off' k'. trimskip bs off k = Inr (b # nx, off', k') \<and> wfc (b # nx)
    \<and> 0 \<le> off' \<and> off' \<le> BLEN b \<and> drop (nat off') (cdata (b # nx)) = drop (nat off) (cdata bs)
    \<and> bases (b # nx) + held k' = bases bs + held k"
  using assms
proof (induction bs arbitrary: off k)
  case Nil
  then show ?case by simp
next
  case (Cons b bs)
  have L: "BLEN b = int (length (bdata b))" using Cons.prems by (simp add: BLEN_bdata)
  show ?case
  proof (cases "BLEN b < off")
    case True
    have "bs \<noteq> []" using True Cons.prems by auto
    then obtain b' nx off' k' where IH: "trimskip bs (off - BLEN b) (freeb b k) = Inr (b' # nx, off', k')"
      "wfc (b' # nx)" "0 \<le> off'" "off' \<le> BLEN b'"
      "drop (nat off') (cdata (b' # nx)) = drop (nat (off - BLEN b)) (cdata bs)"
      "bases (b' # nx) + held k' = bases bs + held (freeb b k)"
      using Cons.IH[of "off - BLEN b" "freeb b k"] True Cons.prems by auto
    have "drop (nat off) (cdata (b # bs)) = drop (nat (off - BLEN b)) (cdata bs)"
      using True by (simp add: L nat_diff_distrib)
    then show ?thesis using IH True by auto
  next
    case False
    then show ?thesis using Cons.prems by auto
  qed
qed

lemma trimtail_ok:
  assumes "wfc bs" and "bs \<noteq> []" and "0 \<le> len" and "len \<le> blocklen bs"
  shows "\<exists>r k'. trimtail bs len k = Inr (r, k') \<and> wfc r \<and> cdata r = take (nat len) (cdata bs)
    \<and> bases r + held k' = bases bs + held k"
  using assms
proof (induction bs arbitrary: len k)
  case Nil
  then show ?case by simp
next
  case (Cons b bs)
  have wf: "wfb b" and L: "BLEN b = int (length (bdata b))" using Cons.prems by (simp_all add: BLEN_bdata)
  show ?case
  proof (cases "BLEN b < len")
    case True
    have "bs \<noteq> []" using True Cons.prems by auto
    then obtain r k' where IH: "trimtail bs (len - BLEN b) k = Inr (r, k')" "wfc r"
      "cdata r = take (nat (len - BLEN b)) (cdata bs)" "bases r + held k' = bases bs + held k"
      using Cons.IH[of "len - BLEN b" k] True Cons.prems by auto
    have "take (nat len) (cdata (b # bs)) = bdata b @ take (nat (len - BLEN b)) (cdata bs)"
      using True by (simp add: L nat_diff_distrib)
    then show ?thesis using IH True wf by auto
  next
    case False
    have eq: "wp b - nat (BLEN b - len) = rp b + nat len"
      using False Cons.prems wf by (auto simp: BLEN_def wfb_def)
    have le: "nat len \<le> length (bdata b)" using False Cons.prems by (simp add: L)
    show ?thesis using False wf le by (simp add: eq wfb_wp bdata_wp)
  qed
qed

text \<open>
  \<open>trimblock\<close> returns the \<open>len\<close> bytes from \<open>offset\<close> of the chain where the chain holds them
  and \<open>nil\<close> where it does not; what it cuts off is freed.
\<close>

lemma trimblock_ok:
  assumes "wfc bs" and "bs \<noteq> []" and "0 \<le> off" and "0 \<le> len"
  shows "\<exists>r k'. trimblock bs off len k = Inr (r, k') \<and> wfc r
    \<and> (if blocklen bs < off + len then r = [] else cdata r = take (nat len) (drop (nat off) (cdata bs)))
    \<and> bases r + held k' = bases bs + held k"
proof (cases "blocklen bs < off + len")
  case True
  then show ?thesis by (simp add: trimblock_def)
next
  case False
  then obtain b nx off' k' where ts: "trimskip bs off k = Inr (b # nx, off', k')" "wfc (b # nx)"
    "0 \<le> off'" "off' \<le> BLEN b" "drop (nat off') (cdata (b # nx)) = drop (nat off) (cdata bs)"
    "bases (b # nx) + held k' = bases bs + held k"
    using trimskip_ok[OF assms(1-3), of k] assms(4) by auto
  let ?b = "b\<lparr>rp := rp b + nat off'\<rparr>"
  have le: "nat off' \<le> length (bdata b)" using ts by (simp add: BLEN_bdata)
  have wf: "wfc (?b # nx)" using ts(2) le by (auto intro!: wf_intros)
  have cd: "cdata (?b # nx) = drop (nat off) (cdata bs)"
    using ts(2,5) le by (simp add: bdata_rp_add)
  have "len \<le> int (length (drop (nat off) (cdata bs)))"
    using False assms blocklen_cdata[OF assms(1)] by auto
  then have "len \<le> blocklen (?b # nx)" by (simp only: blocklen_cdata[OF wf] cd)
  then obtain r k2 where "trimtail (?b # nx) len k' = Inr (r, k2)" "wfc r"
    "cdata r = take (nat len) (drop (nat off) (cdata bs))"
    "bases r + held k2 = bases (?b # nx) + held k'"
    using trimtail_ok[OF wf _ assms(4), of k', unfolded cd] by blast
  then show ?thesis using False ts(1,6) by (simp add: trimblock_def del: trimtail.simps)
qed

lemma take_min_length [simp]:
  "take (min n (length xs)) xs = take n xs" "take (min (length xs) n) xs = take n xs"
  by (simp_all add: min_def)

lemma copyloop_ok:
  assumes "wfb nb" and "wfc bs" and "wp nb + cn \<le> lim nb"
  shows "\<exists>nb' rest. copyloop nb bs (int cn) = Inr (nb', int rest) \<and> wfb nb'
    \<and> bdata nb' = bdata nb @ take cn (cdata bs) \<and> rest = cn - length (cdata bs)
    \<and> wp nb' + rest \<le> lim nb' \<and> base nb' = base nb"
  using assms
proof (induction bs arbitrary: nb cn)
  case Nil
  then show ?case by simp
next
  case (Cons b bs)
  let ?l = "min cn (length (bdata b))"
  let ?nb = "bappend nb (take ?l (bdata b))"
  have L: "BLEN b = int (length (bdata b))" using Cons.prems by (simp add: BLEN_bdata)
  have fit: "wp nb + length (take cn (bdata b)) \<le> lim nb" using Cons.prems by simp
  then have wf: "wfb ?nb" and d: "bdata ?nb = bdata nb @ take cn (bdata b)"
    using Cons.prems wfb_bappend[OF _ fit] bdata_bappend[OF _ fit] by simp_all
  have "\<exists>nb' rest. copyloop ?nb bs (int (cn - ?l)) = Inr (nb', int rest) \<and> wfb nb'
    \<and> bdata nb' = bdata ?nb @ take (cn - ?l) (cdata bs) \<and> rest = cn - ?l - length (cdata bs)
    \<and> wp nb' + rest \<le> lim nb' \<and> base nb' = base ?nb"
    using Cons.prems wf by (intro Cons.IH) auto
  moreover have "copyloop nb (b # bs) (int cn) = copyloop ?nb bs (int (cn - ?l))" if "0 < cn"
    using that Cons.prems by (auto simp: Let_def L min_def of_nat_diff)
  moreover have "cn - ?l = cn - length (bdata b)" by simp
  ultimately show ?case using Cons.prems d by (cases "cn = 0") auto
qed

text \<open>
  \<open>copyblock\<close> makes a fresh block of \<open>count\<close> bytes, the chain's bytes padded with zeros, and
  leaves the chain alone.
\<close>

lemma copyblock_ok:
  assumes "wfc (b # bs)" and "\<not> flag_on (bflag b) BINTR" and "0 \<le> cn"
    and "inproc k" and "mallocs k = Some p # as"
  shows "\<exists>nb k'. copyblock (b # bs) cn k = Inr (Some nb, k') \<and> wfb nb
    \<and> bdata nb = take (nat cn) (cdata (b # bs)) @ replicate (nat cn - length (cdata (b # bs))) 0
    \<and> bases [nb] + held k' = held k"
proof -
  obtain c where c: "cn = int c" using assms(3) nonneg_int_cases by blast
  define r where "r = c - length (cdata (b # bs))"
  let ?l = "layoutb p c"
  have room: "wp ?l + c \<le> lim ?l" using layoutb_bounds[of p c] by simp
  obtain nb where nb: "copyloop ?l (b # bs) (int c) = Inr (nb, int r)" "wfb nb"
    "bdata nb = take c (cdata (b # bs))" "wp nb + r \<le> lim nb" "base nb = p"
    using copyloop_ok[OF wfb_layoutb assms(1) room] by (auto simp: bdata_layoutb r_def)
  let ?nb = "bappend nb (replicate r 0)"
  have "copyblock (b # bs) cn k = Inr (Some ?nb, counter Ccopyblockcnt (k\<lparr>mallocs := as\<rparr>))"
    using assms nb(1,4) by (simp add: c bappend_def del: copyloop.simps)
  moreover have "wfb ?nb" "bdata ?nb = bdata nb @ replicate r 0"
    using nb by (auto intro!: wf_intros simp: bdata_bappend)
  ultimately show ?thesis using nb assms by (auto simp: c r_def held_malloc[OF assms(5)])
qed

lemma adjustblock_in_place:
  assumes "wfc (b # bs)" and "0 \<le> len" and "int (rp b) + len \<le> int (lim b)"
  shows "\<exists>nb. adjustblock (b # bs) len k = Inr (nb # bs, k) \<and> wfb nb \<and> base nb = base b
    \<and> bdata nb = take (nat len) (bdata b) @ replicate (nat len - length (bdata b)) 0"
proof -
  obtain c where c: "len = int c" using assms(2) nonneg_int_cases by blast
  have wf: "wfb b" and L: "BLEN b = int (length (bdata b))" and W: "wp b = rp b + length (bdata b)"
    using assms(1) by (auto simp: BLEN_bdata wfb_length_bdata wfb_def)
  let ?nb = "bappend b (replicate (c - length (bdata b)) 0)"
  have fit: "wp b + length (replicate (c - length (bdata b)) (0::u8)) \<le> lim b"
    using assms(1,3) c W by (auto simp: wfb_def)
  show ?thesis
  proof (cases "c > length (bdata b)")
    case True
    then have n: "nat (int c - int (length (bdata b))) = c - length (bdata b)" by linarith
    have wp: "rp b + c = wp ?nb" using True W by simp
    have "?nb\<lparr>wp := rp b + c\<rparr> = ?nb" unfolding wp by simp
    then have "adjustblock (b # bs) len k = Inr (?nb # bs, k)"
      using True assms(2,3) fit by (simp add: c L Let_def n)
    moreover have "wfb ?nb" "bdata ?nb = bdata b @ replicate (c - length (bdata b)) 0"
      using wf fit by (rule wfb_bappend, rule bdata_bappend)
    ultimately show ?thesis using True c by simp
  next
    case False
    then have "adjustblock (b # bs) len k = Inr (b\<lparr>wp := rp b + c\<rparr> # bs, k)"
      using assms(2,3) by (simp add: c L Let_def)
    then show ?thesis using False wf c by (simp add: wfb_wp bdata_wp)
  qed
qed

section \<open>Discarding, packing, moving\<close>

text \<open>
  \<open>pullblock\<close> removes \<open>count\<close> bytes from the front of a chain, or all it has, returns how many
  it removed and frees the blocks it emptied.
\<close>

lemma pullblock_ok:
  assumes "wfc bs" and "0 \<le> cn" and "pullblock bs cn k = (n, r, k')"
  shows "n = min cn (blocklen bs) \<and> wfc r \<and> cdata r = drop (nat cn) (cdata bs)
    \<and> bases r + held k' = bases bs + held k"
  using assms
proof (induction bs arbitrary: cn k n r k')
  case Nil
  then show ?case by auto
next
  case (Cons b bs)
  have wf: "wfb b" "wfc bs" and L: "BLEN b = int (length (bdata b))"
    using Cons.prems(1) by (simp_all add: BLEN_bdata)
  have ge: "0 \<le> blocklen bs" using wf by (simp add: blocklen_cdata)
  consider "cn = 0" | "0 < cn" "cn < BLEN b" | "0 < cn" "BLEN b \<le> cn"
    using Cons.prems(2) by linarith
  then show ?case
  proof cases
    case 1
    then show ?thesis using Cons.prems wf ge by (auto simp: L)
  next
    case 2
    let ?b = "b\<lparr>rp := rp b + nat cn\<rparr>"
    have "nat (int (rp b) + cn) = rp b + nat cn" using 2 by linarith
    moreover have "BLEN ?b \<noteq> 0" using 2 by (simp add: BLEN_def)
    ultimately have "n = cn" "r = ?b # bs" "k' = k"
      using Cons.prems(3) 2 by (auto simp: Let_def)
    moreover have "nat cn \<le> length (bdata b)" using 2 by (simp add: L)
    ultimately show ?thesis using 2 wf ge by (auto simp: bdata_rp_add intro!: wf_intros)
  next
    case 3
    let ?b = "b\<lparr>rp := nat (int (rp b) + BLEN b)\<rparr>"
    obtain m where IH: "pullblock bs (cn - BLEN b) (freeb ?b k) = (m, r, k')" and n: "n = BLEN b + m"
      using Cons.prems(3) 3 wf by (auto simp: Let_def BLEN_def split: prod.splits)
    have "0 \<le> cn - BLEN b" using 3 by simp
    note IH' = Cons.IH[OF wf(2) this IH]
    have "drop (nat cn) (cdata (b # bs)) = drop (nat (cn - BLEN b)) (cdata bs)"
      using 3 by (simp add: L nat_diff_distrib)
    then show ?thesis using IH' n 3 by (auto simp: min_def)
  qed
qed

text \<open>
  \<open>packblock\<close> keeps the number of blocks and the bytes of each, and trades buffers without
  losing one.
\<close>

lemma packblock_ok:
  assumes "wfc bs" and "packblock bs k = Inr (r, k')"
  shows "wfc r \<and> map bdata r = map bdata bs \<and> bases r + held k' = bases bs + held k"
  using assms
proof (induction bs arbitrary: k r k')
  case Nil
  then show ?case by simp
next
  case (Cons b bs)
  have wf: "wfb b" "wfc bs" and L: "BLEN b = int (length (bdata b))"
    using Cons.prems(1) by (simp_all add: BLEN_bdata)
  show ?case
  proof (cases "BLEN b * 4 < BALLOC b")
    case False
    then obtain r' where "packblock bs k = Inr (r', k')" "r = b # r'"
      using Cons.prems(2) by (auto simp: Let_def bindE_Inr_iff)
    then show ?thesis using Cons.IH wf by auto
  next
    case True
    then obtain nb k1 nb' r' where st: "allocb (length (bdata b)) k = Inr (nb, k1)"
      "bput nb (bdata b) = Inr nb'" "packblock bs (freeb b k1) = Inr (r', k')" "r = nb' # r'"
      using Cons.prems(2) by (auto simp: Let_def bindE_Inr_iff L)
    obtain p where al: "wfb nb" "bdata nb = []" "rp nb + length (bdata b) \<le> lim nb" "wp nb = rp nb"
      "base nb = p" "held k = add_mset p (held k1)"
      using st(1) by (rule allocb_InrD) auto
    have "nb' = bappend nb (bdata b)" using st(2) al by simp
    then have "wfb nb'" "bdata nb' = bdata b" "base nb' = p"
      using al by (simp_all add: wfb_bappend bdata_bappend)
    moreover have "wfc r' \<and> map bdata r' = map bdata bs \<and> bases r' + held k' = bases bs + held (freeb b k1)"
      using Cons.IH wf(2) st(3) by blast
    ultimately show ?thesis using st(4) al by (auto simp: add_mset_commute)
  qed
qed

lemma bl2mem_ok:
  assumes "wfc bs" and "0 \<le> n" and "bl2mem bs n k = (xs, r, k')"
  shows "xs = take (nat n) (cdata bs) \<and> wfc r \<and> cdata r = drop (nat n) (cdata bs)
    \<and> bases r + held k' = bases bs + held k"
  using assms
proof (induction bs arbitrary: n k xs r k')
  case Nil
  then show ?case by simp
next
  case (Cons b bs)
  have wf: "wfb b" "wfc bs" and L: "BLEN b = int (length (bdata b))"
    using Cons.prems(1) by (simp_all add: BLEN_bdata)
  show ?case
  proof (cases "BLEN b > n")
    case True
    then have le: "nat n \<le> length (bdata b)" using L by simp
    show ?thesis using Cons.prems True wf le
      by (auto simp: Let_def bdata_rp_add intro!: wf_intros)
  next
    case False
    then obtain ys where rec: "bl2mem bs (n - BLEN b) (freeb (b\<lparr>rp := rp b + nat (BLEN b)\<rparr>) k) = (ys, r, k')"
      "xs = bdata b @ ys"
      using Cons.prems(3) by (auto simp: Let_def split: prod.splits)
    have "nat n = length (bdata b) + nat (n - BLEN b)" using False L by simp
    then show ?thesis using Cons.IH[OF wf(2) _ rec(1)] rec(2) False by auto
  qed
qed

lemma mem2bl_eq:
  "n = min (length p) Maxatomic \<Longrightarrow> mem2bl p k =
    bindE (allocb n k) (\<lambda>(b, k). bindE (bput b (take n p)) (\<lambda>b.
      if n < length p then bindE (mem2bl (drop n p) k) (\<lambda>(bs, k). Inr (b # bs, k))
      else Inr ([b], k)))"
  by (subst mem2bl.simps) (simp only: Let_def zero_less_diff)

lemma mem2bl_ok:
  assumes "mem2bl p k = Inr (bs, k')"
  shows "wfc bs \<and> bs \<noteq> [] \<and> cdata bs = p \<and> (\<forall>b \<in> set bs. length (bdata b) \<le> Maxatomic)
    \<and> bases bs + held k' = held k"
  using assms
proof (induction p k arbitrary: bs k' rule: mem2bl.induct)
  case (1 p k)
  define n where "n = min (length p) Maxatomic"
  obtain b k1 b' where st: "allocb n k = Inr (b, k1)" "bput b (take n p) = Inr b'"
    and rest: "(if n < length p then bindE (mem2bl (drop n p) k1) (\<lambda>(bs, k). Inr (b' # bs, k))
      else Inr ([b'], k1)) = Inr (bs, k')"
    using "1.prems" by (auto simp: mem2bl_eq[OF n_def] bindE_Inr_iff)
  obtain a where al: "wfb b" "bdata b = []" "rp b + n \<le> lim b" "wp b = rp b" "base b = a"
    "held k = add_mset a (held k1)"
    using st(1) by (rule allocb_InrD) auto
  have n: "n \<le> Maxatomic" "length (take n p) = n" by (simp_all add: n_def)
  have "b' = bappend b (take n p)" using st(2) by (simp add: bput_def split: if_splits)
  then have b': "wfb b'" "bdata b' = take n p" "base b' = a"
    using al n(2) by (simp_all add: wfb_bappend bdata_bappend)
  show ?case
  proof (cases "n < length p")
    case True
    then obtain bs1 where rec: "mem2bl (drop n p) k1 = Inr (bs1, k')" "bs = b' # bs1"
      using rest by (auto simp: bindE_Inr_iff)
    have "wfc bs1 \<and> bs1 \<noteq> [] \<and> cdata bs1 = drop n p \<and> (\<forall>b \<in> set bs1. length (bdata b) \<le> Maxatomic)
      \<and> bases bs1 + held k' = held k1"
      using "1.IH"[OF n_def st(1) refl st(2) _ rec(1)] True by simp
    then show ?thesis using rec(2) b' al n by auto
  next
    case False
    then show ?thesis using rest b' al n by auto
  qed
qed

text \<open>As long as the allocator answers, \<open>mem2bl\<close> returns.\<close>

lemma mem2bl_total:
  assumes "inproc k" and "mallocs k = map Some ps @ as" and "length p < length ps * Maxatomic"
  shows "\<exists>bs k'. mem2bl p k = Inr (bs, k')"
  using assms
proof (induction p k arbitrary: ps rule: mem2bl.induct)
  case (1 p k)
  define n where "n = min (length p) Maxatomic"
  obtain a qs where ps: "ps = a # qs" using "1.prems"(3) by (cases ps) auto
  let ?b = "layoutb a n" and ?k = "k\<lparr>mallocs := map Some qs @ as\<rparr>"
  have al: "allocb n k = Inr (?b, ?k)" using "1.prems" ps by simp
  have bp: "bput ?b (take n p) = Inr (bappend ?b (take n p))"
    using layoutb_bounds[of a n] by (intro bput_Inr) (simp add: n_def)
  show ?case
  proof (cases "n < length p")
    case False
    then show ?thesis using bp by (simp add: mem2bl_eq[OF n_def] al)
  next
    case True
    then have "n = Maxatomic" by (simp add: n_def)
    then have "\<exists>bs k'. mem2bl (drop n p) ?k = Inr (bs, k')"
      using "1.prems" ps True by (intro "1.IH"[OF n_def al refl bp]) auto
    then show ?thesis using True by (auto simp: mem2bl_eq[OF n_def] al bp)
  qed
qed


section \<open>Properties of chains\<close>

text \<open>
  \<open>pullupblock\<close> with \<open>n\<close> bytes in the chain leaves the chain's bytes unchanged and the
  first \<open>n\<close> of them in its first block; with fewer it frees the chain and returns \<open>nil\<close>.
\<close>

lemma pullupblock_ok:
  assumes "wfc (bp # nxt)" and "inproc k" and "mallocs k = Some p # as"
  shows "\<exists>r k'. pullupblock (bp # nxt) n k = Inr (r, k') \<and> wfc r
    \<and> (if n \<le> blocklen (bp # nxt) then r \<noteq> [] \<and> cdata r = cdata (bp # nxt) \<and> n \<le> BLEN (hd r)
       else r = [])
    \<and> bases r + held k' = bases (bp # nxt) + held k"
proof (cases "n \<le> blocklen (bp # nxt)")
  case True
  then obtain b nx k' where "pullupblock (bp # nxt) n k = Inr (b # nx, k')" "wfc (b # nx)"
    "cdata (b # nx) = cdata (bp # nxt)" "n \<le> BLEN b"
    "bases (b # nx) + held k' = bases (bp # nxt) + held k"
    using pullupblock_enough[OF assms(1) _ assms(2,3)] by blast
  then show ?thesis using True by (intro exI[of _ "b # nx"] exI[of _ k']) simp
next
  case False
  then show ?thesis using pullupblock_short[OF assms(1) _ assms(2,3), of n] by auto
qed

text \<open>
  user memory written to a chain by \<open>mem2bl\<close> is read back by \<open>bl2mem\<close> whole and unchanged,
  in blocks of at most \<open>Maxatomic\<close> bytes, and reading it frees every block.
\<close>

lemma mem2bl_bl2mem:
  assumes "inproc k" and "mallocs k = map Some ps @ as" and "length p < length ps * Maxatomic"
  shows "\<exists>bs k1 k2 r. mem2bl p k = Inr (bs, k1) \<and> (\<forall>b \<in> set bs. length (bdata b) \<le> Maxatomic)
    \<and> bl2mem bs (int (length p)) k1 = (p, r, k2) \<and> cdata r = [] \<and> bases r + held k2 = held k"
proof -
  obtain bs k1 where m: "mem2bl p k = Inr (bs, k1)" using mem2bl_total[OF assms] by blast
  note ok = mem2bl_ok[OF m]
  obtain xs r k2 where "bl2mem bs (int (length p)) k1 = (xs, r, k2)" by (meson prod_cases3)
  with bl2mem_ok[OF _ _ this] m ok show ?thesis by auto
qed

end
