(* ===== verification/Qio.thy ===== *)
theory Qio
  imports BlockList
begin

text \<open>
  IO queues: the \<open>Queue\<close> of \<open>src/port/qio.c\<close> and every operation on it.

  The chain that starts at \<open>bfirst\<close> is a list of blocks. The tail pointer \<open>blast\<close> is kept as
  the code keeps it, as a reference to a block (live blocks are told apart by \<open>base\<close>, the
  address of their allocation): appending goes through it (\<open>q->blast->next = b\<close>), so an
  append reaches the chain only where \<open>blast\<close> really is one of its blocks, and cuts off what
  followed that block. That it always is the last block is part of the invariant and not of
  the model.

  Every definition is what happens between \<open>ilock(q)\<close> and \<open>iunlock(q)\<close>, with the wakeups,
  kicks and scheduler calls that follow recorded in order as events. A routine that may
  sleep is cut where it sleeps: its outcome is then \<open>Sleeps\<close> and it starts over from the
  condition it waits for, in whatever state the queue then has. A routine that raises an
  error (\<open>Raises\<close>) leaves the queue in the state given with that outcome.

  The lengths \<open>len\<close>, \<open>dlen\<close> and \<open>limit\<close>, of type \<open>int\<close> in the code, are unbounded integers: the blocks of
  one queue are taken to need less than \<open>2^31\<close> bytes.
\<close>

section \<open>Data\<close>

definition Qstarve :: u32 where "Qstarve = 1"
definition Qmsg :: u32 where "Qmsg = 2"
definition Qclosed :: u32 where "Qclosed = 4"
definition Qflow :: u32 where "Qflow = 8"
definition Qcoalesce :: u32 where "Qcoalesce = 16"
definition Qkick :: u32 where "Qkick = 32"

lemmas qflags = Qstarve_def Qmsg_def Qclosed_def Qflow_def Qcoalesce_def Qkick_def

definition ERRMAX :: nat where "ERRMAX = 128"

definition Ehungup :: string where "Ehungup = ''i/o on hungup channel''"

record queue =
  bfirst :: "block list"
  blast :: nat
  len :: int
  dlen :: int
  limit :: int
  inilim :: int
  state :: u32
  noblock :: bool
  eof :: int
  haskick :: bool
  hasbypass :: bool
  err :: string

datatype event = WakeR | WakeW | Kick | Bypass block | Resched

text \<open>C division of an \<open>int\<close> by 2 rounds towards zero.\<close>

definition half :: "int \<Rightarrow> int" where
  "half n = (if n < 0 then - ((- n) div 2) else n div 2)"

section \<open>Links\<close>

text \<open>\<open>linkat a xs bs\<close>: the chain \<open>xs\<close> after the \<open>next\<close> field of its block \<open>a\<close> was set to \<open>bs\<close>.\<close>

fun linkat :: "nat \<Rightarrow> block list \<Rightarrow> block list \<Rightarrow> block list" where
  "linkat a [] bs = []"
| "linkat a (x # xs) bs = (if base x = a then x # bs else x # linkat a xs bs)"

text \<open>\<open>if(q->bfirst) q->blast->next = b; else q->bfirst = b;\<close>\<close>

definition qlink :: "queue \<Rightarrow> block list \<Rightarrow> queue" where
  "qlink q bs =
    (if bfirst q \<noteq> [] then q\<lparr>bfirst := linkat (blast q) (bfirst q) bs\<rparr>
     else q\<lparr>bfirst := bs\<rparr>)"

text \<open>\<open>if((q->state & Qflow) && q->len < q->limit/2){ q->state &= ~Qflow; dowakeup = 1; }\<close>\<close>

definition qunflow :: "queue \<Rightarrow> queue \<times> bool" where
  "qunflow q =
    (if flag_on (state q) Qflow \<and> len q < half (limit q)
     then (q\<lparr>state := flag_clr (state q) Qflow\<rparr>, True) else (q, False))"

text \<open>\<open>if(q->state & Qstarve){ q->state &= ~Qstarve; dowakeup = 1; }\<close>\<close>

definition qunstarve :: "queue \<Rightarrow> queue \<times> bool" where
  "qunstarve q =
    (if flag_on (state q) Qstarve
     then (q\<lparr>state := flag_clr (state q) Qstarve\<rparr>, True) else (q, False))"

definition wakes :: "bool \<Rightarrow> event \<Rightarrow> event list" where
  "wakes b e = (if b then [e] else [])"

section \<open>Consumers\<close>

definition qget :: "queue \<Rightarrow> block option \<times> queue \<times> event list" where
  "qget q =
    (case bfirst q of
       [] \<Rightarrow> (None, q\<lparr>state := flag_set (state q) Qstarve\<rparr>, [])
     | b # nxt \<Rightarrow>
         let q = q\<lparr>bfirst := nxt, len := len q - BALLOC b, dlen := dlen q - BLEN b\<rparr>;
             (q, dowakeup) = qunflow q
         in (Some b, q, wakes dowakeup WakeW))"

fun qdiscardloop :: "block list \<Rightarrow> int \<Rightarrow> int \<Rightarrow> queue \<Rightarrow> kmem \<Rightarrow> int \<times> queue \<times> kmem" where
  "qdiscardloop [] ln sofar q k = (sofar, q\<lparr>bfirst := []\<rparr>, k)"
| "qdiscardloop (b # nxt) ln sofar q k =
    (if sofar < ln then
       let n = BLEN b in
       if n \<le> ln - sofar then
         qdiscardloop nxt ln (sofar + n)
           (q\<lparr>len := len q - BALLOC b, dlen := dlen q - BLEN b\<rparr>) (freeb b k)
       else
         let n = ln - sofar in
         (sofar + n, q\<lparr>bfirst := b\<lparr>rp := rp b + nat n\<rparr> # nxt, dlen := dlen q - n\<rparr>, k)
     else (sofar, q\<lparr>bfirst := b # nxt\<rparr>, k))"

definition qdiscard :: "queue \<Rightarrow> int \<Rightarrow> kmem \<Rightarrow> int \<times> queue \<times> kmem \<times> event list" where
  "qdiscard q ln k =
    (let (sofar, q, k) = qdiscardloop (bfirst q) ln 0 q k;
         (q, dowakeup) = qunflow q
     in (sofar, q, k, wakes dowakeup WakeW))"

text \<open>
  The loop of \<open>qconsume\<close> that unlinks leading empty blocks onto \<open>tofree\<close>; its argument
  list is the chain from \<open>bfirst\<close>.
\<close>

fun consumeskip :: "block list \<Rightarrow> queue \<Rightarrow> block list \<Rightarrow> queue \<times> block list" where
  "consumeskip [] q tofree = (q\<lparr>bfirst := []\<rparr>, tofree)"
| "consumeskip (b # nxt) q tofree =
    (if BLEN b > 0 then (q\<lparr>bfirst := b # nxt\<rparr>, tofree)
     else consumeskip nxt (q\<lparr>len := len q - BALLOC b\<rparr>) (b # tofree))"

definition qconsume :: "queue \<Rightarrow> int \<Rightarrow> kmem \<Rightarrow> int \<times> u8 list \<times> queue \<times> kmem \<times> event list" where
  "qconsume q ln k =
    (let (q, tofree) = consumeskip (bfirst q) q [] in
     case bfirst q of
       [] \<Rightarrow> (- 1, [], q\<lparr>state := flag_set (state q) Qstarve\<rparr>, k, [])
     | b # nxt \<Rightarrow>
         let n = BLEN b;
             ln = (if n < ln then n else ln);
             out = take (nat ln) (bdata b);
             k = bytes Cconsumebytes n k;
             b = b\<lparr>rp := rp b + nat ln\<rparr>;
             q = q\<lparr>bfirst := b # nxt, dlen := dlen q - ln\<rparr>;
             (q, tofree) =
               (if flag_on (state q) Qmsg \<or> ln = n
                then (q\<lparr>bfirst := nxt, len := len q - BALLOC b, dlen := dlen q - BLEN b\<rparr>, b # tofree)
                else (q, tofree));
             (q, dowakeup) = qunflow q
         in (ln, out, q, freeblist tofree k, wakes dowakeup WakeW))"

section \<open>Producers\<close>

fun chainlens :: "block list \<Rightarrow> int \<times> int" where
  "chainlens [] = (0, 0)"
| "chainlens (b # bs) = (let (l, d) = chainlens bs in (BALLOC b + l, BLEN b + d))"

text \<open>The common body of \<open>qpass\<close> and \<open>qpassnolim\<close> after their checks.\<close>

definition qpassadd :: "queue \<Rightarrow> block list \<Rightarrow> int \<times> queue \<times> event list" where
  "qpassadd q bs =
    (let q = qlink q bs;
         (l, d) = chainlens bs;
         q = q\<lparr>blast := base (last bs), len := len q + l, dlen := dlen q + d\<rparr>;
         q = (if len q \<ge> half (limit q) then q\<lparr>state := flag_set (state q) Qflow\<rparr> else q);
         (q, dowakeup) = qunstarve q
     in (l, q, wakes dowakeup WakeR))"

definition qpass :: "queue \<Rightarrow> block list \<Rightarrow> kmem \<Rightarrow> fault + (int \<times> queue \<times> kmem \<times> event list)" where
  "qpass q bs k =
    (if len q \<ge> limit q then Inr (- 1, q, freeblist bs k, [])
     else case bs of
       [] \<Rightarrow> Inl NilDeref
     | b # _ \<Rightarrow>
         if flag_on (state q) Qclosed then Inr (BALLOC b, q, freeblist bs k, [])
         else let (l, q, ev) = qpassadd q bs in Inr (l, q, k, ev))"

definition qpassnolim :: "queue \<Rightarrow> block list \<Rightarrow> kmem \<Rightarrow> fault + (int \<times> queue \<times> kmem \<times> event list)" where
  "qpassnolim q bs k =
    (case bs of
       [] \<Rightarrow> Inl NilDeref
     | b # _ \<Rightarrow>
         if flag_on (state q) Qclosed then Inr (BALLOC b, q, freeblist bs k, [])
         else let (l, q, ev) = qpassadd q bs in Inr (l, q, k, ev))"

definition qproduce :: "queue \<Rightarrow> u8 list \<Rightarrow> kmem \<Rightarrow> fault + (int \<times> queue \<times> kmem \<times> event list)" where
  "qproduce q p k =
    (if len q \<ge> limit q then Inr (- 1, q\<lparr>state := flag_set (state q) Qflow\<rparr>, k, [])
     else bindE (iallocb (length p) k) (\<lambda>(r, k).
       case r of
         None \<Rightarrow> Inr (0, q, k, [])
       | Some b \<Rightarrow>
           bindE (bput b p) (\<lambda>b.
           let k = bytes Cproducebytes (int (length p)) k;
               q = qlink q [b];
               q = q\<lparr>blast := base b, len := len q + BALLOC b, dlen := dlen q + BLEN b\<rparr>;
               (q, dowakeup) = qunstarve q;
               q = (if len q \<ge> limit q then q\<lparr>state := flag_set (state q) Qflow\<rparr> else q)
           in Inr (int (length p), q, k, wakes dowakeup WakeR))))"

text \<open>
  \<open>qcopy\<close>: the first loop finds the block that holds \<open>offset\<close> and the bytes from there in it,
  the second copies into \<open>nb\<close>.
\<close>

fun qcopyseek :: "block list \<Rightarrow> nat \<Rightarrow> nat \<Rightarrow> (u8 list \<times> block list) option" where
  "qcopyseek [] sofar offset = None"
| "qcopyseek (b # nxt) sofar offset =
    (let n = nat (BLEN b) in
     if sofar + n > offset then Some (drop (offset - sofar) (bdata b), nxt)
     else qcopyseek nxt (sofar + n) offset)"

fun qcopyloop :: "block \<Rightarrow> u8 list \<Rightarrow> block list \<Rightarrow> nat \<Rightarrow> nat \<Rightarrow> kmem \<Rightarrow> fault + (block \<times> kmem)" where
  "qcopyloop nb xs nxt sofar ln k =
    (if sofar < ln then
       let xs = take (ln - sofar) xs in
       bindE (bput nb xs) (\<lambda>nb.
       let k = bytes Cqcopybytes (int (length xs)) k in
       case nxt of
         [] \<Rightarrow> Inr (nb, k)
       | b # nxt \<Rightarrow> qcopyloop nb (bdata b) nxt (sofar + length xs) ln k)
     else Inr (nb, k))"

definition qcopy :: "queue \<Rightarrow> nat \<Rightarrow> nat \<Rightarrow> kmem \<Rightarrow> fault + (block \<times> kmem)" where
  "qcopy q ln offset k =
    bindE (allocb ln k) (\<lambda>(nb, k).
    case qcopyseek (bfirst q) 0 offset of
      None \<Rightarrow> Inr (nb, k)
    | Some (xs, nxt) \<Rightarrow> qcopyloop nb xs nxt 0 ln k)"

section \<open>Opening, waiting, linking\<close>

definition qopen :: "int \<Rightarrow> u32 \<Rightarrow> bool \<Rightarrow> queue" where
  "qopen lm msg kk =
    \<lparr>bfirst = [], blast = 0, len = 0, dlen = 0, limit = lm, inilim = lm,
     state = flag_set msg Qstarve, noblock = False, eof = 0, haskick = kk,
     hasbypass = False, err = ''''\<rparr>"

definition qbypass :: queue where
  "qbypass =
    \<lparr>bfirst = [], blast = 0, len = 0, dlen = 0, limit = 0, inilim = 0,
     state = 0, noblock = False, eof = 0, haskick = False, hasbypass = True, err = ''''\<rparr>"

definition notempty :: "queue \<Rightarrow> bool" where
  "notempty q \<longleftrightarrow> flag_on (state q) Qclosed \<or> bfirst q \<noteq> []"

datatype wait = Ready | Closed | Error | Asleep

text \<open>One pass of the loop of \<open>qwait\<close>; \<open>Asleep\<close> is the call of \<open>sleep(&q->rr, notempty, q)\<close>.\<close>

definition qwait :: "queue \<Rightarrow> wait \<times> queue" where
  "qwait q =
    (if bfirst q \<noteq> [] then (Ready, q)
     else if flag_on (state q) Qclosed then
       let q = q\<lparr>eof := eof q + 1\<rparr> in
       if eof q > 3 then (Error, q)
       else if err q \<noteq> '''' \<and> err q \<noteq> Ehungup then (Error, q)
       else (Closed, q)
     else (Asleep, q\<lparr>state := flag_set (state q) Qstarve\<rparr>))"

definition qaddlist :: "queue \<Rightarrow> block list \<Rightarrow> fault + queue" where
  "qaddlist q bs =
    (if bs = [] then Inl NilDeref
     else
       let q = qlink q bs in
       Inr (q\<lparr>len := len q + blockalloclen bs, dlen := dlen q + blocklen bs, blast := base (last bs)\<rparr>))"

definition qremove :: "queue \<Rightarrow> block option \<times> queue" where
  "qremove q =
    (case bfirst q of
       [] \<Rightarrow> (None, q)
     | b # nxt \<Rightarrow> (Some b, q\<lparr>bfirst := nxt, dlen := dlen q - BLEN b, len := len q - BALLOC b\<rparr>))"

definition qputback :: "queue \<Rightarrow> block \<Rightarrow> queue" where
  "qputback q b =
    (let q = (if bfirst q = [] then q\<lparr>blast := base b\<rparr> else q) in
     q\<lparr>bfirst := b # bfirst q, len := len q + BALLOC b, dlen := dlen q + BLEN b\<rparr>)"

definition pullupqueue :: "queue \<Rightarrow> int \<Rightarrow> kmem \<Rightarrow> fault + (queue \<times> kmem)" where
  "pullupqueue q n k =
    (case bfirst q of
       [] \<Rightarrow> Inl NilDeref
     | b # _ \<Rightarrow>
         if BLEN b \<ge> n then Inr (q, k)
         else bindE (pullupblock (bfirst q) n k) (\<lambda>(bs, k).
           Inr (q\<lparr>bfirst := bs, blast := (if bs = [] then 0 else base (last bs))\<rparr>, k)))"

definition qwakeup_iunlock :: "queue \<Rightarrow> queue \<times> event list" where
  "qwakeup_iunlock q =
    (let (q, dowakeup) = qunflow q in
     (q, if dowakeup then (if haskick q then [Kick] else []) @ [WakeW] else []))"

section \<open>Process-level reads\<close>

text \<open>
  \<open>qbread\<close>: \<open>Returns None\<close> is the \<open>nil\<close> of a closed queue.
\<close>

definition qbread :: "queue \<Rightarrow> int \<Rightarrow> kmem \<Rightarrow> fault + (block option outcome \<times> queue \<times> kmem \<times> event list)" where
  "qbread q ln k =
    (case qwait q of
       (Closed, q) \<Rightarrow> Inr (Returns None, q, k, [])
     | (Error, q) \<Rightarrow> Inr (Raises (err q), q, k, [])
     | (Asleep, q) \<Rightarrow> Inr (Sleeps, q, k, [])
     | (Ready, q) \<Rightarrow>
         (case qremove q of
            (None, q) \<Rightarrow> Inl NilDeref
          | (Some nb, q) \<Rightarrow>
              let n = BLEN nb in
              if n > ln then
                bindE
                  (if \<not> flag_on (state q) Qmsg then
                     bindE (allocb (nat (n - ln)) k) (\<lambda>(b, k).
                     bindE (bput b (drop (nat ln) (bdata nb))) (\<lambda>b.
                     Inr (qputback q b, k)))
                   else Inr (q, k))
                  (\<lambda>(q, k).
                   let nb = nb\<lparr>wp := rp nb + nat ln\<rparr>; (q, ev) = qwakeup_iunlock q in
                   Inr (Returns (Some nb), q, k, ev))
              else let (q, ev) = qwakeup_iunlock q in Inr (Returns (Some nb), q, k, ev)))"

text \<open>
  The grab loop of a coalescing \<open>qread\<close>: at least the first block, then as many as will
  partially fit. Its argument is the chain from \<open>bfirst\<close>, its results the blocks taken, their
  byte count and the queue.
\<close>

fun qgrab :: "block list \<Rightarrow> int \<Rightarrow> int \<Rightarrow> queue \<Rightarrow> block list \<times> int \<times> queue" where
  "qgrab [] n ln q = ([], n, q\<lparr>bfirst := []\<rparr>)"
| "qgrab (b # nxt) n ln q =
    (let q = q\<lparr>dlen := dlen q - BLEN b, len := len q - BALLOC b\<rparr>; n = n + BLEN b in
     if n \<ge> ln then ([b], n, q\<lparr>bfirst := nxt\<rparr>)
     else let (bs, n, q) = qgrab nxt n ln q in (b # bs, n, q))"

text \<open>
  The first locked section of \<open>qread\<close>, with its \<open>goto again\<close>: wait, drop empty blocks of a
  coalescing queue, take what the read will copy.
\<close>

datatype took = TSleep | TEof | TError string | Took "block list" int

function qread1 :: "queue \<Rightarrow> int \<Rightarrow> kmem \<Rightarrow> fault + (took \<times> queue \<times> kmem)" where
  "qread1 q ln k =
    (case qwait q of
       (Closed, q) \<Rightarrow> Inr (TEof, q, k)
     | (Error, q) \<Rightarrow> Inr (TError (err q), q, k)
     | (Asleep, q) \<Rightarrow> Inr (TSleep, q, k)
     | (Ready, _) \<Rightarrow>
         (case bfirst q of
            [] \<Rightarrow> Inl NilDeref
          | b # nxt \<Rightarrow>
              if flag_on (state q) Qcoalesce then
                if BLEN b \<le> 0 then
                  qread1 (q\<lparr>bfirst := nxt, dlen := dlen q - BLEN b, len := len q - BALLOC b\<rparr>) ln
                    (freeb b k)
                else
                  let (bs, n, q) = qgrab (b # nxt) 0 ln q in Inr (Took bs n, q, k)
              else
                Inr (Took [b] (BLEN b),
                  q\<lparr>bfirst := nxt, dlen := dlen q - BLEN b, len := len q - BALLOC b\<rparr>, k)))"
  by pat_completeness auto
termination
  by (relation "measure (\<lambda>(q, ln, k). length (bfirst q))") auto

declare qread1.simps [simp del]

text \<open>
  The copy to user space outside the lock, then the second locked section of \<open>qread\<close>: put
  a partial block back, or drop it on a message queue, and restart the producer.
\<close>

definition qread2 :: "queue \<Rightarrow> block list \<Rightarrow> int \<Rightarrow> int \<Rightarrow> kmem
    \<Rightarrow> int \<times> u8 list \<times> queue \<times> kmem \<times> event list" where
  "qread2 q first n ln k =
    (let (out, rest, k) = bl2mem first ln k;
         (n, q, k) =
           (case rest of
              [] \<Rightarrow> (n, q, k)
            | b # _ \<Rightarrow>
                if flag_on (state q) Qmsg then (n - BLEN b, q, freeb b k)
                else (n - BLEN b, qputback q b, k));
         (q, ev) = qwakeup_iunlock q
     in (n, out, q, k, ev))"

text \<open>\<open>qread\<close> run without interruption: the count and what it stored at \<open>vp\<close>.\<close>

definition qread :: "queue \<Rightarrow> int \<Rightarrow> kmem \<Rightarrow> fault + ((int \<times> u8 list) outcome \<times> queue \<times> kmem \<times> event list)" where
  "qread q ln k =
    bindE (qread1 q ln k) (\<lambda>(t, q, k).
    case t of
      TSleep \<Rightarrow> Inr (Sleeps, q, k, [])
    | TEof \<Rightarrow> Inr (Returns (0, []), q, k, [])
    | TError e \<Rightarrow> Inr (Raises e, q, k, [])
    | Took first n \<Rightarrow>
        let (n, out, q, k, ev) = qread2 q first n ln k in Inr (Returns (n, out), q, k, ev))"

section \<open>Process-level writes\<close>

definition qnotfull :: "queue \<Rightarrow> bool" where
  "qnotfull q \<longleftrightarrow> len q < limit q \<or> flag_on (state q) Qclosed"

text \<open>
  \<open>qbwrite\<close> up to its flow-control loop. When the call raises \<open>q->err\<close> the block has been freed
  by the error handler. \<open>hipri\<close> says whether the process woken has a higher priority than the
  writer. The boolean of the result says whether the call goes on to the flow-control loop.
\<close>

definition qbwrite_put :: "queue \<Rightarrow> block \<Rightarrow> bool \<Rightarrow> kmem
    \<Rightarrow> (int \<times> bool) outcome \<times> queue \<times> kmem \<times> event list" where
  "qbwrite_put q b hipri k =
    (let k = counter Cqbwritecnt k; n = BLEN b in
     if hasbypass q then (Returns (n, False), q, k, [Bypass b])
     else if flag_on (state q) Qclosed then (Raises (err q), q, freeb b k, [])
     else if len q \<ge> limit q \<and> noblock q then (Returns (n, False), q, freeb b k, [])
     else
       let q = qlink q [b];
           q = q\<lparr>blast := base b, len := len q + BALLOC b, dlen := dlen q + n\<rparr>;
           (q, dowakeup) = qunstarve q;
           ev = (if haskick q \<and> (dowakeup \<or> flag_on (state q) Qkick) then [Kick] else [])
             @ wakes dowakeup WakeR;
           resched = (dowakeup \<and> hipri)
       in (Returns (n, True), q, if resched then counter Cqbwritepricnt k else k,
               ev @ (if resched then [Resched] else [])))"

text \<open>One pass of the flow-control loop: \<open>True\<close> when the writer goes to sleep on \<open>q->wr\<close>.\<close>

definition qbwrite_wait :: "queue \<Rightarrow> bool \<times> queue" where
  "qbwrite_wait q =
    (if noblock q \<or> qnotfull q then (False, q)
     else (True, q\<lparr>state := flag_set (state q) Qflow\<rparr>))"

text \<open>
  \<open>qwrite\<close>: chunks of at most \<open>Maxatomic\<close> bytes. \<open>WSleep rest\<close> is a call asleep in the
  flow-control loop with \<open>rest\<close> still to be written once it is woken.
\<close>

datatype wrote = WDone | WSleep "u8 list" | WError string

function qwrite :: "queue \<Rightarrow> u8 list \<Rightarrow> bool \<Rightarrow> kmem \<Rightarrow> fault + (wrote \<times> queue \<times> kmem \<times> event list)" where
  "qwrite q p hipri k =
    (let n = min (length p) Maxatomic in
     bindE (allocb n k) (\<lambda>(b, k).
     bindE (bput b (take n p)) (\<lambda>b.
     case qbwrite_put q b hipri k of
       (Sleeps, q, k, ev) \<Rightarrow> Inr (WSleep p, q, k, ev)
     | (Raises e, q, k, ev) \<Rightarrow> Inr (WError e, q, k, ev)
     | (Returns (_, flow), q, k, ev) \<Rightarrow>
         let (asleep, q) = (if flow then qbwrite_wait q else (False, q));
             more = (n < length p \<and> \<not> flag_on (state q) Qmsg) in
         if asleep then Inr (WSleep (if more then drop n p else []), q, k, ev)
         else if more then
           bindE (qwrite q (drop n p) hipri k) (\<lambda>(w, q, k, ev'). Inr (w, q, k, ev @ ev'))
         else Inr (WDone, q, k, ev))))"
  by pat_completeness auto
termination
  by (relation "measure (\<lambda>(q, p, hipri, k). length p)") (auto simp: Maxatomic_def)

declare qwrite.simps [simp del]

text \<open>
  \<open>qiwrite\<close>: the result is the returned count. The block of the pass that finds the queue
  closed stays allocated, as in the source.
\<close>

function qiwrite :: "queue \<Rightarrow> u8 list \<Rightarrow> int \<Rightarrow> bool \<Rightarrow> kmem \<Rightarrow> fault + (int \<times> queue \<times> kmem \<times> event list)" where
  "qiwrite q p sofar dowakeup k =
    (let n = min (length p) Maxatomic in
     bindE (iallocb n k) (\<lambda>(r, k).
     case r of
       None \<Rightarrow> Inr (sofar, q, k, [])
     | Some b \<Rightarrow>
         bindE (bput b (take n p)) (\<lambda>b.
         if flag_on (state q) Qclosed then Inr (- 1, q, k, [])
         else if dlen q \<ge> 16 * 1024 then Inr (sofar, q, freeb b k, [])
         else
           let q = qlink q [b];
               q = q\<lparr>blast := base b, len := len q + BALLOC b, dlen := dlen q + int n\<rparr>;
               (q, woke) = qunstarve q;
               dowakeup = (dowakeup \<or> woke);
               ev = (if dowakeup then (if haskick q then [Kick] else []) @ [WakeR] else []);
               sofar = sofar + int n in
           if n < length p \<and> \<not> flag_on (state q) Qmsg then
             bindE (qiwrite q (drop n p) sofar dowakeup k) (\<lambda>(s, q, k, ev'). Inr (s, q, k, ev @ ev'))
           else Inr (sofar, q, k, ev))))"
  by pat_completeness auto
termination
  by (relation "measure (\<lambda>(q, p, sofar, d, k). length p)") (auto simp: Maxatomic_def)

declare qiwrite.simps [simp del]

section \<open>Closing and status\<close>

definition qclose :: "queue \<Rightarrow> kmem \<Rightarrow> queue \<times> kmem \<times> event list" where
  "qclose q k =
    (let s = flag_clr (flag_set (state q) Qclosed) (Qflow OR Qstarve);
         bs = bfirst q
     in (q\<lparr>state := s, err := Ehungup, bfirst := [], len := 0, dlen := 0, noblock := False\<rparr>,
         freeblist bs k, [WakeR, WakeW]))"

definition qfree :: "queue \<Rightarrow> kmem \<Rightarrow> kmem \<times> event list" where
  "qfree q k = (let (q, k, ev) = qclose q k in (k, ev))"

definition qhangup :: "queue \<Rightarrow> string \<Rightarrow> queue \<times> event list" where
  "qhangup q msg =
    (q\<lparr>state := flag_set (state q) Qclosed,
       err := (if msg = '''' then Ehungup else take (ERRMAX - 1) msg)\<rparr>, [WakeR, WakeW])"

definition qisclosed :: "queue \<Rightarrow> bool" where
  "qisclosed q = flag_on (state q) Qclosed"

definition qreopen :: "queue \<Rightarrow> queue" where
  "qreopen q =
    q\<lparr>state := flag_set (flag_clr (state q) Qclosed) Qstarve, eof := 0, limit := inilim q\<rparr>"

definition qlen :: "queue \<Rightarrow> int" where
  "qlen q = dlen q"

definition qwindow :: "queue \<Rightarrow> int" where
  "qwindow q = (let l = limit q - len q in if l < 0 then 0 else l)"

definition qcanread :: "queue \<Rightarrow> bool" where
  "qcanread q \<longleftrightarrow> bfirst q \<noteq> []"

definition qsetlimit :: "queue \<Rightarrow> int \<Rightarrow> queue" where
  "qsetlimit q lm = q\<lparr>limit := lm\<rparr>"

definition qnoblock :: "queue \<Rightarrow> bool \<Rightarrow> queue" where
  "qnoblock q onoff = q\<lparr>noblock := onoff\<rparr>"

definition qflush :: "queue \<Rightarrow> kmem \<Rightarrow> queue \<times> kmem \<times> event list" where
  "qflush q k = (q\<lparr>bfirst := [], len := 0, dlen := 0\<rparr>, freeblist (bfirst q) k, [WakeW])"

definition qfull :: "queue \<Rightarrow> bool" where
  "qfull q = flag_on (state q) Qflow"

definition qstate :: "queue \<Rightarrow> u32" where
  "qstate q = state q"

end
