(* ===== verification/Qio_Correct.thy ===== *)
theory Qio_Correct
  imports Qio
begin

text \<open>
  Correctness of the queue operations: an invariant (well-formed blocks, \<open>blast\<close> the last
  block of the chain, \<open>len\<close> and \<open>dlen\<close> the exact sums over it), what each operation does to
  the bytes of the queue, and that no operation loses a block or frees one twice (with the
  two exceptions the source has, which are stated as such).
\<close>

section \<open>Invariant\<close>

definition qinv :: "queue \<Rightarrow> bool" where
  "qinv q \<longleftrightarrow> wfc (bfirst q) \<and> distinct (map base (bfirst q))
    \<and> (bfirst q \<noteq> [] \<longrightarrow> blast q = base (last (bfirst q)))
    \<and> len q = blockalloclen (bfirst q) \<and> dlen q = blocklen (bfirst q)"

definition qdata :: "queue \<Rightarrow> u8 list" where
  "qdata q = cdata (bfirst q)"

text \<open>The buffers \<open>malloc\<close> has still to hand out, in order.\<close>

definition pending :: "kmem \<Rightarrow> nat list" where
  "pending k = List.map_filter id (mallocs k)"

text \<open>\<open>malloc\<close> hands out no buffer of a block that is queued, nor one buffer twice.\<close>

definition qfresh :: "queue \<Rightarrow> kmem \<Rightarrow> bool" where
  "qfresh q k \<longleftrightarrow> distinct (map base (bfirst q) @ pending k)"

lemma qinv_chainI [intro?]:
  assumes "wfc bs" "distinct (map base bs)" "bfirst q = bs" "bs \<noteq> [] \<Longrightarrow> blast q = base (last bs)"
    "len q = blockalloclen bs" "dlen q = blocklen bs"
  shows "qinv q"
  using assms by (simp add: qinv_def)

lemma pending_simps [simp]:
  "pending (counter i k) = pending k" "pending (bytes i n k) = pending k"
  "pending (freeb b k) = pending k" "pending (freeblist bs k) = pending k"
  by (simp_all add: pending_def)

lemma pending_malloc: "mallocs k = Some p # as \<Longrightarrow> pending k = p # pending (k\<lparr>mallocs := as\<rparr>)"
  by (simp add: pending_def List.map_filter_simps)

lemma qdata_len: "qinv q \<Longrightarrow> dlen q = int (length (qdata q))"
  by (simp add: qinv_def qdata_def blocklen_cdata)

section \<open>Links and flags\<close>

lemma linkat_last: "distinct (map base xs) \<Longrightarrow> xs \<noteq> [] \<Longrightarrow> linkat (base (last xs)) xs bs = xs @ bs"
  by (induction xs) (auto split: if_splits)

lemma qlink_append:
  assumes "qinv q"
  shows "qlink q bs = q\<lparr>bfirst := bfirst q @ bs\<rparr>"
proof -
  have "linkat (blast q) (bfirst q) bs = bfirst q @ bs" if "bfirst q \<noteq> []"
    using assms that by (simp add: qinv_def linkat_last)
  then show ?thesis by (simp add: qlink_def)
qed

lemma chainlens_eq [simp]: "chainlens bs = (blockalloclen bs, blocklen bs)"
  by (induction bs) simp_all

text \<open>The queue flags are different bits.\<close>

lemma qflag_table [simp]:
  "flag_on Qstarve Qstarve" "flag_on Qstarve Qmsg = False" "flag_on Qstarve Qclosed = False" "flag_on Qstarve Qflow = False" "flag_on Qstarve Qcoalesce = False" "flag_on Qstarve Qkick = False"
  "flag_on Qmsg Qstarve = False" "flag_on Qmsg Qmsg" "flag_on Qmsg Qclosed = False" "flag_on Qmsg Qflow = False" "flag_on Qmsg Qcoalesce = False" "flag_on Qmsg Qkick = False"
  "flag_on Qclosed Qstarve = False" "flag_on Qclosed Qmsg = False" "flag_on Qclosed Qclosed" "flag_on Qclosed Qflow = False" "flag_on Qclosed Qcoalesce = False" "flag_on Qclosed Qkick = False"
  "flag_on Qflow Qstarve = False" "flag_on Qflow Qmsg = False" "flag_on Qflow Qclosed = False" "flag_on Qflow Qflow" "flag_on Qflow Qcoalesce = False" "flag_on Qflow Qkick = False"
  "flag_on Qcoalesce Qstarve = False" "flag_on Qcoalesce Qmsg = False" "flag_on Qcoalesce Qclosed = False" "flag_on Qcoalesce Qflow = False" "flag_on Qcoalesce Qcoalesce" "flag_on Qcoalesce Qkick = False"
  "flag_on Qkick Qstarve = False" "flag_on Qkick Qmsg = False" "flag_on Qkick Qclosed = False" "flag_on Qkick Qflow = False" "flag_on Qkick Qcoalesce = False" "flag_on Qkick Qkick"
  by (simp_all add: flag_on_def qflags)

lemma qflag_and [simp]:
  "Qstarve AND Qmsg = 0" "Qstarve AND Qclosed = 0" "Qstarve AND Qflow = 0" "Qstarve AND Qcoalesce = 0" "Qstarve AND Qkick = 0"
  "Qmsg AND Qstarve = 0" "Qmsg AND Qclosed = 0" "Qmsg AND Qflow = 0" "Qmsg AND Qcoalesce = 0" "Qmsg AND Qkick = 0"
  "Qclosed AND Qstarve = 0" "Qclosed AND Qmsg = 0" "Qclosed AND Qflow = 0" "Qclosed AND Qcoalesce = 0" "Qclosed AND Qkick = 0"
  "Qflow AND Qstarve = 0" "Qflow AND Qmsg = 0" "Qflow AND Qclosed = 0" "Qflow AND Qcoalesce = 0" "Qflow AND Qkick = 0"
  "Qcoalesce AND Qstarve = 0" "Qcoalesce AND Qmsg = 0" "Qcoalesce AND Qclosed = 0" "Qcoalesce AND Qflow = 0" "Qcoalesce AND Qkick = 0"
  "Qkick AND Qstarve = 0" "Qkick AND Qmsg = 0" "Qkick AND Qclosed = 0" "Qkick AND Qflow = 0" "Qkick AND Qcoalesce = 0"
  by (simp_all add: qflags)

declare flag_simps [simp]

lemma qunflow_fields [simp]:
  "bfirst (fst (qunflow q)) = bfirst q" "blast (fst (qunflow q)) = blast q"
  "len (fst (qunflow q)) = len q" "dlen (fst (qunflow q)) = dlen q"
  "limit (fst (qunflow q)) = limit q" "noblock (fst (qunflow q)) = noblock q"
  by (simp_all add: qunflow_def)

lemma qunstarve_fields [simp]:
  "bfirst (fst (qunstarve q)) = bfirst q" "blast (fst (qunstarve q)) = blast q"
  "len (fst (qunstarve q)) = len q" "dlen (fst (qunstarve q)) = dlen q"
  "limit (fst (qunstarve q)) = limit q" "noblock (fst (qunstarve q)) = noblock q"
  by (simp_all add: qunstarve_def)

lemma qunstarve_flags [simp]:
  "hasbypass (fst (qunstarve q)) = hasbypass q"
  "Qstarve AND f = 0 \<Longrightarrow> flag_on (state (fst (qunstarve q))) f = flag_on (state q) f"
  "\<not> flag_on (state (fst (qunstarve q))) Qstarve"
  "snd (qunstarve q) = flag_on (state q) Qstarve"
  by (simp_all add: qunstarve_def)

lemma qwakeup_fields [simp]:
  "bfirst (fst (qwakeup_iunlock q)) = bfirst q" "blast (fst (qwakeup_iunlock q)) = blast q"
  "len (fst (qwakeup_iunlock q)) = len q" "dlen (fst (qwakeup_iunlock q)) = dlen q"
  by (simp_all add: qwakeup_iunlock_def case_prod_beta Let_def)

text \<open>The invariant depends on the chain, its tail pointer and the two counters only.\<close>

lemma qinv_cong:
  "bfirst q' = bfirst q \<Longrightarrow> blast q' = blast q \<Longrightarrow> len q' = len q \<Longrightarrow> dlen q' = dlen q
   \<Longrightarrow> qinv q' = qinv q"
  by (simp add: qinv_def)

lemma qinv_frame [simp]:
  "qinv (q\<lparr>state := s\<rparr>) = qinv q" "qinv (q\<lparr>eof := e\<rparr>) = qinv q" "qinv (q\<lparr>limit := l\<rparr>) = qinv q"
  "qinv (q\<lparr>noblock := n\<rparr>) = qinv q" "qinv (q\<lparr>err := m\<rparr>) = qinv q"
  "qinv (fst (qunflow q)) = qinv q" "qinv (fst (qunstarve q)) = qinv q"
  "qinv (fst (qwakeup_iunlock q)) = qinv q"
  by (rule qinv_cong; simp)+

section \<open>Opening and appending\<close>

lemma qinv_qopen: "qinv (qopen lm msg kk)"
  by (simp add: qinv_def qopen_def)

text \<open>A concrete queue with blocks \<open>bs\<close>.\<close>

definition qof :: "u32 \<Rightarrow> block list \<Rightarrow> queue" where
  "qof fl bs = (qopen 1000 fl False)\<lparr>bfirst := bs, blast := base (last bs),
     len := blockalloclen bs, dlen := blocklen bs\<rparr>"

lemma qof_simps [simp]:
  "bfirst (qof fl bs) = bs" "qdata (qof fl bs) = cdata bs" "dlen (qof fl bs) = blocklen bs"
  "len (qof fl bs) = blockalloclen bs" "limit (qof fl bs) = 1000"
  "flag_on (state (qof fl bs)) f \<longleftrightarrow> flag_on fl f \<or> flag_on Qstarve f"
  "\<not> hasbypass (qof fl bs)" "\<not> noblock (qof fl bs)"
  by (simp_all add: qof_def qopen_def qdata_def)

lemma qinv_qof [simp]: "qinv (qof fl bs) \<longleftrightarrow> wfc bs \<and> distinct (map base bs)"
  by (simp add: qinv_def qof_def)

lemma pending_kmem0 [simp]: "pending (kmem0 ms) = List.map_filter id ms"
  by (simp add: pending_def)

lemma qinv_qbypass: "qinv qbypass"
  by (simp add: qinv_def qbypass_def)

text \<open>Appending a well-formed chain of new blocks.\<close>

lemma qinv_append:
  assumes "qinv q" and "wfc bs" and "bs \<noteq> []" and "distinct (map base (bfirst q @ bs))"
  shows "qinv (q\<lparr>bfirst := bfirst q @ bs, blast := base (last bs),
    len := len q + blockalloclen bs, dlen := dlen q + blocklen bs\<rparr>)"
  using assms by (auto simp: qinv_def)

lemma qpassadd_ok:
  assumes "qinv q" and "wfc bs" and "bs \<noteq> []" and "distinct (map base (bfirst q @ bs))"
    and "qpassadd q bs = (l, q', ev)"
  shows "qinv q' \<and> bfirst q' = bfirst q @ bs \<and> l = blockalloclen bs"
proof -
  let ?q = "q\<lparr>bfirst := bfirst q @ bs, blast := base (last bs),
    len := len q + blockalloclen bs, dlen := dlen q + blocklen bs\<rparr>"
  have "qinv ?q" using assms by (intro qinv_append)
  then show ?thesis
    using assms(5) by (auto simp: qpassadd_def qlink_append[OF assms(1)] Let_def case_prod_beta)
qed

lemma qaddlist_ok:
  assumes "qinv q" and "wfc bs" and "bs \<noteq> []" and "distinct (map base (bfirst q @ bs))"
  shows "\<exists>q'. qaddlist q bs = Inr q' \<and> qinv q' \<and> bfirst q' = bfirst q @ bs"
  using assms(2-4) qlink_append[OF assms(1), of bs] assms(1)
  by (auto simp: qaddlist_def qinv_def Let_def)

text \<open>What \<open>qpass\<close> does: refuse and free, free on a closed queue, or append.\<close>

lemma qpass_ok:
  assumes "qinv q" and "wfc bs" and "bs \<noteq> []" and "distinct (map base (bfirst q @ bs))"
    and "qpass q bs k = Inr (r, q', k', ev)"
  shows "qinv q' \<and> (if len q \<ge> limit q \<or> flag_on (state q) Qclosed
      then q' = q \<and> k' = freeblist bs k
      else bfirst q' = bfirst q @ bs \<and> k' = k \<and> r = blockalloclen bs)"
  using assms(5) qpassadd_ok[OF assms(1-4)] assms(1,3)
  by (auto simp: qpass_def Let_def case_prod_beta split: if_splits list.splits) (metis surjective_pairing)+

lemma qpassnolim_ok:
  assumes "qinv q" and "wfc bs" and "bs \<noteq> []" and "distinct (map base (bfirst q @ bs))"
    and "qpassnolim q bs k = Inr (r, q', k', ev)"
  shows "qinv q' \<and> (if flag_on (state q) Qclosed then q' = q \<and> k' = freeblist bs k
      else bfirst q' = bfirst q @ bs \<and> k' = k \<and> r = blockalloclen bs)"
  using assms(5) qpassadd_ok[OF assms(1-4)] assms(1,3)
  by (auto simp: qpassnolim_def Let_def case_prod_beta split: if_splits list.splits) (metis surjective_pairing)+

text \<open>What \<open>iallocb\<close> hands out, when it returns a block.\<close>

lemma icomplain_fields:
  "icomplain1 k = Inr k' \<Longrightarrow> mallocs k' = mallocs k \<and> held k' = held k \<and> inproc k' = inproc k"
  "icomplain2 k = Inr k' \<Longrightarrow> mallocs k' = mallocs k \<and> held k' = held k \<and> inproc k' = inproc k"
  by (auto simp: icomplain1_def icomplain2_def held_def Let_def split: if_splits)

lemma iallocb_SomeD:
  assumes "iallocb sz k = Inr (Some b, k')"
  obtains p where "wfb b" "bdata b = []" "rp b + sz \<le> lim b" "wp b = rp b" "base b = p"
    "held k = add_mset p (held k')" "pending k = p # pending k'" "flag_on (bflag b) BINTR"
proof -
  obtain p as where m: "mallocs k = Some p # as" and b: "b = (layoutb p sz)\<lparr>bflag := BINTR\<rparr>"
    and k': "k' = k\<lparr>mallocs := as, ibytes := ibytes k + of_int (BALLOC b)\<rparr>"
    using assms
    by (auto simp: iallocb_def allocb0_eq bindE_Inr_iff Let_def split: if_splits list.splits option.splits)
  have wf: "wfb b" using wfb_layoutb[of p sz] by (simp add: b wfb_def)
  show thesis
  proof
    show "wfb b" by (rule wf)
    show "bdata b = []" using bdata_layoutb[of p sz] by (simp add: b bdata_def)
    show "rp b + sz \<le> lim b" "wp b = rp b" using layoutb_bounds[of p sz] by (simp_all add: b)
    show "base b = p" by (simp add: b)
    show "held k = add_mset p (held k')" "pending k = p # pending k'"
      using m by (simp_all add: k' held_def pending_def List.map_filter_simps)
    show "flag_on (bflag b) BINTR" by (simp add: b flag_on_def BINTR_def)
  qed
qed

lemma iallocb_NoneD:
  assumes "iallocb sz k = Inr (None, k')"
  shows "held k' = held k \<and> pending k' = pending k"
proof (cases "unat (ibytes k) > unat (ilimit k)")
  case True
  then have "icomplain1 k = Inr k'" using assms by (auto simp: iallocb_def bindE_Inr_iff)
  then show ?thesis by (auto dest: icomplain_fields simp: pending_def)
next
  case False
  then obtain k1 where k1: "allocb0 sz k = Inr (None, k1)" and c: "icomplain2 k1 = Inr k'"
    using assms by (auto simp: iallocb_def bindE_Inr_iff Let_def split: option.splits)
  have "held k1 = held k" "pending k1 = pending k"
    using k1 by (auto simp: allocb0_eq held_def pending_def List.map_filter_simps
        split: list.splits option.splits)
  then show ?thesis using icomplain_fields(2)[OF c] by (simp add: pending_def)
qed

text \<open>A block that was just allocated and filled with \<open>p\<close>.\<close>

lemma fresh_block_filled:
  assumes "wfb b" "bdata b = []" "rp b + length p \<le> lim b" "wp b = rp b"
  shows "bput b p = Inr (bappend b p)" "wfb (bappend b p)" "bdata (bappend b p) = p"
    "BLEN (bappend b p) = int (length p)"
  using assms by (simp_all add: wfb_bappend bdata_bappend BLEN_def)

lemma qfresh_cong:
  "bfirst q' = bfirst q \<Longrightarrow> pending k' = pending k \<Longrightarrow> qfresh q' k' = qfresh q k"
  by (simp add: qfresh_def)

text \<open>
  \<open>qproduce\<close> refuses over the limit, and otherwise queues the bytes whole behind what is queued or,
  without a block for them, not at all; the accounting of buffers stays exact.
\<close>

lemma qproduce_ok:
  assumes "qinv q" and "qfresh q k" and "qproduce q p k = Inr (r, q', k', ev)"
  shows "qinv q' \<and> qfresh q' k' \<and> bases (bfirst q') + held k' = bases (bfirst q) + held k
    \<and> (if len q \<ge> limit q then r = - 1 \<and> qdata q' = qdata q
       else r = 0 \<and> qdata q' = qdata q \<or> r = int (length p) \<and> qdata q' = qdata q @ p)"
proof (cases "len q \<ge> limit q")
  case True
  then show ?thesis using assms by (auto simp: qproduce_def qdata_def cong: qfresh_cong)
next
  case False
  then obtain bo k1 where al: "iallocb (length p) k = Inr (bo, k1)"
    using assms(3) by (auto simp: qproduce_def bindE_Inr_iff)
  show ?thesis
  proof (cases bo)
    case None
    then have "r = 0" "q' = q" "k' = k1" using assms(3) al False by (auto simp: qproduce_def)
    then show ?thesis using assms(1,2) al None False iallocb_NoneD[of "length p" k k1]
      by (simp add: qfresh_def)
  next
    case (Some b)
    obtain a where b: "wfb b" "bdata b = []" "rp b + length p \<le> lim b" "wp b = rp b" "base b = a"
      "held k = add_mset a (held k1)" "pending k = a # pending k1"
      using al Some by (auto elim: iallocb_SomeD)
    note fb = fresh_block_filled[OF b(1-4)]
    let ?b = "bappend b p"
    have d: "distinct (map base (bfirst q @ [?b]))" "distinct (map base (bfirst q @ [?b]) @ pending k1)"
      using assms(2) b by (auto simp: qfresh_def)
    have res: "bfirst q' = bfirst q @ [?b]" "r = int (length p)" "held k' = held k1" "pending k' = pending k1"
      "blast q' = base b" "len q' = len q + BALLOC ?b" "dlen q' = dlen q + BLEN ?b"
      using assms(3) al Some False fb(1)
      by (auto simp: qproduce_def Let_def case_prod_beta qlink_append[OF assms(1)])
    have "qinv q'" using assms(1) res d(1) fb(2) by (auto simp: qinv_def)
    then show ?thesis using res d(2) b fb False by (auto simp: qfresh_def qdata_def)
  qed
qed

lemma qbwrite_put_ok:
  assumes "qinv q" and "wfb b" and "base b \<notin> set (map base (bfirst q))"
    and "qbwrite_put q b hipri k = (r, q', k', ev)"
  shows "qinv q' \<and> pending k' = pending k \<and>
    (if hasbypass q then r = Returns (BLEN b, False) \<and> bfirst q' = bfirst q \<and> held k' = held k
     else if flag_on (state q) Qclosed then
       r = Raises (err q) \<and> bfirst q' = bfirst q \<and> held k' = add_mset (base b) (held k)
     else if len q \<ge> limit q \<and> noblock q then
       r = Returns (BLEN b, False) \<and> bfirst q' = bfirst q \<and> held k' = add_mset (base b) (held k)
     else r = Returns (BLEN b, True) \<and> bfirst q' = bfirst q @ [b] \<and> held k' = held k)"
proof -
  have "qinv (q\<lparr>bfirst := bfirst q @ [b], blast := base (last [b]),
      len := len q + blockalloclen [b], dlen := dlen q + blocklen [b]\<rparr>)"
    using assms by (intro qinv_append) (auto simp: qinv_def)
  then show ?thesis
    using assms(1,4)
    by (auto simp: qbwrite_put_def Let_def case_prod_beta qlink_append[OF assms(1)] split: if_splits)
qed

lemma qbwrite_wait_ok:
  "qinv q \<Longrightarrow> qbwrite_wait q = (s, q') \<Longrightarrow> qinv q' \<and> bfirst q' = bfirst q \<and> (s \<longrightarrow> flag_on (state q') Qflow)"
  by (auto simp: qbwrite_wait_def split: if_splits)

section \<open>Removing from the front\<close>

text \<open>
  What is left after blocks were taken from the front, the first of the rest possibly
  shortened: the tail pointer is still right.
\<close>

lemma qinv_suffix:
  assumes "qinv q" and "wfc bs" and "map base (bfirst q) = ys @ map base bs"
    and "bfirst q' = bs" and "blast q' = blast q"
    and "len q' = blockalloclen bs" and "dlen q' = blocklen bs"
  shows "qinv q'"
proof -
  have "distinct (map base bs)" using assms(1,3) by (auto simp: qinv_def)
  moreover have "blast q = base (last bs)" if "bs \<noteq> []"
  proof -
    have "base (last bs) = last (map base (bfirst q))"
      using that assms(3) by (simp add: last_map)
    moreover have "bfirst q \<noteq> []" using that assms(3) by auto
    ultimately show ?thesis using assms(1) by (simp add: qinv_def last_map)
  qed
  ultimately show ?thesis using assms(2,4-7) by (simp add: qinv_def)
qed

lemma qfresh_suffix:
  assumes "qfresh q k" and "map base (bfirst q) = ys @ map base (bfirst q')" and "pending k' = pending k"
  shows "qfresh q' k'"
  using assms by (auto simp: qfresh_def)

lemma qget_ok:
  assumes "qinv q" and "qget q = (r, q', ev)"
  shows "qinv q' \<and> bfirst q = (case r of None \<Rightarrow> [] | Some b \<Rightarrow> [b]) @ bfirst q'
    \<and> (r = None \<longrightarrow> flag_on (state q') Qstarve)"
proof (cases "bfirst q")
  case Nil
  then show ?thesis using assms by (auto simp: qget_def)
next
  case (Cons b bs)
  have "qinv (q\<lparr>bfirst := bs, len := len q - BALLOC b, dlen := dlen q - BLEN b\<rparr>)"
    using assms(1) Cons by (intro qinv_suffix[OF assms(1), where bs = bs and ys = "[base b]"]) (auto simp: qinv_def)
  then show ?thesis using assms(2) Cons by (auto simp: qget_def Let_def case_prod_beta)
qed

lemma qremove_ok:
  assumes "qinv q" and "qremove q = (r, q')"
  shows "qinv q' \<and> bfirst q = (case r of None \<Rightarrow> [] | Some b \<Rightarrow> [b]) @ bfirst q' \<and> state q' = state q"
proof (cases "bfirst q")
  case Nil
  then show ?thesis using assms by (auto simp: qremove_def)
next
  case (Cons b bs)
  have "qinv (q\<lparr>bfirst := bs, dlen := dlen q - BLEN b, len := len q - BALLOC b\<rparr>)"
    using assms(1) Cons by (intro qinv_suffix[OF assms(1), where bs = bs and ys = "[base b]"]) (auto simp: qinv_def)
  then show ?thesis using assms(2) Cons by (auto simp: qremove_def)
qed

lemma qputback_ok:
  assumes "qinv q" and "wfb b" and "base b \<notin> set (map base (bfirst q))"
  shows "qinv (qputback q b)" and "bfirst (qputback q b) = b # bfirst q"
  using assms by (auto simp: qputback_def qinv_def Let_def)

lemma qdiscardloop_ok:
  assumes "wfc bs" and "sofar \<le> ln" and "len q = blockalloclen bs" and "dlen q = blocklen bs"
    and "qdiscardloop bs ln sofar q k = (n, q', k')"
  shows "n - sofar = min (ln - sofar) (blocklen bs) \<and> wfc (bfirst q')
    \<and> cdata (bfirst q') = drop (nat (ln - sofar)) (cdata bs)
    \<and> len q' = blockalloclen (bfirst q') \<and> dlen q' = blocklen (bfirst q') \<and> blast q' = blast q
    \<and> (\<exists>ys. map base bs = ys @ map base (bfirst q')) \<and> pending k' = pending k
    \<and> bases (bfirst q') + held k' = bases bs + held k"
  using assms
proof (induction bs arbitrary: sofar q k)
  case Nil
  then show ?case by auto
next
  case (Cons b bs)
  have wf: "wfb b" "wfc bs" and L: "BLEN b = int (length (bdata b))"
    using Cons.prems(1) by (simp_all add: BLEN_bdata)
  have ge: "0 \<le> blocklen bs" using wf by (simp add: blocklen_cdata)
  consider "sofar = ln" | "sofar < ln" "BLEN b \<le> ln - sofar" | "sofar < ln" "\<not> BLEN b \<le> ln - sofar"
    using Cons.prems(2) by linarith
  then show ?case
  proof cases
    case 1
    then show ?thesis using Cons.prems wf ge by (auto simp: L)
  next
    case 2
    let ?q = "q\<lparr>len := len q - BALLOC b, dlen := dlen q - BLEN b\<rparr>"
    have rec: "qdiscardloop bs ln (sofar + BLEN b) ?q (freeb b k) = (n, q', k')"
      using Cons.prems(5) 2 by (simp add: Let_def)
    have "nat (ln - sofar) = length (bdata b) + nat (ln - (sofar + BLEN b))" using 2 L by simp
    moreover note IH = Cons.IH[OF wf(2) _ _ _ rec]
    obtain ys where "map base bs = ys @ map base (bfirst q')" using IH 2 Cons.prems by auto
    then have "map base (b # bs) = (base b # ys) @ map base (bfirst q')" by simp
    ultimately show ?thesis using IH 2 Cons.prems(3,4) by (auto simp: min_def)
  next
    case 3
    let ?b = "b\<lparr>rp := rp b + nat (ln - sofar)\<rparr>"
    have le: "nat (ln - sofar) \<le> length (bdata b)" using 3 L by linarith
    have r: "n = ln" "q' = q\<lparr>bfirst := ?b # bs, dlen := dlen q - (ln - sofar)\<rparr>" "k' = k"
      using Cons.prems(5) 3 by (auto simp: Let_def)
    have "BALLOC ?b = BALLOC b" by (simp add: BALLOC_def)
    moreover have "BLEN ?b = BLEN b - (ln - sofar)" using 3 by (simp add: BLEN_def)
    moreover have "map base (b # bs) = [] @ map base (?b # bs)" by simp
    ultimately show ?thesis
      using r wf le 3 ge Cons.prems(3,4)
      by (auto simp: bdata_rp_add wfb_rp_add)
  qed
qed

text \<open>
  \<open>qdiscard\<close> drops exactly the first \<open>len\<close> bytes, or all there are, returns how many it dropped,
  and frees the blocks it emptied.
\<close>

lemma qdiscard_ok:
  assumes "qinv q" and "0 \<le> ln" and "qdiscard q ln k = (n, q', k', ev)"
  shows "qinv q' \<and> n = min ln (dlen q) \<and> qdata q' = drop (nat ln) (qdata q)
    \<and> (\<exists>ys. map base (bfirst q) = ys @ map base (bfirst q')) \<and> pending k' = pending k
    \<and> bases (bfirst q') + held k' = bases (bfirst q) + held k"
proof -
  obtain q1 dw where l: "qdiscardloop (bfirst q) ln 0 q k = (n, q1, k')" and "qunflow q1 = (q', dw)"
    using assms(3) by (auto simp: qdiscard_def Let_def split: prod.splits)
  then have q': "q' = fst (qunflow q1)" by simp
  have inv: "wfc (bfirst q)" "len q = blockalloclen (bfirst q)" "dlen q = blocklen (bfirst q)"
    using assms(1) by (auto simp: qinv_def)
  note lo = qdiscardloop_ok[OF inv(1) assms(2) inv(2,3) l]
  then obtain ys where "map base (bfirst q) = ys @ map base (bfirst q1)" by auto
  then have "qinv q1" using lo by (intro qinv_suffix[OF assms(1), of "bfirst q1" ys]) auto
  then show ?thesis using lo q' inv by (auto simp: qdata_def)
qed

lemma consumeskip_ok:
  assumes "wfc bs" and "len q = blockalloclen bs" and "dlen q = blocklen bs"
    and "consumeskip bs q tf = (q', tf')"
  shows "wfc (bfirst q') \<and> cdata (bfirst q') = cdata bs
    \<and> len q' = blockalloclen (bfirst q') \<and> dlen q' = blocklen (bfirst q')
    \<and> blast q' = blast q \<and> state q' = state q \<and> limit q' = limit q
    \<and> (\<exists>ys. map base bs = ys @ map base (bfirst q'))
    \<and> bases (bfirst q') + bases tf' = bases bs + bases tf
    \<and> (\<forall>b nx. bfirst q' = b # nx \<longrightarrow> 0 < BLEN b)"
  using assms
proof (induction bs arbitrary: q tf)
  case Nil
  then show ?case by auto
next
  case (Cons b bs)
  have wf: "wfb b" "wfc bs" and L: "BLEN b = int (length (bdata b))"
    using Cons.prems(1) by (simp_all add: BLEN_bdata)
  show ?case
  proof (cases "BLEN b > 0")
    case True
    then show ?thesis using Cons.prems by auto
  next
    case False
    let ?q = "q\<lparr>len := len q - BALLOC b\<rparr>"
    have rec: "consumeskip bs ?q (b # tf) = (q', tf')" using Cons.prems(4) False by simp
    have z: "BLEN b = 0" "bdata b = []" using False L by simp_all
    note IH = Cons.IH[OF wf(2) _ _ rec]
    obtain ys where "map base bs = ys @ map base (bfirst q')" using IH Cons.prems z by auto
    then have "map base (b # bs) = (base b # ys) @ map base (bfirst q')" by simp
    then show ?thesis using IH Cons.prems(2,3) z by auto
  qed
qed

text \<open>
  \<open>qconsume\<close> on a queue with something to read. Everything unlinked is freed.
\<close>

text \<open>
  \<open>qconsume\<close> delivers a prefix of the queue and keeps the rest (a message queue drops the rest
  of the first block); it fails only on a queue without bytes, where it empties the queue of its
  zero-length blocks and leaves them allocated.
\<close>

lemma qconsume_ok:
  assumes "qinv q" and "0 \<le> ln" and "qconsume q ln k = (n, out, q', k', ev)"
  shows "qinv q' \<and> pending k' = pending k \<and> (\<exists>ys. map base (bfirst q) = ys @ map base (bfirst q'))
    \<and> (if qdata q = [] then n = - 1 \<and> out = [] \<and> bfirst q' = [] \<and> held k' = held k
       else n = int (length out) \<and> n \<le> ln
         \<and> (\<exists>lost. qdata q = out @ lost @ qdata q' \<and> (\<not> flag_on (state q) Qmsg \<longrightarrow> lost = []))
         \<and> bases (bfirst q') + held k' = bases (bfirst q) + held k)"
proof -
  have inv: "wfc (bfirst q)" "len q = blockalloclen (bfirst q)" "dlen q = blocklen (bfirst q)"
    using assms(1) by (auto simp: qinv_def)
  obtain q1 tf where cs: "consumeskip (bfirst q) q [] = (q1, tf)" by fastforce
  note co = consumeskip_ok[OF inv cs]
  then obtain ys where ys: "map base (bfirst q) = ys @ map base (bfirst q1)" by blast
  have q1: "qinv q1" using co by (intro qinv_suffix[OF assms(1), of "bfirst q1" ys]) (auto simp: ys)
  show ?thesis
  proof (cases "bfirst q1")
    case Nil
    then have "qdata q = []" using co by (simp add: qdata_def)
    then show ?thesis using assms(3) cs Nil q1 ys by (auto simp: qconsume_def)
  next
    case (Cons b bs)
    have wf: "wfb b" "wfc bs" and L: "BLEN b = int (length (bdata b))" and pos: "0 < BLEN b"
      using co Cons by (auto simp: BLEN_bdata)
    define l where "l = min ln (BLEN b)"
    have l: "0 \<le> l" "nat l \<le> length (bdata b)" "(if BLEN b < ln then BLEN b else ln) = l"
      using assms(2) pos L by (auto simp: l_def)
    let ?b = "b\<lparr>rp := rp b + nat l\<rparr>"
    let ?drop = "flag_on (state q1) Qmsg \<or> l = BLEN b"
    let ?q = "q1\<lparr>bfirst := ?b # bs, dlen := dlen q1 - l\<rparr>"
    let ?q2 = "if ?drop then ?q\<lparr>bfirst := bs, len := len q1 - BALLOC ?b, dlen := dlen q1 - l - BLEN ?b\<rparr> else ?q"
    let ?tf = "if ?drop then ?b # tf else tf"
    have "n = l \<and> out = take (nat l) (bdata b) \<and> q' = fst (qunflow ?q2)
        \<and> k' = freeblist ?tf (bytes Cconsumebytes (BLEN b) k)"
    proof (cases ?drop)
      case True
      then show ?thesis using assms(3)[symmetric] cs Cons
        by (simp add: qconsume_def Let_def case_prod_beta l(3))
    next
      case False
      then show ?thesis using assms(3)[symmetric] cs Cons
        by (simp add: qconsume_def Let_def case_prod_beta l(3))
    qed
    then have res: "n = l" "out = take (nat l) (bdata b)" "q' = fst (qunflow ?q2)"
      "k' = freeblist ?tf (bytes Cconsumebytes (BLEN b) k)" by blast+
    have BL: "BLEN ?b = BLEN b - l" "BALLOC ?b = BALLOC b" using l(1) by (simp_all add: BLEN_def BALLOC_def)
    have ne: "qdata q \<noteq> []" "qdata q = bdata b @ cdata bs" using co Cons pos L by (auto simp: qdata_def)
    have chain: "wfc (bfirst ?q2)" "len ?q2 = blockalloclen (bfirst ?q2)" "dlen ?q2 = blocklen (bfirst ?q2)"
      "\<exists>zs. map base (bfirst q1) = zs @ map base (bfirst ?q2)"
      using co Cons wf BL l(2) by (auto simp: wfb_rp_add)
    then obtain zs where zs: "map base (bfirst q1) = zs @ map base (bfirst ?q2)" by blast
    have "qinv ?q2" using chain zs by (intro qinv_suffix[OF q1, of "bfirst ?q2" zs]) auto
    then have inv': "qinv q'" using res(3) by simp
    have suf: "map base (bfirst q) = (ys @ zs) @ map base (bfirst q')" using ys zs res(3) by simp
    define lost where "lost = (if ?drop then drop (nat l) (bdata b) else [])"
    have "qdata q = out @ lost @ qdata q'"
      using ne(2) res wf l(2) by (auto simp: lost_def qdata_def bdata_rp_add)
    moreover have "lost = []" if "\<not> flag_on (state q) Qmsg"
      using that co L by (simp add: lost_def)
    moreover have "bases (bfirst q') + held k' = bases (bfirst q) + held k"
    proof -
      have "held k' = bases ?tf + held k" "bfirst q' = bfirst ?q2" using res(3,4) by simp_all
      moreover have "bases (bfirst ?q2) + bases ?tf = bases (bfirst q1) + bases tf" using Cons by simp
      moreover have "bases (bfirst q1) + bases tf = bases (bfirst q)" using co by simp
      ultimately show ?thesis by (simp only: add.assoc [symmetric])
    qed
    moreover have "n = int (length out)" "n \<le> ln"
      using res(1,2) l by (simp_all add: l_def)
    moreover have "pending k' = pending k" using res(4) by simp
    ultimately show ?thesis unfolding if_not_P[OF ne(1)] using inv' suf by blast
  qed
qed

section \<open>Process-level reads\<close>

lemma qwait_ok:
  assumes "qinv q" and "qwait q = (w, q')"
  shows "qinv q' \<and> bfirst q' = bfirst q \<and> (w = Ready \<longleftrightarrow> bfirst q \<noteq> []) \<and> (w = Ready \<longrightarrow> q' = q)
    \<and> (w = Asleep \<longrightarrow> \<not> notempty q \<and> flag_on (state q') Qstarve \<and> \<not> notempty q')
    \<and> (w = Closed \<or> w = Error \<longrightarrow> flag_on (state q) Qclosed)"
proof -
  have "flag_on (flag_set (state q) Qstarve) Qclosed = flag_on (state q) Qclosed"
    by simp
  then show ?thesis
    using assms by (auto simp: qwait_def notempty_def Let_def split: if_splits)
qed

text \<open>
  \<open>qbread\<close> returns one well-formed block of at most \<open>len\<close> bytes from the front of the stream; of a
  longer block the rest goes back to the front, or is dropped on a message queue.
\<close>

lemma qbread_ok:
  assumes "qinv q" and "qfresh q k" and "0 \<le> ln" and "qbread q ln k = Inr (r, q', k', ev)"
  shows "qinv q' \<and> (case r of
      Returns (Some b) \<Rightarrow> wfb b \<and> BLEN b \<le> ln
        \<and> (\<exists>lost. qdata q = bdata b @ lost @ qdata q' \<and> (\<not> flag_on (state q) Qmsg \<longrightarrow> lost = []))
        \<and> bases (b # bfirst q') + held k' = bases (bfirst q) + held k \<and> qfresh q' k'
    | _ \<Rightarrow> bfirst q = [] \<and> bfirst q' = [] \<and> k' = k)"
proof (cases "bfirst q")
  case Nil
  obtain w q1 where "qwait q = (w, q1)" by fastforce
  with qwait_ok[OF assms(1) this] Nil assms(4) show ?thesis
    by (auto simp: qbread_def split: wait.splits)
next
  case (Cons nb bs)
  then have w: "qwait q = (Ready, q)" by (simp add: qwait_def)
  define q1 where "q1 = q\<lparr>bfirst := bs, dlen := dlen q - BLEN nb, len := len q - BALLOC nb\<rparr>"
  have rm: "qremove q = (Some nb, q1)" using Cons by (simp add: qremove_def q1_def)
  have q1: "qinv q1" "bfirst q1 = bs" "state q1 = state q"
    using qremove_ok[OF assms(1) rm] by (simp_all add: q1_def)
  have wf: "wfb nb" and L: "BLEN nb = int (length (bdata nb))"
    using assms(1) Cons by (auto simp: qinv_def BLEN_bdata)
  show ?thesis
  proof (cases "BLEN nb > ln")
    case False
    then have "r = Returns (Some nb)" "q' = fst (qwakeup_iunlock q1)" "k' = k"
      using assms(4) by (auto simp: qbread_def w rm Let_def case_prod_beta)
    then show ?thesis using False wf q1 Cons assms(2) by (auto simp: qdata_def qfresh_def)
  next
    case True
    let ?nb = "nb\<lparr>wp := rp nb + nat ln\<rparr>"
    have le: "nat ln \<le> length (bdata nb)" using True assms(3) L by simp
    have nb: "wfb ?nb" "bdata ?nb = take (nat ln) (bdata nb)" "BLEN ?nb = ln" "base ?nb = base nb"
      using wf le assms(3) by (simp_all add: wfb_wp bdata_wp BLEN_def)
    show ?thesis
    proof (cases "flag_on (state q) Qmsg")
      case msg: True
      then have "r = Returns (Some ?nb)" "q' = fst (qwakeup_iunlock q1)" "k' = k"
        using assms(4) True q1 by (auto simp: qbread_def w rm Let_def case_prod_beta)
      moreover have "qdata q = bdata ?nb @ drop (nat ln) (bdata nb) @ qdata q'"
        using nb(2) Cons q1 \<open>q' = _\<close> by (simp add: qdata_def)
      ultimately show ?thesis using msg nb q1 Cons assms(2) by (auto simp: qfresh_def)
    next
      case str: False
      obtain b k1 b' where al: "allocb (nat (BLEN nb - ln)) k = Inr (b, k1)"
        and bp: "bput b (drop (nat ln) (bdata nb)) = Inr b'"
        and r: "r = Returns (Some ?nb)" "q' = fst (qwakeup_iunlock (qputback q1 b'))" "k' = k1"
        using assms(4) True str q1
        by (auto simp: qbread_def w rm Let_def case_prod_beta bindE_Inr_iff)
      obtain p where b: "wfb b" "bdata b = []" "rp b + nat (BLEN nb - ln) \<le> lim b" "wp b = rp b"
        "base b = p" "held k = add_mset p (held k1)" "mallocs k = Some p # mallocs k1"
        using al by (rule allocb_InrD) auto
      have "length (drop (nat ln) (bdata nb)) = nat (BLEN nb - ln)" using L assms(3) by simp
      then have b': "b' = bappend b (drop (nat ln) (bdata nb))" "wfb b'" "bdata b' = drop (nat ln) (bdata nb)"
        "base b' = p"
        using fresh_block_filled[OF b(1,2) _ b(4), of "drop (nat ln) (bdata nb)"] b bp by auto
      have pend: "pending k = p # pending k1" using b(7) by (simp add: pending_def List.map_filter_simps)
      then have np: "p \<notin> set (map base (bfirst q))" and fr: "distinct (map base (bfirst q) @ pending k1)"
        "p \<notin> set (pending k1)" using assms(2) by (auto simp: qfresh_def)
      then have pb: "qinv (qputback q1 b')" "bfirst (qputback q1 b') = b' # bs"
        using qputback_ok[OF q1(1) b'(2)] q1(2) b'(4) Cons by auto
      have "qdata q = bdata ?nb @ [] @ qdata q'" using nb(2) Cons r(2) pb b'(3) by (simp add: qdata_def)
      moreover have "qfresh q' k'" using fr np r pb b'(4) Cons by (auto simp: qfresh_def)
      moreover have "bases (?nb # bfirst q') + held k' = bases (bfirst q) + held k"
        using r pb b'(4) b(6) Cons nb(4) by (simp add: add_mset_commute)
      ultimately show ?thesis using r pb nb by auto
    qed
  qed
qed

lemma qgrab_ok:
  assumes "wfc bs" and "len q = blockalloclen bs" and "dlen q = blocklen bs" and "bs \<noteq> []"
    and "qgrab bs n ln q = (r, n', q')"
  shows "bs = r @ bfirst q' \<and> r \<noteq> [] \<and> n' = n + blocklen r
    \<and> (butlast r \<noteq> [] \<longrightarrow> n + blocklen (butlast r) < ln) \<and> (bfirst q' \<noteq> [] \<longrightarrow> ln \<le> n')
    \<and> len q' = blockalloclen (bfirst q') \<and> dlen q' = blocklen (bfirst q')
    \<and> blast q' = blast q \<and> state q' = state q"
  using assms
proof (induction bs arbitrary: n q r)
  case Nil
  then show ?case by simp
next
  case (Cons b bs)
  let ?q = "q\<lparr>dlen := dlen q - BLEN b, len := len q - BALLOC b\<rparr>"
  show ?case
  proof (cases "n + BLEN b \<ge> ln \<or> bs = []")
    case True
    then show ?thesis using Cons.prems by (cases "n + BLEN b \<ge> ln") (auto simp: Let_def)
  next
    case False
    then obtain r' where rec: "qgrab bs (n + BLEN b) ln ?q = (r', n', q')" and r: "r = b # r'"
      using Cons.prems(5) by (auto simp: Let_def split: prod.splits)
    have "wfc bs" "bs \<noteq> []" using Cons.prems(1) False by auto
    from Cons.IH[OF this(1) _ _ this(2) rec] Cons.prems(2,3) r False show ?thesis
      by (cases "butlast r' = []") auto
  qed
qed

lemma bl2mem_rest:
  assumes "wfc bs" and "blocklen (butlast bs) \<le> n" and "bl2mem bs n k = (xs, r, k')"
  shows "r = [] \<or> (\<exists>b. r = [b] \<and> base b = base (last bs) \<and> bs \<noteq> [])"
  using assms
proof (induction bs arbitrary: n k xs)
  case Nil
  then show ?case by simp
next
  case (Cons b bs)
  have wf: "wfc bs" and L: "0 \<le> BLEN b" using Cons.prems(1) by (simp_all add: BLEN_bdata)
  show ?case
  proof (cases "bs = []")
    case True
    then show ?thesis using Cons.prems(3) by (auto simp: Let_def split: if_splits)
  next
    case False
    have "0 \<le> blocklen (butlast bs)"
      using wf blocklen_cdata[of "butlast bs"] by (simp add: wfc_def list_all_iff in_set_butlastD)
    then have le: "BLEN b \<le> n" "blocklen (butlast bs) \<le> n - BLEN b" using Cons.prems(2) False by simp_all
    then show ?thesis
      using Cons.prems(3) False Cons.IH[OF wf le(2)]
      by (fastforce simp: Let_def split: prod.splits)
  qed
qed

text \<open>
  The first section of \<open>qread\<close>: a \<open>qread1\<close> that takes blocks takes a prefix of the queue,
  after dropping empty blocks if the queue coalesces.
\<close>

definition took_ok :: "queue \<Rightarrow> kmem \<Rightarrow> int \<Rightarrow> took \<Rightarrow> queue \<Rightarrow> kmem \<Rightarrow> bool" where
  "took_ok q k ln t q' k' \<longleftrightarrow> qinv q' \<and> pending k' = pending k
    \<and> (\<exists>ys. map base (bfirst q) = ys @ (case t of Took bs n \<Rightarrow> map base bs | _ \<Rightarrow> []) @ map base (bfirst q'))
    \<and> (case t of
        Took bs n \<Rightarrow> wfc bs \<and> bs \<noteq> [] \<and> n = blocklen bs \<and> state q' = state q
          \<and> qdata q = cdata bs @ qdata q' \<and> (butlast bs \<noteq> [] \<longrightarrow> blocklen (butlast bs) < ln)
          \<and> (flag_on (state q) Qcoalesce \<longrightarrow> qdata q' \<noteq> [] \<longrightarrow> ln \<le> n)
          \<and> bases bs + bases (bfirst q') + held k' = bases (bfirst q) + held k
      | _ \<Rightarrow> bfirst q' = [] \<and> qdata q = [] \<and> held k' = bases (bfirst q) + held k)"

lemma qread1_Ready:
  "bfirst q = b # nxt \<Longrightarrow> qread1 q ln k =
    (if flag_on (state q) Qcoalesce then
       if BLEN b \<le> 0 then
         qread1 (q\<lparr>bfirst := nxt, dlen := dlen q - BLEN b, len := len q - BALLOC b\<rparr>) ln (freeb b k)
       else let (bs, n, q) = qgrab (b # nxt) 0 ln q in Inr (Took bs n, q, k)
     else Inr (Took [b] (BLEN b),
       q\<lparr>bfirst := nxt, dlen := dlen q - BLEN b, len := len q - BALLOC b\<rparr>, k))"
  by (subst qread1.simps) (simp add: qwait_def)

lemma qread1_empty:
  assumes "qinv q" and "bfirst q = []" and "qread1 q ln k = Inr (t, q', k')"
  shows "took_ok q k ln t q' k'"
proof -
  obtain w q1 where w: "qwait q = (w, q1)" by fastforce
  have "k' = k \<and> q' = q1 \<and> (t = TSleep \<or> t = TEof \<or> (\<exists>e. t = TError e))"
    using assms(3) qwait_ok[OF assms(1) w] assms(2)
    by (subst (asm) qread1.simps) (auto simp: w split: wait.splits)
  then show ?thesis using qwait_ok[OF assms(1) w] assms(2) by (auto simp: took_ok_def qdata_def)
qed

lemma qread1_ok:
  assumes "qinv q" and "qread1 q ln k = Inr (t, q', k')"
  shows "took_ok q k ln t q' k'"
  using assms
proof (induction "length (bfirst q)" arbitrary: q k)
  case 0
  then show ?case by (simp add: qread1_empty)
next
  case (Suc m)
  then obtain b bs where bf: "bfirst q = b # bs" by (cases "bfirst q") auto
  have wf: "wfb b" "wfc bs" and L: "BLEN b = int (length (bdata b))"
    and lens: "len q = BALLOC b + blockalloclen bs" "dlen q = BLEN b + blocklen bs"
    using Suc.prems(1) bf by (auto simp: qinv_def BLEN_bdata)
  define q1 where "q1 = q\<lparr>bfirst := bs, dlen := dlen q - BLEN b, len := len q - BALLOC b\<rparr>"
  have q1: "qinv q1" "bfirst q1 = bs" "state q1 = state q"
    using qremove_ok[OF Suc.prems(1), of "Some b" q1] bf by (simp_all add: q1_def qremove_def)
  note eq = qread1_Ready[OF bf, of ln k, folded q1_def]
  consider (skip) "flag_on (state q) Qcoalesce" "BLEN b \<le> 0"
    | (grab) "flag_on (state q) Qcoalesce" "\<not> BLEN b \<le> 0"
    | (one) "\<not> flag_on (state q) Qcoalesce" by blast
  then show ?case
  proof cases
    case skip
    then have "qread1 q1 ln (freeb b k) = Inr (t, q', k')" using Suc.prems(2) eq by simp
    then have IH: "took_ok q1 (freeb b k) ln t q' k'"
      using Suc.hyps(2) bf q1 by (intro Suc.hyps(1)) auto
    then obtain ys where
      "map base bs = ys @ (case t of Took bs n \<Rightarrow> map base bs | _ \<Rightarrow> []) @ map base (bfirst q')"
      using q1 by (auto simp: took_ok_def)
    then have "map base (bfirst q)
        = (base b # ys) @ (case t of Took bs n \<Rightarrow> map base bs | _ \<Rightarrow> []) @ map base (bfirst q')"
      using bf by simp
    moreover have "bdata b = []" using skip L by simp
    ultimately show ?thesis using IH q1 bf unfolding took_ok_def
      by (cases t) (auto simp: qdata_def)
  next
    case grab
    obtain r n q2 where g: "qgrab (b # bs) 0 ln q = (r, n, q2)" by (metis prod_cases3)
    have t: "t = Took r n" "q' = q2" "k' = k" using Suc.prems(2) eq grab g by auto
    note go = qgrab_ok[OF _ _ _ _ g]
    have go': "b # bs = r @ bfirst q2 \<and> r \<noteq> [] \<and> n = 0 + blocklen r
      \<and> (butlast r \<noteq> [] \<longrightarrow> 0 + blocklen (butlast r) < ln) \<and> (bfirst q2 \<noteq> [] \<longrightarrow> ln \<le> n)
      \<and> len q2 = blockalloclen (bfirst q2) \<and> dlen q2 = blocklen (bfirst q2)
      \<and> blast q2 = blast q \<and> state q2 = state q"
      using wf lens by (intro go) auto
    then have split: "bfirst q = r @ bfirst q2" using bf by simp
    moreover have "wfc (r @ bfirst q2)" using Suc.prems(1) split by (simp add: qinv_def)
    ultimately have "qinv q2"
      using go' by (intro qinv_suffix[OF Suc.prems(1), of "bfirst q2" "map base r"]) auto
    then show ?thesis using go' t split \<open>wfc (r @ bfirst q2)\<close>
      by (auto simp: took_ok_def qdata_def)
  next
    case one
    then have "t = Took [b] (BLEN b)" "q' = q1" "k' = k" using Suc.prems(2) eq by auto
    then show ?thesis using q1 wf bf one by (auto simp: took_ok_def qdata_def)
  qed
qed

lemma qread1_Nil:
  "bfirst q = [] \<Longrightarrow> qread1 q ln k =
    (if flag_on (state q) Qclosed then
       if eof q \<ge> 3 \<or> err q \<noteq> [] \<and> err q \<noteq> Ehungup
       then Inr (TError (err q), q\<lparr>eof := eof q + 1\<rparr>, k) else Inr (TEof, q\<lparr>eof := eof q + 1\<rparr>, k)
     else Inr (TSleep, q\<lparr>state := flag_set (state q) Qstarve\<rparr>, k))"
  by (subst qread1.simps) (auto simp: qwait_def Let_def)

lemma qgrab_frame: "qgrab bs n ln q = (r, n', q') \<Longrightarrow> limit q' = limit q \<and> noblock q' = noblock q"
  by (induction bs arbitrary: n q r) (fastforce simp: Let_def split: if_splits prod.splits)+

text \<open>
  Which blocks \<open>qread1\<close> takes: after empty ones, which only a coalescing queue skips, one block, or
  on a coalescing queue some. Without a block it sleeps on an open queue and ends on a closed one.
\<close>

lemma qread1_split:
  assumes "qinv q" and "qread1 q ln k = Inr (t, q', k')"
  shows "\<exists>zs. bfirst q = zs @ (case t of Took bs n \<Rightarrow> bs | _ \<Rightarrow> []) @ bfirst q' \<and> cdata zs = []
    \<and> (\<not> flag_on (state q) Qcoalesce \<longrightarrow> zs = []) \<and> limit q' = limit q \<and> noblock q' = noblock q
    \<and> (case t of
         Took bs n \<Rightarrow> bs \<noteq> [] \<and> (\<not> flag_on (state q) Qcoalesce \<longrightarrow> length bs = 1) \<and> state q' = state q
       | TSleep \<Rightarrow> bfirst q' = [] \<and> \<not> flag_on (state q) Qclosed \<and> state q' = flag_set (state q) Qstarve
       | _ \<Rightarrow> bfirst q' = [] \<and> flag_on (state q) Qclosed \<and> state q' = state q)"
  using assms
proof (induction "length (bfirst q)" arbitrary: q k)
  case 0
  then have "bfirst q = []" by simp
  then show ?case using 0 by (auto simp: qread1_Nil split: if_splits)
next
  case (Suc m)
  then obtain b bs where bf: "bfirst q = b # bs" by (cases "bfirst q") auto
  define q1 where "q1 = q\<lparr>bfirst := bs, dlen := dlen q - BLEN b, len := len q - BALLOC b\<rparr>"
  have q1: "qinv q1" "bfirst q1 = bs" "state q1 = state q" "limit q1 = limit q" "noblock q1 = noblock q"
    using qremove_ok[OF Suc.prems(1), of "Some b" q1] bf by (simp_all add: q1_def qremove_def)
  have wf: "wfc (b # bs)" "len q = blockalloclen (b # bs)" "dlen q = blocklen (b # bs)"
    using Suc.prems(1) bf by (simp_all add: qinv_def)
  note eq = qread1_Ready[OF bf, of ln k, folded q1_def]
  consider (skip) "flag_on (state q) Qcoalesce" "BLEN b \<le> 0"
    | (grab) "flag_on (state q) Qcoalesce" "\<not> BLEN b \<le> 0"
    | (one) "\<not> flag_on (state q) Qcoalesce" by blast
  then show ?case
  proof cases
    case skip
    then have "qread1 q1 ln (freeb b k) = Inr (t, q', k')" using Suc.prems(2) eq by simp
    then obtain zs where zs: "bfirst q1 = zs @ (case t of Took bs n \<Rightarrow> bs | _ \<Rightarrow> []) @ bfirst q' \<and> cdata zs = []
      \<and> limit q' = limit q1 \<and> noblock q' = noblock q1
      \<and> (case t of
           Took bs n \<Rightarrow> bs \<noteq> [] \<and> (\<not> flag_on (state q1) Qcoalesce \<longrightarrow> length bs = 1) \<and> state q' = state q1
         | TSleep \<Rightarrow> bfirst q' = [] \<and> \<not> flag_on (state q1) Qclosed \<and> state q' = flag_set (state q1) Qstarve
         | _ \<Rightarrow> bfirst q' = [] \<and> flag_on (state q1) Qclosed \<and> state q' = state q1)"
      using Suc.hyps(1)[of q1 "freeb b k"] Suc.hyps(2) bf q1 by auto
    have "bdata b = []" using skip(2) wf(1) by (simp add: BLEN_bdata)
    then show ?thesis using zs[unfolded q1(3)] q1(2,4,5) bf skip(1) by (intro exI[of _ "b # zs"]) simp
  next
    case grab
    obtain r n q2 where g: "qgrab (b # bs) 0 ln q = (r, n, q2)" by (metis prod_cases3)
    have t: "t = Took r n" "q' = q2" using Suc.prems(2) eq grab g by auto
    have "b # bs = r @ bfirst q2 \<and> r \<noteq> [] \<and> state q2 = state q" using qgrab_ok[OF wf _ g] by simp
    then show ?thesis using t bf grab(1) qgrab_frame[OF g] by simp
  next
    case one
    then have "t = Took [b] (BLEN b)" "q' = q1" using Suc.prems(2) eq by auto
    then show ?thesis using q1 bf by simp
  qed
qed

text \<open>
  The second section, in any state of the queue in which the blocks taken are not queued.
\<close>

lemma qread2_ok:
  assumes "qinv q" and "wfc bs" and "bs \<noteq> []" and "0 \<le> ln" and "n = blocklen bs"
    and "butlast bs \<noteq> [] \<longrightarrow> blocklen (butlast bs) < ln"
    and "base (last bs) \<notin> set (map base (bfirst q))"
    and "qread2 q bs n ln k = (r, out, q', k', ev)"
  shows "qinv q' \<and> r = int (length out) \<and> out = take (nat ln) (cdata bs)
    \<and> (\<exists>pb. bfirst q' = pb @ bfirst q \<and> (pb = [] \<or> (\<exists>b. pb = [b] \<and> base b = base (last bs)))
      \<and> cdata pb = (if flag_on (state q) Qmsg then [] else drop (nat ln) (cdata bs)))
    \<and> pending k' = pending k \<and> bases (bfirst q') + held k' = bases bs + bases (bfirst q) + held k"
proof -
  obtain o1 rest k1 where b: "bl2mem bs ln k = (o1, rest, k1)" by (metis prod_cases3)
  have bm: "o1 = take (nat ln) (cdata bs)" "wfc rest" "cdata rest = drop (nat ln) (cdata bs)"
    "bases rest + held k1 = bases bs + held k"
    using bl2mem_ok[OF assms(2,4) b] by auto
  have bl: "blocklen (butlast bs) \<le> ln" using assms(4,6) by (cases "butlast bs = []") auto
  have pk: "pending k1 = pending k"
    using b by (induction bs arbitrary: ln k o1) (fastforce simp: Let_def split: if_splits prod.splits)+
  have n: "n = int (length (cdata bs))" using assms(2,5) by (simp add: blocklen_cdata)
  have oe: "out = o1" using assms(8) b by (auto simp: qread2_def Let_def case_prod_beta)
  from bl2mem_rest[OF assms(2) bl b] show ?thesis
  proof (elim disjE exE conjE)
    assume rn: "rest = []"
    then have "r = n" "q' = fst (qwakeup_iunlock q)" "k' = k1"
      using assms(8) b by (auto simp: qread2_def Let_def case_prod_beta)
    moreover have "length (cdata bs) \<le> nat ln" using bm(3) rn by simp
    ultimately show ?thesis using assms(1) bm rn pk n oe
      by (auto simp: ac_simps intro!: exI[of _ "[]"])
  next
    fix c assume c: "rest = [c]" "base c = base (last bs)" "bs \<noteq> []"
    have wfc: "wfb c" and cd: "bdata c = drop (nat ln) (cdata bs)" using bm c(1) by auto
    have BL: "n - BLEN c = int (length out)"
      using n wfc cd bm(1) oe assms(4) by (simp add: BLEN_bdata)
    show ?thesis
    proof (cases "flag_on (state q) Qmsg")
      case True
      then have "r = n - BLEN c" "q' = fst (qwakeup_iunlock q)" "k' = freeb c k1"
        using assms(8) b c by (auto simp: qread2_def Let_def case_prod_beta)
      then show ?thesis using assms(1) bm c True pk BL oe by (auto simp: ac_simps)
    next
      case False
      then have r: "r = n - BLEN c" "q' = fst (qwakeup_iunlock (qputback q c))" "k' = k1"
        using assms(8) b c by (auto simp: qread2_def Let_def case_prod_beta)
      have "qinv (qputback q c)" "bfirst (qputback q c) = c # bfirst q"
        using qputback_ok[OF assms(1) wfc] assms(7) c(2) by auto
      then show ?thesis using r bm c pk BL cd oe False
        by (auto simp: ac_simps intro!: exI[of _ "[c]"])
    qed
  qed
qed

text \<open>What is left of the blocks taken is the end of the last one.\<close>

lemma left_of_last:
  assumes "wfc bs" "bs \<noteq> []" "butlast bs \<noteq> [] \<longrightarrow> blocklen (butlast bs) < ln"
  shows "\<exists>ys. bdata (last bs) = ys @ drop (nat ln) (cdata bs)"
proof -
  have c: "cdata bs = cdata (butlast bs) @ bdata (last bs)"
    using assms(2) by (cases bs rule: rev_cases) simp_all
  have "wfc (butlast bs)" using assms(1) by (simp add: wfc_def list_all_iff in_set_butlastD)
  then have "blocklen (butlast bs) = int (length (cdata (butlast bs)))" by (rule blocklen_cdata)
  then have "length (cdata (butlast bs)) \<le> nat ln" using assms(3) by (cases "butlast bs = []") auto
  then have "drop (nat ln) (cdata bs) = drop (nat ln - length (cdata (butlast bs))) (bdata (last bs))" using c by simp
  then show ?thesis by (metis append_take_drop_id)
qed

lemma qread_result:
  assumes "qinv q" and "qfresh q k" and "0 \<le> ln" and "qread q ln k = Inr (r, q', k', ev)"
  shows "qinv q' \<and> qfresh q' k' \<and> bases (bfirst q') + held k' = bases (bfirst q) + held k \<and>
    (case r of
       Returns (n, out) \<Rightarrow> n = int (length out) \<and> n \<le> ln
         \<and> (flag_on (state q) Qcoalesce \<longrightarrow> out = take (nat ln) (qdata q))
         \<and> ((\<exists>zs bs nxt ys. bfirst q = zs @ bs @ nxt \<and> cdata zs = [] \<and> bs \<noteq> []
               \<and> (\<not> flag_on (state q) Qcoalesce \<longrightarrow> zs = [] \<and> length bs = 1)
               \<and> out = take (nat ln) (cdata bs) \<and> bdata (last bs) = ys @ drop (nat ln) (cdata bs)
               \<and> qdata q' = (if flag_on (state q) Qmsg then [] else drop (nat ln) (cdata bs)) @ cdata nxt)
            \<or> n = 0 \<and> flag_on (state q) Qclosed \<and> qdata q = [] \<and> bfirst q' = []
              \<and> (\<not> flag_on (state q) Qcoalesce \<longrightarrow> bfirst q = []))
     | Sleeps \<Rightarrow> \<not> flag_on (state q) Qclosed \<and> qdata q = [] \<and> bfirst q' = []
         \<and> (\<not> flag_on (state q) Qcoalesce \<longrightarrow> bfirst q = [])
     | Raises e \<Rightarrow> flag_on (state q) Qclosed \<and> qdata q = [] \<and> bfirst q' = []
         \<and> (\<not> flag_on (state q) Qcoalesce \<longrightarrow> bfirst q = []))"
proof -
  obtain t q1 k1 where r1: "qread1 q ln k = Inr (t, q1, k1)"
    using assms(4) by (auto simp: qread_def bindE_Inr_iff)
  note tk = qread1_ok[OF assms(1) r1] and sp = qread1_split[OF assms(1) r1]
  have pk: "pending k1 = pending k" using tk by (simp add: took_ok_def)
  show ?thesis
  proof (cases t)
    case (Took bs n)
    obtain n' out where r2: "qread2 q1 bs n ln k1 = (n', out, q', k', ev)" and r: "r = Returns (n', out)"
      using assms(4) r1 Took by (auto simp: qread_def split: prod.splits)
    obtain zs where zs: "bfirst q = zs @ bs @ bfirst q1" "cdata zs = []" "bs \<noteq> []"
      "\<not> flag_on (state q) Qcoalesce \<longrightarrow> zs = [] \<and> length bs = 1" using sp Took by auto
    have tb: "qinv q1" "wfc bs" "bs \<noteq> []" "n = blocklen bs" "state q1 = state q"
      "qdata q = cdata bs @ qdata q1" "butlast bs \<noteq> [] \<longrightarrow> blocklen (butlast bs) < ln"
      "flag_on (state q) Qcoalesce \<longrightarrow> qdata q1 \<noteq> [] \<longrightarrow> ln \<le> n"
      "bases bs + bases (bfirst q1) + held k1 = bases (bfirst q) + held k"
      using tk Took by (auto simp: took_ok_def)
    have dist: "distinct (map base zs @ map base bs @ map base (bfirst q1) @ pending k)"
      using assms(2) zs(1) by (simp add: qfresh_def)
    have "base (last bs) \<in> set (map base bs)" using tb(3) by simp
    then have nl: "base (last bs) \<notin> set (map base (bfirst q1))" using dist by auto
    from qread2_ok[OF tb(1-3) assms(3) tb(4) tb(7) nl r2]
    obtain pb where bk: "qinv q'" "n' = int (length out)" "out = take (nat ln) (cdata bs)"
      "bfirst q' = pb @ bfirst q1" "pb = [] \<or> (\<exists>b. pb = [b] \<and> base b = base (last bs))"
      "cdata pb = (if flag_on (state q1) Qmsg then [] else drop (nat ln) (cdata bs))"
      "pending k' = pending k1" "bases (bfirst q') + held k' = bases bs + bases (bfirst q1) + held k1"
      by blast
    obtain ys where ys: "bdata (last bs) = ys @ drop (nat ln) (cdata bs)" using left_of_last[OF tb(2,3,7)] by blast
    have "qdata q' = (if flag_on (state q) Qmsg then [] else drop (nat ln) (cdata bs)) @ cdata (bfirst q1)"
      using bk(4,6) tb(5) by (simp add: qdata_def)
    then have "\<exists>zs bs nxt ys. bfirst q = zs @ bs @ nxt \<and> cdata zs = [] \<and> bs \<noteq> []
       \<and> (\<not> flag_on (state q) Qcoalesce \<longrightarrow> zs = [] \<and> length bs = 1)
       \<and> out = take (nat ln) (cdata bs) \<and> bdata (last bs) = ys @ drop (nat ln) (cdata bs)
       \<and> qdata q' = (if flag_on (state q) Qmsg then [] else drop (nat ln) (cdata bs)) @ cdata nxt"
      using zs bk(3) ys by blast
    moreover have "out = take (nat ln) (qdata q)" if "flag_on (state q) Qcoalesce"
      using that bk(3) tb(2,4,6,8) assms(3) by (cases "qdata q1 = []") (auto simp: blocklen_cdata)
    moreover have "n' \<le> ln" using bk(2,3) assms(3) by simp
    moreover have "qfresh q' k'"
      using dist bk(4,5,7) pk \<open>base (last bs) \<in> set (map base bs)\<close> by (auto simp: qfresh_def)
    moreover have "bases (bfirst q') + held k' = bases (bfirst q) + held k" using bk(8) tb(9) by simp
    ultimately show ?thesis using bk(1,2) r by simp
  next
    case TSleep
    then show ?thesis using assms(2,4) r1 tk pk sp by (auto simp: qread_def took_ok_def qfresh_def qdata_def)
  next
    case TEof
    then show ?thesis using assms(2,3,4) r1 tk pk sp by (auto simp: qread_def took_ok_def qfresh_def qdata_def)
  next
    case (TError e)
    then show ?thesis using assms(2,4) r1 tk pk sp by (auto simp: qread_def took_ok_def qfresh_def qdata_def)
  qed
qed

section \<open>Process-level writes\<close>

text \<open>One pass of the loop of \<open>qwrite\<close>: the block it allocates is filled and handed to \<open>qbwrite\<close>.\<close>

lemma qread1_total: "\<exists>t q' k'. qread1 q ln k = Inr (t, q', k')"
proof (induction "length (bfirst q)" arbitrary: q k)
  case 0
  then show ?case by (subst qread1.simps) (auto simp: qwait_def Let_def)
next
  case (Suc m)
  then obtain b nxt where bf: "bfirst q = b # nxt" by (cases "bfirst q") auto
  show ?case using Suc bf by (auto simp: qread1_Ready[OF bf] case_prod_beta simp del: qgrab.simps)
qed



lemma qwrite_eq:
  "n = min (length p) Maxatomic \<Longrightarrow> qwrite q p hipri k =
    bindE (allocb n k) (\<lambda>(b, k). bindE (bput b (take n p)) (\<lambda>b.
     case qbwrite_put q b hipri k of
       (Sleeps, q, k, ev) \<Rightarrow> Inr (WSleep p, q, k, ev)
     | (Raises e, q, k, ev) \<Rightarrow> Inr (WError e, q, k, ev)
     | (Returns (_, flow), q, k, ev) \<Rightarrow>
         let (asleep, q) = (if flow then qbwrite_wait q else (False, q));
             more = (n < length p \<and> \<not> flag_on (state q) Qmsg) in
         if asleep then Inr (WSleep (if more then drop n p else []), q, k, ev)
         else if more then
           bindE (qwrite q (drop n p) hipri k) (\<lambda>(w, q, k, ev'). Inr (w, q, k, ev @ ev'))
         else Inr (WDone, q, k, ev)))"
  by (subst qwrite.simps) (simp only: Let_def)

text \<open>
  The bytes of a write that are on the queue when it returns, sleeps or fails: \<open>p\<close> less what
  a sleeping call has still to do. On a message queue one block carries at most \<open>Maxatomic\<close>
  bytes and the loop stops after it.
\<close>

definition wrote_bytes :: "u8 list \<Rightarrow> bool \<Rightarrow> wrote \<Rightarrow> u8 list" where
  "wrote_bytes p msg w = (case w of
      WDone \<Rightarrow> (if msg then take Maxatomic p else p)
    | WSleep rest \<Rightarrow> take (if msg then Maxatomic else length p - length rest) p
    | WError _ \<Rightarrow> [])"

text \<open>
  \<open>qwrite\<close> on an open blocking queue appends its bytes in order: all of them when it returns,
  all but what is left when it sleeps (of a message only the first \<open>Maxatomic\<close> bytes); it never
  fails there, and no buffer is lost.
\<close>

lemma qwrite_ok:
  assumes "qinv q" and "qfresh q k" and "\<not> hasbypass q" and "\<not> noblock q" and "\<not> flag_on (state q) Qclosed"
    and "qwrite q p hipri k = Inr (w, q', k', ev)"
  shows "qinv q' \<and> qfresh q' k' \<and> bases (bfirst q') + held k' = bases (bfirst q) + held k
    \<and> (\<forall>e. w \<noteq> WError e) \<and> (\<forall>rest. w = WSleep rest \<longrightarrow> length rest \<le> length p)
    \<and> qdata q' = qdata q @ wrote_bytes p (flag_on (state q) Qmsg) w"
  using assms
proof (induction "length p" arbitrary: q p k w q' k' ev rule: less_induct)
  case less
  define n where "n = min (length p) Maxatomic"
  have n: "n \<le> Maxatomic" "length (take n p) = n" "n < length p \<Longrightarrow> n = Maxatomic"
    "\<not> n < length p \<Longrightarrow> take Maxatomic p = p" "take n p = take Maxatomic p" by (auto simp: n_def)
  obtain b k1 b' where al: "allocb n k = Inr (b, k1)" and bp: "bput b (take n p) = Inr b'"
    using less.prems(6) by (auto simp: qwrite_eq[OF n_def] bindE_Inr_iff)
  obtain a where b: "wfb b" "bdata b = []" "rp b + n \<le> lim b" "wp b = rp b"
    "base b = a" "held k = add_mset a (held k1)" "mallocs k = Some a # mallocs k1"
    using al by (rule allocb_InrD) auto
  have b': "wfb b'" "bdata b' = take n p" "base b' = a"
    using fresh_block_filled[OF b(1,2) _ b(4), of "take n p"] b(3,5) bp n(2) by auto
  have pend: "pending k = a # pending k1" using b(7) by (simp add: pending_def List.map_filter_simps)
  have dist: "distinct (map base (bfirst q) @ a # pending k1)" using less.prems(2) pend by (simp add: qfresh_def)
  obtain r q1 k2 ev1 where put: "qbwrite_put q b' hipri k1 = (r, q1, k2, ev1)" by (metis prod_cases4)
  have po: "qinv q1" "pending k2 = pending k1" "r = Returns (BLEN b', True)" "bfirst q1 = bfirst q @ [b']"
    "held k2 = held k1"
    using qbwrite_put_ok[OF less.prems(1) b'(1) _ put] less.prems(3-5) b'(3) dist by auto
  have fl: "hasbypass q1 = hasbypass q" "noblock q1 = noblock q"
    "flag_on (state q1) Qclosed = flag_on (state q) Qclosed" "flag_on (state q1) Qmsg = flag_on (state q) Qmsg"
    using put less.prems(3-5)
    by (auto simp: qbwrite_put_def Let_def case_prod_beta qlink_append[OF less.prems(1)])
  obtain s q2 where wt: "qbwrite_wait q1 = (s, q2)" by fastforce
  have q2: "qinv q2" "bfirst q2 = bfirst q @ [b']" "hasbypass q2 = hasbypass q1" "noblock q2 = noblock q1"
    "flag_on (state q2) Qclosed = flag_on (state q1) Qclosed" "flag_on (state q2) Qmsg = flag_on (state q1) Qmsg"
    using qbwrite_wait_ok[OF po(1) wt] po(4) wt by (auto simp: qbwrite_wait_def split: if_splits)
  have acct: "bases (bfirst q2) + held k2 = bases (bfirst q) + held k" "qdata q2 = qdata q @ take n p"
    using q2(2) b'(2,3) b(6) po(5) by (simp_all add: qdata_def)
  have fr: "qfresh q2 k2" using dist q2(2) po(2) b'(3) by (auto simp: qfresh_def)
  let ?more = "n < length p \<and> \<not> flag_on (state q2) Qmsg"
  have eq: "Inr (w, q', k', ev) =
     (if s then Inr (WSleep (if ?more then drop n p else []), q2, k2, ev1)
      else if ?more then
        bindE (qwrite q2 (drop n p) hipri k2) (\<lambda>(w, q, k, ev'). Inr (w, q, k, ev1 @ ev'))
      else Inr (WDone, q2, k2, ev1))"
    using less.prems(6) unfolding qwrite_eq[OF n_def] by (simp add: al bp put po(3) wt Let_def)
  show ?case
  proof (cases "s \<or> \<not> ?more")
    case True
    then show ?thesis using eq q2 acct fr fl n
      by (auto simp: wrote_bytes_def split: if_splits)
  next
    case False
    then obtain ev' where rec: "qwrite q2 (drop n p) hipri k2 = Inr (w, q', k', ev')"
      using eq[symmetric] by (auto simp: bindE_Inr_iff)
    have "qinv q' \<and> qfresh q' k' \<and> bases (bfirst q') + held k' = bases (bfirst q2) + held k2
      \<and> (\<forall>e. w \<noteq> WError e) \<and> (\<forall>rest. w = WSleep rest \<longrightarrow> length rest \<le> length (drop n p))
      \<and> qdata q' = qdata q2 @ wrote_bytes (drop n p) (flag_on (state q2) Qmsg) w"
      using False less.prems(3-5) q2 fl fr n(3)
      by (intro less.hyps[OF _ _ _ _ _ _ rec]) (auto simp: Maxatomic_def)
    moreover have "take n p @ wrote_bytes (drop n p) False w = wrote_bytes p False w"
      if "\<forall>e. w \<noteq> WError e" "\<forall>rest. w = WSleep rest \<longrightarrow> length rest \<le> length (drop n p)"
      using that False by (cases w) (auto simp: wrote_bytes_def simp flip: take_add)
    ultimately show ?thesis using acct False q2 fl by auto
  qed
qed

lemma qiwrite_eq:
  "n = min (length p) Maxatomic \<Longrightarrow> qiwrite q p sofar dowakeup k =
    bindE (iallocb n k) (\<lambda>(r, k).
     case r of
       None \<Rightarrow> Inr (sofar, q, k, [])
     | Some b \<Rightarrow>
         bindE (bput b (take n p)) (\<lambda>b.
         if flag_on (state q) Qclosed then Inr (- 1, q, k, [])
         else if dlen q \<ge> 16 * 1024 then Inr (sofar, q, freeb b k, [])
         else
           let q = qlink q [b];
               q = q\<lparr>blast := base b, len := len q + BALLOC b, dlen := dlen q + int n\<rparr>;
               (q, woke) = qunstarve q;
               dowakeup = (dowakeup \<or> woke);
               ev = (if dowakeup then (if haskick q then [Kick] else []) @ [WakeR] else []);
               sofar = sofar + int n in
           if n < length p \<and> \<not> flag_on (state q) Qmsg then
             bindE (qiwrite q (drop n p) sofar dowakeup k) (\<lambda>(s, q, k, ev'). Inr (s, q, k, ev @ ev'))
           else Inr (sofar, q, k, ev)))"
  by (subst qiwrite.simps) (simp only: Let_def)

text \<open>
  \<open>qiwrite\<close> on an open queue: the result counts the bytes queued, which are a prefix of the
  data; the rest, if any, was dropped for lack of memory or because 16K are waiting.
\<close>

text \<open>
  \<open>qiwrite\<close> on an open queue appends exactly as many bytes as the count it returns says, the first
  ones of its argument, and no buffer is lost.
\<close>

lemma qiwrite_ok:
  assumes "qinv q" and "qfresh q k" and "\<not> flag_on (state q) Qclosed"
    and "qiwrite q p sofar d k = Inr (r, q', k', ev)"
  shows "qinv q' \<and> qfresh q' k' \<and> bases (bfirst q') + held k' = bases (bfirst q) + held k
    \<and> sofar \<le> r \<and> r - sofar \<le> int (length p) \<and> qdata q' = qdata q @ take (nat (r - sofar)) p"
  using assms
proof (induction "length p" arbitrary: q p k sofar d r q' k' ev rule: less_induct)
  case less
  define n where "n = min (length p) Maxatomic"
  have n: "length (take n p) = n" "n < length p \<Longrightarrow> n = Maxatomic" "n \<le> length p" by (auto simp: n_def)
  obtain bo k1 where al: "iallocb n k = Inr (bo, k1)"
    using less.prems(4) by (auto simp: qiwrite_eq[OF n_def] bindE_Inr_iff)
  show ?case
  proof (cases bo)
    case None
    then have "r = sofar" "q' = q" "k' = k1" using less.prems(4) al by (auto simp: qiwrite_eq[OF n_def])
    then show ?thesis using iallocb_NoneD[of n k k1] al None less.prems(1,2) by (simp add: qfresh_def)
  next
    case (Some b)
    obtain a where b: "wfb b" "bdata b = []" "rp b + n \<le> lim b" "wp b = rp b" "base b = a"
      "held k = add_mset a (held k1)" "pending k = a # pending k1"
      using al Some by (auto elim: iallocb_SomeD)
    let ?b = "bappend b (take n p)"
    have fb: "bput b (take n p) = Inr ?b" "wfb ?b" "bdata ?b = take n p" "BLEN ?b = int n"
      using fresh_block_filled[OF b(1,2) _ b(4), of "take n p"] b(3) n(1) by auto
    show ?thesis
    proof (cases "dlen q \<ge> 16 * 1024")
      case True
      then have "r = sofar" "q' = q" "k' = freeb ?b k1"
        using less.prems(3,4) al Some fb(1) by (auto simp: qiwrite_eq[OF n_def])
      then show ?thesis using b less.prems(1,2) by (auto simp: qfresh_def)
    next
      case False
      define q1 where "q1 = fst (qunstarve (q\<lparr>bfirst := bfirst q @ [?b], blast := base b,
        len := len q + BALLOC ?b, dlen := dlen q + int n\<rparr>))"
      have q1: "bfirst q1 = bfirst q @ [?b]" "flag_on (state q1) Qclosed = flag_on (state q) Qclosed"
        "flag_on (state q1) Qmsg = flag_on (state q) Qmsg" by (simp_all add: q1_def)
      have d: "distinct (map base (bfirst q @ [?b]) @ pending k1)"
        using less.prems(2) b by (auto simp: qfresh_def)
      have inv1: "qinv q1" using less.prems(1) d fb(2,4) by (auto simp: qinv_def q1_def)
      have fr1: "qfresh q1 k1" using d q1(1) by (simp add: qfresh_def)
      have acct: "bases (bfirst q1) + held k1 = bases (bfirst q) + held k" "qdata q1 = qdata q @ take n p"
        using q1(1) b(5,6) fb(3) by (simp_all add: qdata_def)
      let ?d = "d \<or> flag_on (state q) Qstarve"
      define ev1 where "ev1 = (if ?d then (if haskick q1 then [Kick] else []) @ [WakeR] else [])"
      have eq: "Inr (r, q', k', ev) =
          (if n < length p \<and> \<not> flag_on (state q) Qmsg
           then bindE (qiwrite q1 (drop n p) (sofar + int n) ?d k1) (\<lambda>(s, q, k, ev'). Inr (s, q, k, ev1 @ ev'))
           else Inr (sofar + int n, q1, k1, ev1))"
        using less.prems(4)[symmetric] less.prems(3) al Some fb(1) False
        by (simp add: qiwrite_eq[OF n_def] Let_def case_prod_beta qlink_append[OF less.prems(1)]
            q1_def ev1_def cong: if_cong)
      show ?thesis
      proof (cases "n < length p \<and> \<not> flag_on (state q) Qmsg")
        case more: True
        then obtain ev' where rec: "qiwrite q1 (drop n p) (sofar + int n) ?d k1 = Inr (r, q', k', ev')"
          using eq[symmetric] by (auto simp: bindE_Inr_iff)
        have IH: "qinv q' \<and> qfresh q' k' \<and> bases (bfirst q') + held k' = bases (bfirst q1) + held k1
          \<and> sofar + int n \<le> r \<and> r - (sofar + int n) \<le> int (length (drop n p))
          \<and> qdata q' = qdata q1 @ take (nat (r - (sofar + int n))) (drop n p)"
          using more less.prems(3) q1 n by (intro less.hyps[OF _ inv1 fr1 _ rec]) (auto simp: Maxatomic_def)
        moreover have "nat (r - sofar) = n + nat (r - (sofar + int n))" using IH by linarith
        ultimately show ?thesis using acct n(3) by (simp add: take_add)
      next
        case last: False
        then show ?thesis using eq inv1 fr1 acct n(3) by auto
      qed
    qed
  qed
qed

text \<open>On a closed queue \<open>qiwrite\<close> reports \<open>-1\<close> and the block it had filled is lost.\<close>

text \<open>
  on a closed queue \<open>qiwrite\<close> returns -1 without freeing the block it allocated and filled: one
  buffer is neither queued nor freed afterwards.
\<close>

lemma qiwrite_closed:
  assumes "flag_on (state q) Qclosed" and "iallocb (min (length p) Maxatomic) k = Inr (Some b, k1)"
  shows "qiwrite q p sofar d k = Inr (- 1, q, k1, []) \<and> held k = add_mset (base b) (held k1)"
proof -
  define n where "n = min (length p) Maxatomic"
  obtain a where b: "wfb b" "bdata b = []" "rp b + n \<le> lim b" "wp b = rp b" "base b = a"
    "held k = add_mset a (held k1)"
    using assms(2) by (auto simp: n_def elim: iallocb_SomeD)
  have "bput b (take n p) = Inr (bappend b (take n p))"
    using b(3,4) by (intro bput_Inr) (simp add: n_def)
  then show ?thesis
    using assms b by (simp add: qiwrite_eq[OF n_def] n_def[symmetric])
qed

section \<open>Closing and the rest\<close>

lemma qclose_ok:
  assumes "qclose q k = (q', k', ev)"
  shows "qinv q' \<and> bfirst q' = [] \<and> pending k' = pending k \<and> held k' = bases (bfirst q) + held k
    \<and> flag_on (state q') Qclosed \<and> \<not> flag_on (state q') Qstarve \<and> \<not> flag_on (state q') Qflow
    \<and> ev = [WakeR, WakeW] \<and> err q' = Ehungup"
proof -
  have "flag_on (flag_clr s (Qflow OR Qstarve)) f \<longleftrightarrow> flag_on (flag_clr (flag_clr s Qflow) Qstarve) f" for s f
    by (simp add: flag_on_def flag_clr_def and.assoc)
  then show ?thesis using assms by (auto simp: qclose_def qinv_def Let_def)
qed

lemma qflush_ok:
  "qflush q k = (q', k', ev) \<Longrightarrow> qinv q' \<and> bfirst q' = [] \<and> pending k' = pending k
    \<and> held k' = bases (bfirst q) + held k \<and> state q' = state q"
  by (auto simp: qflush_def qinv_def)

lemma qhangup_ok: "qinv q \<Longrightarrow> qhangup q msg = (q', ev) \<Longrightarrow> qinv q' \<and> bfirst q' = bfirst q"
  by (auto simp: qhangup_def)

lemma status_ops_ok:
  assumes "qinv q"
  shows "qinv (qreopen q)" "bfirst (qreopen q) = bfirst q"
    "qinv (qsetlimit q lm)" "bfirst (qsetlimit q lm) = bfirst q"
    "qinv (qnoblock q on)" "bfirst (qnoblock q on) = bfirst q"
    "qlen q = int (length (qdata q))" "0 \<le> qwindow q"
  using assms qdata_len[OF assms] by (simp_all add: qreopen_def qsetlimit_def qnoblock_def qlen_def qwindow_def Let_def)

lemma qcopyseek_ok:
  assumes "wfc bs" and "sofar \<le> off"
  shows "case qcopyseek bs sofar off of
      None \<Rightarrow> length (cdata bs) \<le> off - sofar
    | Some (xs, nxt) \<Rightarrow> wfc nxt \<and> xs @ cdata nxt = drop (off - sofar) (cdata bs)"
  using assms
proof (induction bs arbitrary: sofar)
  case Nil
  then show ?case by simp
next
  case (Cons b bs)
  have L: "nat (BLEN b) = length (bdata b)" using Cons.prems(1) by (simp add: BLEN_bdata)
  show ?case
  proof (cases "sofar + length (bdata b) > off")
    case True
    then show ?thesis using Cons.prems by (auto simp: Let_def L)
  next
    case False
    then show ?thesis using Cons.IH[of "sofar + length (bdata b)"] Cons.prems
      by (auto simp: Let_def L split: option.splits)
  qed
qed

declare qcopyloop.simps [simp del]

lemma qcopyloop_ok:
  assumes "wfb nb" and "wfc nxt" and "sofar \<le> ln" and "wp nb + (ln - sofar) \<le> lim nb"
  shows "\<exists>nb' k'. qcopyloop nb xs nxt sofar ln k = Inr (nb', k') \<and> wfb nb' \<and> base nb' = base nb
    \<and> held k' = held k \<and> bdata nb' = bdata nb @ take (ln - sofar) (xs @ cdata nxt)"
  using assms
proof (induction nxt arbitrary: nb xs sofar k)
  case Nil
  have "wp nb + length (take (ln - sofar) xs) \<le> lim nb" using Nil.prems(4) by simp
  then show ?case using Nil.prems
    by (subst qcopyloop.simps) (auto simp: Let_def wfb_bappend bdata_bappend)
next
  case (Cons b bs)
  show ?case
  proof (cases "sofar < ln")
    case True
    let ?ys = "take (ln - sofar) xs" and ?k = "bytes Cqcopybytes (int (length (take (ln - sofar) xs))) k"
    have fit: "wp nb + length ?ys \<le> lim nb" using Cons.prems(4) by simp
    have wf: "wfb (bappend nb ?ys)" and d: "bdata (bappend nb ?ys) = bdata nb @ ?ys"
      using Cons.prems(1) fit by (simp_all add: wfb_bappend bdata_bappend)
    have "\<exists>nb' k'. qcopyloop (bappend nb ?ys) (bdata b) bs (sofar + length ?ys) ln ?k = Inr (nb', k')
      \<and> wfb nb' \<and> base nb' = base (bappend nb ?ys) \<and> held k' = held ?k
      \<and> bdata nb' = bdata (bappend nb ?ys) @ take (ln - (sofar + length ?ys)) (bdata b @ cdata bs)"
      using Cons.prems by (intro Cons.IH wf) auto
    moreover have "qcopyloop nb xs (b # bs) sofar ln k
        = qcopyloop (bappend nb ?ys) (bdata b) bs (sofar + length ?ys) ln ?k"
      using True fit by (subst qcopyloop.simps) (simp add: Let_def)
    moreover have "ln - (sofar + length ?ys) = ln - sofar - length xs" by simp
    ultimately show ?thesis using d by (simp only:) (auto simp: append_assoc)
  next
    case False
    then show ?thesis using Cons.prems by (subst qcopyloop.simps) auto
  qed
qed

text \<open>
  \<open>qcopy\<close> returns a fresh block with the \<open>len\<close> bytes from \<open>offset\<close> of the queue, or as many as there are,
  and does not touch the queue.
\<close>

lemma qcopy_ok:
  assumes "qinv q" and "inproc k" and "mallocs k = Some p # as"
  shows "\<exists>nb k'. qcopy q ln off k = Inr (nb, k') \<and> wfb nb \<and> bdata nb = take ln (drop off (qdata q))
    \<and> bases [nb] + held k' = held k"
proof -
  let ?l = "layoutb p ln" and ?k = "k\<lparr>mallocs := as\<rparr>"
  have al: "allocb ln k = Inr (?l, ?k)" using assms(2,3) by simp
  have wf: "wfc (bfirst q)" using assms(1) by (simp add: qinv_def)
  have room: "wp ?l + (ln - 0) \<le> lim ?l" using layoutb_bounds[of p ln] by simp
  show ?thesis
  proof (cases "qcopyseek (bfirst q) 0 off")
    case None
    then have "drop off (qdata q) = []" using qcopyseek_ok[OF wf, of 0 off] by (simp add: qdata_def)
    then show ?thesis using al None by (simp add: qcopy_def wfb_layoutb bdata_layoutb held_malloc[OF assms(3)])
  next
    case (Some r)
    obtain xs nxt where r: "r = (xs, nxt)" by fastforce
    then have sk: "wfc nxt" "xs @ cdata nxt = drop off (qdata q)"
      using qcopyseek_ok[OF wf, of 0 off] Some by (simp_all add: qdata_def)
    obtain nb k' where "qcopyloop ?l xs nxt 0 ln ?k = Inr (nb, k')" "wfb nb" "base nb = base ?l"
      "held k' = held ?k" "bdata nb = bdata ?l @ take (ln - 0) (xs @ cdata nxt)"
      using qcopyloop_ok[OF wfb_layoutb sk(1) _ room] by blast
    then show ?thesis using al Some r sk(2)
      by (simp add: qcopy_def bdata_layoutb held_malloc[OF assms(3)])
  qed
qed

text \<open>
  \<open>pullupqueue\<close> keeps the bytes and the tail pointer, but not \<open>len\<close>: the blocks \<open>pullupblock\<close>
  frees and allocates change the space of the chain, and \<open>q->len\<close> is left alone.
\<close>

text \<open>
  \<open>pullupqueue\<close> on a queue with \<open>n\<close> bytes keeps the bytes and gathers the first \<open>n\<close> in the first
  block; the tail pointer and \<open>dlen\<close> stay right, and \<open>len\<close> is left as it was although blocks were replaced.
\<close>

lemma pullupqueue_ok:
  assumes "qinv q" and "bfirst q \<noteq> []" and "n \<le> dlen q" and "inproc k" and "mallocs k = Some p # as"
  shows "\<exists>q' k' b nx. pullupqueue q n k = Inr (q', k') \<and> bfirst q' = b # nx \<and> n \<le> BLEN b
    \<and> wfc (bfirst q') \<and> qdata q' = qdata q \<and> dlen q' = blocklen (bfirst q') \<and> len q' = len q
    \<and> blast q' = base (last (bfirst q'))
    \<and> bases (bfirst q') + held k' = bases (bfirst q) + held k"
proof -
  obtain b bs where bf: "bfirst q = b # bs" using assms(2) by (cases "bfirst q") auto
  have wf: "wfc (b # bs)" and dl: "dlen q = blocklen (b # bs)" and bl: "blast q = base (last (b # bs))"
    using assms(1) bf by (auto simp: qinv_def)
  show ?thesis
  proof (cases "BLEN b \<ge> n")
    case True
    then show ?thesis using bf wf dl bl by (auto simp: pullupqueue_def)
  next
    case False
    obtain b' nx k' where pu: "pullupblock (b # bs) n k = Inr (b' # nx, k')" "wfc (b' # nx)"
      "cdata (b' # nx) = cdata (b # bs)" "n \<le> BLEN b'"
      "bases (b' # nx) + held k' = bases (b # bs) + held k"
      using pullupblock_enough[OF wf _ assms(4,5), of n] assms(3) dl by auto
    have "blocklen (b' # nx) = blocklen (b # bs)"
      using pu(2,3) wf by (simp only: blocklen_cdata)
    then show ?thesis using pu False bf dl
      by (auto simp: pullupqueue_def qdata_def)
  qed
qed

section \<open>Empty blocks on a coalescing queue\<close>

lemma qread1_all_empty:
  assumes "qinv q" and "flag_on (state q) Qcoalesce" and "\<not> flag_on (state q) Qclosed" and "qdata q = []"
  shows "\<exists>q' k'. qread1 q ln k = Inr (TSleep, q', k') \<and> bfirst q' = [] \<and> state q' = flag_set (state q) Qstarve"
  using assms
proof (induction "length (bfirst q)" arbitrary: q k)
  case 0
  then show ?case by (subst qread1.simps) (simp add: qwait_def)
next
  case (Suc m)
  then obtain b nxt where bf: "bfirst q = b # nxt" by (cases "bfirst q") auto
  define q1 where "q1 = q\<lparr>bfirst := nxt, dlen := dlen q - BLEN b, len := len q - BALLOC b\<rparr>"
  have q1: "qinv q1" "bfirst q1 = nxt" "state q1 = state q"
    using qremove_ok[OF Suc.prems(1), of "Some b" q1] bf by (simp_all add: q1_def qremove_def)
  have e: "BLEN b \<le> 0" "cdata nxt = []" using Suc.prems(1,4) bf by (auto simp: qinv_def qdata_def BLEN_bdata)
  then have "qread1 q ln k = qread1 q1 ln (freeb b k)" using Suc.prems(2) by (simp add: qread1_Ready[OF bf] q1_def)
  moreover have "\<exists>q' k'. qread1 q1 ln (freeb b k) = Inr (TSleep, q', k') \<and> bfirst q' = [] \<and> state q' = flag_set (state q1) Qstarve"
    using Suc.hyps(2) Suc.prems bf q1 e by (intro Suc.hyps(1)) (auto simp: qdata_def)
  ultimately show ?case using q1 by simp
qed

text \<open>
  a read of a coalescing queue that holds only zero-length blocks frees them all and sleeps
  without waking anyone, so a writer that was flow controlled by those blocks stays asleep
  (\<open>Qflow\<close> is still set) on an empty queue, next to the sleeping reader.
\<close>

lemma coalesce_read_strands_writer:
  assumes "qinv q" and "flag_on (state q) Qcoalesce" and "\<not> flag_on (state q) Qclosed" and "qdata q = []"
  shows "\<exists>q' k'. qread q ln k = Inr (Sleeps, q', k', []) \<and> bfirst q' = [] \<and> len q' = 0
    \<and> (flag_on (state q') Qflow \<longleftrightarrow> flag_on (state q) Qflow)"
proof -
  obtain q' k' where r: "qread1 q ln k = Inr (TSleep, q', k')" "bfirst q' = []" "state q' = flag_set (state q) Qstarve"
    using qread1_all_empty[OF assms] by blast
  moreover have "qinv q'" using qread1_ok[OF assms(1) r(1)] by (simp add: took_ok_def)
  ultimately show ?thesis by (simp add: qread_def qinv_def)
qed

end
