(* ===== verification/Qio_System.thy ===== *)
theory Qio_System
  imports Qio_Correct
begin

text \<open>
  A queue with one reading and one writing process, interleaved at every point where the
  code releases the queue's lock. The processes are the ones that hold \<open>rlock\<close> and \<open>wlock\<close>,
  so there is one of each at a time.

  \<^item> The reader is idle, holds the blocks it took while it copies to user memory outside the
    lock, is between \<open>iunlock\<close> and \<open>sleep(&q->rr, notempty, q)\<close> in \<open>qwait\<close>, or sleeps there.
  \<^item> The writer is idle, has more chunks to write, tests \<open>qnotfull\<close> without the lock, is about to
    mark \<open>Qflow\<close>, is between the mark and \<open>sleep(&q->wr, qnotfull, q)\<close>, or sleeps there.

  \<open>acc\<close> and \<open>dlv\<close> log the bytes the queue accepted and delivered, \<open>shut\<close> whether \<open>qclose\<close> was called
  (\<open>Qclosed\<close> does not tell: \<open>qhangup\<close> sets it too).

  Two things are coarser than the code. The \<open>wakeup\<close> that follows an \<open>iunlock\<close> is one step with the
  locked section that decides on it, so that a state of the model is one in which no decided
  wakeup is outstanding. And the parameter \<open>zeros\<close> of the steps tells whether writes of
  no bytes to a coalescing queue occur: with them a reader and a writer can both sleep
  (\<open>zeros_deadlock\<close>), the order of the bytes is kept all the same.
\<close>

datatype reader = RIdle | RHold "block list" int int | RPre | RAsleep

datatype writer = WIdle | WMore "u8 list" | WTest "u8 list" | WMark "u8 list" | WPre "u8 list" | WAsleep "u8 list"

record qsys =
  sq :: queue
  sk :: kmem
  sr :: reader
  sw :: writer
  acc :: "u8 list"
  dlv :: "u8 list"
  shut :: bool

definition wakeR :: "event list \<Rightarrow> reader \<Rightarrow> reader" where
  "wakeR ev r = (if WakeR \<in> set ev \<and> r = RAsleep then RIdle else r)"

definition wakeW :: "event list \<Rightarrow> writer \<Rightarrow> writer" where
  "wakeW ev w = (case w of WAsleep p \<Rightarrow> if WakeW \<in> set ev then WTest p else w | _ \<Rightarrow> w)"

text \<open>What a writer does once its chunk is queued and the queue has room.\<close>

definition wnext :: "u8 list \<Rightarrow> writer" where
  "wnext p = (if p = [] then WIdle else WMore p)"

text \<open>The writes a process may start: \<open>WMore p\<close> goes on with a write, an idle writer starts one.\<close>

definition may_write :: "writer \<Rightarrow> u8 list \<Rightarrow> bool" where
  "may_write w p \<longleftrightarrow> w = WIdle \<or> w = WMore p"

definition qstart :: "int \<Rightarrow> u32 \<Rightarrow> bool \<Rightarrow> kmem \<Rightarrow> qsys" where
  "qstart lm msg kk k = \<lparr>sq = qopen lm msg kk, sk = k, sr = RIdle, sw = WIdle, acc = [], dlv = [], shut = False\<rparr>"

inductive qstep :: "bool \<Rightarrow> qsys \<Rightarrow> qsys \<Rightarrow> bool" for zeros where
  read_take:
    "sr s = RIdle \<Longrightarrow> 0 \<le> ln \<Longrightarrow> qread1 (sq s) ln (sk s) = Inr (Took bs n, q, k)
     \<Longrightarrow> qstep zeros s (s\<lparr>sq := q, sk := k, sr := RHold bs n ln\<rparr>)"
| read_wait:
    "sr s = RIdle \<Longrightarrow> qread1 (sq s) ln (sk s) = Inr (TSleep, q, k)
     \<Longrightarrow> qstep zeros s (s\<lparr>sq := q, sk := k, sr := RPre\<rparr>)"
| read_closed:
    "sr s = RIdle \<Longrightarrow> qread1 (sq s) ln (sk s) = Inr (t, q, k) \<Longrightarrow> t = TEof \<or> t = TError e
     \<Longrightarrow> qstep zeros s (s\<lparr>sq := q, sk := k\<rparr>)"
| read_sleep:
    "sr s = RPre \<Longrightarrow> qstep zeros s (s\<lparr>sr := if notempty (sq s) then RIdle else RAsleep\<rparr>)"
| read_done:
    "sr s = RHold bs n ln \<Longrightarrow> qread2 (sq s) bs n ln (sk s) = (r, out, q, k, ev)
     \<Longrightarrow> qstep zeros s (s\<lparr>sq := q, sk := k, sr := RIdle, sw := wakeW ev (sw s), dlv := dlv s @ out\<rparr>)"
| write_put:
    "may_write (sw s) p \<Longrightarrow> flag_on (state (sq s)) Qcoalesce \<longrightarrow> p \<noteq> [] \<or> zeros
     \<Longrightarrow> n = min (length p) Maxatomic \<Longrightarrow> allocb n (sk s) = Inr (b, k1) \<Longrightarrow> bput b (take n p) = Inr b'
     \<Longrightarrow> qbwrite_put (sq s) b' hipri k1 = (Returns (m, True), q, k, ev)
     \<Longrightarrow> qstep zeros s (s\<lparr>sq := q, sk := k, sr := wakeR ev (sr s), sw := WTest (drop n p),
           acc := acc s @ take n p\<rparr>)"
| write_fail:
    "may_write (sw s) p \<Longrightarrow> n = min (length p) Maxatomic \<Longrightarrow> allocb n (sk s) = Inr (b, k1)
     \<Longrightarrow> bput b (take n p) = Inr b' \<Longrightarrow> qbwrite_put (sq s) b' hipri k1 = (Raises e, q, k, ev)
     \<Longrightarrow> qstep zeros s (s\<lparr>sq := q, sk := k, sw := WIdle\<rparr>)"
| write_test:
    "sw s = WTest p \<Longrightarrow> qstep zeros s (s\<lparr>sw := if noblock (sq s) \<or> qnotfull (sq s) then wnext p else WMark p\<rparr>)"
| write_mark:
    "sw s = WMark p \<Longrightarrow> qstep zeros s (s\<lparr>sq := (sq s)\<lparr>state := flag_set (state (sq s)) Qflow\<rparr>, sw := WPre p\<rparr>)"
| write_sleep:
    "sw s = WPre p \<Longrightarrow> qstep zeros s (s\<lparr>sw := if qnotfull (sq s) then WTest p else WAsleep p\<rparr>)"
| hangup:
    "qhangup (sq s) msg = (q, ev) \<Longrightarrow> qstep zeros s (s\<lparr>sq := q, sr := wakeR ev (sr s), sw := wakeW ev (sw s)\<rparr>)"
| close:
    "qclose (sq s) (sk s) = (q, k, ev)
     \<Longrightarrow> qstep zeros s (s\<lparr>sq := q, sk := k, sr := wakeR ev (sr s), sw := wakeW ev (sw s), shut := True\<rparr>)"

text \<open>The bytes the reader holds, and the room its blocks take up.\<close>

definition hand :: "reader \<Rightarrow> block list" where
  "hand r = (case r of RHold bs n ln \<Rightarrow> bs | _ \<Rightarrow> [])"

definition coalesce_ok :: "queue \<Rightarrow> block list \<Rightarrow> bool" where
  "coalesce_ok q bs \<longleftrightarrow> (flag_on (state q) Qcoalesce \<longrightarrow> list_all (\<lambda>b. 0 < BLEN b) bs)"

definition hand_ok :: "reader \<Rightarrow> bool" where
  "hand_ok r = (case r of
      RHold bs n ln \<Rightarrow> bs \<noteq> [] \<and> n = blocklen bs \<and> 0 \<le> ln
        \<and> (butlast bs \<noteq> [] \<longrightarrow> blocklen (butlast bs) < ln)
    | _ \<Rightarrow> True)"

definition data_inv :: "bool \<Rightarrow> qsys \<Rightarrow> bool" where
  "data_inv zeros s \<longleftrightarrow> qinv (sq s) \<and> wfc (hand (sr s)) \<and> hand_ok (sr s)
    \<and> distinct (map base (hand (sr s) @ bfirst (sq s)) @ pending (sk s))
    \<and> (\<not> zeros \<longrightarrow> coalesce_ok (sq s) (hand (sr s) @ bfirst (sq s))) \<and> \<not> flag_on (state (sq s)) Qmsg \<and> \<not> noblock (sq s)
    \<and> (\<exists>gone. acc s = dlv s @ cdata (hand (sr s)) @ qdata (sq s) @ gone
        \<and> (\<not> shut s \<longrightarrow> gone = [])) \<and> (shut s \<longrightarrow> flag_on (state (sq s)) Qclosed)"

definition wake_inv :: "bool \<Rightarrow> qsys \<Rightarrow> bool" where
  "wake_inv zeros s \<longleftrightarrow>
    (sr s = RPre \<longrightarrow> flag_on (state (sq s)) Qstarve \<or> notempty (sq s))
    \<and> (sr s = RAsleep \<longrightarrow> flag_on (state (sq s)) Qstarve \<and> \<not> notempty (sq s))
    \<and> (\<forall>p. sw s = WPre p \<longrightarrow> zeros \<or> flag_on (state (sq s)) Qflow \<or> qisclosed (sq s)
        \<or> len (sq s) + blockalloclen (hand (sr s)) < half (limit (sq s)))
    \<and> (\<forall>p. sw s = WAsleep p \<longrightarrow> \<not> qisclosed (sq s)
        \<and> (zeros \<or> flag_on (state (sq s)) Qflow \<and> (hand (sr s) = [] \<longrightarrow> half (limit (sq s)) \<le> len (sq s))))"

section \<open>The two sections of a read and the queueing of a block\<close>

lemma qread1_took:
  assumes "qinv q" and "coalesce_ok q (bfirst q)" and "qread1 q ln k = Inr (Took bs n, q', k')"
  shows "bfirst q = bs @ bfirst q' \<and> k' = k \<and> limit q' = limit q \<and> noblock q' = noblock q
    \<and> len q' + blockalloclen bs = len q"
proof (cases "bfirst q")
  case Nil
  then show ?thesis using assms(3) by (auto simp: qread1_Nil split: if_splits)
next
  case (Cons b bs')
  note eq = qread1_Ready[OF Cons, of ln k]
  have lens: "len q = blockalloclen (b # bs')" "dlen q = blocklen (b # bs')" "wfc (b # bs')"
    using assms(1) Cons by (simp_all add: qinv_def)
  show ?thesis
  proof (cases "flag_on (state q) Qcoalesce")
    case True
    then have "\<not> BLEN b \<le> 0" using assms(2) Cons by (simp add: coalesce_ok_def)
    then have g: "qgrab (b # bs') 0 ln q = (bs, n, q')" "k' = k"
      using assms(3) True by (auto simp: eq simp del: qgrab.simps split: prod.splits)
    with qgrab_ok[OF lens(3,1,2) _ g(1)] qgrab_frame[OF g(1)] lens Cons show ?thesis
      by (auto simp del: qgrab.simps)
  next
    case False
    then show ?thesis using assms(3) by (auto simp: eq Cons)
  qed
qed

lemma qread1_other:
  assumes "qinv q" and "qread1 q ln k = Inr (t, q', k')" and "t = TSleep \<or> t = TEof \<or> t = TError e"
  shows "bfirst q' = []" "qdata q = []" "qinv q'" "pending k' = pending k" "noblock q' = noblock q" "limit q' = limit q"
    "(if t = TSleep then \<not> flag_on (state q) Qclosed \<and> state q' = flag_set (state q) Qstarve
      else flag_on (state q) Qclosed \<and> state q' = state q)"
    "coalesce_ok q (bfirst q) \<Longrightarrow> len q' = len q"
proof -
  note sp = qread1_split[OF assms(1,2)] and ok = qread1_ok[OF assms(1,2)]
  show f: "bfirst q' = []" "qdata q = []" "qinv q'" "pending k' = pending k" "noblock q' = noblock q" "limit q' = limit q"
    "(if t = TSleep then \<not> flag_on (state q) Qclosed \<and> state q' = flag_set (state q) Qstarve
      else flag_on (state q) Qclosed \<and> state q' = state q)"
    using sp ok assms(3) by (auto simp: took_ok_def)
  show "len q' = len q" if c: "coalesce_ok q (bfirst q)"
  proof -
    have "bfirst q = []"
    proof (rule ccontr)
      assume ne: "bfirst q \<noteq> []"
      then obtain b bs where b: "bfirst q = b # bs" by (cases "bfirst q") auto
      have "flag_on (state q) Qcoalesce" using sp assms(3) ne f(1) by (cases t) auto
      then have "0 < BLEN b" using c b by (simp add: coalesce_ok_def)
      moreover have "bdata b = []" "wfb b" using f(2) b assms(1) by (auto simp: qdata_def qinv_def)
      ultimately show False by (simp add: BLEN_bdata)
    qed
    then show ?thesis using f(1,3) assms(1) by (simp add: qinv_def)
  qed
qed

lemma bl2mem_left:
  assumes "wfc bs" and "0 \<le> n" and "bl2mem bs n k = (xs, r, k')"
  shows "blockalloclen r \<le> blockalloclen bs \<and> (r \<noteq> [] \<longrightarrow> 0 < BLEN (hd r))"
  using assms
proof (induction bs arbitrary: n k xs)
  case Nil
  then show ?case by simp
next
  case (Cons b bs)
  show ?case
  proof (cases "BLEN b > n")
    case True
    then show ?thesis using Cons.prems by (auto simp: BLEN_def BALLOC_def)
  next
    case False
    then obtain ys k1 where "bl2mem bs (n - BLEN b) k1 = (ys, r, k')"
      using Cons.prems by (auto simp: Let_def split: prod.splits)
    with Cons.IH[OF _ _ this] Cons.prems False BALLOC_nonneg[of b] show ?thesis by auto
  qed
qed

lemma qwakeup_frame:
  assumes "qwakeup_iunlock q = (q', ev)"
  shows "limit q' = limit q" "noblock q' = noblock q" "Qflow AND f = 0 \<Longrightarrow> flag_on (state q') f = flag_on (state q) f"
    "flag_on (state q') Qflow \<longleftrightarrow> flag_on (state q) Qflow \<and> half (limit q) \<le> len q"
    "WakeW \<in> set ev \<longleftrightarrow> flag_on (state q) Qflow \<and> len q < half (limit q)" "len q' = len q"
  using assms by (auto simp: qwakeup_iunlock_def qunflow_def split: if_splits)

lemma qputback_fields [simp]:
  "limit (qputback q c) = limit q" "noblock (qputback q c) = noblock q" "state (qputback q c) = state q"
  "len (qputback q c) = len q + BALLOC c" "bfirst (qputback q c) = c # bfirst q"
  by (simp_all add: qputback_def)

lemma qread2_frame:
  assumes "wfc bs" and "0 \<le> ln" and "\<not> flag_on (state q) Qmsg" and "blocklen (butlast bs) \<le> ln"
    and "qread2 q bs n ln k = (r, out, q', k', ev)"
  shows "limit q' = limit q \<and> noblock q' = noblock q \<and> len q' \<le> len q + blockalloclen bs"
    and "Qflow AND f = 0 \<Longrightarrow> flag_on (state q') f = flag_on (state q) f"
    and "flag_on (state q') Qflow \<longleftrightarrow> flag_on (state q) Qflow \<and> half (limit q) \<le> len q'"
    and "WakeW \<in> set ev \<longleftrightarrow> flag_on (state q) Qflow \<and> len q' < half (limit q)"
    and "\<exists>pb. bfirst q' = pb @ bfirst q \<and> list_all (\<lambda>b. 0 < BLEN b) pb"
proof -
  obtain o1 rest k1 where b: "bl2mem bs ln k = (o1, rest, k1)" by (metis prod_cases3)
  note left = bl2mem_left[OF assms(1,2) b]
  have bl: "rest = [] \<or> (\<exists>c. rest = [c])" using bl2mem_rest[OF assms(1,4) b] by auto
  have wf: "wfc rest" using bl2mem_ok[OF assms(1,2) b] by simp
  obtain q2 where q2: "qwakeup_iunlock q2 = (q', ev)" "limit q2 = limit q" "noblock q2 = noblock q"
    "state q2 = state q" "len q2 \<le> len q + blockalloclen bs"
    "bfirst q2 = rest @ bfirst q" "list_all (\<lambda>b. 0 < BLEN b) rest"
  proof (cases "rest = []")
    case True
    then show ?thesis using that[of q] assms(5) b left
      by (auto simp: qread2_def split: prod.splits)
  next
    case False
    then obtain c where "rest = [c]" using bl by auto
    then show ?thesis using that[of "qputback q c"] assms(3,5) b left
      by (auto simp: qread2_def split: prod.splits)
  qed
  have bf: "bfirst q' = bfirst q2" using q2(1) qwakeup_fields(1)[of q2] by simp
  note fr = qwakeup_frame[OF q2(1)]
  show "limit q' = limit q \<and> noblock q' = noblock q \<and> len q' \<le> len q + blockalloclen bs"
    using fr q2 by simp
  show "Qflow AND f = 0 \<Longrightarrow> flag_on (state q') f = flag_on (state q) f" using fr q2 by simp
  show "flag_on (state q') Qflow \<longleftrightarrow> flag_on (state q) Qflow \<and> half (limit q) \<le> len q'" using fr q2 by simp
  show "WakeW \<in> set ev \<longleftrightarrow> flag_on (state q) Qflow \<and> len q' < half (limit q)" using fr q2 by simp
  show "\<exists>pb. bfirst q' = pb @ bfirst q \<and> list_all (\<lambda>b. 0 < BLEN b) pb" using bf q2 by auto
qed

lemma qbwrite_put_frame:
  assumes "qinv q" and "qbwrite_put q b hipri k = (Returns (m, True), q', k', ev)"
  shows "limit q' = limit q" "noblock q' = noblock q" "\<not> flag_on (state q) Qclosed"
    "Qstarve AND f = 0 \<Longrightarrow> flag_on (state q') f = flag_on (state q) f"
    "WakeR \<in> set ev \<longleftrightarrow> flag_on (state q) Qstarve" "len q' = len q + BALLOC b" "bfirst q' = bfirst q @ [b]"
    "WakeW \<notin> set ev"
  using assms
  by (auto simp: qbwrite_put_def Let_def case_prod_beta qlink_append[OF assms(1)] wakes_def split: if_splits)

section \<open>Every step keeps the byte stream\<close>

definition qinit :: "qsys \<Rightarrow> bool" where
  "qinit s \<longleftrightarrow> (\<exists>lm msg kk k. s = qstart lm msg kk k \<and> 2 \<le> lm \<and> \<not> flag_on msg Qmsg \<and> distinct (pending k))"

lemma fresh_chunk:
  assumes "allocb n k = Inr (b, k1)" and "bput b xs = Inr b'" and "length xs = n"
  shows "wfb b' \<and> bdata b' = xs \<and> pending k = base b' # pending k1"
proof -
  obtain a where b: "wfb b" "bdata b = []" "rp b + n \<le> lim b" "wp b = rp b" "base b = a"
    "mallocs k = Some a # mallocs k1"
    using assms(1) by (rule allocb_InrD) auto
  have "b' = bappend b xs" using assms(2,3) b(3,4) by simp
  then show ?thesis
    using fresh_block_filled[OF b(1,2) _ b(4), of xs] b assms(3) by (simp add: pending_def List.map_filter_simps)
qed

lemma hand_wake [simp]: "hand (wakeR ev r) = hand r" "hand_ok (wakeR ev r) = hand_ok r"
  by (simp_all add: wakeR_def hand_def hand_ok_def)

lemmas data_unfold = data_inv_def hand_def hand_ok_def

lemma data_read_take:
  assumes "data_inv zeros s" and "sr s = RIdle" and "0 \<le> ln" and "qread1 (sq s) ln (sk s) = Inr (Took bs n, q, k)"
  shows "data_inv zeros (s\<lparr>sq := q, sk := k, sr := RHold bs n ln\<rparr>)"
proof -
  have inv: "qinv (sq s)" using assms(1) by (simp add: data_unfold)
  have ok: "qinv q" "pending k = pending (sk s)" "wfc bs" "bs \<noteq> []" "n = blocklen bs" "state q = state (sq s)"
    "qdata (sq s) = cdata bs @ qdata q" "butlast bs \<noteq> [] \<longrightarrow> blocklen (butlast bs) < ln"
    using qread1_ok[OF inv assms(4)] by (auto simp: took_ok_def)
  obtain zs where zs: "bfirst (sq s) = zs @ bs @ bfirst q" "noblock q = noblock (sq s)"
    using qread1_split[OF inv assms(4)] by auto
  have "distinct (map base (bs @ bfirst q) @ pending k)" using assms(1,2) zs(1) ok(2) by (auto simp: data_unfold)
  moreover have "\<not> zeros \<longrightarrow> coalesce_ok q (bs @ bfirst q)"
    using assms(1,2) zs(1) ok(6) by (auto simp: data_unfold coalesce_ok_def)
  ultimately show ?thesis using assms(1-3) ok zs(2) by (auto simp: data_unfold)
qed

lemma data_read_done:
  assumes "data_inv zeros s" and "sr s = RHold bs n ln" and "qread2 (sq s) bs n ln (sk s) = (r, out, q, k, ev)"
  shows "data_inv zeros (s\<lparr>sq := q, sk := k, sr := RIdle, sw := w, dlv := dlv s @ out\<rparr>)"
proof -
  have h: "qinv (sq s)" "wfc bs" "bs \<noteq> []" "0 \<le> ln" "n = blocklen bs"
    "butlast bs \<noteq> [] \<longrightarrow> blocklen (butlast bs) < ln"
    and d: "distinct (map base (bs @ bfirst (sq s)) @ pending (sk s))" and nm: "\<not> flag_on (state (sq s)) Qmsg"
    using assms(1,2) by (auto simp: data_unfold)
  have "base (last bs) \<in> base ` set bs" using h(3) by simp
  then have nl: "base (last bs) \<notin> set (map base (bfirst (sq s)))" "base (last bs) \<notin> set (pending (sk s))"
    using d by auto
  have bl: "blocklen (butlast bs) \<le> ln" using h(4,6) by (cases "butlast bs = []") auto
  note ok = qread2_ok[OF h nl(1) assms(3)] and fr = qread2_frame[OF h(2,4) nm bl assms(3)]
  obtain pb where pb: "bfirst q = pb @ bfirst (sq s)" "pb = [] \<or> (\<exists>b. pb = [b] \<and> base b = base (last bs))"
    "cdata pb = drop (nat ln) (cdata bs)" using ok nm by auto
  have pos: "list_all (\<lambda>b. 0 < BLEN b) pb" using fr(5) pb(1) by auto
  have pk: "pending k = pending (sk s)" "qinv q" "out = take (nat ln) (cdata bs)" using ok by simp_all
  have "distinct (map base (bfirst q) @ pending k)"
    using d pb(1,2) pk nl by auto
  moreover have "cdata bs = out @ cdata pb" using pk pb(3) by simp
  moreover have "flag_on (state q) Qmsg = flag_on (state (sq s)) Qmsg"
    "flag_on (state q) Qcoalesce = flag_on (state (sq s)) Qcoalesce"
    "flag_on (state q) Qclosed = flag_on (state (sq s)) Qclosed" "noblock q = noblock (sq s)"
    using fr(1,2) by simp_all
  ultimately show ?thesis
    using assms(1,2) pk(2) pb(1) pos by (auto simp: data_unfold coalesce_ok_def qdata_def)
qed

lemma data_write_put:
  assumes "data_inv zeros s" and "flag_on (state (sq s)) Qcoalesce \<longrightarrow> p \<noteq> [] \<or> zeros" and "n = min (length p) Maxatomic"
    and al: "allocb n (sk s) = Inr (b, k1)" "bput b (take n p) = Inr b'"
    and put: "qbwrite_put (sq s) b' hipri k1 = (Returns (m, True), q, k, ev)"
  shows "data_inv zeros (s\<lparr>sq := q, sk := k, sr := wakeR ev (sr s), sw := w, acc := acc s @ take n p\<rparr>)"
proof -
  have inv: "qinv (sq s)" "distinct (map base (hand (sr s) @ bfirst (sq s)) @ pending (sk s))"
    using assms(1) by (simp_all add: data_inv_def)
  have f: "wfb b'" "bdata b' = take n p" "pending (sk s) = base b' # pending k1"
    using fresh_chunk[OF al] assms(3) by auto
  note fr = qbwrite_put_frame[OF inv(1) put]
  have ok: "qinv q" "pending k = pending k1"
    using qbwrite_put_ok[OF inv(1) f(1) _ put] inv(2) f(3) by auto
  have "\<not> shut s" using assms(1) fr(3) by (auto simp: data_inv_def)
  moreover have "\<not> zeros \<Longrightarrow> flag_on (state (sq s)) Qcoalesce \<Longrightarrow> 0 < BLEN b'"
    using assms(2,3) f by (simp add: BLEN_bdata Maxatomic_def)
  moreover have "distinct (map base (hand (sr s) @ bfirst q) @ pending k)"
    using inv(2) f(3) ok(2) fr(7) by auto
  ultimately show ?thesis
    using assms(1) ok fr f by (auto simp: data_inv_def coalesce_ok_def qdata_def)
qed

lemma qhangup_frame:
  assumes "qhangup q msg = (q', ev)"
  shows "bfirst q' = bfirst q" "noblock q' = noblock q" "flag_on (state q') Qclosed"
    "Qclosed AND f = 0 \<Longrightarrow> flag_on (state q') f = flag_on (state q) f"
    "len q' = len q" "limit q' = limit q" "ev = [WakeR, WakeW]"
  using assms by (auto simp: qhangup_def flag_on_def[of Qclosed f])

lemma qclose_frame:
  assumes "qclose q k = (q', k', ev)"
  shows "flag_on (state q') Qmsg = flag_on (state q) Qmsg"
    "flag_on (state q') Qcoalesce = flag_on (state q) Qcoalesce" "\<not> noblock q'" "limit q' = limit q"
proof -
  have "state q' = flag_clr (flag_set (state q) Qclosed) (Qflow OR Qstarve)" "\<not> noblock q'" "limit q' = limit q"
    using assms by (auto simp: qclose_def Let_def)
  moreover have "(Qflow OR Qstarve) AND Qmsg = 0" "(Qflow OR Qstarve) AND Qcoalesce = 0"
    by (simp_all add: qflags)
  ultimately show "flag_on (state q') Qmsg = flag_on (state q) Qmsg"
    "flag_on (state q') Qcoalesce = flag_on (state q) Qcoalesce" "\<not> noblock q'" "limit q' = limit q"
    by simp_all
qed

lemma data_inv_step:
  assumes "data_inv zeros s" and "qstep zeros s t"
  shows "data_inv zeros t"
  using assms(2)
proof cases
  case (read_wait ln q k)
  have inv: "qinv (sq s)" using assms(1) by (simp add: data_inv_def)
  note o = qread1_other[OF inv read_wait(3) disjI1[OF refl]]
  show ?thesis using assms(1) read_wait(1,2) o(1-7) by (auto simp: data_unfold coalesce_ok_def qdata_def)
next
  case (read_closed ln t' q k e)
  have inv: "qinv (sq s)" using assms(1) by (simp add: data_inv_def)
  note o = qread1_other[OF inv read_closed(3) disjI2[OF read_closed(4)]]
  show ?thesis using assms(1) read_closed(1,2,4) o(1-7) by (auto simp: data_unfold coalesce_ok_def qdata_def)
next
  case (write_fail p n b k1 b' hipri e q k ev)
  have inv: "qinv (sq s)" using assms(1) by (simp add: data_inv_def)
  have f: "wfb b'" "pending (sk s) = base b' # pending k1"
    using fresh_chunk[of n "sk s" b k1 "take n p" b'] write_fail by auto
  have "q = sq s" using write_fail by (auto simp: qbwrite_put_def Let_def case_prod_beta split: if_splits)
  moreover have "pending k = pending k1"
    using qbwrite_put_ok[OF inv f(1), of hipri k1 "Raises e" q k ev] f(2) write_fail assms(1) by (auto simp: data_inv_def)
  ultimately show ?thesis using assms(1) write_fail f(2) by (auto simp: data_inv_def)
next
  case (hangup msg q ev)
  then show ?thesis using assms(1) qhangup_frame[of "sq s" msg q ev] qhangup_ok[of "sq s" msg q ev]
    by (auto simp: data_inv_def coalesce_ok_def qdata_def)
next
  case (close q k ev)
  have "flag_on (state q) Qmsg = flag_on (state (sq s)) Qmsg" "flag_on (state q) Qcoalesce = flag_on (state (sq s)) Qcoalesce"
    "\<not> noblock q" "flag_on (state q) Qclosed" "bfirst q = []" "qinv q" "pending k = pending (sk s)"
    using qclose_ok[OF close(2)] qclose_frame[OF close(2)] by auto
  then show ?thesis using assms(1) close by (auto simp: data_inv_def coalesce_ok_def qdata_def)
next
  case (read_take ln bs n q k)
  then show ?thesis using data_read_take[OF assms(1)] by simp
next
  case read_sleep
  then show ?thesis using assms(1) by (simp add: data_unfold)
next
  case (read_done bs n ln r out q k ev)
  then show ?thesis using data_read_done[OF assms(1)] by simp
next
  case (write_put p n b k1 b' hipri m q k ev)
  then show ?thesis using data_write_put[OF assms(1)] by blast
next
  case (write_mark p)
  then show ?thesis using assms(1) by (simp add: data_inv_def coalesce_ok_def qdata_def)
qed (use assms(1) in \<open>simp_all add: data_inv_def\<close>)

section \<open>No wakeup is lost\<close>

definition sys_inv :: "bool \<Rightarrow> qsys \<Rightarrow> bool" where
  "sys_inv zeros s \<longleftrightarrow> data_inv zeros s \<and> wake_inv zeros s \<and> 2 \<le> limit (sq s)"

lemma wakeR_cases: "wakeR ev r = RPre \<longleftrightarrow> r = RPre" "wakeR ev r = RAsleep \<longleftrightarrow> r = RAsleep \<and> WakeR \<notin> set ev"
  by (auto simp: wakeR_def)

lemma wakeW_cases: "wakeW ev w = WPre p \<longleftrightarrow> w = WPre p" "wakeW ev w = WAsleep p \<longleftrightarrow> w = WAsleep p \<and> WakeW \<notin> set ev"
  by (auto simp: wakeW_def split: writer.splits)

lemma half_le: "0 \<le> n \<Longrightarrow> half n \<le> n"
  by (simp add: half_def)

lemma wake_read_take:
  assumes "data_inv zeros s" and "wake_inv zeros s" and "sr s = RIdle"
    and "qread1 (sq s) ln (sk s) = Inr (Took bs n, q, k)"
  shows "wake_inv zeros (s\<lparr>sq := q, sk := k, sr := RHold bs n ln\<rparr>) \<and> limit q = limit (sq s)"
proof -
  have inv: "qinv (sq s)" using assms(1) by (simp add: data_unfold)
  have st: "state q = state (sq s)" "bs \<noteq> []" "limit q = limit (sq s)" using qread1_split[OF inv assms(4)] by auto
  have "len q + blockalloclen bs = len (sq s)" if "\<not> zeros"
  proof -
    have "coalesce_ok (sq s) (bfirst (sq s))" using assms(1,3) that by (simp add: data_unfold)
    then show ?thesis using qread1_took[OF inv _ assms(4)] by simp
  qed
  then show ?thesis using st assms(2,3) by (auto simp: wake_inv_def hand_def qisclosed_def)
qed

lemma wake_read_done:
  assumes "data_inv zeros s" and "wake_inv zeros s" and "sr s = RHold bs n ln"
    and "qread2 (sq s) bs n ln (sk s) = (r, out, q, k, ev)"
  shows "wake_inv zeros (s\<lparr>sq := q, sk := k, sr := RIdle, sw := wakeW ev (sw s), dlv := d\<rparr>) \<and> limit q = limit (sq s)"
proof -
  have h: "wfc bs" "0 \<le> ln" "\<not> flag_on (state (sq s)) Qmsg" "blocklen (butlast bs) \<le> ln"
    using assms(1,3) by (cases "butlast bs = []"; auto simp: data_unfold)+
  note fr = qread2_frame[OF h assms(4)]
  have "flag_on (state q) Qclosed = flag_on (state (sq s)) Qclosed" using fr(2) by simp
  then show ?thesis using assms(2,3) fr(1,3,4)
    by (auto simp: wake_inv_def hand_def qisclosed_def wakeW_cases)
qed

lemma wake_write_put:
  assumes "data_inv zeros s" and "wake_inv zeros s" and "qbwrite_put (sq s) b' hipri k1 = (Returns (m, True), q, k, ev)"
  shows "wake_inv zeros (s\<lparr>sq := q, sk := k, sr := wakeR ev (sr s), sw := WTest p, acc := a\<rparr>) \<and> limit q = limit (sq s)"
proof -
  have inv: "qinv (sq s)" using assms(1) by (simp add: data_inv_def)
  show ?thesis using qbwrite_put_frame[OF inv assms(3)] assms(2)
    by (auto simp: wake_inv_def wakeR_cases notempty_def)
qed

lemma wake_inv_step:
  assumes "data_inv zeros s" and "wake_inv zeros s" and "2 \<le> limit (sq s)" and "qstep zeros s t"
  shows "wake_inv zeros t \<and> limit (sq t) = limit (sq s)"
  using assms(4)
proof cases
  case (read_take ln bs n q k)
  then show ?thesis using wake_read_take[OF assms(1,2)] by simp
next
  case (read_wait ln q k)
  then have inv: "qinv (sq s)" and c: "\<not> zeros \<Longrightarrow> coalesce_ok (sq s) (bfirst (sq s))" using assms(1) by (simp_all add: data_unfold)
  note o = qread1_other[OF inv read_wait(3) disjI1[OF refl]]
  show ?thesis using o(6,7) o(8)[OF c] assms(2) read_wait(1,2) by (auto simp: wake_inv_def hand_def qisclosed_def)
next
  case (read_closed ln t' q k e)
  then have inv: "qinv (sq s)" and c: "\<not> zeros \<Longrightarrow> coalesce_ok (sq s) (bfirst (sq s))" using assms(1) by (simp_all add: data_unfold)
  note o = qread1_other[OF inv read_closed(3) disjI2[OF read_closed(4)]]
  show ?thesis using o(6,7) o(8)[OF c] assms(2) read_closed(1,2,4) by (auto simp: wake_inv_def hand_def qisclosed_def)
next
  case read_sleep
  then show ?thesis using assms(2) by (auto simp: wake_inv_def hand_def)
next
  case (read_done bs n ln r out q k ev)
  then show ?thesis using wake_read_done[OF assms(1,2)] by simp
next
  case (write_put p n b k1 b' hipri m q k ev)
  then show ?thesis using wake_write_put[OF assms(1,2)] by simp
next
  case (write_fail p n b k1 b' hipri e q k ev)
  then have "q = sq s" by (auto simp: qbwrite_put_def Let_def case_prod_beta split: if_splits)
  then show ?thesis using assms(2) write_fail(1) by (auto simp: wake_inv_def)
next
  case (write_test p)
  then show ?thesis using assms(2) by (auto simp: wake_inv_def wnext_def)
next
  case (write_mark p)
  then show ?thesis using assms(2) by (auto simp: wake_inv_def notempty_def)
next
  case (write_sleep p)
  have "0 \<le> blockalloclen (hand (sr s))" using assms(1) by (simp add: data_inv_def blockalloclen_nonneg)
  then show ?thesis using assms(2,3) write_sleep half_le[of "limit (sq s)"]
    by (auto simp: wake_inv_def qnotfull_def qisclosed_def)
next
  case (hangup msg q ev)
  then show ?thesis using assms(2) qhangup_frame[OF hangup(2)]
    by (auto simp: wake_inv_def wakeR_cases wakeW_cases qisclosed_def notempty_def)
next
  case (close q k ev)
  then show ?thesis using assms(2) qclose_ok[OF close(2)] qclose_frame[OF close(2)]
    by (auto simp: wake_inv_def wakeR_cases wakeW_cases qisclosed_def notempty_def)
qed

section \<open>Runs\<close>

definition sleepers_ok :: "bool \<Rightarrow> qsys \<Rightarrow> bool" where
  "sleepers_ok zeros s \<longleftrightarrow>
    (sr s = RAsleep \<longrightarrow> \<not> notempty (sq s))
    \<and> (\<forall>p. sw s = WAsleep p \<longrightarrow> \<not> qisclosed (sq s) \<and> (\<not> zeros \<and> hand (sr s) = [] \<longrightarrow> 0 < len (sq s)))
    \<and> (\<not> zeros \<longrightarrow> \<not> (sr s = RAsleep \<and> (\<exists>p. sw s = WAsleep p)))"

lemma sys_inv_init: "qinit s \<Longrightarrow> sys_inv zeros s"
  by (auto simp: qinit_def sys_inv_def qstart_def data_unfold wake_inv_def coalesce_ok_def qinv_qopen qdata_def)
    (auto simp: qopen_def)

lemma sys_inv_sleepers: "sys_inv zeros s \<Longrightarrow> sleepers_ok zeros s"
  by (auto simp: sys_inv_def sleepers_ok_def wake_inv_def data_inv_def qinv_def hand_def notempty_def half_def)

interpretation qio: safety qinit "qstep zeros" "sys_inv zeros" "sleepers_ok zeros" for zeros
proof unfold_locales
  show "sys_inv zeros t" if "sys_inv zeros s" "qstep zeros s t" for s t
    using that data_inv_step[of zeros s t] wake_inv_step[of zeros s t] by (simp add: sys_inv_def)
qed (fact sys_inv_init, fact sys_inv_sleepers)

text \<open>A concrete run: a reader that finds the queue empty goes to sleep, a write wakes it.\<close>

definition run0 :: qsys where
  "run0 = qstart 200 0 False (kmem0 [Some 4096])"

definition run1 :: qsys where
  "run1 = run0\<lparr>sq := (sq run0)\<lparr>state := flag_set (state (sq run0)) Qstarve\<rparr>, sr := RAsleep\<rparr>"

definition run2 :: qsys where
  "run2 = (let (_, q, k, ev) = qbwrite_put (sq run1) (bappend (layoutb 4096 3) [1, 2, 3]) False (kmem0 [])
     in run1\<lparr>sq := q, sk := k, sr := RIdle, sw := WTest [], acc := [1, 2, 3]\<rparr>)"

lemma run0_init: "qinit run0"
  unfolding qinit_def run0_def
  by (intro exI[of _ 200] exI[of _ 0] exI[of _ False] exI[of _ "kmem0 [Some 4096]"])
    (simp add: pending_def List.map_filter_simps)

lemma run0_sleeps: "(qstep False)\<^sup>*\<^sup>* run0 run1"
proof -
  let ?q = "(sq run0)\<lparr>state := flag_set (state (sq run0)) Qstarve\<rparr>"
  have "qread1 (sq run0) 8 (sk run0) = Inr (TSleep, ?q, sk run0)" "sr run0 = RIdle"
    by (simp_all add: run0_def qstart_def qopen_def qread1_Nil)
  from qstep.read_wait[OF this(2,1)] have "qstep False run0 (run0\<lparr>sq := ?q, sk := sk run0, sr := RPre\<rparr>)" .
  moreover from qstep.read_sleep[of "run0\<lparr>sq := ?q, sk := sk run0, sr := RPre\<rparr>"]
  have "qstep False (run0\<lparr>sq := ?q, sk := sk run0, sr := RPre\<rparr>) run1"
    by (simp add: run1_def run0_def qstart_def qopen_def notempty_def)
  ultimately show ?thesis by (meson rtranclp.simps)
qed

lemma run1_woken: "qstep False run1 run2" and run2_state: "sr run2 = RIdle" "acc run2 = [1, 2, 3]" "dlv run2 = []"
proof -
  let ?b = "bappend (layoutb 4096 3) [1, 2, 3]"
  have fit: "wp (layoutb 4096 3) + length [1, 2, 3 :: u8] \<le> lim (layoutb 4096 3)" using layoutb_bounds[of 4096 3] by simp
  obtain q k ev where put: "qbwrite_put (sq run1) ?b False (kmem0 []) = (Returns (BLEN ?b, True), q, k, ev)"
    by (simp add: run1_def run0_def qstart_def qopen_def qbwrite_put_def qlink_def qunstarve_def Let_def)
  have inv: "qinv (sq run1)" by (simp add: run1_def run0_def qstart_def qinv_qopen)
  have al: "allocb 3 (sk run1) = Inr (layoutb 4096 3, kmem0 [])"
    by (simp add: run1_def run0_def qstart_def kmem0_def)
  have ev: "WakeR \<in> set ev" using qbwrite_put_frame(5)[OF inv put]
    by (simp add: run1_def run0_def qstart_def qopen_def)
  have r1: "may_write (sw run1) [1, 2, 3]" "flag_on (state (sq run1)) Qcoalesce \<longrightarrow> [1, 2, 3 :: u8] \<noteq> [] \<or> False"
    "3 = min (length [1, 2, 3 :: u8]) Maxatomic" "sr run1 = RAsleep" "acc run1 = []" "dlv run1 = []"
    by (simp_all add: may_write_def run1_def run0_def qstart_def Maxatomic_def)
  have bp: "bput (layoutb 4096 3) (take 3 [1, 2, 3]) = Inr ?b" using fit by simp
  from qstep.write_put[OF r1(1-3) al bp put] ev r1(4,5) put show "qstep False run1 run2"
    by (simp add: run2_def wakeR_def)
  show "sr run2 = RIdle" "acc run2 = [1, 2, 3]" "dlv run2 = []"
    by (simp_all add: run2_def run1_def run0_def qstart_def case_prod_beta)
qed

text \<open>After the write a hangup, and the reader takes the block and gets its bytes.\<close>

definition run3 :: qsys where
  "run3 = (let (q, ev) = qhangup (sq run2) [] in run2\<lparr>sq := q, sr := RIdle, sw := WTest []\<rparr>)"

lemma run2_hangs_up: "qstep False run2 run3"
proof -
  obtain q ev where h: "qhangup (sq run2) [] = (q, ev)" by fastforce
  have "sw run2 = WTest []" by (simp add: run2_def case_prod_beta)
  then show ?thesis using qstep.hangup[OF h, of False] h run2_state(1) by (simp add: run3_def wakeR_def wakeW_def)
qed

lemma run3_state: "acc run3 = [1, 2, 3]" "\<not> shut run3" "qisclosed (sq run3)"
proof -
  have "shut run2 = False" by (simp add: run2_def run1_def run0_def qstart_def case_prod_beta)
  then show "acc run3 = [1, 2, 3]" "\<not> shut run3" "qisclosed (sq run3)"
    using run2_state by (simp_all add: run3_def qhangup_def qisclosed_def)
qed

text \<open>
  With a write of no bytes to a coalescing queue, reader and writer can both sleep: the block of the
  write fills the queue and stops the writer, and the read frees it without restarting him.
\<close>

lemma zeros_deadlock:
  "\<exists>s t p. qinit s \<and> (qstep True)\<^sup>*\<^sup>* s t \<and> sr t = RAsleep \<and> sw t = WAsleep p"
proof -
  define s0 where "s0 = qstart 2 Qcoalesce False (kmem0 [Some 4096])"
  have i: "qinit s0" unfolding qinit_def s0_def
    by (intro exI[of _ 2] exI[of _ Qcoalesce] exI[of _ False] exI[of _ "kmem0 [Some 4096]"])
      (simp add: pending_def List.map_filter_simps)
  have st0: "sr s0 = RIdle" "sw s0 = WIdle" "flag_on (state (sq s0)) Qcoalesce" "\<not> flag_on (state (sq s0)) Qclosed" "\<not> noblock (sq s0)"
    "limit (sq s0) = 2" "len (sq s0) = 0" "qinv (sq s0)" "bfirst (sq s0) = []"
    by (simp_all add: s0_def qstart_def qopen_def qinv_qopen[unfolded qopen_def])
  have al: "allocb 0 (sk s0) = Inr (layoutb 4096 0, kmem0 [])" by (simp add: s0_def qstart_def kmem0_def)
  note lb = layoutb_bounds[of 4096 0]
  define b where "b = bappend (layoutb 4096 0) []"
  have bp: "bput (layoutb 4096 0) (take 0 []) = Inr b" using lb(2,3) by (simp add: b_def)
  have b: "wfb b" "bdata b = []" using fresh_chunk[OF al bp] by simp_all
  have bl: "2 \<le> BALLOC b" using lb(1,3) by (simp add: b_def bappend_def BALLOC_def Hdrspc_def)
  obtain q k ev m where put: "qbwrite_put (sq s0) b False (kmem0 []) = (Returns (m, True), q, k, ev)"
    using st0 by (simp add: qbwrite_put_def s0_def qstart_def qopen_def qlink_def qunstarve_def Let_def)
  note fr = qbwrite_put_frame[OF st0(8) put]
  have "qinv q" using qbwrite_put_ok[OF st0(8) b(1) _ put] st0(9) by simp
  moreover have "qdata q = []" using fr(7) st0(9) b(2) by (simp add: qdata_def)
  moreover have fl: "flag_on (state q) Qcoalesce" "\<not> flag_on (state q) Qclosed" using fr(4) st0(3,4) by simp_all
  ultimately have q: "qinv q" "qdata q = []" "flag_on (state q) Qcoalesce" "\<not> flag_on (state q) Qclosed" "\<not> qnotfull q" "\<not> noblock q"
    using fr(1,2,6) st0(5-7) bl by (simp_all add: qnotfull_def)
  define q2 where "q2 = q\<lparr>state := flag_set (state q) Qflow\<rparr>"
  have q2: "qinv q2" "qdata q2 = []" "flag_on (state q2) Qcoalesce" "\<not> flag_on (state q2) Qclosed" "\<not> qnotfull q2"
    using q by (simp_all add: q2_def qdata_def qnotfull_def)
  obtain q3 k3 where r: "qread1 q2 1 k = Inr (TSleep, q3, k3)" using qread1_all_empty[OF q2(1,3,4,2)] by blast
  define s1 where "s1 = s0\<lparr>sq := q, sk := k, sr := wakeR ev (sr s0), sw := WTest [], acc := acc s0 @ []\<rparr>"
  define s2 where "s2 = s1\<lparr>sw := WMark []\<rparr>"
  define s3 where "s3 = s2\<lparr>sq := q2, sw := WPre []\<rparr>"
  define s4 where "s4 = s3\<lparr>sw := WAsleep []\<rparr>"
  define s5 where "s5 = s4\<lparr>sq := q3, sk := k3, sr := RPre\<rparr>"
  define s6 where "s6 = s5\<lparr>sr := RAsleep\<rparr>"
  have "qstep True s0 s1" unfolding s1_def
    using qstep.write_put[of s0 "[]" True 0 "layoutb 4096 0" "kmem0 []" b False m q k ev] st0(2) al bp put by (simp add: may_write_def)
  moreover have "qstep True s1 s2" using qstep.write_test[of s1 "[]" True] q(5,6) by (simp add: s2_def s1_def)
  moreover have "qstep True s2 s3" using qstep.write_mark[of s2 "[]" True] by (simp add: s3_def s2_def s1_def q2_def)
  moreover have "qstep True s3 s4" using qstep.write_sleep[of s3 "[]" True] q2(5) by (simp add: s4_def s3_def)
  moreover have "qstep True s4 s5"
    using qstep.read_wait[of s4 1 q3 k3 True] r st0(1) by (simp add: s5_def s4_def s3_def s2_def s1_def wakeR_def)
  moreover have "qstep True s5 s6"
    using qstep.read_sleep[of s5 True] qread1_other[OF q2(1) r disjI1[OF refl]] q2(4) by (simp add: s6_def s5_def notempty_def)
  ultimately have "(qstep True)\<^sup>*\<^sup>* s0 s6" by (meson r_into_rtranclp rtranclp_trans)
  moreover have "sr s6 = RAsleep" "sw s6 = WAsleep []" by (simp_all add: s6_def s5_def s4_def)
  ultimately show ?thesis using i by blast
qed

text \<open>
  C1: first in, first out. In every run of a reader and a writer on a byte-stream queue (writes of
  no bytes included), with the reader's copy outside the lock interleaved with writes, hangups and closes, the bytes
  accepted are exactly the bytes delivered, then the bytes the reader holds, then the bytes
  queued, in order, as long as \<open>qclose\<close> was not called: neither a read, nor a write that fails, nor a
  hangup, nor a read after a hangup loses a byte. After a \<open>qclose\<close> the bytes that are missing are the
  last ones that were accepted.
\<close>

theorem stream_fifo:
  assumes "qinit s" and "(qstep zeros)\<^sup>*\<^sup>* s t"
  shows "\<exists>gone. acc t = dlv t @ cdata (hand (sr t)) @ qdata (sq t) @ gone \<and> (\<not> shut t \<longrightarrow> gone = [])"
proof -
  have "data_inv zeros t" using qio.reached_inv[OF assms] by (simp add: sys_inv_def)
  then show ?thesis by (auto simp: data_inv_def)
qed

lemma stream_fifo_witness:
  "\<exists>s t. qinit s \<and> (qstep False)\<^sup>*\<^sup>* s t \<and> qisclosed (sq t) \<and> acc t = [1, 2, 3]
    \<and> [1, 2, 3] = dlv t @ cdata (hand (sr t)) @ qdata (sq t)"
proof -
  have "(qstep False)\<^sup>*\<^sup>* run0 run3" using run0_sleeps run1_woken run2_hangs_up by simp
  from this stream_fifo[OF run0_init this] show ?thesis using run0_init run3_state
    by (intro exI[of _ run0] exI[of _ run3]) auto
qed

text \<open>
  C4: no lost wakeup and no deadlock. In every such run, a \<open>wakeup\<close> being counted with the locked
  section that decides on it, a reader that sleeps has nothing to read and faces an open queue, and a writer that
  sleeps faces an open queue. If moreover no write of zero bytes is made to a coalescing queue, a
  sleeping writer faces a queue that still holds blocks, or a reader that holds some and
  will restart it, and the two never sleep at once. (Such writes have to be left out: \<open>zeros_deadlock\<close>
  is a run with one in which both sleep.)
\<close>

theorem sleepers_have_reason:
  assumes "qinit s" and "(qstep zeros)\<^sup>*\<^sup>* s t"
  shows "(sr t = RAsleep \<longrightarrow> \<not> notempty (sq t))
    \<and> (\<forall>p. sw t = WAsleep p \<longrightarrow> \<not> qisclosed (sq t) \<and> (\<not> zeros \<and> hand (sr t) = [] \<longrightarrow> 0 < len (sq t)))
    \<and> (\<not> zeros \<longrightarrow> \<not> (sr t = RAsleep \<and> (\<exists>p. sw t = WAsleep p)))"
  using qio.reached_goal[OF assms] unfolding sleepers_ok_def .

lemma sleepers_have_reason_witness:
  "\<exists>s t. qinit s \<and> (qstep False)\<^sup>*\<^sup>* s t \<and> sr t = RAsleep \<and> \<not> notempty (sq t) \<and> (\<forall>p. sw t \<noteq> WAsleep p)"
proof -
  have "sr run1 = RAsleep" by (simp add: run1_def)
  then show ?thesis using sleepers_have_reason[OF run0_init run0_sleeps] run0_init run0_sleeps
    by (intro exI[of _ run0] exI[of _ run1]) simp
qed

end
