(* ===== verification/Iproute.thy ===== *)
theory Iproute
  imports Plan9_Prelude
begin

text \<open>
  The routing tables of \<open>src/ip/iproute.c\<close>: a forest of range trees per address family.

  The tree code is shared by both families; an address is a \<open>ulong\<close> for version 4 and four
  of them, compared by \<open>lcmp\<close>, for version 6. The trees here are polymorphic in the address
  type, and \<open>lcmp\<close> is the order of the version 6 instance. Addresses are the words that
  \<open>nhgetl\<close> reads from the byte arrays. A tree node owns its \<open>left\<close>, \<open>mid\<close> and \<open>right\<close> trees, so
  a tree is a value; a \<open>Route**\<close> into a tree is the path that leads to it.

  \<open>f->queue\<close>, empty between operations, is the list of trees waiting to be reinserted. The
  loop that empties it may run on, so it is an \<open>option\<close>-valued partial function. Running out
  of memory for nodes, a panic, is not part of the model, and neither are the node free
  lists.
\<close>

section \<open>Addresses\<close>

datatype v6addr = V6addr u32 u32 u32 u32

fun words6 :: "v6addr \<Rightarrow> u32 list" where
  "words6 (V6addr a b c d) = [a, b, c, d]"

fun lcmp_from :: "u32 list \<Rightarrow> u32 list \<Rightarrow> int" where
  "lcmp_from (a # as) (b # bs) = (if a > b then 1 else if a < b then - 1 else lcmp_from as bs)"
| "lcmp_from _ _ = 0"

definition lcmp :: "v6addr \<Rightarrow> v6addr \<Rightarrow> int" where
  "lcmp a b = lcmp_from (words6 a) (words6 b)"

instantiation v6addr :: linorder
begin

definition less_eq_v6addr :: "v6addr \<Rightarrow> v6addr \<Rightarrow> bool" where
  "less_eq_v6addr a b \<longleftrightarrow> lcmp a b \<le> 0"

definition less_v6addr :: "v6addr \<Rightarrow> v6addr \<Rightarrow> bool" where
  "less_v6addr a b \<longleftrightarrow> lcmp a b < 0"

instance
proof
  fix x y z :: v6addr
  obtain a1 a2 a3 a4 b1 b2 b3 b4 c1 c2 c3 c4
    where [simp]: "x = V6addr a1 a2 a3 a4" "y = V6addr b1 b2 b3 b4" "z = V6addr c1 c2 c3 c4"
    by (metis v6addr.exhaust)
  show "(x < y) = (x \<le> y \<and> \<not> y \<le> x)" by (auto simp: less_eq_v6addr_def less_v6addr_def lcmp_def)
  show "x \<le> x" by (simp add: less_eq_v6addr_def lcmp_def)
  show "x \<le> y \<Longrightarrow> y \<le> z \<Longrightarrow> x \<le> z" by (auto simp: less_eq_v6addr_def lcmp_def split: if_splits)
  show "x \<le> y \<Longrightarrow> y \<le> x \<Longrightarrow> x = y" by (auto simp: less_eq_v6addr_def lcmp_def split: if_splits)
  show "x \<le> y \<or> y \<le> x" by (auto simp: less_eq_v6addr_def lcmp_def)
qed

end

section \<open>Nodes\<close>

definition Rv4 :: u8 where "Rv4 = 1"
definition Rifc :: u8 where "Rifc = 2"
definition Rptpt :: u8 where "Rptpt = 4"
definition Runi :: u8 where "Runi = 8"
definition Rbcast :: u8 where "Rbcast = 16"
definition Rmulti :: u8 where "Rmulti = 32"
definition Rproxy :: u8 where "Rproxy = 64"

record 'a route =
  address :: 'a
  endaddress :: 'a
  gate :: "u8 list"
  rtype :: u8
  ifcid :: u8
  ifc :: "nat option"
  tag :: string
  ref :: int

datatype 'a rtree = RNil | RNode (left: "'a rtree") (mid: "'a rtree") (right: "'a rtree") (node: "'a route") (rdepth: u8)

definition depth :: "'a rtree \<Rightarrow> u8" where
  "depth t = (case t of RNil \<Rightarrow> 0 | RNode l m r x d \<Rightarrow> d)"

datatype order = Rpreceeds | Rfollows | Requals | Rcontains | Rcontained

definition rangecompare :: "('a::linorder) route \<Rightarrow> 'a route \<Rightarrow> order" where
  "rangecompare a b =
    (if endaddress a < address b then Rpreceeds
     else if address a > endaddress b then Rfollows
     else if address a \<le> address b \<and> endaddress a \<ge> endaddress b then
       if address a = address b \<and> endaddress a = endaddress b then Requals else Rcontains
     else Rcontained)"

definition copygate :: "'a route \<Rightarrow> 'a route \<Rightarrow> 'a route" where
  "copygate old new = old\<lparr>gate := gate new\<rparr>"

section \<open>The tree\<close>

definition calcd :: "'a rtree \<Rightarrow> 'a rtree" where
  "calcd p = (case p of
      RNil \<Rightarrow> RNil
    | RNode l m r x _ \<Rightarrow>
        let d = depth l;
            d = (if depth r > d then depth r else d);
            d = (if depth m > d then depth m else d)
        in RNode l m r x (d + 1))"

text \<open>
  \<open>dl > dr+1\<close> compares \<open>int\<close>s that hold \<open>uchar\<close> depths.
\<close>

definition balancetree :: "'a rtree \<Rightarrow> 'a rtree" where
  "balancetree p = (case p of
      RNil \<Rightarrow> RNil
    | RNode l m r x d \<Rightarrow>
        if unat (depth l) > unat (depth r) + 1 then
          (case l of
             RNil \<Rightarrow> calcd p
           | RNode ll lm lr lx ld \<Rightarrow> calcd (RNode ll lm (calcd (RNode lr m r x d)) lx ld))
        else if unat (depth r) > unat (depth l) + 1 then
          (case r of
             RNil \<Rightarrow> calcd p
           | RNode rl rm rr rx rd \<Rightarrow> calcd (RNode (calcd (RNode l m rl x d)) rm rr rx rd))
        else calcd p)"

text \<open>The case \<open>Requals\<close> of \<open>addnode\<close>: what becomes of the node that is already there.\<close>

definition supersede :: "'a route \<Rightarrow> 'a route \<Rightarrow> 'a route" where
  "supersede p new =
    (if \<not> flag_on (rtype p) Rifc then copygate (p\<lparr>rtype := rtype new, ifcid := - 1\<rparr>) new
     else if flag_on (rtype new) Rifc then p\<lparr>ref := ref p + 1\<rparr>
     else p)"

text \<open>
  \<open>addnode cur new\<close>: the new node is \<open>x\<close> with its tree \<open>xm\<close> of contained routes, its \<open>left\<close> and
  \<open>right\<close> being nil at every call. The second result is the tree \<open>addqueue\<close> puts on the queue.
\<close>

fun addnode :: "('a::linorder) rtree \<Rightarrow> 'a route \<Rightarrow> 'a rtree \<Rightarrow> 'a rtree \<times> 'a rtree option" where
  "addnode RNil x xm = (RNode RNil xm RNil x 1, None)"
| "addnode (RNode l m r p d) x xm =
    (case rangecompare x p of
       Rpreceeds \<Rightarrow> let (l', q) = addnode l x xm in (balancetree (RNode l' m r p d), q)
     | Rfollows \<Rightarrow> let (r', q) = addnode r x xm in (balancetree (RNode l m r' p d), q)
     | Rcontains \<Rightarrow> (balancetree (RNode RNil xm RNil x 1), Some (RNode l m r p d))
     | Requals \<Rightarrow> (balancetree (RNode l m r (supersede p x) d), None)
     | Rcontained \<Rightarrow> let (m', q) = addnode m x xm in (balancetree (RNode l m' r p d), q))"

text \<open>\<open>addqueue(&f->queue, p)\<close>: nil is not queued.\<close>

definition addqueue :: "'a rtree list \<Rightarrow> 'a rtree \<Rightarrow> 'a rtree list" where
  "addqueue q p = (if p = RNil then q else p # q)"

fun walkadd :: "('a::linorder) rtree \<Rightarrow> 'a rtree list \<Rightarrow> 'a rtree \<Rightarrow> 'a rtree \<times> 'a rtree list" where
  "walkadd root q RNil = (root, q)"
| "walkadd root q (RNode l m r x d) =
    (let (root, new) = addnode root x m;
         q = (case new of None \<Rightarrow> q | Some p \<Rightarrow> addqueue q p);
         (root, q) = walkadd root q l
     in walkadd root q r)"

text \<open>\<open>while(p = f->queue){ f->queue = p->mid; walkadd(f, root, p->left); freeroute(p); }\<close>\<close>

partial_function (option) requeue :: "('a::linorder) rtree \<Rightarrow> 'a rtree list \<Rightarrow> 'a rtree option" where
  "requeue root q =
    (case q of
       [] \<Rightarrow> Some root
     | p # q \<Rightarrow> (case walkadd root q p of (root, q) \<Rightarrow> requeue root q))"

declare requeue.simps [code]

text \<open>The body of the loop of \<open>v4addroute\<close> and \<open>v6addroute\<close>.\<close>

definition addto :: "('a::linorder) rtree \<Rightarrow> 'a route \<Rightarrow> 'a rtree option" where
  "addto root x =
    (let (root, new) = addnode root x RNil in
     requeue root (case new of None \<Rightarrow> [] | Some p \<Rightarrow> addqueue [] p))"

section \<open>Finding a node\<close>

datatype dir = DLeft | DMid | DRight

fun looknode :: "('a::linorder) rtree \<Rightarrow> 'a route \<Rightarrow> dir list option" where
  "looknode RNil x = None"
| "looknode (RNode l m r p d) x =
    (case rangecompare x p of
       Rcontains \<Rightarrow> None
     | Rpreceeds \<Rightarrow> map_option (Cons DLeft) (looknode l x)
     | Rfollows \<Rightarrow> map_option (Cons DRight) (looknode r x)
     | Rcontained \<Rightarrow> map_option (Cons DMid) (looknode m x)
     | Requals \<Rightarrow> Some [])"

text \<open>\<open>*r\<close> for the location \<open>r\<close> a path denotes, and the store \<open>*r = s\<close>.\<close>

fun rderef :: "'a rtree \<Rightarrow> dir list \<Rightarrow> 'a rtree" where
  "rderef t [] = t"
| "rderef (RNode l m r p d) (DLeft # ds) = rderef l ds"
| "rderef (RNode l m r p d) (DMid # ds) = rderef m ds"
| "rderef (RNode l m r p d) (DRight # ds) = rderef r ds"
| "rderef RNil (_ # _) = RNil"

fun rstore :: "'a rtree \<Rightarrow> dir list \<Rightarrow> 'a rtree \<Rightarrow> 'a rtree" where
  "rstore t [] s = s"
| "rstore (RNode l m r p d) (DLeft # ds) s = RNode (rstore l ds s) m r p d"
| "rstore (RNode l m r p d) (DMid # ds) s = RNode l (rstore m ds s) r p d"
| "rstore (RNode l m r p d) (DRight # ds) s = RNode l m (rstore r ds s) p d"
| "rstore RNil (_ # _) s = RNil"

text \<open>The body of the loop of \<open>v4delroute\<close> and \<open>v6delroute\<close>.\<close>

definition delfrom :: "('a::linorder) rtree \<Rightarrow> 'a route \<Rightarrow> 'a rtree option" where
  "delfrom root rt =
    (case looknode root rt of
       None \<Rightarrow> Some root
     | Some r \<Rightarrow>
         (case rderef root r of
            RNil \<Rightarrow> Some root
          | RNode l m rr p d \<Rightarrow>
              if ref p - 1 = 0 then
                requeue (rstore root r RNil) (addqueue (addqueue (addqueue [] l) m) rr)
              else Some (rstore root r (RNode l m rr (p\<lparr>ref := ref p - 1\<rparr>) d))))"

text \<open>The descent of \<open>v4lookup\<close>, \<open>q\<close> being the last range found that holds \<open>la\<close>.\<close>

fun lookfrom :: "('a::linorder) rtree \<Rightarrow> 'a \<Rightarrow> 'a route option \<Rightarrow> 'a route option" where
  "lookfrom RNil la q = q"
| "lookfrom (RNode l m r p d) la q =
    (if la \<ge> address p then
       if la \<le> endaddress p then lookfrom m la (Some p) else lookfrom r la q
     else lookfrom l la q)"

text \<open>The loops over the words of an address in \<open>v6lookup\<close>: the first difference decides.\<close>

fun v6before :: "u32 list \<Rightarrow> u32 list \<Rightarrow> bool" where
  "v6before (x # xs) (y # ys) = (if x = y then v6before xs ys else x < y)"
| "v6before _ _ = False"

text \<open>The same descent, giving the location of the node found.\<close>

fun lookpath :: "('a::linorder) rtree \<Rightarrow> 'a \<Rightarrow> dir list option" where
  "lookpath RNil la = None"
| "lookpath (RNode l m r p d) la =
    (if la \<ge> address p then
       if la \<le> endaddress p then
         (case lookpath m la of None \<Rightarrow> Some [] | Some ds \<Rightarrow> Some (DMid # ds))
       else map_option (Cons DRight) (lookpath r la)
     else map_option (Cons DLeft) (lookpath l la))"

text \<open>The descent of \<open>v6lookup\<close>, which compares word by word.\<close>

fun lookpath6 :: "v6addr rtree \<Rightarrow> v6addr \<Rightarrow> dir list option" where
  "lookpath6 RNil la = None"
| "lookpath6 (RNode l m r p d) la =
    (if v6before (words6 la) (words6 (address p)) then map_option (Cons DLeft) (lookpath6 l la)
     else if v6before (words6 (endaddress p)) (words6 la) then map_option (Cons DRight) (lookpath6 r la)
     else (case lookpath6 m la of None \<Rightarrow> Some [] | Some ds \<Rightarrow> Some (DMid # ds)))"

section \<open>The tables\<close>

definition Lroot :: nat where "Lroot = 10"

definition V4H :: "u32 \<Rightarrow> nat" where
  "V4H a = unat (drop_bit (32 - Lroot - 5) (a AND 0x07ffffff))"

fun V6H :: "v6addr \<Rightarrow> nat" where
  "V6H (V6addr _ _ _ d) = unat (drop_bit (32 - Lroot - 5) (d AND 0x07ffffff))"

text \<open>
  A pointer to a node of a table: the root it hangs from and its range, which no other node
  under that root has. \<open>ifcids\<close> and \<open>ifcx\<close> are the fields \<open>ifcid\<close> and \<open>conv->x\<close> of the interfaces.
\<close>

datatype rptr = P4 nat u32 u32 | P6 nat v6addr v6addr

record rfs =
  v4root :: "nat \<Rightarrow> u32 rtree"
  v6root :: "nat \<Rightarrow> v6addr rtree"
  v4routegeneration :: u32
  v6routegeneration :: u32
  ifcids :: "nat \<Rightarrow> u8"
  ifcx :: "nat \<Rightarrow> int"

record rconv =
  cr :: "rptr option"
  rgen :: u32

datatype routecall =
    Ipifcaddroute4 u32 u32 "u8 list" u8 | Ipifcaddroute6 v6addr v6addr "u8 list" u8
  | Ipifcremroute4 u32 u32 | Ipifcremroute6 v6addr v6addr

definition allocroute :: "u8 \<Rightarrow> 'a \<Rightarrow> 'a \<Rightarrow> u8 list \<Rightarrow> string \<Rightarrow> 'a route" where
  "allocroute ty sa ea gt tg =
    \<lparr>address = sa, endaddress = ea, gate = gt, rtype = ty, ifcid = 0, ifc = None, tag = take 4 tg, ref = 1\<rparr>"

text \<open>\<open>for(h = lo; h <= hi; h++)\<close> over the roots, with a body that may not return.\<close>

fun forroots :: "nat list \<Rightarrow> ('t \<Rightarrow> 't option) \<Rightarrow> (nat \<Rightarrow> 't) \<Rightarrow> (nat \<Rightarrow> 't) option" where
  "forroots [] body roots = Some roots"
| "forroots (h # hs) body roots =
    (case body (roots h) of None \<Rightarrow> None | Some t \<Rightarrow> forroots hs body (roots(h := t)))"

definition v4addroute :: "rfs \<Rightarrow> string \<Rightarrow> u32 \<Rightarrow> u32 \<Rightarrow> u8 list \<Rightarrow> u8 \<Rightarrow> (rfs \<times> routecall) option" where
  "v4addroute f tg a m gt ty =
    (let sa = a AND m; ea = sa OR NOT m;
         p = allocroute (Rv4 OR ty) sa ea gt tg
     in map_option (\<lambda>roots.
          (f\<lparr>v4root := roots, v4routegeneration := v4routegeneration f + 1\<rparr>, Ipifcaddroute4 a m gt ty))
        (forroots [V4H sa..<V4H ea + 1] (\<lambda>t. addto t p) (v4root f)))"

fun and6 :: "v6addr \<Rightarrow> v6addr \<Rightarrow> v6addr" where
  "and6 (V6addr a b c d) (V6addr m n p q) = V6addr (a AND m) (b AND n) (c AND p) (d AND q)"

fun ornot6 :: "v6addr \<Rightarrow> v6addr \<Rightarrow> v6addr" where
  "ornot6 (V6addr a b c d) (V6addr m n p q) = V6addr (a OR NOT m) (b OR NOT n) (c OR NOT p) (d OR NOT q)"

definition v6addroute :: "rfs \<Rightarrow> string \<Rightarrow> v6addr \<Rightarrow> v6addr \<Rightarrow> u8 list \<Rightarrow> u8 \<Rightarrow> (rfs \<times> routecall) option" where
  "v6addroute f tg a m gt ty =
    (let sa = and6 a m; ea = ornot6 a m;
         p = allocroute ty sa ea gt tg
     in map_option (\<lambda>roots.
          (f\<lparr>v6root := roots, v6routegeneration := v6routegeneration f + 1\<rparr>, Ipifcaddroute6 a m gt ty))
        (forroots [V6H sa..<V6H ea + 1] (\<lambda>t. addto t p) (v6root f)))"

definition v4delroute :: "rfs \<Rightarrow> u32 \<Rightarrow> u32 \<Rightarrow> (rfs \<times> routecall) option" where
  "v4delroute f a m =
    (let sa = a AND m; ea = sa OR NOT m;
         rt = allocroute Rv4 sa ea [] []
     in map_option (\<lambda>roots.
          (f\<lparr>v4root := roots, v4routegeneration := v4routegeneration f + 1\<rparr>, Ipifcremroute4 a m))
        (forroots [V4H sa..<V4H ea + 1] (\<lambda>t. delfrom t rt) (v4root f)))"

definition v6delroute :: "rfs \<Rightarrow> v6addr \<Rightarrow> v6addr \<Rightarrow> (rfs \<times> routecall) option" where
  "v6delroute f a m =
    (let sa = and6 a m; ea = ornot6 a m;
         rt = allocroute 0 sa ea [] []
     in map_option (\<lambda>roots.
          (f\<lparr>v6root := roots, v6routegeneration := v6routegeneration f + 1\<rparr>, Ipifcremroute6 a m))
        (forroots [V6H sa..<V6H ea + 1] (\<lambda>t. delfrom t rt) (v6root f)))"

section \<open>Lookup with interface and conversation caches\<close>

text \<open>\<open>c->r->ifc\<close>; a pointer to a node that is gone reads as nil.\<close>

definition rptr_ifc :: "rfs \<Rightarrow> rptr \<Rightarrow> nat option" where
  "rptr_ifc f p =
    (case p of
       P4 h lo hi \<Rightarrow>
         (case looknode (v4root f h) (allocroute 0 lo hi [] []) of
            None \<Rightarrow> None | Some ds \<Rightarrow> ifc (node (rderef (v4root f h) ds)))
     | P6 h lo hi \<Rightarrow>
         (case looknode (v6root f h) (allocroute 0 lo hi [] []) of
            None \<Rightarrow> None | Some ds \<Rightarrow> ifc (node (rderef (v6root f h) ds))))"

definition cachehit :: "rfs \<Rightarrow> rconv option \<Rightarrow> u32 \<Rightarrow> rptr option" where
  "cachehit f c gen =
    (case c of
       None \<Rightarrow> None
     | Some cv \<Rightarrow>
         (case cr cv of
            None \<Rightarrow> None
          | Some p \<Rightarrow> if rptr_ifc f p \<noteq> None \<and> rgen cv = gen then Some p else None))"

text \<open>
  \<open>setifc findifc ids t ds\<close>: \<open>q->ifc\<close> and \<open>q->ifcid\<close> of the node at \<open>ds\<close> brought up to date;
  \<open>None\<close> is the return of nil when \<open>findipifc\<close> finds no interface. \<open>findifc\<close> is the call of
  \<open>findipifc\<close> for the node.
\<close>

definition setifc :: "('a route \<Rightarrow> nat option) \<Rightarrow> (nat \<Rightarrow> u8) \<Rightarrow> 'a rtree \<Rightarrow> dir list \<Rightarrow> 'a rtree option" where
  "setifc findifc ids t ds =
    (case rderef t ds of
       RNil \<Rightarrow> Some t
     | RNode l m r q d \<Rightarrow>
         if ifc q = None \<or> ifcid q \<noteq> ids (the (ifc q)) then
           (case findifc q of
              None \<Rightarrow> None
            | Some i \<Rightarrow> Some (rstore t ds (RNode l m r (q\<lparr>ifc := Some i, ifcid := ids i\<rparr>) d)))
         else Some t)"

text \<open>
  The address \<open>findipifc\<close> is asked for is the route's own on an interface route (\<open>Inl\<close>) and
  the gateway otherwise (\<open>Inr\<close>).
\<close>

definition gateof :: "'a route \<Rightarrow> 'a + u8 list" where
  "gateof q = (if flag_on (rtype q) Rifc then Inl (address q) else Inr (gate q))"

definition v4lookup :: "(u32 + u8 list \<Rightarrow> u8 \<Rightarrow> nat option) \<Rightarrow> rfs \<Rightarrow> u32 \<Rightarrow> rconv option
    \<Rightarrow> rptr option \<times> rfs \<times> rconv option" where
  "v4lookup findipifc f la c =
    (case cachehit f c (v4routegeneration f) of
       Some p \<Rightarrow> (Some p, f, c)
     | None \<Rightarrow>
         let h = V4H la in
         (case lookpath (v4root f h) la of
            None \<Rightarrow> (None, f, map_option (\<lambda>cv. cv\<lparr>cr := None, rgen := v4routegeneration f\<rparr>) c)
          | Some ds \<Rightarrow>
              (case setifc (\<lambda>q. findipifc (gateof q) (rtype q)) (ifcids f) (v4root f h) ds of
                 None \<Rightarrow> (None, f, c)
               | Some t \<Rightarrow>
                   let q = node (rderef t ds); p = P4 h (address q) (endaddress q)
                   in (Some p, f\<lparr>v4root := (v4root f)(h := t)\<rparr>,
                       map_option (\<lambda>cv. cv\<lparr>cr := Some p, rgen := v4routegeneration f\<rparr>) c))))"

definition v6lookup :: "(u32 + u8 list \<Rightarrow> u8 \<Rightarrow> nat option) \<Rightarrow> (v6addr + u8 list \<Rightarrow> u8 \<Rightarrow> nat option)
    \<Rightarrow> rfs \<Rightarrow> v6addr \<Rightarrow> rconv option \<Rightarrow> rptr option \<times> rfs \<times> rconv option" where
  "v6lookup findipifc4 findipifc f a c =
    (let (v4, f, c) =
       (case a of V6addr x y z d \<Rightarrow>
          if x = 0 \<and> y = 0 \<and> z = 0xffff then v4lookup findipifc4 f d c else (None, f, c)) in
     if v4 \<noteq> None then (v4, f, c)
     else
     case cachehit f c (v6routegeneration f) of
       Some p \<Rightarrow> (Some p, f, c)
     | None \<Rightarrow>
         let h = V6H a in
         (case lookpath6 (v6root f h) a of
            None \<Rightarrow> (None, f, map_option (\<lambda>cv. cv\<lparr>cr := None, rgen := v6routegeneration f\<rparr>) c)
          | Some ds \<Rightarrow>
              (case setifc (\<lambda>q. findipifc (gateof q) (rtype q)) (ifcids f) (v6root f h) ds of
                 None \<Rightarrow> (None, f, c)
               | Some t \<Rightarrow>
                   let q = node (rderef t ds); p = P6 h (address q) (endaddress q)
                   in (Some p, f\<lparr>v6root := (v6root f)(h := t)\<rparr>,
                       map_option (\<lambda>cv. cv\<lparr>cr := Some p, rgen := v6routegeneration f\<rparr>) c))))"

section \<open>Listing\<close>

definition pad4 :: "string \<Rightarrow> string" where
  "pad4 s = take 4 (s @ replicate 4 CHR '' '')"

definition routetype :: "u8 \<Rightarrow> string" where
  "routetype ty =
    pad4 ((if flag_on ty Rv4 then ''4'' else ''6'')
      @ (if flag_on ty Rifc then ''i'' else [])
      @ (if flag_on ty Runi then ''u'' else if flag_on ty Rbcast then ''b''
         else if flag_on ty Rmulti then ''m'' else [])
      @ (if flag_on ty Rptpt then ''p'' else []))"

text \<open>\<open>convroute\<close>: address, mask, gate, type string and interface number.\<close>

definition convroute4 :: "rfs \<Rightarrow> u32 route \<Rightarrow> u32 \<times> u32 \<times> u8 list \<times> string \<times> int" where
  "convroute4 f r =
    (address r, NOT (endaddress r XOR address r), gate r, routetype (rtype r),
     case ifc r of None \<Rightarrow> - 1 | Some i \<Rightarrow> ifcx f i)"

fun mask6 :: "v6addr \<Rightarrow> v6addr \<Rightarrow> v6addr" where
  "mask6 (V6addr e g h i) (V6addr a b c d) =
    V6addr (NOT (e XOR a)) (NOT (g XOR b)) (NOT (h XOR c)) (NOT (i XOR d))"

definition convroute6 :: "rfs \<Rightarrow> v6addr route \<Rightarrow> v6addr \<times> v6addr \<times> u8 list \<times> string \<times> int" where
  "convroute6 f r =
    (address r, mask6 (endaddress r) (address r), gate r, routetype (rtype r),
     case ifc r of None \<Rightarrow> - 1 | Some i \<Rightarrow> ifcx f i)"

text \<open>
  The walk over a tree: \<open>full\<close> is \<open>rw->e <= rw->p\<close>, \<open>walk\<close> the function of the walk, \<open>H\<close> the root
  index of an address.
\<close>

fun rr :: "('a \<Rightarrow> nat) \<Rightarrow> ('s \<Rightarrow> bool) \<Rightarrow> ('a route \<Rightarrow> 's \<Rightarrow> 's) \<Rightarrow> nat \<Rightarrow> 'a rtree \<Rightarrow> 's \<Rightarrow> 's \<times> bool" where
  "rr H full walk h RNil s = (if full s then (s, False) else (s, True))"
| "rr H full walk h (RNode l m r x d) s =
    (if full s then (s, False)
     else case rr H full walk h l s of
       (s, False) \<Rightarrow> (s, False)
     | (s, True) \<Rightarrow>
         (case rr H full walk h m (if H (address x) = h then walk x s else s) of
            (s, False) \<Rightarrow> (s, False)
          | (s, True) \<Rightarrow> rr H full walk h r s))"

fun walkroots :: "('a \<Rightarrow> nat) \<Rightarrow> ('s \<Rightarrow> bool) \<Rightarrow> ('a route \<Rightarrow> 's \<Rightarrow> 's) \<Rightarrow> (nat \<Rightarrow> 'a rtree) \<Rightarrow> nat list \<Rightarrow> 's \<Rightarrow> 's" where
  "walkroots H full walk roots [] s = s"
| "walkroots H full walk roots (h # hs) s =
    (case rr H full walk h (roots h) s of
       (s, False) \<Rightarrow> s
     | (s, True) \<Rightarrow> walkroots H full walk roots hs s)"

definition ipwalkroutes :: "rfs \<Rightarrow> ('s \<Rightarrow> bool) \<Rightarrow> (u32 route \<Rightarrow> 's \<Rightarrow> 's) \<Rightarrow> (v6addr route \<Rightarrow> 's \<Rightarrow> 's) \<Rightarrow> 's \<Rightarrow> 's" where
  "ipwalkroutes f full walk4 walk6 s =
    (let s = (if full s then s else walkroots V4H full walk4 (v4root f) [0..<2 ^ Lroot] s)
     in if full s then s else walkroots V6H full walk6 (v6root f) [0..<2 ^ Lroot] s)"

section \<open>Flushing and control messages\<close>

definition delroute4 :: "rfs \<Rightarrow> u32 route \<Rightarrow> (rfs \<times> routecall) option" where
  "delroute4 f r = (case convroute4 f r of (addr, mk, _) \<Rightarrow> v4delroute f addr mk)"

definition delroute6 :: "rfs \<Rightarrow> v6addr route \<Rightarrow> (rfs \<times> routecall) option" where
  "delroute6 f r = (case convroute6 f r of (addr, mk, _) \<Rightarrow> v6delroute f addr mk)"

text \<open>\<open>strncmp(tag, r->tag, sizeof(r->tag)) == 0\<close> for a string \<open>tag\<close> and four bytes \<open>r->tag\<close>.\<close>

definition tagmatch :: "string option \<Rightarrow> string \<Rightarrow> bool" where
  "tagmatch t rt = (case t of None \<Rightarrow> True
    | Some s \<Rightarrow> takeWhile (\<lambda>c. c \<noteq> CHR 0x00) (take 4 s) = takeWhile (\<lambda>c. c \<noteq> CHR 0x00) (take 4 rt))"

text \<open>
  \<open>routeflush\<close>: the first route, in the order mid, left, right, node, that is no interface
  route and matches the tag is deleted. \<open>del\<close> is \<open>delroute\<close> of the family.
\<close>

fun routeflush :: "('a route \<Rightarrow> 'f option) \<Rightarrow> 'f \<Rightarrow> 'a rtree \<Rightarrow> string option \<Rightarrow> ('f \<times> bool) option" where
  "routeflush del f RNil t = Some (f, False)"
| "routeflush del f (RNode l m r x d) t =
    (case routeflush del f m t of
       None \<Rightarrow> None
     | Some (f, True) \<Rightarrow> Some (f, True)
     | Some (f, False) \<Rightarrow>
    (case routeflush del f l t of
       None \<Rightarrow> None
     | Some (f, True) \<Rightarrow> Some (f, True)
     | Some (f, False) \<Rightarrow>
    (case routeflush del f r t of
       None \<Rightarrow> None
     | Some (f, True) \<Rightarrow> Some (f, True)
     | Some (f, False) \<Rightarrow>
         if \<not> flag_on (rtype x) Rifc \<and> tagmatch t (tag x)
         then map_option (\<lambda>f. (f, True)) (del x)
         else Some (f, False))))"

text \<open>\<open>for(changed = 1; changed;) changed = routeflush(f, f->v4root[h], tag);\<close>\<close>

partial_function (option) flushroot4 :: "rfs \<Rightarrow> nat \<Rightarrow> string option \<Rightarrow> rfs option" where
  "flushroot4 f h t =
    (case routeflush (\<lambda>r. map_option fst (delroute4 f r)) f (v4root f h) t of
       None \<Rightarrow> None
     | Some (f, changed) \<Rightarrow> if changed then flushroot4 f h t else Some f)"

partial_function (option) flushroot6 :: "rfs \<Rightarrow> nat \<Rightarrow> string option \<Rightarrow> rfs option" where
  "flushroot6 f h t =
    (case routeflush (\<lambda>r. map_option fst (delroute6 f r)) f (v6root f h) t of
       None \<Rightarrow> None
     | Some (f, changed) \<Rightarrow> if changed then flushroot6 f h t else Some f)"

fun forflush :: "(rfs \<Rightarrow> nat \<Rightarrow> string option \<Rightarrow> rfs option) \<Rightarrow> nat list \<Rightarrow> string option \<Rightarrow> rfs \<Rightarrow> rfs option" where
  "forflush flush [] t f = Some f"
| "forflush flush (h # hs) t f = (case flush f h t of None \<Rightarrow> None | Some f \<Rightarrow> forflush flush hs t f)"

definition newipaux_tag :: "string \<Rightarrow> string" where
  "newipaux_tag t = pad4 (take 4 t)"

text \<open>
  \<open>routewrite\<close> on the fields of its command. \<open>parseip\<close> and \<open>parseipmask\<close> are the library's,
  \<open>None\<close> being the answer -1: the words of an address, the last one alone where the address
  starts with \<open>v4prefix\<close>, and its sixteen bytes; and the words of a mask. \<open>ctag\<close> is the tag of the channel, \<open>None\<close> where there is no channel. The
  outer \<open>option\<close> is a flush that does not end.
\<close>

datatype ipaddr = Ip4 u32 | Ip6 v6addr

datatype rerror = Ebadarg | Ebadip | Ebadcmd | Efault fault

definition routewrite :: "(string \<Rightarrow> (ipaddr \<times> u8 list) option) \<Rightarrow> (string \<Rightarrow> u32 \<times> v6addr)
    \<Rightarrow> rfs \<Rightarrow> string option \<Rightarrow> string list \<Rightarrow> (rerror + (rfs \<times> string option)) option" where
  "routewrite parseip parseipmask f ctag cb =
    (case cb of
       [] \<Rightarrow> Some (Inl (Efault NilDeref))
     | cmd # args \<Rightarrow>
       if cmd = ''flush'' then
         let t = (case args of [] \<Rightarrow> None | a # _ \<Rightarrow> Some a) in
         (case forflush flushroot4 [0..<2 ^ Lroot] t f of
            None \<Rightarrow> None
          | Some f \<Rightarrow> map_option (\<lambda>f. Inr (f, ctag)) (forflush flushroot6 [0..<2 ^ Lroot] t f))
       else if cmd = ''remove'' then
         if length cb < 3 then Some (Inl Ebadarg)
         else (case parseip (cb ! 1) of
            None \<Rightarrow> Some (Inl Ebadip)
          | Some (Ip4 a, _) \<Rightarrow> map_option (\<lambda>(f, _). Inr (f, ctag)) (v4delroute f a (fst (parseipmask (cb ! 2))))
          | Some (Ip6 a, _) \<Rightarrow> map_option (\<lambda>(f, _). Inr (f, ctag)) (v6delroute f a (snd (parseipmask (cb ! 2)))))
       else if cmd = ''add'' then
         if length cb < 4 then Some (Inl Ebadarg)
         else (case (parseip (cb ! 1), parseip (cb ! 3)) of
            (Some (a, _), Some (_, g)) \<Rightarrow>
              let t = (case ctag of None \<Rightarrow> ''none'' | Some t \<Rightarrow> t) in
              (case a of
                 Ip4 a \<Rightarrow> map_option (\<lambda>(f, _). Inr (f, ctag))
                   (v4addroute f t a (fst (parseipmask (cb ! 2))) (drop 12 g) 0)
               | Ip6 a \<Rightarrow> map_option (\<lambda>(f, _). Inr (f, ctag))
                   (v6addroute f t a (snd (parseipmask (cb ! 2))) g 0))
          | _ \<Rightarrow> Some (Inl Ebadip))
       else if cmd = ''tag'' then
         if length cb < 2 then Some (Inl Ebadarg)
         else (case ctag of
            None \<Rightarrow> Some (Inl (Efault NilDeref))
          | Some _ \<Rightarrow> Some (Inr (f, Some (newipaux_tag (cb ! 1)))))
       else Some (Inl Ebadcmd))"

end
