(* ===== verification/Iproute_Tree.thy ===== *)
theory Iproute_Tree
  imports Iproute "HOL-Library.Multiset"
begin

text \<open>
  The range trees of the routing table: their invariant, what insertion and removal do to
  the set of routes, that the reinsertion loop ends, and that a lookup finds the most
  specific range. Everything here holds for both address families.
\<close>

section \<open>Ranges\<close>

definition separate :: "('a::linorder) route \<Rightarrow> 'a route \<Rightarrow> bool" where
  "separate x y \<longleftrightarrow> endaddress x < address y \<or> endaddress y < address x"

text \<open>\<open>x\<close> lies inside \<open>y\<close> and is not the same range.\<close>

definition inside :: "('a::linorder) route \<Rightarrow> 'a route \<Rightarrow> bool" where
  "inside x y \<longleftrightarrow> address y \<le> address x \<and> endaddress x \<le> endaddress y
    \<and> \<not> (address x = address y \<and> endaddress x = endaddress y)"

definition same :: "'a route \<Rightarrow> 'a route \<Rightarrow> bool" where
  "same x y \<longleftrightarrow> address x = address y \<and> endaddress x = endaddress y"

definition valid :: "('a::linorder) route \<Rightarrow> bool" where
  "valid x \<longleftrightarrow> address x \<le> endaddress x"

definition holds :: "('a::linorder) route \<Rightarrow> 'a \<Rightarrow> bool" where
  "holds x a \<longleftrightarrow> address x \<le> a \<and> a \<le> endaddress x"

lemmas range_defs = separate_def inside_def same_def valid_def holds_def

lemma separate_sym: "separate x y \<Longrightarrow> separate y x"
  by (auto simp: separate_def)

lemma inside_trans: "inside x y \<Longrightarrow> inside y z \<Longrightarrow> inside x z"
  by (auto simp: inside_def)

lemma inside_separate: "inside x y \<Longrightarrow> separate y z \<Longrightarrow> separate x z"
  by (auto simp: range_defs)

lemma inside_not_separate: "valid x \<Longrightarrow> inside x y \<Longrightarrow> \<not> separate x y"
  by (auto simp: range_defs)

lemma inside_asym: "inside x y \<Longrightarrow> \<not> inside y x"
  by (auto simp: inside_def)

lemma rangecompare_cases:
  assumes "valid x" and "valid y"
  shows "(rangecompare x y = Rpreceeds) = (endaddress x < address y)"
    and "(rangecompare x y = Rfollows) = (endaddress y < address x)"
    and "(rangecompare x y = Requals) = same x y"
    and "(rangecompare x y = Rcontains) = inside y x"
    and "(rangecompare x y = Rcontained) = (\<not> separate x y \<and> \<not> same x y \<and> \<not> inside y x)"
  using assms by (auto simp: rangecompare_def range_defs)

section \<open>The invariant\<close>

fun nodes :: "'a rtree \<Rightarrow> 'a route multiset" where
  "nodes RNil = {#}"
| "nodes (RNode l m r x d) = {#x#} + nodes l + nodes m + nodes r"

fun wft :: "('a::linorder) rtree \<Rightarrow> bool" where
  "wft RNil = True"
| "wft (RNode l m r x d) \<longleftrightarrow> wft l \<and> wft m \<and> wft r \<and> valid x
    \<and> (\<forall>y \<in># nodes l. endaddress y < address x) \<and> (\<forall>y \<in># nodes m. inside y x)
    \<and> (\<forall>y \<in># nodes r. endaddress x < address y)"

lemma wft_valid: "wft t \<Longrightarrow> y \<in># nodes t \<Longrightarrow> valid y"
  by (induction t) auto

lemma nodes_calcd [simp]: "nodes (calcd t) = nodes t"
  by (cases t) (simp_all add: calcd_def Let_def)

lemma wft_calcd [simp]: "wft (calcd t) = wft t"
  by (cases t) (simp_all add: calcd_def Let_def)

lemma nodes_balancetree [simp]: "nodes (balancetree t) = nodes t"
  by (auto simp: balancetree_def ac_simps split: rtree.splits)

text \<open>A rotation keeps the order of the ranges.\<close>

lemma wft_balancetree [simp]:
  assumes "wft t"
  shows "wft (balancetree t)"
proof (cases t)
  case RNil
  then show ?thesis by (simp add: balancetree_def)
next
  case (RNode l m r x d)
  have L: "wft (RNode ll lm (calcd (RNode lr m r x d)) lx ld)" if "l = RNode ll lm lr lx ld" for ll lm lr lx ld
  proof -
    have "valid x" "valid lx" "endaddress lx < address x" using assms RNode that by auto
    then have "endaddress lx < address y" if "y \<in># nodes m \<or> y \<in># nodes r" for y
      using assms RNode that by (auto simp: inside_def valid_def intro: order_less_le_trans less_trans)
    then show ?thesis using assms RNode that by auto
  qed
  have R: "wft (RNode (calcd (RNode l m rl x d)) rm rr rx rd)" if "r = RNode rl rm rr rx rd" for rl rm rr rx rd
  proof -
    have "valid x" "valid rx" "endaddress x < address rx" using assms RNode that by auto
    then have "endaddress y < address rx" if "y \<in># nodes m \<or> y \<in># nodes l" for y
      using assms RNode that by (auto simp: inside_def valid_def intro: order_le_less_trans less_trans)
    then show ?thesis using assms RNode that by auto
  qed
  show ?thesis using assms L R RNode by (auto simp: balancetree_def split: rtree.splits)
qed

section \<open>Insertion\<close>

text \<open>
  \<open>apart x M\<close>: \<open>x\<close> is inside or apart from every range of \<open>M\<close>, and equal to none.
  \<open>laminar x M\<close>: \<open>x\<close> is nested with, apart from or equal to every range of \<open>M\<close>.
\<close>

definition apart :: "('a::linorder) route \<Rightarrow> 'a route multiset \<Rightarrow> bool" where
  "apart x M \<longleftrightarrow> (\<forall>y \<in># M. separate x y \<or> inside x y)"

definition laminar :: "('a::linorder) route \<Rightarrow> 'a route multiset \<Rightarrow> bool" where
  "laminar x M \<longleftrightarrow> (\<forall>y \<in># M. separate x y \<or> inside x y \<or> inside y x \<or> same x y)"

definition apart_all :: "('a::linorder) route multiset \<Rightarrow> 'a route multiset \<Rightarrow> bool" where
  "apart_all N M \<longleftrightarrow> (\<forall>x \<in># N. apart x M)"

lemma apart_simps [simp]:
  "apart x {#}" "apart x (add_mset y M) \<longleftrightarrow> (separate x y \<or> inside x y) \<and> apart x M"
  "apart x (M + N) \<longleftrightarrow> apart x M \<and> apart x N"
  by (auto simp: apart_def)

lemma laminar_simps [simp]:
  "laminar x {#}"
  "laminar x (add_mset y M) \<longleftrightarrow> (separate x y \<or> inside x y \<or> inside y x \<or> same x y) \<and> laminar x M"
  "laminar x (M + N) \<longleftrightarrow> laminar x M \<and> laminar x N"
  by (auto simp: laminar_def)

lemma apart_all_simps [simp]:
  "apart_all {#} M" "apart_all N {#}" "apart_all (add_mset x N) M \<longleftrightarrow> apart x M \<and> apart_all N M"
  "apart_all (N + N') M \<longleftrightarrow> apart_all N M \<and> apart_all N' M"
  "apart_all N (M + M') \<longleftrightarrow> apart_all N M \<and> apart_all N M'"
  by (auto simp: apart_all_def)

lemma apart_all_add_mset: "apart_all N (add_mset y M) \<longleftrightarrow> (\<forall>x \<in># N. separate x y \<or> inside x y) \<and> apart_all N M"
  by (auto simp: apart_all_def)

text \<open>Everything on one side of \<open>x\<close> is apart from everything inside it or on the other side.\<close>

lemma apart_left: "\<forall>y \<in># N. endaddress y < address x \<Longrightarrow> \<forall>z \<in># M. inside z x \<Longrightarrow> apart_all N M \<and> apart_all M N"
  unfolding apart_all_def apart_def by (meson inside_separate separate_def)

lemma apart_right: "\<forall>y \<in># N. endaddress x < address y \<Longrightarrow> \<forall>z \<in># M. inside z x \<Longrightarrow> apart_all N M \<and> apart_all M N"
  unfolding apart_all_def apart_def by (meson inside_separate separate_def)

lemma apart_across:
  assumes "valid x" and "\<forall>y \<in># N. endaddress x < address y" and "\<forall>z \<in># M. endaddress z < address x"
  shows "apart_all N M \<and> apart_all M N"
proof -
  have "endaddress z < address y" if "y \<in># N" "z \<in># M" for y z
  proof -
    have "endaddress z < address x" using assms that by simp
    also have "\<dots> \<le> endaddress x" using assms(1) by (simp add: valid_def)
    finally show ?thesis using assms that by (meson less_trans)
  qed
  then show ?thesis by (simp add: apart_all_def apart_def separate_def)
qed

text \<open>A node that covers no range of the tree displaces nothing.\<close>

lemma addnode_apart:
  assumes "wft t" and "valid x" and "wft xm" and "\<forall>y \<in># nodes xm. inside y x" and "apart x (nodes t)"
  shows "\<exists>t'. addnode t x xm = (t', None) \<and> wft t' \<and> nodes t' = {#x#} + nodes xm + nodes t"
  using assms
proof (induction t)
  case RNil
  then show ?case by simp
next
  case (RNode l m r p d)
  have val: "valid x" "valid p" using RNode.prems by auto
  have ord: "endaddress y \<le> endaddress x" "address x \<le> address y" if "y \<in># nodes xm" for y
    using RNode.prems(4) that by (auto simp: inside_def)
  note rc = rangecompare_cases[OF val]
  consider "endaddress x < address p" | "endaddress p < address x" | "inside x p"
    using RNode.prems(5) by (auto simp: separate_def)
  then show ?case
  proof cases
    case 1
    then have "rangecompare x p = Rpreceeds" using rc by simp
    moreover obtain l' where "addnode l x xm = (l', None)" "wft l'" "nodes l' = {#x#} + nodes xm + nodes l"
      using RNode by auto
    ultimately show ?thesis using RNode.prems 1 ord by (force intro!: wft_balancetree)
  next
    case 2
    then have "rangecompare x p = Rfollows" using rc by simp
    moreover obtain r' where "addnode r x xm = (r', None)" "wft r'" "nodes r' = {#x#} + nodes xm + nodes r"
      using RNode by auto
    ultimately show ?thesis using RNode.prems 2 ord by (force intro!: wft_balancetree)
  next
    case 3
    then have "rangecompare x p = Rcontained"
      using rc inside_not_separate[OF val(1) 3] inside_asym[OF 3] by (auto simp: same_def inside_def)
    moreover obtain m' where "addnode m x xm = (m', None)" "wft m'" "nodes m' = {#x#} + nodes xm + nodes m"
      using RNode by auto
    ultimately show ?thesis using RNode.prems 3 inside_trans[OF _ 3] by (force intro!: wft_balancetree)
  qed
qed

lemma walkadd_apart:
  assumes "wft t" and "wft p" and "apart_all (nodes p) (nodes t)"
  shows "\<exists>t'. walkadd t q p = (t', q) \<and> wft t' \<and> nodes t' = nodes t + nodes p"
  using assms
proof (induction p arbitrary: t)
  case RNil
  then show ?case by simp
next
  case (RNode l m r x d)
  have w: "wft l" "wft m" "wft r" "valid x" "\<forall>y \<in># nodes l. endaddress y < address x"
    "\<forall>z \<in># nodes m. inside z x" "\<forall>y \<in># nodes r. endaddress x < address y"
    using RNode.prems(2) by auto
  obtain t1 where t1: "addnode t x m = (t1, None)" "wft t1" "nodes t1 = {#x#} + nodes m + nodes t"
    using addnode_apart[of t x m] RNode.prems w by auto
  have "apart_all (nodes l) (nodes t1)"
    using RNode.prems(3) apart_left[OF w(5,6)] w(5) by (simp add: t1(3) apart_all_add_mset separate_def)
  then obtain t2 where t2: "walkadd t1 q l = (t2, q)" "wft t2" "nodes t2 = nodes t1 + nodes l"
    using RNode.IH(1)[OF t1(2) w(1)] by auto
  have "apart_all (nodes r) (nodes t2)"
    using RNode.prems(3) apart_right[OF w(7,6)] apart_across[OF w(4,7,5)] w(7)
    by (simp add: t1(3) t2(3) apart_all_add_mset separate_def)
  then obtain t3 where t3: "walkadd t2 q r = (t3, q)" "wft t3" "nodes t3 = nodes t2 + nodes r"
    using RNode.IH(3)[OF t2(2) w(3)] by auto
  have "nodes t3 = nodes t + nodes (RNode l m r x d)" by (simp add: t1(3) t2(3) t3(3))
  then show ?case using t1(1) t2(1) t3(1,2) by simp
qed

text \<open>The reinsertion loop, on trees whose ranges cover nothing of the tree or of each other.\<close>

lemma requeue_apart:
  assumes "wft t" and "list_all wft q" and "\<forall>p \<in> set q. apart_all (nodes p) (nodes t)"
    and "sorted_wrt (\<lambda>p p'. apart_all (nodes p') (nodes p)) q"
  shows "\<exists>t'. requeue t q = Some t' \<and> wft t' \<and> nodes t' = nodes t + sum_list (map nodes q)"
  using assms
proof (induction q arbitrary: t)
  case Nil
  then show ?case by (subst requeue.simps) simp
next
  case (Cons p q)
  obtain t1 where t1: "walkadd t q p = (t1, q)" "wft t1" "nodes t1 = nodes t + nodes p"
    using walkadd_apart[of t p q] Cons.prems by auto
  have "\<forall>p' \<in> set q. apart_all (nodes p') (nodes t1)" using Cons.prems(3,4) t1(3) by simp
  then obtain t' where t': "requeue t1 q = Some t'" "wft t'" "nodes t' = nodes t1 + sum_list (map nodes q)"
    using Cons.IH[of t1] t1(2) Cons.prems by auto
  have "nodes t' = nodes t + sum_list (map nodes (p # q))" by (simp add: t'(3) t1(3) add.assoc)
  then show ?case using t1(1) t'(1,2) by (subst requeue.simps) simp
qed

text \<open>A new range displaces at most one tree, which then can be reinserted.\<close>

definition displaced_ok :: "('a::linorder) route \<Rightarrow> 'a rtree \<Rightarrow> 'a rtree \<Rightarrow> 'a rtree option \<Rightarrow> bool" where
  "displaced_ok x t t' q = (case q of
      None \<Rightarrow> nodes t' = add_mset x (nodes t)
    | Some p \<Rightarrow> p \<noteq> RNil \<and> wft p \<and> nodes t' + nodes p = add_mset x (nodes t) \<and> apart_all (nodes p) (nodes t')
        \<and> set_mset (nodes p) \<subseteq> set_mset (nodes t))"

lemma displaced_sub:
  assumes "displaced_ok x s s' q" and "nodes t = R + nodes s" and "nodes t' = R + nodes s'"
    and "apart_all (nodes s) R"
  shows "displaced_ok x t t' q"
proof (cases q)
  case None
  then show ?thesis using assms by (simp add: displaced_ok_def)
next
  case (Some p)
  then have p: "nodes s' + nodes p = add_mset x (nodes s)" "wft p" "p \<noteq> RNil" "apart_all (nodes p) (nodes s')"
    "set_mset (nodes p) \<subseteq> set_mset (nodes s)"
    using assms(1) by (simp_all add: displaced_ok_def)
  have "apart_all (nodes p) R" using assms(4) p(5) by (auto simp: apart_all_def)
  moreover have "nodes t' + nodes p = add_mset x (nodes t)" using p(1) by (simp add: assms(2,3) add.assoc)
  moreover have "set_mset (nodes p) \<subseteq> set_mset (nodes t)" using p(5) by (auto simp: assms(2))
  ultimately show ?thesis using Some p by (simp add: displaced_ok_def assms(3))
qed

lemma addnode_new:
  assumes "wft t" and "valid x" and "laminar x (nodes t)" and "\<forall>y \<in># nodes t. \<not> same x y"
  shows "\<exists>t' q. addnode t x RNil = (t', q) \<and> wft t' \<and> displaced_ok x t t' q \<and>
    set_mset (nodes t') \<subseteq> insert x (set_mset (nodes t))"
  using assms
proof (induction t)
  case RNil
  then show ?case by (simp add: displaced_ok_def)
next
  case (RNode l m r p d)
  have w: "wft l" "wft m" "wft r" "valid p" "\<forall>y \<in># nodes l. endaddress y < address p"
    "\<forall>z \<in># nodes m. inside z p" "\<forall>y \<in># nodes r. endaddress p < address y"
    using RNode.prems(1) by auto
  note rc = rangecompare_cases[OF RNode.prems(2) w(4)]
  note ap = apart_left[OF w(5,6)] apart_right[OF w(7,6)] apart_across[OF w(4,7,5)]
  consider "endaddress x < address p" | "endaddress p < address x" | "inside x p" | "inside p x"
    using RNode.prems by (auto simp: separate_def)
  then show ?case
  proof cases
    case 1
    then have rcx: "rangecompare x p = Rpreceeds" using rc by simp
    obtain l' q where l': "addnode l x RNil = (l', q)" "wft l'" "displaced_ok x l l' q"
      "set_mset (nodes l') \<subseteq> insert x (set_mset (nodes l))"
      using RNode w by auto
    have "displaced_ok x (RNode l m r p d) (balancetree (RNode l' m r p d)) q"
      using w(5) ap by (intro displaced_sub[OF l'(3), where R = "add_mset p (nodes m + nodes r)"])
        (auto simp: apart_all_add_mset separate_def)
    moreover have "wft (balancetree (RNode l' m r p d))" using w l'(2,4) 1 by (intro wft_balancetree) auto
    ultimately show ?thesis using rcx l'(1,4) by auto
  next
    case 2
    then have rcx: "rangecompare x p = Rfollows" using rc by simp
    obtain r' q where r': "addnode r x RNil = (r', q)" "wft r'" "displaced_ok x r r' q"
      "set_mset (nodes r') \<subseteq> insert x (set_mset (nodes r))"
      using RNode w by auto
    have "displaced_ok x (RNode l m r p d) (balancetree (RNode l m r' p d)) q"
      using w(7) ap by (intro displaced_sub[OF r'(3), where R = "add_mset p (nodes l + nodes m)"])
        (auto simp: apart_all_add_mset separate_def)
    moreover have "wft (balancetree (RNode l m r' p d))" using w r'(2,4) 2 by (intro wft_balancetree) auto
    ultimately show ?thesis using rcx r'(1,4) by auto
  next
    case 3
    then have rcx: "rangecompare x p = Rcontained"
      using rc inside_not_separate[OF RNode.prems(2) 3] inside_asym[OF 3] by (auto simp: same_def inside_def)
    obtain m' q where m': "addnode m x RNil = (m', q)" "wft m'" "displaced_ok x m m' q"
      "set_mset (nodes m') \<subseteq> insert x (set_mset (nodes m))"
      using RNode w by auto
    have "displaced_ok x (RNode l m r p d) (balancetree (RNode l m' r p d)) q"
      using w(6) ap by (intro displaced_sub[OF m'(3), where R = "add_mset p (nodes l + nodes r)"])
        (auto simp: apart_all_add_mset)
    moreover have "wft (balancetree (RNode l m' r p d))" using w m'(2,4) 3 by (intro wft_balancetree) auto
    ultimately show ?thesis using rcx m'(1,4) by auto
  next
    case 4
    then have rcx: "rangecompare x p = Rcontains" using rc by simp
    have "separate y x \<or> inside y x" if y: "y \<in># nodes (RNode l m r p d)" for y
    proof -
      have "\<not> inside x y"
      proof
        assume "inside x y"
        then have "inside p y" using inside_trans[OF 4] by simp
        then have "\<not> separate p y" "\<not> inside y p" "y \<noteq> p"
          using inside_not_separate[OF w(4)] inside_asym by (auto simp: inside_def)
        then show False using w(5-7) y by (auto simp: separate_def)
      qed
      then show ?thesis using RNode.prems(3,4) y by (auto simp: laminar_def simp del: nodes.simps dest: separate_sym)
    qed
    then have "apart_all (nodes (RNode l m r p d)) {#x#}" by (simp add: apart_all_def del: nodes.simps)
    then show ?thesis using rcx RNode.prems(1,2) by (auto simp: displaced_ok_def)
  qed
qed

theorem addto_new:
  assumes "wft t" and "valid x" and "laminar x (nodes t)" and "\<forall>y \<in># nodes t. \<not> same x y"
  shows "\<exists>t'. addto t x = Some t' \<and> wft t' \<and> nodes t' = add_mset x (nodes t)"
proof -
  obtain t1 q where a: "addnode t x RNil = (t1, q)" "wft t1" "displaced_ok x t t1 q"
    using addnode_new[OF assms] by auto
  show ?thesis
  proof (cases q)
    case None
    then show ?thesis using a requeue_apart[of t1 "[]"] by (auto simp: addto_def displaced_ok_def)
  next
    case (Some p)
    then have p: "p \<noteq> RNil" "wft p" "nodes t1 + nodes p = add_mset x (nodes t)" "apart_all (nodes p) (nodes t1)"
      using a(3) by (simp_all add: displaced_ok_def)
    then obtain t' where "requeue t1 [p] = Some t'" "wft t'" "nodes t' = nodes t1 + nodes p"
      using requeue_apart[of t1 "[p]"] a(2) by auto
    then show ?thesis using a(1) Some p by (simp add: addto_def addqueue_def)
  qed
qed

text \<open>A range that is there already is merged in place.\<close>

definition merge :: "('a::linorder) route \<Rightarrow> 'a route \<Rightarrow> 'a route" where
  "merge x y = (if same x y then supersede y x else y)"

lemma supersede_range [simp]:
  "address (supersede p x) = address p" "endaddress (supersede p x) = endaddress p"
  by (simp_all add: supersede_def copygate_def)

lemma range_merge [simp]:
  "address (merge x y) = address y" "endaddress (merge x y) = endaddress y" "valid (merge x y) = valid y"
  "inside (merge x y) z = inside y z" "inside z (merge x y) = inside z y"
  by (simp_all add: merge_def range_defs)

lemma image_merge_id: "\<forall>y \<in># M. \<not> same x y \<Longrightarrow> image_mset (merge x) M = M"
  by (induction M) (auto simp: merge_def)

lemma same_side:
  assumes "valid x" and "same x y"
  shows "endaddress y < address p \<longleftrightarrow> endaddress x < address p" "endaddress p < address y \<longleftrightarrow> endaddress p < address x"
    "inside y p \<longleftrightarrow> inside x p" "valid y"
  using assms by (auto simp: range_defs)

text \<open>Where a range equal to \<open>x\<close> can be, by where \<open>x\<close> lies relative to the root.\<close>

lemma no_same_elsewhere:
  assumes "wft (RNode l m r p d)" and "valid x"
  shows "endaddress x < address p \<Longrightarrow> \<forall>y \<in># add_mset p (nodes m + nodes r). \<not> same x y"
    and "endaddress p < address x \<Longrightarrow> \<forall>y \<in># add_mset p (nodes l + nodes m). \<not> same x y"
    and "inside x p \<Longrightarrow> \<forall>y \<in># add_mset p (nodes l + nodes r). \<not> same x y"
    and "same x p \<Longrightarrow> \<forall>y \<in># nodes l + nodes m + nodes r. \<not> same x y"
  using assms by (auto simp: range_defs)

lemma addnode_same:
  assumes "wft t" and "valid x" and "y \<in># nodes t" and "same x y"
  shows "\<exists>t'. addnode t x xm = (t', None) \<and> wft t' \<and> nodes t' = image_mset (merge x) (nodes t)"
  using assms
proof (induction t)
  case RNil
  then show ?case by simp
next
  case (RNode l m r p d)
  have w: "wft l" "wft m" "wft r" "valid p" using RNode.prems(1) by auto
  note rc = rangecompare_cases[OF RNode.prems(2) w(4)] and ns = no_same_elsewhere[OF RNode.prems(1,2)]
  consider "y \<in># nodes l" "endaddress x < address p" | "y \<in># nodes r" "endaddress p < address x"
    | "y \<in># nodes m" "inside x p" | "same x p"
    using RNode.prems(1,3) same_side[OF RNode.prems(2,4)] RNode.prems(4) by auto
  then show ?case
  proof cases
    case 1
    then obtain l' where l': "addnode l x xm = (l', None)" "wft l'" "nodes l' = image_mset (merge x) (nodes l)"
      using RNode w by auto
    moreover have "rangecompare x p = Rpreceeds" using rc 1 by simp
    moreover have "wft (RNode l' m r p d)" using RNode.prems(1) l'(2,3) by auto
    ultimately show ?thesis using image_merge_id[OF ns(1)[OF 1(2)]] by simp
  next
    case 2
    then obtain r' where r': "addnode r x xm = (r', None)" "wft r'" "nodes r' = image_mset (merge x) (nodes r)"
      using RNode w by auto
    moreover have "rangecompare x p = Rfollows" using rc 2 by simp
    moreover have "wft (RNode l m r' p d)" using RNode.prems(1) r'(2,3) by auto
    ultimately show ?thesis using image_merge_id[OF ns(2)[OF 2(2)]] by simp
  next
    case 3
    then obtain m' where m': "addnode m x xm = (m', None)" "wft m'" "nodes m' = image_mset (merge x) (nodes m)"
      using RNode w by auto
    moreover have "rangecompare x p = Rcontained"
      using rc inside_not_separate[OF RNode.prems(2) 3(2)] inside_asym[OF 3(2)] 3(2) by (auto simp: same_def inside_def)
    moreover have "wft (RNode l m' r p d)" using RNode.prems(1) m'(2,3) by auto
    ultimately show ?thesis using image_merge_id[OF ns(3)[OF 3(2)]] by simp
  next
    case 4
    then have "rangecompare x p = Requals" "merge x p = supersede p x" using rc by (simp_all add: merge_def)
    moreover have "wft (RNode l m r (supersede p x) d)" using RNode.prems(1) by (simp add: valid_def inside_def)
    ultimately show ?thesis using image_merge_id[OF ns(4)[OF 4]] by simp
  qed
qed

theorem addto_same:
  assumes "wft t" and "valid x" and "y \<in># nodes t" and "same x y"
  shows "\<exists>t'. addto t x = Some t' \<and> wft t' \<and> nodes t' = image_mset (merge x) (nodes t)"
  using addnode_same[OF assms, of RNil] by (auto simp: addto_def requeue.simps)

section \<open>Lookup\<close>

lemma lookfrom_acc: "lookfrom t la q = (case lookfrom t la None of None \<Rightarrow> q | Some x \<Rightarrow> Some x)"
proof (induction t arbitrary: q)
  case (RNode l m r p d)
  show ?case
  proof (cases "address p \<le> la \<and> la \<le> endaddress p")
    case True
    then show ?thesis using RNode.IH(2)[of "Some p"] by (auto split: option.splits)
  next
    case False
    then show ?thesis using RNode.IH(1)[of q] RNode.IH(3)[of q] by auto
  qed
qed simp

text \<open>The most specific of the ranges in \<open>M\<close> that hold \<open>a\<close>.\<close>

definition best :: "('a::linorder) route multiset \<Rightarrow> 'a \<Rightarrow> 'a route option \<Rightarrow> bool" where
  "best M a q = (case q of
      None \<Rightarrow> (\<forall>y \<in># M. \<not> holds y a)
    | Some x \<Rightarrow> x \<in># M \<and> holds x a \<and> (\<forall>y \<in># M. holds y a \<longrightarrow> y = x \<or> inside x y))"

lemma best_extend: "best N a q \<Longrightarrow> \<forall>y \<in># M. \<not> holds y a \<Longrightarrow> best (M + N) a q"
  by (auto simp: best_def split: option.splits)

theorem lookfrom_best:
  assumes "wft t"
  shows "best (nodes t) la (lookfrom t la None)"
  using assms
proof (induction t)
  case RNil
  then show ?case by (simp add: best_def)
next
  case (RNode l m r p d)
  have w: "wft l" "wft m" "wft r" "valid p" "\<forall>y \<in># nodes l. endaddress y < address p"
    "\<forall>z \<in># nodes m. inside z p" "\<forall>y \<in># nodes r. endaddress p < address y"
    using RNode.prems(1) by auto
  consider "la < address p" | "endaddress p < la" | "holds p la" by (fastforce simp: holds_def)
  then show ?case
  proof cases
    case 1
    have "\<not> holds y la" if "y \<in># add_mset p (nodes m + nodes r)" for y
      using that w(4,6,7) 1 by (auto simp: range_defs)
    then show ?thesis using RNode.IH(1)[OF w(1)] best_extend[of "nodes l" la _ "add_mset p (nodes m + nodes r)"] 1
      by (simp add: ac_simps)
  next
    case 2
    then have "\<not> la < address p" using w(4) by (auto simp: valid_def)
    moreover have "\<not> holds y la" if "y \<in># add_mset p (nodes l + nodes m)" for y
      using that w(4,5,6) 2 by (auto simp: range_defs)
    ultimately show ?thesis using RNode.IH(3)[OF w(3)] best_extend[of "nodes r" la _ "add_mset p (nodes l + nodes m)"] 2
      by (simp add: ac_simps)
  next
    case 3
    have "best (add_mset p (nodes m)) la (lookfrom m la (Some p))"
    proof (cases "lookfrom m la None")
      case None
      then show ?thesis using RNode.IH(2)[OF w(2)] 3 lookfrom_acc[of m la "Some p"] by (simp add: best_def)
    next
      case (Some z)
      then show ?thesis using RNode.IH(2)[OF w(2)] w(6) lookfrom_acc[of m la "Some p"] by (simp add: best_def)
    qed
    moreover have "\<not> holds y la" if "y \<in># nodes l + nodes r" for y
      using that w(5,7) 3 by (auto simp: range_defs)
    ultimately show ?thesis using 3 best_extend[of "add_mset p (nodes m)" la _ "nodes l + nodes r"]
      by (simp add: holds_def ac_simps)
  qed
qed

lemma v6before_lcmp: "v6before xs ys \<longleftrightarrow> lcmp_from xs ys < 0"
  by (induction xs ys rule: v6before.induct) auto

lemma v6before_less: "v6before (words6 a) (words6 b) \<longleftrightarrow> a < b"
  by (simp add: less_v6addr_def lcmp_def v6before_lcmp)

lemma lookpath6_eq: "lookpath6 t la = lookpath t la"
  by (induction t) (auto simp: v6before_less not_less split: option.splits)

lemma lookpath_lookfrom: "lookfrom t la None = map_option (\<lambda>ds. node (rderef t ds)) (lookpath t la)"
proof (induction t)
  case (RNode l m r p d)
  then show ?case using lookfrom_acc[of m la "Some p"]
    by (auto simp: option.map_comp comp_def split: option.splits)
qed simp

section \<open>Removal\<close>

text \<open>A store that brings no new range keeps the tree well formed.\<close>

lemma wft_rstore:
  assumes "wft t" and "wft s" and "\<forall>z \<in># nodes s. \<exists>z' \<in># nodes (rderef t ds). same z z'"
  shows "wft (rstore t ds s) \<and> (\<forall>z \<in># nodes (rstore t ds s). \<exists>z' \<in># nodes t. same z z')"
  using assms
proof (induction t ds arbitrary: s rule: rderef.induct)
  case (2 l m r p d ds)
  then have IH: "wft (rstore l ds s)" "\<forall>z \<in># nodes (rstore l ds s). \<exists>z' \<in># nodes l. same z z'" by auto
  then show ?case using 2(2) by (fastforce simp: same_def)
next
  case (3 l m r p d ds)
  then have IH: "wft (rstore m ds s)" "\<forall>z \<in># nodes (rstore m ds s). \<exists>z' \<in># nodes m. same z z'" by auto
  moreover have "inside z p" if "z \<in># nodes (rstore m ds s)" for z
    using that IH(2) 3(2) by (force simp: same_def inside_def)
  ultimately show ?case using 3(2) by (auto simp: same_def)
next
  case (4 l m r p d ds)
  then have IH: "wft (rstore r ds s)" "\<forall>z \<in># nodes (rstore r ds s). \<exists>z' \<in># nodes r. same z z'" by auto
  then show ?case using 4(2) by (fastforce simp: same_def)
qed (auto simp: same_def)

lemma rstore_nodes: "rderef t ds \<noteq> RNil \<Longrightarrow> nodes (rstore t ds s) + nodes (rderef t ds) = nodes t + nodes s"
  by (induction t ds arbitrary: s rule: rderef.induct) (auto simp: add.assoc)

lemma wft_rderef: "wft t \<Longrightarrow> wft (rderef t ds)"
  by (induction t ds rule: rderef.induct) auto

lemma rderef_subset: "set_mset (nodes (rderef t ds)) \<subseteq> set_mset (nodes t)"
  by (induction t ds rule: rderef.induct) auto

lemma apart_all_mono: "apart_all N M \<Longrightarrow> set_mset N' \<subseteq> set_mset N \<Longrightarrow> apart_all N' M"
  by (auto simp: apart_all_def)

text \<open>The rest of the tree covers nothing of a subtree.\<close>

lemma rderef_apart: "wft t \<Longrightarrow> apart_all (nodes (rderef t ds)) (nodes (rstore t ds RNil))"
proof (induction t ds rule: rderef.induct)
  case (2 l m r p d ds)
  then have w: "valid p" "\<forall>y \<in># nodes l. endaddress y < address p" "\<forall>z \<in># nodes m. inside z p"
    "\<forall>y \<in># nodes r. endaddress p < address y" by auto
  have "apart_all (nodes l) (add_mset p (nodes m + nodes r))"
    using apart_left[OF w(2,3)] apart_across[OF w(1,4,2)] w(2) by (simp add: apart_all_add_mset separate_def)
  then show ?case using 2 apart_all_mono[OF _ rderef_subset, of l "add_mset p (nodes m + nodes r)" ds]
    by (simp add: apart_all_add_mset)
next
  case (3 l m r p d ds)
  then have w: "valid p" "\<forall>y \<in># nodes l. endaddress y < address p" "\<forall>z \<in># nodes m. inside z p"
    "\<forall>y \<in># nodes r. endaddress p < address y" by auto
  have "apart_all (nodes m) (add_mset p (nodes l + nodes r))"
    using apart_left[OF w(2,3)] apart_right[OF w(4,3)] w(3) by (simp add: apart_all_add_mset)
  then show ?case using 3 apart_all_mono[OF _ rderef_subset, of m "add_mset p (nodes l + nodes r)" ds]
    by (simp add: apart_all_add_mset)
next
  case (4 l m r p d ds)
  then have w: "valid p" "\<forall>y \<in># nodes l. endaddress y < address p" "\<forall>z \<in># nodes m. inside z p"
    "\<forall>y \<in># nodes r. endaddress p < address y" by auto
  have "apart_all (nodes r) (add_mset p (nodes l + nodes m))"
    using apart_right[OF w(4,3)] apart_across[OF w(1,4,2)] w(4) by (simp add: apart_all_add_mset separate_def)
  then show ?case using 4 apart_all_mono[OF _ rderef_subset, of r "add_mset p (nodes l + nodes m)" ds]
    by (simp add: apart_all_add_mset)
qed simp_all

text \<open>\<open>looknode\<close> finds the node with a given range, if there is one.\<close>

lemma looknode_found:
  assumes "wft t" and "valid x" and "y \<in># nodes t" and "same x y"
  shows "\<exists>ds l m r d. looknode t x = Some ds \<and> rderef t ds = RNode l m r y d"
  using assms
proof (induction t)
  case RNil
  then show ?case by simp
next
  case (RNode l m r p d)
  have w: "wft l" "wft m" "wft r" "valid p" using RNode.prems(1) by auto
  note rc = rangecompare_cases[OF RNode.prems(2) w(4)] and ns = no_same_elsewhere[OF RNode.prems(1,2)]
  consider "y \<in># nodes l" "endaddress x < address p" | "y \<in># nodes r" "endaddress p < address x"
    | "y \<in># nodes m" "inside x p" | "y = p"
    using RNode.prems(1,3) same_side[OF RNode.prems(2,4)] by auto
  then show ?case
  proof cases
    case 1
    then obtain ds l' m' r' d' where "looknode l x = Some ds" "rderef l ds = RNode l' m' r' y d'"
      using RNode w by blast
    then show ?thesis using rc 1 by (auto intro!: exI[of _ "DLeft # ds"])
  next
    case 2
    then obtain ds l' m' r' d' where "looknode r x = Some ds" "rderef r ds = RNode l' m' r' y d'"
      using RNode w by blast
    then show ?thesis using rc 2 by (auto intro!: exI[of _ "DRight # ds"])
  next
    case 3
    then have "rangecompare x p = Rcontained"
      using rc inside_not_separate[OF RNode.prems(2) 3(2)] inside_asym[OF 3(2)] by (auto simp: same_def inside_def)
    moreover obtain ds l' m' r' d' where "looknode m x = Some ds" "rderef m ds = RNode l' m' r' y d'"
      using RNode w 3 by blast
    ultimately show ?thesis by (auto intro!: exI[of _ "DMid # ds"])
  next
    case 4
    then show ?thesis using rc RNode.prems(4) by (auto intro!: exI[of _ "[]"])
  qed
qed

lemma looknode_none:
  assumes "wft t" and "valid x" and "\<forall>y \<in># nodes t. \<not> same x y"
  shows "looknode t x = None"
  using assms
proof (induction t)
  case (RNode l m r p d)
  have "rangecompare x p \<noteq> Requals" using RNode.prems rangecompare_cases(3)[of x p] by auto
  then show ?case using RNode by (auto split: order.splits)
qed simp

theorem delfrom_last:
  assumes "wft t" and "valid x" and "y \<in># nodes t" and "same x y" and "ref y = 1"
  shows "\<exists>t'. delfrom t x = Some t' \<and> wft t' \<and> nodes t = add_mset y (nodes t')"
proof -
  obtain ds l m r d where f: "looknode t x = Some ds" "rderef t ds = RNode l m r y d"
    using looknode_found[OF assms(1-4)] by blast
  let ?t = "rstore t ds RNil" and ?q = "addqueue (addqueue (addqueue [] l) m) r"
  have sub: "wft (RNode l m r y d)" using wft_rderef[OF assms(1), of ds] f(2) by simp
  have w: "wft ?t" using wft_rstore[OF assms(1), of RNil ds] by simp
  have ap: "apart_all (nodes l) (nodes ?t)" "apart_all (nodes m) (nodes ?t)" "apart_all (nodes r) (nodes ?t)"
    using rderef_apart[OF assms(1), of ds] f(2) by simp_all
  have o: "valid y" "\<forall>z \<in># nodes l. endaddress z < address y" "\<forall>z \<in># nodes m. inside z y"
    "\<forall>z \<in># nodes r. endaddress y < address z" using sub by auto
  note side = apart_left[OF o(2,3)] apart_right[OF o(4,3)] apart_across[OF o(1,4,2)]
  have "\<forall>p \<in> set ?q. apart_all (nodes p) (nodes ?t)" "list_all wft ?q"
    "sorted_wrt (\<lambda>p p'. apart_all (nodes p') (nodes p)) ?q"
    using ap sub side by (auto simp: addqueue_def)
  then obtain t' where t': "requeue ?t ?q = Some t'" "wft t'" "nodes t' = nodes ?t + sum_list (map nodes ?q)"
    using requeue_apart[OF w] by blast
  have "sum_list (map nodes ?q) = nodes l + nodes m + nodes r" by (auto simp: addqueue_def)
  then have "add_mset y (nodes t') = nodes ?t + nodes (RNode l m r y d)" by (simp add: t'(3))
  also have "\<dots> = nodes t" using rstore_nodes[of t ds RNil] f(2) by simp
  finally show ?thesis using f assms(5) t'(1,2) by (auto simp: delfrom_def)
qed

theorem delfrom_shared:
  assumes "wft t" and "valid x" and "y \<in># nodes t" and "same x y" and "ref y \<noteq> 1"
  shows "\<exists>t'. delfrom t x = Some t' \<and> wft t' \<and> nodes t' = add_mset (y\<lparr>ref := ref y - 1\<rparr>) (nodes t - {#y#})"
proof -
  obtain ds l m r d where f: "looknode t x = Some ds" "rderef t ds = RNode l m r y d"
    using looknode_found[OF assms(1-4)] by blast
  let ?s = "RNode l m r (y\<lparr>ref := ref y - 1\<rparr>) d"
  have sub: "wft (RNode l m r y d)" using wft_rderef[OF assms(1), of ds] f(2) by simp
  then have "wft ?s" by (simp add: valid_def inside_def)
  moreover have "\<forall>z \<in># nodes ?s. \<exists>z' \<in># nodes (rderef t ds). same z z'" by (auto simp: f(2) same_def)
  ultimately have w: "wft (rstore t ds ?s)" using wft_rstore[OF assms(1)] by blast
  have "nodes (rstore t ds ?s) + nodes (RNode l m r y d) = nodes t + nodes ?s"
    using rstore_nodes[of t ds ?s] f(2) by simp
  then have "add_mset y (nodes (rstore t ds ?s)) = add_mset (y\<lparr>ref := ref y - 1\<rparr>) (nodes t)" by simp
  then have "nodes (rstore t ds ?s) = add_mset (y\<lparr>ref := ref y - 1\<rparr>) (nodes t) - {#y#}"
    by (metis add_mset_remove_trivial)
  then show ?thesis using f assms(3,5) w by (auto simp: delfrom_def)
qed

theorem delfrom_absent:
  assumes "wft t" and "valid x" and "\<forall>y \<in># nodes t. \<not> same x y"
  shows "delfrom t x = Some t"
  using looknode_none[OF assms] by (simp add: delfrom_def)

end
