(* ===== verification/Iproute_Table.thy ===== *)
theory Iproute_Table
  imports Iproute_Tree
begin

text \<open>
  The routing tables as what they promise: a finite map from ranges to routes, with lookup
  by the most specific range. The hash roots \<open>f->v4root[h]\<close> and \<open>f->v6root[h]\<close> each hold the
  ranges that meet their part of the address space. The laws the proof needs of an address
  family, that its order is the order of a numeric value and that the root index is a field
  of that value, are the locale \<open>addr_family\<close>, interpreted for both families.
\<close>

section \<open>The abstract table\<close>

type_synonym rinfo = "u8 list \<times> u8 \<times> int \<times> string"

definition rrange :: "'a route \<Rightarrow> 'a \<times> 'a" where
  "rrange x = (address x, endaddress x)"

definition info :: "'a route \<Rightarrow> rinfo" where
  "info x = (gate x, rtype x, ref x, tag x)"

text \<open>What happens to an entry when its range is added again, and when it is removed.\<close>

definition spec_merge :: "rinfo \<Rightarrow> rinfo \<Rightarrow> rinfo" where
  "spec_merge old new = (case (old, new) of ((g, ty, n, tg), (g', ty', _, _)) \<Rightarrow>
     if \<not> flag_on ty Rifc then (g', ty', n, tg)
     else if flag_on ty' Rifc then (g, ty, n + 1, tg)
     else old)"

definition spec_add :: "('a \<times> 'a \<rightharpoonup> rinfo) \<Rightarrow> 'a \<times> 'a \<Rightarrow> rinfo \<Rightarrow> ('a \<times> 'a \<rightharpoonup> rinfo)" where
  "spec_add M r i = M(r \<mapsto> (case M r of None \<Rightarrow> i | Some old \<Rightarrow> spec_merge old i))"

definition spec_del :: "('a \<times> 'a \<rightharpoonup> rinfo) \<Rightarrow> 'a \<times> 'a \<Rightarrow> ('a \<times> 'a \<rightharpoonup> rinfo)" where
  "spec_del M r = M(r := (case M r of None \<Rightarrow> None
     | Some (g, ty, n, tg) \<Rightarrow> if n = 1 then None else Some (g, ty, n - 1, tg)))"

text \<open>The answer to a lookup: the most specific range of the table that holds the address.\<close>

definition spec_look :: "('a::linorder \<times> 'a \<rightharpoonup> rinfo) \<Rightarrow> 'a \<Rightarrow> ('a \<times> 'a) option \<Rightarrow> bool" where
  "spec_look M a q = (case q of
      None \<Rightarrow> (\<forall>(lo, hi) \<in> dom M. \<not> (lo \<le> a \<and> a \<le> hi))
    | Some (lo, hi) \<Rightarrow> (lo, hi) \<in> dom M \<and> lo \<le> a \<and> a \<le> hi
        \<and> (\<forall>(lo', hi') \<in> dom M. lo' \<le> a \<and> a \<le> hi' \<longrightarrow> lo' \<le> lo \<and> hi \<le> hi'))"

section \<open>One root\<close>

definition inroot :: "('a \<Rightarrow> nat) \<Rightarrow> nat \<Rightarrow> 'a \<times> 'a \<Rightarrow> bool" where
  "inroot H h r \<longleftrightarrow> H (fst r) \<le> h \<and> h \<le> H (snd r)"

definition rootinv :: "('a::linorder \<Rightarrow> nat) \<Rightarrow> ('a \<times> 'a \<rightharpoonup> rinfo) \<Rightarrow> nat \<Rightarrow> 'a rtree \<Rightarrow> bool" where
  "rootinv H M h t \<longleftrightarrow> wft t
    \<and> (\<forall>x \<in># nodes t. M (rrange x) = Some (info x) \<and> inroot H h (rrange x))
    \<and> (\<forall>r \<in> dom M. inroot H h r \<longrightarrow> r \<in> rrange ` set_mset (nodes t))"

definition table :: "('a::linorder \<Rightarrow> nat) \<Rightarrow> (nat \<Rightarrow> 'a rtree) \<Rightarrow> ('a \<times> 'a \<rightharpoonup> rinfo) \<Rightarrow> bool" where
  "table H roots M \<longleftrightarrow> (\<forall>h. rootinv H M h (roots h))"

lemma same_range: "same x y \<longleftrightarrow> rrange x = rrange y"
  by (auto simp: same_def rrange_def)

lemma info_supersede: "info (supersede p x) = spec_merge (info p) (info x)"
  by (simp add: info_def supersede_def spec_merge_def copygate_def)

lemma range_supersede [simp]: "rrange (supersede p x) = rrange p"
  by (simp add: rrange_def)

lemma rootinv_other: "rootinv H M h t \<Longrightarrow> \<not> inroot H h r \<Longrightarrow> rootinv H (M(r := v)) h t"
  by (auto simp: rootinv_def)

text \<open>Adding to a root.\<close>

lemma rootinvI:
  assumes "wft t" and "\<And>x. x \<in># nodes t \<Longrightarrow> M (rrange x) = Some (info x) \<and> inroot H h (rrange x)"
    and "\<And>r. r \<in> dom M \<Longrightarrow> inroot H h r \<Longrightarrow> \<exists>x \<in># nodes t. rrange x = r"
  shows "rootinv H M h t"
  using assms unfolding rootinv_def by blast

lemma rootinvD:
  assumes "rootinv H M h t"
  shows "wft t" and "x \<in># nodes t \<Longrightarrow> M (rrange x) = Some (info x)" and "x \<in># nodes t \<Longrightarrow> inroot H h (rrange x)"
    and "M r = Some i \<Longrightarrow> inroot H h r \<Longrightarrow> \<exists>x \<in># nodes t. rrange x = r \<and> info x = i"
proof -
  show "\<exists>x \<in># nodes t. rrange x = r \<and> info x = i" if "M r = Some i" "inroot H h r"
  proof -
    have "r \<in> rrange ` set_mset (nodes t)" using assms that unfolding rootinv_def by blast
    then obtain x where x: "x \<in># nodes t" "rrange x = r" by blast
    then have "M (rrange x) = Some (info x)" using assms unfolding rootinv_def by blast
    then show ?thesis using x that(1) by auto
  qed
qed (use assms in \<open>auto simp: rootinv_def\<close>)

lemma rootinv_add:
  assumes inv: "rootinv H M h t" and "valid x" and "laminar x (nodes t)" and "inroot H h (rrange x)"
  shows "\<exists>t'. addto t x = Some t' \<and> rootinv H (spec_add M (rrange x) (info x)) h t'"
proof (cases "M (rrange x)")
  case None
  have nodup: "rrange y \<noteq> rrange x" if "y \<in># nodes t" for y using rootinvD(2)[OF inv that] None by auto
  then have "\<forall>y \<in># nodes t. \<not> same x y" by (metis same_range)
  then obtain t' where t': "addto t x = Some t'" "wft t'" "nodes t' = add_mset x (nodes t)"
    using addto_new[OF rootinvD(1)[OF inv] assms(2,3)] by blast
  have "rootinv H (spec_add M (rrange x) (info x)) h t'"
  proof (rule rootinvI[OF t'(2)])
    fix z assume "z \<in># nodes t'"
    then show "spec_add M (rrange x) (info x) (rrange z) = Some (info z) \<and> inroot H h (rrange z)"
      using None assms(4) nodup rootinvD(2,3)[OF inv] by (auto simp: t'(3) spec_add_def)
  next
    fix r assume "r \<in> dom (spec_add M (rrange x) (info x))" "inroot H h r"
    then show "\<exists>z \<in># nodes t'. rrange z = r"
      using rootinvD(4)[OF inv, of r] by (auto simp: t'(3) spec_add_def split: if_splits)
  qed
  then show ?thesis using t'(1) by blast
next
  case (Some old)
  obtain y where y: "y \<in># nodes t" "rrange y = rrange x" "info y = old"
    using rootinvD(4)[OF inv Some assms(4)] by blast
  then have "same x y" by (simp add: same_range)
  then obtain t' where t': "addto t x = Some t'" "wft t'" "nodes t' = image_mset (merge x) (nodes t)"
    using addto_same[OF rootinvD(1)[OF inv] assms(2) y(1)] by blast
  have mr: "rrange (merge x z) = rrange z" for z by (simp add: merge_def)
  have mi: "info (merge x z) = (if rrange z = rrange x then spec_merge (info z) (info x) else info z)" for z
    by (auto simp: merge_def info_supersede same_range)
  have "rootinv H (spec_add M (rrange x) (info x)) h t'"
  proof (rule rootinvI[OF t'(2)])
    fix z assume "z \<in># nodes t'"
    then obtain z0 where z0: "z0 \<in># nodes t" "z = merge x z0" by (auto simp: t'(3))
    show "spec_add M (rrange x) (info x) (rrange z) = Some (info z) \<and> inroot H h (rrange z)"
      using Some rootinvD(2,3)[OF inv z0(1)] by (auto simp: z0(2) spec_add_def mr mi)
  next
    fix r assume "r \<in> dom (spec_add M (rrange x) (info x))" "inroot H h r"
    then have "\<exists>z \<in># nodes t. rrange z = r"
      using rootinvD(4)[OF inv, of r] y by (auto simp: spec_add_def split: if_splits)
    then show "\<exists>z \<in># nodes t'. rrange z = r" by (auto simp: t'(3) mr)
  qed
  then show ?thesis using t'(1) by blast
qed

text \<open>A range occurs once in a well-formed tree.\<close>

lemma filter_none: "\<forall>y \<in># M. \<not> P y \<Longrightarrow> {#y \<in># M. P y#} = {#}"
  by (induction M) auto

lemma wft_once: "wft t \<Longrightarrow> valid x \<Longrightarrow> size {#y \<in># nodes t. same x y#} \<le> 1"
proof (induction t)
  case (RNode l m r p d)
  note ns = no_same_elsewhere[OF RNode.prems]
  have w: "wft l" "wft m" "wft r" "valid p" using RNode.prems(1) by auto
  let ?n = "\<lambda>t. size {#y \<in># nodes t. same x y#}"
  have sum: "\<not> same x p \<Longrightarrow> ?n (RNode l m r p d) = ?n l + ?n m + ?n r"
    "same x p \<Longrightarrow> ?n (RNode l m r p d) = 1 + ?n l + ?n m + ?n r" by simp_all
  have IH: "?n l \<le> 1" "?n m \<le> 1" "?n r \<le> 1" using RNode w by simp_all
  consider "endaddress x < address p" | "endaddress p < address x" | "inside x p" | "same x p"
    | "\<not> separate x p" "\<not> inside x p" "\<not> same x p" by (auto simp: separate_def)
  then show ?case
  proof cases
    case 1
    then have z: "\<not> same x p" "?n m = 0" "?n r = 0" using ns(1) by auto
    show ?thesis using sum(1)[OF z(1)] z(2,3) IH by linarith
  next
    case 2
    then have z: "\<not> same x p" "?n l = 0" "?n m = 0" using ns(2) by auto
    show ?thesis using sum(1)[OF z(1)] z(2,3) IH by linarith
  next
    case 3
    then have z: "\<not> same x p" "?n l = 0" "?n r = 0" using ns(3) by auto
    show ?thesis using sum(1)[OF z(1)] z(2,3) IH by linarith
  next
    case 4
    then have "?n l = 0" "?n m = 0" "?n r = 0" using ns(4) by auto
    then show ?thesis using sum(2)[OF 4] by linarith
  next
    case 5
    have "\<forall>y \<in># nodes (RNode l m r p d). \<not> same x y"
      using RNode.prems 5 same_side[OF RNode.prems(2)] by (auto simp: separate_def)
    then show ?thesis by (simp add: filter_none del: nodes.simps)
  qed
qed simp

lemma wft_remove_once:
  assumes "wft t" and "nodes t = add_mset y N"
  shows "\<forall>z \<in># N. rrange z \<noteq> rrange y"
proof
  fix z assume "z \<in># N"
  have "valid y" using wft_valid[OF assms(1)] assms(2) by simp
  then have "size {#z \<in># nodes t. same y z#} \<le> 1" using assms(1) wft_once by blast
  then have "{#z \<in># N. same y z#} = {#}" by (simp add: assms(2) same_def)
  then show "rrange z \<noteq> rrange y" using \<open>z \<in># N\<close>
    by (metis (mono_tags, lifting) empty_iff mem_Collect_eq same_range set_mset_empty set_mset_filter)
qed

text \<open>Removing from a root.\<close>

lemma rootinv_del:
  assumes inv: "rootinv H M h t" and "valid x" and "inroot H h (rrange x)"
  shows "\<exists>t'. delfrom t x = Some t' \<and> rootinv H (spec_del M (rrange x)) h t'"
proof (cases "M (rrange x)")
  case None
  have "\<forall>y \<in># nodes t. \<not> same x y" using rootinvD(2)[OF inv] None by (metis option.distinct(1) same_range)
  then show ?thesis using delfrom_absent[OF rootinvD(1)[OF inv] assms(2)] inv None
    by (simp add: spec_del_def fun_upd_idem)
next
  case (Some old)
  obtain y where y: "y \<in># nodes t" "rrange y = rrange x" "info y = old"
    using rootinvD(4)[OF inv Some assms(3)] by blast
  then have sm: "same x y" by (simp add: same_range)
  note w = rootinvD(1)[OF inv]
  show ?thesis
  proof (cases "ref y = 1")
    case True
    obtain t' where t': "delfrom t x = Some t'" "wft t'" "nodes t = add_mset y (nodes t')"
      using delfrom_last[OF w assms(2) y(1) sm True] by blast
    have sd: "spec_del M (rrange x) = M(rrange y := None)"
      using Some y True by (auto simp: spec_del_def info_def)
    have "rootinv H (M(rrange y := None)) h t'"
      using wft_remove_once[OF w t'(3)] rootinvD(2-4)[OF inv]
      by (intro rootinvI[OF t'(2)]) (fastforce simp: t'(3) split: if_splits)+
    then show ?thesis using t'(1) sd by simp
  next
    case False
    let ?y = "y\<lparr>ref := ref y - 1\<rparr>"
    obtain t' where t': "delfrom t x = Some t'" "wft t'" "nodes t' = add_mset ?y (nodes t - {#y#})"
      using delfrom_shared[OF w assms(2) y(1) sm False] by blast
    obtain N where N: "nodes t = add_mset y N" using y(1) by (meson mset_add)
    have sd: "spec_del M (rrange x) = M(rrange y \<mapsto> info ?y)"
      using Some y False by (auto simp: spec_del_def info_def)
    have ry: "rrange ?y = rrange y" by (simp add: rrange_def)
    have "rootinv H (M(rrange y \<mapsto> info ?y)) h t'"
      using wft_remove_once[OF w N] rootinvD(2-4)[OF inv] N t'(3) ry
      by (intro rootinvI[OF t'(2)]) (fastforce split: if_splits)+
    then show ?thesis using t'(1) sd by simp
  qed
qed

section \<open>Address families\<close>

text \<open>
  \<open>is_prefix v r k\<close>: the range \<open>r\<close> is what a mask with \<open>k\<close> host bits gives, a block of \<open>2 ^ k\<close>
  addresses aligned to its size, \<open>v\<close> being the value of an address.
\<close>

definition is_prefix :: "('a \<Rightarrow> nat) \<Rightarrow> 'a \<times> 'a \<Rightarrow> nat \<Rightarrow> bool" where
  "is_prefix v r k \<longleftrightarrow> (\<exists>n. v (fst r) = n * 2 ^ k \<and> v (snd r) = n * 2 ^ k + (2 ^ k - 1))"

definition prefixes :: "('a \<Rightarrow> nat) \<Rightarrow> ('a \<times> 'a \<rightharpoonup> rinfo) \<Rightarrow> bool" where
  "prefixes v M \<longleftrightarrow> (\<forall>r \<in> dom M. \<exists>k. is_prefix v r k)"

lemma forroots_ok:
  assumes "distinct hs" and "\<forall>h \<in> set hs. \<exists>t'. body (roots h) = Some t'"
  shows "\<exists>roots'. forroots hs body roots = Some roots'
    \<and> (\<forall>h \<in> set hs. body (roots h) = Some (roots' h)) \<and> (\<forall>h. h \<notin> set hs \<longrightarrow> roots' h = roots h)"
  using assms
proof (induction hs arbitrary: roots)
  case (Cons h hs)
  then obtain t where t: "body (roots h) = Some t" by auto
  have eq: "(roots(h := t)) h' = roots h'" if "h' \<in> set hs" for h' using Cons.prems(1) that by auto
  have "\<forall>h' \<in> set hs. \<exists>t'. body ((roots(h := t)) h') = Some t'" using Cons.prems(2) eq by simp
  moreover have "distinct hs" using Cons.prems(1) by simp
  ultimately obtain roots' where r: "forroots hs body (roots(h := t)) = Some roots'"
    "\<forall>h' \<in> set hs. body ((roots(h := t)) h') = Some (roots' h')" "\<forall>h'. h' \<notin> set hs \<longrightarrow> roots' h' = (roots(h := t)) h'"
    using Cons.IH by blast
  have "\<forall>h' \<in> set (h # hs). body (roots h') = Some (roots' h')" using r(2,3) eq t Cons.prems(1) by simp
  then show ?case using t r(1,3) by (intro exI[of _ roots']) simp
qed simp

text \<open>The blocks of a smaller and a larger alignment are nested or apart.\<close>

lemma aligned_blocks:
  fixes n n' k k' :: nat
  assumes "k \<le> k'"
  shows "n * 2 ^ k + (2 ^ k - 1) < n' * 2 ^ k' \<or> n' * 2 ^ k' + (2 ^ k' - 1) < n * 2 ^ k
    \<or> n' * 2 ^ k' \<le> n * 2 ^ k \<and> n * 2 ^ k + (2 ^ k - 1) \<le> n' * 2 ^ k' + (2 ^ k' - 1)"
proof -
  obtain j where j: "k' = k + j" using assms le_Suc_ex by blast
  let ?P = "2 ^ k :: nat" and ?J = "2 ^ j :: nat"
  have e: "(2 :: nat) ^ k' = ?J * ?P" "1 \<le> ?P" "1 \<le> ?J" by (simp_all add: j power_add)
  consider "n < n' * ?J" | "(n' + 1) * ?J \<le> n" | "n' * ?J \<le> n" "n + 1 \<le> (n' + 1) * ?J" by linarith
  then show ?thesis
  proof cases
    case 1
    then have "(n + 1) * ?P \<le> n' * ?J * ?P" by (intro mult_right_mono) auto
    then have "n * ?P + ?P \<le> n' * (?J * ?P)" by (simp add: algebra_simps)
    then show ?thesis using e(2) unfolding e(1) by linarith
  next
    case 2
    then have "(n' + 1) * ?J * ?P \<le> n * ?P" by (intro mult_right_mono) auto
    then have "n' * (?J * ?P) + ?J * ?P \<le> n * ?P" by (simp add: algebra_simps)
    moreover have "1 \<le> ?J * ?P" using e by simp
    ultimately show ?thesis unfolding e(1) by linarith
  next
    case 3
    then have "n' * ?J * ?P \<le> n * ?P" "(n + 1) * ?P \<le> ((n' + 1) * ?J) * ?P"
      by (intro mult_right_mono; simp)+
    then have "n' * (?J * ?P) \<le> n * ?P" "n * ?P + ?P \<le> n' * (?J * ?P) + ?J * ?P" by (simp_all add: algebra_simps)
    then show ?thesis unfolding e(1) by linarith
  qed
qed

text \<open>The field of bits 17 to 26, which indexes the roots, is monotone within an aligned block.\<close>

definition rootfield :: "nat \<Rightarrow> nat" where
  "rootfield v = v mod 2 ^ 27 div 2 ^ 17"

lemma rootfield_block:
  assumes "n * 2 ^ k \<le> v" and "v \<le> n * 2 ^ k + (2 ^ k - 1)"
  shows "rootfield (n * 2 ^ k) \<le> rootfield v \<and> rootfield v \<le> rootfield (n * 2 ^ k + (2 ^ k - 1))"
proof (cases "k \<le> 27")
  case True
  then obtain j where j: "27 = k + j" using le_Suc_ex by blast
  have pw: "(2 :: nat) ^ 27 = 2 ^ k * 2 ^ j" using j by (metis power_add)
  have dk: "w div 2 ^ k = n" if "n * 2 ^ k \<le> w" "w \<le> n * 2 ^ k + (2 ^ k - 1)" for w :: nat
  proof (rule div_nat_eqI)
    have "1 \<le> (2 :: nat) ^ k" by simp
    then show "w < 2 ^ k * Suc n" using that(2) by (simp only: mult_Suc_right mult.commute[of _ n])
    show "2 ^ k * n \<le> w" using that(1) by (simp only: mult.commute)
  qed
  have dd: "w div 2 ^ 27 = n div 2 ^ j" if "n * 2 ^ k \<le> w" "w \<le> n * 2 ^ k + (2 ^ k - 1)" for w :: nat
    using dk[OF that] by (simp only: pw div_mult2_eq)
  have "w mod 2 ^ 27 = w - (n div 2 ^ j) * 2 ^ 27" if "n * 2 ^ k \<le> w" "w \<le> n * 2 ^ k + (2 ^ k - 1)" for w :: nat
    using dd[OF that] by (metis minus_div_mult_eq_mod)
  then have "n * 2 ^ k mod 2 ^ 27 \<le> v mod 2 ^ 27" "v mod 2 ^ 27 \<le> (n * 2 ^ k + (2 ^ k - 1)) mod 2 ^ 27"
    using assms by (simp_all add: diff_le_mono)
  then show ?thesis unfolding rootfield_def by (intro conjI div_le_mono)
next
  case False
  then obtain j where j: "k = 27 + j" using le_Suc_ex[of 27 k] by auto
  have e: "(2 :: nat) ^ k = 2 ^ 27 * 2 ^ j" by (simp add: j power_add)
  have "n * 2 ^ k mod 2 ^ 27 = 0" by (simp only: e) simp
  moreover have "(n * 2 ^ k + (2 ^ k - 1)) mod 2 ^ 27 = 2 ^ 27 - 1"
  proof -
    have "n * 2 ^ k + (2 ^ k - 1) = (2 ^ 27 - 1) + 2 ^ 27 * (n * 2 ^ j + (2 ^ j - 1))"
    proof -
      obtain i where i: "(2 :: nat) ^ j = Suc i" using one_le_power[of "2 :: nat" j] by (metis Suc_pred' le_numeral_extra(4) less_le_trans one_le_numeral zero_less_one)
      show ?thesis by (simp add: e i algebra_simps)
    qed
    then show ?thesis by (simp only: mod_mult_self2) simp
  qed
  moreover have "v mod 2 ^ 27 \<le> 2 ^ 27 - 1" by (simp add: less_Suc_eq_le[symmetric])
  ultimately show ?thesis unfolding rootfield_def by (auto intro: div_le_mono)
qed

locale addr_family =
  fixes val :: "'a::linorder \<Rightarrow> nat" and H :: "'a \<Rightarrow> nat"
  assumes val_less: "a < b \<longleftrightarrow> val a < val b"
    and H_field: "H a = rootfield (val a)"
begin

lemma val_le: "a \<le> b \<longleftrightarrow> val a \<le> val b"
  using val_less[of b a] by (simp add: linorder_not_less[symmetric])

lemma val_eq: "a = b \<longleftrightarrow> val a = val b"
  by (metis val_less linorder_less_linear less_irrefl)

lemma prefix_le: "is_prefix val (lo, hi) k \<Longrightarrow> lo \<le> hi"
  unfolding is_prefix_def val_le fst_conv snd_conv by (elim exE conjE) (simp only: le_add1)

lemma prefix_valid: "is_prefix val (rrange x) k \<Longrightarrow> valid x"
  unfolding valid_def rrange_def by (rule prefix_le)

lemma prefix_laminar:
  assumes "is_prefix val (rrange x) k" and "is_prefix val (rrange y) k'"
  shows "separate x y \<or> inside x y \<or> inside y x \<or> same x y"
proof -
  obtain n n' where e: "val (address x) = n * 2 ^ k" "val (endaddress x) = n * 2 ^ k + (2 ^ k - 1)"
    "val (address y) = n' * 2 ^ k'" "val (endaddress y) = n' * 2 ^ k' + (2 ^ k' - 1)"
    using assms by (auto simp: is_prefix_def rrange_def)
  show ?thesis
  proof (cases "k \<le> k'")
    case True
    from aligned_blocks[OF this, of n n']
    have "endaddress x < address y \<or> endaddress y < address x \<or> address y \<le> address x \<and> endaddress x \<le> endaddress y"
      by (simp only: e val_le val_less)
    then show ?thesis by (auto simp: range_defs)
  next
    case False
    then have "k' \<le> k" by simp
    from aligned_blocks[OF this, of n' n]
    have "endaddress y < address x \<or> endaddress x < address y \<or> address x \<le> address y \<and> endaddress y \<le> endaddress x"
      by (simp only: e val_le val_less)
    then show ?thesis by (auto simp: range_defs)
  qed
qed

lemma prefix_cover:
  assumes "is_prefix val (lo, hi) k" and "lo \<le> a" and "a \<le> hi"
  shows "inroot H (H a) (lo, hi)"
proof -
  obtain n where "val lo = n * 2 ^ k" "val hi = n * 2 ^ k + (2 ^ k - 1)" using assms(1) by (auto simp: is_prefix_def)
  then show ?thesis using assms(2,3) rootfield_block[of n k "val a"] by (simp add: inroot_def H_field val_le)
qed

lemma root_laminar:
  assumes "rootinv H M h t" and "prefixes val M" and "is_prefix val (rrange x) k"
  shows "laminar x (nodes t)"
  unfolding laminar_def
proof
  fix y assume "y \<in># nodes t"
  then have "rrange y \<in> dom M" using rootinvD(2)[OF assms(1)] by auto
  then show "separate x y \<or> inside x y \<or> inside y x \<or> same x y"
    using prefix_laminar[OF assms(3)] assms(2) unfolding prefixes_def by blast
qed

lemma table_add:
  assumes "table H roots M" and "prefixes val M" and "is_prefix val (rrange x) k"
  shows "\<exists>roots'. forroots [H (address x)..<H (endaddress x) + 1] (\<lambda>t. addto t x) roots = Some roots'
    \<and> table H roots' (spec_add M (rrange x) (info x)) \<and> prefixes val (spec_add M (rrange x) (info x))"
proof -
  let ?hs = "[H (address x)..<H (endaddress x) + 1]" and ?M = "spec_add M (rrange x) (info x)"
  have inv: "rootinv H M h (roots h)" for h using assms(1) by (simp add: table_def)
  have hs: "h \<in> set ?hs \<longleftrightarrow> inroot H h (rrange x)" for h by (auto simp: inroot_def rrange_def)
  have add: "\<exists>t'. addto (roots h) x = Some t' \<and> rootinv H ?M h t'" if "h \<in> set ?hs" for h
    using rootinv_add[OF inv prefix_valid[OF assms(3)] root_laminar[OF inv assms(2,3)]] that hs by blast
  obtain roots' where r: "forroots ?hs (\<lambda>t. addto t x) roots = Some roots'"
    "\<forall>h \<in> set ?hs. addto (roots h) x = Some (roots' h)" "\<forall>h. h \<notin> set ?hs \<longrightarrow> roots' h = roots h"
    using forroots_ok[of ?hs "\<lambda>t. addto t x" roots] add by (meson distinct_upt)
  have "rootinv H ?M h (roots' h)" for h
  proof (cases "h \<in> set ?hs")
    case True
    then show ?thesis using add[OF True] r(2) by fastforce
  next
    case False
    then have "roots' h = roots h" "\<not> inroot H h (rrange x)" using r(3) hs by blast+
    then show ?thesis using rootinv_other[OF inv] unfolding spec_add_def by simp
  qed
  moreover have "prefixes val ?M" using assms(2,3) by (auto simp: prefixes_def spec_add_def)
  ultimately show ?thesis using r(1) by (auto simp: table_def)
qed

lemma table_del:
  assumes "table H roots M" and "prefixes val M" and "is_prefix val (rrange x) k"
  shows "\<exists>roots'. forroots [H (address x)..<H (endaddress x) + 1] (\<lambda>t. delfrom t x) roots = Some roots'
    \<and> table H roots' (spec_del M (rrange x)) \<and> prefixes val (spec_del M (rrange x))"
proof -
  let ?hs = "[H (address x)..<H (endaddress x) + 1]" and ?M = "spec_del M (rrange x)"
  have inv: "rootinv H M h (roots h)" for h using assms(1) by (simp add: table_def)
  have hs: "h \<in> set ?hs \<longleftrightarrow> inroot H h (rrange x)" for h by (auto simp: inroot_def rrange_def)
  have del: "\<exists>t'. delfrom (roots h) x = Some t' \<and> rootinv H ?M h t'" if "h \<in> set ?hs" for h
    using rootinv_del[OF inv prefix_valid[OF assms(3)]] that hs by blast
  obtain roots' where r: "forroots ?hs (\<lambda>t. delfrom t x) roots = Some roots'"
    "\<forall>h \<in> set ?hs. delfrom (roots h) x = Some (roots' h)" "\<forall>h. h \<notin> set ?hs \<longrightarrow> roots' h = roots h"
    using forroots_ok[of ?hs "\<lambda>t. delfrom t x" roots] del by (meson distinct_upt)
  have "rootinv H ?M h (roots' h)" for h
  proof (cases "h \<in> set ?hs")
    case True
    then show ?thesis using del[OF True] r(2) by fastforce
  next
    case False
    then have "roots' h = roots h" "\<not> inroot H h (rrange x)" using r(3) hs by blast+
    then show ?thesis using rootinv_other[OF inv] unfolding spec_del_def by simp
  qed
  moreover have "prefixes val ?M" using assms(2,3) unfolding prefixes_def spec_del_def by (auto split: if_splits)
  ultimately show ?thesis using r(1) by (auto simp: table_def)
qed

lemma table_look:
  assumes "table H roots M" and "prefixes val M"
  shows "spec_look M a (map_option rrange (lookfrom (roots (H a)) a None))"
proof -
  let ?t = "roots (H a)"
  have inv: "rootinv H M (H a) ?t" using assms(1) by (simp add: table_def)
  have b: "best (nodes ?t) a (lookfrom ?t a None)" using lookfrom_best[OF rootinvD(1)[OF inv]] .
  have cov: "\<exists>y \<in># nodes ?t. rrange y = (lo, hi) \<and> holds y a" if r: "(lo, hi) \<in> dom M" "lo \<le> a" "a \<le> hi" for lo hi
  proof -
    from assms(2) r(1) have "\<exists>k. is_prefix val (lo, hi) k" unfolding prefixes_def by (rule bspec)
    then have ir: "inroot H (H a) (lo, hi)" using prefix_cover[OF _ r(2,3)] by (elim exE)
    obtain i where "M (lo, hi) = Some i" using r(1) by blast
    from rootinvD(4)[OF inv this ir] obtain y where "y \<in># nodes ?t" "rrange y = (lo, hi)" by blast
    then show ?thesis using r(2,3) by (auto simp: holds_def rrange_def)
  qed
  show ?thesis
  proof (cases "lookfrom ?t a None")
    case None
    then have "\<not> (lo \<le> a \<and> a \<le> hi)" if "(lo, hi) \<in> dom M" for lo hi
      using b cov[OF that] unfolding best_def by auto
    then show ?thesis using None unfolding spec_look_def by auto
  next
    case (Some x)
    then have x: "x \<in># nodes ?t" "holds x a" "\<forall>y \<in># nodes ?t. holds y a \<longrightarrow> y = x \<or> inside x y"
      using b by (simp_all add: best_def)
    have "lo' \<le> address x \<and> endaddress x \<le> hi'" if r: "(lo', hi') \<in> dom M" "lo' \<le> a" "a \<le> hi'" for lo' hi'
    proof -
      obtain y where y: "y \<in># nodes ?t" "rrange y = (lo', hi')" "holds y a" using cov[OF r] by blast
      then have "y = x \<or> inside x y" using x(3) by simp
      then show ?thesis using y(2) by (auto simp: rrange_def inside_def)
    qed
    moreover have "(address x, endaddress x) \<in> dom M" using rootinvD(2)[OF inv x(1)] unfolding rrange_def by blast
    moreover have "address x \<le> a" "a \<le> endaddress x" using x(2) by (simp_all add: holds_def)
    ultimately show ?thesis unfolding Some option.map rrange_def spec_look_def option.case prod.case by blast
  qed
qed

end

section \<open>Version 4\<close>

lemma unat_bound: "unat (a :: u32) < 2 ^ 32"
  using unsigned_less[of a] by simp

lemma unat_clear_low:
  fixes a :: u32
  assumes "k \<le> 32"
  shows "unat (a AND NOT (mask k)) = unat a div 2 ^ k * 2 ^ k"
proof -
  have "a AND NOT (mask k) = push_bit k (drop_bit k a)" by (auto simp: bit_eq_iff bit_simps)
  moreover have "take_bit 32 (unat a) = unat a" using unat_bound[of a] by (simp add: take_bit_nat_eq_self)
  ultimately have "unat (a AND NOT (mask k)) = take_bit 32 (push_bit k (drop_bit k (unat a)))"
    by (simp add: unsigned_push_bit_eq unsigned_drop_bit_eq)
  moreover have "unat a div 2 ^ k * 2 ^ k < 2 ^ 32"
    using unat_bound[of a] div_times_less_eq_dividend[of "unat a" "2 ^ k"] by linarith
  ultimately show ?thesis by (simp add: push_bit_eq_mult drop_bit_eq_div take_bit_eq_mod)
qed

lemma unat_mask: "k \<le> 32 \<Longrightarrow> unat (mask k :: u32) = 2 ^ k - 1"
proof -
  assume k: "k \<le> 32"
  then have "uint (mask k :: u32) = 2 ^ k - 1"
    by (simp only: uint_mask_eq) (simp add: min_absorb2 mask_eq_exp_minus_1)
  then show ?thesis by (simp add: nat_diff_distrib nat_power_eq flip: nat_uint_eq)
qed

lemma unat_set_low:
  fixes a :: u32
  assumes "k \<le> 32"
  shows "unat (a AND NOT (mask k) OR mask k) = unat a div 2 ^ k * 2 ^ k + (2 ^ k - 1)"
proof -
  have "a AND NOT (mask k) OR mask k = (a AND NOT (mask k)) + mask k"
    by (rule disjunctive_add[symmetric]) (auto simp: bit_simps)
  moreover have "unat a div 2 ^ k * 2 ^ k + (2 ^ k - 1) < 2 ^ 32"
  proof -
    have "unat a div 2 ^ k < 2 ^ (32 - k)"
      using unat_bound[of a] assms by (simp add: less_mult_imp_div_less flip: power_add)
    then have "(unat a div 2 ^ k + 1) * 2 ^ k \<le> 2 ^ (32 - k) * 2 ^ k" by (intro mult_right_mono) auto
    also have "\<dots> = 2 ^ 32" using assms by (simp flip: power_add)
    finally have "unat a div 2 ^ k * 2 ^ k + 2 ^ k \<le> 2 ^ 32" by (simp add: algebra_simps)
    moreover have "0 < (2 :: nat) ^ k" by simp
    ultimately show ?thesis by linarith
  qed
  ultimately show ?thesis
    using unat_clear_low[OF assms, of a] unat_mask[OF assms] by (simp add: unat_word_ariths(1))
qed

lemma root_bits: "unat (drop_bit (32 - Lroot - 5) (a AND 0x07ffffff :: u32)) = rootfield (unat a)"
proof -
  have "(0x07ffffff :: u32) = mask 27" by (simp add: mask_eq_exp_minus_1)
  then have "a AND 0x07ffffff = take_bit 27 a" by (simp only: take_bit_eq_mask)
  moreover have "unat (drop_bit 17 (take_bit 27 a)) = drop_bit 17 (take_bit 27 (unat a))"
    by (simp only: unsigned_drop_bit_eq unsigned_take_bit_eq take_bit_take_bit) simp
  ultimately show ?thesis by (simp only: Lroot_def) (simp add: rootfield_def drop_bit_eq_div take_bit_eq_mod)
qed

interpretation v4: addr_family unat V4H
  by unfold_locales (simp add: word_less_nat_alt, simp only: V4H_def root_bits)

text \<open>The mask of a prefix with \<open>k\<close> host bits.\<close>

definition hostmask :: "nat \<Rightarrow> u32" where
  "hostmask k = NOT (mask k)"

lemma hostmask_prefix:
  assumes "k \<le> 32"
  shows "is_prefix unat (a AND hostmask k, (a AND hostmask k) OR NOT (hostmask k)) k"
  unfolding is_prefix_def fst_conv snd_conv hostmask_def bit.double_compl
  using unat_clear_low[OF assms] unat_set_low[OF assms] by blast

section \<open>Version 6\<close>

fun val6 :: "v6addr \<Rightarrow> nat" where
  "val6 (V6addr a b c d) = ((unat a * 2 ^ 32 + unat b) * 2 ^ 32 + unat c) * 2 ^ 32 + unat d"

lemma lex_digit:
  fixes x y u v :: nat
  assumes "u < 2 ^ 32" and "v < 2 ^ 32"
  shows "x * 2 ^ 32 + u < y * 2 ^ 32 + v \<longleftrightarrow> x < y \<or> x = y \<and> u < v"
proof -
  have "x < y \<Longrightarrow> x * 2 ^ 32 + 2 ^ 32 \<le> y * 2 ^ 32" "y < x \<Longrightarrow> y * 2 ^ 32 + 2 ^ 32 \<le> x * 2 ^ 32" by simp_all
  then show ?thesis using assms by (cases x y rule: linorder_cases) auto
qed

lemma eq_digit:
  fixes x y u v :: nat
  assumes "u < 2 ^ 32" and "v < 2 ^ 32"
  shows "x * 2 ^ 32 + u = y * 2 ^ 32 + v \<longleftrightarrow> x = y \<and> u = v"
  using lex_digit[OF assms, of x y] lex_digit[OF assms(2,1), of y x] by (auto simp: nat_neq_iff)

lemma val6_less: "a < b \<longleftrightarrow> val6 a < val6 b"
proof -
  obtain a1 a2 a3 a4 b1 b2 b3 b4 where ab: "a = V6addr a1 a2 a3 a4" "b = V6addr b1 b2 b3 b4"
    by (metis v6addr.exhaust)
  have "val6 a < val6 b \<longleftrightarrow> a1 < b1 \<or> a1 = b1 \<and> (a2 < b2 \<or> a2 = b2 \<and> (a3 < b3 \<or> a3 = b3 \<and> a4 < b4))"
    unfolding ab val6.simps
    by (simp only: lex_digit eq_digit unat_bound) (auto simp: word_less_nat_alt word_unat_eq_iff)
  also have "\<dots> \<longleftrightarrow> a < b" unfolding ab by (auto simp: less_v6addr_def lcmp_def)
  finally show ?thesis by simp
qed

lemma rootfield_low: "rootfield (x * 2 ^ 32 + y) = rootfield y"
proof -
  have "x * 2 ^ 32 + y = y + (x * 2 ^ 5) * 2 ^ 27" by simp
  then show ?thesis by (simp only: rootfield_def mod_mult_self1)
qed

lemma V6H_field: "V6H a = rootfield (val6 a)"
  by (cases a) (simp only: V6H.simps val6.simps rootfield_low root_bits)

interpretation v6: addr_family val6 V6H
  by unfold_locales (rule val6_less, rule V6H_field)

definition hostmask6 :: "nat \<Rightarrow> v6addr" where
  "hostmask6 k = V6addr (hostmask (k - 96)) (hostmask (min 32 (k - 64))) (hostmask (min 32 (k - 32))) (hostmask (min 32 k))"

definition clr :: "nat \<Rightarrow> nat \<Rightarrow> nat" where
  "clr k x = x div 2 ^ k * 2 ^ k"

lemma clr_digit:
  fixes x u :: nat
  assumes "u < 2 ^ 32"
  shows "clr k (x * 2 ^ 32 + u) = clr (k - 32) x * 2 ^ 32 + clr (min 32 k) u"
proof (cases "k \<le> 32")
  case True
  then have "(2 :: nat) ^ 32 = 2 ^ (32 - k) * 2 ^ k" by (simp flip: power_add)
  then have "x * 2 ^ 32 + u = x * 2 ^ (32 - k) * 2 ^ k + u" by simp
  then have "(x * 2 ^ 32 + u) div 2 ^ k = x * 2 ^ (32 - k) + u div 2 ^ k" by (simp only: div_mult_self3) simp
  then show ?thesis using True \<open>(2 :: nat) ^ 32 = 2 ^ (32 - k) * 2 ^ k\<close>
    by (simp add: clr_def algebra_simps min_absorb2)
next
  case False
  then obtain j where j: "k = 32 + j" using le_Suc_ex[of 32 k] by auto
  have "(x * 2 ^ 32 + u) div 2 ^ k = x div 2 ^ j" using assms by (simp add: j power_add div_mult2_eq)
  then show ?thesis using assms False by (simp add: clr_def j power_add)
qed

lemma low_digit: "(2 :: nat) ^ k - 1 = (2 ^ (k - 32) - 1) * 2 ^ 32 + (2 ^ min 32 k - 1)"
proof (cases "k \<le> 32")
  case False
  then obtain j where j: "k = 32 + j" using le_Suc_ex[of 32 k] by auto
  obtain i where "(2 :: nat) ^ j = Suc i" by (metis Suc_pred' zero_less_numeral zero_less_power)
  then show ?thesis by (simp add: j power_add)
qed (simp add: min_absorb2)

lemma clr_word: "k \<le> 32 \<Longrightarrow> unat (a AND hostmask k) = clr k (unat (a :: u32))"
  using unat_clear_low by (simp add: hostmask_def clr_def)

lemma low_word: "k \<le> 32 \<Longrightarrow> unat (a OR NOT (hostmask k)) = clr k (unat (a :: u32)) + (2 ^ k - 1)"
proof -
  assume k: "k \<le> 32"
  have "a OR NOT (hostmask k) = a AND NOT (mask k) OR mask k" by (auto simp: hostmask_def bit_eq_iff bit_simps)
  then show ?thesis using unat_set_low[OF k, of a] by (simp add: clr_def)
qed

lemma hostmask6_prefix:
  assumes "k \<le> 128"
  shows "is_prefix val6 (and6 a (hostmask6 k), ornot6 a (hostmask6 k)) k"
proof -
  obtain w x y z where a: "a = V6addr w x y z" by (cases a)
  have k: "k - 96 \<le> 32" "k - 64 - 32 = k - 96" "k - 32 - 32 = k - 64" using assms by auto
  have "val6 (and6 a (hostmask6 k)) = clr k (val6 a)"
    using k by (simp only: a hostmask6_def and6.simps val6.simps clr_word min.cobounded1 clr_digit unat_bound)
  moreover have "val6 (ornot6 a (hostmask6 k)) = clr k (val6 a) + (2 ^ k - 1)"
  proof -
    have "val6 (ornot6 a (hostmask6 k)) =
      (((clr (k - 96) (unat w) + (2 ^ (k - 96) - 1)) * 2 ^ 32 + (clr (min 32 (k - 64)) (unat x) + (2 ^ min 32 (k - 64) - 1))) * 2 ^ 32
        + (clr (min 32 (k - 32)) (unat y) + (2 ^ min 32 (k - 32) - 1))) * 2 ^ 32 + (clr (min 32 k) (unat z) + (2 ^ min 32 k - 1))"
      using k(1) by (simp only: a hostmask6_def ornot6.simps val6.simps low_word min.cobounded1)
    also have "\<dots> = clr k (val6 a) + (2 ^ k - 1)"
      unfolding low_digit[of k] low_digit[of "k - 32", unfolded k(3)] low_digit[of "k - 64", unfolded k(2)] a val6.simps
      by (simp only: clr_digit unat_bound k(2,3)) (simp only: add_mult_distrib add_mult_distrib2 ac_simps)
    finally show ?thesis .
  qed
  ultimately show ?thesis unfolding is_prefix_def fst_conv snd_conv clr_def by blast
qed

section \<open>The operations on the tables\<close>

definition v4table :: "rfs \<Rightarrow> (u32 \<times> u32 \<rightharpoonup> rinfo) \<Rightarrow> bool" where
  "v4table f M \<longleftrightarrow> table V4H (v4root f) M \<and> prefixes unat M"

definition v6table :: "rfs \<Rightarrow> (v6addr \<times> v6addr \<rightharpoonup> rinfo) \<Rightarrow> bool" where
  "v6table f M \<longleftrightarrow> table V6H (v6root f) M \<and> prefixes val6 M"

definition rfs0 :: rfs where
  "rfs0 = \<lparr>v4root = (\<lambda>_. RNil), v6root = (\<lambda>_. RNil), v4routegeneration = 0, v6routegeneration = 0,
     ifcids = (\<lambda>_. 0), ifcx = (\<lambda>_. 0)\<rparr>"

lemma table_empty [simp]: "v4table rfs0 Map.empty" "v6table rfs0 Map.empty"
  by (simp_all add: v4table_def v6table_def table_def rootinv_def prefixes_def rfs0_def)

lemma allocroute_fields [simp]:
  "rrange (allocroute ty sa ea gt tg) = (sa, ea)" "address (allocroute ty sa ea gt tg) = sa"
  "endaddress (allocroute ty sa ea gt tg) = ea" "info (allocroute ty sa ea gt tg) = (gt, ty, 1, take 4 tg)"
  by (simp_all add: allocroute_def rrange_def info_def)

text \<open>
  C14: \<open>v4addroute\<close> with a contiguous mask always finishes, the reinsertion of displaced routes
  included, and implements adding the prefix to the abstract table: a new entry, or the
  entry that is there superseded, or its reference count raised for an interface route.
\<close>

theorem v4addroute_refines:
  assumes "v4table f M" and "k \<le> 32"
  shows "\<exists>f'. v4addroute f tg a (hostmask k) gt ty = Some (f', Ipifcaddroute4 a (hostmask k) gt ty)
    \<and> v4table f' (spec_add M (a AND hostmask k, (a AND hostmask k) OR NOT (hostmask k)) (gt, Rv4 OR ty, 1, take 4 tg))
    \<and> v6root f' = v6root f \<and> v4routegeneration f' = v4routegeneration f + 1"
proof -
  let ?sa = "a AND hostmask k" let ?ea = "?sa OR NOT (hostmask k)"
  let ?p = "allocroute (Rv4 OR ty) ?sa ?ea gt tg"
  have p: "is_prefix unat (rrange ?p) k" using hostmask_prefix[OF assms(2)] by simp
  obtain roots' where "forroots [V4H ?sa..<V4H ?ea + 1] (\<lambda>t. addto t ?p) (v4root f) = Some roots'"
    "table V4H roots' (spec_add M (?sa, ?ea) (gt, Rv4 OR ty, 1, take 4 tg))"
    "prefixes unat (spec_add M (?sa, ?ea) (gt, Rv4 OR ty, 1, take 4 tg))"
    using v4.table_add[OF _ _ p] assms(1) unfolding v4table_def allocroute_fields by blast
  then show ?thesis by (simp add: v4addroute_def Let_def v4table_def)
qed

lemma v4addroute_refines_witness:
  "\<exists>f'. v4addroute rfs0 ''none'' 0x0a010203 (hostmask 8) [1, 2, 3, 4] 0 = Some (f', Ipifcaddroute4 0x0a010203 (hostmask 8) [1, 2, 3, 4] 0)
    \<and> v4table f' (spec_add Map.empty (0x0a010203 AND hostmask 8, (0x0a010203 AND hostmask 8) OR NOT (hostmask 8))
        ([1, 2, 3, 4], Rv4 OR 0, 1, ''none''))
    \<and> v6root f' = v6root rfs0 \<and> v4routegeneration f' = v4routegeneration rfs0 + 1"
  using v4addroute_refines[of rfs0 Map.empty 8 "''none''" "0x0a010203" "[1, 2, 3, 4]" 0] by simp

text \<open>A table with one host route.\<close>

definition route1 :: "u32 \<Rightarrow> u32 route" where
  "route1 a = allocroute Rv4 a a [192, 168, 0, 1] ''none''"

definition rfs1 :: "u32 \<Rightarrow> rfs" where
  "rfs1 a = rfs0\<lparr>v4root := (\<lambda>h. if h = V4H a then RNode RNil RNil RNil (route1 a) 1 else RNil)\<rparr>"

definition map1 :: "u32 \<Rightarrow> (u32 \<times> u32 \<rightharpoonup> rinfo)" where
  "map1 a = [(a, a) \<mapsto> info (route1 a)]"

lemma rfs1_table: "v4table (rfs1 a) (map1 a)"
proof -
  have "is_prefix unat (a, a) 0" by (simp add: is_prefix_def)
  then show ?thesis
    by (auto simp: v4table_def table_def rootinv_def rfs1_def map1_def route1_def inroot_def valid_def prefixes_def)
qed

text \<open>
  C15: \<open>v4delroute\<close> with a contiguous mask always finishes and implements removing the prefix: the
  entry goes when its count reaches zero and the routes it contained stay, every other entry
  is untouched.
\<close>

theorem v4delroute_refines:
  assumes "v4table f M" and "k \<le> 32"
  shows "\<exists>f'. v4delroute f a (hostmask k) = Some (f', Ipifcremroute4 a (hostmask k))
    \<and> v4table f' (spec_del M (a AND hostmask k, (a AND hostmask k) OR NOT (hostmask k)))
    \<and> v6root f' = v6root f \<and> v4routegeneration f' = v4routegeneration f + 1"
proof -
  let ?sa = "a AND hostmask k" let ?ea = "?sa OR NOT (hostmask k)"
  let ?p = "allocroute Rv4 ?sa ?ea [] []"
  have p: "is_prefix unat (rrange ?p) k" using hostmask_prefix[OF assms(2)] by simp
  obtain roots' where "forroots [V4H ?sa..<V4H ?ea + 1] (\<lambda>t. delfrom t ?p) (v4root f) = Some roots'"
    "table V4H roots' (spec_del M (?sa, ?ea))" "prefixes unat (spec_del M (?sa, ?ea))"
    using v4.table_del[OF _ _ p] assms(1) unfolding v4table_def allocroute_fields by blast
  then show ?thesis by (simp add: v4delroute_def Let_def v4table_def)
qed

lemma v4delroute_refines_witness:
  "\<exists>f'. v4delroute (rfs1 0x0a010203) 0x0a010203 (hostmask 0) = Some (f', Ipifcremroute4 0x0a010203 (hostmask 0))
    \<and> (0x0a010203, 0x0a010203) \<in> dom (map1 0x0a010203) \<and> v4table f' Map.empty"
proof -
  have m: "hostmask 0 = - 1" by (simp add: hostmask_def)
  have "spec_del (map1 0x0a010203) (0x0a010203, 0x0a010203) = Map.empty"
    by (simp add: spec_del_def map1_def info_def route1_def allocroute_def)
  then show ?thesis using v4delroute_refines[OF rfs1_table, of 0 "0x0a010203" "0x0a010203"]
    by (auto simp: m) (simp add: map1_def info_def)
qed

text \<open>
  \<open>v6addroute\<close> with a contiguous mask implements adding the prefix, as for version 4.
\<close>

lemma v6addroute_refines:
  assumes "v6table f M" and "k \<le> 128"
  shows "\<exists>f'. v6addroute f tg a (hostmask6 k) gt ty = Some (f', Ipifcaddroute6 a (hostmask6 k) gt ty)
    \<and> v6table f' (spec_add M (and6 a (hostmask6 k), ornot6 a (hostmask6 k)) (gt, ty, 1, take 4 tg))
    \<and> v4root f' = v4root f \<and> v6routegeneration f' = v6routegeneration f + 1"
proof -
  let ?sa = "and6 a (hostmask6 k)" and ?ea = "ornot6 a (hostmask6 k)"
  let ?p = "allocroute ty ?sa ?ea gt tg"
  have p: "is_prefix val6 (rrange ?p) k" using hostmask6_prefix[OF assms(2)] by simp
  obtain roots' where "forroots [V6H ?sa..<V6H ?ea + 1] (\<lambda>t. addto t ?p) (v6root f) = Some roots'"
    "table V6H roots' (spec_add M (?sa, ?ea) (gt, ty, 1, take 4 tg))"
    "prefixes val6 (spec_add M (?sa, ?ea) (gt, ty, 1, take 4 tg))"
    using v6.table_add[OF _ _ p] assms(1) unfolding v6table_def allocroute_fields by blast
  then show ?thesis by (simp add: v6addroute_def Let_def v6table_def)
qed

text \<open>
  \<open>v6delroute\<close> with a contiguous mask implements removing the prefix, as for version 4.
\<close>

lemma v6delroute_refines:
  assumes "v6table f M" and "k \<le> 128"
  shows "\<exists>f'. v6delroute f a (hostmask6 k) = Some (f', Ipifcremroute6 a (hostmask6 k))
    \<and> v6table f' (spec_del M (and6 a (hostmask6 k), ornot6 a (hostmask6 k)))
    \<and> v4root f' = v4root f \<and> v6routegeneration f' = v6routegeneration f + 1"
proof -
  let ?sa = "and6 a (hostmask6 k)" and ?ea = "ornot6 a (hostmask6 k)"
  let ?p = "allocroute 0 ?sa ?ea [] []"
  have p: "is_prefix val6 (rrange ?p) k" using hostmask6_prefix[OF assms(2)] by simp
  obtain roots' where "forroots [V6H ?sa..<V6H ?ea + 1] (\<lambda>t. delfrom t ?p) (v6root f) = Some roots'"
    "table V6H roots' (spec_del M (?sa, ?ea))" "prefixes val6 (spec_del M (?sa, ?ea))"
    using v6.table_del[OF _ _ p] assms(1) unfolding v6table_def allocroute_fields by blast
  then show ?thesis by (simp add: v6delroute_def Let_def v6table_def)
qed

section \<open>Lookup through the caches\<close>

lemma rderef_lookpath: "lookpath t la = Some ds \<Longrightarrow> rderef t ds \<noteq> RNil"
  by (induction t arbitrary: ds) (auto split: if_splits option.splits)

text \<open>Bringing the interface of a node up to date changes no route.\<close>

lemma rootinv_setifc:
  assumes inv: "rootinv H M h t" and "setifc fi ids t ds = Some t'"
  shows "rootinv H M h t' \<and> rrange (node (rderef t' ds)) = rrange (node (rderef t ds))
    \<and> (rderef t ds \<noteq> RNil \<longrightarrow> ifc (node (rderef t' ds)) \<noteq> None)"
proof -
  consider "t' = t" "rderef t ds = RNil \<or> ifc (node (rderef t ds)) \<noteq> None"
    | l m r q d i where "rderef t ds = RNode l m r q d"
      "t' = rstore t ds (RNode l m r (q\<lparr>ifc := Some i, ifcid := ids i\<rparr>) d)"
    using assms(2) by (auto simp: setifc_def split: rtree.splits if_splits option.splits)
  then show ?thesis
  proof cases
    case 1
    then show ?thesis using inv by auto
  next
    case e: (2 l m r q d i)
    let ?q = "q\<lparr>ifc := Some i, ifcid := ids i\<rparr>"
    note w = rootinvD(1)[OF inv]
    have "wft (RNode l m r ?q d)" using wft_rderef[OF w, of ds] e(1) by (simp add: valid_def inside_def)
    then have w': "wft t'" using wft_rstore[OF w, of "RNode l m r ?q d" ds] e by (auto simp: same_def)
    have nd: "add_mset q (nodes t') = add_mset ?q (nodes t)"
      using rstore_nodes[of t ds "RNode l m r ?q d"] e by simp
    have same: "rrange ?q = rrange q" "info ?q = info q" by (simp_all add: rrange_def info_def)
    have im: "(\<lambda>x. (rrange x, info x)) ` set_mset (nodes t') = (\<lambda>x. (rrange x, info x)) ` set_mset (nodes t)"
    proof -
      obtain N where N: "nodes t = add_mset q N" using rderef_subset[of t ds] e(1) by (auto dest: multi_member_split)
      then have "nodes t' = add_mset ?q N" using nd by simp
      then show ?thesis using N same by simp
    qed
    have "rootinv H M h t'"
    proof (rule rootinvI[OF w'])
      fix x assume "x \<in># nodes t'"
      then have "(rrange x, info x) \<in> (\<lambda>x. (rrange x, info x)) ` set_mset (nodes t)" unfolding im[symmetric] by blast
      then obtain y where "y \<in># nodes t" "rrange x = rrange y" "info x = info y" by blast
      then show "M (rrange x) = Some (info x) \<and> inroot H h (rrange x)" using rootinvD(2,3)[OF inv] by simp
    next
      fix r assume r: "r \<in> dom M" "inroot H h r"
      then obtain i where "M r = Some i" by blast
      from rootinvD(4)[OF inv this r(2)] obtain y where "y \<in># nodes t" "rrange y = r" by blast
      then have "(r, info y) \<in> (\<lambda>x. (rrange x, info x)) ` set_mset (nodes t')" unfolding im by blast
      then show "\<exists>x \<in># nodes t'. rrange x = r" by blast
    qed
    moreover have "rderef t' ds = RNode l m r ?q d"
      unfolding e(2) using e(1) by (induction t ds rule: rderef.induct) auto
    ultimately show ?thesis using e(1) same by simp
  qed
qed

lemma lookup_node:
  assumes "table H roots M" and "lookpath (roots h) la = Some ds" and "setifc fi ids (roots h) ds = Some t"
  shows "table H (roots(h := t)) M" and "lookfrom (roots h) la None = Some (node (rderef (roots h) ds))"
    and "rrange (node (rderef t ds)) = rrange (node (rderef (roots h) ds))" and "ifc (node (rderef t ds)) \<noteq> None"
proof -
  have inv: "rootinv H M h (roots h)" using assms(1) by (simp add: table_def)
  note s = rootinv_setifc[OF inv assms(3)]
  show "table H (roots(h := t)) M" using assms(1) s by (auto simp: table_def)
  show "lookfrom (roots h) la None = Some (node (rderef (roots h) ds))"
    using lookpath_lookfrom[of "roots h" la] assms(2) by simp
  show "rrange (node (rderef t ds)) = rrange (node (rderef (roots h) ds))" using s by blast
  show "ifc (node (rderef t ds)) \<noteq> None" using s rderef_lookpath[OF assms(2)] by blast
qed

text \<open>The interface: nil is returned when none is found for the node, else the node has a current one.\<close>

lemma setifc_None:
  assumes "setifc fi ids t ds = None"
  shows "node (rderef t ds) \<in># nodes t" and "fi (node (rderef t ds)) = None"
    and "ifc (node (rderef t ds)) = None \<or> ifcid (node (rderef t ds)) \<noteq> ids (the (ifc (node (rderef t ds))))"
  using assms rderef_subset[of t ds] by (auto simp: setifc_def split: rtree.splits if_splits option.splits)

lemma gateof_ifc: "findipifc (gateof (q\<lparr>ifc := i, ifcid := j\<rparr>)) (rtype (q\<lparr>ifc := i, ifcid := j\<rparr>)) = findipifc (gateof q) (rtype q)"
  by (simp add: gateof_def)

lemma setifc_Some:
  assumes "setifc fi ids t ds = Some t'" "rderef t ds \<noteq> RNil" "\<And>q i j. fi (q\<lparr>ifc := i, ifcid := j\<rparr>) = fi q"
  shows "node (rderef t' ds) \<in># nodes t' \<and> (\<exists>i. ifc (node (rderef t' ds)) = Some i \<and> ifcid (node (rderef t' ds)) = ids i
    \<and> (t' = t \<or> fi (node (rderef t' ds)) = Some i))"
proof -
  obtain l m r q d where t: "rderef t ds = RNode l m r q d" using assms(2) by (cases "rderef t ds") auto
  have st: "rderef (rstore t ds x) ds = x" for x using t by (induction t ds rule: rderef.induct) auto
  have mem: "rderef t' ds = RNode a b c y e \<Longrightarrow> y \<in># nodes t'" for a b c y e using rderef_subset[of t' ds] by auto
  consider "t' = t" "ifc q \<noteq> None" "ifcid q = ids (the (ifc q))"
    | i where "t' = rstore t ds (RNode l m r (q\<lparr>ifc := Some i, ifcid := ids i\<rparr>) d)" "fi q = Some i"
    using assms(1) t by (auto simp: setifc_def split: if_splits option.splits)
  then show ?thesis
  proof cases
    case 1
    then show ?thesis using t mem by auto
  next
    case (2 i)
    let ?q = "q\<lparr>ifc := Some i, ifcid := ids i\<rparr>"
    have "rderef t' ds = RNode l m r ?q d" using 2(1) st by simp
    then show ?thesis using mem[of l m r ?q d] 2(2) assms(3)[where q = q and i = "Some i" and j = "ids i"] by simp
  qed
qed

text \<open>
  C9: \<open>v4lookup\<close> without a cached route returns the most specific prefix of the table that holds
  the address, and its node then has an interface with that interface's current \<open>ifcid\<close>, either
  because it had one (then nothing is changed) or the one \<open>findipifc\<close> gives for the node's gateway (its
  own address on an interface route) and type. It returns nil only where no prefix holds the
  address, or where the node of the most specific prefix has no current interface and \<open>findipifc\<close> finds
  none for its gateway (or own address) and type. It changes no route.
\<close>

theorem v4lookup_longest_match:
  assumes "v4table f M" and "cachehit f c (v4routegeneration f) = None" and "v4lookup findipifc f la c = (r, f', c')"
  shows "v4table f' M \<and> (case r of
      Some p \<Rightarrow> \<exists>lo hi q i. p = P4 (V4H la) lo hi \<and> spec_look M la (Some (lo, hi))
        \<and> q \<in># nodes (v4root f' (V4H la)) \<and> rrange q = (lo, hi) \<and> ifc q = Some i \<and> ifcid q = ifcids f i
        \<and> (f' = f \<or> findipifc (gateof q) (rtype q) = Some i)
    | None \<Rightarrow> f' = f \<and> (spec_look M la None \<or>
        (\<exists>lo hi q. spec_look M la (Some (lo, hi)) \<and> q \<in># nodes (v4root f (V4H la)) \<and> rrange q = (lo, hi)
          \<and> (ifc q = None \<or> ifcid q \<noteq> ifcids f (the (ifc q)))
          \<and> findipifc (if flag_on (rtype q) Rifc then Inl lo else Inr (gate q)) (rtype q) = None)))"
proof -
  have tb: "table V4H (v4root f) M" "prefixes unat M" using assms(1) by (simp_all add: v4table_def)
  note sl = v4.table_look[OF tb, of la]
  show ?thesis
  proof (cases "lookpath (v4root f (V4H la)) la")
    case None
    then show ?thesis using assms sl lookpath_lookfrom[of "v4root f (V4H la)" la] by (auto simp: v4lookup_def)
  next
    case (Some ds)
    show ?thesis
    proof (cases "setifc (\<lambda>q. findipifc (gateof q) (rtype q)) (ifcids f) (v4root f (V4H la)) ds")
      case None
      let ?q = "node (rderef (v4root f (V4H la)) ds)"
      note q = setifc_None[OF None]
      have "lookfrom (v4root f (V4H la)) la None = Some ?q" using lookpath_lookfrom[of "v4root f (V4H la)" la] Some by simp
      then have "spec_look M la (Some (rrange ?q))" using sl by simp
      then have "\<exists>lo hi q. spec_look M la (Some (lo, hi)) \<and> q \<in># nodes (v4root f (V4H la)) \<and> rrange q = (lo, hi)
          \<and> (ifc q = None \<or> ifcid q \<noteq> ifcids f (the (ifc q)))
          \<and> findipifc (if flag_on (rtype q) Rifc then Inl lo else Inr (gate q)) (rtype q) = None"
        using q unfolding rrange_def gateof_def by blast
      moreover have "r = None" "f' = f" using assms Some None by (auto simp: v4lookup_def)
      ultimately show ?thesis using assms(1) by simp
    next
      case (Some t)
      note ln = lookup_node[OF tb(1) \<open>lookpath (v4root f (V4H la)) la = Some ds\<close> Some]
      have "r = Some (P4 (V4H la) (address (node (rderef t ds))) (endaddress (node (rderef t ds))))"
        "f' = f\<lparr>v4root := (v4root f)(V4H la := t)\<rparr>"
        using assms(2,3) Some \<open>lookpath (v4root f (V4H la)) la = Some ds\<close> by (auto simp: v4lookup_def Let_def)
      note rf = this
      let ?q = "node (rderef t ds)"
      obtain i where i: "?q \<in># nodes t" "ifc ?q = Some i" "ifcid ?q = ifcids f i"
        "t = v4root f (V4H la) \<or> findipifc (gateof ?q) (rtype ?q) = Some i"
        using setifc_Some[OF Some rderef_lookpath[OF \<open>lookpath (v4root f (V4H la)) la = Some ds\<close>] gateof_ifc] by blast
      have "f' = f \<or> findipifc (gateof ?q) (rtype ?q) = Some i" using i(4) rf(2) by auto
      moreover have "spec_look M la (Some (rrange ?q))" using sl ln(2,3) by simp
      moreover have "v4table f' M" using rf(2) ln(1) tb(2) by (simp add: v4table_def)
      ultimately show ?thesis using rf i(1-3) by (auto simp: rrange_def)
    qed
  qed
qed

lemma v4lookup_longest_match_witness:
  "\<exists>f'. v4lookup (\<lambda>_ _. Some 7) (rfs1 0x0a010203) 0x0a010203 None = (Some (P4 (V4H 0x0a010203) 0x0a010203 0x0a010203), f', None)
    \<and> v4table f' (map1 0x0a010203) \<and> spec_look (map1 0x0a010203) 0x0a010203 (Some (0x0a010203, 0x0a010203))"
proof -
  let ?a = "0x0a010203 :: u32"
  let ?f = "(rfs1 ?a)\<lparr>v4root := (v4root (rfs1 ?a))(V4H ?a := RNode RNil RNil RNil ((route1 ?a)\<lparr>ifc := Some 7, ifcid := 0\<rparr>) 1)\<rparr>"
  have e: "v4lookup (\<lambda>_ _. Some 7) (rfs1 ?a) ?a None = (Some (P4 (V4H ?a) ?a ?a), ?f, None)"
    by (simp add: v4lookup_def cachehit_def rfs1_def route1_def rfs0_def setifc_def Let_def allocroute_def)
  have "v4table (rfs1 ?a) (map1 ?a)" "cachehit (rfs1 ?a) None (v4routegeneration (rfs1 ?a)) = None"
    by (simp_all add: rfs1_table cachehit_def)
  from v4lookup_longest_match[OF this e] e show ?thesis by auto
qed

text \<open>
  the same for \<open>v6lookup\<close> on an address outside the version 4 prefix, whose word-by-word
  descent follows the order of the trees.
\<close>

lemma v6lookup_longest_match:
  assumes "v6table f M" and "cachehit f c (v6routegeneration f) = None"
    and "\<not> (x = 0 \<and> y = 0 \<and> z = 0xffff)" and "v6lookup findipifc4 findipifc f (V6addr x y z d) c = (r, f', c')"
  shows "v6table f' M \<and> (case r of
      Some p \<Rightarrow> \<exists>lo hi q i. p = P6 (V6H (V6addr x y z d)) lo hi \<and> spec_look M (V6addr x y z d) (Some (lo, hi))
        \<and> q \<in># nodes (v6root f' (V6H (V6addr x y z d))) \<and> rrange q = (lo, hi) \<and> ifc q = Some i \<and> ifcid q = ifcids f i
        \<and> (f' = f \<or> findipifc (gateof q) (rtype q) = Some i)
    | None \<Rightarrow> f' = f \<and> (spec_look M (V6addr x y z d) None \<or>
        (\<exists>lo hi q. spec_look M (V6addr x y z d) (Some (lo, hi)) \<and> q \<in># nodes (v6root f (V6H (V6addr x y z d))) \<and> rrange q = (lo, hi)
          \<and> (ifc q = None \<or> ifcid q \<noteq> ifcids f (the (ifc q)))
          \<and> findipifc (if flag_on (rtype q) Rifc then Inl lo else Inr (gate q)) (rtype q) = None)))"
proof -
  let ?a = "V6addr x y z d"
  let ?h = "V6H ?a"
  have tb: "table V6H (v6root f) M" "prefixes val6 M" using assms(1) by (simp_all add: v6table_def)
  note sl = v6.table_look[OF tb, of ?a]
  note def = assms(4)[unfolded v6lookup_def Let_def, simplified assms(3) if_False assms(2) v6addr.case prod.case, simplified]
  show ?thesis
  proof (cases "lookpath (v6root f ?h) ?a")
    case None
    then show ?thesis using assms def sl lookpath_lookfrom[of "v6root f ?h" ?a] by (auto simp: lookpath6_eq)
  next
    case (Some ds)
    show ?thesis
    proof (cases "setifc (\<lambda>q. findipifc (gateof q) (rtype q)) (ifcids f) (v6root f ?h) ds")
      case None
      let ?q = "node (rderef (v6root f ?h) ds)"
      note q = setifc_None[OF None]
      have "lookfrom (v6root f ?h) ?a None = Some ?q" using lookpath_lookfrom[of "v6root f ?h" ?a] Some by simp
      then have "spec_look M ?a (Some (rrange ?q))" using sl by simp
      then have "\<exists>lo hi q. spec_look M ?a (Some (lo, hi)) \<and> q \<in># nodes (v6root f ?h) \<and> rrange q = (lo, hi)
          \<and> (ifc q = None \<or> ifcid q \<noteq> ifcids f (the (ifc q)))
          \<and> findipifc (if flag_on (rtype q) Rifc then Inl lo else Inr (gate q)) (rtype q) = None"
        using q unfolding rrange_def gateof_def by blast
      moreover have "r = None" "f' = f" using def Some None by (auto simp: lookpath6_eq)
      ultimately show ?thesis using assms(1) by simp
    next
      case (Some t)
      note ln = lookup_node[OF tb(1) \<open>lookpath (v6root f ?h) ?a = Some ds\<close> Some]
      have "r = Some (P6 ?h (address (node (rderef t ds))) (endaddress (node (rderef t ds))))"
        "f' = f\<lparr>v6root := (v6root f)(?h := t)\<rparr>"
        using def Some \<open>lookpath (v6root f ?h) ?a = Some ds\<close> by (auto simp: lookpath6_eq Let_def)
      note rf = this
      let ?q = "node (rderef t ds)"
      obtain i where i: "?q \<in># nodes t" "ifc ?q = Some i" "ifcid ?q = ifcids f i"
        "t = v6root f ?h \<or> findipifc (gateof ?q) (rtype ?q) = Some i"
        using setifc_Some[OF Some rderef_lookpath[OF \<open>lookpath (v6root f ?h) ?a = Some ds\<close>] gateof_ifc] by blast
      have "f' = f \<or> findipifc (gateof ?q) (rtype ?q) = Some i" using i(4) rf(2) by auto
      moreover have "spec_look M ?a (Some (rrange ?q))" using sl ln(2,3) by simp
      moreover have "v6table f' M" using rf(2) ln(1) tb(2) by (simp add: v6table_def)
      ultimately show ?thesis using rf i(1-3) by (auto simp: rrange_def)
    qed
  qed
qed

section \<open>Listing and deleting what is listed\<close>

text \<open>
  \<open>delroute\<close> of a version 4 route, which goes through the address and mask \<open>convroute\<close> lists,
  removes exactly the range of that route.
\<close>

lemma delroute4_refines:
  assumes "v4table f M" and "rrange r \<in> dom M"
  shows "\<exists>f' c. delroute4 f r = Some (f', c) \<and> v4table f' (spec_del M (rrange r))"
proof -
  have "\<exists>k. is_prefix unat (rrange r) k" using assms unfolding v4table_def prefixes_def by blast
  then obtain k n where kn: "unat (address r) = n * 2 ^ k" "unat (endaddress r) = n * 2 ^ k + (2 ^ k - 1)"
    unfolding is_prefix_def rrange_def fst_conv snd_conv by blast
  have k: "k \<le> 32"
  proof (rule ccontr)
    assume "\<not> k \<le> 32"
    then have "2 ^ 33 \<le> (2 :: nat) ^ k" by (intro power_increasing) auto
    then have "(2 :: nat) ^ 32 \<le> 2 ^ k - 1" by simp
    then show False using kn(2) unat_bound[of "endaddress r"] by linarith
  qed
  let ?lo = "address r AND hostmask k"
  have lo: "?lo = address r" using unat_clear_low[OF k, of "address r"] kn(1)
    by (simp add: hostmask_def word_unat_eq_iff)
  have hi: "?lo OR NOT (hostmask k) = endaddress r"
    using unat_set_low[OF k, of "address r"] kn unfolding hostmask_def bit.double_compl by (simp add: word_unat_eq_iff)
  have "endaddress r XOR address r = mask k"
    unfolding hi[symmetric] unfolding hostmask_def
    by (subst (2) lo[symmetric, unfolded hostmask_def]) (auto simp: bit_eq_iff bit_simps)
  then have m: "NOT (endaddress r XOR address r) = hostmask k" by (simp add: hostmask_def)
  have p: "is_prefix unat (rrange (allocroute Rv4 (address r) (endaddress r) [] [])) k"
    using hostmask_prefix[OF k, of "address r"] by (simp add: lo hi[unfolded lo])
  obtain roots' where "forroots [V4H (address r)..<V4H (endaddress r) + 1] (\<lambda>t. delfrom t (allocroute Rv4 (address r) (endaddress r) [] []))
      (v4root f) = Some roots'" "table V4H roots' (spec_del M (rrange r))" "prefixes unat (spec_del M (rrange r))"
    using v4.table_del[OF _ _ p] assms(1) unfolding v4table_def allocroute_fields rrange_def by blast
  then show ?thesis
    by (simp add: delroute4_def convroute4_def m v4delroute_def Let_def lo hi[unfolded lo] v4table_def del: upt_Suc)
qed

text \<open>The routes of a tree in the order \<open>rr\<close> visits them.\<close>

fun visit :: "'a rtree \<Rightarrow> 'a route list" where
  "visit RNil = []"
| "visit (RNode l m r x d) = visit l @ [x] @ visit m @ visit r"

lemma mset_visit: "mset (visit t) = nodes t"
  by (induction t) auto

lemma rr_visit:
  "(\<And>s. \<not> full s) \<Longrightarrow> rr H full walk h t s = (fold walk (filter (\<lambda>x. H (address x) = h) (visit t)) s, True)"
  by (induction t arbitrary: s) auto

lemma walkroots_visit:
  "(\<And>s. \<not> full s) \<Longrightarrow> walkroots H full walk roots hs s
    = fold walk (concat (map (\<lambda>h. filter (\<lambda>x. H (address x) = h) (visit (roots h))) hs)) s"
  by (induction hs arbitrary: s) (simp_all add: rr_visit)

lemma distinct_visit: "wft t \<Longrightarrow> distinct (map rrange (visit t))"
proof (induction t)
  case (RNode l m r x d)
  have mem: "y \<in> set (visit u) \<longleftrightarrow> y \<in># nodes u" for y and u :: "'a rtree" by (metis mset_visit set_mset_mset)
  have w: "wft l" "wft m" "wft r" "\<forall>y \<in># nodes l. endaddress y < address x" "\<forall>y \<in># nodes m. inside y x"
    "\<forall>y \<in># nodes r. endaddress x < address y" using RNode.prems by auto
  have "rrange y \<noteq> rrange z" if "y \<in># nodes l" "z \<in># add_mset x (nodes m + nodes r)" for y z
    using no_same_elsewhere(1)[OF RNode.prems wft_valid[OF w(1) that(1)]] w(4) that by (auto simp: same_range)
  moreover have "rrange y \<noteq> rrange z" if "y \<in># nodes m" "z \<in># add_mset x (nodes l + nodes r)" for y z
    using no_same_elsewhere(3)[OF RNode.prems wft_valid[OF w(2) that(1)]] w(5) that by (auto simp: same_range)
  moreover have "rrange y \<noteq> rrange x" if "y \<in># nodes r" for y
    using no_same_elsewhere(2)[OF RNode.prems wft_valid[OF w(3) that]] w(6) that by (auto simp: same_range)
  ultimately show ?case using RNode.IH w(1-3) by (fastforce simp: mem)
qed simp

text \<open>
  a walk over the version 4 table that never fills its buffer visits every route once,
  although a route hangs from every root it covers.
\<close>

lemma walk_visits_once:
  assumes "v4table f M"
  shows "distinct (walkroots V4H (\<lambda>_. False) (\<lambda>x s. s @ [rrange x]) (v4root f) [0..<2 ^ Lroot] [])
    \<and> set (walkroots V4H (\<lambda>_. False) (\<lambda>x s. s @ [rrange x]) (v4root f) [0..<2 ^ Lroot] []) = dom M"
proof -
  define sel where "sel = (\<lambda>h. filter (\<lambda>x. V4H (address x) = h) (visit (v4root f h)))"
  have inv: "rootinv V4H M h (v4root f h)" for h using assms by (simp add: v4table_def table_def)
  have ap: "fold (\<lambda>x s. s @ [rrange x]) xs s = s @ map rrange xs" for xs and s :: "(u32 \<times> u32) list"
    by (induction xs arbitrary: s) auto
  have w: "walkroots V4H (\<lambda>_. False) (\<lambda>x s. s @ [rrange x]) (v4root f) [0..<2 ^ Lroot] []
      = concat (map (\<lambda>h. map rrange (sel h)) [0..<2 ^ Lroot])"
    by (simp add: walkroots_visit ap sel_def map_concat comp_def)
  have mem: "x \<in> set (visit (v4root f h)) \<longleftrightarrow> x \<in># nodes (v4root f h)" for x h by (metis mset_visit set_mset_mset)
  have dsel: "distinct (map rrange (sel h))" for h
    using distinct_visit[OF rootinvD(1)[OF inv[of h]]] by (simp add: sel_def distinct_map_filter)
  have "distinct (concat (map (\<lambda>h. map rrange (sel h)) hs))" if "distinct hs" for hs
    using that dsel by (induction hs) (auto simp: sel_def rrange_def)
  moreover have "set (concat (map (\<lambda>h. map rrange (sel h)) [0..<2 ^ Lroot])) = dom M"
  proof (intro set_eqI iffI)
    fix p assume "p \<in> set (concat (map (\<lambda>h. map rrange (sel h)) [0..<2 ^ Lroot]))"
    then obtain h x where "x \<in># nodes (v4root f h)" "p = rrange x" by (auto simp: sel_def mem)
    then show "p \<in> dom M" using rootinvD(2)[OF inv] by blast
  next
    fix p assume p: "p \<in> dom M"
    obtain lo hi i where e: "p = (lo, hi)" "M (lo, hi) = Some i" using p by (cases p) blast
    obtain k where "is_prefix unat (lo, hi) k" using assms p e(1) unfolding v4table_def prefixes_def by blast
    moreover have "lo \<le> hi" using calculation by (rule v4.prefix_le)
    ultimately have "inroot V4H (V4H lo) (lo, hi)" by (intro v4.prefix_cover) auto
    from rootinvD(4)[OF inv e(2) this] obtain x where "x \<in># nodes (v4root f (V4H lo))" "rrange x = (lo, hi)" by blast
    moreover have "V4H lo < 2 ^ Lroot" by (simp add: v4.H_field rootfield_def Lroot_def less_mult_imp_div_less)
    ultimately show "p \<in> set (concat (map (\<lambda>h. map rrange (sel h)) [0..<2 ^ Lroot]))"
      using e(1) by (force simp: sel_def mem rrange_def)
  qed
  ultimately show ?thesis unfolding w by simp
qed

end
