(* ===== verification/Ipht.thy ===== *)
theory Ipht
  imports Plan9_Prelude
begin

text \<open>
  The table that finds the conversation a packet is for (\<open>src/ip/ipaux.c\<close>, \<open>struct Ipht\<close> of
  \<open>src/ip/ip.h\<close>), which the transport protocols share.

  A conversation is a number; \<open>cv\<close> gives its addresses and ports. An address is a list of bytes. The
  table has the list of each bucket. The lock of the table makes each routine one step.
\<close>

section \<open>Data\<close>

record conv =
  laddr :: "u8 list"
  lport :: u16
  raddr :: "u8 list"
  rport :: u16

datatype ipmatch = IPmatchexact | IPmatchany | IPmatchport | IPmatchaddr | IPmatchpa

type_synonym ipht = "nat \<Rightarrow> (ipmatch \<times> nat) list"

definition IPaddrlen :: nat where "IPaddrlen = 16"
definition Nhash :: u32 where "Nhash = 64"

definition IPnoaddr :: "u8 list" where "IPnoaddr = replicate IPaddrlen 0"

text \<open>\<open>ipcmp(x, y) == 0\<close>.\<close>

definition ipeq :: "u8 list \<Rightarrow> u8 list \<Rightarrow> bool" where
  "ipeq x y \<longleftrightarrow> x ! (IPaddrlen - 1) = y ! (IPaddrlen - 1) \<and> take IPaddrlen x = take IPaddrlen y"

text \<open>Bytes and ports are promoted to unsigned words, as the compilers of the system do.\<close>

definition iphash :: "u8 list \<Rightarrow> u16 \<Rightarrow> u8 list \<Rightarrow> u16 \<Rightarrow> nat" where
  "iphash sa sp da dp =
    unat ((push_bit 24 (ucast (sa ! (IPaddrlen - 1))) XOR push_bit 16 (ucast sp) XOR push_bit 8 (ucast (da ! (IPaddrlen - 1))) XOR ucast dp :: u32)
          mod Nhash)"

section \<open>Operations\<close>

definition matchof :: "conv \<Rightarrow> ipmatch" where
  "matchof c =
    (if \<not> ipeq (raddr c) IPnoaddr then IPmatchexact
     else if \<not> ipeq (laddr c) IPnoaddr then if lport c = 0 then IPmatchaddr else IPmatchpa
     else if lport c = 0 then IPmatchany else IPmatchport)"

definition hashof :: "conv \<Rightarrow> nat" where
  "hashof c = iphash (raddr c) (rport c) (laddr c) (lport c)"

definition iphtadd :: "(nat \<Rightarrow> conv) \<Rightarrow> nat \<Rightarrow> ipht \<Rightarrow> ipht" where
  "iphtadd cv c ht = (let hv = hashof (cv c) in ht(hv := (matchof (cv c), c) # ht hv))"

fun unhash :: "nat \<Rightarrow> (ipmatch \<times> nat) list \<Rightarrow> (ipmatch \<times> nat) list" where
  "unhash c [] = []"
| "unhash c (h # hs) = (if snd h = c then hs else h # unhash c hs)"

definition iphtrem :: "(nat \<Rightarrow> conv) \<Rightarrow> nat \<Rightarrow> ipht \<Rightarrow> ipht" where
  "iphtrem cv c ht = (let hv = hashof (cv c) in ht(hv := unhash c (ht hv)))"

text \<open>One of the loops of \<open>iphtlook\<close>: the first entry of the kind that passes the test.\<close>

fun htfind :: "ipmatch \<Rightarrow> (nat \<Rightarrow> bool) \<Rightarrow> (ipmatch \<times> nat) list \<Rightarrow> nat option" where
  "htfind m ok [] = None"
| "htfind m ok ((match, c) # hs) = (if match \<noteq> m then htfind m ok hs else if ok c then Some c else htfind m ok hs)"

fun orelse :: "'a option \<Rightarrow> 'a option \<Rightarrow> 'a option" where
  "orelse (Some x) y = Some x"
| "orelse None y = y"

definition iphtlook :: "(nat \<Rightarrow> conv) \<Rightarrow> ipht \<Rightarrow> u8 list \<Rightarrow> u16 \<Rightarrow> u8 list \<Rightarrow> u16 \<Rightarrow> nat option" where
  "iphtlook cv ht sa sp da dp =
    orelse (htfind IPmatchexact (\<lambda>c. sp = rport (cv c) \<and> dp = lport (cv c) \<and> ipeq sa (raddr (cv c)) \<and> ipeq da (laddr (cv c)))
              (ht (iphash sa sp da dp)))
   (orelse (htfind IPmatchpa (\<lambda>c. dp = lport (cv c) \<and> ipeq da (laddr (cv c))) (ht (iphash IPnoaddr 0 da dp)))
   (orelse (htfind IPmatchport (\<lambda>c. dp = lport (cv c)) (ht (iphash IPnoaddr 0 IPnoaddr dp)))
   (orelse (htfind IPmatchaddr (\<lambda>c. ipeq da (laddr (cv c))) (ht (iphash IPnoaddr 0 da 0)))
           (htfind IPmatchany (\<lambda>c. True) (ht (iphash IPnoaddr 0 IPnoaddr 0))))))"

section \<open>Bounds\<close>

lemma iphash_less: "iphash sa sp da dp < 64"
proof -
  have "w mod Nhash < Nhash" for w by (rule word_mod_less_divisor) (simp add: Nhash_def)
  then show ?thesis unfolding iphash_def by (simp add: word_less_nat_alt Nhash_def)
qed

section \<open>The table without its buckets\<close>

text \<open>
  The abstraction: the conversations in the table, the latest first. Which one a packet is
  for is a matter of precedence and age only.
\<close>

definition bucketed :: "(nat \<Rightarrow> conv) \<Rightarrow> nat list \<Rightarrow> ipht \<Rightarrow> bool" where
  "bucketed cv cs ht \<longleftrightarrow> (\<forall>hv. ht hv = map (\<lambda>c. (matchof (cv c), c)) (filter (\<lambda>c. hashof (cv c) = hv) cs))"

definition spec_find :: "(nat \<Rightarrow> conv) \<Rightarrow> nat list \<Rightarrow> u8 list \<Rightarrow> u16 \<Rightarrow> u8 list \<Rightarrow> u16 \<Rightarrow> nat option" where
  "spec_find cv cs sa sp da dp =
    orelse (find (\<lambda>c. raddr (cv c) = sa \<and> rport (cv c) = sp \<and> laddr (cv c) = da \<and> lport (cv c) = dp \<and> sa \<noteq> IPnoaddr) cs)
   (orelse (find (\<lambda>c. raddr (cv c) = IPnoaddr \<and> laddr (cv c) = da \<and> lport (cv c) = dp \<and> da \<noteq> IPnoaddr \<and> dp \<noteq> 0) cs)
   (orelse (find (\<lambda>c. raddr (cv c) = IPnoaddr \<and> laddr (cv c) = IPnoaddr \<and> lport (cv c) = dp \<and> dp \<noteq> 0) cs)
   (orelse (find (\<lambda>c. raddr (cv c) = IPnoaddr \<and> laddr (cv c) = da \<and> lport (cv c) = 0 \<and> da \<noteq> IPnoaddr) cs)
           (find (\<lambda>c. raddr (cv c) = IPnoaddr \<and> laddr (cv c) = IPnoaddr \<and> lport (cv c) = 0) cs))))"

definition convs_ok :: "(nat \<Rightarrow> conv) \<Rightarrow> nat list \<Rightarrow> bool" where
  "convs_ok cv cs \<longleftrightarrow> (\<forall>c \<in> set cs. length (laddr (cv c)) = IPaddrlen \<and> length (raddr (cv c)) = IPaddrlen
     \<and> (raddr (cv c) = IPnoaddr \<longrightarrow> rport (cv c) = 0))"

lemma ipeq_iff: "length x = IPaddrlen \<Longrightarrow> length y = IPaddrlen \<Longrightarrow> ipeq x y \<longleftrightarrow> x = y"
  by (auto simp: ipeq_def)

lemma length_IPnoaddr [simp]: "length IPnoaddr = IPaddrlen"
  by (simp add: IPnoaddr_def)

lemma htfind_map: "htfind m ok (map (\<lambda>c. (matchof (cv c), c)) cs) = find (\<lambda>c. matchof (cv c) = m \<and> ok c) cs"
  by (induction cs) auto

lemma find_filter: "(\<And>x. x \<in> set xs \<Longrightarrow> P x \<Longrightarrow> Q x) \<Longrightarrow> find P (filter Q xs) = find P xs"
  by (induction xs) auto

lemma find_same: "(\<And>x. x \<in> set xs \<Longrightarrow> P x = P' x) \<Longrightarrow> find P xs = find P' xs"
  by (induction xs) auto

text \<open>A bucket holds every conversation that can match there.\<close>

lemma htfind_bucket:
  assumes "bucketed cv cs ht"
    and "\<And>c. c \<in> set cs \<Longrightarrow> P c \<longleftrightarrow> matchof (cv c) = m \<and> ok c"
    and "\<And>c. c \<in> set cs \<Longrightarrow> P c \<Longrightarrow> hashof (cv c) = hv"
  shows "htfind m ok (ht hv) = find P cs"
proof -
  have "htfind m ok (ht hv) = find (\<lambda>c. matchof (cv c) = m \<and> ok c) (filter (\<lambda>c. hashof (cv c) = hv) cs)"
    using assms(1) by (simp add: bucketed_def htfind_map)
  also have "\<dots> = find P (filter (\<lambda>c. hashof (cv c) = hv) cs)" using assms(2) by (intro find_same) auto
  also have "\<dots> = find P cs" using assms(3) by (intro find_filter) auto
  finally show ?thesis .
qed

lemma bucketed_empty: "bucketed cv [] (\<lambda>_. [])"
  by (simp add: bucketed_def)

lemma bucketed_add: "bucketed cv cs ht \<Longrightarrow> bucketed cv (c # cs) (iphtadd cv c ht)"
  by (auto simp: bucketed_def iphtadd_def Let_def)

lemma unhash_map:
  assumes "hashof (cv c) = hv"
  shows "unhash c (map (\<lambda>c. (matchof (cv c), c)) (filter (\<lambda>c. hashof (cv c) = hv) cs))
    = map (\<lambda>c. (matchof (cv c), c)) (filter (\<lambda>c. hashof (cv c) = hv) (remove1 c cs))"
  using assms by (induction cs) auto

lemma filter_remove1: "\<not> P c \<Longrightarrow> filter P (remove1 c cs) = filter P cs"
  by (induction cs) auto

lemma bucketed_rem: "bucketed cv cs ht \<Longrightarrow> bucketed cv (remove1 c cs) (iphtrem cv c ht)"
  by (auto simp: bucketed_def iphtrem_def Let_def unhash_map filter_remove1)

text \<open>
  C27: The hash table of conversations refines the list of them. Adding puts a conversation
  first, removing takes it out, and a look-up is, for conversations whose remote port is zero
  when their remote address is not set, the one the comment on \<open>iphtlook\<close> asks for: the latest
  connection of the four addresses and ports, else the latest announced on the local address
  and port, else on the port, else on the address, else on anything. Hashing loses none.\<close>

theorem iphtlook_refines:
  assumes "bucketed cv cs ht" and "convs_ok cv cs" and "length sa = IPaddrlen" and "length da = IPaddrlen"
  shows "bucketed cv (c # cs) (iphtadd cv c ht) \<and> bucketed cv (remove1 c cs) (iphtrem cv c ht)
    \<and> iphtlook cv ht sa sp da dp = spec_find cv cs sa sp da dp"
proof -
  note ok = assms(2)[unfolded convs_ok_def, rule_format]
  note d = matchof_def ipeq_iff assms(3,4)
  have "htfind IPmatchexact (\<lambda>c. sp = rport (cv c) \<and> dp = lport (cv c) \<and> ipeq sa (raddr (cv c)) \<and> ipeq da (laddr (cv c)))
      (ht (iphash sa sp da dp))
    = find (\<lambda>c. raddr (cv c) = sa \<and> rport (cv c) = sp \<and> laddr (cv c) = da \<and> lport (cv c) = dp \<and> sa \<noteq> IPnoaddr) cs"
    by (rule htfind_bucket[OF assms(1)]) (use ok in \<open>auto simp: d hashof_def\<close>)
  moreover have "htfind IPmatchpa (\<lambda>c. dp = lport (cv c) \<and> ipeq da (laddr (cv c))) (ht (iphash IPnoaddr 0 da dp))
    = find (\<lambda>c. raddr (cv c) = IPnoaddr \<and> laddr (cv c) = da \<and> lport (cv c) = dp \<and> da \<noteq> IPnoaddr \<and> dp \<noteq> 0) cs"
    by (rule htfind_bucket[OF assms(1)]) (use ok in \<open>auto simp: d hashof_def\<close>)
  moreover have "htfind IPmatchport (\<lambda>c. dp = lport (cv c)) (ht (iphash IPnoaddr 0 IPnoaddr dp))
    = find (\<lambda>c. raddr (cv c) = IPnoaddr \<and> laddr (cv c) = IPnoaddr \<and> lport (cv c) = dp \<and> dp \<noteq> 0) cs"
    by (rule htfind_bucket[OF assms(1)]) (use ok in \<open>auto simp: d hashof_def\<close>)
  moreover have "htfind IPmatchaddr (\<lambda>c. ipeq da (laddr (cv c))) (ht (iphash IPnoaddr 0 da 0))
    = find (\<lambda>c. raddr (cv c) = IPnoaddr \<and> laddr (cv c) = da \<and> lport (cv c) = 0 \<and> da \<noteq> IPnoaddr) cs"
    by (rule htfind_bucket[OF assms(1)]) (use ok in \<open>auto simp: d hashof_def\<close>)
  moreover have "htfind IPmatchany (\<lambda>c. True) (ht (iphash IPnoaddr 0 IPnoaddr 0))
    = find (\<lambda>c. raddr (cv c) = IPnoaddr \<and> laddr (cv c) = IPnoaddr \<and> lport (cv c) = 0) cs"
    by (rule htfind_bucket[OF assms(1)]) (use ok in \<open>auto simp: d hashof_def\<close>)
  ultimately show ?thesis using bucketed_add[OF assms(1)] bucketed_rem[OF assms(1)] by (simp add: iphtlook_def spec_find_def)
qed

definition cv0 :: "nat \<Rightarrow> conv" where
  "cv0 c = (if c = 0 then \<lparr>laddr = IPnoaddr, lport = 80, raddr = IPnoaddr, rport = 0\<rparr>
            else \<lparr>laddr = replicate 16 1, lport = 80, raddr = replicate 16 2, rport = 5000\<rparr>)"

theorem iphtlook_refines_witness:
  "iphtlook cv0 (iphtadd cv0 1 (iphtadd cv0 0 (\<lambda>_. []))) (replicate 16 2) 5000 (replicate 16 1) 80 = Some 1"
proof -
  have "convs_ok cv0 [1, 0]" by (simp add: convs_ok_def cv0_def IPaddrlen_def IPnoaddr_def)
  from iphtlook_refines[OF bucketed_add[OF bucketed_add[OF bucketed_empty]] this] show ?thesis
    by (simp add: spec_find_def IPaddrlen_def IPnoaddr_def cv0_def)
qed

end
