(* ===== verification/Ipsum.thy ===== *)
theory Ipsum
  imports BlockList
begin

text \<open>
  Internet checksums (\<open>src/ip/ptclbsum.c\<close>, \<open>ptclcsum\<close> of \<open>src/ip/ipaux.c\<close>, \<open>ipcsum\<close> of \<open>src/ip/ip.c\<close>)
  against the ones' complement sum of the protocol documents.

  The bytes at an address are a list, beside the address, whose parity the code looks at. \<open>little\<close>
  is the test \<open>LITTLE\<close> of the machine's byte order, which the loads of \<open>ushort\<close>s depend on as well.
\<close>

section \<open>The sum of a buffer\<close>

text \<open>\<open>*(ushort*)(addr+i)\<close>.\<close>

definition ushort_at :: "bool \<Rightarrow> u8 list \<Rightarrow> nat \<Rightarrow> u32" where
  "ushort_at little addr i =
    (let a = ucast (addr ! i); b = ucast (addr ! (i + 1)) in if little then a + 256 * b else 256 * a + b)"

text \<open>\<open>while(len >= 16)\<close> and \<open>while(len >= 2)\<close>: \<open>mdsum\<close> and what is left.\<close>

fun sum16s :: "bool \<Rightarrow> u8 list \<Rightarrow> u32 \<Rightarrow> u32 \<times> u8 list" where
  "sum16s little addr mdsum =
    (if length addr \<ge> 16 then
       let t = ushort_at little addr
       in sum16s little (drop 16 addr) (mdsum + t 0 + t 2 + t 4 + t 6 + t 8 + t 10 + t 12 + t 14)
     else (mdsum, addr))"

fun sum2s :: "bool \<Rightarrow> u8 list \<Rightarrow> u32 \<Rightarrow> u32 \<times> u8 list" where
  "sum2s little addr mdsum =
    (if length addr \<ge> 2 then sum2s little (drop 2 addr) (mdsum + ushort_at little addr 0) else (mdsum, addr))"

declare sum16s.simps [simp del] sum2s.simps [simp del]

text \<open>\<open>while(hisum = losum>>16) losum = hisum + (losum & 0xffff);\<close>\<close>

lemma unat_carry:
  fixes w :: u32
  shows "unat (drop_bit 16 w + (w AND 0xffff)) = unat w div 65536 + unat w mod 65536"
proof -
  have h: "unat (drop_bit 16 w) = unat w div 65536" by (simp add: drop_bit_eq_div unat_div)
  have "w AND 0xffff = take_bit 16 w" by (simp add: take_bit_eq_mask mask_eq_exp_minus_1)
  then have l: "unat (w AND 0xffff) = unat w mod 65536" by (simp add: take_bit_eq_mod unat_mod)
  have "unat w < 2 ^ 32" using unsigned_less[of w] by simp
  then have "unat w div 65536 + unat w mod 65536 < 2 ^ 32" by (simp add: less_mult_imp_div_less)
  then show ?thesis by (simp add: unat_word_ariths h l)
qed

lemma carry_decreases:
  fixes w :: u32
  assumes "drop_bit 16 w \<noteq> 0"
  shows "unat w div 65536 + unat w mod 65536 < unat w"
proof -
  have "unat (drop_bit 16 w) = unat w div 65536" by (simp add: drop_bit_eq_div unat_div)
  then have "unat w div 65536 \<noteq> 0" using assms by (metis unsigned_0 word_unat_eq_iff)
  then show ?thesis using div_mult_mod_eq[of "unat w" 65536] by linarith
qed

function fold16 :: "u32 \<Rightarrow> u32" where
  "fold16 losum = (let hisum = drop_bit 16 losum in if hisum \<noteq> 0 then fold16 (hisum + (losum AND 0xffff)) else losum)"
  by auto
termination by (relation "measure unat") (auto simp: unat_carry carry_decreases)

declare fold16.simps [simp del]

text \<open>The two sums are put together, the bytes of \<open>hisum\<close> swapped.\<close>

definition hilo :: "u32 \<Rightarrow> u32 \<Rightarrow> u32" where
  "hilo losum hisum = losum + drop_bit 8 hisum + push_bit 8 (hisum AND 0xff)"

definition ptclbsum :: "bool \<Rightarrow> nat \<Rightarrow> u8 list \<Rightarrow> u16" where
  "ptclbsum little a addr =
    (let x = odd a;
         hisum = (if x \<and> addr \<noteq> [] then ucast (hd addr) else 0);
         addr = (if x then tl addr else addr);
         (mdsum, addr) = sum16s little addr 0;
         (mdsum, addr) = sum2s little addr mdsum;
         last = (if addr \<noteq> [] then ucast (hd addr) else 0);
         (losum, hisum) =
           (if x then (if little then (last + mdsum, hisum) else (last, hisum + mdsum))
            else if little then (0, hisum + last + mdsum) else (mdsum, hisum + last))
     in ucast (fold16 (hilo losum hisum) AND 0xffff))"

section \<open>The sum of a chain\<close>

fun csumskip :: "block list \<Rightarrow> int \<Rightarrow> block list \<times> int" where
  "csumskip [] offset = ([], offset)"
| "csumskip (bp # bs) offset =
    (if offset \<noteq> 0 \<and> offset \<ge> BLEN bp then csumskip bs (offset - BLEN bp) else (bp # bs, offset))"

text \<open>\<open>len\<close> bytes at \<open>bp->rp + offset\<close>.\<close>

definition bytes_at :: "block \<Rightarrow> int \<Rightarrow> int \<Rightarrow> u8 list" where
  "bytes_at bp offset len = take (nat len) (drop (nat offset) (bdata bp))"

text \<open>\<open>while(len)\<close>, with the offset into the first block.\<close>

fun csumloop :: "bool \<Rightarrow> block list \<Rightarrow> int \<Rightarrow> int \<Rightarrow> bool \<Rightarrow> u32 \<Rightarrow> u32 \<Rightarrow> u32 \<times> u32" where
  "csumloop little [] offset len odd' losum hisum = (losum, hisum)"
| "csumloop little (bp # bs) offset len odd' losum hisum =
    (if len = 0 then (losum, hisum)
     else
       let blocklen = BLEN bp - offset;
           x = (if len < blocklen then len else blocklen);
           csum = ucast (ptclbsum little (rp bp + nat offset) (bytes_at bp offset x));
           (losum, hisum) = (if odd' then (losum, hisum + csum) else (losum + csum, hisum))
       in csumloop little bs 0 (len - x) (odd' \<noteq> odd x) losum hisum)"

definition ptclcsum :: "bool \<Rightarrow> block list \<Rightarrow> int \<Rightarrow> int \<Rightarrow> u16" where
  "ptclcsum little bs offset len =
    (case csumskip bs offset of
       ([], _) \<Rightarrow> 0
     | ([bp], offset) \<Rightarrow>
         let blocklen = BLEN bp - offset; len = (if blocklen < len then blocklen else len)
         in NOT (ptclbsum little (rp bp + nat offset) (bytes_at bp offset len))
     | (bs, offset) \<Rightarrow>
         (case csumloop little bs offset len False 0 0 of
            (losum, hisum) \<Rightarrow> ucast (NOT (fold16 (hilo losum hisum)) AND 0xffff)))"

section \<open>The sum of a header\<close>

fun hdrsum :: "nat \<Rightarrow> u8 list \<Rightarrow> u32 \<Rightarrow> u32" where
  "hdrsum len addr sm =
    (if len > 0 then hdrsum (len - 2) (drop 2 addr) (sm + (push_bit 8 (ucast (addr ! 0)) OR ucast (addr ! 1))) else sm)"

declare hdrsum.simps [simp del]

definition ipcsum :: "u8 list \<Rightarrow> u16" where
  "ipcsum addr =
    (let len = unat (push_bit 2 (addr ! 0 AND 0xf));
         sm = hdrsum len addr 0;
         sm = (sm AND 0xffff) + drop_bit 16 sm;
         sm = (sm AND 0xffff) + drop_bit 16 sm
     in ucast (sm XOR 0xffff))"

section \<open>The reference\<close>

text \<open>
  The ones' complement sum. A byte has the weight 256 or 1 by its position, \<open>lo\<close> telling that the first
  one has the weight 1; \<open>ones\<close> adds the carries back in until the number fits 16 bits.
\<close>

fun wsum :: "bool \<Rightarrow> u8 list \<Rightarrow> nat" where
  "wsum lo [] = 0"
| "wsum lo (b # bs) = (if lo then 1 else 256) * unat b + wsum (\<not> lo) bs"

definition ones :: "nat \<Rightarrow> nat" where
  "ones n = (if n = 0 then 0 else (n - 1) mod 65535 + 1)"

definition onesum :: "u8 list \<Rightarrow> u16" where
  "onesum bs = of_nat (ones (wsum False bs))"

lemma ones_mod: "ones n mod 65535 = n mod 65535"
  by (cases n) (simp_all add: ones_def mod_Suc_eq)

lemma ones_le: "ones n \<le> 65535"
  by (simp add: ones_def Suc_le_eq)

lemma ones_eq_0 [simp]: "ones n = 0 \<longleftrightarrow> n = 0"
  by (simp add: ones_def)

lemma ones_cong:
  assumes "a mod 65535 = b mod 65535" and "a = 0 \<longleftrightarrow> b = 0"
  shows "ones a = ones b"
proof (cases a; cases b)
  fix i j
  assume ab: "a = Suc i" "b = Suc j"
  then have "i mod 65535 = j mod 65535" using assms(1) by (simp add: mod_Suc split: if_splits)
  then show ?thesis using ab by (simp add: ones_def)
qed (use assms in auto)

lemma ones_small: "n \<le> 65535 \<Longrightarrow> ones n = n"
  by (auto simp: ones_def)

lemma ones_carry: "ones (n div 65536 + n mod 65536) = ones n"
proof (rule ones_cong)
  have "n = 65535 * (n div 65536) + (n div 65536 + n mod 65536)" using div_mult_mod_eq[of n 65536] by linarith
  then show "(n div 65536 + n mod 65536) mod 65535 = n mod 65535" by (metis mod_mult_self4)
  show "(n div 65536 + n mod 65536 = 0) = (n = 0)" using div_mult_mod_eq[of n 65536] by auto
qed

lemma unat_fold16: "unat (fold16 w) = ones (unat w)"
proof (induction w rule: fold16.induct)
  case (1 w)
  show ?case
  proof (cases "drop_bit 16 w = 0")
    case True
    moreover have "unat (drop_bit 16 w) = unat w div 65536" by (simp add: drop_bit_eq_div unat_div)
    ultimately have "unat w div 65536 = 0" by simp
    then show ?thesis using True by (simp add: fold16.simps[of w] ones_small)
  next
    case False
    then show ?thesis using 1 unat_carry[of w] ones_carry by (simp add: fold16.simps[of w])
  qed
qed

lemma low_fold16: "unat (ucast (fold16 w AND 0xffff) :: u16) = ones (unat w)"
proof -
  have "fold16 w AND 0xffff = take_bit 16 (fold16 w)" by (simp add: take_bit_eq_mask mask_eq_exp_minus_1)
  then show ?thesis using ones_le[of "unat w"]
    by (simp add: unsigned_ucast_eq unat_fold16 take_bit_eq_mod unat_mod)
qed

lemma wsum_append: "wsum lo (xs @ ys) = wsum lo xs + wsum (lo \<noteq> odd (length xs)) ys"
proof (induction xs arbitrary: lo)
  case (Cons x xs)
  have "((\<not> lo) \<noteq> odd (length xs)) = (lo \<noteq> odd (length (x # xs)))" by auto
  then show ?case using Cons[of "\<not> lo"] by simp
qed simp

lemma wsum_flip: "256 * wsum lo bs mod 65535 = wsum (\<not> lo) bs mod 65535"
proof (induction bs arbitrary: lo)
  case (Cons b bs)
  have "256 * wsum lo (b # bs) mod 65535 = ((if lo then 256 else 65536) * unat b + 256 * wsum (\<not> lo) bs) mod 65535"
    by (simp add: algebra_simps)
  also have "\<dots> = ((if lo then 256 else 65536) * unat b + wsum lo bs) mod 65535"
    using Cons[of "\<not> lo"] by (simp add: mod_add_right_eq flip: mod_add_right_eq[of _ "256 * wsum (\<not> lo) bs"])
  also have "\<dots> = ((if lo then 256 else 1) * unat b + wsum lo bs) mod 65535"
    by (auto intro!: mod_add_cong simp: mod_mult_left_eq[of 65536, symmetric])
  finally show ?case by simp
qed simp

lemma wsum_eq_0: "wsum lo bs = 0 \<longleftrightarrow> (\<forall>b \<in> set bs. b = 0)"
  by (induction bs arbitrary: lo) (auto simp: unat_eq_0)

lemma unat_u8: "unat (b :: u8) \<le> 255"
proof -
  have "unat b < 2 ^ LENGTH(8)" by (rule unsigned_less)
  then show ?thesis by simp
qed

lemma unat_u8_u32 [simp]: "unat (ucast (b :: u8) :: u32) = unat b"
  using unat_u8[of b] by (simp add: unsigned_ucast_eq take_bit_nat_eq_self)

lemma wsum_bound: "2 * wsum lo bs \<le> 65535 * length bs + (if lo then 0 else 65025)"
proof (induction bs arbitrary: lo)
  case (Cons b bs)
  from Cons[of "\<not> lo"] show ?case using unat_u8[of b] by (cases lo) simp_all
qed simp

section \<open>The loops\<close>

lemma ushort_at_wsum:
  assumes "i + 1 < length bs"
  shows "ushort_at little bs i = of_nat (wsum little (take 2 (drop i bs)))"
proof -
  have "take 2 (drop i bs) = [bs ! i, bs ! (i + 1)]"
    using assms by (simp add: take_Suc_conv_app_nth numeral_2_eq_2 hd_drop_conv_nth Cons_nth_drop_Suc flip: Cons_nth_drop_Suc)
  then show ?thesis by (simp add: ushort_at_def)
qed

lemma sum2s_ok:
  assumes "sum2s little bs m = (m', r)"
  shows "\<exists>ps. bs = ps @ r \<and> even (length ps) \<and> length r < 2 \<and> m' = m + of_nat (wsum little ps)"
  using assms
proof (induction little bs m rule: sum2s.induct)
  case (1 little bs m)
  show ?case
  proof (cases "length bs \<ge> 2")
    case True
    then obtain ps where p: "drop 2 bs = ps @ r" "even (length ps)" "length r < 2"
      "m' = m + ushort_at little bs 0 + of_nat (wsum little ps)"
      using 1 by (auto simp: sum2s.simps[of little bs m])
    have "bs = (take 2 bs @ ps) @ r" using p(1) by (metis append.assoc append_take_drop_id)
    moreover have "even (length (take 2 bs @ ps))" "m' = m + of_nat (wsum little (take 2 bs @ ps))"
      using p(2,4) True by (simp_all add: wsum_append ushort_at_wsum add.assoc)
    ultimately show ?thesis using p(3) by blast
  next
    case False
    then show ?thesis using 1(2) by (auto simp: sum2s.simps[of little bs m])
  qed
qed

lemma wsum_16:
  assumes "length bs \<ge> 16" and "t = ushort_at little bs"
  shows "t 0 + t 2 + t 4 + t 6 + t 8 + t 10 + t 12 + t 14 = of_nat (wsum little (take 16 bs))"
proof -
  have s: "wsum little (take (n + 2) bs) = wsum little (take n bs) + wsum little (take 2 (drop n bs))" if "even n" "n + 2 \<le> 16" for n
    using that assms(1) unfolding take_add by (simp add: wsum_append)
  have "wsum little (take 16 bs) = (\<Sum>i \<leftarrow> [0, 2, 4, 6, 8, 10, 12, 14]. wsum little (take 2 (drop i bs)))"
    using s[of 14] s[of 12] s[of 10] s[of 8] s[of 6] s[of 4] s[of 2] by simp
  then show ?thesis using assms by (simp add: ushort_at_wsum)
qed

lemma sum16s_ok:
  assumes "sum16s little bs m = (m', r)"
  shows "\<exists>ps. bs = ps @ r \<and> even (length ps) \<and> m' = m + of_nat (wsum little ps)"
  using assms
proof (induction little bs m rule: sum16s.induct)
  case (1 little bs m)
  show ?case
  proof (cases "length bs \<ge> 16")
    case True
    let ?t = "ushort_at little bs"
    have "sum16s little (drop 16 bs) (m + ?t 0 + ?t 2 + ?t 4 + ?t 6 + ?t 8 + ?t 10 + ?t 12 + ?t 14) = (m', r)"
      using 1(2) True by (simp add: sum16s.simps[of little bs m] Let_def)
    from 1(1)[OF True refl this] obtain ps where p: "drop 16 bs = ps @ r" "even (length ps)"
      "m' = m + ?t 0 + ?t 2 + ?t 4 + ?t 6 + ?t 8 + ?t 10 + ?t 12 + ?t 14 + of_nat (wsum little ps)" by blast
    have "bs = (take 16 bs @ ps) @ r" using p(1) by (metis append.assoc append_take_drop_id)
    moreover have "m' = m + of_nat (wsum little (take 16 bs @ ps))"
      using p(3) True wsum_16[OF True refl] by (simp add: wsum_append algebra_simps)
    moreover have "even (length (take 16 bs @ ps))" using p(2) True by simp
    ultimately show ?thesis by blast
  next
    case False
    then show ?thesis using 1(2) by (auto simp: sum16s.simps[of little bs m])
  qed
qed

lemma hilo_ones:
  assumes "L < 3000000000" and "H < 3000000000"
  shows "ones (unat (hilo (of_nat L) (of_nat H))) = ones (L + 256 * H)"
proof -
  have u: "unat (of_nat L :: u32) = L" "unat (of_nat H :: u32) = H" using assms by (simp_all add: unat_of_nat)
  have "of_nat H AND (0xff :: u32) = take_bit 8 (of_nat H)" by (simp add: take_bit_eq_mask mask_eq_exp_minus_1)
  then have "unat (of_nat H AND (0xff :: u32)) = H mod 256" using u(2) by (simp add: take_bit_eq_mod unat_mod)
  moreover have "unat (drop_bit 8 (of_nat H :: u32)) = H div 256" using u(2) by (simp add: drop_bit_eq_div unat_div)
  ultimately have "unat (hilo (of_nat L) (of_nat H)) = L + H div 256 + 256 * (H mod 256)"
    using assms u by (simp add: hilo_def push_bit_eq_mult unat_word_ariths)
  moreover have "ones (L + H div 256 + 256 * (H mod 256)) = ones (L + 256 * H)"
  proof (rule ones_cong)
    have "L + 256 * H = 65535 * (H div 256) + (L + H div 256 + 256 * (H mod 256))" using div_mult_mod_eq[of H 256] by linarith
    then show "(L + H div 256 + 256 * (H mod 256)) mod 65535 = (L + 256 * H) mod 65535" by (metis mod_mult_self4)
    show "(L + H div 256 + 256 * (H mod 256) = 0) = (L + 256 * H = 0)" using div_mult_mod_eq[of H 256] by auto
  qed
  ultimately show ?thesis by simp
qed

section \<open>The buffer\<close>

text \<open>What the two loops leave: the sum of an even number of bytes and at most one byte.\<close>

lemma loops_ok:
  obtains ps tail where "bs = ps @ tail" "even (length ps)" "length tail < 2"
    "(case sum16s little bs 0 of (m, r) \<Rightarrow> sum2s little r m) = (of_nat (wsum little ps), tail)"
proof -
  obtain m r where a: "sum16s little bs 0 = (m, r)" by fastforce
  obtain m' r' where b: "sum2s little r m = (m', r')" by fastforce
  from sum16s_ok[OF a] obtain p where p: "bs = p @ r" "even (length p)" "m = of_nat (wsum little p)" by auto
  from sum2s_ok[OF b] obtain q where q: "r = q @ r'" "even (length q)" "length r' < 2" "m' = m + of_nat (wsum little q)" by auto
  show thesis
    by (rule that[of "p @ q" r']) (use p q a b in \<open>simp_all add: wsum_append\<close>)
qed

lemma wsum_tail:
  assumes "length tail < 2"
  shows "wsum lo tail = (if lo then 1 else 256) * unat (if tail \<noteq> [] then ucast (hd tail) else 0 :: u32)"
  using assms by (cases tail) auto

lemma wsum_zero: "wsum lo bs = 0 \<longleftrightarrow> wsum lo' bs = 0"
  by (simp add: wsum_eq_0)

lemma mod_256: "(a + 256 * wsum lo bs) mod 65535 = (a + wsum (\<not> lo) bs) mod 65535"
  by (metis mod_add_right_eq wsum_flip)

lemma unat_ptclbsum:
  assumes "length addr \<le> 65536"
  shows "unat (ptclbsum little a addr) = ones (wsum False addr)"
proof -
  define x where "x = odd a"
  define rest where "rest = (if x then tl addr else addr)"
  obtain ps tail where l: "rest = ps @ tail" "even (length ps)" "length tail < 2"
    "(case sum16s little rest 0 of (m, r) \<Rightarrow> sum2s little r m) = (of_nat (wsum little ps), tail)" by (rule loops_ok)
  define F where "F = unat (if x \<and> addr \<noteq> [] then ucast (hd addr) else 0 :: u32)"
  define T where "T = unat (if tail \<noteq> [] then ucast (hd tail) else 0 :: u32)"
  define P where "P = wsum little ps"
  define L where "L = (if x then if little then T + P else T else if little then 0 else P)"
  define H where "H = (if x then if little then F else F + P else if little then F + T + P else F + T)"
  have w: "wsum False addr = 256 * F + wsum x ps + (if x then 1 else 256) * T"
  proof -
    have "wsum x rest = wsum x ps + (if x then 1 else 256) * T" using l wsum_tail[OF l(3), of x] by (simp add: wsum_append T_def)
    then show ?thesis by (cases addr) (auto simp: rest_def F_def)
  qed
  have len: "length ps \<le> 65536" using assms l(1) by (auto simp: rest_def split: if_splits dest: arg_cong[of _ _ length])
  have "ptclbsum little a addr = ucast (fold16 (hilo (of_nat L) (of_nat H)) AND 0xffff)"
  proof -
    obtain m r where mr: "sum16s little rest 0 = (m, r)" by fastforce
    then have "sum2s little r m = (of_nat P, tail)" using l(4) by (simp add: P_def)
    moreover have "(if x \<and> addr \<noteq> [] then ucast (hd addr) else 0) = (of_nat F :: u32)"
      "(if tail \<noteq> [] then ucast (hd tail) else 0) = (of_nat T :: u32)" by (simp_all add: F_def T_def)
    ultimately show ?thesis using mr unfolding ptclbsum_def x_def[symmetric] rest_def
      by (cases x; cases little) (simp_all add: Let_def L_def H_def add.assoc)
  qed
  then have "unat (ptclbsum little a addr) = ones (unat (hilo (of_nat L) (of_nat H)))" by (simp add: low_fold16)
  also have "\<dots> = ones (L + 256 * H)"
  proof (rule hilo_ones)
    have "F \<le> 255" "T \<le> 255" using unat_u8 by (simp_all add: F_def T_def)
    moreover have "2 * P \<le> 65535 * 65536 + 65025" using wsum_bound[of little ps] len by (simp add: P_def split: if_splits)
    ultimately show "L < 3000000000" "H < 3000000000" by (simp_all add: L_def H_def)
  qed
  also have "\<dots> = ones (wsum False addr)"
  proof (rule ones_cong)
    have "(L + 256 * H) mod 65535 = (256 * F + (if x then 1 else 256) * T + wsum x ps) mod 65535"
      using mod_256[of "256 * F + T" little ps] mod_256[of "256 * F + 256 * T" little ps]
      by (auto simp: L_def H_def P_def algebra_simps)
    then show "(L + 256 * H) mod 65535 = wsum False addr mod 65535" by (simp add: w algebra_simps)
    show "(L + 256 * H = 0) = (wsum False addr = 0)"
      using wsum_zero[of x ps little] by (auto simp: w L_def H_def P_def)
  qed
  finally show ?thesis .
qed

section \<open>Chains\<close>

lemma csumskip_ok:
  assumes "wfc bs" and "0 \<le> offset" and "offset < blocklen bs"
  shows "\<exists>bp bs' off. csumskip bs offset = (bp # bs', off) \<and> wfc (bp # bs') \<and> 0 \<le> off \<and> off \<le> BLEN bp \<and> length bs' < length bs
    \<and> blocklen (bp # bs') \<le> blocklen bs \<and> drop (nat offset) (cdata bs) = drop (nat off) (cdata (bp # bs'))"
  using assms
proof (induction bs arbitrary: offset)
  case (Cons b bs)
  have b: "BLEN b = int (length (bdata b))" using Cons.prems(1) by (simp add: BLEN_bdata)
  show ?case
  proof (cases "offset \<noteq> 0 \<and> offset \<ge> BLEN b")
    case True
    have "drop (nat offset) (cdata (b # bs)) = drop (nat (offset - BLEN b)) (cdata bs)"
      using True b by (simp add: nat_diff_distrib le_nat_iff)
    moreover obtain bp bs' off where "csumskip bs (offset - BLEN b) = (bp # bs', off)" "wfc (bp # bs')" "0 \<le> off" "off \<le> BLEN bp"
      "length bs' < length bs" "blocklen (bp # bs') \<le> blocklen bs" "drop (nat (offset - BLEN b)) (cdata bs) = drop (nat off) (cdata (bp # bs'))"
      using Cons.IH[of "offset - BLEN b"] Cons.prems True by auto
    ultimately show ?thesis using True b by auto
  next
    case False
    then show ?thesis using Cons.prems b by auto
  qed
qed simp

lemma ones_flip: "256 * ones (wsum False d) mod 65535 = wsum True d mod 65535"
proof -
  have "256 * ones (wsum False d) mod 65535 = 256 * (ones (wsum False d) mod 65535) mod 65535" by (rule mod_mult_right_eq[symmetric])
  also have "\<dots> = 256 * wsum False d mod 65535" unfolding ones_mod by (rule mod_mult_right_eq)
  also have "\<dots> = wsum True d mod 65535" using wsum_flip[of False d] by simp
  finally show ?thesis .
qed

text \<open>The sums of the loop: \<open>L + 256 * H\<close> grows by the sum of the bytes, up to carries.\<close>

lemma csumloop_ok:
  assumes "wfc bs" and "bs \<noteq> [] \<Longrightarrow> offset \<le> BLEN (hd bs)" and "0 \<le> offset" and "0 \<le> len" and "blocklen bs \<le> 65536"
    and "data = take (nat len) (drop (nat offset) (cdata bs))"
  shows "\<exists>L' H'. csumloop little bs offset len od (of_nat L) (of_nat H) = (of_nat L', of_nat H')
    \<and> L' \<le> L + 65535 * length bs \<and> H' \<le> H + 65535 * length bs
    \<and> (L' + 256 * H') mod 65535 = (L + 256 * H + wsum od data) mod 65535
    \<and> (L' + 256 * H' = 0 \<longleftrightarrow> L + 256 * H + wsum od data = 0)"
  using assms
proof (induction bs arbitrary: offset len od L H data)
  case Nil
  then show ?case by auto
next
  case (Cons b bs)
  have wf: "wfc bs" "wfb b" and o: "offset \<le> BLEN b" using Cons.prems by auto
  have b: "BLEN b = int (length (bdata b))" using wf(2) by (simp add: BLEN_bdata)
  show ?case
  proof (cases "len = 0")
    case True
    then show ?thesis using Cons.prems(6) by (intro exI[of _ L] exI[of _ H]) simp
  next
    case False
    define x where "x = (if len < BLEN b - offset then len else BLEN b - offset)"
    define d where "d = bytes_at b offset x"
    define rest where "rest = take (nat (len - x)) (cdata bs)"
    have dl: "length d = nat x" using o b Cons.prems(3,4) by (auto simp: d_def bytes_at_def x_def)
    have data: "data = d @ rest"
      using o b Cons.prems(3,4,6) by (auto simp: d_def rest_def bytes_at_def x_def nat_diff_distrib drop_append take_append)
    have bl: "0 \<le> blocklen bs" using blocklen_cdata[OF wf(1)] by simp
    define c where "c = ones (wsum False d)"
    have cs: "ucast (ptclbsum little (rp b + nat offset) d) = (of_nat c :: u32)"
    proof -
      have "length d \<le> 65536" using dl o b bl Cons.prems(3,5) by (auto simp: x_def split: if_splits)
      from unat_ptclbsum[OF this] show ?thesis by (metis c_def of_nat_unat)
    qed
    have cb: "c \<le> 65535" by (simp add: c_def ones_le)
    define L1 where "L1 = (if od then L else L + c)"
    define H1 where "H1 = (if od then H + c else H)"
    have "od \<noteq> odd x \<longleftrightarrow> od \<noteq> odd (length d)" using dl o Cons.prems(4) by (auto simp: x_def even_nat_iff)
    then have step: "csumloop little (b # bs) offset len od (of_nat L) (of_nat H)
        = csumloop little bs 0 (len - x) (od \<noteq> odd (length d)) (of_nat L1) (of_nat H1)"
      using False cs by (simp add: Let_def L1_def H1_def d_def x_def)
    have p: "bs \<noteq> [] \<Longrightarrow> 0 \<le> BLEN (hd bs)" "0 \<le> len - x" "blocklen bs \<le> 65536"
      using wf(1) o Cons.prems(3,4,5) b by (auto simp: x_def neq_Nil_conv BLEN_def wfb_def)
    obtain L' H' where r: "csumloop little bs 0 (len - x) (od \<noteq> odd (length d)) (of_nat L1) (of_nat H1) = (of_nat L', of_nat H')"
      "L' \<le> L1 + 65535 * length bs" "H' \<le> H1 + 65535 * length bs"
      "(L' + 256 * H') mod 65535 = (L1 + 256 * H1 + wsum (od \<noteq> odd (length d)) rest) mod 65535"
      "L' + 256 * H' = 0 \<longleftrightarrow> L1 + 256 * H1 + wsum (od \<noteq> odd (length d)) rest = 0"
      using Cons.IH[OF wf(1) p(1) _ p(2,3), of rest "od \<noteq> odd (length d)" L1 H1] by (auto simp: rest_def)
    have w: "wsum od data = wsum od d + wsum (od \<noteq> odd (length d)) rest" using data by (simp add: wsum_append)
    have lh: "L1 + 256 * H1 = L + 256 * H + (if od then 256 else 1) * c" by (simp add: L1_def H1_def)
    have q: "(if od then 256 else 1) * c mod 65535 = wsum od d mod 65535"
      using ones_flip[of d] ones_mod[of "wsum False d"] by (cases od) (simp_all add: c_def)
    have "(L1 + 256 * H1) mod 65535 = (L + 256 * H + wsum od d) mod 65535" unfolding lh by (rule mod_add_cong[OF refl q])
    then have "(L1 + 256 * H1 + wsum (od \<noteq> odd (length d)) rest) mod 65535 = (L + 256 * H + wsum od data) mod 65535"
      unfolding w add.assoc[symmetric] by (rule mod_add_cong[OF _ refl])
    moreover have "L1 + 256 * H1 + wsum (od \<noteq> odd (length d)) rest = 0 \<longleftrightarrow> L + 256 * H + wsum od data = 0"
    proof -
      have "c = 0 \<longleftrightarrow> wsum od d = 0" unfolding c_def ones_eq_0 by (rule wsum_zero)
      then show ?thesis unfolding lh w by simp
    qed
    moreover have "L' \<le> L + 65535 * length (b # bs)" "H' \<le> H + 65535 * length (b # bs)"
      using r(2,3) cb by (simp_all add: L1_def H1_def split: if_splits)
    ultimately show ?thesis unfolding step r(1) using r(4,5) by (intro exI[of _ L'] exI[of _ H']) simp
  qed
qed

lemma onesum_eqI: "unat (v :: u16) = ones (wsum False d) \<Longrightarrow> v = onesum d"
  unfolding onesum_def by (metis of_nat_unat ucast_id)

lemma ucast_NOT_low: "(ucast (NOT w AND 0xffff) :: u16) = NOT (ucast (w AND 0xffff))" for w :: u32
proof -
  have m: "(0xffff :: u32) = mask 16" by (simp add: mask_eq_exp_minus_1)
  show ?thesis unfolding m by (rule bit_eqI) (auto simp: bit_simps)
qed

text \<open>
  C21: The checksum of a chain is the ones' complement sum of the protocols. For a well-formed
  chain of up to 65536 bytes, \<open>ptclcsum\<close> from an offset inside it is the complement of the
  16-bit ones' complement sum of the bytes it is asked to cover, whatever the byte order of the
  machine, the alignment of the blocks and the way the bytes are split into blocks, also at
  odd positions.\<close>

theorem ptclcsum_exact:
  assumes "wfc bs" and "0 \<le> offset" and "offset < blocklen bs" and "0 \<le> len" and "blocklen bs \<le> 65536" and "length bs \<le> 32768"
  shows "ptclcsum little bs offset len = NOT (onesum (take (nat len) (drop (nat offset) (cdata bs))))"
proof -
  define data where "data = take (nat len) (drop (nat offset) (cdata bs))"
  obtain bp bs' off where s: "csumskip bs offset = (bp # bs', off)" "wfc (bp # bs')" "0 \<le> off" "off \<le> BLEN bp" "length bs' < length bs"
    and bl': "blocklen (bp # bs') \<le> blocklen bs" and d: "drop (nat offset) (cdata bs) = drop (nat off) (cdata (bp # bs'))"
    using csumskip_ok[OF assms(1-3)] by blast
  have b: "BLEN bp = int (length (bdata bp))" using s(2) by (simp add: BLEN_bdata)
  have bl: "blocklen (bp # bs') \<le> 65536" using bl' assms(5) by linarith
  have data: "data = take (nat len) (drop (nat off) (cdata (bp # bs')))" by (simp add: data_def d)
  show ?thesis unfolding data_def[symmetric]
  proof (cases bs')
    case Nil
    define n where "n = (if BLEN bp - off < len then BLEN bp - off else len)"
    have "bytes_at bp off n = data" using Nil b s(3,4) assms(4) by (auto simp: bytes_at_def data n_def)
    moreover have "length data \<le> 65536" using Nil b bl by (simp add: data)
    ultimately have "ptclbsum little (rp bp + nat off) (bytes_at bp off n) = onesum data"
      using unat_ptclbsum[of data little "rp bp + nat off"] by (intro onesum_eqI) simp
    then show "ptclcsum little bs offset len = NOT (onesum data)" using Nil s(1) by (simp add: ptclcsum_def Let_def n_def)
  next
    case (Cons b2 bs2)
    obtain L H where c: "csumloop little (bp # bs') off len False (of_nat 0) (of_nat 0) = (of_nat L, of_nat H)"
      "L \<le> 65535 * length (bp # bs')" "H \<le> 65535 * length (bp # bs')"
      "(L + 256 * H) mod 65535 = wsum False data mod 65535" "L + 256 * H = 0 \<longleftrightarrow> wsum False data = 0"
      using csumloop_ok[OF s(2) _ s(3) assms(4) bl data, of little False 0 0, unfolded mult_0_right add_0 list.sel, OF s(4)] by iprover
    have "L < 3000000000" "H < 3000000000" using c(2,3) s(5) assms(6) by simp_all
    from hilo_ones[OF this] have "ones (unat (hilo (of_nat L) (of_nat H))) = ones (wsum False data)"
      using ones_cong[OF c(4,5)] by simp
    then have "ucast (fold16 (hilo (of_nat L) (of_nat H)) AND 0xffff) = onesum data"
      by (intro onesum_eqI) (simp add: low_fold16)
    moreover have "ptclcsum little bs offset len = ucast (NOT (fold16 (hilo (of_nat L) (of_nat H))) AND 0xffff)"
      using Cons c(1) s(1) by (simp add: ptclcsum_def)
    ultimately show "ptclcsum little bs offset len = NOT (onesum data)" by (simp add: ucast_NOT_low)
  qed
qed

theorem ptclcsum_exact_witness:
  "ptclcsum True [blk 100 8 [1, 2, 3] 16, blk 201 8 [4, 5] 16] 1 4 = NOT (onesum [2, 3, 4, 5])"
  using ptclcsum_exact[of "[blk 100 8 [1, 2, 3] 16, blk 201 8 [4, 5] 16]" 1 4 True] by (simp add: blk_def wfb_def BLEN_def bdata_def)

section \<open>Headers\<close>

lemma hdrsum_ok:
  assumes "even len" and "len \<le> length addr"
  shows "hdrsum len addr sm = sm + of_nat (wsum False (take len addr))"
  using assms
proof (induction len addr sm rule: hdrsum.induct)
  case (1 len addr sm)
  show ?case
  proof (cases "len = 0")
    case False
    then have "len \<ge> 2" using 1(2) by presburger
    then obtain a b r where a: "addr = a # b # r" using 1(3) by (cases addr; cases "tl addr") auto
    have w: "push_bit 8 (ucast a) OR ucast b = (of_nat (wsum False [a, b]) :: u32)"
    proof -
      have "push_bit 8 (ucast a) OR ucast b = push_bit 8 (ucast a) + (ucast b :: u32)"
        by (rule disjunctive_add[symmetric]) (auto simp: bit_simps dest: bit_imp_le_length)
      then show ?thesis by (simp add: push_bit_eq_mult)
    qed
    obtain n where n: "len = Suc (Suc n)" using \<open>len \<ge> 2\<close> by (metis Suc_diff_le add_2_eq_Suc le_add_diff_inverse)
    have "even (len - 2)" "len - 2 \<le> length (drop 2 addr)" using 1(2,3) by auto
    from 1(1)[OF _ this] have "hdrsum n r (sm + of_nat (wsum False [a, b])) = sm + of_nat (wsum False [a, b]) + of_nat (wsum False (take n r))"
      using False n a w by simp
    then show ?thesis using w n a by (simp add: hdrsum.simps[of "Suc (Suc n)"] numeral_2_eq_2 wsum_append)
  qed (simp add: hdrsum.simps)
qed

lemma ipcsum_eq:
  assumes "len = 4 * (unat (addr ! 0) mod 16)" and "len \<le> length addr"
  shows "ipcsum addr = NOT (onesum (take len addr))"
proof -
  define S where "S = wsum False (take len addr)"
  have l60: "len \<le> 60" using assms(1) mod_less_divisor[of 16 "unat (addr ! 0)"] by linarith
  have "2 * S \<le> 65535 * length (take len addr) + 65025" using wsum_bound[of False "take len addr"] by (simp add: S_def)
  then have S: "S \<le> 65535 * 31" using l60 assms(2) by simp
  have "addr ! 0 AND 0xf = take_bit 4 (addr ! 0)" by (simp add: take_bit_eq_mask mask_eq_exp_minus_1)
  then have "unat (addr ! 0 AND 0xf) = unat (addr ! 0) mod 16" by (simp add: take_bit_eq_mod unat_mod)
  then have "unat (push_bit 2 (addr ! 0 AND 0xf)) = len" using l60 by (simp add: push_bit_eq_mult unat_word_ariths assms(1) mult.commute)
  moreover have "even len" using assms(1) by simp
  ultimately have h: "hdrsum (unat (push_bit 2 (addr ! 0 AND 0xf))) addr 0 = of_nat S" using hdrsum_ok assms(2) by (simp add: S_def)
  define c where "c w = (w AND 0xffff) + drop_bit 16 w" for w :: u32
  define n where "n = S div 65536 + S mod 65536"
  have "unat (of_nat S :: u32) = S" using S by (simp add: unat_of_nat)
  then have "unat (c (of_nat S)) = n" by (simp add: c_def n_def add.commute unat_carry)
  then have u: "unat (c (c (of_nat S))) = n div 65536 + n mod 65536" by (simp add: c_def[of "c (of_nat S)"] add.commute unat_carry)
  moreover have "n div 65536 + n mod 65536 \<le> 65535"
  proof -
    have "n \<le> 65566" using S mod_less_divisor[of 65536 S] div_mult_mod_eq[of S 65536] unfolding n_def by linarith
    moreover have "n mod 65536 < 65536" by simp
    ultimately show ?thesis using div_mult_mod_eq[of n 65536] by (cases "n div 65536 = 0") linarith+
  qed
  then have "n div 65536 + n mod 65536 = ones S" using ones_small ones_carry n_def by metis
  ultimately have us: "unat (c (c (of_nat S))) = ones S" by simp
  have "(ucast (w XOR 0xffff) :: u16) = NOT (ucast w)" for w :: u32
  proof -
    have m: "(0xffff :: u32) = mask 16" by (simp add: mask_eq_exp_minus_1)
    show ?thesis unfolding m by (rule bit_eqI) (auto simp: bit_simps)
  qed
  moreover have "(ucast (c (c (of_nat S))) :: u16) = onesum (take len addr)"
    using us ones_le[of S] by (intro onesum_eqI) (simp add: unsigned_ucast_eq S_def take_bit_nat_eq_self)
  ultimately show ?thesis using h by (simp add: ipcsum_def Let_def c_def)
qed

lemma unat_NOT: "unat (NOT x) = 65535 - unat x" for x :: u16
proof -
  have "x + NOT x = - 1" by (simp add: not_eq_complement)
  moreover have "unat (x + NOT x) = (unat x + unat (NOT x)) mod 65536" by (simp only: unat_word_ariths) simp
  moreover have "unat x < 2 ^ LENGTH(16)" "unat (NOT x) < 2 ^ LENGTH(16)" by (rule unsigned_less)+
  moreover have "unat (- 1 :: u16) = 65535" by (simp add: unsigned_minus_1_eq_mask mask_eq_exp_minus_1)
  ultimately have "(unat x + unat (NOT x)) mod 65536 = 65535" "unat x < 65536" "unat (NOT x) < 65536" by simp_all
  then show ?thesis by (cases "unat x + unat (NOT x) < 65536") (auto simp: le_mod_geq)
qed

text \<open>The complement of the sum of bytes with a cleared field at an even offset, stored in that field, makes the sum -1.\<close>

lemma onesum_stored:
  assumes "even (length xs)" and c: "c = NOT (onesum (xs @ [0, 0] @ ys))"
  shows "NOT (onesum (xs @ [ucast (drop_bit 8 c), ucast c] @ ys)) = 0"
proof -
  define S where "S = wsum False (xs @ [0, 0] @ ys)"
  have u: "unat c = 65535 - ones S"
    using ones_le[of S] by (simp add: c unat_NOT onesum_def S_def unat_of_nat)
  have "unat c < 2 ^ LENGTH(16)" by (rule unsigned_less)
  then have "unat (ucast (drop_bit 8 c) :: u8) = unat c div 256" "unat (ucast c :: u8) = unat c mod 256"
    by (simp_all add: unsigned_ucast_eq drop_bit_eq_div unat_div take_bit_eq_mod less_mult_imp_div_less)
  then have "unat c = 256 * unat (ucast (drop_bit 8 c) :: u8) + unat (ucast c :: u8)" by simp
  then have w: "wsum False (xs @ [ucast (drop_bit 8 c), ucast c] @ ys) = S + unat c"
    using assms(1) by (simp add: wsum_append S_def)
  have le: "ones S \<le> S" by (auto simp: ones_def intro: le_trans[OF mod_less_eq_dividend])
  have "65535 dvd S - ones S" using ones_mod[of S] mod_eq_dvd_iff_nat[OF le] by metis
  then obtain q where "S - ones S = 65535 * q" by blast
  then have n: "S + unat c = 65535 * q + 65535" using u le ones_le[of S] by simp
  have "ones (65535 * q + 65535) = ones 65535" by (rule ones_cong) simp_all
  then have "onesum (xs @ [ucast (drop_bit 8 c), ucast c] @ ys) = - 1" unfolding onesum_def w n by (simp add: ones_small)
  then show ?thesis by simp
qed

text \<open>
  When \<open>ipcsum\<close> of an IPv4 header (of at least five words) with its
  checksum field cleared is stored in that field, \<open>ipcsum\<close> of the result is zero, as the test of
  received packets in \<open>ipiput4\<close> wants.\<close>

lemma ipcsum_stored:
  assumes "unat (h ! 0) mod 16 \<ge> 5" and "4 * (unat (h ! 0) mod 16) \<le> length h" and "h ! 10 = 0" and "h ! 11 = 0"
  shows "ipcsum (h[10 := ucast (drop_bit 8 (ipcsum h)), 11 := ucast (ipcsum h)]) = 0"
proof -
  define len where "len = 4 * (unat (h ! 0) mod 16)"
  define c where "c = ipcsum h"
  define h' where "h' = h[10 := ucast (drop_bit 8 c), 11 := ucast c]"
  have l: "12 \<le> len" "len \<le> length h" using assms(1,2) by (simp_all add: len_def)
  define d where "d = take (len - 12) (drop 12 h)"
  have hs: "h = take 10 h @ h ! 10 # h ! 11 # drop 12 h"
    using l Cons_nth_drop_Suc[of 10 h] Cons_nth_drop_Suc[of 11 h] append_take_drop_id[of 10 h] by simp
  have hs': "h' = take 10 h @ ucast (drop_bit 8 c) # ucast c # drop 12 h"
    unfolding h'_def by (subst hs) (use l in \<open>simp add: list_update_append\<close>)
  have cut: "take len (take 10 h @ x # y # drop 12 h) = take 10 h @ [x, y] @ d" for x y
  proof -
    obtain k where "len = 12 + k" using l(1) le_Suc_ex by blast
    then show ?thesis using l(2) by (simp add: d_def numeral_eq_Suc)
  qed
  have t: "take len h = take 10 h @ [0, 0] @ d" using cut[of "h ! 10" "h ! 11", folded hs] assms(3,4) by simp
  have t': "take len h' = take 10 h @ [ucast (drop_bit 8 c), ucast c] @ d" unfolding hs' by (rule cut)
  have "c = NOT (onesum (take len h))" unfolding c_def by (rule ipcsum_eq) (use assms in \<open>simp_all add: len_def\<close>)
  then have "NOT (onesum (take len h')) = 0" unfolding t' t by (rule onesum_stored[rotated]) (use l in simp)
  moreover have "h' ! 0 = h ! 0" using l by (simp add: h'_def)
  then have "ipcsum h' = NOT (onesum (take len h'))" using l by (intro ipcsum_eq) (simp_all add: len_def h'_def)
  ultimately show ?thesis by (simp add: h'_def c_def)
qed

end
