(* ===== verification/Ipv4.thy ===== *)
theory Ipv4
  imports Ipsum Iproute
begin

text \<open>
  IP version 4 (\<open>src/ip/ip.c\<close>): sending with fragmentation, receiving, and the reassembly of fragments.

  A packet is its header and the bytes after the header of each block of its chain. The fields
  of a header are words, which \<open>nhgets\<close> and \<open>hnputs\<close> read and write in network order; \<open>hdrbytes\<close> lays them
  out for the checksum. What the routines read of other components are parameters: \<open>look\<close> is the route
  \<open>v4lookup\<close> finds for an address, \<open>ifcs\<close> the interfaces, \<open>forme\<close> the answer of \<open>ipforme\<close>, \<open>rcv\<close> tells
  for which protocols there is a receiver. Calls of other components are actions in the result.
  \<open>Overrun\<close> is the fault of a read or write past the bytes of a block.
\<close>

section \<open>Data\<close>

record ip4hdr =
  vihl :: u8
  tos :: u8
  hlength :: u16
  hid :: u16
  hfrag :: u16
  ttl :: u8
  proto :: u8
  cksum :: u16
  src :: u32
  dst :: u32

type_synonym pkt4 = "ip4hdr \<times> u8 list list"

definition IP_VER4 :: u8 where "IP_VER4 = 0x40"
definition IP_HLEN4 :: u8 where "IP_HLEN4 = 5"
definition IP_MBZ :: u16 where "IP_MBZ = 0x8000"
definition IP_DF :: u16 where "IP_DF = 0x4000"
definition IP_MF :: u16 where "IP_MF = 0x2000"
definition IP_FLAGS :: u16 where "IP_FLAGS = IP_MBZ OR IP_DF OR IP_MF"
definition IP4HDR :: nat where "IP4HDR = 20"
definition IP_MAX :: nat where "IP_MAX = 64 * 1024"

definition bytes2 :: "u16 \<Rightarrow> u8 list" where
  "bytes2 w = [ucast (drop_bit 8 w), ucast w]"

definition bytes4 :: "u32 \<Rightarrow> u8 list" where
  "bytes4 w = [ucast (drop_bit 24 w), ucast (drop_bit 16 w), ucast (drop_bit 8 w), ucast w]"

definition hdrbytes :: "ip4hdr \<Rightarrow> u8 list" where
  "hdrbytes h = [vihl h, tos h] @ bytes2 (hlength h) @ bytes2 (hid h) @ bytes2 (hfrag h) @ [ttl h, proto h] @ bytes2 (cksum h)
     @ bytes4 (src h) @ bytes4 (dst h)"

text \<open>\<open>h->cksum = 0; hnputs(h->cksum, ipcsum(&h->vihl));\<close> with the bytes behind the header.\<close>

definition sumhdr :: "ip4hdr \<Rightarrow> u8 list \<Rightarrow> ip4hdr" where
  "sumhdr h rest = (let h = h\<lparr>cksum := 0\<rparr> in h\<lparr>cksum := ipcsum (hdrbytes h @ rest)\<rparr>)"

definition pktlen :: "pkt4 \<Rightarrow> nat" where
  "pktlen p = IP4HDR + length (concat (snd p))"

datatype ipstat = InReceives | InHdrErrors | InUnknownProtos | InDiscards | InDelivers | ForwDatagrams | OutRequests | OutDiscards | OutNoRoutes
  | ReasmTimeout | ReasmReqds | ReasmOKs | ReasmFails | FragOKs | FragFails | FragCreates

text \<open>A fragment in a reassembly queue: \<open>BKFG(bp)\<close>, the header, and the bytes behind it.\<close>

record fblk =
  foff :: u16
  flen :: u16
  fhdr :: ip4hdr
  fdata :: "u8 list"

record frag4 =
  blist :: "fblk list"
  fsrc :: u32
  fdst :: u32
  fid :: u16
  fage :: u32

text \<open>\<open>struct IP\<close>: the list from \<open>flisthead4\<close>, and the number of queues on \<open>fragfree4\<close>.\<close>

record ip4 =
  stats :: "ipstat \<Rightarrow> u64"
  flist4 :: "frag4 list"
  nfrag4 :: nat
  id4 :: nat
  iprouting :: bool

definition stat :: "ipstat \<Rightarrow> ip4 \<Rightarrow> ip4" where
  "stat i ip = ip\<lparr>stats := (stats ip)(i := stats ip i + 1)\<rparr>"

record rt4 =
  rt4type :: u8
  rt4ifc :: nat
  rt4gate :: u32

record ifc4 =
  canlock :: bool
  medium :: "int option"   \<comment> \<open>\<open>ifc->m->hsize\<close>, if there is a medium\<close>
  maxtu :: int
  reassemble :: bool

datatype act4 = Bwrite nat pkt4 u32 | Cantfrag pkt4 int | Ttlexceeded pkt4 | Rcv u8 pkt4 | Input6

section \<open>Sending\<close>

text \<open>\<open>while(chunk)\<close>: the bytes copied and what is left of the chain, or \<open>!xp\<close>.\<close>

fun takechunk :: "nat \<Rightarrow> u8 list list \<Rightarrow> (u8 list \<times> u8 list list) option" where
  "takechunk chunk [] = (if chunk = 0 then Some ([], []) else None)"
| "takechunk chunk (xp # xs) =
    (if chunk = 0 then Some ([], xp # xs)
     else
       let blklen = (if length xp < chunk then length xp else chunk)
       in map_option (\<lambda>(d, r). (take blklen xp @ d, r)) (takechunk (chunk - blklen) (if drop blklen xp = [] then xs else drop blklen xp # xs)))"

text \<open>
  The loop of \<open>ipoput4\<close> over the fragments. \<open>seglen\<close> is at least 8 when the loop starts; the other
  operand of its condition is there for that. The flag is whether the loop came to its end.
\<close>

function fragloop :: "ip4hdr \<Rightarrow> nat \<Rightarrow> nat \<Rightarrow> nat \<Rightarrow> nat \<Rightarrow> u8 list list \<Rightarrow> ip4 \<Rightarrow> pkt4 list \<times> bool \<times> ip4" where
  "fragloop eh lid seglen dlen fragoff xp ip =
    (if fragoff < dlen \<and> seglen > 0 then
       let last = (fragoff + seglen \<ge> dlen);
           seglen = (if last then dlen - fragoff else seglen);
           feh = eh\<lparr>hfrag := (if last then of_nat (fragoff div 8) else of_nat (fragoff div 8) OR IP_MF),
                    hlength := of_nat (seglen + IP4HDR), hid := of_nat lid\<rparr>
       in (case takechunk seglen xp of
             None \<Rightarrow> ([], False, stat FragFails (stat OutDiscards ip))
           | Some (d, xp) \<Rightarrow>
               let feh = sumhdr feh d;
                   (ps, ok, ip) = fragloop eh lid seglen dlen (fragoff + seglen) xp (stat FragCreates ip)
               in ((feh, [d]) # ps, ok, ip))
     else ([], True, ip))"
  by auto
termination
  by (relation "measure (\<lambda>(eh, lid, seglen, dlen, fragoff, xp, ip). dlen - fragoff)") (auto split: if_splits)

declare fragloop.simps [simp del]

text \<open>The gate of a route, and its interface.\<close>

definition gate4 :: "(u32 \<Rightarrow> rt4 option) \<Rightarrow> ip4hdr \<Rightarrow> rt4 \<Rightarrow> nat \<times> u32" where
  "gate4 look eh r =
    (if flag_on (rt4type r) (Rifc OR Runi) then (rt4ifc r, dst eh)
     else if flag_on (rt4type r) (Rbcast OR Rmulti) then
       (case look (src eh) of
          Some sr \<Rightarrow> (if flag_on (rt4type sr) Runi then rt4ifc sr else rt4ifc r, dst eh)
        | None \<Rightarrow> (rt4ifc r, dst eh))
     else (rt4ifc r, rt4gate r))"

text \<open>
  \<open>ipoput4\<close>: the value returned and the actions. The numbers \<open>hnputs\<close> stores are cut to 16 bits. The
  panics are the failure of \<open>assert(bp->next == nil)\<close>, and a checksum over options that run past the packet is an overrun.
\<close>

definition ipoput4 :: "(u32 \<Rightarrow> rt4 option) \<Rightarrow> (nat \<Rightarrow> ifc4) \<Rightarrow> pkt4 \<Rightarrow> bool \<Rightarrow> u8 \<Rightarrow> u8 \<Rightarrow> ip4 \<Rightarrow> fault + (int \<times> act4 list \<times> ip4)" where
  "ipoput4 look ifcs bp gating t s ip =
    (let (eh, data) = bp;
         ip = stat OutRequests ip;
         len = pktlen bp;
         chunk = unat (hlength eh) in
     if gating \<and> chunk > len then Inr (0, [], stat OutDiscards ip)
     else
       let len = (if gating \<and> chunk < len then chunk else len) in
       if len \<ge> IP_MAX then Inr (0, [], stat OutDiscards ip)
       else case look (dst eh) of
         None \<Rightarrow> Inr (-1, [], stat OutNoRoutes ip)
       | Some r \<Rightarrow>
           let (i, gate) = gate4 look eh r;
               ifc = ifcs i;
               eh = (if gating then eh else eh\<lparr>vihl := IP_VER4 OR IP_HLEN4, tos := s\<rparr>)\<lparr>ttl := t\<rparr> in
           if \<not> canlock ifc then Inr (0, [], ip)
           else case medium ifc of
             None \<Rightarrow> Inr (0, [], ip)
           | Some hsize \<Rightarrow>
               let medialen = maxtu ifc - hsize in
               if int len \<le> medialen then
                 let ip = (if gating then ip else ip\<lparr>id4 := id4 ip + 1\<rparr>);
                     eh = (if gating then eh else eh\<lparr>hid := of_nat (id4 ip), hfrag := 0\<rparr>)\<lparr>hlength := of_nat len\<rparr>
                 in if 4 * (unat (vihl eh) mod 16) > pktlen bp then Inl Overrun
                    else if length data > 1 then Inl (Panic ''assert'')
                    else Inr (0, [Bwrite i (sumhdr eh (concat data), data) gate], ip)
               else if flag_on (hfrag eh) IP_DF then
                 Inr (0, [Cantfrag (eh, data) medialen], stat OutDiscards (stat FragFails ip))
               else
                 let seglen = (medialen - int IP4HDR) div 8 * 8 in
                 if seglen < 8 then Inr (0, [], stat OutDiscards (stat FragFails ip))
                 else
                   let ip = (if gating then ip else ip\<lparr>id4 := id4 ip + 1\<rparr>);
                       lid = (if gating then unat (hid eh) else id4 ip);
                       fragoff = (if gating then unat (hfrag eh) * 8 else 0);
                       dlen = len - IP4HDR + fragoff;
                       (ps, ok, ip) = fragloop eh lid (nat seglen) dlen fragoff data ip
                   in Inr (0, map (\<lambda>p. Bwrite i p gate) ps, if ok then stat FragOKs ip else ip))"

section \<open>Reassembly\<close>

text \<open>
  The search for the queue of a packet: queues before it that are too old are freed. The result is the
  queues before, the queue found with those after it, and how many were freed.
\<close>

fun fragscan :: "u32 \<Rightarrow> u32 \<Rightarrow> u32 \<Rightarrow> u16 \<Rightarrow> frag4 list \<Rightarrow> frag4 list \<times> (frag4 \<times> frag4 list) option \<times> nat" where
  "fragscan now s d i [] = ([], None, 0)"
| "fragscan now s d i (f # fs) =
    (if fsrc f = s \<and> fdst f = d \<and> fid f = i then ([], Some (f, fs), 0)
     else case fragscan now s d i fs of
       (before, r, n) \<Rightarrow> if fage f < now then (before, r, n + 1) else (f # before, r, n))"

fun statn :: "nat \<Rightarrow> ipstat \<Rightarrow> ip4 \<Rightarrow> ip4" where
  "statn 0 i ip = ip"
| "statn (Suc n) i ip = statn n i (stat i ip)"

text \<open>\<open>ipfragallo4\<close>: a queue from the free list; when that is empty the last queue in use is freed first.\<close>

definition ipfragallo4 :: "u32 \<Rightarrow> frag4 \<Rightarrow> ip4 \<Rightarrow> fault + ip4" where
  "ipfragallo4 now f ip =
    (let f = f\<lparr>fage := now + 30000\<rparr> in
     if nfrag4 ip = 0 then
       if flist4 ip = [] then Inl NilDeref else Inr (ip\<lparr>flist4 := f # butlast (flist4 ip)\<rparr>)
     else Inr (ip\<lparr>flist4 := f # flist4 ip, nfrag4 := nfrag4 ip - 1\<rparr>))"

text \<open>
  The position of the new fragment \<open>bp\<close>: the fragments before it, in reverse, and those behind.
\<close>

fun fragpos :: "fblk \<Rightarrow> fblk list \<Rightarrow> fblk list \<Rightarrow> fblk list \<times> fblk list" where
  "fragpos bp prevs [] = (prevs, [])"
| "fragpos bp prevs (bl # bs) = (if foff bp > foff bl then fragpos bp (bl # prevs) bs else (prevs, bl # bs))"

text \<open>Fragments behind the new one: covered ones are freed, one that overlaps is trimmed at its front.\<close>

fun fragcut :: "int \<Rightarrow> fblk list \<Rightarrow> fault + fblk list" where
  "fragcut fend [] = Inr []"
| "fragcut fend (l # ls) =
    (let ovlap = fend - int (unat (foff l)) in
     if ovlap \<le> 0 then Inr (l # ls)
     else if ovlap < int (unat (flen l)) then
       if nat ovlap > length (fdata l) then Inl Overrun
       else Inr (l\<lparr>flen := flen l - of_int ovlap, foff := foff l + of_int ovlap, fdata := drop (nat ovlap) (fdata l)\<rparr> # ls)
     else fragcut fend ls)"

text \<open>Put the new fragment in; \<open>None\<close> is when the one before covers it.\<close>

definition fraglink :: "fblk \<Rightarrow> fblk list \<Rightarrow> (fault + fblk list) option" where
  "fraglink bp bs =
    (case fragpos bp [] bs of
       (prevs, rest) \<Rightarrow>
         let ovlap = (case prevs of [] \<Rightarrow> 0 | p # _ \<Rightarrow> int (unat (foff p)) + int (unat (flen p)) - int (unat (foff bp))) in
         if ovlap > 0 \<and> ovlap \<ge> int (unat (flen bp)) then None
         else
           let prevs = (case prevs of [] \<Rightarrow> [] | p # ps \<Rightarrow> (if ovlap > 0 then p\<lparr>flen := flen p - of_int ovlap\<rparr> else p) # ps)
           in Some (bindE (fragcut (int (unat (foff bp)) + int (unat (flen bp))) rest) (\<lambda>rest. Inr (rev prevs @ bp # rest))))"

text \<open>Is there a complete packet?\<close>

fun fragdone :: "nat \<Rightarrow> fblk list \<Rightarrow> bool" where
  "fragdone pktposn [] = False"
| "fragdone pktposn (bl # bs) =
    (if unat (foff bl) \<noteq> pktposn then False
     else if \<not> flag_on (hfrag (fhdr bl)) IP_MF then True
     else fragdone (pktposn + unat (flen bl)) bs)"

text \<open>The blocks behind the first lose their headers.\<close>

fun fragjoin :: "fblk list \<Rightarrow> fault + u8 list list" where
  "fragjoin [] = Inr []"
| "fragjoin (bl # bs) =
    (if unat (flen bl) > length (fdata bl) then Inl Overrun
     else bindE (fragjoin bs) (\<lambda>ds. Inr (take (unat (flen bl)) (fdata bl) # ds)))"

text \<open>The first keeps its header and the length that says; the length of the whole is stored in it.\<close>

definition fragpkt :: "fblk list \<Rightarrow> fault + pkt4" where
  "fragpkt bs =
    (case bs of
       [] \<Rightarrow> Inl NilDeref
     | bl # rest \<Rightarrow>
         let len = unat (hlength (fhdr bl)) in
         if len > IP4HDR + length (fdata bl) \<or> len < IP4HDR then Inl Overrun
         else bindE (fragjoin rest) (\<lambda>ds.
           Inr ((fhdr bl)\<lparr>hlength := of_nat (len + sum_list (map (\<lambda>b. unat (flen b)) rest))\<rparr>, take (len - IP4HDR) (fdata bl) # ds)))"

text \<open>
  \<open>ip4reassemble\<close>: the packet given back, if any. \<open>offset\<close> is the field \<open>frag\<close> of the header.
\<close>

definition ip4reassemble :: "u32 \<Rightarrow> u16 \<Rightarrow> pkt4 \<Rightarrow> ip4 \<Rightarrow> fault + (pkt4 option \<times> ip4)" where
  "ip4reassemble now offset bp ip =
    (if flag_on offset IP_MBZ then Inr (None, stat InHdrErrors ip)
     else
       let ih = fst bp; data = concat (snd bp) in
       case fragscan now (src ih) (dst ih) (hid ih) (flist4 ip) of
         (before, r, n) \<Rightarrow>
           let ip = (statn n ReasmTimeout ip)\<lparr>nfrag4 := nfrag4 ip + n\<rparr>;
               rest = (case r of None \<Rightarrow> [] | Some (f, fs) \<Rightarrow> fs) in
           if tos ih = 0 \<and> offset AND NOT IP_FLAGS = 0 then
             (case r of
                None \<Rightarrow> Inr (Some (ih, [data]), ip\<lparr>flist4 := before\<rparr>)
              | Some (f, fs) \<Rightarrow> Inr (Some (ih, [data]), stat ReasmFails (ip\<lparr>flist4 := before @ fs, nfrag4 := nfrag4 ip + 1\<rparr>)))
           else
             let b = \<lparr>foff = push_bit 3 offset, flen = hlength ih - of_nat IP4HDR, fhdr = ih, fdata = data\<rparr> in
             case r of
               None \<Rightarrow>
                 bindE (ipfragallo4 now \<lparr>blist = [b], fsrc = src ih, fdst = dst ih, fid = hid ih, fage = 0\<rparr> (ip\<lparr>flist4 := before\<rparr>))
                   (\<lambda>ip. Inr (None, stat ReasmReqds ip))
             | Some (f, fs) \<Rightarrow>
                 (case fraglink b (blist f) of
                    None \<Rightarrow> Inr (None, ip\<lparr>flist4 := before @ f # fs\<rparr>)
                  | Some r \<Rightarrow>
                      bindE r (\<lambda>bs.
                        if fragdone 0 bs then
                          bindE (fragpkt bs) (\<lambda>p. Inr (Some p, stat ReasmOKs (ip\<lparr>flist4 := before @ fs, nfrag4 := nfrag4 ip + 1\<rparr>)))
                        else Inr (None, ip\<lparr>flist4 := before @ f\<lparr>blist := bs\<rparr> # fs\<rparr>))))"

section \<open>Receiving\<close>

text \<open>
  The two places that call \<open>ip4reassemble\<close>: the flag for more fragments is put into \<open>tos\<close> first. A field
  \<open>frag\<close> that is zero is a whole packet.
\<close>

definition defrag :: "u32 \<Rightarrow> pkt4 \<Rightarrow> ip4 \<Rightarrow> fault + (pkt4 option \<times> ip4)" where
  "defrag now bp ip =
    (let (h, data) = bp; frag = hfrag h in
     if frag \<noteq> 0 then ip4reassemble now frag (h\<lparr>tos := if flag_on frag IP_MF then 1 else 0\<rparr>, data) ip
     else Inr (Some bp, ip))"

text \<open>
  \<open>ipiput4\<close> for a packet of which \<open>None\<close> tells that it is shorter than a header. \<open>sumok\<close> is the flag \<open>Bipck\<close>: the
  interface has checked the sum. \<open>pullupblock\<close> moves bytes to the first block and changes none.
\<close>

definition ipiput4 :: "(u32 \<Rightarrow> bool) \<Rightarrow> (u32 \<Rightarrow> rt4 option) \<Rightarrow> (nat \<Rightarrow> ifc4) \<Rightarrow> (u8 \<Rightarrow> bool) \<Rightarrow> u32 \<Rightarrow> nat \<Rightarrow> bool \<Rightarrow> pkt4 option \<Rightarrow> ip4
    \<Rightarrow> fault + (act4 list \<times> ip4)" where
  "ipiput4 forme look ifcs rcv now inifc sumok pkt ip =
    (case pkt of
       None \<Rightarrow> Inr ([], stat InReceives ip)
     | Some (h, data) \<Rightarrow>
         if vihl h AND 0xf0 \<noteq> IP_VER4 then Inr ([Input6], ip)
         else
           let ip = stat InReceives ip;
               hl = 4 * (unat (vihl h) mod 16);
               bytes = concat data in
           if \<not> sumok \<and> hl > IP4HDR + length bytes then Inl Overrun
           else if \<not> sumok \<and> ipcsum (hdrbytes h @ bytes) \<noteq> 0 then Inr ([], stat InHdrErrors ip)
           else if hl < IP4HDR then Inr ([], stat InHdrErrors ip)
           else if forme (dst h) \<and> hl > IP4HDR + length bytes then Inl Overrun
           else
             let bp = (if hl \<noteq> IP4HDR \<and> forme (dst h)
                       then (h\<lparr>vihl := IP_VER4 OR IP_HLEN4, hlength := hlength h - of_nat hl + of_nat IP4HDR\<rparr>, [drop (hl - IP4HDR) bytes])
                       else (h, data)) in
             if \<not> forme (dst h) then
               if \<not> iprouting ip then Inr ([], ip)
               else case look (dst h) of
                 None \<Rightarrow> Inr ([], stat OutDiscards ip)
               | Some r \<Rightarrow>
                   if rt4ifc r = inifc then Inr ([], stat OutDiscards ip)
                   else if ttl h < 1 then Inr ([Ttlexceeded bp], stat InHdrErrors ip)
                   else
                     bindE (if reassemble (ifcs (rt4ifc r)) then defrag now bp ip else Inr (Some bp, ip)) (\<lambda>(p, ip).
                     case p of
                       None \<Rightarrow> Inr ([], ip)
                     | Some p \<Rightarrow>
                         bindE (ipoput4 look ifcs p True (ttl (fst p) - 1) (tos (fst p)) (stat ForwDatagrams ip)) (\<lambda>(rv, as, ip). Inr (as, ip)))
             else
               bindE (defrag now bp ip) (\<lambda>(p, ip).
               case p of
                 None \<Rightarrow> Inr ([], ip)
               | Some (h, data) \<Rightarrow>
                   let h = h\<lparr>hfrag := 0\<rparr> in
                   if rcv (proto h) then Inr ([Rcv (proto h) (h, data)], stat InDelivers ip)
                   else Inr ([], stat InUnknownProtos (stat InDiscards ip))))"

end
