(* ===== verification/Ipv4_Correct.thy ===== *)
theory Ipv4_Correct
  imports Ipv4
begin

text \<open>
  Fragmentation and reassembly fit together: the fragments \<open>ipoput4\<close> makes of a packet give the packet
  back, in whatever order and however often they arrive.
\<close>

section \<open>Fragment offsets\<close>

lemma small_bit:
  fixes q n :: nat
  assumes "q < 8192" and "13 \<le> n"
  shows "\<not> bit q n"
proof -
  have "(2::nat) ^ 13 \<le> 2 ^ n" using assms(2) by (rule power_increasing) simp
  then have "q < 2 ^ n" using assms(1) by simp
  then show ?thesis by (simp add: bit_iff_odd)
qed

lemma bit_mask_word: "n < 16 \<Longrightarrow> bit (push_bit n 1 :: u16) k \<longleftrightarrow> k = n"
  unfolding bit_push_bit_iff bit_1_iff by auto

lemma flag_bits:
  "bit IP_MF n \<longleftrightarrow> n = 13" "bit IP_DF n \<longleftrightarrow> n = 14" "bit IP_MBZ n \<longleftrightarrow> n = 15"
  using bit_mask_word[of 13 n] bit_mask_word[of 14 n] bit_mask_word[of 15 n]
  by (simp_all add: IP_MF_def IP_DF_def IP_MBZ_def push_bit_eq_mult)

lemma flag_on_bits: "flag_on w IP_MF \<longleftrightarrow> bit w 13" "flag_on w IP_DF \<longleftrightarrow> bit w 14" "flag_on w IP_MBZ \<longleftrightarrow> bit w 15"
proof -
  have "flag_on w f \<longleftrightarrow> (\<exists>n. bit w n \<and> bit f n)" for f :: u16
    using bit_eq_iff[of "w AND f" 0] bit_imp_le_length[of w] by (auto simp: flag_on_def bit_and_iff)
  then show "flag_on w IP_MF \<longleftrightarrow> bit w 13" "flag_on w IP_DF \<longleftrightarrow> bit w 14" "flag_on w IP_MBZ \<longleftrightarrow> bit w 15"
    by (simp_all add: flag_bits)
qed

lemma frag_word:
  fixes q :: nat and mf :: bool
  assumes q: "q < 8192" and w: "w = (if mf then of_nat q OR IP_MF else of_nat q)"
  shows "\<not> flag_on w IP_MBZ" and "flag_on w IP_MF \<longleftrightarrow> mf" and "push_bit 3 w = (of_nat (8 * q) :: u16)"
    and "w AND NOT IP_FLAGS = of_nat q"
proof -
  have b: "bit (of_nat q :: u16) n \<longleftrightarrow> n < 13 \<and> bit q n" for n
    using small_bit[OF q, of n] by (cases "n < 13") (auto simp: bit_of_nat_iff)
  show "\<not> flag_on w IP_MBZ" "flag_on w IP_MF \<longleftrightarrow> mf" by (simp_all add: w flag_on_bits b bit_or_iff flag_bits)
  show "w AND NOT IP_FLAGS = of_nat q" by (intro bit_eqI) (auto simp: w IP_FLAGS_def flag_bits b bit_and_iff bit_or_iff bit_not_iff)
  have "push_bit 3 w = push_bit 3 (of_nat q :: u16)" by (intro bit_eqI) (auto simp: w flag_bits bit_push_bit_iff bit_or_iff)
  then show "push_bit 3 w = (of_nat (8 * q) :: u16)" by (simp add: push_bit_eq_mult mult.commute)
qed

section \<open>Pieces of a packet\<close>

text \<open>
  A payload \<open>P\<close> cut at the places \<open>c 0 < \<dots> < c m\<close>, with headers \<open>hs\<close> that tell so, all for one reassembly
  queue.
\<close>

definition pieces :: "u8 list \<Rightarrow> (nat \<Rightarrow> nat) \<Rightarrow> nat \<Rightarrow> (nat \<Rightarrow> ip4hdr) \<Rightarrow> bool" where
  "pieces P c m hs \<longleftrightarrow> 2 \<le> m \<and> c 0 = 0 \<and> c m = length P \<and> length P + IP4HDR < IP_MAX \<and> (\<forall>i < m. c i < c (Suc i) \<and> 8 dvd c i)
     \<and> (\<forall>i < m. hlength (hs i) = of_nat (c (Suc i) - c i + IP4HDR)
          \<and> hfrag (hs i) = (if Suc i < m then of_nat (c i div 8) OR IP_MF else of_nat (c i div 8))
          \<and> src (hs i) = src (hs 0) \<and> dst (hs i) = dst (hs 0) \<and> hid (hs i) = hid (hs 0))"

definition fslice :: "u8 list \<Rightarrow> (nat \<Rightarrow> nat) \<Rightarrow> nat \<Rightarrow> u8 list" where
  "fslice P c i = take (c (Suc i) - c i) (drop (c i) P)"

text \<open>The fragment as it is queued.\<close>

definition fhead :: "nat \<Rightarrow> (nat \<Rightarrow> ip4hdr) \<Rightarrow> nat \<Rightarrow> ip4hdr" where
  "fhead m hs i = (hs i)\<lparr>tos := if Suc i < m then 1 else 0\<rparr>"

definition mkfrag :: "u8 list \<Rightarrow> (nat \<Rightarrow> nat) \<Rightarrow> nat \<Rightarrow> (nat \<Rightarrow> ip4hdr) \<Rightarrow> nat \<Rightarrow> fblk" where
  "mkfrag P c m hs i = \<lparr>foff = of_nat (c i), flen = of_nat (c (Suc i) - c i), fhdr = fhead m hs i, fdata = fslice P c i\<rparr>"

lemma piecesD:
  assumes "pieces P c m hs"
  shows "2 \<le> m" and "c 0 = 0" and "c m = length P" and "length P < 65516"
    and "i < m \<Longrightarrow> c i < c (Suc i)" and "i < m \<Longrightarrow> 8 dvd c i"
    and "i < m \<Longrightarrow> hlength (hs i) = of_nat (c (Suc i) - c i + 20)"
    and "i < m \<Longrightarrow> hfrag (hs i) = (if Suc i < m then of_nat (c i div 8) OR IP_MF else of_nat (c i div 8))"
    and "i < m \<Longrightarrow> src (hs i) = src (hs 0)" and "i < m \<Longrightarrow> dst (hs i) = dst (hs 0)" and "i < m \<Longrightarrow> hid (hs i) = hid (hs 0)"
proof -
  note d = assms[unfolded pieces_def IP4HDR_def IP_MAX_def]
  show "2 \<le> m" "c 0 = 0" "c m = length P" using d by blast+
  show "length P < 65516" using d by linarith
  show "i < m \<Longrightarrow> c i < c (Suc i)" "i < m \<Longrightarrow> 8 dvd c i" "i < m \<Longrightarrow> hlength (hs i) = of_nat (c (Suc i) - c i + 20)"
    "i < m \<Longrightarrow> hfrag (hs i) = (if Suc i < m then of_nat (c i div 8) OR IP_MF else of_nat (c i div 8))"
    "i < m \<Longrightarrow> src (hs i) = src (hs 0)" "i < m \<Longrightarrow> dst (hs i) = dst (hs 0)" "i < m \<Longrightarrow> hid (hs i) = hid (hs 0)"
    using d by blast+
qed

lemma cut_mono:
  assumes "pieces P c m hs" and "i \<le> j" and "j \<le> m"
  shows "c i \<le> c j"
  using assms(2,3)
proof (induction j)
  case (Suc j)
  then show ?case using piecesD(5)[OF assms(1), of j] by (cases "i = Suc j") auto
qed simp

lemma cut_less:
  assumes "pieces P c m hs" and "i < j" and "j \<le> m"
  shows "c i < c j"
  using cut_mono[OF assms(1), of "Suc i" j] piecesD(5)[OF assms(1), of i] assms(2,3) by simp

lemma cut_le_len: "pieces P c m hs \<Longrightarrow> i \<le> m \<Longrightarrow> c i \<le> length P"
  using cut_mono[of P c m hs i m] piecesD(3)[of P c m hs] by simp

lemma cut_small: "pieces P c m hs \<Longrightarrow> i \<le> m \<Longrightarrow> c i < 65516"
  using cut_le_len[of P c m hs i] piecesD(4)[of P c m hs] by simp

lemma length_fslice: "pieces P c m hs \<Longrightarrow> i < m \<Longrightarrow> length (fslice P c i) = c (Suc i) - c i"
  using cut_le_len[of P c m hs "Suc i"] by (simp add: fslice_def)

lemma mkfrag_nums:
  assumes "pieces P c m hs" and "i < m"
  shows "unat (foff (mkfrag P c m hs i)) = c i" and "unat (flen (mkfrag P c m hs i)) = c (Suc i) - c i"
  using cut_small[OF assms(1), of i] cut_small[OF assms(1), of "Suc i"] assms(2) by (simp_all add: mkfrag_def unat_of_nat)

lemma concat_slices: "pieces P c m hs \<Longrightarrow> n \<le> m \<Longrightarrow> concat (map (fslice P c) [0..<n]) = take (c n) P"
proof (induction n)
  case (Suc n)
  have "c n \<le> c (Suc n)" using cut_mono[of P c m hs n "Suc n"] Suc.prems by simp
  then have "take (c (Suc n)) P = take (c n) P @ fslice P c n" by (simp add: fslice_def flip: take_add)
  then show ?case using Suc by simp
qed (simp add: pieces_def)

section \<open>The queue of a packet\<close>

text \<open>A queue with some of the pieces, in order.\<close>

definition queued :: "u8 list \<Rightarrow> (nat \<Rightarrow> nat) \<Rightarrow> nat \<Rightarrow> (nat \<Rightarrow> ip4hdr) \<Rightarrow> nat set \<Rightarrow> fblk list \<Rightarrow> bool" where
  "queued P c m hs S bs \<longleftrightarrow> (\<exists>xs. sorted_wrt (<) xs \<and> set xs = S \<and> S \<subseteq> {..<m} \<and> bs = map (mkfrag P c m hs) xs)"

lemma foff_less:
  assumes "pieces P c m hs" and "i < m" and "j < m"
  shows "foff (mkfrag P c m hs j) < foff (mkfrag P c m hs i) \<longleftrightarrow> j < i"
proof -
  have "foff (mkfrag P c m hs j) < foff (mkfrag P c m hs i) \<longleftrightarrow> c j < c i"
    using mkfrag_nums(1)[OF assms(1)] assms(2,3) by (simp add: word_less_nat_alt)
  also have "\<dots> \<longleftrightarrow> j < i" using cut_less[OF assms(1)] cut_mono[OF assms(1), of i j] assms(2,3) by (metis leD less_imp_le not_le)
  finally show ?thesis .
qed

lemma fragpos_pieces:
  assumes "pieces P c m hs" and "i < m" and "set xs \<subseteq> {..<m}"
  shows "fragpos (mkfrag P c m hs i) ps (map (mkfrag P c m hs) xs)
    = (rev (map (mkfrag P c m hs) (takeWhile (\<lambda>j. j < i) xs)) @ ps, map (mkfrag P c m hs) (dropWhile (\<lambda>j. j < i) xs))"
  using assms(3) by (induction xs arbitrary: ps) (auto simp: foff_less[OF assms(1,2)])

lemma fragcut_pieces:
  assumes p: "pieces P c m hs" and i: "i < m" and "set ys \<subseteq> {i..<m}" and "sorted_wrt (<) ys"
  shows "fragcut (int (c (Suc i))) (map (mkfrag P c m hs) ys) = Inr (map (mkfrag P c m hs) (filter (\<lambda>j. j \<noteq> i) ys))"
  using assms(3,4)
proof (induction ys)
  case (Cons j ys)
  then have j: "i \<le> j" "j < m" and gt: "\<forall>k \<in> set ys. j < k" by auto
  note n = mkfrag_nums[OF p j(2)]
  show ?case
  proof (cases "j = i")
    case True
    have "c i < c (Suc i)" by (rule piecesD(5)[OF p i])
    then show ?thesis using Cons True n by simp
  next
    case False
    then have "c (Suc i) \<le> c j" using cut_mono[OF p, of "Suc i" j] j by simp
    moreover have "filter (\<lambda>j. j \<noteq> i) ys = ys" using gt j(1) by (intro filter_True) auto
    ultimately show ?thesis using False n by simp
  qed
qed simp

lemma fraglink_apart:
  assumes "fragpos bp [] bs = (prevs, rest)"
    and "(case prevs of [] \<Rightarrow> 0 | q # _ \<Rightarrow> int (unat (foff q)) + int (unat (flen q)) - int (unat (foff bp))) \<le> 0"
  shows "fraglink bp bs = Some (bindE (fragcut (int (unat (foff bp)) + int (unat (flen bp))) rest) (\<lambda>rest. Inr (rev prevs @ bp # rest)))"
  using assms by (cases prevs) (simp_all add: fraglink_def Let_def)

lemma fraglink_pieces:
  assumes p: "pieces P c m hs" and i: "i < m" and q: "queued P c m hs S bs"
  shows "\<exists>bs'. fraglink (mkfrag P c m hs i) bs = Some (Inr bs') \<and> queued P c m hs (insert i S) bs'"
proof -
  let ?f = "mkfrag P c m hs"
  obtain xs where x: "sorted_wrt (<) xs" "set xs = S" "S \<subseteq> {..<m}" "bs = map ?f xs" using q by (auto simp: queued_def)
  define a where "a = takeWhile (\<lambda>j. j < i) xs"
  define b where "b = dropWhile (\<lambda>j. j < i) xs"
  have ab: "xs = a @ b" by (simp add: a_def b_def)
  have al: "\<forall>j \<in> set a. j < i" by (auto simp: a_def dest: set_takeWhileD)
  have bg: "\<forall>j \<in> set b. i \<le> j"
  proof
    fix j assume j: "j \<in> set b"
    then obtain k ks where b: "b = k # ks" by (cases b) auto
    then have "i \<le> k" using hd_dropWhile[of "\<lambda>j. j < i" xs] by (simp add: b_def)
    then show "i \<le> j" using j b x(1) ab by (auto simp: sorted_wrt_append)
  qed
  have pos: "fragpos (?f i) [] bs = (rev (map ?f a), map ?f b)"
    using fragpos_pieces[OF p i, of xs "[]"] x by (simp add: a_def b_def)
  have ov: "(case rev (map ?f a) of [] \<Rightarrow> 0 | q # _ \<Rightarrow> int (unat (foff q)) + int (unat (flen q)) - int (unat (foff (?f i)))) \<le> 0"
  proof (cases a rule: rev_cases)
    case (snoc a' j)
    have j: "j < i" "j < m" using al snoc i by auto
    have "c (Suc j) \<le> c i" using cut_mono[OF p, of "Suc j" i] j i by simp
    moreover have "c j < c (Suc j)" by (rule piecesD(5)[OF p j(2)])
    ultimately show ?thesis using snoc mkfrag_nums[OF p j(2)] mkfrag_nums[OF p i] by simp
  qed simp
  have "int (unat (foff (?f i))) + int (unat (flen (?f i))) = int (c (Suc i))"
    using mkfrag_nums[OF p i] piecesD(5)[OF p i] by simp
  moreover have "fragcut (int (c (Suc i))) (map ?f b) = Inr (map ?f (filter (\<lambda>j. j \<noteq> i) b))"
    using x(1-3) ab bg by (intro fragcut_pieces[OF p i]) (auto simp: sorted_wrt_append)
  ultimately have l: "fraglink (?f i) bs = Some (Inr (map ?f (a @ i # filter (\<lambda>j. j \<noteq> i) b)))"
    using fraglink_apart[OF pos ov] by simp
  have "sorted_wrt (<) (a @ i # filter (\<lambda>j. j \<noteq> i) b)"
    using x(1) ab al bg by (fastforce simp: sorted_wrt_append sorted_wrt_filter)
  moreover have "set (a @ i # filter (\<lambda>j. j \<noteq> i) b) = insert i S" using x(2) ab by auto
  ultimately have "queued P c m hs (insert i S) (map ?f (a @ i # filter (\<lambda>j. j \<noteq> i) b))"
    using x(3) i unfolding queued_def by blast
  then show ?thesis using l by blast
qed

lemma fragdone_pieces:
  assumes p: "pieces P c m hs" and "k < m" and "sorted_wrt (<) xs" and "set xs \<subseteq> {k..<m}"
  shows "fragdone (c k) (map (mkfrag P c m hs) xs) \<longleftrightarrow> xs = [k..<m]"
  using assms(2-4)
proof (induction xs arbitrary: k)
  case Nil
  then show ?case by (simp add: upt_conv_Cons)
next
  case (Cons x xs)
  have xm: "x < m" "k \<le> x" using Cons.prems by auto
  have mf: "flag_on (hfrag (fhdr (mkfrag P c m hs x))) IP_MF \<longleftrightarrow> Suc x < m"
    using piecesD(8)[OF p xm(1)] cut_small[OF p, of x] xm by (intro frag_word(2)[of "c x div 8"]) (auto simp: mkfrag_def fhead_def)
  have ne: "c x \<noteq> c k" if "x \<noteq> k" using cut_less[OF p, of k x] xm that by simp
  have up: "[k..<m] = k # [Suc k..<m]" using Cons.prems(1) by (simp add: upt_conv_Cons)
  show ?case
  proof (cases "x = k")
    case False
    then show ?thesis using ne mkfrag_nums(1)[OF p xm(1)] up by simp
  next
    case True
    have sub: "set xs \<subseteq> {Suc k..<m}" using Cons.prems True by (auto simp: Suc_le_eq)
    show ?thesis
    proof (cases "Suc k < m")
      case True
      have "c k < c (Suc k)" by (rule piecesD(5)[OF p Cons.prems(1)])
      then show ?thesis using Cons.IH[OF True _ sub] Cons.prems(2) mf \<open>x = k\<close> True mkfrag_nums[OF p xm(1)] up by simp
    next
      case False
      then have "xs = []" using sub by auto
      then show ?thesis using False mf \<open>x = k\<close> mkfrag_nums[OF p xm(1)] up by simp
    qed
  qed
qed

lemma fragjoin_pieces:
  assumes "pieces P c m hs" and "set xs \<subseteq> {..<m}"
  shows "fragjoin (map (mkfrag P c m hs) xs) = Inr (map (fslice P c) xs)"
  using assms(2)
proof (induction xs)
  case (Cons x xs)
  then show ?case using mkfrag_nums(2)[OF assms(1), of x] length_fslice[OF assms(1), of x] by (simp add: mkfrag_def)
qed simp

lemma sum_pieces:
  assumes "pieces P c m hs" and "Suc k \<le> m"
  shows "sum_list (map (\<lambda>b. unat (flen b)) (map (mkfrag P c m hs) [1..<Suc k])) = c (Suc k) - c 1"
  using assms(2)
proof (induction k)
  case (Suc k)
  have "c 1 \<le> c (Suc k)" "c (Suc k) \<le> c (Suc (Suc k))" using cut_mono[OF assms(1)] Suc.prems by simp_all
  then show ?case using Suc mkfrag_nums(2)[OF assms(1), of "Suc k"] by (cases k) simp_all
qed simp

lemma unat_u16: "n < 65536 \<Longrightarrow> unat (of_nat n :: u16) = n"
  by (simp add: unat_of_nat)

lemma fragpkt_pieces:
  assumes p: "pieces P c m hs"
  shows "fragpkt (map (mkfrag P c m hs) [0..<m]) = Inr ((fhead m hs 0)\<lparr>hlength := of_nat (length P + IP4HDR)\<rparr>, map (fslice P c) [0..<m])"
proof -
  have m: "0 < m" "[0..<m] = 0 # [1..<m]" "Suc (m - 1) = m" using piecesD(1)[OF p] by (simp_all add: upt_conv_Cons)
  have "hlength (hs 0) = of_nat (c 1 + 20)" using piecesD(2)[OF p] piecesD(7)[OF p m(1)] by simp
  then have l0: "unat (hlength (hs 0)) = c 1 + 20"
    using unat_u16[of "c 1 + 20"] cut_small[OF p, of 1] m(1) by simp
  have s0: "length (fslice P c 0) = c 1" using length_fslice[OF p m(1)] piecesD(2)[OF p] by simp
  have sm: "sum_list (map (\<lambda>b. unat (flen b)) (map (mkfrag P c m hs) [1..<m])) = length P - c 1"
    using sum_pieces[OF p, of "m - 1"] m(3) piecesD(3)[OF p] by simp
  have le: "c 1 \<le> length P" using cut_le_len[OF p, of 1] m(1) by simp
  have "fragjoin (map (mkfrag P c m hs) [1..<m]) = Inr (map (fslice P c) [1..<m])" by (rule fragjoin_pieces[OF p]) auto
  moreover have "fhdr (mkfrag P c m hs 0) = fhead m hs 0" "fdata (mkfrag P c m hs 0) = fslice P c 0" "hlength (fhead m hs 0) = hlength (hs 0)"
    by (simp_all add: mkfrag_def fhead_def)
  ultimately show ?thesis using l0 s0 sm le unfolding fragpkt_def m(2)
    by (simp add: Let_def IP4HDR_def del: map_map)
qed

section \<open>The table of queues\<close>

definition samekey :: "ip4hdr \<Rightarrow> frag4 \<Rightarrow> bool" where
  "samekey h f \<longleftrightarrow> fsrc f = src h \<and> fdst f = dst h \<and> fid f = hid h"

text \<open>No queue for the packet, or just one, with the pieces in \<open>S\<close>.\<close>

definition holding :: "u8 list \<Rightarrow> (nat \<Rightarrow> nat) \<Rightarrow> nat \<Rightarrow> (nat \<Rightarrow> ip4hdr) \<Rightarrow> nat set \<Rightarrow> ip4 \<Rightarrow> bool" where
  "holding P c m hs S ip \<longleftrightarrow>
    (if S = {} then list_all (\<lambda>f. \<not> samekey (hs 0) f) (flist4 ip)
     else \<exists>before f fs. flist4 ip = before @ f # fs \<and> list_all (\<lambda>f. \<not> samekey (hs 0) f) (before @ fs) \<and> samekey (hs 0) f
       \<and> queued P c m hs S (blist f))"

lemma holdingI:
  assumes "flist4 ip = before @ f # fs" and "list_all (\<lambda>f. \<not> samekey (hs 0) f) before" and "list_all (\<lambda>f. \<not> samekey (hs 0) f) fs"
    and "samekey (hs 0) f" and "queued P c m hs S (blist f)" and "S \<noteq> {}"
  shows "holding P c m hs S ip"
  using assms unfolding holding_def by auto

lemma fragscan_none:
  "list_all (\<lambda>f. \<not> samekey h f) fs \<Longrightarrow> fragscan now (src h) (dst h) (hid h) fs
     = (filter (\<lambda>f. \<not> fage f < now) fs, None, length (filter (\<lambda>f. fage f < now) fs))"
  by (induction fs) (auto simp: samekey_def)

lemma fragscan_some:
  "list_all (\<lambda>f. \<not> samekey h f) before \<Longrightarrow> samekey h f \<Longrightarrow> fragscan now (src h) (dst h) (hid h) (before @ f # fs)
     = (filter (\<lambda>f. \<not> fage f < now) before, Some (f, fs), length (filter (\<lambda>f. fage f < now) before))"
  by (induction before) (auto simp: samekey_def)

lemma statn_fields [simp]: "flist4 (statn n i ip) = flist4 ip" "nfrag4 (statn n i ip) = nfrag4 ip"
  by (induction n arbitrary: ip) (simp_all add: stat_def)

lemma stat_fields [simp]: "flist4 (stat i ip) = flist4 ip" "nfrag4 (stat i ip) = nfrag4 ip"
  by (simp_all add: stat_def)

lemma list_all_filter: "list_all P xs \<Longrightarrow> list_all P (filter Q xs)"
  by (auto simp: list_all_iff)

lemma list_all_butlast: "list_all P xs \<Longrightarrow> list_all P (butlast xs)"
  by (auto simp: list_all_iff dest: in_set_butlastD)

lemma piece_word:
  assumes p: "pieces P c m hs" and i: "i < m"
  shows "\<not> flag_on (hfrag (hs i)) IP_MBZ" and "flag_on (hfrag (hs i)) IP_MF \<longleftrightarrow> Suc i < m" and "push_bit 3 (hfrag (hs i)) = of_nat (c i)"
    and "hfrag (hs i) \<noteq> 0" and "Suc i < m \<or> hfrag (hs i) AND NOT IP_FLAGS \<noteq> 0"
proof -
  have q: "c i div 8 < 8192" "8 * (c i div 8) = c i" using cut_small[OF p, of i] piecesD(6)[OF p i] i by simp_all
  note fw = frag_word[OF q(1) piecesD(8)[OF p i]]
  have nz: "of_nat (c i div 8) \<noteq> (0 :: u16)" if "\<not> Suc i < m"
  proof -
    have "0 < i" using that i piecesD(1)[OF p] by simp
    then have "0 < c i" using cut_less[OF p, of 0 i] piecesD(2)[OF p] i by simp
    then have "0 < c i div 8" using q(2) by (cases "c i div 8") auto
    then show ?thesis using q(1) nat_dvd_not_less[of "c i div 8" 65536] by (simp add: word_of_nat_eq_0_iff)
  qed
  show "\<not> flag_on (hfrag (hs i)) IP_MBZ" "flag_on (hfrag (hs i)) IP_MF \<longleftrightarrow> Suc i < m" by (fact fw(1), fact fw(2))
  show "push_bit 3 (hfrag (hs i)) = of_nat (c i)" using fw(3) q(2) by simp
  show "Suc i < m \<or> hfrag (hs i) AND NOT IP_FLAGS \<noteq> 0" using fw(4) nz by metis
  then show "hfrag (hs i) \<noteq> 0" using fw(2) by (auto simp: flag_on_def)
qed

text \<open>What \<open>defrag\<close> does with a piece.\<close>

lemma defrag_piece:
  assumes p: "pieces P c m hs" and i: "i < m" and d: "concat data = fslice P c i"
  shows "defrag now (hs i, data) ip =
      (case fragscan now (src (hs 0)) (dst (hs 0)) (hid (hs 0)) (flist4 ip) of
         (before, r, n) \<Rightarrow>
           let ip = (statn n ReasmTimeout ip)\<lparr>nfrag4 := nfrag4 ip + n\<rparr> in
           case r of
             None \<Rightarrow> bindE (ipfragallo4 now \<lparr>blist = [mkfrag P c m hs i], fsrc = src (hs 0), fdst = dst (hs 0), fid = hid (hs 0), fage = 0\<rparr>
                        (ip\<lparr>flist4 := before\<rparr>)) (\<lambda>ip. Inr (None, stat ReasmReqds ip))
           | Some (f, fs) \<Rightarrow>
               (case fraglink (mkfrag P c m hs i) (blist f) of
                  None \<Rightarrow> Inr (None, ip\<lparr>flist4 := before @ f # fs\<rparr>)
                | Some r \<Rightarrow> bindE r (\<lambda>bs.
                    if fragdone 0 bs then
                      bindE (fragpkt bs) (\<lambda>p. Inr (Some p, stat ReasmOKs (ip\<lparr>flist4 := before @ fs, nfrag4 := nfrag4 ip + 1\<rparr>)))
                    else Inr (None, ip\<lparr>flist4 := before @ f\<lparr>blist := bs\<rparr> # fs\<rparr>))))"
proof -
  note w = piece_word[OF p i]
  have "defrag now (hs i, data) ip = ip4reassemble now (hfrag (hs i)) (fhead m hs i, data) ip"
    using w(2,4) by (simp add: defrag_def Let_def fhead_def)
  moreover have b: "\<lparr>foff = push_bit 3 (hfrag (hs i)), flen = hlength (fhead m hs i) - of_nat IP4HDR, fhdr = fhead m hs i, fdata = concat data\<rparr>
      = mkfrag P c m hs i"
    using w(3) d piecesD(7)[OF p i] by (simp add: mkfrag_def fhead_def IP4HDR_def)
  moreover have k: "src (fhead m hs i) = src (hs 0)" "dst (fhead m hs i) = dst (hs 0)" "hid (fhead m hs i) = hid (hs 0)"
    using piecesD(9-11)[OF p i] by (simp_all add: fhead_def)
  moreover have t: "\<not> (tos (fhead m hs i) = 0 \<and> hfrag (hs i) AND NOT IP_FLAGS = 0)" using w(5) by (auto simp: fhead_def)
  ultimately show ?thesis using w(1) by (simp add: ip4reassemble_def Let_def if_not_P[OF t] split: prod.split option.split)
qed

definition whole :: "u8 list \<Rightarrow> (nat \<Rightarrow> nat) \<Rightarrow> nat \<Rightarrow> (nat \<Rightarrow> ip4hdr) \<Rightarrow> pkt4" where
  "whole P c m hs = ((fhead m hs 0)\<lparr>hlength := of_nat (length P + IP4HDR)\<rparr>, map (fslice P c) [0..<m])"

lemma concat_whole: "pieces P c m hs \<Longrightarrow> concat (snd (whole P c m hs)) = P"
  using concat_slices[of P c m hs m] piecesD(3)[of P c m hs] by (simp add: whole_def)

lemma ipfragallo4_ok:
  assumes "nfrag4 ip \<noteq> 0 \<or> flist4 ip \<noteq> []"
  shows "\<exists>ip' fs. ipfragallo4 now f ip = Inr ip' \<and> flist4 ip' = f\<lparr>fage := now + 30000\<rparr> # fs \<and> set fs \<subseteq> set (flist4 ip)"
  using assms by (auto simp: ipfragallo4_def Let_def dest: in_set_butlastD)

lemma first_piece:
  assumes p: "pieces P c m hs" and i: "i < m" and d: "concat data = fslice P c i"
    and h: "holding P c m hs {} ip" and room: "0 < nfrag4 ip + length (flist4 ip)"
  shows "\<exists>ip'. defrag now (hs i, data) ip = Inr (None, ip') \<and> holding P c m hs {i} ip'"
proof -
  have none: "list_all (\<lambda>f. \<not> samekey (hs 0) f) (flist4 ip)" using h by (simp add: holding_def)
  let ?k = "filter (\<lambda>f. \<not> fage f < now) (flist4 ip)" and ?n = "length (filter (\<lambda>f. fage f < now) (flist4 ip))"
  let ?f = "\<lparr>blist = [mkfrag P c m hs i], fsrc = src (hs 0), fdst = dst (hs 0), fid = hid (hs 0), fage = 0\<rparr>"
  define ip1 where "ip1 = (statn ?n ReasmTimeout ip)\<lparr>nfrag4 := nfrag4 ip + ?n\<rparr>\<lparr>flist4 := ?k\<rparr>"
  have r: "defrag now (hs i, data) ip = bindE (ipfragallo4 now ?f ip1) (\<lambda>ip. Inr (None, stat ReasmReqds ip))"
    by (simp only: defrag_piece[OF p i d] fragscan_none[OF none] prod.case option.case Let_def ip1_def)
  have "length ?k + ?n = length (flist4 ip)" using sum_length_filter_compl[of "\<lambda>f. fage f < now" "flist4 ip"] by simp
  then have "nfrag4 ip1 \<noteq> 0 \<or> flist4 ip1 \<noteq> []" using room by (auto simp: ip1_def)
  from ipfragallo4_ok[OF this] obtain ip2 fs where a: "ipfragallo4 now ?f ip1 = Inr ip2" "flist4 ip2 = ?f\<lparr>fage := now + 30000\<rparr> # fs"
    "set fs \<subseteq> set ?k" by (fastforce simp: ip1_def)
  have "queued P c m hs {i} [mkfrag P c m hs i]" using i by (auto simp: queued_def intro!: exI[of _ "[i]"])
  moreover have "list_all (\<lambda>f. \<not> samekey (hs 0) f) fs" using a(3) none by (auto simp: list_all_iff)
  ultimately have "holding P c m hs {i} (stat ReasmReqds ip2)"
    using a(2) unfolding holding_def by (auto simp: samekey_def intro!: exI[of _ "[]"])
  then show ?thesis using r a(1) by auto
qed

lemma next_piece:
  assumes p: "pieces P c m hs" and i: "i < m" and d: "concat data = fslice P c i" and h: "holding P c m hs S ip" and ne: "S \<noteq> {}"
  shows "\<exists>r ip'. defrag now (hs i, data) ip = Inr (r, ip')
    \<and> (if insert i S = {..<m} then r = Some (whole P c m hs) \<and> holding P c m hs {} ip' else r = None \<and> holding P c m hs (insert i S) ip')"
proof -
  obtain before f fs where t: "flist4 ip = before @ f # fs" "list_all (\<lambda>f. \<not> samekey (hs 0) f) before" "list_all (\<lambda>f. \<not> samekey (hs 0) f) fs"
    "samekey (hs 0) f" "queued P c m hs S (blist f)" using h ne by (auto simp: holding_def)
  let ?k = "filter (\<lambda>f. \<not> fage f < now) before" and ?n = "length (filter (\<lambda>f. fage f < now) before)"
  define ip1 where "ip1 = (statn ?n ReasmTimeout ip)\<lparr>nfrag4 := nfrag4 ip + ?n\<rparr>"
  obtain bs where l: "fraglink (mkfrag P c m hs i) (blist f) = Some (Inr bs)" "queued P c m hs (insert i S) bs"
    using fraglink_pieces[OF p i t(5)] by blast
  have r: "defrag now (hs i, data) ip = (if fragdone 0 bs
      then bindE (fragpkt bs) (\<lambda>p. Inr (Some p, stat ReasmOKs (ip1\<lparr>flist4 := ?k @ fs, nfrag4 := nfrag4 ip1 + 1\<rparr>)))
      else Inr (None, ip1\<lparr>flist4 := ?k @ f\<lparr>blist := bs\<rparr> # fs\<rparr>))"
    by (simp only: defrag_piece[OF p i d] t(1) fragscan_some[OF t(2,4)] prod.case option.case Let_def l(1) bindE_simps ip1_def)
  obtain xs where x: "sorted_wrt (<) xs" "set xs = insert i S" "insert i S \<subseteq> {..<m}" "bs = map (mkfrag P c m hs) xs"
    using l(2) by (auto simp: queued_def)
  have "set xs \<subseteq> {0..<m}" using x(2,3) by auto
  then have fd: "fragdone 0 bs \<longleftrightarrow> xs = [0..<m]"
    using fragdone_pieces[OF p _ x(1), of 0] x(4) i piecesD(2)[OF p] by simp
  have all: "xs = [0..<m] \<longleftrightarrow> insert i S = {..<m}"
  proof
    assume "xs = [0..<m]"
    then have "set xs = {..<m}" by (simp add: atLeast0LessThan)
    then show "insert i S = {..<m}" by (simp only: x(2))
  next
    assume e: "insert i S = {..<m}"
    have "xs = sorted_list_of_set {..<m}" using x(1,2) e strict_sorted_equal by (metis finite_lessThan set_sorted_list_of_set strict_sorted_list_of_set)
    then show "xs = [0..<m]" by (metis sorted_list_of_set_range atLeast0LessThan)
  qed
  have dn: "fragdone 0 bs \<longleftrightarrow> insert i S = {..<m}" "insert i S = {..<m} \<Longrightarrow> xs = [0..<m]" using fd all by simp_all
  have nk: "list_all (\<lambda>f. \<not> samekey (hs 0) f) ?k" by (rule list_all_filter[OF t(2)])
  show ?thesis
  proof (cases "insert i S = {..<m}")
    case True
    then have "fragpkt bs = Inr (whole P c m hs)" using fragpkt_pieces[OF p] x(4) dn(2) by (simp add: whole_def)
    then show ?thesis using r dn(1) True nk t(3) by (simp add: holding_def)
  next
    case False
    have "holding P c m hs (insert i S) (ip1\<lparr>flist4 := ?k @ f\<lparr>blist := bs\<rparr> # fs\<rparr>)"
      by (rule holdingI[of _ ?k "f\<lparr>blist := bs\<rparr>" fs]) (use nk t(3,4) l(2) in \<open>simp_all add: samekey_def\<close>)
    then show ?thesis using r dn(1) False by simp
  qed
qed

section \<open>Any order of arrival\<close>

text \<open>A run: packets with the times they arrive at, and what is given back for each.\<close>

fun arrivals :: "(u32 \<times> pkt4) list \<Rightarrow> ip4 \<Rightarrow> fault + (pkt4 option list \<times> ip4)" where
  "arrivals [] ip = Inr ([], ip)"
| "arrivals ((now, p) # ps) ip = bindE (defrag now p ip) (\<lambda>(r, ip). bindE (arrivals ps ip) (\<lambda>(rs, ip). Inr (r # rs, ip)))"

lemma arrivals_pieces:
  assumes p: "pieces P c m hs" and "\<forall>(now, j) \<in> set js. j < m" and "i < m"
    and "S \<union> snd ` set js \<noteq> {..<m}" and "insert i (S \<union> snd ` set js) = {..<m}"
    and "holding P c m hs S ip" and "S = {} \<longrightarrow> 0 < nfrag4 ip + length (flist4 ip)" and "S \<subseteq> {..<m}"
    and d: "\<And>j. j < m \<Longrightarrow> concat (data j) = fslice P c j"
  shows "\<exists>ip'. arrivals (map (\<lambda>(now, j). (now, hs j, data j)) (js @ [(t, i)])) ip = Inr (replicate (length js) None @ [Some (whole P c m hs)], ip')
    \<and> holding P c m hs {} ip'"
  using assms(2,4-8)
proof (induction js arbitrary: S ip)
  case Nil
  have e: "insert i S = {..<m}" using Nil.prems(3) by simp
  have "S \<noteq> {}"
  proof
    assume "S = {}"
    then have "{..<m} = {i}" using e by simp
    moreover have "0 \<in> {..<m}" "1 \<in> {..<m}" using piecesD(1)[OF p] by simp_all
    ultimately show False by simp
  qed
  from next_piece[OF p assms(3) d[OF assms(3)] Nil.prems(4) this, of t] show ?case unfolding if_P[OF e] by auto
next
  case (Cons nj js)
  obtain now j where nj: "nj = (now, j)" by fastforce
  have j: "j < m" using Cons.prems(1) nj by auto
  have sub: "insert j S \<union> snd ` set js = S \<union> snd ` set (nj # js)" using nj by auto
  have ne: "insert j S \<noteq> {..<m}" using Cons.prems(1,2) nj Cons.prems(6) by (auto split: prod.splits)
  obtain ip1 where s: "defrag now (hs j, data j) ip = Inr (None, ip1)" "holding P c m hs (insert j S) ip1"
  proof (cases "S = {}")
    case True
    then show ?thesis using first_piece[OF p j d[OF j], of ip now] Cons.prems(4,5) that by auto
  next
    case False
    then show ?thesis using next_piece[OF p j d[OF j] Cons.prems(4), of now] ne that by auto
  qed
  have "\<exists>ip'. arrivals (map (\<lambda>(now, j). (now, hs j, data j)) (js @ [(t, i)])) ip1
      = Inr (replicate (length js) None @ [Some (whole P c m hs)], ip') \<and> holding P c m hs {} ip'"
    using Cons.prems(1,2,3,6) sub s(2) j by (intro Cons.IH[of "insert j S"]) auto
  then show ?case using s(1) nj by auto
qed

section \<open>The fragments ipoput4 makes\<close>

lemma takechunk_ok:
  "n \<le> length (concat xs) \<Longrightarrow> \<exists>r. takechunk n xs = Some (take n (concat xs), r) \<and> concat r = drop n (concat xs)"
proof (induction n xs rule: takechunk.induct)
  case (2 n x xs)
  show ?case
  proof (cases "n = 0")
    case False
    define b where "b = (if length x < n then length x else n)"
    define ys where "ys = (if drop b x = [] then xs else drop b x # xs)"
    have bl: "b \<le> n" "b \<le> length x" "concat ys = drop b (concat (x # xs))" by (auto simp: b_def ys_def)
    have "n - b \<le> length (concat ys)" using 2(2) bl by simp
    then obtain r where r: "takechunk (n - b) ys = Some (take (n - b) (concat ys), r)" "concat r = drop (n - b) (concat ys)"
      using 2(1)[OF False b_def] unfolding ys_def by blast
    have "take b x @ take (n - b) (drop b (concat (x # xs))) = take n (concat (x # xs))"
      using bl(1,2) take_add[of b "n - b" "concat (x # xs)"] by simp
    moreover have "takechunk n (x # xs) = map_option (\<lambda>(d, r). (take b x @ d, r)) (takechunk (n - b) ys)"
      using False by (simp only: takechunk.simps(2) Let_def b_def ys_def if_False)
    ultimately have "takechunk n (x # xs) = Some (take n (concat (x # xs)), r)" unfolding r(1) bl(3) by (simp only: option.map prod.case)
    moreover have "concat r = drop n (concat (x # xs))" unfolding r(2) bl(3) drop_drop using bl(1) by simp
    ultimately show ?thesis by blast
  qed simp
qed simp

definition cuts :: "nat \<Rightarrow> nat \<Rightarrow> nat \<Rightarrow> nat" where
  "cuts s n i = min (i * s) n"

definition fraghdr :: "ip4hdr \<Rightarrow> nat \<Rightarrow> u8 list \<Rightarrow> (nat \<Rightarrow> nat) \<Rightarrow> nat \<Rightarrow> nat \<Rightarrow> ip4hdr" where
  "fraghdr eh lid P c m i = sumhdr
     (eh\<lparr>hfrag := if Suc i < m then of_nat (c i div 8) OR IP_MF else of_nat (c i div 8),
         hlength := of_nat (c (Suc i) - c i + IP4HDR), hid := of_nat lid\<rparr>) (fslice P c i)"

lemma sumhdr_fields [simp]:
  "hlength (sumhdr h r) = hlength h" "hfrag (sumhdr h r) = hfrag h" "hid (sumhdr h r) = hid h" "src (sumhdr h r) = src h"
  "dst (sumhdr h r) = dst h" "proto (sumhdr h r) = proto h" "vihl (sumhdr h r) = vihl h"
  by (simp_all add: sumhdr_def Let_def)

lemma fragloop_pieces:
  fixes P :: "u8 list"
  defines "n \<equiv> length P"
  assumes s: "0 < s" "(m - 1) * s < n" "n \<le> m * s" "0 < m"
  shows "i \<le> m \<Longrightarrow> concat xp = drop (cuts s n i) P \<Longrightarrow>
    \<exists>ip'. fragloop eh lid s n (cuts s n i) xp ip = (map (\<lambda>j. (fraghdr eh lid P (cuts s n) m j, [fslice P (cuts s n) j])) [i..<m], True, ip')"
proof (induction "m - i" arbitrary: i xp ip)
  case 0
  then show ?case using s(3) by (simp add: fragloop.simps[of _ _ _ n n] cuts_def)
next
  case (Suc k)
  then have i: "i < m" by simp
  have "i * s \<le> (m - 1) * s" using i by (intro mult_right_mono) simp_all
  then have "i * s < n" using s(2) by (rule le_less_trans)
  then have ci: "cuts s n i = i * s" "i * s < n" by (simp_all add: cuts_def)
  have lst: "i * s + s \<ge> n \<longleftrightarrow> \<not> Suc i < m"
  proof
    assume "i * s + s \<ge> n"
    then have "(m - 1) * s < Suc i * s" using s(2) by simp
    then have "m - 1 < Suc i" by (rule mult_less_cancel2[THEN iffD1, THEN conjunct2])
    then show "\<not> Suc i < m" by simp
  next
    assume "\<not> Suc i < m"
    then have "Suc i = m" using i by simp
    then show "i * s + s \<ge> n" using s(3) by (metis add.commute mult_Suc)
  qed
  define l where "l = cuts s n (Suc i) - cuts s n i"
  have sl: "(if i * s + s \<ge> n then n - i * s else s) = l" "cuts s n i + l = cuts s n (Suc i)" "0 < l"
    using ci s(1) by (auto simp: l_def cuts_def)
  have le: "l \<le> length (concat xp)" using Suc.prems(2) ci sl by (auto simp: n_def cuts_def)
  obtain r where r: "takechunk l xp = Some (take l (concat xp), r)" "concat r = drop l (concat xp)" using takechunk_ok[OF le] by blast
  have d: "take l (concat xp) = fslice P (cuts s n) i" using Suc.prems(2) by (simp add: fslice_def l_def)
  have cr: "concat r = drop (cuts s n (Suc i)) P" using r(2) Suc.prems(2) sl(2) by (simp add: add.commute)
  obtain ip' where rest: "fragloop eh lid s n (cuts s n (Suc i)) r (stat FragCreates ip)
      = (map (\<lambda>j. (fraghdr eh lid P (cuts s n) m j, [fslice P (cuts s n) j])) [Suc i..<m], True, ip')"
  proof -
    have "k = m - Suc i" "Suc i \<le> m" using Suc.hyps(2) i by simp_all
    from Suc.hyps(1)[OF this cr, of "stat FragCreates ip"] show thesis using that by blast
  qed
  have same: "fragloop eh lid l n (cuts s n (Suc i)) r (stat FragCreates ip) = fragloop eh lid s n (cuts s n (Suc i)) r (stat FragCreates ip)"
  proof (cases "Suc i < m")
    case True
    then show ?thesis using lst sl(1) by simp
  next
    case False
    then have "cuts s n (Suc i) = n" using lst by (simp add: cuts_def add.commute)
    then show ?thesis by (simp add: fragloop.simps[of _ _ _ n n])
  qed
  have up: "[i..<m] = i # [Suc i..<m]" using i by (simp add: upt_conv_Cons)
  have lst': "cuts s n i + s \<ge> n \<longleftrightarrow> \<not> Suc i < m" unfolding ci(1) by (rule lst)
  have sl': "(if \<not> Suc i < m then n - cuts s n i else s) = l" using sl(1) unfolding lst ci(1) .
  have cond: "cuts s n i < n \<and> 0 < s" using ci s(1) by simp
  have hd: "sumhdr (eh\<lparr>hfrag := if \<not> Suc i < m then of_nat (cuts s n i div 8) else of_nat (cuts s n i div 8) OR IP_MF,
      hlength := of_nat (l + IP4HDR), hid := of_nat lid\<rparr>) (fslice P (cuts s n) i) = fraghdr eh lid P (cuts s n) m i"
    by (simp add: fraghdr_def l_def)
  have "fragloop eh lid s n (cuts s n i) xp ip = ((fraghdr eh lid P (cuts s n) m i, [fslice P (cuts s n) i])
      # map (\<lambda>j. (fraghdr eh lid P (cuts s n) m j, [fslice P (cuts s n) j])) [Suc i..<m], True, ip')"
    unfolding fragloop.simps[of eh lid s n "cuts s n i" xp ip]
    by (simp only: if_P[OF cond] Let_def lst' sl' r(1) option.case prod.case sl(2) same rest d hd)
  then show ?case unfolding up by auto
qed

text \<open>A header with its sum stored verifies.\<close>

lemma length_hdrbytes [simp]: "length (hdrbytes h) = 20"
  by (simp add: hdrbytes_def bytes2_def bytes4_def)

lemma hdrbytes_cksum: "hdrbytes (h\<lparr>cksum := c\<rparr>) @ r = (hdrbytes h @ r)[10 := ucast (drop_bit 8 c), 11 := ucast c]"
  by (simp add: hdrbytes_def bytes2_def bytes4_def)

lemma hdrbytes_nth [simp]: "(hdrbytes h @ r) ! 0 = vihl h" "(hdrbytes (h\<lparr>cksum := 0\<rparr>) @ r) ! 10 = 0" "(hdrbytes (h\<lparr>cksum := 0\<rparr>) @ r) ! 11 = 0"
  by (simp_all add: hdrbytes_def bytes2_def bytes4_def)

lemma sumhdr_verifies:
  assumes "unat (vihl h) mod 16 = 5"
  shows "ipcsum (hdrbytes (sumhdr h r) @ r) = 0"
proof -
  define b where "b = hdrbytes (h\<lparr>cksum := 0\<rparr>) @ r"
  have "hdrbytes (sumhdr h r) @ r = b[10 := ucast (drop_bit 8 (ipcsum b)), 11 := ucast (ipcsum b)]"
    unfolding sumhdr_def Let_def b_def by (rule hdrbytes_cksum)
  moreover have "b ! 0 = vihl h" "b ! 10 = 0" "b ! 11 = 0" "20 \<le> length b" unfolding b_def by simp_all
  ultimately show ?thesis using ipcsum_stored[of b] assms by simp
qed

lemma cut_pieces:
  fixes P :: "u8 list"
  defines "n \<equiv> length P"
  assumes s: "0 < s" "8 dvd s" "s < n" "n + IP4HDR < IP_MAX" and m: "(m - 1) * s < n" "n \<le> m * s"
  shows "pieces P (cuts s n) m (fraghdr eh lid P (cuts s n) m)"
proof -
  have "2 \<le> m"
  proof (rule ccontr)
    assume "\<not> 2 \<le> m"
    then have "m * s \<le> 1 * s" by (intro mult_right_mono) simp_all
    then have "n \<le> 1 * s" by (rule order_trans[OF m(2)])
    then show False using s(3) by simp
  qed
  moreover have "cuts s n i < cuts s n (Suc i) \<and> 8 dvd cuts s n i" if "i < m" for i
  proof -
    have "i * s \<le> (m - 1) * s" using that by (intro mult_right_mono) simp_all
    then have "i * s < n" using m(1) by (rule le_less_trans)
    then show ?thesis using s(1,2) by (auto simp: cuts_def)
  qed
  moreover have "cuts s n 0 = 0" "cuts s n m = length P" using m(2) by (simp_all add: cuts_def n_def)
  ultimately show ?thesis using s(4) by (simp add: pieces_def fraghdr_def n_def)
qed

lemma last_cut:
  fixes n s :: nat
  assumes "0 < n" and "0 < s"
  shows "\<exists>m. 0 < m \<and> (m - 1) * s < n \<and> n \<le> m * s"
proof -
  define q where "q = (n - 1) div s"
  have "q * s \<le> n - 1" "n - 1 < s + q * s"
    unfolding q_def by (rule div_times_less_eq_dividend, rule dividend_less_div_times[OF assms(2)])
  then show ?thesis using assms(1) by (intro exI[of _ "q + 1"]) auto
qed

lemma ipoput4_fragments:
  assumes look: "look (dst eh) = Some r" "gate4 look eh r = (i, gw)" and ifc: "canlock (ifcs i)" "medium (ifcs i) = Some hsize"
    and mtu: "28 \<le> maxtu (ifcs i) - hsize" "maxtu (ifcs i) - hsize < int (pktlen (eh, data))"
    and len: "pktlen (eh, data) < IP_MAX" and df: "\<not> flag_on (hfrag eh) IP_DF"
  shows "\<exists>m c hs ip'. ipoput4 look ifcs (eh, data) False t s ip = Inr (0, map (\<lambda>j. Bwrite i (hs j, [fslice (concat data) c j]) gw) [0..<m], ip')
    \<and> pieces (concat data) c m hs
    \<and> (\<forall>j < m. int (IP4HDR + length (fslice (concat data) c j)) \<le> maxtu (ifcs i) - hsize
         \<and> ipcsum (hdrbytes (hs j) @ fslice (concat data) c j) = 0
         \<and> src (hs j) = src eh \<and> dst (hs j) = dst eh \<and> proto (hs j) = proto eh \<and> hid (hs j) = of_nat (id4 ip + 1))"
proof -
  define P where "P = concat data"
  define seg where "seg = nat ((maxtu (ifcs i) - hsize - int IP4HDR) div 8 * 8)"
  define eh' where "eh' = eh\<lparr>vihl := IP_VER4 OR IP_HLEN4, tos := s, ttl := t\<rparr>"
  have pl: "pktlen (eh, data) = IP4HDR + length P" by (simp add: pktlen_def P_def)
  have sg: "8 \<le> seg" "8 dvd seg" "int seg \<le> maxtu (ifcs i) - hsize - 20" "int seg = (maxtu (ifcs i) - hsize - int IP4HDR) div 8 * 8"
  proof -
    define q where "q = (maxtu (ifcs i) - hsize - int IP4HDR) div 8"
    have q: "1 \<le> q" "q * 8 \<le> maxtu (ifcs i) - hsize - 20" using mtu(1) by (simp_all add: q_def IP4HDR_def)
    have "seg = nat q * 8" using q(1) by (simp add: seg_def q_def nat_mult_distrib)
    then show "8 \<le> seg" "8 dvd seg" "int seg \<le> maxtu (ifcs i) - hsize - 20" "int seg = (maxtu (ifcs i) - hsize - int IP4HDR) div 8 * 8"
      using q by (simp_all add: q_def[symmetric])
  qed
  have lt: "seg < length P" using sg(3) mtu(2) pl by (simp add: IP4HDR_def)
  obtain m where m: "0 < m" "(m - 1) * seg < length P" "length P \<le> m * seg" 
  proof -
    have "0 < length P" "0 < seg" using lt sg(1) by linarith+
    from last_cut[OF this] show thesis using that by blast
  qed
  define c where "c = cuts seg (length P)"
  define hs where "hs = fraghdr eh' (id4 ip + 1) P c m"
  have p: "pieces P c m hs" unfolding c_def hs_def using sg lt m len pl by (intro cut_pieces) simp_all
  have c0: "cuts seg (length P) 0 = 0" by (simp add: cuts_def)
  obtain ip' where l: "fragloop eh' (id4 ip + 1) seg (length P) 0 data ((stat OutRequests ip)\<lparr>id4 := id4 ip + 1\<rparr>)
      = (map (\<lambda>j. (hs j, [fslice P c j])) [0..<m], True, ip')"
  proof -
    have "0 < seg" "concat data = drop (cuts seg (length P) 0) P" unfolding c0 using sg(1) by (simp_all add: P_def)
    from fragloop_pieces[OF this(1) m(2,3,1) _ this(2), of eh' "id4 ip + 1" "(stat OutRequests ip)\<lparr>id4 := id4 ip + 1\<rparr>"]
    show thesis using that unfolding c0 hs_def c_def by blast
  qed
  have "ipoput4 look ifcs (eh, data) False t s ip
      = Inr (0, map (\<lambda>p. Bwrite i p gw) (map (\<lambda>j. (hs j, [fslice P c j])) [0..<m]), stat FragOKs ip')"
  proof -
    have d: "pktlen (eh, data) - IP4HDR + 0 = length P" using pl by simp
    have n: "\<not> pktlen (eh, data) \<ge> IP_MAX" "\<not> int (pktlen (eh, data)) \<le> maxtu (ifcs i) - hsize"
      "\<not> (maxtu (ifcs i) - hsize - int IP4HDR) div 8 * 8 < 8" "\<not> flag_on (hfrag eh') IP_DF"
      using len mtu(2) sg(1,4) df by (simp_all add: eh'_def)
    have i4: "id4 (stat OutRequests ip) = id4 ip" "id4 ((stat OutRequests ip)\<lparr>id4 := id4 ip + 1\<rparr>) = id4 ip + 1" by (simp_all add: stat_def)
    show ?thesis
      unfolding ipoput4_def by (simp only: Let_def prod.case look option.case ifc eh'_def[symmetric] n simp_thms if_False if_True not_True_eq_False i4 d seg_def[symmetric] l)
  qed
  moreover have "int (IP4HDR + length (fslice P c j)) \<le> maxtu (ifcs i) - hsize" if "j < m" for j
    using length_fslice[OF p that] sg(3) by (simp add: c_def cuts_def IP4HDR_def)
  moreover have "ipcsum (hdrbytes (hs j) @ fslice P c j) = 0" for j
    unfolding hs_def fraghdr_def by (rule sumhdr_verifies) (simp add: eh'_def IP_VER4_def IP_HLEN4_def)
  moreover have "src (hs j) = src eh \<and> dst (hs j) = dst eh \<and> proto (hs j) = proto eh \<and> hid (hs j) = of_nat (id4 ip + 1)" for j
    by (simp add: hs_def fraghdr_def eh'_def)
  ultimately show ?thesis using p unfolding P_def[symmetric] by (intro exI[of _ m] exI[of _ c] exI[of _ hs]) (simp add: comp_def)
qed

section \<open>Properties\<close>

text \<open>
  C20: Fragmentation and reassembly are inverse. A packet that is larger than the medium takes, without the
  flag against it, is sent by \<open>ipoput4\<close> as fragments that each fit the medium and carry a header
  whose checksum verifies; and however the fragments are reordered and repeated on the way, and
  whatever other queues the receiver has, \<open>ip4reassemble\<close> gives back nothing until all have come,
  and then a packet with the payload, the length, the addresses and the protocol of the one sent.\<close>

theorem fragment_reassemble:
  assumes look: "look (dst eh) = Some r" "gate4 look eh r = (i, gw)" and ifc: "canlock (ifcs i)" "medium (ifcs i) = Some hsize"
    and mtu: "28 \<le> maxtu (ifcs i) - hsize" "maxtu (ifcs i) - hsize < int (pktlen (eh, data))"
    and len: "pktlen (eh, data) < IP_MAX" and df: "\<not> flag_on (hfrag eh) IP_DF"
    and rip: "list_all (\<lambda>f. \<not> (fsrc f = src eh \<and> fdst f = dst eh \<and> fid f = of_nat (id4 ip + 1))) (flist4 rip)"
      "0 < nfrag4 rip + length (flist4 rip)"
  shows "\<exists>ps ip'. ipoput4 look ifcs (eh, data) False t s ip = Inr (0, map (\<lambda>p. Bwrite i p gw) ps, ip')
    \<and> list_all (\<lambda>p. int (pktlen p) \<le> maxtu (ifcs i) - hsize \<and> ipcsum (hdrbytes (fst p) @ concat (snd p)) = 0) ps
    \<and> (\<forall>js t j. snd ` set js \<noteq> {..<length ps} \<longrightarrow> insert j (snd ` set js) = {..<length ps} \<longrightarrow>
         (\<exists>h ds rip'. arrivals (map (\<lambda>(t, j). (t, ps ! j)) (js @ [(t, j)])) rip = Inr (replicate (length js) None @ [Some (h, ds)], rip')
           \<and> concat ds = concat data \<and> unat (hlength h) = pktlen (eh, data) \<and> src h = src eh \<and> dst h = dst eh \<and> proto h = proto eh))"
proof -
  let ?P = "concat data"
  obtain m c hs ip' where o: "ipoput4 look ifcs (eh, data) False t s ip = Inr (0, map (\<lambda>j. Bwrite i (hs j, [fslice ?P c j]) gw) [0..<m], ip')"
    and p: "pieces ?P c m hs"
    and f: "\<And>j. j < m \<Longrightarrow> int (IP4HDR + length (fslice ?P c j)) \<le> maxtu (ifcs i) - hsize \<and> ipcsum (hdrbytes (hs j) @ fslice ?P c j) = 0
        \<and> src (hs j) = src eh \<and> dst (hs j) = dst eh \<and> proto (hs j) = proto eh \<and> hid (hs j) = of_nat (id4 ip + 1)"
    using ipoput4_fragments[of look eh r i gw ifcs hsize data t s ip, OF look ifc mtu len df] by blast
  define ps where "ps = map (\<lambda>j. (hs j, [fslice ?P c j])) [0..<m]"
  have m: "0 < m" using piecesD(1)[OF p] by simp
  have h: "holding ?P c m hs {} rip" using rip(1) f[OF m] by (simp add: holding_def samekey_def)
  have run: "\<exists>h ds rip'. arrivals (map (\<lambda>(t, j). (t, ps ! j)) (js @ [(t, j)])) rip = Inr (replicate (length js) None @ [Some (h, ds)], rip')
      \<and> concat ds = ?P \<and> unat (hlength h) = pktlen (eh, data) \<and> src h = src eh \<and> dst h = dst eh \<and> proto h = proto eh"
    if js: "snd ` set js \<noteq> {..<m}" "insert j (snd ` set js) = {..<m}" for js t j
  proof -
    have "snd ` set js \<subseteq> {..<m}" and j: "j < m" using js(2) by blast+
    then have lt: "\<forall>(t, j) \<in> set js. j < m" by force
    have "map (\<lambda>(t, j). (t, ps ! j)) (js @ [(t, j)]) = map (\<lambda>(t, j). (t, hs j, [fslice ?P c j])) (js @ [(t, j)])"
      using lt j by (auto simp: ps_def)
    moreover obtain rip' where "arrivals (map (\<lambda>(t, j). (t, hs j, [fslice ?P c j])) (js @ [(t, j)])) rip
        = Inr (replicate (length js) None @ [Some (whole ?P c m hs)], rip')"
      using arrivals_pieces[OF p lt j _ _ h, where data = "\<lambda>j. [fslice ?P c j]" and t = t] js rip(2) by auto
    moreover have "unat (hlength (fst (whole ?P c m hs))) = pktlen (eh, data)"
      using unat_u16[of "length ?P + IP4HDR"] len by (simp add: whole_def pktlen_def IP_MAX_def add.commute)
    moreover have "src (fst (whole ?P c m hs)) = src eh" "dst (fst (whole ?P c m hs)) = dst eh" "proto (fst (whole ?P c m hs)) = proto eh"
      using f[OF m] by (simp_all add: whole_def fhead_def)
    ultimately show ?thesis using concat_whole[OF p]
      by (intro exI[of _ "fst (whole ?P c m hs)"] exI[of _ "snd (whole ?P c m hs)"] exI[of _ rip']) (simp only: prod.collapse simp_thms)
  qed
  have "ipoput4 look ifcs (eh, data) False t s ip = Inr (0, map (\<lambda>p. Bwrite i p gw) ps, ip')" using o by (simp add: ps_def comp_def)
  moreover have "list_all (\<lambda>p. int (pktlen p) \<le> maxtu (ifcs i) - hsize \<and> ipcsum (hdrbytes (fst p) @ concat (snd p)) = 0) ps"
    using f by (simp add: ps_def list_all_iff pktlen_def)
  moreover have "length ps = m" by (simp add: ps_def)
  ultimately show ?thesis using run by (intro exI[of _ ps] exI[of _ ip'] conjI) (simp_all)
qed

definition hdr4 :: "u16 \<Rightarrow> u16 \<Rightarrow> ip4hdr" where
  "hdr4 len frag = \<lparr>vihl = 0x45, tos = 0, hlength = len, hid = 7, hfrag = frag, ttl = 64, proto = 17, cksum = 0, src = 1, dst = 2\<rparr>"

definition ip40 :: ip4 where
  "ip40 = \<lparr>stats = \<lambda>_. 0, flist4 = [], nfrag4 = 100, id4 = 0, iprouting = False\<rparr>"

definition ifc40 :: ifc4 where
  "ifc40 = \<lparr>canlock = True, medium = Some 14, maxtu = 60, reassemble = False\<rparr>"

theorem fragment_reassemble_witness:
  "\<exists>ps ip'. ipoput4 (\<lambda>_. Some \<lparr>rt4type = 0, rt4ifc = 0, rt4gate = 9\<rparr>) (\<lambda>_. ifc40) (hdr4 0 0, [replicate 100 1]) False 255 0 ip40
      = Inr (0, map (\<lambda>p. Bwrite 0 p 9) ps, ip')
    \<and> list_all (\<lambda>p. int (pktlen p) \<le> 46 \<and> ipcsum (hdrbytes (fst p) @ concat (snd p)) = 0) ps"
proof -
  have g: "gate4 (\<lambda>_. Some \<lparr>rt4type = 0, rt4ifc = 0, rt4gate = 9\<rparr>) (hdr4 0 0) \<lparr>rt4type = 0, rt4ifc = 0, rt4gate = 9\<rparr> = (0, 9)"
    by (simp add: gate4_def flag_on_def)
  show ?thesis
    using fragment_reassemble[where look = "\<lambda>_. Some \<lparr>rt4type = 0, rt4ifc = 0, rt4gate = 9\<rparr>" and eh = "hdr4 0 0" and ifcs = "\<lambda>_. ifc40"
      and data = "[replicate 100 1]" and ip = ip40 and rip = ip40 and t = 255 and s = 0, OF refl g]
    by (fastforce simp: ifc40_def ip40_def pktlen_def IP4HDR_def IP_MAX_def hdr4_def flag_on_def)
qed

lemmas runs = defrag_def ip4reassemble_def ipfragallo4_def fraglink_def fragpkt_def ip40_def hdr4_def stat_def Let_def flag_on_def
  IP_MBZ_def IP_MF_def IP_DF_def IP_FLAGS_def IP4HDR_def push_bit_eq_mult

text \<open>
  Reassembly trusts the length in the header of a fragment. The first fragment of a packet keeps the
  length its header says after a later fragment has cut it short: of 24 bytes that come as the
  first 16 and the last 16, the packet given back has 32. And two fragments that claim lengths
  they do not have make \<open>ip4reassemble\<close> set the end of a block behind the bytes it holds.\<close>

lemma reassembly_trusts_lengths:
  "(\<exists>h ds ip'. arrivals [(0, hdr4 36 0x2000, [map of_nat [0..<16]]), (0, hdr4 36 1, [map of_nat [8..<24]])] ip40 = Inr ([None, Some (h, ds)], ip')
      \<and> concat ds = map of_nat ([0..<16] @ [8..<24]) \<and> hlength h = 52)
   \<and> arrivals [(0, hdr4 996 0x2000, [replicate 8 0]), (0, hdr4 28 122, [replicate 8 0])] ip40 = Inl Overrun"
proof
  show "\<exists>h ds ip'. arrivals [(0, hdr4 36 0x2000, [map of_nat [0..<16]]), (0, hdr4 36 1, [map of_nat [8..<24]])] ip40 = Inr ([None, Some (h, ds)], ip')
      \<and> concat ds = map of_nat ([0..<16] @ [8..<24]) \<and> hlength h = 52"
    by (simp add: runs upt_rec)
  show "arrivals [(0, hdr4 996 0x2000, [replicate 8 0]), (0, hdr4 28 122, [replicate 8 0])] ip40 = Inl Overrun"
    by (simp add: runs)
qed

end
