(* ===== verification/Qlock.thy ===== *)
theory Qlock
  imports Plan9_Prelude
begin

text \<open>
  Queueing locks (\<open>src/port/qlock.c\<close>): \<open>QLock\<close>, and the reader/writer lock \<open>RWlock\<close>.

  A process is a number. The wait queue of a lock is the chain of \<open>qnext\<close> pointers from
  \<open>head\<close> to \<open>tail\<close>, kept as pointers here; that it is a list is an invariant. Each routine runs
  with the spin lock \<open>use\<close> held, so it is one step; where it calls \<open>sched()\<close> it stops, and the
  process goes on when another one makes it ready. The program counters and wait statistics
  the code keeps are left out. Calling a routine outside a process (\<open>up == nil\<close>) is \<open>None\<close>.
\<close>

section \<open>Processes and wait queues\<close>

datatype pstate = Running | Ready | Queueing | QueueingR | QueueingW

record procs =
  qnext :: "nat \<Rightarrow> nat option"
  pst :: "nat \<Rightarrow> pstate"

type_synonym waitq = "nat option \<times> nat option \<times> procs"

text \<open>
  \<open>p = q->tail; if(p == 0) q->head = up; else p->qnext = up; q->tail = up; up->qnext = 0;
  up->state = st;\<close>
\<close>

fun enqueue :: "pstate \<Rightarrow> nat \<Rightarrow> waitq \<Rightarrow> waitq" where
  "enqueue st up (h, t, ps) =
    (let (h, nx) = (case t of None \<Rightarrow> (Some up, qnext ps) | Some p \<Rightarrow> (h, (qnext ps)(p := Some up)))
     in (h, Some up, ps\<lparr>qnext := nx(up := None), pst := (pst ps)(up := st)\<rparr>))"

text \<open>\<open>p = q->head; q->head = p->qnext; if(q->head == 0) q->tail = 0;\<close>\<close>

fun dequeue :: "waitq \<Rightarrow> (nat \<times> waitq) option" where
  "dequeue (h, t, ps) =
    (case h of
       None \<Rightarrow> None
     | Some p \<Rightarrow> let h = qnext ps p in Some (p, h, if h = None then None else t, ps))"

definition ready :: "nat \<Rightarrow> procs \<Rightarrow> procs" where
  "ready p ps = ps\<lparr>pst := (pst ps)(p := Ready)\<rparr>"

section \<open>QLock\<close>

record qlk =
  qhead :: "nat option"
  qtail :: "nat option"
  locked :: bool

text \<open>The boolean is whether the lock was taken at once; otherwise the caller is asleep.\<close>

definition qlock :: "nat option \<Rightarrow> qlk \<Rightarrow> procs \<Rightarrow> fault + (bool \<times> qlk \<times> procs)" where
  "qlock up q ps =
    (if \<not> locked q then Inr (True, q\<lparr>locked := True\<rparr>, ps)
     else case up of
       None \<Rightarrow> Inl (Panic ''qlock'')
     | Some u \<Rightarrow>
         (case enqueue Queueing u (qhead q, qtail q, ps) of
            (h, t, ps) \<Rightarrow> Inr (False, q\<lparr>qhead := h, qtail := t\<rparr>, ps)))"

text \<open>\<open>free\<close> is whether \<open>canlock(&q->use)\<close> succeeds.\<close>

definition canqlock :: "bool \<Rightarrow> qlk \<Rightarrow> bool \<times> qlk" where
  "canqlock free q =
    (if \<not> free then (False, q)
     else if locked q then (False, q)
     else (True, q\<lparr>locked := True\<rparr>))"

text \<open>The process made ready, if any, owns the lock from then on.\<close>

definition qunlock :: "qlk \<Rightarrow> procs \<Rightarrow> nat option \<times> qlk \<times> procs" where
  "qunlock q ps =
    (case dequeue (qhead q, qtail q, ps) of
       Some (p, h, t, ps) \<Rightarrow> (Some p, q\<lparr>qhead := h, qtail := t\<rparr>, ready p ps)
     | None \<Rightarrow> (None, q\<lparr>locked := False\<rparr>, ps))"

section \<open>RWlock\<close>

record rwl =
  rwhead :: "nat option"
  rwtail :: "nat option"
  wproc :: "nat option"
  readers :: int
  writer :: int

definition rlock :: "nat option \<Rightarrow> rwl \<Rightarrow> procs \<Rightarrow> fault + (bool \<times> rwl \<times> procs)" where
  "rlock up q ps =
    (if writer q = 0 \<and> rwhead q = None then Inr (True, q\<lparr>readers := readers q + 1\<rparr>, ps)
     else case up of
       None \<Rightarrow> Inl (Panic ''rlock'')
     | Some u \<Rightarrow>
         (case enqueue QueueingR u (rwhead q, rwtail q, ps) of
            (h, t, ps) \<Rightarrow> Inr (False, q\<lparr>rwhead := h, rwtail := t\<rparr>, ps)))"

definition runlock :: "rwl \<Rightarrow> procs \<Rightarrow> fault + (nat option \<times> rwl \<times> procs)" where
  "runlock q ps =
    (let q = q\<lparr>readers := readers q - 1\<rparr> in
     if readers q > 0 then Inr (None, q, ps)
     else case rwhead q of
       None \<Rightarrow> Inr (None, q, ps)
     | Some p \<Rightarrow>
         if pst ps p \<noteq> QueueingW then Inl (Panic ''runlock'')
         else (case dequeue (rwhead q, rwtail q, ps) of
            None \<Rightarrow> Inl NilDeref
          | Some (p, h, t, ps) \<Rightarrow> Inr (Some p, q\<lparr>rwhead := h, rwtail := t, writer := 1\<rparr>, ready p ps)))"

definition wlock :: "nat option \<Rightarrow> rwl \<Rightarrow> procs \<Rightarrow> fault + (bool \<times> rwl \<times> procs)" where
  "wlock up q ps =
    (if readers q = 0 \<and> writer q = 0 then Inr (True, q\<lparr>wproc := up, writer := 1\<rparr>, ps)
     else case up of
       None \<Rightarrow> Inl (Panic ''wlock'')
     | Some u \<Rightarrow>
         (case enqueue QueueingW u (rwhead q, rwtail q, ps) of
            (h, t, ps) \<Rightarrow> Inr (False, q\<lparr>rwhead := h, rwtail := t\<rparr>, ps)))"

text \<open>
  The loop that wakes the readers at the front of the queue; it does not touch \<open>tail\<close>. Its
  result is the processes made ready in order, with the head of the queue they leave.
\<close>

partial_function (option) wakereaders :: "nat option \<Rightarrow> procs \<Rightarrow> (nat list \<times> nat option \<times> procs) option" where
  "wakereaders h ps =
    (case h of
       None \<Rightarrow> Some ([], None, ps)
     | Some p \<Rightarrow>
         if pst ps p = QueueingR then
           Option.bind (wakereaders (qnext ps p) (ready p ps)) (\<lambda>(rs, h, ps). Some (p # rs, h, ps))
         else Some ([], h, ps))"

text \<open>The first list is the writer, the second the readers that were made ready.\<close>

definition wunlock :: "rwl \<Rightarrow> procs \<Rightarrow> (fault + (nat list \<times> nat list \<times> rwl \<times> procs)) option" where
  "wunlock q ps =
    (case rwhead q of
       None \<Rightarrow> Some (Inr ([], [], q\<lparr>writer := 0\<rparr>, ps))
     | Some p \<Rightarrow>
         if pst ps p = QueueingW then
           (case dequeue (rwhead q, rwtail q, ps) of
              None \<Rightarrow> Some (Inl NilDeref)
            | Some (p, h, t, ps) \<Rightarrow> Some (Inr ([p], [], q\<lparr>rwhead := h, rwtail := t\<rparr>, ready p ps)))
         else if pst ps p \<noteq> QueueingR then Some (Inl (Panic ''wunlock''))
         else
           map_option (\<lambda>(rs, h, ps).
             Inr ([], rs, q\<lparr>rwhead := h, rwtail := if h = None then None else rwtail q,
                  readers := readers q + int (length rs), writer := 0\<rparr>, ps))
             (wakereaders (rwhead q) ps))"

definition canrlock :: "rwl \<Rightarrow> bool \<times> rwl" where
  "canrlock q =
    (if writer q = 0 \<and> rwhead q = None then (True, q\<lparr>readers := readers q + 1\<rparr>) else (False, q))"

end
