(* ===== verification/Qlock_Correct.thy ===== *)
theory Qlock_Correct
  imports Qlock
begin

text \<open>
  The locks are correct: the pointer queues are first-in first-out lists, a \<open>QLock\<close> has one
  owner and is handed over in order of arrival, an \<open>RWlock\<close> never has a writer beside a reader
  or another writer, no panic of the lock code is reachable, and whoever waits waits for
  somebody.
\<close>

section \<open>Wait queues\<close>

text \<open>The contract of a wait queue: \<open>rep s xs\<close> says that \<open>s\<close> represents the list \<open>xs\<close>.\<close>

locale fifo =
  fixes rep :: "'s \<Rightarrow> 'x list \<Rightarrow> bool" and enq :: "'x \<Rightarrow> 's \<Rightarrow> 's" and deq :: "'s \<Rightarrow> ('x \<times> 's) option"
  assumes enq_rep: "rep s xs \<Longrightarrow> x \<notin> set xs \<Longrightarrow> rep (enq x s) (xs @ [x])"
    and deq_Nil: "rep s [] \<Longrightarrow> deq s = None"
    and deq_Cons: "rep s (x # xs) \<Longrightarrow> \<exists>s'. deq s = Some (x, s') \<and> rep s' xs"
begin

lemma arrivals_rep: "rep s xs \<Longrightarrow> distinct (xs @ ys) \<Longrightarrow> rep (fold enq ys s) (xs @ ys)"
proof (induction ys arbitrary: s xs)
  case (Cons y ys)
  then have "rep (enq y s) (xs @ [y])" by (simp add: enq_rep)
  then show ?case using Cons.IH[of "enq y s" "xs @ [y]"] Cons.prems by simp
qed simp

text \<open>Nobody who arrives later overtakes the first in the queue.\<close>

lemma no_overtaking:
  assumes "rep s (x # xs)" and "distinct (x # xs @ ys)"
  shows "\<exists>s'. deq (fold enq ys s) = Some (x, s') \<and> rep s' (xs @ ys)"
proof -
  have "rep (fold enq ys s) (x # (xs @ ys))" using arrivals_rep[OF assms(1), of ys] assms(2) by simp
  then show ?thesis by (rule deq_Cons)
qed

end

definition waiting :: "waitq \<Rightarrow> nat list \<Rightarrow> bool" where
  "waiting w xs \<longleftrightarrow> (case w of (h, t, ps) \<Rightarrow>
     chain (qnext ps) h xs \<and> distinct xs \<and> t = (if xs = [] then None else Some (last xs)))"

lemma waiting_enqueue: "waiting w xs \<Longrightarrow> u \<notin> set xs \<Longrightarrow> waiting (enqueue st u w) (xs @ [u])"
  by (cases w) (auto simp: waiting_def chain_snoc)

lemma waiting_Nil: "waiting (h, t, ps) [] \<longleftrightarrow> h = None \<and> t = None"
  by (auto simp: waiting_def)

lemma waiting_head: "waiting (h, t, ps) xs \<Longrightarrow> h = (case xs of [] \<Rightarrow> None | x # _ \<Rightarrow> Some x)"
  by (cases xs) (auto simp: waiting_def)

lemma waiting_dequeue: "waiting w (x # xs) \<Longrightarrow> \<exists>w'. dequeue w = Some (x, w') \<and> waiting w' xs \<and> snd (snd w') = snd (snd w)"
  by (cases w; cases xs) (auto simp: waiting_def)

lemma waiting_cong: "qnext ps' = qnext ps \<Longrightarrow> waiting (h, t, ps') xs = waiting (h, t, ps) xs"
  by (simp add: waiting_def)

interpretation wq: fifo waiting "enqueue st" dequeue for st
proof unfold_locales
  show "dequeue s = None" if "waiting s []" for s using that by (cases s) (simp add: waiting_Nil)
  show "\<exists>s'. dequeue s = Some (x, s') \<and> waiting s' xs" if "waiting s (x # xs)" for s x xs
    using waiting_dequeue[OF that] by blast
qed (rule waiting_enqueue)

lemma enqueue_pst: "enqueue st u (h, t, ps) = (h', t', ps') \<Longrightarrow> pst ps' = (pst ps)(u := st)"
  by (auto simp: Let_def split: option.splits)

lemma ready_fields [simp]: "qnext (ready p ps) = qnext ps" "pst (ready p ps) = (pst ps)(p := Ready)"
  by (simp_all add: ready_def)

section \<open>QLock\<close>

text \<open>
  A lock and the processes that use it. \<open>holds\<close> are the processes whose call of \<open>qlock\<close> has
  given them the lock and who have not released it; \<open>arrived\<close> and \<open>served\<close> log who had to
  queue and who was handed the lock.
\<close>

record lsys =
  lk :: qlk
  lps :: procs
  holds :: "nat set"
  arrived :: "nat list"
  served :: "nat list"

inductive lstep :: "lsys \<Rightarrow> lsys \<Rightarrow> bool" where
  lock_now: "pst (lps s) u = Running \<Longrightarrow> u \<notin> holds s \<Longrightarrow> qlock (Some u) (lk s) (lps s) = Inr (True, q, ps)
    \<Longrightarrow> lstep s (s\<lparr>lk := q, lps := ps, holds := insert u (holds s)\<rparr>)"
| lock_wait: "pst (lps s) u = Running \<Longrightarrow> u \<notin> holds s \<Longrightarrow> qlock (Some u) (lk s) (lps s) = Inr (False, q, ps)
    \<Longrightarrow> lstep s (s\<lparr>lk := q, lps := ps, arrived := arrived s @ [u]\<rparr>)"
| try_lock: "pst (lps s) u = Running \<Longrightarrow> u \<notin> holds s \<Longrightarrow> canqlock free (lk s) = (got, q)
    \<Longrightarrow> lstep s (s\<lparr>lk := q, holds := if got then insert u (holds s) else holds s\<rparr>)"
| unlock: "pst (lps s) u = Running \<Longrightarrow> u \<in> holds s \<Longrightarrow> qunlock (lk s) (lps s) = (w, q, ps)
    \<Longrightarrow> lstep s (s\<lparr>lk := q, lps := ps, holds := (holds s - {u}) \<union> set_option w,
          served := served s @ (case w of None \<Rightarrow> [] | Some p \<Rightarrow> [p])\<rparr>)"
| dispatch: "pst (lps s) u = Ready \<Longrightarrow> lstep s (s\<lparr>lps := (lps s)\<lparr>pst := (pst (lps s))(u := Running)\<rparr>\<rparr>)"

definition linit :: "lsys \<Rightarrow> bool" where
  "linit s \<longleftrightarrow> qhead (lk s) = None \<and> qtail (lk s) = None \<and> \<not> locked (lk s) \<and> (\<forall>u. pst (lps s) u = Running)
    \<and> holds s = {} \<and> arrived s = [] \<and> served s = []"

definition lqueue :: "lsys \<Rightarrow> nat list \<Rightarrow> bool" where
  "lqueue s xs \<longleftrightarrow> waiting (qhead (lk s), qtail (lk s), lps s) xs \<and> (\<forall>x. pst (lps s) x = Queueing \<longleftrightarrow> x \<in> set xs)
    \<and> (if locked (lk s) then \<exists>u. holds s = {u} else holds s = {} \<and> xs = [])
    \<and> holds s \<inter> set xs = {} \<and> arrived s = served s @ xs"

definition linv :: "lsys \<Rightarrow> bool" where
  "linv s \<longleftrightarrow> (\<exists>xs. lqueue s xs)"

definition lgoal :: "lsys \<Rightarrow> bool" where
  "lgoal s \<longleftrightarrow> (\<forall>u \<in> holds s. \<forall>v \<in> holds s. u = v) \<and> (locked (lk s) \<longleftrightarrow> holds s \<noteq> {})
    \<and> (\<forall>u. pst (lps s) u = Queueing \<longrightarrow> holds s \<noteq> {} \<and> u \<notin> holds s)
    \<and> (\<exists>xs. arrived s = served s @ xs \<and> distinct xs \<and> set xs = {u. pst (lps s) u = Queueing})"

lemma lqueue_notin: "lqueue s xs \<Longrightarrow> pst (lps s) u \<noteq> Queueing \<Longrightarrow> u \<notin> set xs"
  by (simp add: lqueue_def)

lemma linv_step:
  assumes "linv s" and "lstep s t"
  shows "linv t"
proof -
  obtain xs where xs: "lqueue s xs" using assms(1) by (auto simp: linv_def)
  from assms(2) show ?thesis
  proof cases
    case (lock_now u q ps)
    then have "lqueue t xs" using xs by (auto simp: lqueue_def qlock_def split: if_splits option.splits prod.splits)
    then show ?thesis by (auto simp: linv_def)
  next
    case (lock_wait u q ps)
    obtain h t' ps' where e: "enqueue Queueing u (qhead (lk s), qtail (lk s), lps s) = (h, t', ps')" by (metis prod_cases3)
    have l: "locked (lk s)" and q: "q = (lk s)\<lparr>qhead := h, qtail := t'\<rparr>" "ps = ps'"
      using lock_wait(4) e by (auto simp: qlock_def split: if_splits)
    have nin: "u \<notin> set xs" using xs lock_wait(2) by (simp add: lqueue_notin)
    have "waiting (h, t', ps') (xs @ [u])" using waiting_enqueue[of _ xs u Queueing] xs nin e by (metis lqueue_def)
    then have "lqueue t (xs @ [u])" using xs l q lock_wait(1,3) enqueue_pst[OF e] by (auto simp: lqueue_def)
    then show ?thesis by (auto simp: linv_def)
  next
    case (try_lock u free got q)
    then have "lqueue t xs" using xs by (auto simp: lqueue_def canqlock_def split: if_splits)
    then show ?thesis by (auto simp: linv_def)
  next
    case (unlock u w q ps)
    have l: "locked (lk s)" "holds s = {u}" using xs unlock(3) by (auto simp: lqueue_def split: if_splits)
    show ?thesis
    proof (cases xs)
      case Nil
      then have "lqueue t []" using xs unlock l by (auto simp: lqueue_def qunlock_def waiting_Nil)
      then show ?thesis by (auto simp: linv_def)
    next
      case (Cons x ys)
      obtain w' where w': "dequeue (qhead (lk s), qtail (lk s), lps s) = Some (x, w')" "waiting w' ys" "snd (snd w') = lps s"
        using waiting_dequeue[of "(qhead (lk s), qtail (lk s), lps s)" x ys] xs Cons by (auto simp: lqueue_def)
      obtain h t' where h: "w' = (h, t', lps s)" using w'(3) by (metis prod.collapse)
      have "w = Some x" "q = (lk s)\<lparr>qhead := h, qtail := t'\<rparr>" "ps = ready x (lps s)"
        using unlock(4) w'(1) h by (auto simp: qunlock_def)
      moreover have "waiting (h, t', ready x (lps s)) ys" using w'(2) h waiting_cong[of "ready x (lps s)" "lps s"] by simp
      moreover have "x \<notin> set ys" "distinct ys" using xs Cons by (auto simp: lqueue_def waiting_def)
      ultimately have "lqueue t ys" using xs Cons unlock(1) l by (auto simp: lqueue_def)
      then show ?thesis by (auto simp: linv_def)
    qed
  next
    case (dispatch u)
    then have "u \<notin> set xs" using xs by (simp add: lqueue_notin)
    then have "lqueue t xs" using xs dispatch by (auto simp: lqueue_def waiting_def)
    then show ?thesis by (auto simp: linv_def)
  qed
qed

lemma lqueue_goal: "lqueue s xs \<Longrightarrow> lgoal s"
  by (auto simp: lqueue_def lgoal_def waiting_def split: if_splits)

interpretation ql: safety linit lstep linv lgoal
proof unfold_locales
  show "linv s" if "linit s" for s using that by (auto simp: linit_def linv_def lqueue_def waiting_Nil intro!: exI[of _ "[]"])
  show "lgoal s" if "linv s" for s using that lqueue_goal by (auto simp: linv_def)
qed (rule linv_step)

definition lsys0 :: lsys where
  "lsys0 = \<lparr>lk = \<lparr>qhead = None, qtail = None, locked = False\<rparr>, lps = \<lparr>qnext = \<lambda>_. None, pst = \<lambda>_. Running\<rparr>,
     holds = {}, arrived = [], served = []\<rparr>"

lemma lsys0_run: "\<exists>t. lstep\<^sup>*\<^sup>* lsys0 t \<and> holds t = {2} \<and> pst (lps t) 3 = Queueing \<and> served t = [2]"
proof -
  define ps0 where "ps0 = lps lsys0"
  define q1 where "q1 = (lk lsys0)\<lparr>locked := True\<rparr>"
  define s1 where "s1 = lsys0\<lparr>lk := q1, lps := ps0, holds := insert 1 (holds lsys0)\<rparr>"
  define w2 where "w2 = enqueue Queueing 2 (None, None, ps0)"
  define s2 where "s2 = s1\<lparr>lk := q1\<lparr>qhead := fst w2, qtail := fst (snd w2)\<rparr>, lps := snd (snd w2), arrived := [] @ [2]\<rparr>"
  define w3 where "w3 = enqueue Queueing 3 w2"
  define s3 where "s3 = s2\<lparr>lk := q1\<lparr>qhead := fst w3, qtail := fst (snd w3)\<rparr>, lps := snd (snd w3), arrived := [2] @ [3]\<rparr>"
  define r where "r = qunlock (lk s3) (lps s3)"
  define s4 where "s4 = s3\<lparr>lk := fst (snd r), lps := snd (snd r), holds := (holds s3 - {1}) \<union> set_option (fst r),
    served := served s3 @ (case fst r of None \<Rightarrow> [] | Some p \<Rightarrow> [p])\<rparr>"
  note d = lsys0_def ps0_def q1_def s1_def w2_def s2_def w3_def s3_def
  have a: "lstep lsys0 s1" unfolding s1_def by (rule lstep.lock_now) (simp_all add: lsys0_def ps0_def q1_def qlock_def)
  have "lstep s1 (s1\<lparr>lk := q1\<lparr>qhead := fst w2, qtail := fst (snd w2)\<rparr>, lps := snd (snd w2), arrived := arrived s1 @ [2]\<rparr>)"
    by (rule lstep.lock_wait[where u = 2]) (simp_all add: d qlock_def)
  then have b: "lstep s1 s2" by (simp add: s2_def s1_def lsys0_def)
  have "lstep s2 (s2\<lparr>lk := q1\<lparr>qhead := fst w3, qtail := fst (snd w3)\<rparr>, lps := snd (snd w3), arrived := arrived s2 @ [3]\<rparr>)"
    by (rule lstep.lock_wait[where u = 3]) (simp_all add: d qlock_def)
  then have c: "lstep s2 s3" by (simp add: s3_def s2_def)
  have e: "lstep s3 s4" unfolding s4_def by (rule lstep.unlock) (simp_all add: d r_def)
  have "lstep\<^sup>*\<^sup>* lsys0 s4" using a b c e by (meson r_into_rtranclp rtranclp_trans)
  moreover have "holds s4 = {2} \<and> pst (lps s4) 3 = Queueing \<and> served s4 = [2]"
    by (simp add: s4_def r_def d qunlock_def ready_def Let_def)
  ultimately show ?thesis by blast
qed

text \<open>
  C16: A \<open>QLock\<close> excludes and is fair. In every state reached from a free lock by any interleaving
  of \<open>qlock\<close>, \<open>canqlock\<close>, \<open>qunlock\<close> and dispatches, at most one process holds the lock and
  \<open>locked\<close> says whether one does, nobody sleeps in the queue of a lock that no one holds, and
  the processes that had to queue are served in the order of their arrival: the arrivals
  are those served followed by exactly the ones still asleep.\<close>

theorem qlock_exclusive_fifo:
  assumes "linit s" and "lstep\<^sup>*\<^sup>* s t"
  shows "(\<forall>u \<in> holds t. \<forall>v \<in> holds t. u = v) \<and> (locked (lk t) \<longleftrightarrow> holds t \<noteq> {})
    \<and> (\<forall>u. pst (lps t) u = Queueing \<longrightarrow> holds t \<noteq> {} \<and> u \<notin> holds t)
    \<and> (\<exists>xs. arrived t = served t @ xs \<and> distinct xs \<and> set xs = {u. pst (lps t) u = Queueing})"
  using ql.reached_goal[OF assms] unfolding lgoal_def .

theorem qlock_exclusive_fifo_witness:
  "linit lsys0 \<and> (\<exists>t. lstep\<^sup>*\<^sup>* lsys0 t \<and> holds t = {2} \<and> pst (lps t) 3 = Queueing \<and> locked (lk t)
     \<and> (\<exists>xs. arrived t = [2] @ xs \<and> 3 \<in> set xs))"
proof -
  have i: "linit lsys0" by (simp add: linit_def lsys0_def)
  obtain t where t: "lstep\<^sup>*\<^sup>* lsys0 t" "holds t = {2}" "pst (lps t) 3 = Queueing" "served t = [2]" using lsys0_run by blast
  obtain xs where "locked (lk t)" "arrived t = [2] @ xs" "set xs = {u. pst (lps t) u = Queueing}"
    using qlock_exclusive_fifo[OF i t(1)] t(2,4) by auto
  then show ?thesis using i t by blast
qed

section \<open>RWlock\<close>

text \<open>The loop of \<open>wunlock\<close> ends, and wakes exactly the readers in front of the first writer.\<close>

lemma wakereaders_eq:
  "chain (qnext ps) h xs \<Longrightarrow> distinct xs \<Longrightarrow> wakereaders h ps =
    Some (takeWhile (\<lambda>x. pst ps x = QueueingR) xs,
      case dropWhile (\<lambda>x. pst ps x = QueueingR) xs of [] \<Rightarrow> None | x # _ \<Rightarrow> Some x,
      ps\<lparr>pst := \<lambda>x. if x \<in> set (takeWhile (\<lambda>x. pst ps x = QueueingR) xs) then Ready else pst ps x\<rparr>)"
proof (induction xs arbitrary: h ps)
  case Nil
  then show ?case by (simp add: wakereaders.simps)
next
  case (Cons x xs)
  show ?case
  proof (cases "pst ps x = QueueingR")
    case True
    have tw: "takeWhile (\<lambda>y. pst (ready x ps) y = QueueingR) xs = takeWhile (\<lambda>y. pst ps y = QueueingR) xs"
      and dw: "dropWhile (\<lambda>y. pst (ready x ps) y = QueueingR) xs = dropWhile (\<lambda>y. pst ps y = QueueingR) xs"
      using Cons.prems by (auto intro!: takeWhile_cong dropWhile_cong)
    have "wakereaders (qnext ps x) (ready x ps) =
      Some (takeWhile (\<lambda>y. pst ps y = QueueingR) xs,
        case dropWhile (\<lambda>y. pst ps y = QueueingR) xs of [] \<Rightarrow> None | x # _ \<Rightarrow> Some x,
        (ready x ps)\<lparr>pst := \<lambda>y. if y \<in> set (takeWhile (\<lambda>y. pst ps y = QueueingR) xs) then Ready else pst (ready x ps) y\<rparr>)"
      using Cons.IH[of "ready x ps" "qnext ps x"] Cons.prems unfolding tw dw by simp
    then show ?thesis using Cons.prems True
      by (auto simp: wakereaders.simps[of "Some x" ps] ready_def fun_eq_iff intro!: procs.fold_congs)
  next
    case False
    then show ?thesis using Cons.prems by (simp add: wakereaders.simps)
  qed
qed

text \<open>Processes that share a reader/writer lock: \<open>rh\<close> hold it for reading, \<open>wh\<close> for writing.\<close>

record rsys =
  rw :: rwl
  rps :: procs
  rh :: "nat set"
  wh :: "nat set"

definition outside :: "nat \<Rightarrow> rsys \<Rightarrow> bool" where
  "outside u s \<longleftrightarrow> pst (rps s) u = Running \<and> u \<notin> rh s \<and> u \<notin> wh s"

inductive rstep :: "rsys \<Rightarrow> rsys \<Rightarrow> bool" where
  rlock_now: "outside u s \<Longrightarrow> rlock (Some u) (rw s) (rps s) = Inr (True, q, ps)
    \<Longrightarrow> rstep s (s\<lparr>rw := q, rps := ps, rh := insert u (rh s)\<rparr>)"
| rlock_wait: "outside u s \<Longrightarrow> rlock (Some u) (rw s) (rps s) = Inr (False, q, ps) \<Longrightarrow> rstep s (s\<lparr>rw := q, rps := ps\<rparr>)"
| try_rlock: "outside u s \<Longrightarrow> canrlock (rw s) = (got, q) \<Longrightarrow> rstep s (s\<lparr>rw := q, rh := if got then insert u (rh s) else rh s\<rparr>)"
| wlock_now: "outside u s \<Longrightarrow> wlock (Some u) (rw s) (rps s) = Inr (True, q, ps)
    \<Longrightarrow> rstep s (s\<lparr>rw := q, rps := ps, wh := insert u (wh s)\<rparr>)"
| wlock_wait: "outside u s \<Longrightarrow> wlock (Some u) (rw s) (rps s) = Inr (False, q, ps) \<Longrightarrow> rstep s (s\<lparr>rw := q, rps := ps\<rparr>)"
| read_done: "pst (rps s) u = Running \<Longrightarrow> u \<in> rh s \<Longrightarrow> runlock (rw s) (rps s) = Inr (w, q, ps)
    \<Longrightarrow> rstep s (s\<lparr>rw := q, rps := ps, rh := rh s - {u}, wh := wh s \<union> set_option w\<rparr>)"
| write_done: "pst (rps s) u = Running \<Longrightarrow> u \<in> wh s \<Longrightarrow> wunlock (rw s) (rps s) = Some (Inr (ws, rs, q, ps))
    \<Longrightarrow> rstep s (s\<lparr>rw := q, rps := ps, rh := rh s \<union> set rs, wh := (wh s - {u}) \<union> set ws\<rparr>)"
| run: "pst (rps s) u = Ready \<Longrightarrow> rstep s (s\<lparr>rps := (rps s)\<lparr>pst := (pst (rps s))(u := Running)\<rparr>\<rparr>)"

definition rinit :: "rsys \<Rightarrow> bool" where
  "rinit s \<longleftrightarrow> rwhead (rw s) = None \<and> rwtail (rw s) = None \<and> readers (rw s) = 0 \<and> writer (rw s) = 0
    \<and> (\<forall>u. pst (rps s) u = Running) \<and> rh s = {} \<and> wh s = {}"

definition queueing :: "pstate \<Rightarrow> bool" where
  "queueing st \<longleftrightarrow> st = QueueingR \<or> st = QueueingW"

definition rheld :: "rsys \<Rightarrow> bool" where
  "rheld s \<longleftrightarrow> finite (rh s) \<and> readers (rw s) = int (card (rh s))
    \<and> (writer (rw s) = 0 \<and> wh s = {} \<or> writer (rw s) = 1 \<and> (\<exists>u. wh s = {u}) \<and> rh s = {})"

definition rqueue :: "rsys \<Rightarrow> nat list \<Rightarrow> bool" where
  "rqueue s xs \<longleftrightarrow> waiting (rwhead (rw s), rwtail (rw s), rps s) xs \<and> (\<forall>x. queueing (pst (rps s) x) \<longleftrightarrow> x \<in> set xs)
    \<and> (xs \<noteq> [] \<longrightarrow> rh s \<noteq> {} \<or> wh s \<noteq> {}) \<and> (rh s \<noteq> {} \<and> xs \<noteq> [] \<longrightarrow> pst (rps s) (hd xs) = QueueingW)
    \<and> (rh s \<union> wh s) \<inter> set xs = {}"

definition rinv :: "rsys \<Rightarrow> bool" where
  "rinv s \<longleftrightarrow> rheld s \<and> (\<exists>xs. rqueue s xs)"

lemma rqueue_notin: "rqueue s xs \<Longrightarrow> pst (rps s) u = Running \<or> pst (rps s) u = Ready \<Longrightarrow> u \<notin> set xs"
  unfolding rqueue_def queueing_def by (metis pstate.distinct(5,7,11,13))

lemma rqueue_head: "rqueue s xs \<Longrightarrow> rwhead (rw s) = (case xs of [] \<Rightarrow> None | x # _ \<Rightarrow> Some x)"
  unfolding rqueue_def using waiting_head by blast

lemma rqueue_free: "rqueue s xs \<Longrightarrow> rh s = {} \<Longrightarrow> wh s = {} \<Longrightarrow> xs = []"
  by (auto simp: rqueue_def)

text \<open>Queueing a process behind those who wait.\<close>

lemma rqueue_enqueue:
  assumes x: "rqueue s xs" and o: "outside u s" and q: "queueing st"
    and held: "rh s \<noteq> {} \<or> wh s \<noteq> {}" and front: "rh s \<noteq> {} \<Longrightarrow> xs = [] \<Longrightarrow> st = QueueingW"
    and e: "enqueue st u (rwhead (rw s), rwtail (rw s), rps s) = (h, t', ps)"
  shows "rqueue (s\<lparr>rw := (rw s)\<lparr>rwhead := h, rwtail := t'\<rparr>, rps := ps\<rparr>) (xs @ [u])"
proof -
  have nin: "u \<notin> set xs" using x o by (simp add: outside_def rqueue_notin)
  have "waiting (h, t', ps) (xs @ [u])" using waiting_enqueue[of _ xs u st] x nin e by (metis rqueue_def)
  moreover have p: "pst ps = (pst (rps s))(u := st)" by (rule enqueue_pst[OF e])
  moreover have "rh s \<noteq> {} \<Longrightarrow> pst ps (hd (xs @ [u])) = QueueingW"
    using x front nin p by (cases xs) (auto simp: rqueue_def)
  ultimately show ?thesis using x held o q by (auto simp: rqueue_def outside_def)
qed

lemma rinv_rlock_wait:
  assumes i: "rheld s" and x: "rqueue s xs" and o: "outside u s"
    and r: "rlock (Some u) (rw s) (rps s) = Inr (False, q, ps)"
  shows "rinv (s\<lparr>rw := q, rps := ps\<rparr>)"
proof -
  obtain h t' ps' where e: "enqueue QueueingR u (rwhead (rw s), rwtail (rw s), rps s) = (h, t', ps')" by (metis prod_cases3)
  have q: "q = (rw s)\<lparr>rwhead := h, rwtail := t'\<rparr>" "ps = ps'" and c: "\<not> (writer (rw s) = 0 \<and> rwhead (rw s) = None)"
    using r e by (auto simp: rlock_def split: if_splits)
  have w: "xs = [] \<Longrightarrow> wh s \<noteq> {} \<and> rh s = {}" using c i rqueue_head[OF x] by (auto simp: rheld_def)
  have "rqueue (s\<lparr>rw := q, rps := ps\<rparr>) (xs @ [u])" unfolding q
    using w x by (intro rqueue_enqueue[OF x o _ _ _ e]) (auto simp: queueing_def rqueue_def)
  moreover have "rheld (s\<lparr>rw := q, rps := ps\<rparr>)" using i q by (simp add: rheld_def)
  ultimately show ?thesis by (auto simp: rinv_def)
qed

lemma rinv_wlock_wait:
  assumes i: "rheld s" and x: "rqueue s xs" and o: "outside u s"
    and r: "wlock (Some u) (rw s) (rps s) = Inr (False, q, ps)"
  shows "rinv (s\<lparr>rw := q, rps := ps\<rparr>)"
proof -
  obtain h t' ps' where e: "enqueue QueueingW u (rwhead (rw s), rwtail (rw s), rps s) = (h, t', ps')" by (metis prod_cases3)
  have q: "q = (rw s)\<lparr>rwhead := h, rwtail := t'\<rparr>" "ps = ps'" and c: "\<not> (readers (rw s) = 0 \<and> writer (rw s) = 0)"
    using r e by (auto simp: wlock_def split: if_splits)
  have "rh s \<noteq> {} \<or> wh s \<noteq> {}" using c i by (auto simp: rheld_def)
  then have "rqueue (s\<lparr>rw := q, rps := ps\<rparr>) (xs @ [u])" unfolding q
    by (intro rqueue_enqueue[OF x o _ _ _ e]) (auto simp: queueing_def)
  moreover have "rheld (s\<lparr>rw := q, rps := ps\<rparr>)" using i q by (simp add: rheld_def)
  ultimately show ?thesis by (auto simp: rinv_def)
qed

text \<open>A lock taken at once is free, and has no queue unless readers share it.\<close>

lemma rinv_read_now:
  assumes i: "rheld s" and x: "rqueue s xs" and o: "outside u s" and f: "writer (rw s) = 0" "rwhead (rw s) = None"
  shows "rinv (s\<lparr>rw := (rw s)\<lparr>readers := readers (rw s) + 1\<rparr>, rh := insert u (rh s)\<rparr>)"
proof -
  have "xs = []" using rqueue_head[OF x] f by (simp split: list.splits)
  then have "rqueue (s\<lparr>rw := (rw s)\<lparr>readers := readers (rw s) + 1\<rparr>, rh := insert u (rh s)\<rparr>) []"
    using x by (auto simp: rqueue_def)
  then show ?thesis using i o f by (auto simp: rinv_def rheld_def outside_def)
qed

lemma rinv_wlock_now:
  assumes i: "rheld s" and x: "rqueue s xs" and r: "wlock (Some u) (rw s) (rps s) = Inr (True, q, ps)"
  shows "rinv (s\<lparr>rw := q, rps := ps, wh := insert u (wh s)\<rparr>)"
proof -
  have q: "q = (rw s)\<lparr>wproc := Some u, writer := 1\<rparr>" "ps = rps s" and c: "readers (rw s) = 0" "writer (rw s) = 0"
    using r by (auto simp: wlock_def split: if_splits prod.splits)
  have e: "rh s = {}" "wh s = {}" using c i by (auto simp: rheld_def)
  then have "rqueue (s\<lparr>rw := q, rps := ps, wh := insert u (wh s)\<rparr>) []"
    using x q rqueue_free[OF x] by (auto simp: rqueue_def)
  then show ?thesis using e q c by (auto simp: rinv_def rheld_def)
qed

text \<open>Releasing: the lock goes to the first in the queue, who can only be a writer after readers.\<close>

lemma runlock_cases:
  assumes i: "rheld s" and x: "rqueue s xs" and u: "u \<in> rh s"
  shows "\<exists>w q ps. runlock (rw s) (rps s) = Inr (w, q, ps)
    \<and> rinv (s\<lparr>rw := q, rps := ps, rh := rh s - {u}, wh := wh s \<union> set_option w\<rparr>)"
proof -
  have f: "finite (rh s)" "readers (rw s) = int (card (rh s))" "writer (rw s) = 0" "wh s = {}"
    using i u by (auto simp: rheld_def)
  have c: "int (card (rh s - {u})) = readers (rw s) - 1" using f(1,2) u card_gt_0_iff[of "rh s"] by (auto simp: card_Diff_singleton)
  consider (more) "rh s - {u} \<noteq> {}" | (last) "rh s = {u}" "xs = []" | (hand) y ys where "rh s = {u}" "xs = y # ys"
    using u by (cases xs) auto
  then show ?thesis
  proof cases
    case more
    then have "readers (rw s) - 1 > 0" using c f(1) by (metis card_gt_0_iff finite_Diff of_nat_0_less_iff)
    then have "runlock (rw s) (rps s) = Inr (None, (rw s)\<lparr>readers := readers (rw s) - 1\<rparr>, rps s)"
      by (simp add: runlock_def)
    moreover have "rqueue (s\<lparr>rw := (rw s)\<lparr>readers := readers (rw s) - 1\<rparr>, rps := rps s, rh := rh s - {u},
        wh := wh s \<union> set_option None\<rparr>) xs"
      using x more f by (auto simp: rqueue_def)
    ultimately show ?thesis using c f by (fastforce simp: rinv_def rheld_def)
  next
    case last
    then have h: "rwhead (rw s) = None" using rqueue_head[OF x] by simp
    then have "runlock (rw s) (rps s) = Inr (None, (rw s)\<lparr>readers := readers (rw s) - 1\<rparr>, rps s)"
      by (simp add: runlock_def Let_def)
    moreover have "rqueue (s\<lparr>rw := (rw s)\<lparr>readers := readers (rw s) - 1\<rparr>, rps := rps s, rh := rh s - {u},
        wh := wh s \<union> set_option None\<rparr>) []"
      using x last f by (auto simp: rqueue_def)
    ultimately show ?thesis using c f by (fastforce simp: rinv_def rheld_def)
  next
    case hand
    obtain w' where w': "dequeue (rwhead (rw s), rwtail (rw s), rps s) = Some (y, w')" "waiting w' ys" "snd (snd w') = rps s"
      using waiting_dequeue[of "(rwhead (rw s), rwtail (rw s), rps s)" y ys] x hand by (auto simp: rqueue_def)
    obtain h t' where h: "w' = (h, t', rps s)" using w'(3) by (metis prod.collapse)
    have y: "pst (rps s) y = QueueingW" "rwhead (rw s) = Some y" "y \<notin> set ys"
      using x hand rqueue_head[OF x] by (auto simp: rqueue_def waiting_def)
    let ?q = "(rw s)\<lparr>readers := 0, rwhead := h, rwtail := t', writer := 1\<rparr>"
    have r: "runlock (rw s) (rps s) = Inr (Some y, ?q, ready y (rps s))"
      using y w'(1) h f hand by (simp add: runlock_def Let_def del: dequeue.simps)
    have "waiting (h, t', ready y (rps s)) ys" using w'(2) h waiting_cong[of "ready y (rps s)" "rps s"] by simp
    then have "rqueue (s\<lparr>rw := ?q, rps := ready y (rps s), rh := {}, wh := {y}\<rparr>) ys"
      using x hand y by (auto simp: rqueue_def queueing_def)
    moreover have "rheld (s\<lparr>rw := ?q, rps := ready y (rps s), rh := {}, wh := {y}\<rparr>)" by (simp add: rheld_def)
    ultimately show ?thesis using r f(4) hand(1) by (auto simp: rinv_def)
  qed
qed

lemma waiting_dropWhile:
  assumes "waiting (h, t', ps) xs" and "qnext ps' = qnext ps"
  shows "waiting (case dropWhile P xs of [] \<Rightarrow> None | x # _ \<Rightarrow> Some x,
    if dropWhile P xs = [] then None else t', ps') (dropWhile P xs)"
  using assms
proof (induction xs arbitrary: h)
  case (Cons x xs)
  show ?case
  proof (cases "P x")
    case True
    have "waiting (qnext ps x, if xs = [] then None else t', ps) xs" using Cons.prems(1) by (auto simp: waiting_def)
    then show ?thesis using Cons.IH Cons.prems(2) True by (cases "xs = []") (auto simp: waiting_Nil split: if_splits)
  qed (use Cons.prems in \<open>auto simp: waiting_def\<close>)
qed (simp add: waiting_Nil)

lemma wunlock_cases:
  assumes i: "rheld s" and x: "rqueue s xs" and u: "u \<in> wh s"
  shows "\<exists>ws rs q ps. wunlock (rw s) (rps s) = Some (Inr (ws, rs, q, ps))
    \<and> rinv (s\<lparr>rw := q, rps := ps, rh := rh s \<union> set rs, wh := (wh s - {u}) \<union> set ws\<rparr>)"
proof -
  have f: "rh s = {}" "readers (rw s) = 0" "writer (rw s) = 1" "wh s = {u}" using i u by (auto simp: rheld_def)
  have wt: "waiting (rwhead (rw s), rwtail (rw s), rps s) xs" using x by (simp add: rqueue_def)
  have q: "queueing (pst (rps s) y) \<longleftrightarrow> y \<in> set xs" for y using x by (simp add: rqueue_def)
  consider (free) "xs = []" | (hand) y ys where "xs = y # ys" "pst (rps s) y = QueueingW"
    | (wake) y ys where "xs = y # ys" "pst (rps s) y = QueueingR"
    using q by (cases xs) (auto simp: queueing_def)
  then show ?thesis
  proof cases
    case free
    then have "wunlock (rw s) (rps s) = Some (Inr ([], [], (rw s)\<lparr>writer := 0\<rparr>, rps s))"
      using rqueue_head[OF x] by (simp add: wunlock_def)
    moreover have "rqueue (s\<lparr>rw := (rw s)\<lparr>writer := 0\<rparr>, rps := rps s, rh := rh s \<union> set [], wh := (wh s - {u}) \<union> set []\<rparr>) []"
      using x free by (auto simp: rqueue_def)
    ultimately show ?thesis using f by (fastforce simp: rinv_def rheld_def)
  next
    case hand
    obtain w' where w': "dequeue (rwhead (rw s), rwtail (rw s), rps s) = Some (y, w')" "waiting w' ys" "snd (snd w') = rps s"
      using waiting_dequeue[of "(rwhead (rw s), rwtail (rw s), rps s)" y ys] wt hand by auto
    obtain h t' where h: "w' = (h, t', rps s)" using w'(3) by (metis prod.collapse)
    let ?q = "(rw s)\<lparr>rwhead := h, rwtail := t'\<rparr>"
    have y: "y \<notin> set ys" using wt hand by (simp add: waiting_def)
    have r: "wunlock (rw s) (rps s) = Some (Inr ([y], [], ?q, ready y (rps s)))"
      using hand rqueue_head[OF x] w'(1) h by (simp add: wunlock_def del: dequeue.simps)
    have "waiting (h, t', ready y (rps s)) ys" using w'(2) h waiting_cong[of "ready y (rps s)" "rps s"] by simp
    then have "rqueue (s\<lparr>rw := ?q, rps := ready y (rps s), rh := {}, wh := {y}\<rparr>) ys"
      using q hand y by (auto simp: rqueue_def queueing_def)
    then show ?thesis using r f by (auto simp: rinv_def rheld_def)
  next
    case wake
    let ?P = "\<lambda>x. pst (rps s) x = QueueingR"
    let ?rs = "takeWhile ?P xs" and ?ys = "dropWhile ?P xs"
    let ?ps = "(rps s)\<lparr>pst := \<lambda>x. if x \<in> set ?rs then Ready else pst (rps s) x\<rparr>"
    let ?h = "case ?ys of [] \<Rightarrow> None | x # _ \<Rightarrow> Some x" and ?t = "if ?ys = [] then None else rwtail (rw s)"
    let ?q = "(rw s)\<lparr>rwhead := ?h, rwtail := ?t, readers := int (length ?rs), writer := 0\<rparr>"
    have d: "distinct xs" and ch: "chain (qnext (rps s)) (rwhead (rw s)) xs" using wt by (simp_all add: waiting_def)
    have hn: "?h = None \<longleftrightarrow> ?ys = []" by (simp split: list.splits del: dropWhile_eq_Nil_conv)
    have r: "wunlock (rw s) (rps s) = Some (Inr ([], ?rs, ?q, ?ps))"
      using wake rqueue_head[OF x] wakereaders_eq[OF ch d] f hn by (simp add: wunlock_def del: dropWhile_eq_Nil_conv)
    have w: "waiting (?h, ?t, ?ps) ?ys" by (rule waiting_dropWhile[OF wt]) simp
    have sp: "set xs = set ?rs \<union> set ?ys" "set ?rs \<inter> set ?ys = {}" "distinct ?rs"
      using d takeWhile_dropWhile_id[of ?P xs] by (metis set_append, metis distinct_append, simp)
    have hd: "pst ?ps (hd ?ys) = QueueingW" if ne: "?ys \<noteq> []"
    proof -
      have "hd ?ys \<in> set ?ys" using ne by (rule hd_in_set)
      then have "hd ?ys \<notin> set ?rs" "hd ?ys \<in> set xs" using sp(1,2) by blast+
      then show ?thesis using hd_dropWhile[OF ne] q[of "hd ?ys"] by (simp add: queueing_def)
    qed
    have ne: "set ?rs \<noteq> {}" using wake by simp
    have "\<forall>z. queueing (pst ?ps z) \<longleftrightarrow> z \<in> set ?ys" using q sp(1,2) by (auto simp: queueing_def)
    then have "rqueue (s\<lparr>rw := ?q, rps := ?ps, rh := set ?rs, wh := {}\<rparr>) ?ys"
      using w hd ne sp(2) by (simp add: rqueue_def)
    moreover have "rheld (s\<lparr>rw := ?q, rps := ?ps, rh := set ?rs, wh := {}\<rparr>)" using sp(3) by (simp add: rheld_def distinct_card)
    ultimately have "rinv (s\<lparr>rw := ?q, rps := ?ps, rh := set ?rs, wh := {}\<rparr>)" unfolding rinv_def by blast
    then have "rinv (s\<lparr>rw := ?q, rps := ?ps, rh := rh s \<union> set ?rs, wh := (wh s - {u}) \<union> set []\<rparr>)"
      unfolding f by simp
    then show ?thesis using r by blast
  qed
qed

lemma rinv_step:
  assumes "rinv s" and "rstep s t"
  shows "rinv t"
proof -
  obtain xs where x: "rqueue s xs" and i: "rheld s" using assms(1) by (auto simp: rinv_def)
  from assms(2) show ?thesis
  proof cases
    case (rlock_now u q ps)
    then show ?thesis using rinv_read_now[OF i x rlock_now(2)]
      by (auto simp: rlock_def split: if_splits prod.splits)
  next
    case (try_rlock u got q)
    then show ?thesis using rinv_read_now[OF i x try_rlock(2)] assms(1)
      by (auto simp: canrlock_def split: if_splits)
  next
    case (read_done u w q ps)
    then show ?thesis using runlock_cases[OF i x, of u] by auto
  next
    case (write_done u ws rs q ps)
    then show ?thesis using wunlock_cases[OF i x, of u] by auto
  next
    case (run u)
    then have "u \<notin> set xs" using x by (simp add: rqueue_notin)
    moreover have "waiting (rwhead (rw s), rwtail (rw s), (rps s)\<lparr>pst := (pst (rps s))(u := Running)\<rparr>) xs"
      using x by (simp add: rqueue_def waiting_def)
    ultimately have "rqueue t xs" using x run(1) by (cases xs) (auto simp: rqueue_def queueing_def)
    then show ?thesis using i run(1) by (auto simp: rinv_def rheld_def)
  qed (use i x rinv_rlock_wait rinv_wlock_now rinv_wlock_wait in auto)
qed

definition rgoal :: "rsys \<Rightarrow> bool" where
  "rgoal s \<longleftrightarrow> (wh s \<noteq> {} \<longrightarrow> rh s = {} \<and> (\<exists>u. wh s = {u})) \<and> readers (rw s) = int (card (rh s))
    \<and> writer (rw s) = (if wh s = {} then 0 else 1)
    \<and> (\<forall>u. queueing (pst (rps s) u) \<longrightarrow> rh s \<noteq> {} \<or> wh s \<noteq> {})
    \<and> (\<forall>u \<in> rh s. \<exists>r. runlock (rw s) (rps s) = Inr r)
    \<and> (\<forall>u \<in> wh s. \<exists>r. wunlock (rw s) (rps s) = Some (Inr r))"

lemma rinv_goal: "rinv s \<Longrightarrow> rgoal s"
proof -
  assume "rinv s"
  then obtain xs where x: "rqueue s xs" and i: "rheld s" by (auto simp: rinv_def)
  have "\<exists>r. runlock (rw s) (rps s) = Inr r" if "u \<in> rh s" for u using runlock_cases[OF i x that] by blast
  moreover have "\<exists>r. wunlock (rw s) (rps s) = Some (Inr r)" if "u \<in> wh s" for u using wunlock_cases[OF i x that] by blast
  moreover have "\<forall>u. queueing (pst (rps s) u) \<longrightarrow> rh s \<noteq> {} \<or> wh s \<noteq> {}" using x by (auto simp: rqueue_def)
  ultimately show "rgoal s" using i by (auto simp: rgoal_def rheld_def)
qed

interpretation rwq: safety rinit rstep rinv rgoal
proof unfold_locales
  show "rinv s" if "rinit s" for s
    using that by (auto simp: rinit_def rinv_def rheld_def rqueue_def queueing_def waiting_Nil intro!: exI[of _ "[]"])
qed (fact rinv_step rinv_goal)+

definition rsys0 :: rsys where
  "rsys0 = \<lparr>rw = \<lparr>rwhead = None, rwtail = None, wproc = None, readers = 0, writer = 0\<rparr>,
     rps = \<lparr>qnext = \<lambda>_. None, pst = \<lambda>_. Running\<rparr>, rh = {}, wh = {}\<rparr>"

lemma rinit_rsys0: "rinit rsys0"
  by (simp add: rinit_def rsys0_def)

text \<open>Process 1 writes while 2 queues to read and 3 queues to write.\<close>

lemma rsys0_run:
  "\<exists>t. rstep\<^sup>*\<^sup>* rsys0 t \<and> wh t = {1} \<and> pst (rps t) 2 = QueueingR \<and> pst (rps t) 3 = QueueingW
     \<and> (\<exists>q ps. wunlock (rw t) (rps t) = Some (Inr ([], [2], q, ps)))"
proof -
  define q1 where "q1 = (rw rsys0)\<lparr>wproc := Some 1, writer := 1\<rparr>"
  define s1 where "s1 = rsys0\<lparr>rw := q1, rps := rps rsys0, wh := insert 1 (wh rsys0)\<rparr>"
  define w2 where "w2 = enqueue QueueingR 2 (None, None, rps rsys0)"
  define s2 where "s2 = s1\<lparr>rw := q1\<lparr>rwhead := fst w2, rwtail := fst (snd w2)\<rparr>, rps := snd (snd w2)\<rparr>"
  define w3 where "w3 = enqueue QueueingW 3 w2"
  define s3 where "s3 = s2\<lparr>rw := q1\<lparr>rwhead := fst w3, rwtail := fst (snd w3)\<rparr>, rps := snd (snd w3)\<rparr>"
  note d = rsys0_def q1_def s1_def w2_def s2_def w3_def s3_def
  have a: "rstep rsys0 s1" unfolding s1_def
    by (rule rstep.wlock_now) (simp_all add: outside_def rsys0_def q1_def wlock_def)
  have b: "rstep s1 s2" unfolding s2_def
    by (rule rstep.rlock_wait[where u = 2]) (simp_all add: outside_def d rlock_def)
  have c: "rstep s2 s3" unfolding s3_def
    by (rule rstep.wlock_wait[where u = 3]) (simp_all add: outside_def d wlock_def)
  have "rstep\<^sup>*\<^sup>* rsys0 s3" using a b c by (meson r_into_rtranclp rtranclp_trans)
  moreover have "wh s3 = {1}" "pst (rps s3) 2 = QueueingR" "pst (rps s3) 3 = QueueingW"
    "\<exists>q ps. wunlock (rw s3) (rps s3) = Some (Inr ([], [2], q, ps))"
    by (simp_all add: d Let_def wunlock_def wakereaders.simps ready_def)
  ultimately show ?thesis by blast
qed

text \<open>
  C38: An \<open>RWlock\<close> admits one writer or any number of readers. In every state reached by any
  interleaving of \<open>rlock\<close>, \<open>canrlock\<close>, \<open>runlock\<close>, \<open>wlock\<close>, \<open>wunlock\<close> and dispatches, a process
  that holds the lock for writing is the only holder, the fields \<open>readers\<close> and \<open>writer\<close> count
  the holders exactly, and a process sleeps in the queue only while somebody holds the lock.\<close>

theorem rwlock_excludes:
  assumes "rinit s" and "rstep\<^sup>*\<^sup>* s t"
  shows "(wh t \<noteq> {} \<longrightarrow> rh t = {} \<and> (\<exists>u. wh t = {u})) \<and> readers (rw t) = int (card (rh t))
    \<and> writer (rw t) = (if wh t = {} then 0 else 1)
    \<and> (\<forall>u. pst (rps t) u = QueueingR \<or> pst (rps t) u = QueueingW \<longrightarrow> rh t \<noteq> {} \<or> wh t \<noteq> {})"
  using rwq.reached_goal[OF assms] unfolding rgoal_def queueing_def by blast

theorem rwlock_excludes_witness:
  "rinit rsys0 \<and> (\<exists>t. rstep\<^sup>*\<^sup>* rsys0 t \<and> wh t = {1} \<and> rh t = {} \<and> readers (rw t) = 0 \<and> writer (rw t) = 1)"
proof -
  obtain t where t: "rstep\<^sup>*\<^sup>* rsys0 t" "wh t = {1}" using rsys0_run by blast
  then show ?thesis using rwlock_excludes[OF rinit_rsys0 t(1)] rinit_rsys0 by auto
qed

text \<open>
  C39: Releasing an \<open>RWlock\<close> never panics and always returns. In every reachable state the panic in
  \<open>runlock\<close> (a reader found at the head of the queue) and the one in \<open>wunlock\<close> cannot happen for
  a holder, and the loop that wakes readers ends. \<open>runlock\<close> makes a process ready only for the
  last reader, and then the first in the queue; \<open>wunlock\<close>, when anyone is queued, makes at
  least one process ready, and first the first in the queue.\<close>

theorem rwlock_release_ok:
  assumes "rinit s" and "rstep\<^sup>*\<^sup>* s t"
  shows "(u \<in> rh t \<longrightarrow> (\<exists>w q ps. runlock (rw t) (rps t) = Inr (w, q, ps) \<and> w = (if rh t = {u} then rwhead (rw t) else None)))
    \<and> (u \<in> wh t \<longrightarrow> (\<exists>ws rs q ps. wunlock (rw t) (rps t) = Some (Inr (ws, rs, q, ps))
         \<and> (rwhead (rw t) \<noteq> None \<longrightarrow> ws @ rs \<noteq> [] \<and> rwhead (rw t) = Some (hd (ws @ rs)))))"
proof -
  have g: "rgoal t" and i: "rinv t" using rwq.reached_goal[OF assms] rwq.reached_inv[OF assms] .
  have "\<exists>w q ps. runlock (rw t) (rps t) = Inr (w, q, ps) \<and> w = (if rh t = {u} then rwhead (rw t) else None)" if u: "u \<in> rh t"
  proof -
    have "finite (rh t)" "readers (rw t) = int (card (rh t))" using i by (auto simp: rinv_def rheld_def)
    moreover have "card (rh t) > 1 \<longleftrightarrow> rh t \<noteq> {u}"
      using u calculation(1) card_le_Suc0_iff_eq[of "rh t"] by (fastforce simp: not_le[symmetric])
    moreover obtain r where "runlock (rw t) (rps t) = Inr r" using g u by (auto simp: rgoal_def)
    ultimately show ?thesis by (auto simp: runlock_def Let_def split: if_splits option.splits)
  qed
  moreover have "\<exists>ws rs q ps. wunlock (rw t) (rps t) = Some (Inr (ws, rs, q, ps))
      \<and> (rwhead (rw t) \<noteq> None \<longrightarrow> ws @ rs \<noteq> [] \<and> rwhead (rw t) = Some (hd (ws @ rs)))" if u: "u \<in> wh t"
  proof -
    obtain ws rs q ps where r: "wunlock (rw t) (rps t) = Some (Inr (ws, rs, q, ps))" using g u by (auto simp: rgoal_def)
    have "ws @ rs \<noteq> [] \<and> rwhead (rw t) = Some (hd (ws @ rs))" if "rwhead (rw t) = Some p" for p
      using r that by (auto simp: wunlock_def wakereaders.simps[of "Some p"] Let_def bind_eq_Some_conv split: if_splits)
    then show ?thesis using r by blast
  qed
  ultimately show ?thesis by blast
qed

theorem rwlock_release_ok_witness:
  "\<exists>t. rinit rsys0 \<and> rstep\<^sup>*\<^sup>* rsys0 t \<and> 1 \<in> wh t
     \<and> (\<exists>ws rs q ps. wunlock (rw t) (rps t) = Some (Inr (ws, rs, q, ps)) \<and> ws @ rs \<noteq> [])"
proof -
  obtain t where t: "rstep\<^sup>*\<^sup>* rsys0 t" "wh t = {1}" "\<exists>q ps. wunlock (rw t) (rps t) = Some (Inr ([], [2], q, ps))"
    using rsys0_run by blast
  then have "\<exists>ws rs q ps. wunlock (rw t) (rps t) = Some (Inr (ws, rs, q, ps)) \<and> ws @ rs \<noteq> []"
    using rwlock_release_ok[OF rinit_rsys0 t(1), of 1] by auto
  then show ?thesis using t rinit_rsys0 by blast
qed

end
