(* ===== verification/Tod.thy ===== *)
theory Tod
  imports Plan9_Prelude "HOL-Library.Signed_Division"
begin

text \<open>
  The time of day (\<open>src/port/tod.c\<close>, \<open>src/port/mul64fract.c\<close>): conversions between the ticks of
  the fastest clock and nanoseconds by fixed-point multiplication, and the clock that users
  read, with its adjustments.

  A \<open>vlong\<close> is a 64-bit word read with \<open>sint\<close>, an \<open>int\<close> is an integer wrapped to 32 bits where
  it is assigned. The assembler routine \<open>fastticks\<close> is a parameter: \<open>now\<close> is the reading it
  returns and \<open>hz\<close> the frequency it reports. \<open>ticks\<close> is \<open>sys->ticks\<close>. The lock \<open>tod\<close> makes every
  routine one step. A routine that finds the clock not initialised calls \<open>todinit\<close> first; the
  definitions are what it does after that.
\<close>

section \<open>Fixed point\<close>

definition mul64fract :: "u64 \<Rightarrow> u64 \<Rightarrow> u64" where
  "mul64fract a b =
    (let bl = b AND 0xffffffff; bh = drop_bit 32 b;
         al = a AND 0xffffffff; ah = drop_bit 32 a;
         res = drop_bit 32 (al * bl);
         res = res + al * bh;
         res = res + ah * bl;
         res = res + push_bit 32 (ah * bh)
     in res)"

definition mk64fract :: "u64 \<Rightarrow> u64 \<Rightarrow> u64" where
  "mk64fract to from = push_bit 32 to div from"

section \<open>The clock\<close>

definition TODFREQ :: u64 where "TODFREQ = 1000000000"
definition MicroFREQ :: u64 where "MicroFREQ = 1000000"

record tod =
  tinit :: bool
  tcnt :: u32
  multiplier :: u64
  divider :: u64
  umultiplier :: u64
  udivider :: u64
  thz :: u64
  tlast :: u64
  toff :: u64
  lasttime :: u64
  tdelta :: u64
  sstart :: u32
  send :: u32

text \<open>With \<open>f = 0\<close> the divisions trap.\<close>

definition todsetfreq :: "u64 \<Rightarrow> tod \<Rightarrow> fault + tod" where
  "todsetfreq f td =
    (if f = 0 then Inl (Panic ''divide error'')
     else Inr (td\<lparr>thz := f, multiplier := mk64fract TODFREQ f, divider := mk64fract f TODFREQ + 1,
                 umultiplier := mk64fract MicroFREQ f, udivider := mk64fract f MicroFREQ + 1\<rparr>))"

text \<open>The flag of the result is whether \<open>todfix\<close> is registered with \<open>addclock0link\<close>, every 100 ms.\<close>

definition todinit :: "u64 \<Rightarrow> u64 \<Rightarrow> tod \<Rightarrow> fault + (tod \<times> bool)" where
  "todinit now hz td =
    (if tinit td then Inr (td, False)
     else bindE (todsetfreq hz (td\<lparr>tlast := now, thz := hz\<rparr>)) (\<lambda>td. Inr (td\<lparr>tinit := True\<rparr>, True)))"

definition todset :: "u64 \<Rightarrow> u32 \<Rightarrow> u64 \<Rightarrow> u64 \<Rightarrow> int \<Rightarrow> tod \<Rightarrow> fault + tod" where
  "todset now ticks t delta n td =
    (if sint t \<ge> 0 then
       Inr (td\<lparr>toff := t, tlast := now, lasttime := 0, tdelta := 0, sstart := send td\<rparr>)
     else
       let n = (if n \<le> 0 then 1 else n);
           n = s32 (n * HZ);
           n = (if sint delta < 0 \<and> n > sint (- delta) then s32 (sint (- delta)) else n);
           n = (if sint delta > 0 \<and> n > sint delta then s32 (sint delta) else n)
       in if n = 0 then Inl (Panic ''divide error'')
          else Inr (td\<lparr>sstart := ticks, send := ticks + word_of_int n, tdelta := word_of_int (sint delta sdiv n)\<rparr>))"

text \<open>The correction that is due by now is moved into the offset.\<close>

definition todslew :: "u32 \<Rightarrow> tod \<Rightarrow> tod" where
  "todslew ticks td =
    (if sstart td \<noteq> send td then
       let t = (if ticks \<ge> send td then send td else ticks)
       in td\<lparr>toff := toff td + tdelta td * ucast (t - sstart td), sstart := t\<rparr>
     else td)"

text \<open>
  \<open>x\<close> is a \<open>uvlong\<close>, so \<open>x < tod.lasttime\<close> compares as unsigned numbers, and the \<open>vlong\<close> that is
  returned is the \<open>sint\<close> of the result.
\<close>

definition todget :: "u64 \<Rightarrow> u32 \<Rightarrow> tod \<Rightarrow> u64 \<times> tod" where
  "todget now ticks td =
    (let td = todslew ticks (td\<lparr>tcnt := tcnt td + 1\<rparr>);
         diff = now - tlast td;
         diff = (if sint diff < 0 then 0 else diff);
         x = mul64fract diff (multiplier td);
         x = x + toff td
     in if x < lasttime td then (lasttime td, td) else (x, td\<lparr>lasttime := x\<rparr>))"

definition tod2fastticks :: "u64 \<Rightarrow> tod \<Rightarrow> u64" where
  "tod2fastticks ns td = mul64fract (ns - toff td) (divider td) + tlast td"

definition todfix :: "u64 \<Rightarrow> tod \<Rightarrow> tod" where
  "todfix now td =
    (let diff = now - tlast td in
     if sint diff > sint (thz td) then
       td\<lparr>tlast := now, toff := mul64fract diff (multiplier td) + toff td\<rparr>
     else td)"

text \<open>\<open>x/TODFREQ\<close> divides as \<open>uvlong\<close>, and the quotient is cut to an \<open>int\<close>.\<close>

definition seconds :: "u64 \<Rightarrow> u32 \<Rightarrow> tod \<Rightarrow> int \<times> tod" where
  "seconds now ticks td =
    (case todget now ticks td of (x, td) \<Rightarrow> (s32 (uint (x div TODFREQ)), td))"

definition fastticks2us :: "u64 \<Rightarrow> tod \<Rightarrow> u64" where
  "fastticks2us ticks td = mul64fract ticks (umultiplier td)"

definition us2fastticks :: "u64 \<Rightarrow> tod \<Rightarrow> u64" where
  "us2fastticks us td = mul64fract us (udivider td)"

definition ms2fastticks :: "u32 \<Rightarrow> tod \<Rightarrow> u64" where
  "ms2fastticks ms td = (thz td * ucast ms) div 1000"

definition ns2fastticks :: "u64 \<Rightarrow> tod \<Rightarrow> u64" where
  "ns2fastticks ns td = mul64fract ns (divider td)"

definition fastticks2ns :: "u64 \<Rightarrow> tod \<Rightarrow> u64" where
  "fastticks2ns ticks td = mul64fract ticks (multiplier td)"

section \<open>Fixed-point multiplication is exact\<close>

lemma unat_low32: "unat (a AND 0xffffffff :: u64) = unat a mod 2 ^ 32"
proof -
  have "a AND 0xffffffff = take_bit 32 a" by (simp add: take_bit_eq_mask mask_eq_exp_minus_1)
  then show ?thesis by (simp add: take_bit_eq_mod unat_mod)
qed

lemma unat_high32: "unat (drop_bit 32 a :: u64) = unat a div 2 ^ 32"
  by (simp add: drop_bit_eq_div unat_div)

lemma split_product:
  fixes a b :: nat
  defines "al \<equiv> a mod 2 ^ 32" and "ah \<equiv> a div 2 ^ 32" and "bl \<equiv> b mod 2 ^ 32" and "bh \<equiv> b div 2 ^ 32"
  shows "a * b div 2 ^ 32 = al * bl div 2 ^ 32 + al * bh + ah * bl + ah * bh * 2 ^ 32"
proof -
  have "a = al + 2 ^ 32 * ah" "b = bl + 2 ^ 32 * bh" by (simp_all add: al_def ah_def bl_def bh_def)
  then have "a * b = al * bl + 2 ^ 32 * (al * bh + ah * bl + ah * bh * 2 ^ 32)" by (simp add: algebra_simps)
  then show ?thesis by (simp add: div_mult_self2)
qed

lemma unat_mul64fract: "unat (mul64fract a b) = (unat a * unat b div 2 ^ 32) mod 2 ^ 64"
proof -
  let ?al = "unat a mod 2 ^ 32" and ?ah = "unat a div 2 ^ 32" and ?bl = "unat b mod 2 ^ 32" and ?bh = "unat b div 2 ^ 32"
  have lt: "?al < 2 ^ 32" "?bl < 2 ^ 32" "?ah < 2 ^ 32" "?bh < 2 ^ 32"
    using unsigned_less[where ?'a = nat, of a] unsigned_less[where ?'a = nat, of b] by (simp_all add: less_mult_imp_div_less)
  have "(2::nat) ^ 32 * 2 ^ 32 = 2 ^ 64" by simp
  then have "?al * ?bl < 2 ^ 64" using mult_strict_mono'[OF lt(1,2) le0 le0] by (simp only:)
  then have ll: "?al * ?bl mod 2 ^ 64 = ?al * ?bl" by (rule mod_less)
  have "unat (mul64fract a b) = (?al * ?bl mod 2 ^ 64 div 2 ^ 32 + ?al * ?bh + ?ah * ?bl + ?ah * ?bh * 2 ^ 32) mod 2 ^ 64"
    by (simp add: mul64fract_def Let_def unat_word_ariths push_bit_eq_mult unat_low32 unat_high32 mod_simps)
  then show ?thesis unfolding ll split_product[of "unat a" "unat b"] .
qed

text \<open>
  C34: \<open>mul64fract\<close> multiplies a 64-bit integer by a 64-bit fixed-point number exactly: built from
  32-bit halves, its result is the product shifted right by 32 bits, modulo \<open>2^64\<close>, and so
  it is the integer part of the product whenever that fits in 64 bits.\<close>

theorem mul64fract_exact:
  "mul64fract a b = word_of_nat (unat a * unat b div 2 ^ 32)"
  by (simp add: word_unat_eq_iff unat_mul64fract unat_of_nat)

section \<open>Conversion of delays\<close>

lemma unat_mk64fract: "unat f < 2 ^ 32 \<Longrightarrow> unat (mk64fract f g) = unat f * 2 ^ 32 div unat g"
  by (simp add: mk64fract_def push_bit_eq_mult unat_div unat_word_ariths)

lemma fract_ge:
  fixes f g ns d :: nat
  assumes "0 < g" and "f * 2 ^ 32 \<le> d * g"
  shows "ns * f div g \<le> ns * d div 2 ^ 32"
proof -
  have "ns * f div g * 2 ^ 32 * g = ns * f div g * g * 2 ^ 32" by (simp add: algebra_simps)
  also have "\<dots> \<le> ns * f * 2 ^ 32" by (rule mult_le_mono1) (rule div_times_less_eq_dividend)
  also have "\<dots> \<le> ns * d * g" using assms(2) by (metis mult.assoc mult_le_mono2)
  finally have "ns * f div g * 2 ^ 32 \<le> ns * d" using assms(1) by simp
  then show ?thesis by (simp add: less_eq_div_iff_mult_less_eq)
qed

lemma fract_le:
  fixes f g ns d :: nat
  assumes "0 < g" and "d * g \<le> f * 2 ^ 32"
  shows "ns * d div 2 ^ 32 \<le> ns * f div g"
proof -
  have "ns * d div 2 ^ 32 * g * 2 ^ 32 = ns * d div 2 ^ 32 * 2 ^ 32 * g" by (simp add: algebra_simps)
  also have "\<dots> \<le> ns * d * g" by (rule mult_le_mono1) (rule div_times_less_eq_dividend)
  also have "\<dots> \<le> ns * f * 2 ^ 32" using assms(2) by (metis mult.assoc mult_le_mono2)
  finally have "ns * d div 2 ^ 32 * g \<le> ns * f" by simp
  then show ?thesis using assms(1) by (simp add: less_eq_div_iff_mult_less_eq)
qed

text \<open>Rounding the factor up by one costs at most one unit in \<open>2^32\<close>, and one for the carry.\<close>

lemma fract_round_up:
  fixes f g ns d :: nat
  assumes g: "0 < g" and d: "d = f * 2 ^ 32 div g + 1"
  shows "ns * f div g \<le> ns * d div 2 ^ 32" and "ns * d div 2 ^ 32 \<le> ns * f div g + ns div 2 ^ 32 + 1"
proof -
  have "f * 2 ^ 32 < d * g" using g d by (metis Suc_eq_plus1 dividend_less_div_times mult_Suc add.commute)
  then show "ns * f div g \<le> ns * d div 2 ^ 32" using g by (intro fract_ge) auto
  let ?e = "f * 2 ^ 32 div g"
  have "ns * d div 2 ^ 32 = (ns * ?e + ns) div 2 ^ 32" using d by (simp add: algebra_simps)
  also have "\<dots> \<le> ns * ?e div 2 ^ 32 + ns div 2 ^ 32 + 1"
    unfolding div_add1_eq[of "ns * ?e" ns] by (simp add: div_le_mono less_imp_le_nat less_mult_imp_div_less)
  also have "ns * ?e div 2 ^ 32 \<le> ns * f div g" using g by (intro fract_le) auto
  finally show "ns * d div 2 ^ 32 \<le> ns * f div g + ns div 2 ^ 32 + 1" by simp
qed

definition tod0 :: tod where
  "tod0 = \<lparr>tinit = False, tcnt = 0, multiplier = 0, divider = 0, umultiplier = 0, udivider = 0, thz = 0,
     tlast = 0, toff = 0, lasttime = 0, tdelta = 0, sstart = 0, send = 0\<rparr>"

text \<open>
  C35: A delay converted to clock ticks is never too short and hardly too long. With a clock of
  frequency \<open>f\<close> below \<open>2^32\<close> set by \<open>todsetfreq\<close>, \<open>ns2fastticks\<close> of \<open>ns\<close> nanoseconds is at least
  \<open>ns*f/10^9\<close> ticks and exceeds it by at most \<open>ns/2^32 + 1\<close>, as long as the product fits.\<close>

theorem ns2fastticks_bounds:
  assumes "todsetfreq f td = Inr td'" and "unat f < 2 ^ 32" and fits: "unat ns * (unat f + 2) < 2 ^ 64"
  shows "unat ns * unat f div 10 ^ 9 \<le> unat (ns2fastticks ns td')
    \<and> unat (ns2fastticks ns td') \<le> unat ns * unat f div 10 ^ 9 + unat ns div 2 ^ 32 + 1"
proof -
  let ?d = "unat f * 2 ^ 32 div 10 ^ 9 + 1"
  have d': "divider td' = mk64fract f TODFREQ + 1" using assms(1) by (auto simp: todsetfreq_def split: if_splits)
  have m: "unat (mk64fract f TODFREQ) = unat f * 2 ^ 32 div 10 ^ 9"
    using unat_mk64fract[OF assms(2), of TODFREQ] by (simp add: TODFREQ_def)
  have "unat f * 2 ^ 32 div 10 ^ 9 \<le> unat f * 2 ^ 32" by (rule div_le_dividend)
  also have "\<dots> < 2 ^ 32 * 2 ^ 32" using assms(2) by simp
  finally have "unat f * 2 ^ 32 div 10 ^ 9 + 1 < 2 ^ 64 \<or> unat f * 2 ^ 32 div 10 ^ 9 + 1 = 2 ^ 64" by simp linarith
  moreover have "unat f * 2 ^ 32 div 10 ^ 9 \<le> 2 ^ 64 div 10 ^ 9" using assms(2) by (intro div_le_mono) simp
  ultimately have d: "unat (divider td') = ?d" by (simp add: d' unat_word_ariths m[simplified])
  note b = fract_round_up[of "10 ^ 9" ?d "unat f" "unat ns", OF _ refl, simplified]
  have "unat ns * unat f div 10 ^ 9 \<le> unat ns * unat f" by (rule div_le_dividend)
  moreover have "unat ns div 2 ^ 32 \<le> unat ns" by (rule div_le_dividend)
  ultimately have "unat ns * ?d div 2 ^ 32 \<le> unat ns * unat f + unat ns + 1" using b(2) by simp
  moreover have "unat ns * unat f + unat ns + 1 < 2 ^ 64 \<or> unat ns = 0" using fits by (cases "unat ns") (auto simp: algebra_simps)
  ultimately have "unat ns * ?d div 2 ^ 32 < 2 ^ 64" by auto
  then have "unat (ns2fastticks ns td') = unat ns * ?d div 2 ^ 32" by (simp add: ns2fastticks_def unat_mul64fract d)
  then show ?thesis using b by simp
qed

theorem ns2fastticks_bounds_witness:
  "\<exists>td'. todsetfreq 2400000000 tod0 = Inr td' \<and> 2400000 \<le> unat (ns2fastticks 1000000 td')
    \<and> unat (ns2fastticks 1000000 td') \<le> 2400001"
proof -
  obtain td' where t: "todsetfreq 2400000000 tod0 = Inr td'" by (simp add: todsetfreq_def)
  show ?thesis using t ns2fastticks_bounds[OF t, of 1000000] by (intro exI[of _ td']) simp
qed

section \<open>Time does not go backwards\<close>

lemma todslew_lasttime [simp]: "lasttime (todslew k td) = lasttime td"
  by (simp add: todslew_def Let_def)

lemma todget_lasttime: "todget now k td = (x, td') \<Longrightarrow> lasttime td \<le> x \<and> lasttime td' = x"
  by (auto simp: todget_def Let_def split: if_splits)

lemma todfix_lasttime [simp]: "lasttime (todfix now td) = lasttime td"
  by (simp add: todfix_def Let_def)

text \<open>
  What happens to the clock in the kernel: it is read, \<open>todfix\<close> runs from the clock interrupt,
  the frequency is set and the time is set, or slewed when \<open>t\<close> is negative.
\<close>

datatype todev = Get u64 u32 | Fix u64 | Freq u64 | Set u64 u32 u64 u64 int

fun todexec :: "todev list \<Rightarrow> tod \<Rightarrow> fault + (u64 list \<times> tod)" where
  "todexec [] td = Inr ([], td)"
| "todexec (Get now k # es) td =
    (case todget now k td of (x, td) \<Rightarrow> bindE (todexec es td) (\<lambda>(xs, td). Inr (x # xs, td)))"
| "todexec (Fix now # es) td = todexec es (todfix now td)"
| "todexec (Freq f # es) td = bindE (todsetfreq f td) (todexec es)"
| "todexec (Set now k t delta n # es) td = bindE (todset now k t delta n td) (todexec es)"

definition absolute :: "todev \<Rightarrow> bool" where
  "absolute e = (case e of Set _ _ t _ _ \<Rightarrow> sint t \<ge> 0 | _ \<Rightarrow> False)"

lemma todexec_sorted:
  "todexec es td = Inr (xs, td') \<Longrightarrow> list_all (\<lambda>e. \<not> absolute e) es \<Longrightarrow>
    sorted xs \<and> (\<forall>x \<in> set xs. lasttime td \<le> x)"
proof (induction es td arbitrary: xs td' rule: todexec.induct)
  case (2 now k es td)
  obtain x t where g: "todget now k td = (x, t)" by fastforce
  obtain ys where ys: "todexec es t = Inr (ys, td')" "xs = x # ys" using 2(2) g by (auto simp: bindE_Inr_iff)
  have "sorted ys \<and> (\<forall>y \<in> set ys. lasttime t \<le> y)" using 2(1)[OF g[symmetric] ys(1)] 2(3) by simp
  then show ?case using todget_lasttime[OF g] ys(2) by auto
next
  case (4 f es td)
  then obtain t where t: "todsetfreq f td = Inr t" "todexec es t = Inr (xs, td')" by (auto simp: bindE_Inr_iff)
  then have "lasttime t = lasttime td" by (auto simp: todsetfreq_def split: if_splits)
  then show ?case using 4(1)[OF t] 4(3) by simp
next
  case (5 now k u delta n es td)
  then obtain t where t: "todset now k u delta n td = Inr t" "todexec es t = Inr (xs, td')" by (auto simp: bindE_Inr_iff)
  then have "lasttime t = lasttime td" using 5(3) by (auto simp: todset_def absolute_def Let_def split: if_splits)
  then show ?case using 5(1)[OF t] 5(3) by simp
qed auto

lemma sint_vlong: "sint (x :: u64) = (if uint x < 2 ^ 63 then uint x else uint x - 2 ^ 64)"
proof -
  have "uint x < 2 ^ 64" "0 \<le> uint x" using uint_lt2p[of x] by simp_all
  moreover have "(uint x + 2 ^ 63) mod 2 ^ 64 = uint x - 2 ^ 63" if "uint x \<ge> 2 ^ 63"
  proof -
    have "(uint x + 2 ^ 63) mod 2 ^ 64 = (uint x - 2 ^ 63 + 2 ^ 64) mod 2 ^ 64" by (simp add: algebra_simps)
    also have "\<dots> = (uint x - 2 ^ 63) mod 2 ^ 64" by (rule mod_add_self2)
    also have "\<dots> = uint x - 2 ^ 63" using that uint_lt2p[of x] by (intro mod_pos_pos_trivial) simp_all
    finally show ?thesis .
  qed
  ultimately show ?thesis by (auto simp: sint_uint signed_take_bit_eq_take_bit_shift take_bit_eq_mod)
qed

text \<open>Words in unsigned order are the non-negative \<open>vlong\<close>s in order, and then the negative ones.\<close>

lemma sorted_vlong:
  fixes xs :: "u64 list"
  assumes "sorted xs"
  obtains ps ns where "xs = ps @ ns" "sorted (map sint ps)" "sorted (map sint ns)"
    "list_all (\<lambda>x. 0 \<le> sint x) ps" "list_all (\<lambda>x. sint x < 0) ns"
  using assms
proof (induction xs arbitrary: thesis)
  case Nil then show ?case by simp
next
  case (Cons x xs)
  have s: "sorted xs" using Cons.prems(2) by simp
  have le: "list_all (\<lambda>y. uint x \<le> uint y) xs" using Cons.prems(2) by (auto simp: list_all_iff simp flip: word_le_def)
  obtain ps ns where p: "xs = ps @ ns" "sorted (map sint ps)" "sorted (map sint ns)"
    "list_all (\<lambda>x. 0 \<le> sint x) ps" "list_all (\<lambda>x. sint x < 0) ns"
    using Cons.IH[OF _ s] by blast
  have le': "list_all (\<lambda>y. uint x \<le> uint y) ps" "list_all (\<lambda>y. uint x \<le> uint y) ns" using le p(1) by auto
  have up: "0 \<le> sint y \<Longrightarrow> sint y = uint y \<and> uint y < 2 ^ 63" "sint y < 0 \<Longrightarrow> sint y = uint y - 2 ^ 64 \<and> 2 ^ 63 \<le> uint y"
    for y :: u64 using uint_lt2p[of y] by (auto simp: sint_vlong split: if_splits)
  show ?case
  proof (cases "0 \<le> sint x")
    case True
    have "sint x \<le> sint y" if "y \<in> set ps" for y
      using that up(1)[OF True] up(1)[of y] p(4) le'(1) by (simp add: list_all_iff)
    then have "sorted (map sint (x # ps))" using p(2) by simp
    then show ?thesis using Cons.prems(1)[of "x # ps" ns] p True by simp
  next
    case False
    then have x: "sint x < 0" by simp
    have "y \<notin> set ps" for y using up(2)[OF x] up(1)[of y] p(4) le'(1) by (fastforce simp: list_all_iff)
    then have "ps = []" by (cases ps) auto
    moreover have "sint x \<le> sint y" if "y \<in> set ns" for y
      using that up(2)[OF x] up(2)[of y] p(5) le'(2) by (simp add: list_all_iff)
    ultimately show ?thesis using Cons.prems(1)[of "[]" "x # ns"] p x by simp
  qed
qed

text \<open>
  C33: Time goes backwards at most once unless it is set. Along any sequence of readings, \<open>todfix\<close>
  interrupts, frequency changes and slews by \<open>todset\<close> with negative \<open>t\<close>, in any order and with
  any readings of the fast clock, also ones that go backwards or wrap, the values \<open>todget\<close>
  returns, as the signed \<open>vlong\<close>s they are, never decrease as long as they are not negative; a
  reading can be below its predecessor only when it is the first negative one (the test for
  going backwards is unsigned, and a time slewed below zero or past \<open>2^63\<close> ns passes it), and from then on the readings are negative and do not decrease either.\<close>

theorem todget_monotone:
  assumes "todexec es td = Inr (xs, td')" and "list_all (\<lambda>e. \<not> absolute e) es"
  shows "\<exists>ps ns. xs = ps @ ns \<and> sorted (map sint ps) \<and> sorted (map sint ns)
    \<and> list_all (\<lambda>x. 0 \<le> sint x) ps \<and> list_all (\<lambda>x. sint x < 0) ns"
  using todexec_sorted[OF assms] sorted_vlong[of xs] by metis

text \<open>
  Both halves occur: the fast clock goes back by 100 ticks and the time stands still, then the
  time is slewed back by 5000 ns and reads -4600.
\<close>

theorem todget_monotone_witness:
  "\<exists>td'. todexec [Freq 1000000000, Get 500 0, Get 400 0, Set 500 0 (- 1) (- 100000) 1, Get 400 50] tod0
      = Inr ([500, 500, - 4600], td')
    \<and> (\<exists>ps ns. [500, 500, - 4600] = ps @ ns \<and> sorted (map sint ps) \<and> sorted (map sint (ns :: u64 list))
        \<and> list_all (\<lambda>x. 0 \<le> sint x) ps \<and> list_all (\<lambda>x. sint x < 0) ns)"
proof -
  let ?es = "[Freq 1000000000, Get 500 0, Get 400 0, Set 500 0 (- 1) (- 100000) 1, Get 400 50]"
  have na: "list_all (\<lambda>e. \<not> absolute e) ?es" by (simp add: absolute_def)
  have "\<exists>td'. todexec ?es tod0 = Inr ([500, 500, - 4600], td')"
    by (simp add: todsetfreq_def todget_def todslew_def todset_def mul64fract_def mk64fract_def TODFREQ_def tod0_def
        Let_def HZ_def s32_def)
  then obtain td' where e: "todexec ?es tod0 = Inr ([500, 500, - 4600], td')" by blast
  then show ?thesis using todget_monotone[OF e na] by blast
qed

lemma mul64fract_0 [simp]: "mul64fract 0 m = 0"
  by (simp add: mul64fract_def)

lemma todset_get:
  assumes "sint t \<ge> 0" and "todset now k t delta n td = Inr td'"
  shows "fst (todget now k' td') = t"
  using assms by (auto simp: todset_def todget_def todslew_def Let_def split: if_splits)

end
