(* ===== verification/Timers.thy ===== *)
theory Timers
  imports Tod
begin

text \<open>
  Interval timers and the conversions of ticks (\<open>src/port/portclock.c\<close>).

  A timer is a number, its fields are in a store, and the queue of a processor is the list
  its \<open>tnext\<close> pointers make. \<open>armed\<close> is what \<open>timerset\<close>, a routine of the machine-dependent code,
  was last called with on each processor. Times are \<open>vlong\<close>s: integers, wrapped by \<open>s64\<close> where
  they are computed. \<open>now\<close> is the reading of \<open>fastticks\<close> and \<open>td\<close> the initialised clock, for
  \<open>ns2fastticks\<close>. Each routine runs with the queue locked and is one step; the functions
  timers call run outside the lock and are a parameter.
\<close>

section \<open>Timers and their queues\<close>

definition s64 :: "int \<Rightarrow> int" where
  "s64 = signed_take_bit 63"

definition Trelative :: int where "Trelative = 0"
definition Tperiodic :: int where "Tperiodic = 1"

record timer =
  tmode :: int
  tns :: int
  tf :: "nat option"
  tt :: "nat option"
  twhen :: int

record tsys =
  timer :: "nat \<Rightarrow> timer"
  thead :: "nat \<Rightarrow> nat list"
  armed :: "nat \<Rightarrow> int option"

definition tset :: "nat \<Rightarrow> timer \<Rightarrow> tsys \<Rightarrow> tsys" where
  "tset t r s = s\<lparr>timer := (timer s)(t := r)\<rparr>"

definition timerset :: "nat \<Rightarrow> int \<Rightarrow> tsys \<Rightarrow> tsys" where
  "timerset m when s = s\<lparr>armed := (armed s)(m := Some when)\<rparr>"

text \<open>\<open>ns2fastticks(nt->tns)\<close> assigned to a \<open>vlong\<close>.\<close>

definition tticks :: "tod \<Rightarrow> int \<Rightarrow> int" where
  "tticks td ns = sint (ns2fastticks (word_of_int ns) td)"

text \<open>\<open>for(last = &tt->head; t = *last; last = &t->tnext) if(t->twhen > nt->twhen) break;\<close>\<close>

fun tinsert :: "(nat \<Rightarrow> timer) \<Rightarrow> nat \<Rightarrow> nat list \<Rightarrow> nat list" where
  "tinsert tm nt [] = [nt]"
| "tinsert tm nt (t # ts) = (if twhen (tm t) > twhen (tm nt) then nt # t # ts else t # tinsert tm nt ts)"

fun tsame :: "(nat \<Rightarrow> timer) \<Rightarrow> int \<Rightarrow> nat list \<Rightarrow> nat option" where
  "tsame tm ns [] = None"
| "tsame tm ns (t # ts) = (if tmode (tm t) = Tperiodic \<and> tns (tm t) = ns then Some t else tsame tm ns ts)"

definition twhen_new :: "tod \<Rightarrow> int \<Rightarrow> (nat \<Rightarrow> timer) \<Rightarrow> nat list \<Rightarrow> timer \<Rightarrow> fault + timer" where
  "twhen_new td now tm q r =
    (if tmode r = Trelative then
       let r = (if tns r \<le> 0 then r\<lparr>tns := 1\<rparr> else r)
       in Inr (r\<lparr>twhen := s64 (now + tticks td (tns r))\<rparr>)
     else if tmode r = Tperiodic then
       if \<not> tns r \<ge> 100000 then Inl (Panic ''assert'')
       else
         let base = (if twhen r = 0 then (case tsame tm (tns r) q of Some t \<Rightarrow> twhen (tm t) | None \<Rightarrow> now) else twhen r);
             when = tticks td (tns r);
             when = (if when = 0 then 1 else when)
         in Inr (r\<lparr>twhen := s64 (base + when)\<rparr>)
     else Inl (Panic ''timer''))"

definition tadd :: "tod \<Rightarrow> int \<Rightarrow> nat \<Rightarrow> nat \<Rightarrow> tsys \<Rightarrow> fault + (int \<times> tsys)" where
  "tadd td now q nt s =
    (if tt (timer s nt) \<noteq> None then Inl (Panic ''assert'')
     else bindE (twhen_new td now (timer s) (thead s q) (timer s nt)) (\<lambda>r.
       let s = tset nt r s;
           ts = tinsert (timer s) nt (thead s q);
           s = tset nt (r\<lparr>tt := Some q\<rparr>) (s\<lparr>thead := (thead s)(q := ts)\<rparr>)
       in Inr (if hd ts = nt then twhen r else 0, s)))"

text \<open>
  The walk of \<open>tdel\<close>: the list without \<open>dt\<close>, and whether \<open>last\<close> is still \<open>&tt->head\<close>.
\<close>

fun tunlink :: "nat \<Rightarrow> nat list \<Rightarrow> bool \<Rightarrow> nat list \<times> bool \<times> bool" where
  "tunlink dt [] atHead = ([], atHead, False)"
| "tunlink dt (t # ts) atHead =
    (if t = dt then (ts, atHead, True)
     else case tunlink dt ts False of (ts, h, found) \<Rightarrow> (t # ts, h, found))"

definition tdel :: "nat \<Rightarrow> tsys \<Rightarrow> int \<times> tsys" where
  "tdel dt s =
    (case tt (timer s dt) of
       None \<Rightarrow> (0, s)
     | Some q \<Rightarrow>
         (case tunlink dt (thead s q) True of
            (ts, atHead, found) \<Rightarrow>
              let s = (if found then tset dt ((timer s dt)\<lparr>tt := None\<rparr>) s else s);
                  s = s\<lparr>thead := (thead s)(q := ts)\<rparr>
              in (if atHead \<and> ts \<noteq> [] then twhen (timer s (hd ts)) else 0, s)))"

definition timeradd :: "tod \<Rightarrow> int \<Rightarrow> nat \<Rightarrow> nat \<Rightarrow> tsys \<Rightarrow> fault + tsys" where
  "timeradd td now m nt s =
    (let s = (if tt (timer s nt) \<noteq> None then snd (tdel nt s) else s)
     in bindE (tadd td now m nt s) (\<lambda>(when, s). Inr (if when \<noteq> 0 then timerset m when s else s)))"

definition timerdel :: "nat \<Rightarrow> nat \<Rightarrow> tsys \<Rightarrow> tsys" where
  "timerdel m dt s =
    (case tt (timer s dt) of
       None \<Rightarrow> s
     | Some q \<Rightarrow>
         (case tdel dt s of (when, s) \<Rightarrow>
            if when \<noteq> 0 \<and> q = m then timerset m (twhen (timer s (hd (thead s q)))) s else s))"

section \<open>The timer interrupt\<close>

text \<open>
  The loop of \<open>timerintr\<close>. \<open>call f t s\<close> is the state after the function \<open>f\<close> of timer \<open>t\<close> ran. The
  result has the flag \<open>callhzclock\<close> and the timers that expired, in order.
\<close>

partial_function (option) expire :: "(nat \<Rightarrow> nat \<Rightarrow> tsys \<Rightarrow> tsys) \<Rightarrow> tod \<Rightarrow> int \<Rightarrow> nat \<Rightarrow> tsys
    \<Rightarrow> bool \<Rightarrow> nat list \<Rightarrow> (fault + (bool \<times> nat list \<times> tsys)) option" where
  "expire call td now m s hz fired =
    (case thead s m of
       [] \<Rightarrow> Some (Inr (hz, fired, s))
     | t # ts \<Rightarrow>
         if twhen (timer s t) > now then Some (Inr (hz, fired, timerset m (twhen (timer s t)) s))
         else
           let s1 = s\<lparr>thead := (thead s)(m := ts)\<rparr> in
           if tt (timer s t) \<noteq> Some m then Some (Inl (Panic ''assert''))
           else
             let s2 = tset t ((timer s t)\<lparr>tt := None\<rparr>) s1;
                 s3 = (case tf (timer s2 t) of Some f \<Rightarrow> call f t s2 | None \<Rightarrow> s2);
                 hz' = (hz \<or> tf (timer s2 t) = None)
             in if tmode (timer s3 t) = Tperiodic then
                  (case tadd td now m t s3 of
                     Inl e \<Rightarrow> Some (Inl e)
                   | Inr (_, s4) \<Rightarrow> expire call td now m s4 hz' (fired @ [t]))
                else expire call td now m s3 hz' (fired @ [t]))"

definition timerintr :: "(nat \<Rightarrow> nat \<Rightarrow> tsys \<Rightarrow> tsys) \<Rightarrow> tod \<Rightarrow> int \<Rightarrow> nat \<Rightarrow> tsys
    \<Rightarrow> (fault + (bool \<times> nat list \<times> tsys)) option" where
  "timerintr call td now m s = expire call td now m s False []"

section \<open>The clock of a processor\<close>

text \<open>What \<open>hzclock\<close> calls, in order; \<open>m->ticks\<close> and \<open>sys->ticks\<close> are counted.\<close>

record hzmach =
  mticks :: u32
  systicks :: u32
  online :: bool
  mproc :: bool
  mrunning :: bool
  exiting :: bool
  needflush :: bool

datatype hzcall = Mmuflush | Accounttime | Kmapinval | Kproftimer | ExitNow | Checkalarms | Hzsched

definition hzclock :: "nat \<Rightarrow> bool \<Rightarrow> hzmach \<Rightarrow> hzmach \<times> hzcall list" where
  "hzclock m prof s =
    (let s = s\<lparr>mticks := mticks s + 1\<rparr>;
         s = (if m = 0 then s\<lparr>systicks := mticks s\<rparr> else s);
         a = (if needflush s \<and> mproc s then [Mmuflush] else []);
         s = s\<lparr>needflush := False\<rparr>;
         a = a @ [Accounttime, Kmapinval] @ (if prof then [Kproftimer] else [])
     in if \<not> online s then (s, a)
        else if exiting s then (s, a @ [ExitNow])
        else (s, a @ (if m = 0 then [Checkalarms] else []) @ (if mproc s \<and> mrunning s then [Hzsched] else [])))"

text \<open>The timers \<open>timersinit\<close> and \<open>addclock0link\<close> allocate; \<open>t\<close> is the new one.\<close>

definition timersinit :: "tod \<Rightarrow> int \<Rightarrow> nat \<Rightarrow> nat \<Rightarrow> tsys \<Rightarrow> fault + tsys" where
  "timersinit td now m t s =
    timeradd td now m t (tset t \<lparr>tmode = Tperiodic, tns = 1000000000 div HZ, tf = None, tt = None, twhen = 0\<rparr> s)"

definition addclock0link :: "tod \<Rightarrow> int \<Rightarrow> nat \<Rightarrow> nat \<Rightarrow> nat \<Rightarrow> int \<Rightarrow> tsys \<Rightarrow> fault + tsys" where
  "addclock0link td now m t f ms s =
    (let ms = (if ms = 0 then 1000 div HZ else ms)
     in bindE (tadd td now 0 t (tset t \<lparr>tmode = Tperiodic, tns = ms * 1000000, tf = Some f, tt = None, twhen = 0\<rparr> s))
          (\<lambda>(when, s). Inr (if when \<noteq> 0 then timerset m when s else s)))"

section \<open>Ticks and milliseconds\<close>

definition tk2ms :: "u32 \<Rightarrow> u32" where
  "tk2ms ticks = ucast (((ucast ticks :: u64) * 1000) div word_of_int HZ)"

definition ms2tk :: "u32 \<Rightarrow> u32" where
  "ms2tk ms =
    (if ms \<ge> word_of_int (1000000000 div HZ) then (ms div 1000) * word_of_int HZ
     else (ms * word_of_int HZ + 500) div 1000)"

end
