(* ===== verification/Timers_Correct.thy ===== *)
theory Timers_Correct
  imports Timers
begin

text \<open>
  The timer queues are correct: each stays in the order of expiry and agrees with the \<open>tt\<close>
  fields, the hardware is always armed for a time no later than the first expiry, and the
  interrupt loop ends having run every timer that was due.
\<close>

section \<open>Queue operations\<close>

lemma tinsert_split:
  "sorted (map (\<lambda>t. twhen (tm t)) xs) \<Longrightarrow> \<exists>ys zs. xs = ys @ zs \<and> tinsert tm nt xs = ys @ nt # zs
    \<and> (\<forall>y \<in> set ys. twhen (tm y) \<le> twhen (tm nt)) \<and> (\<forall>z \<in> set zs. twhen (tm nt) \<le> twhen (tm z))"
proof (induction xs)
  case (Cons x xs)
  show ?case
  proof (cases "twhen (tm x) > twhen (tm nt)")
    case True
    then show ?thesis using Cons.prems by (intro exI[of _ "[]"] exI[of _ "x # xs"]) fastforce
  next
    case False
    obtain ys zs where "xs = ys @ zs" "tinsert tm nt xs = ys @ nt # zs"
      "\<forall>y \<in> set ys. twhen (tm y) \<le> twhen (tm nt)" "\<forall>z \<in> set zs. twhen (tm nt) \<le> twhen (tm z)"
      using Cons.IH Cons.prems by auto
    then show ?thesis using False by (intro exI[of _ "x # ys"] exI[of _ zs]) simp
  qed
qed simp

interpretation tq: sorted_queue "\<lambda>t. twhen (tm t)" "tinsert tm" for tm
  by unfold_locales (rule tinsert_split)

lemma tunlink_eq: "distinct ts \<Longrightarrow> dt \<in> set ts \<Longrightarrow> tunlink dt ts h = (remove1 dt ts, h \<and> hd ts = dt, True)"
  by (induction ts arbitrary: h) auto

text \<open>
  A well-formed set of queues: ordered, no timer twice, \<open>tt\<close> names the queue a timer is in,
  and expiry times are positive.
\<close>

definition tord :: "tsys \<Rightarrow> nat \<Rightarrow> bool" where
  "tord s q \<longleftrightarrow> sorted (map (\<lambda>t. twhen (timer s t)) (thead s q)) \<and> distinct (thead s q)"

definition tinv :: "tsys \<Rightarrow> bool" where
  "tinv s \<longleftrightarrow> (\<forall>q. tord s q) \<and> (\<forall>q t. t \<in> set (thead s q) \<longleftrightarrow> tt (timer s t) = Some q)
    \<and> (\<forall>q. \<forall>t \<in> set (thead s q). 0 < twhen (timer s t))"

definition earliest :: "tsys \<Rightarrow> nat \<Rightarrow> bool" where
  "earliest s q \<longleftrightarrow> (thead s q \<noteq> [] \<longrightarrow> (\<exists>a. armed s q = Some a \<and> a \<le> twhen (timer s (hd (thead s q)))))"

lemma tset_fields [simp]:
  "timer (tset t r s) = (timer s)(t := r)" "thead (tset t r s) = thead s" "armed (tset t r s) = armed s"
  by (simp_all add: tset_def)

lemma timerset_fields [simp]:
  "timer (timerset m w s) = timer s" "thead (timerset m w s) = thead s" "armed (timerset m w s) = (armed s)(m := Some w)"
  by (simp_all add: timerset_def)

lemma tord_cong:
  "thead s' q = thead s q \<Longrightarrow> (\<And>t. t \<in> set (thead s q) \<Longrightarrow> twhen (timer s' t) = twhen (timer s t)) \<Longrightarrow> tord s' q = tord s q"
  by (auto simp: tord_def cong: sorted_map_cong) (metis (mono_tags, lifting) map_cong)+

lemma tinvD:
  assumes "tinv s"
  shows "sorted (map (\<lambda>t. twhen (timer s t)) (thead s q))" and "distinct (thead s q)"
    and "t \<in> set (thead s q) \<longleftrightarrow> tt (timer s t) = Some q"
    and "t \<in> set (thead s q) \<Longrightarrow> 0 < twhen (timer s t)"
  using assms by (auto simp: tinv_def tord_def)

lemma tadd_cases:
  assumes "tadd td now q nt s = Inr (w, s')"
  obtains r where "tt (timer s nt) = None" "twhen_new td now (timer s) (thead s q) (timer s nt) = Inr r"
    "s' = s\<lparr>timer := (timer s)(nt := r\<lparr>tt := Some q\<rparr>),
       thead := (thead s)(q := tinsert ((timer s)(nt := r)) nt (thead s q))\<rparr>"
    "w = (if hd (thead s' q) = nt then twhen r else 0)"
  using assms by (auto simp: tadd_def tset_def bindE_Inr_iff Let_def split: if_splits)

text \<open>Adding a timer keeps the queues, and puts it in its place.\<close>

lemma tadd_inv:
  assumes i: "tinv s" and a: "tadd td now q nt s = Inr (w, s')" and pos: "0 < twhen (timer s' nt)"
  shows "tinv s'" and "tt (timer s' nt) = Some q"
    and "\<And>u. u \<noteq> nt \<Longrightarrow> timer s' u = timer s u" and "\<And>p. p \<noteq> q \<Longrightarrow> thead s' p = thead s p"
    and "set (thead s' q) = insert nt (set (thead s q))" and "nt \<notin> set (thead s q)"
    and "w \<noteq> 0 \<and> hd (thead s' q) = nt \<and> w = twhen (timer s' nt)
      \<or> w = 0 \<and> thead s q \<noteq> [] \<and> hd (thead s' q) = hd (thead s q)"
proof -
  obtain r where r: "tt (timer s nt) = None" "s' = s\<lparr>timer := (timer s)(nt := r\<lparr>tt := Some q\<rparr>),
       thead := (thead s)(q := tinsert ((timer s)(nt := r)) nt (thead s q))\<rparr>"
    "w = (if hd (thead s' q) = nt then twhen r else 0)"
    by (rule tadd_cases[OF a]) auto
  define tm where "tm = (timer s)(nt := r)"
  have r2: "thead s' = (thead s)(q := tinsert tm nt (thead s q))" "timer s' = (timer s)(nt := r\<lparr>tt := Some q\<rparr>)"
    using r(2) by (simp_all add: tm_def)
  have tw: "twhen (timer s' t) = twhen (tm t)" for t using r2 by (simp add: tm_def)
  have out: "nt \<notin> set (thead s p)" for p using i r(1) by (auto simp: tinv_def)
  have srt: "sorted (map (\<lambda>t. twhen (tm t)) (thead s q))"
    using i out[of q] by (subst sorted_map_cong[where g = "\<lambda>t. twhen (timer s t)"]) (auto simp: tinv_def tord_def tm_def)
  note ti = tq.set_ins[OF srt] tq.distinct_ins[OF srt] tq.sorted_ins[OF srt, of nt] tq.hd_ins[OF srt, of nt]
  show "tt (timer s' nt) = Some q" "\<And>u. u \<noteq> nt \<Longrightarrow> timer s' u = timer s u" "\<And>p. p \<noteq> q \<Longrightarrow> thead s' p = thead s p"
    using r2 by simp_all
  show st: "set (thead s' q) = insert nt (set (thead s q))" using r2(1) ti(1) by simp
  show "nt \<notin> set (thead s q)" by (rule out)
  have "tord s' p" for p
  proof (cases "p = q")
    case True
    have "sorted (map (\<lambda>t. twhen (timer s' t)) (thead s' q))"
      unfolding tw using ti(3) r2(1) by simp
    moreover have "distinct (thead s' q)" using ti(2) r2 out i by (simp add: tinv_def tord_def)
    ultimately show ?thesis using True by (simp add: tord_def)
  next
    case False
    then have "tord s' p = tord s p" using r2 out[of p] by (intro tord_cong) auto
    then show ?thesis using i by (simp add: tinv_def)
  qed
  moreover have "t \<in> set (thead s' p) \<longleftrightarrow> tt (timer s' t) = Some p" for p t
    using i r(1) r2 st by (cases "p = q"; cases "t = nt") (auto simp: tinv_def)
  moreover have "0 < twhen (timer s' t)" if "t \<in> set (thead s' p)" for p t
    using that i r2 st pos by (cases "p = q"; cases "t = nt") (auto simp: tinv_def)
  ultimately show "tinv s'" by (simp add: tinv_def)
  show "w \<noteq> 0 \<and> hd (thead s' q) = nt \<and> w = twhen (timer s' nt)
      \<or> w = 0 \<and> thead s q \<noteq> [] \<and> hd (thead s' q) = hd (thead s q)"
    using ti(4) r(3) r2 pos by auto
qed
text \<open>The other processors stay armed for their first timer.\<close>

definition others :: "nat \<Rightarrow> tsys \<Rightarrow> bool" where
  "others m s \<longleftrightarrow> (\<forall>q. q \<noteq> m \<longrightarrow> earliest s q)"

lemma tadd_others:
  assumes i: "tinv s" and a: "tadd td now m t s = Inr (w, s')" and pos: "0 < twhen (timer s' t)" and o: "others m s"
  shows "others m s'"
proof -
  note ti = tadd_inv[OF i a pos]
  have ar: "armed s' = armed s" by (rule tadd_cases[OF a]) simp
  have "earliest s' q" if "q \<noteq> m" for q
  proof -
    have "hd (thead s q) \<noteq> t" if "thead s q \<noteq> []"
      using hd_in_set[OF that] tinvD(3)[OF ti(1), of "hd (thead s q)" q] ti(2) ti(4)[OF \<open>q \<noteq> m\<close>] \<open>q \<noteq> m\<close> by auto
    then show ?thesis using o that ar ti(3) ti(4)[OF that] by (auto simp: others_def earliest_def)
  qed
  then show ?thesis by (simp add: others_def)
qed

lemma tdel_eq:
  assumes i: "tinv s" and q: "tt (timer s dt) = Some q"
  shows "tdel dt s = (if hd (thead s q) = dt \<and> remove1 dt (thead s q) \<noteq> [] then twhen (timer s (hd (remove1 dt (thead s q)))) else 0,
    s\<lparr>timer := (timer s)(dt := (timer s dt)\<lparr>tt := None\<rparr>), thead := (thead s)(q := remove1 dt (thead s q))\<rparr>)"
proof -
  have d: "distinct (thead s q)" "dt \<in> set (thead s q)" using i q by (auto simp: tinv_def tord_def)
  have "hd (remove1 dt (thead s q)) \<noteq> dt" if "remove1 dt (thead s q) \<noteq> []"
    using hd_in_set[OF that] d(1) by auto
  then show ?thesis using q by (auto simp: tdel_def tunlink_eq[OF d] Let_def tset_def)
qed

lemma sorted_map_remove1: "sorted (map f xs) \<Longrightarrow> sorted (map f (remove1 x xs))"
  by (induction xs) (auto dest: notin_set_remove1 in_set_remove1 subsetD[OF set_remove1_subset])

text \<open>Taking a timer out of its queue.\<close>

lemma unqueue_inv:
  assumes i: "tinv s" and q: "tt (timer s dt) = Some q"
    and s': "s' = s\<lparr>timer := (timer s)(dt := (timer s dt)\<lparr>tt := None\<rparr>), thead := (thead s)(q := remove1 dt (thead s q))\<rparr>"
  shows "tinv s'"
proof -
  have d: "distinct (thead s q)" "dt \<in> set (thead s q)" using i q by (auto simp: tinv_def tord_def)
  have tw: "twhen (timer s' t) = twhen (timer s t)" for t using s' by simp
  have "tord s' p" for p
  proof (cases "p = q")
    case True
    then show ?thesis using s' sorted_map_remove1[OF tinvD(1)[OF i]] d(1) unfolding tord_def tw by simp
  next
    case False
    then show ?thesis using s' tinvD(1,2)[OF i] unfolding tord_def tw by simp
  qed
  moreover have "t \<in> set (thead s' p) \<longleftrightarrow> tt (timer s' t) = Some p" for p t
    using i q s' d by (cases "p = q"; cases "t = dt") (auto simp: tinv_def)
  moreover have "0 < twhen (timer s' t)" if "t \<in> set (thead s' p)" for p t
  proof -
    have "t \<in> set (thead s p)" using that s' by (cases "p = q") (auto dest: subsetD[OF set_remove1_subset])
    then show ?thesis using i tw[of t] by (auto simp: tinv_def)
  qed
  ultimately show ?thesis by (simp add: tinv_def)
qed

section \<open>The timer interrupt\<close>

definition due :: "int \<Rightarrow> nat \<Rightarrow> tsys \<Rightarrow> (nat \<times> int) set" where
  "due now m s = {(t, twhen (timer s t)) |t. t \<in> set (thead s m) \<and> twhen (timer s t) \<le> now}"

definition tmeas :: "int \<Rightarrow> nat \<Rightarrow> tsys \<Rightarrow> nat" where
  "tmeas now m s = (\<Sum>p \<in> due now m s. nat (now - snd p + 1))"

text \<open>Periods are at least 100 microseconds and the next expiry fits in a \<open>vlong\<close>.\<close>

definition periods_ok :: "tod \<Rightarrow> int \<Rightarrow> tsys \<Rightarrow> bool" where
  "periods_ok td now s \<longleftrightarrow> (\<forall>t. tmode (timer s t) = Tperiodic \<longrightarrow>
     100000 \<le> tns (timer s t) \<and> 0 \<le> tticks td (tns (timer s t)) \<and> now + tticks td (tns (timer s t)) + 1 < 2 ^ 63)"

text \<open>
  What the interrupt needs of the functions it calls: they may set, move and delete other
  timers, as long as no timer that is due comes or goes and the other processors stay armed.
\<close>

definition harmless :: "(nat \<Rightarrow> nat \<Rightarrow> tsys \<Rightarrow> tsys) \<Rightarrow> tod \<Rightarrow> int \<Rightarrow> nat \<Rightarrow> bool" where
  "harmless call td now m \<longleftrightarrow> (\<forall>f t s. tinv s \<and> periods_ok td now s \<longrightarrow>
     tinv (call f t s) \<and> periods_ok td now (call f t s) \<and> timer (call f t s) t = timer s t
     \<and> due now m (call f t s) = due now m s \<and> (others m s \<longrightarrow> others m (call f t s)))"

lemma finite_due [simp]: "finite (due now m s)"
proof -
  have "due now m s \<subseteq> (\<lambda>t. (t, twhen (timer s t))) ` set (thead s m)" by (auto simp: due_def)
  then show ?thesis using finite_surj by blast
qed

lemma s64_id: "0 \<le> x \<Longrightarrow> x < 2 ^ 63 \<Longrightarrow> s64 x = x"
  by (simp add: s64_def signed_take_bit_int_eq_self)

lemma twhen_new_periodic:
  assumes "periods_ok td now s" and "tmode (timer s t) = Tperiodic" and "0 < twhen (timer s t)" and "twhen (timer s t) \<le> now"
  shows "\<exists>r. twhen_new td now tm q (timer s t) = Inr r \<and> twhen (timer s t) < twhen r
    \<and> tmode r = tmode (timer s t) \<and> tns r = tns (timer s t)"
proof -
  let ?w = "if tticks td (tns (timer s t)) = 0 then 1 else tticks td (tns (timer s t))"
  have p: "100000 \<le> tns (timer s t)" "0 \<le> tticks td (tns (timer s t))" "now + tticks td (tns (timer s t)) + 1 < 2 ^ 63"
    using assms(1,2) by (auto simp: periods_ok_def)
  have "s64 (twhen (timer s t) + ?w) = twhen (timer s t) + ?w" using p assms(3,4) by (intro s64_id) auto
  then show ?thesis using p assms(2,3) by (simp add: twhen_new_def Let_def Tperiodic_def Trelative_def)
qed

text \<open>Running the first timer: it leaves the queue, and the others that are due stay.\<close>

lemma expire_pop:
  assumes i: "tinv s" and h: "thead s m = t # ts" and d: "twhen (timer s t) \<le> now"
    and s2: "s2 = tset t ((timer s t)\<lparr>tt := None\<rparr>) (s\<lparr>thead := (thead s)(m := ts)\<rparr>)"
  shows "tt (timer s t) = Some m" and "tinv s2" and "due now m s = insert (t, twhen (timer s t)) (due now m s2)"
    and "(t, twhen (timer s t)) \<notin> due now m s2"
proof -
  show q: "tt (timer s t) = Some m" using tinvD(3)[OF i, of t m] h by simp
  have "distinct (t # ts)" using tinvD(2)[OF i, of m] h by simp
  then show "due now m s = insert (t, twhen (timer s t)) (due now m s2)" "(t, twhen (timer s t)) \<notin> due now m s2"
    using h d s2 by (auto simp: due_def)
  show "tinv s2" using s2 h by (intro unqueue_inv[OF i q]) (simp add: tset_def)
qed

lemma expire_readd:
  assumes i: "tinv s" and p: "periods_ok td now s" and per: "tmode (timer s t) = Tperiodic" and n: "tt (timer s t) = None"
    and w: "0 < twhen (timer s t)" "twhen (timer s t) \<le> now"
  shows "\<exists>v s'. tadd td now m t s = Inr (v, s') \<and> tinv s' \<and> periods_ok td now s' \<and> (others m s \<longrightarrow> others m s')
    \<and> due now m s \<subseteq> due now m s' \<and> tmeas now m s' < tmeas now m s + nat (now - twhen (timer s t) + 1)"
proof -
  obtain r where r: "twhen_new td now (timer s) (thead s m) (timer s t) = Inr r" "twhen (timer s t) < twhen r"
    "tmode r = tmode (timer s t)" "tns r = tns (timer s t)" using twhen_new_periodic[OF p per w] by blast
  obtain v s' where a: "tadd td now m t s = Inr (v, s')" using r(1) n by (auto simp: tadd_def Let_def)
  obtain r' where "twhen_new td now (timer s) (thead s m) (timer s t) = Inr r'" "timer s' t = r'\<lparr>tt := Some m\<rparr>"
    by (rule tadd_cases[OF a]) auto
  then have st: "timer s' t = r\<lparr>tt := Some m\<rparr>" using r(1) by simp
  note ti = tadd_inv[OF i a] st
  have pos: "0 < twhen (timer s' t)" using st r(2) w(1) by simp
  have "tmode (timer s' u) = tmode (timer s u) \<and> tns (timer s' u) = tns (timer s u)" for u
    using st r(3,4) ti(3)[OF pos, of u] by (cases "u = t") simp_all
  then have "periods_ok td now s'" using p by (simp add: periods_ok_def)
  moreover have sub: "due now m s \<subseteq> due now m s'"
  proof -
    have "u \<noteq> t" if "u \<in> set (thead s m)" for u using that ti(6)[OF pos] by auto
    then show ?thesis using ti(3,5)[OF pos] by (auto simp: due_def)
  qed
  moreover have "tmeas now m s' < tmeas now m s + nat (now - twhen (timer s t) + 1)"
  proof -
    have "(u, twhen (timer s' u)) \<in> insert (t, twhen r) (due now m s)"
      if "u \<in> set (thead s' m)" "twhen (timer s' u) \<le> now" for u
    proof (cases "u = t")
      case False
      then show ?thesis using that ti(3)[OF pos False] ti(5)[OF pos] by (auto simp: due_def)
    qed (simp add: st)
    then have "due now m s' \<subseteq> insert (t, twhen r) (due now m s)" unfolding due_def[of now m s'] by blast
    then have "tmeas now m s' \<le> (\<Sum>p \<in> insert (t, twhen r) (due now m s). nat (now - snd p + 1))"
      unfolding tmeas_def by (intro sum_mono2) auto
    also have "\<dots> \<le> nat (now - twhen r + 1) + tmeas now m s"
      by (cases "(t, twhen r) \<in> due now m s") (auto simp: tmeas_def insert_absorb)
    also have "\<dots> < tmeas now m s + nat (now - twhen (timer s t) + 1)" using r(2) w(2) by simp
    finally show ?thesis .
  qed
  ultimately show ?thesis using a ti(1)[OF pos] tadd_others[OF i a pos] by blast
qed

definition expired_ok :: "tod \<Rightarrow> int \<Rightarrow> nat \<Rightarrow> tsys \<Rightarrow> nat list \<Rightarrow> tsys \<Rightarrow> bool" where
  "expired_ok td now m s fired s' \<longleftrightarrow> tinv s' \<and> periods_ok td now s' \<and> (\<forall>t \<in> set (thead s' m). now < twhen (timer s' t))
    \<and> (thead s' m \<noteq> [] \<longrightarrow> armed s' m = Some (twhen (timer s' (hd (thead s' m))))) \<and> fst ` due now m s \<subseteq> set fired
    \<and> (others m s \<longrightarrow> others m s')"

lemma expire_step:
  assumes "thead s m = t # ts" and "\<not> twhen (timer s t) > now" and "tt (timer s t) = Some m"
    and "s2 = tset t ((timer s t)\<lparr>tt := None\<rparr>) (s\<lparr>thead := (thead s)(m := ts)\<rparr>)"
    and "s3 = (case tf (timer s2 t) of Some f \<Rightarrow> call f t s2 | None \<Rightarrow> s2)"
  shows "expire call td now m s hz fired =
    (if tmode (timer s3 t) = Tperiodic then
       (case tadd td now m t s3 of
          Inl e \<Rightarrow> Some (Inl e)
        | Inr (_, s4) \<Rightarrow> expire call td now m s4 (hz \<or> tf (timer s2 t) = None) (fired @ [t]))
     else expire call td now m s3 (hz \<or> tf (timer s2 t) = None) (fired @ [t]))"
  using assms(1-3) unfolding assms(4,5) by (subst expire.simps) (simp add: Let_def)

lemma expire_ends:
  assumes h: "harmless call td now m"
  shows "tinv s \<Longrightarrow> periods_ok td now s \<Longrightarrow>
    \<exists>hz' fired' s'. expire call td now m s hz fired = Some (Inr (hz', fired @ fired', s')) \<and> expired_ok td now m s fired' s'"
proof (induction "tmeas now m s" arbitrary: s hz fired rule: less_induct)
  case less
  note i = less.prems(1) and p = less.prems(2)
  show ?case
  proof (cases "thead s m")
    case Nil
    then show ?thesis using i p by (intro exI[of _ hz] exI[of _ "[]"] exI[of _ s]) (simp add: expire.simps expired_ok_def due_def)
  next
    case (Cons t ts)
    show ?thesis
    proof (cases "twhen (timer s t) > now")
      case True
      have "now < twhen (timer s u)" if "u \<in> set (thead s m)" for u using that True tinvD(1)[OF i, of m] Cons by fastforce
      moreover have "tinv (timerset m (twhen (timer s t)) s)" using i by (simp add: tinv_def tord_def)
      moreover have "due now m s = {}" using calculation(1) by (force simp: due_def)
      ultimately show ?thesis using p True Cons
        by (intro exI[of _ hz] exI[of _ "[]"] exI[of _ "timerset m (twhen (timer s t)) s"])
          (simp add: expire.simps expired_ok_def periods_ok_def others_def earliest_def)
    next
      case False
      define s2 where "s2 = tset t ((timer s t)\<lparr>tt := None\<rparr>) (s\<lparr>thead := (thead s)(m := ts)\<rparr>)"
      define s3 where "s3 = (case tf (timer s2 t) of Some f \<Rightarrow> call f t s2 | None \<Rightarrow> s2)"
      let ?hz = "hz \<or> tf (timer s2 t) = None"
      note pop = expire_pop[OF i Cons leI[OF False] s2_def]
      have t2: "timer s2 t = (timer s t)\<lparr>tt := None\<rparr>" by (simp add: s2_def)
      have "tmode (timer s2 u) = tmode (timer s u) \<and> tns (timer s2 u) = tns (timer s u)" for u by (simp add: s2_def)
      then have p2: "periods_ok td now s2" using p by (simp add: periods_ok_def)
      have s3: "tinv s3" "periods_ok td now s3" "timer s3 t = timer s2 t" "due now m s3 = due now m s2"
        "others m s2 \<longrightarrow> others m s3" using h pop(2) p2 unfolding s3_def harmless_def by (auto split: option.split)
      have m3: "tmeas now m s = tmeas now m s3 + nat (now - twhen (timer s t) + 1)"
        using pop(3,4) s3(4) by (simp add: tmeas_def)
      have w: "0 < twhen (timer s t)" using tinvD(4)[OF i, of t m] Cons by simp
      have o2: "others m s \<longrightarrow> others m s3" using s3(5) by (auto simp: s2_def others_def earliest_def)
      have cov: "fst ` due now m s = insert t (fst ` due now m s3)" using pop(3) s3(4) by simp
      have "\<exists>s4. tinv s4 \<and> periods_ok td now s4 \<and> tmeas now m s4 < tmeas now m s \<and> due now m s3 \<subseteq> due now m s4 \<and> (others m s3 \<longrightarrow> others m s4)
        \<and> expire call td now m s hz fired = expire call td now m s4 ?hz (fired @ [t])"
      proof (cases "tmode (timer s t) = Tperiodic")
        case True
        then obtain v s4 where "tadd td now m t s3 = Inr (v, s4)" "tinv s4" "periods_ok td now s4" "due now m s3 \<subseteq> due now m s4"
          "tmeas now m s4 < tmeas now m s" "others m s3 \<longrightarrow> others m s4" using expire_readd[OF s3(1,2), of t m] w False m3 s3(3) t2 by auto
        then show ?thesis using True s3(3) t2 expire_step[where call = call, OF Cons False pop(1) s2_def s3_def, of td hz fired]
          by (intro exI[of _ s4]) simp
      next
        case per: False
        then show ?thesis using s3 t2 m3 w False expire_step[where call = call, OF Cons False pop(1) s2_def s3_def, of td hz fired]
          by (intro exI[of _ s3]) simp
      qed
      then obtain s4 where s4: "tinv s4" "periods_ok td now s4" "tmeas now m s4 < tmeas now m s" "due now m s3 \<subseteq> due now m s4"
        "expire call td now m s hz fired = expire call td now m s4 ?hz (fired @ [t])" "others m s3 \<longrightarrow> others m s4" by blast
      obtain hz' fired' s' where e: "expire call td now m s4 ?hz (fired @ [t]) = Some (Inr (hz', (fired @ [t]) @ fired', s'))"
        "expired_ok td now m s4 fired' s'" using less.hyps[OF s4(3,1,2)] by blast
      have "fst ` due now m s \<subseteq> set (t # fired')" 
        using subset_trans[OF image_mono[OF s4(4), of fst]] e(2) by (simp add: cov expired_ok_def subset_insertI2)
      then have "expired_ok td now m s (t # fired') s'" using e(2) s4(6) o2 unfolding expired_ok_def by blast
      then show ?thesis using e(1) s4(5) by (intro exI[of _ hz'] exI[of _ "t # fired'"] exI[of _ s']) simp
    qed
  qed
qed

definition timer0 :: "int \<Rightarrow> int \<Rightarrow> int \<Rightarrow> timer" where
  "timer0 mode ns w = \<lparr>tmode = mode, tns = ns, tf = Some 0, tt = Some 0, twhen = w\<rparr>"

text \<open>Two timers queued on processor 0: number 1 periodic, due at 5, and number 2 one-shot, due at 900.\<close>

definition tsys0 :: tsys where
  "tsys0 = \<lparr>timer = (\<lambda>_. \<lparr>tmode = Trelative, tns = 0, tf = None, tt = None, twhen = 0\<rparr>)
       (1 := timer0 Tperiodic 100000 5, 2 := timer0 Trelative 1 900), thead = (\<lambda>_. [])(0 := [1, 2]), armed = \<lambda>_. None\<rparr>"

lemma tinv_tsys0: "tinv tsys0"
  by (auto simp: tsys0_def tinv_def tord_def timer0_def)

definition tod1 :: tod where
  "tod1 = tod0\<lparr>tinit := True, divider := 0x100000001\<rparr>"

lemma tticks_tod1: "tticks tod1 100000 = 100000"
  by (simp add: tticks_def ns2fastticks_def tod1_def tod0_def mul64fract_def)

lemma periods_tsys0: "periods_ok tod1 10 tsys0"
  by (simp add: periods_ok_def tsys0_def timer0_def Tperiodic_def Trelative_def tticks_tod1)

lemma harmless_id: "harmless (\<lambda>f t s. s) td now m"
  by (simp add: harmless_def)

text \<open>
  C31: The timer interrupt ends and misses nothing. On well-formed queues, with periods that fit the
  clock and called functions that do not touch timers that are due, \<open>timerintr\<close> returns
  without a panic; every timer that was due has been run, the queue is well-formed again
  and holds only timers that are due later, and the hardware is armed for exactly the first
  of them.\<close>

theorem timerintr_ok:
  assumes "tinv s" and "periods_ok td now s" and "harmless call td now m"
  shows "\<exists>hz fired s'. timerintr call td now m s = Some (Inr (hz, fired, s')) \<and> tinv s'
    \<and> (\<forall>t \<in> set (thead s m). twhen (timer s t) \<le> now \<longrightarrow> t \<in> set fired)
    \<and> (\<forall>t \<in> set (thead s' m). now < twhen (timer s' t))
    \<and> (thead s' m \<noteq> [] \<longrightarrow> armed s' m = Some (twhen (timer s' (hd (thead s' m)))))"
proof -
  obtain hz fired s' where e: "expire call td now m s False [] = Some (Inr (hz, fired, s'))" "expired_ok td now m s fired s'"
    using expire_ends[OF assms(3,1,2), of False "[]"] by auto
  have "t \<in> fst ` due now m s" if "t \<in> set (thead s m)" "twhen (timer s t) \<le> now" for t using that by (force simp: due_def)
  then show ?thesis using e by (auto simp: timerintr_def expired_ok_def)
qed

theorem timerintr_ok_witness:
  "tinv tsys0 \<and> periods_ok tod1 10 tsys0 \<and> harmless (\<lambda>f t s. s) tod1 10 0
   \<and> (\<exists>hz fired s'. timerintr (\<lambda>f t s. s) tod1 10 0 tsys0 = Some (Inr (hz, fired, s')) \<and> 1 \<in> set fired
        \<and> (\<forall>t \<in> set (thead s' 0). 10 < twhen (timer s' t)))"
proof -
  obtain hz fired s' where r: "timerintr (\<lambda>f t s. s) tod1 10 0 tsys0 = Some (Inr (hz, fired, s'))"
    "\<forall>t \<in> set (thead tsys0 0). twhen (timer tsys0 t) \<le> 10 \<longrightarrow> t \<in> set fired" "\<forall>t \<in> set (thead s' 0). 10 < twhen (timer s' t)"
    using timerintr_ok[OF tinv_tsys0 periods_tsys0 harmless_id[of tod1 10 0]] by blast
  have "1 \<in> set fired" using r(2) by (simp add: tsys0_def timer0_def)
  then show ?thesis using r tinv_tsys0 periods_tsys0 harmless_id by blast
qed

section \<open>All operations\<close>

text \<open>
  The operations on timers in any order. Users fill in the fields of a timer, also while it
  is queued; expiry times stay positive as long as the clock does not wrap. The hardware
  timer of a processor is used up when it interrupts. \<open>anyproc\<close> tells whether \<open>addclock0link\<close> is
  called on any processor or on processor 0 only: it queues the timer on processor 0 and arms
  the timer of the processor it runs on. At an interrupt the periods are at least 100 microseconds
  and fit the clock (\<open>periods_ok\<close>), and the functions of the timers do not touch timers that are
  due (\<open>harmless\<close>).
\<close>

inductive tstep :: "bool \<Rightarrow> tsys \<Rightarrow> tsys \<Rightarrow> bool" for anyproc where
  fill: "tstep anyproc s (tset t ((timer s t)\<lparr>tmode := md, tns := ns, tf := f\<rparr>) s)"
| add: "timeradd td now m t s = Inr s' \<Longrightarrow> 0 < twhen (timer s' t) \<Longrightarrow> tstep anyproc s s'"
| del: "tstep anyproc s (timerdel m t s)"
| link: "m = 0 \<or> anyproc \<Longrightarrow> tt (timer s t) = None \<Longrightarrow> addclock0link td now m t f ms s = Inr s' \<Longrightarrow> 0 < twhen (timer s' t) \<Longrightarrow> tstep anyproc s s'"
| start: "tt (timer s t) = None \<Longrightarrow> timersinit td now m t s = Inr s' \<Longrightarrow> 0 < twhen (timer s' t) \<Longrightarrow> tstep anyproc s s'"
| intr: "periods_ok td now s \<Longrightarrow> harmless call td now m \<Longrightarrow> timerintr call td now m (s\<lparr>armed := (armed s)(m := None)\<rparr>) = Some (Inr (hz, fired, s')) \<Longrightarrow> tstep anyproc s s'"

definition tstart :: "tsys \<Rightarrow> bool" where
  "tstart s \<longleftrightarrow> (\<forall>q. thead s q = []) \<and> (\<forall>t. tt (timer s t) = None)"

definition tsafe :: "tsys \<Rightarrow> bool" where
  "tsafe s \<longleftrightarrow> tinv s \<and> (\<forall>q. earliest s q)"

text \<open>The invariant of a run: the queues, and the hardware unless \<open>addclock0link\<close> runs anywhere.\<close>

definition tkept :: "bool \<Rightarrow> tsys \<Rightarrow> bool" where
  "tkept anyproc s \<longleftrightarrow> tinv s \<and> (anyproc \<or> (\<forall>q. earliest s q))"

lemma tsafeI: "tinv s \<Longrightarrow> others m s \<Longrightarrow> earliest s m \<Longrightarrow> tsafe s"
  unfolding tsafe_def others_def by metis

lemma tsafe_tset:
  assumes "tsafe s" and "tt r = tt (timer s t)" and "twhen r = twhen (timer s t) \<or> tt r = None"
  shows "tsafe (tset t r s)"
proof -
  have out: "t \<notin> set (thead s q)" if "twhen r \<noteq> twhen (timer s t)" for q
    using assms that tinvD(3)[of s t q] by (auto simp: tsafe_def)
  have tw: "twhen (timer (tset t r s) u) = twhen (timer s u)" if "u \<in> set (thead s q)" for u q
    using that out[of q] by auto
  have "tord (tset t r s) q" for q using assms(1) tord_cong[of "tset t r s" q s] tw by (auto simp: tsafe_def tinv_def)
  moreover have "earliest (tset t r s) q" for q
    using assms(1) tw[of "hd (thead s q)" q] by (auto simp: tsafe_def earliest_def)
  moreover have "0 < twhen (timer (tset t r s) u)" if "u \<in> set (thead (tset t r s) q)" for u q
    using assms(1) that tw[of u q] by (simp add: tsafe_def tinv_def)
  moreover have "u \<in> set (thead (tset t r s) q) \<longleftrightarrow> tt (timer (tset t r s) u) = Some q" for u q
    using assms(1,2) by (simp add: tsafe_def tinv_def)
  ultimately show ?thesis by (simp add: tsafe_def tinv_def)
qed

lemma tsafe_tadd:
  assumes "tsafe s" and a: "tadd td now m t s = Inr (w, s')" and pos: "0 < twhen (timer s' t)"
  shows "tsafe (if w \<noteq> 0 then timerset m w s' else s')"
proof -
  have i: "tinv s" using assms(1) by (simp add: tsafe_def)
  note ti = tadd_inv[OF i a pos]
  have ar: "armed s' = armed s" by (rule tadd_cases[OF a]) simp
  have other: "others m s'" using assms(1) tadd_others[OF i a pos] by (simp add: tsafe_def others_def)
  have "tinv (timerset m w s')" using ti(1) by (simp add: tinv_def tord_def)
  moreover have "earliest (if w \<noteq> 0 then timerset m w s' else s') m"
  proof (cases "w = 0")
    case True
    then have h: "thead s m \<noteq> []" "hd (thead s' m) = hd (thead s m)" using ti(7) by auto
    then have "timer s' (hd (thead s m)) = timer s (hd (thead s m))" using hd_in_set[OF h(1)] ti(6) by (intro ti(3)) auto
    then show ?thesis using assms(1) h ar True by (auto simp: tsafe_def earliest_def)
  qed (use ti(7) in \<open>auto simp: earliest_def\<close>)
  moreover have "others m (if w \<noteq> 0 then timerset m w s' else s')" using other by (simp add: others_def earliest_def)
  ultimately show ?thesis using ti(1) by (intro tsafeI[of _ m]) auto
qed

lemma tsafe_tdel:
  assumes "tsafe s" and q: "tt (timer s dt) = Some q"
  shows "tsafe (snd (tdel dt s))"
proof -
  have i: "tinv s" using assms(1) by (simp add: tsafe_def)
  define s' where "s' = s\<lparr>timer := (timer s)(dt := (timer s dt)\<lparr>tt := None\<rparr>), thead := (thead s)(q := remove1 dt (thead s q))\<rparr>"
  have tw: "twhen (timer s' t) = twhen (timer s t)" for t by (simp add: s'_def)
  have "earliest s' p" for p
  proof (cases "p = q")
    case True
    have "twhen (timer s (hd (thead s q))) \<le> twhen (timer s (hd (remove1 dt (thead s q))))" if "remove1 dt (thead s q) \<noteq> []"
    proof -
      have "hd (remove1 dt (thead s q)) \<in> set (thead s q)" using hd_in_set[OF that] set_remove1_subset by fastforce
      then show ?thesis using tinvD(1)[OF i, of q] by (cases "thead s q") auto
    qed
    then show ?thesis using assms(1) True tw by (force simp: tsafe_def earliest_def s'_def)
  next
    case False
    then show ?thesis using assms(1) tw by (auto simp: tsafe_def earliest_def s'_def)
  qed
  then have "tsafe s'" using unqueue_inv[OF i q s'_def] by (simp add: tsafe_def)
  then show ?thesis using tdel_eq[OF i q] by (simp add: s'_def)
qed

lemma tsafe_timeradd:
  assumes "tsafe s" and "timeradd td now m t s = Inr s'" and "0 < twhen (timer s' t)"
  shows "tsafe s'"
proof -
  define s1 where "s1 = (if tt (timer s t) \<noteq> None then snd (tdel t s) else s)"
  have s1: "tsafe s1" using assms(1) tsafe_tdel by (auto simp: s1_def)
  obtain w s2 where w: "tadd td now m t s1 = Inr (w, s2)" "s' = (if w \<noteq> 0 then timerset m w s2 else s2)"
    using assms(2) by (auto simp: timeradd_def Let_def s1_def bindE_Inr_iff)
  then have "0 < twhen (timer s2 t)" using assms(3) by (auto split: if_splits)
  then show ?thesis using tsafe_tadd[OF s1 w(1)] w(2) by simp
qed

lemma tsafe_timerdel:
  assumes "tsafe s"
  shows "tsafe (timerdel m t s)"
proof (cases "tt (timer s t)")
  case (Some q)
  have d: "tsafe (snd (tdel t s))" by (rule tsafe_tdel[OF assms Some])
  then have "tsafe (timerset m (twhen (timer (snd (tdel t s)) (hd (thead (snd (tdel t s)) m)))) (snd (tdel t s)))"
    by (auto simp: tsafe_def tinv_def tord_def earliest_def)
  then show ?thesis using d Some by (auto simp: timerdel_def split: prod.splits)
qed (use assms in \<open>simp add: timerdel_def\<close>)

lemma tsafe_link:
  assumes "tsafe s" and "tt (timer s t) = None" and "addclock0link td now 0 t f ms s = Inr s'" and "0 < twhen (timer s' t)"
  shows "tsafe s'"
proof -
  let ?r = "\<lparr>tmode = Tperiodic, tns = (if ms = 0 then 1000 div HZ else ms) * 1000000, tf = Some f, tt = None, twhen = 0\<rparr>"
  have t: "tsafe (tset t ?r s)" using assms(1,2) by (intro tsafe_tset) auto
  obtain w s2 where w: "tadd td now 0 t (tset t ?r s) = Inr (w, s2)" "s' = (if w \<noteq> 0 then timerset 0 w s2 else s2)"
    using assms(3) by (auto simp: addclock0link_def Let_def bindE_Inr_iff)
  then have "0 < twhen (timer s2 t)" using assms(4) by (auto split: if_splits)
  then show ?thesis using tsafe_tadd[OF t w(1)] w(2) by simp
qed

lemma tsafe_intr:
  assumes "tsafe s" and "periods_ok td now s" and "harmless call td now m"
    and "timerintr call td now m (s\<lparr>armed := (armed s)(m := None)\<rparr>) = Some (Inr (hz, fired, s'))"
  shows "tsafe s'"
proof -
  let ?s = "s\<lparr>armed := (armed s)(m := None)\<rparr>"
  have "tinv ?s" "periods_ok td now ?s" and o: "others m ?s"
    using assms(1,2) by (simp_all add: tsafe_def tinv_def tord_def periods_ok_def others_def earliest_def)
  then have "expired_ok td now m ?s fired s'"
    using expire_ends[OF assms(3), of ?s False "[]"] assms(4) by (auto simp: timerintr_def)
  then have "tinv s'" "others m s'" "earliest s' m" using o by (auto simp: expired_ok_def earliest_def)
  then show ?thesis by (rule tsafeI)
qed

lemma tinv_armed: "tinv s \<Longrightarrow> tinv (timerset m w s)"
  by (simp add: tinv_def tord_def)

text \<open>A queue of timers that expire at positive times is safe once every processor is armed for 0.\<close>

lemma tinv_tset:
  assumes "tinv s" and "tt r = tt (timer s t)" and "twhen r = twhen (timer s t) \<or> tt r = None"
  shows "tinv (tset t r s)"
proof -
  let ?s = "s\<lparr>armed := \<lambda>_. Some 0\<rparr>"
  have "0 < twhen (timer s (hd (thead s q)))" if "thead s q \<noteq> []" for q using tinvD(4)[OF assms(1) hd_in_set[OF that]] .
  moreover have "tinv ?s" using assms(1) by (simp add: tinv_def tord_def)
  ultimately have "tsafe ?s" by (simp add: tsafe_def earliest_def less_imp_le)
  then have "tsafe (tset t r ?s)" using assms(2,3) by (intro tsafe_tset) auto
  then show ?thesis by (simp add: tsafe_def tinv_def tord_def)
qed

lemma tinv_tdel: "tinv s \<Longrightarrow> tinv (snd (tdel t s))"
  using tdel_eq[of s t] unqueue_inv[of s t, OF _ _ refl] by (cases "tt (timer s t)") (simp_all add: tdel_def)

lemma tinv_tadd:
  assumes "tinv s" "tadd td now q t s = Inr (w, s2)" "s' = (if w \<noteq> 0 then timerset m w s2 else s2)" "0 < twhen (timer s' t)"
  shows "tinv s'"
  using tadd_inv(1)[OF assms(1,2)] assms(3,4) tinv_armed by (auto split: if_splits)

lemma tinv_timeradd:
  assumes "tinv s" and "timeradd td now m t s = Inr s'" and "0 < twhen (timer s' t)"
  shows "tinv s'"
proof -
  define s1 where "s1 = (if tt (timer s t) \<noteq> None then snd (tdel t s) else s)"
  have s1: "tinv s1" using assms(1) tinv_tdel by (simp add: s1_def)
  obtain w s2 where "tadd td now m t s1 = Inr (w, s2)" "s' = (if w \<noteq> 0 then timerset m w s2 else s2)"
    using assms(2) by (auto simp: timeradd_def Let_def s1_def bindE_Inr_iff)
  then show ?thesis by (rule tinv_tadd[OF s1 _ _ assms(3)])
qed

lemma tinv_step:
  assumes "tinv s" and "tstep anyproc s s'"
  shows "tinv s'"
  using assms(2)
proof cases
  case (fill t md ns f)
  then show ?thesis using assms(1) by (auto intro: tinv_tset)
next
  case (del m t)
  then show ?thesis using assms(1) tinv_tdel[OF assms(1), of t]
    by (auto simp: timerdel_def tinv_armed split: option.split prod.split)
next
  case (link m t td now f ms)
  let ?r = "\<lparr>tmode = Tperiodic, tns = (if ms = 0 then 1000 div HZ else ms) * 1000000, tf = Some f, tt = None, twhen = 0\<rparr>"
  have t: "tinv (tset t ?r s)" using assms(1) link(2) by (intro tinv_tset) auto
  obtain w s2 where "tadd td now 0 t (tset t ?r s) = Inr (w, s2)" "s' = (if w \<noteq> 0 then timerset m w s2 else s2)"
    using link(3) by (auto simp: addclock0link_def Let_def bindE_Inr_iff)
  then show ?thesis by (rule tinv_tadd[OF t _ _ link(4)])
next
  case (start t td now m)
  let ?r = "\<lparr>tmode = Tperiodic, tns = 1000000000 div HZ, tf = None, tt = None, twhen = 0\<rparr>"
  have "tinv (tset t ?r s)" using assms(1) start(1) by (intro tinv_tset) auto
  then show ?thesis using tinv_timeradd[of "tset t ?r s" td now m t s'] start by (auto simp: timersinit_def)
next
  case (intr td now call m hz fired)
  let ?s = "s\<lparr>armed := (armed s)(m := None)\<rparr>"
  have "tinv ?s" "periods_ok td now ?s" using assms(1) intr(1) by (simp_all add: tinv_def tord_def periods_ok_def)
  then have "expired_ok td now m ?s fired s'" using expire_ends[OF intr(2), of ?s False "[]"] intr(3) by (auto simp: timerintr_def)
  then show ?thesis by (simp add: expired_ok_def)
qed (use assms(1) tinv_timeradd in blast)

lemma tsafe_step:
  assumes "tsafe s" and "tstep False s s'"
  shows "tsafe s'"
  using assms(2)
proof cases
  case (fill t md ns f)
  then show ?thesis using assms(1) by (auto intro: tsafe_tset)
next
  case (start t td now m)
  let ?r = "\<lparr>tmode = Tperiodic, tns = 1000000000 div HZ, tf = None, tt = None, twhen = 0\<rparr>"
  have "tsafe (tset t ?r s)" using assms(1) start(1) by (intro tsafe_tset) auto
  then show ?thesis using tsafe_timeradd[of "tset t ?r s" td now m t s'] start by (auto simp: timersinit_def)
next
  case (intr td now call m hz fired)
  then show ?thesis using tsafe_intr[OF assms(1)] by blast
qed (use assms(1) tsafe_timeradd tsafe_timerdel tsafe_link in blast)+

interpretation tms: safety tstart "tstep anyproc" "tkept anyproc" "tkept anyproc" for anyproc
proof unfold_locales
  show "tkept anyproc s" if "tstart s" for s using that by (simp add: tstart_def tkept_def tinv_def tord_def earliest_def)
  show "tkept anyproc s'" if "tkept anyproc s" "tstep anyproc s s'" for s s'
    using that tinv_step[of s anyproc s'] tsafe_step[of s s'] by (cases anyproc) (auto simp: tkept_def tsafe_def)
qed auto

definition tsys1 :: tsys where
  "tsys1 = \<lparr>timer = \<lambda>_. \<lparr>tmode = Trelative, tns = 0, tf = None, tt = None, twhen = 0\<rparr>, thead = \<lambda>_. [], armed = \<lambda>_. None\<rparr>"

lemma tsys1_run: "\<exists>s. (tstep False)\<^sup>*\<^sup>* tsys1 s \<and> thead s 0 = [7] \<and> armed s 0 = Some 1000010"
proof -
  have tk: "tticks tod1 1000000 = 1000000" by (simp add: tticks_def ns2fastticks_def tod1_def tod0_def mul64fract_def)
  have "\<exists>s. timersinit tod1 10 0 7 tsys1 = Inr s \<and> thead s 0 = [7] \<and> armed s 0 = Some 1000010 \<and> twhen (timer s 7) = 1000010"
    by (simp add: timersinit_def timeradd_def tadd_def twhen_new_def tsys1_def HZ_def tk Tperiodic_def Trelative_def
        Let_def tset_def timerset_def s64_def signed_take_bit_int_eq_self)
  then obtain s where s: "timersinit tod1 10 0 7 tsys1 = Inr s" "thead s 0 = [7]" "armed s 0 = Some 1000010" "twhen (timer s 7) = 1000010"
    by blast
  have "tstep False tsys1 s" using s by (intro tstep.start[of tsys1 7 tod1 10 0]) (simp_all add: tsys1_def)
  then show ?thesis using s by blast
qed

text \<open>
  C29: Timers are never lost, and never late as long as \<open>addclock0link\<close> runs on processor 0. From empty
  queues, after any sequence of \<open>timeradd\<close>, \<open>timerdel\<close> and \<open>timersinit\<close> and timer interrupts on any
  processors, and \<open>addclock0link\<close> on any processor, with expiry times and periods that fit the clock and called
  functions that do not touch timers that are due: each queue is in the order of expiry and a
  timer is in the queue its \<open>tt\<close> names and in no other. If moreover \<open>addclock0link\<close> was called on
  processor 0 only, every processor with a timer queued has its hardware armed for a time no
  later than the first expiry (elsewhere it arms the wrong processor's).\<close>

theorem timers_armed:
  assumes "tstart s" and "(tstep anyproc)\<^sup>*\<^sup>* s s'"
  shows "sorted (map (\<lambda>t. twhen (timer s' t)) (thead s' q)) \<and> distinct (thead s' q)
    \<and> (t \<in> set (thead s' q) \<longleftrightarrow> tt (timer s' t) = Some q)
    \<and> (\<not> anyproc \<and> thead s' q \<noteq> [] \<longrightarrow> (\<exists>a. armed s' q = Some a \<and> a \<le> twhen (timer s' (hd (thead s' q)))))"
  using tms.reached_goal[OF assms] unfolding tkept_def tinv_def tord_def earliest_def by blast

theorem timers_armed_witness:
  "tstart tsys1 \<and> (\<exists>s. (tstep False)\<^sup>*\<^sup>* tsys1 s \<and> thead s 0 = [7] \<and> tt (timer s 7) = Some 0 \<and> 1000010 \<le> twhen (timer s 7))"
proof -
  have i: "tstart tsys1" by (simp add: tstart_def tsys1_def)
  obtain s where s: "(tstep False)\<^sup>*\<^sup>* tsys1 s" "thead s 0 = [7]" "armed s 0 = Some 1000010" using tsys1_run by blast
  have "tt (timer s 7) = Some 0" "1000010 \<le> twhen (timer s 7)"
    using timers_armed[OF i s(1), where q = 0 and t = 7] s(2,3) by auto
  then show ?thesis using i s by blast
qed

text \<open>Called on processor 1, \<open>addclock0link\<close> leaves a timer on processor 0 with no hardware armed for it.\<close>

lemma link_elsewhere_unarmed:
  "\<exists>s. tstep True tsys1 s \<and> thead s 0 = [7] \<and> armed s 0 = None \<and> armed s 1 = Some 1000010"
proof -
  have tk: "tticks tod1 1000000 = 1000000" by (simp add: tticks_def ns2fastticks_def tod1_def tod0_def mul64fract_def)
  have "\<exists>s. addclock0link tod1 10 1 7 3 0 tsys1 = Inr s \<and> thead s 0 = [7] \<and> armed s 0 = None \<and> armed s 1 = Some 1000010 \<and> twhen (timer s 7) = 1000010"
    by (simp add: addclock0link_def tadd_def twhen_new_def tsys1_def HZ_def tk Tperiodic_def Trelative_def
        Let_def tset_def timerset_def s64_def signed_take_bit_int_eq_self)
  then obtain s where s: "addclock0link tod1 10 1 7 3 0 tsys1 = Inr s" "thead s 0 = [7]" "armed s 0 = None" "armed s 1 = Some 1000010"
    "twhen (timer s 7) = 1000010" by blast
  have "tstep True tsys1 s" using s by (intro tstep.link[of 1 True tsys1 7 tod1 10 3 0]) (simp_all add: tsys1_def)
  then show ?thesis using s by blast
qed

section \<open>Ticks and milliseconds\<close>

lemma unat_tk2ms: "tk2ms k = k"
proof -
  have k: "uint k < 2 ^ 32" using uint_bounded[of k] by simp
  then have "uint ((ucast k :: u64) * 1000) = uint k * 1000" by (simp add: uint_word_ariths unsigned_ucast_eq take_bit_eq_mod)
  then have "uint (((ucast k :: u64) * 1000) div 1000) = uint k" by (simp add: uint_div)
  then show ?thesis using k unfolding tk2ms_def HZ_def by (simp add: word_uint_eq_iff unsigned_ucast_eq take_bit_eq_mod)
qed

lemma unat_ms2tk: "unat (ms2tk k) = (if unat k < 1000000 then unat k else unat k - unat k mod 1000)"
proof (cases "unat k < 1000000")
  case True
  then have "unat (k * 1000 + 500) = unat k * 1000 + 500" by (simp add: unat_word_ariths)
  moreover have "\<not> k \<ge> 1000000" using True by (simp add: word_le_nat_alt)
  moreover have "(unat k * 1000 + 500) div 1000 = unat k" by simp
  ultimately show ?thesis using True by (simp add: ms2tk_def HZ_def unat_div)
next
  case False
  have "unat k div 1000 * 1000 \<le> unat k" by simp
  then have "unat (k div 1000 * 1000) = unat k div 1000 * 1000"
    using unsigned_less[where ?'a = nat, of k] by (simp add: unat_word_ariths unat_div)
  then show ?thesis using False by (simp add: ms2tk_def HZ_def word_le_nat_alt minus_mod_eq_div_mult)
qed

text \<open>
  Milliseconds to ticks and back loses less than a second: for every 32-bit number of
  milliseconds neither conversion overflows, the result is exact below 1000 seconds, and above
  it is rounded down to a whole second.\<close>

theorem ms2tk_tk2ms:
  "unat (tk2ms (ms2tk k)) \<le> unat k \<and> unat k < unat (tk2ms (ms2tk k)) + 1000
    \<and> (k < 1000000 \<longrightarrow> tk2ms (ms2tk k) = k)"
proof -
  have "unat k mod 1000 < 1000" by simp
  then show ?thesis by (auto simp: unat_tk2ms unat_ms2tk word_less_nat_alt word_unat_eq_iff)
qed

end
