(* ===== verification/Alarm.thy ===== *)
theory Alarm
  imports Timers_Correct
begin

text \<open>
  Process alarms (\<open>src/port/alarm.c\<close>): the list of processes with an alarm, in the order the
  alarms go off, and the kernel process that sends the notes.

  Times are \<open>ulong\<close>s of 32 bits that wrap; \<open>tickscmp\<close> compares them as a signed difference. The
  list \<open>alarms.head\<close>, \<open>p->palarm\<close> is a list of process numbers. \<open>alarms\<close> is locked, so each routine
  is one step; \<open>alarmkproc\<close> is one round of its loop, up to the \<open>sleep\<close>, and \<open>free\<close> tells which
  processes have their \<open>debug\<close> lock free for \<open>canqlock\<close>.
\<close>

definition tickscmp :: "u32 \<Rightarrow> u32 \<Rightarrow> int" where
  "tickscmp a b = sint (a - b)"

record alarms =
  ahead :: "nat list"
  alarm :: "nat \<Rightarrow> u32"

text \<open>The processes that get the note \<open>alarm\<close>, in order, and the alarms that remain.\<close>

fun alarmloop :: "u32 \<Rightarrow> (nat \<Rightarrow> bool) \<Rightarrow> (nat \<Rightarrow> u32) \<Rightarrow> nat list \<Rightarrow> nat list \<times> nat list \<times> (nat \<Rightarrow> u32)" where
  "alarmloop now free al [] = ([], [], al)"
| "alarmloop now free al (rp # l) =
    (if tickscmp now (al rp) \<ge> 0 then
       if free rp then
         (case alarmloop now free (al(rp := 0)) l of (posted, l, al) \<Rightarrow> (rp # posted, l, al))
       else (case alarmloop now free al l of (posted, l, al) \<Rightarrow> (posted, rp # l, al))
     else ([], rp # l, al))"

definition alarmkproc :: "u32 \<Rightarrow> (nat \<Rightarrow> bool) \<Rightarrow> alarms \<Rightarrow> nat list \<times> alarms" where
  "alarmkproc now free a =
    (case alarmloop now free (alarm a) (ahead a) of (posted, l, al) \<Rightarrow> (posted, a\<lparr>ahead := l, alarm := al\<rparr>))"

text \<open>Whether the kernel process is woken.\<close>

definition checkalarms :: "u32 \<Rightarrow> alarms \<Rightarrow> bool" where
  "checkalarms now a = (case ahead a of [] \<Rightarrow> False | p # _ \<Rightarrow> tickscmp now (alarm a p) \<ge> 0)"

definition disalarm :: "nat \<Rightarrow> alarms \<Rightarrow> alarms" where
  "disalarm p a = a\<lparr>ahead := remove1 p (ahead a)\<rparr>"

text \<open>\<open>while((f = *l) != nil && tickscmp(f->alarm, when) < 0) l = &f->palarm;\<close>\<close>

fun alarminsert :: "(nat \<Rightarrow> u32) \<Rightarrow> nat \<Rightarrow> nat list \<Rightarrow> nat list" where
  "alarminsert al up [] = [up]"
| "alarminsert al up (f # l) = (if tickscmp (al f) (al up) < 0 then f # alarminsert al up l else up # f # l)"

definition procalarm :: "u32 \<Rightarrow> nat \<Rightarrow> u32 \<Rightarrow> alarms \<Rightarrow> u32 \<times> alarms" where
  "procalarm ticks up time a =
    (let (old, a) = (if alarm a up \<noteq> 0 then (tk2ms (alarm a up - ticks), disalarm up a) else (0, a))
     in if time = 0 then (old, a\<lparr>alarm := (alarm a)(up := 0)\<rparr>)
        else
          let when = ms2tk time + ticks;
              when = (if when = 0 then 1 else when);
              al = (alarm a)(up := when)
          in (old, a\<lparr>alarm := al, ahead := alarminsert al up (ahead a)\<rparr>))"

section \<open>Correctness\<close>

text \<open>
  The list is in order when no alarm is before its predecessor, and holds the processes whose
  \<open>alarm\<close> is not zero. Comparing wrapped times is an order only within a window: \<open>near now\<close> says
  that all alarms are within \<open>2^30\<close> ticks, about twelve days, of \<open>now\<close>.
\<close>

definition awf :: "alarms \<Rightarrow> bool" where
  "awf a \<longleftrightarrow> sorted_wrt (\<lambda>p q. tickscmp (alarm a p) (alarm a q) \<le> 0) (ahead a) \<and> distinct (ahead a)
    \<and> (\<forall>p. p \<in> set (ahead a) \<longleftrightarrow> alarm a p \<noteq> 0)"

definition near :: "u32 \<Rightarrow> u32 \<Rightarrow> bool" where
  "near now w \<longleftrightarrow> - (2 ^ 30) \<le> tickscmp w now \<and> tickscmp w now < 2 ^ 30"

definition anear :: "u32 \<Rightarrow> alarms \<Rightarrow> bool" where
  "anear now a \<longleftrightarrow> (\<forall>p \<in> set (ahead a). near now (alarm a p))"

lemma sint_diff:
  fixes x y :: u32
  assumes "- (2 ^ 31) \<le> sint x - sint y" and "sint x - sint y < 2 ^ 31"
  shows "sint (x - y) = sint x - sint y"
proof -
  have "sint (x - y) = signed_take_bit 31 (sint x - sint y)" by (simp add: sint_word_ariths)
  then show ?thesis using assms by (simp add: signed_take_bit_int_eq_self)
qed

text \<open>Within the window, comparing is subtracting distances.\<close>

lemma tickscmp_near:
  assumes "near now x" and "near now y"
  shows "tickscmp x y = tickscmp x now - tickscmp y now"
proof -
  have "x - y = (x - now) - (y - now)" by simp
  then show ?thesis using assms sint_diff[of "x - now" "y - now"] unfolding tickscmp_def near_def by simp
qed

lemma near_now [simp]: "near now now"
  by (simp add: near_def tickscmp_def)

lemma tickscmp_swap: "near now x \<Longrightarrow> tickscmp now x = - tickscmp x now"
  using tickscmp_near[of now now x] by (simp add: tickscmp_def)

lemma alarminsert_split:
  "\<exists>ys zs. l = ys @ zs \<and> alarminsert al up l = ys @ up # zs \<and> (\<forall>f \<in> set ys. tickscmp (al f) (al up) < 0)
    \<and> (zs \<noteq> [] \<longrightarrow> tickscmp (al (hd zs)) (al up) \<ge> 0)"
proof (induction l)
  case (Cons f l)
  show ?case
  proof (cases "tickscmp (al f) (al up) < 0")
    case True
    obtain ys zs where "l = ys @ zs" "alarminsert al up l = ys @ up # zs" "\<forall>f \<in> set ys. tickscmp (al f) (al up) < 0"
      "zs \<noteq> [] \<longrightarrow> tickscmp (al (hd zs)) (al up) \<ge> 0" using Cons.IH by blast
    then show ?thesis using True by (intro exI[of _ "f # ys"] exI[of _ zs]) simp
  next
    case False
    then show ?thesis by (intro exI[of _ "[]"] exI[of _ "f # l"]) simp
  qed
qed simp

lemma alarminsert_sorted:
  assumes "sorted_wrt (\<lambda>p q. tickscmp (al p) (al q) \<le> 0) l" and "\<forall>p \<in> insert up (set l). near now (al p)"
  shows "sorted_wrt (\<lambda>p q. tickscmp (al p) (al q) \<le> 0) (alarminsert al up l)"
proof -
  obtain ys zs where s: "l = ys @ zs" "alarminsert al up l = ys @ up # zs" "\<forall>f \<in> set ys. tickscmp (al f) (al up) < 0"
    "zs \<noteq> [] \<longrightarrow> tickscmp (al (hd zs)) (al up) \<ge> 0" using alarminsert_split by blast
  have "tickscmp (al up) (al z) \<le> 0" if z: "z \<in> set zs" for z
  proof -
    have h: "hd zs \<in> set zs" using z by (cases zs) auto
    have "z = hd zs \<or> tickscmp (al (hd zs)) (al z) \<le> 0" using assms(1) s(1) z by (cases zs) (auto simp: sorted_wrt_append)
    moreover have n: "near now (al up)" "near now (al z)" "near now (al (hd zs))" using assms(2) s(1) z h by auto
    ultimately show ?thesis
      using s(4) h tickscmp_near[OF n(3,1)] tickscmp_near[OF n(3,2)] tickscmp_near[OF n(1,2)] by fastforce
  qed
  then show ?thesis using assms(1) s by (auto simp: sorted_wrt_append less_imp_le)
qed

lemma disalarm_wf:
  assumes "awf a"
  shows "sorted_wrt (\<lambda>p q. tickscmp (alarm a p) (alarm a q) \<le> 0) (ahead (disalarm u a))"
    and "distinct (ahead (disalarm u a))" and "set (ahead (disalarm u a)) = set (ahead a) - {u}" and "alarm (disalarm u a) = alarm a"
  using assms by (auto simp: disalarm_def awf_def distinct_remove1_removeAll removeAll_filter_not_eq sorted_wrt_filter)

lemma sorted_alarm_upd:
  "u \<notin> set l \<Longrightarrow> sorted_wrt (\<lambda>p q. tickscmp ((al(u := w)) p) ((al(u := w)) q) \<le> 0) l
    = sorted_wrt (\<lambda>p q. tickscmp (al p) (al q) \<le> 0) l"
  by (induction l) auto

lemma sint_small: "unat (x :: u32) < 2 ^ 31 \<Longrightarrow> sint x = int (unat x)"
proof -
  assume "unat x < 2 ^ 31"
  then have "int (unat x) < int (2 ^ 31)" by (rule of_nat_less_iff[THEN iffD2])
  then have "uint x < 2 ^ 31" by simp
  then show ?thesis using order_trans[OF _ uint_ge_0[of x], of "- (2 ^ 31)"]
    by (subst sint_uint) (simp add: signed_take_bit_int_eq_self)
qed

definition alarms0 :: alarms where
  "alarms0 = \<lparr>ahead = [1], alarm = (\<lambda>_. 0)(1 := 2)\<rparr>"

lemma awf_alarms0: "awf alarms0" and anear_alarms0: "anear 0xfffffff0 alarms0"
  by (auto simp: awf_def alarms0_def anear_def near_def tickscmp_def)

text \<open>
  Setting an alarm. For a time below \<open>2^30\<close> milliseconds, with the alarms of the others within
  the window, \<open>procalarm\<close> returns the milliseconds left of the caller's earlier alarm, or 0;
  the caller's alarm is due at \<open>ms2tk(time)\<close> ticks from now, or one later when that would be the
  time 0, the other alarms are unchanged, and the list is in order again, wrapped times
  included; with time 0 the caller has no alarm any more.\<close>

lemma procalarm_ok:
  assumes wf: "awf a" and n: "anear now a" and t: "unat time < 2 ^ 30 - 1" and r: "procalarm now up time a = (old, a')"
  shows "awf a' \<and> anear now a' \<and> old = (if alarm a up = 0 then 0 else alarm a up - now)
    \<and> (\<forall>p. p \<noteq> up \<longrightarrow> alarm a' p = alarm a p)
    \<and> (if time = 0 then alarm a' up = 0 else tickscmp (alarm a' up) now \<in> {int (unat (ms2tk time)), int (unat (ms2tk time)) + 1})"
proof -
  define b where "b = (if alarm a up \<noteq> 0 then disalarm up a else a)"
  have b: "sorted_wrt (\<lambda>p q. tickscmp (alarm a p) (alarm a q) \<le> 0) (ahead b)" "distinct (ahead b)"
    "set (ahead b) = set (ahead a) - {up}" "alarm b = alarm a"
    using disalarm_wf[OF wf, of up] wf by (auto simp: b_def awf_def)
  have old: "old = (if alarm a up = 0 then 0 else alarm a up - now)"
    using r by (auto simp: procalarm_def unat_tk2ms Let_def split: if_splits)
  show ?thesis
  proof (cases "time = 0")
    case True
    then have a': "a' = b\<lparr>alarm := (alarm a)(up := 0)\<rparr>" using r b(4) by (auto simp: procalarm_def Let_def b_def split: if_splits)
    have "sorted_wrt (\<lambda>p q. tickscmp (alarm a' p) (alarm a' q) \<le> 0) (ahead a')"
      using b(1,3) a' sorted_alarm_upd[of up "ahead b" "alarm a" 0] by simp
    then show ?thesis using True old a' b wf n by (auto simp: awf_def anear_def)
  next
    case False
    define w where "w = (if ms2tk time + now = 0 then 1 else ms2tk time + now)"
    have a': "a' = b\<lparr>alarm := (alarm a)(up := w), ahead := alarminsert ((alarm a)(up := w)) up (ahead b)\<rparr>"
      using r b(4) False by (auto simp: procalarm_def Let_def b_def w_def split: if_splits)
    have "unat (ms2tk time) \<le> unat time" by (simp add: unat_ms2tk)
    then have m: "unat (ms2tk time) < 2 ^ 30 - 1" using t by simp
    have d: "w - now = (if ms2tk time + now = 0 then ms2tk time + 1 else ms2tk time)"
      by (simp add: w_def) (metis add_diff_cancel_right' add.commute diff_0 diff_add_eq diff_minus_eq_add)
    have tw: "tickscmp w now \<in> {int (unat (ms2tk time)), int (unat (ms2tk time)) + 1}"
      using m sint_small[of "ms2tk time"] sint_small[of "ms2tk time + 1"] unfolding tickscmp_def d
      by (simp add: unat_word_ariths)
    moreover have "int (unat (ms2tk time)) < int (2 ^ 30 - 1)" using m by (rule of_nat_less_iff[THEN iffD2])
    ultimately have nw: "near now w"
      using order_trans[OF _ uint_ge_0[of "ms2tk time"], of "- (2 ^ 30)"] unfolding near_def by auto
    have w0: "w \<noteq> 0" by (simp add: w_def)
    define al where "al = (alarm a)(up := w)"
    have a2: "alarm a' = al" "ahead a' = alarminsert al up (ahead b)" using a' by (simp_all add: al_def)
    obtain ys zs where sp: "ahead b = ys @ zs" "ahead a' = ys @ up # zs"
      using alarminsert_split[of "ahead b" al up] unfolding a2(2) by metis
    have "sorted_wrt (\<lambda>p q. tickscmp (al p) (al q) \<le> 0) (ahead b)"
      using b(1,3) sorted_alarm_upd[of up "ahead b" "alarm a" w] by (simp only: al_def) simp
    moreover have "\<forall>p \<in> insert up (set (ahead b)). near now (al p)" using b(3) n nw by (simp add: al_def anear_def)
    ultimately have "sorted_wrt (\<lambda>p q. tickscmp (alarm a' p) (alarm a' q) \<le> 0) (ahead a')"
      unfolding a2 by (rule alarminsert_sorted)
    moreover have "distinct (ahead a')" "set (ahead a') = insert up (set (ahead b))" using b(2,3) sp by auto
    ultimately show ?thesis using False old a' b(3) wf n nw tw w0 by (auto simp: awf_def anear_def)
  qed
qed

text \<open>The loop of the kernel process.\<close>

lemma alarmloop_eq:
  assumes "sorted_wrt (\<lambda>p q. tickscmp (al p) (al q) \<le> 0) l" and "\<forall>p \<in> set l. near now (al p)" and "distinct l"
  shows "alarmloop now free al l =
    (filter (\<lambda>p. tickscmp now (al p) \<ge> 0 \<and> free p) l, filter (\<lambda>p. \<not> (tickscmp now (al p) \<ge> 0 \<and> free p)) l,
     \<lambda>p. if p \<in> set l \<and> tickscmp now (al p) \<ge> 0 \<and> free p then 0 else al p)"
  using assms
proof (induction l arbitrary: al)
  case (Cons p l)
  show ?case
  proof (cases "tickscmp now (al p) \<ge> 0")
    case True
    let ?al = "al(p := 0)"
    have "p \<notin> set l" using Cons.prems(3) by simp
    then have q: "?al q = al q" "q \<noteq> p" if "q \<in> set l" for q using that by auto
    have "alarmloop now free ?al l = (filter (\<lambda>q. tickscmp now (?al q) \<ge> 0 \<and> free q) l,
      filter (\<lambda>q. \<not> (tickscmp now (?al q) \<ge> 0 \<and> free q)) l, \<lambda>q. if q \<in> set l \<and> tickscmp now (?al q) \<ge> 0 \<and> free q then 0 else ?al q)"
      using Cons.prems sorted_alarm_upd[of p l al 0] q by (intro Cons.IH) auto
    moreover have "filter (\<lambda>q. tickscmp now (?al q) \<ge> 0 \<and> free q) l = filter (\<lambda>q. tickscmp now (al q) \<ge> 0 \<and> free q) l"
      "filter (\<lambda>q. \<not> (tickscmp now (?al q) \<ge> 0 \<and> free q)) l = filter (\<lambda>q. \<not> (tickscmp now (al q) \<ge> 0 \<and> free q)) l"
      using q(1) by (metis (mono_tags, lifting) filter_cong)+
    moreover have "alarmloop now free al l = (filter (\<lambda>q. tickscmp now (al q) \<ge> 0 \<and> free q) l,
      filter (\<lambda>q. \<not> (tickscmp now (al q) \<ge> 0 \<and> free q)) l, \<lambda>q. if q \<in> set l \<and> tickscmp now (al q) \<ge> 0 \<and> free q then 0 else al q)"
      using Cons.prems by (intro Cons.IH) auto
    ultimately show ?thesis using True Cons.prems(3) by (auto simp: fun_eq_iff)
  next
    case False
    have "\<not> tickscmp now (al q) \<ge> 0" if "q \<in> set l" for q
    proof -
      have n: "near now (al p)" "near now (al q)" and le: "tickscmp (al p) (al q) \<le> 0" using Cons.prems that by auto
      then show ?thesis using False tickscmp_near[OF n] tickscmp_swap[OF n(1)] tickscmp_swap[OF n(2)] by simp
    qed
    then show ?thesis using False by (auto simp: fun_eq_iff filter_empty_conv filter_id_conv)
  qed
qed simp

text \<open>
  C36: Alarms go off when they are due and not before. With the list in order and within the window,
  a round of \<open>alarmkproc\<close> posts the note to exactly the processes whose alarm is due and whose
  \<open>debug\<close> lock is free, clears their alarms and takes them off the list, and leaves all others
  as they were; \<open>checkalarms\<close> wakes the kernel process exactly when some alarm is due.\<close>

theorem alarmkproc_ok:
  assumes wf: "awf a" and n: "anear now a" and r: "alarmkproc now free a = (posted, a')"
  shows "awf a' \<and> posted = filter (\<lambda>p. tickscmp now (alarm a p) \<ge> 0 \<and> free p) (ahead a)
    \<and> (\<forall>p. alarm a' p = (if p \<in> set posted then 0 else alarm a p)) \<and> set (ahead a') = set (ahead a) - set posted
    \<and> (checkalarms now a \<longleftrightarrow> (\<exists>p. alarm a p \<noteq> 0 \<and> tickscmp now (alarm a p) \<ge> 0))"
proof -
  let ?due = "\<lambda>p. tickscmp now (alarm a p) \<ge> 0 \<and> free p"
  have w: "sorted_wrt (\<lambda>p q. tickscmp (alarm a p) (alarm a q) \<le> 0) (ahead a)" "\<forall>p \<in> set (ahead a). near now (alarm a p)" "distinct (ahead a)"
    using wf n by (auto simp: awf_def anear_def)
  have e: "posted = filter ?due (ahead a)" "ahead a' = filter (\<lambda>p. \<not> ?due p) (ahead a)"
    "alarm a' = (\<lambda>p. if p \<in> set (ahead a) \<and> ?due p then 0 else alarm a p)"
    using r alarmloop_eq[OF w, of free] by (auto simp: alarmkproc_def)
  have "sorted_wrt (\<lambda>p q. tickscmp (alarm a' p) (alarm a' q) \<le> 0) (ahead a')"
    by (rule sorted_wrt_mono_rel[OF _ sorted_wrt_filter[OF w(1), of "\<lambda>p. \<not> ?due p", folded e(2)]]) (auto simp: e)
  moreover have "checkalarms now a \<longleftrightarrow> (\<exists>p \<in> set (ahead a). tickscmp now (alarm a p) \<ge> 0)"
  proof (cases "ahead a")
    case (Cons h l)
    have "tickscmp now (alarm a h) \<ge> 0" if p: "p \<in> set (h # l)" "tickscmp now (alarm a p) \<ge> 0" for p
    proof (cases "p = h")
      case False
      then have nn: "near now (alarm a h)" "near now (alarm a p)" and "tickscmp (alarm a h) (alarm a p) \<le> 0" using w p Cons by auto
      then show ?thesis using p(2) tickscmp_near[OF nn] tickscmp_swap[OF nn(1)] tickscmp_swap[OF nn(2)] by simp
    qed (use p in simp)
    then show ?thesis using Cons by (auto simp: checkalarms_def)
  qed (simp add: checkalarms_def)
  ultimately show ?thesis using wf e by (auto simp: awf_def)
qed

theorem alarmkproc_ok_witness:
  "\<exists>a'. awf alarms0 \<and> anear 0xfffffff0 alarms0 \<and> alarmkproc 0xfffffff0 (\<lambda>_. True) alarms0 = ([], a') \<and> awf a'
    \<and> \<not> checkalarms 0xfffffff0 alarms0"
proof -
  obtain posted a' where r: "alarmkproc 0xfffffff0 (\<lambda>_. True) alarms0 = (posted, a')" by fastforce
  have "posted = []" "awf a'" "\<not> checkalarms 0xfffffff0 alarms0"
    using alarmkproc_ok[OF awf_alarms0 anear_alarms0 r] by (auto simp: alarms0_def tickscmp_def checkalarms_def)
  then show ?thesis using r awf_alarms0 anear_alarms0 by blast
qed

text \<open>An alarm \<open>2^31\<close> milliseconds or more away, up to \<open>2^32\<close>, counts as due at once.\<close>

lemma procalarm_far: "procalarm 0 1 0x80000400 \<lparr>ahead = [], alarm = \<lambda>_. 0\<rparr> = (old, a') \<Longrightarrow> checkalarms 0 a'"
  by (auto simp: procalarm_def checkalarms_def ms2tk_def HZ_def tickscmp_def Let_def)

end
