(* ===== verification/Rendez.thy ===== *)
theory Rendez
  imports Plan9_Prelude
begin

text \<open>
  Sleeping and waking (\<open>sleep\<close>, \<open>tsleep\<close>, \<open>twakeup\<close>, \<open>wakeup\<close> and \<open>postnote\<close> of \<open>src/port/proc.c\<close>).

  The model is a step relation, labelled with the process that takes the step. A step is one
  action another processor can see: taking a lock, testing the condition, testing for a note,
  a change made under both locks, or giving locks back. An interrupt that calls \<open>wakeup\<close> is a
  process of its own here. \<open>ready(p)\<close> lets \<open>p\<close> go on behind its call of the scheduler.

  Every \<open>Rendez\<close> has one process that may sleep on it, \<open>owner\<close>: the code prints a complaint
  about a second one and does not work then. (In the kernel different processes may use a
  \<open>Rendez\<close> one after the other; here its owner is fixed.) The condition of a rendezvous becomes true only in
  a process that calls \<open>wakeup\<close> afterwards; it may become false at any time.
\<close>

section \<open>State\<close>

datatype rpc =
    Idle
  | SLock nat      \<comment> \<open>\<open>sleep\<close>: before \<open>lock(r)\<close>\<close>
  | SPLock nat     \<comment> \<open>before \<open>lock(&up->rlock)\<close>\<close>
  | STest nat      \<comment> \<open>before \<open>(*f)(arg)\<close>\<close>
  | SNote nat      \<comment> \<open>before the test of \<open>notepending\<close>\<close>
  | SUndo nat      \<comment> \<open>never mind\<close>
  | SCommit nat    \<comment> \<open>committed\<close>
  | SUnl1 nat      \<comment> \<open>before \<open>unlock(&up->rlock)\<close>\<close>
  | SUnl2 nat      \<comment> \<open>before \<open>unlock(r)\<close>\<close>
  | Asleep nat
  | Awake          \<comment> \<open>before the last test of \<open>notepending\<close>\<close>
  | WLock nat      \<comment> \<open>\<open>wakeup\<close>: before \<open>lock(r)\<close>\<close>
  | WTest nat      \<comment> \<open>before \<open>p = r->p\<close>\<close>
  | WPLock nat nat \<comment> \<open>before \<open>lock(&p->rlock)\<close>\<close>
  | WDo nat nat
  | WUnl nat nat
  | NLock nat      \<comment> \<open>\<open>postnote\<close>: before \<open>lock(&p->rlock)\<close>\<close>
  | NTest nat      \<comment> \<open>before \<open>r = p->r\<close>\<close>
  | NDo nat nat
  | NUnl nat

text \<open>
  \<open>rp\<close> is \<open>r->p\<close>, \<open>pr\<close> is \<open>p->r\<close>; \<open>rl\<close> and \<open>kl\<close> are the holders of the lock of a \<open>Rendez\<close> and of
  \<open>p->rlock\<close>. \<open>wakeme\<close> is \<open>p->state == Wakeme\<close>. \<open>rres\<close> is whether the last \<open>sleep\<close> raised \<open>Eintr\<close>.
\<close>

record slpsys =
  owner :: "nat \<Rightarrow> nat"
  cnd :: "nat \<Rightarrow> bool"
  rp :: "nat \<Rightarrow> nat option"
  rl :: "nat \<Rightarrow> nat option"
  pr :: "nat \<Rightarrow> nat option"
  kl :: "nat \<Rightarrow> nat option"
  wakeme :: "nat \<Rightarrow> bool"
  notepending :: "nat \<Rightarrow> bool"
  timed :: "nat \<Rightarrow> bool"
  trend :: "nat \<Rightarrow> nat option"
  rpc :: "nat \<Rightarrow> rpc"
  rres :: "nat \<Rightarrow> bool option"
  panicked :: bool

text \<open>The condition \<open>sleep\<close> tests: that of the caller, or \<open>tfn\<close> in a \<open>tsleep\<close>.\<close>

definition tfn :: "slpsys \<Rightarrow> nat \<Rightarrow> nat \<Rightarrow> bool" where
  "tfn s u r \<longleftrightarrow> (timed s u \<and> trend s u = None) \<or> cnd s r"

definition at :: "nat \<Rightarrow> rpc \<Rightarrow> slpsys \<Rightarrow> slpsys" where
  "at u c s = s\<lparr>rpc := (rpc s)(u := c)\<rparr>"

text \<open>\<open>r->p = nil; p->r = nil; ready(p);\<close>\<close>

definition wake :: "nat \<Rightarrow> nat \<Rightarrow> slpsys \<Rightarrow> slpsys" where
  "wake r p s = at p Awake (s\<lparr>rp := (rp s)(r := None), pr := (pr s)(p := None), wakeme := (wakeme s)(p := False)\<rparr>)"

section \<open>Steps\<close>

inductive sleepstep :: "nat \<Rightarrow> slpsys \<Rightarrow> slpsys \<Rightarrow> bool" where
  sleep: "rpc s u = Idle \<Longrightarrow> owner s r = u \<Longrightarrow> sleepstep u s (at u (SLock r) (s\<lparr>timed := (timed s)(u := False)\<rparr>))"
| tsleep: "rpc s u = Idle \<Longrightarrow> owner s r = u
    \<Longrightarrow> sleepstep u s (at u (SLock r) (s\<lparr>timed := (timed s)(u := True), trend := (trend s)(u := Some r)\<rparr>))"
| s_lock: "rpc s u = SLock r \<Longrightarrow> rl s r = None \<Longrightarrow> sleepstep u s (at u (SPLock r) (s\<lparr>rl := (rl s)(r := Some u)\<rparr>))"
| s_plock: "rpc s u = SPLock r \<Longrightarrow> kl s u = None
    \<Longrightarrow> sleepstep u s (at u (STest r) (s\<lparr>kl := (kl s)(u := Some u), rp := (rp s)(r := Some u)\<rparr>))"
| s_true: "rpc s u = STest r \<Longrightarrow> tfn s u r \<Longrightarrow> sleepstep u s (at u (SUndo r) s)"
| s_false: "rpc s u = STest r \<Longrightarrow> \<not> tfn s u r \<Longrightarrow> sleepstep u s (at u (SNote r) s)"
| s_noted: "rpc s u = SNote r \<Longrightarrow> notepending s u \<Longrightarrow> sleepstep u s (at u (SUndo r) s)"
| s_unnoted: "rpc s u = SNote r \<Longrightarrow> \<not> notepending s u \<Longrightarrow> sleepstep u s (at u (SCommit r) s)"
| s_undo: "rpc s u = SUndo r
    \<Longrightarrow> sleepstep u s (at u Awake (s\<lparr>rp := (rp s)(r := None), kl := (kl s)(u := None), rl := (rl s)(r := None)\<rparr>))"
| s_commit: "rpc s u = SCommit r
    \<Longrightarrow> sleepstep u s (at u (SUnl1 r) (s\<lparr>wakeme := (wakeme s)(u := True), pr := (pr s)(u := Some r)\<rparr>))"
| s_unl1: "rpc s u = SUnl1 r \<Longrightarrow> sleepstep u s (at u (SUnl2 r) (s\<lparr>kl := (kl s)(u := None)\<rparr>))"
| s_unl2: "rpc s u = SUnl2 r \<Longrightarrow> sleepstep u s (at u (Asleep r) (s\<lparr>rl := (rl s)(r := None)\<rparr>))"
| s_done: "rpc s u = Awake
    \<Longrightarrow> sleepstep u s (at u Idle (s\<lparr>rres := (rres s)(u := Some (notepending s u)), notepending := (notepending s)(u := False)\<rparr>))"
| clear: "rpc s u = Idle \<Longrightarrow> sleepstep u s (s\<lparr>cnd := (cnd s)(r := False)\<rparr>)"
| wakeup: "rpc s u = Idle \<Longrightarrow> sleepstep u s (at u (WLock r) (s\<lparr>cnd := (cnd s)(r := cnd s r \<or> b)\<rparr>))"
| twakeup: "rpc s u = Idle \<Longrightarrow> trend s p = Some r \<Longrightarrow> sleepstep u s (at u (WLock r) (s\<lparr>trend := (trend s)(p := None)\<rparr>))"
| w_lock: "rpc s u = WLock r \<Longrightarrow> rl s r = None \<Longrightarrow> sleepstep u s (at u (WTest r) (s\<lparr>rl := (rl s)(r := Some u)\<rparr>))"
| w_none: "rpc s u = WTest r \<Longrightarrow> rp s r = None \<Longrightarrow> sleepstep u s (at u Idle (s\<lparr>rl := (rl s)(r := None)\<rparr>))"
| w_some: "rpc s u = WTest r \<Longrightarrow> rp s r = Some p \<Longrightarrow> sleepstep u s (at u (WPLock r p) s)"
| w_plock: "rpc s u = WPLock r p \<Longrightarrow> kl s p = None \<Longrightarrow> sleepstep u s (at u (WDo r p) (s\<lparr>kl := (kl s)(p := Some u)\<rparr>))"
| w_panic: "rpc s u = WDo r p \<Longrightarrow> \<not> wakeme s p \<or> pr s p \<noteq> Some r \<Longrightarrow> sleepstep u s (s\<lparr>panicked := True\<rparr>)"
| w_do: "rpc s u = WDo r p \<Longrightarrow> wakeme s p \<Longrightarrow> pr s p = Some r \<Longrightarrow> sleepstep u s (at u (WUnl r p) (wake r p s))"
| w_unl: "rpc s u = WUnl r p \<Longrightarrow> sleepstep u s (at u Idle (s\<lparr>kl := (kl s)(p := None), rl := (rl s)(r := None)\<rparr>))"
| postnote: "rpc s u = Idle \<Longrightarrow> sleepstep u s (at u (NLock p) (s\<lparr>notepending := (notepending s)(p := True)\<rparr>))"
| n_lock: "rpc s u = NLock p \<Longrightarrow> kl s p = None \<Longrightarrow> sleepstep u s (at u (NTest p) (s\<lparr>kl := (kl s)(p := Some u)\<rparr>))"
| n_none: "rpc s u = NTest p \<Longrightarrow> pr s p = None \<Longrightarrow> sleepstep u s (at u (NUnl p) s)"
| n_try: "rpc s u = NTest p \<Longrightarrow> pr s p = Some r \<Longrightarrow> rl s r = None \<Longrightarrow> sleepstep u s (at u (NDo p r) (s\<lparr>rl := (rl s)(r := Some u)\<rparr>))"
| n_busy: "rpc s u = NTest p \<Longrightarrow> pr s p = Some r \<Longrightarrow> rl s r \<noteq> None \<Longrightarrow> sleepstep u s (at u (NLock p) (s\<lparr>kl := (kl s)(p := None)\<rparr>))"
| n_panic: "rpc s u = NDo p r \<Longrightarrow> \<not> wakeme s p \<or> rp s r \<noteq> Some p \<Longrightarrow> sleepstep u s (s\<lparr>panicked := True\<rparr>)"
| n_do: "rpc s u = NDo p r \<Longrightarrow> wakeme s p \<Longrightarrow> rp s r = Some p
    \<Longrightarrow> sleepstep u s (at u (NUnl p) ((wake r p s)\<lparr>rl := (rl s)(r := None)\<rparr>))"
| n_unl: "rpc s u = NUnl p \<Longrightarrow> sleepstep u s (at u Idle (s\<lparr>kl := (kl s)(p := None)\<rparr>))"

text \<open>The system: some process takes a step.\<close>

definition sleepany :: "slpsys \<Rightarrow> slpsys \<Rightarrow> bool" where
  "sleepany s t \<longleftrightarrow> (\<exists>u. sleepstep u s t)"

section \<open>The list of notes\<close>

text \<open>
  The first part of \<open>postnote\<close>: a note that is not from the user throws away the pending ones when the
  process has no handler or is in it; the note is lost when the list is full. \<open>NUser\<close> is 0.
\<close>

definition NNOTE :: nat where "NNOTE = 5"

record notelist =
  pnote :: "(string \<times> nat) list"
  handler :: bool    \<comment> \<open>\<open>p->notify != nil\<close>\<close>
  notified :: bool

definition NUser :: nat where "NUser = 0"

definition addnote :: "string \<Rightarrow> nat \<Rightarrow> notelist \<Rightarrow> bool \<times> notelist" where
  "addnote n flag p =
    (let p = (if flag \<noteq> NUser \<and> (\<not> handler p \<or> notified p) then p\<lparr>pnote := []\<rparr> else p)
     in if length (pnote p) < NNOTE then (True, p\<lparr>pnote := pnote p @ [(n, flag)]\<rparr>) else (False, p))"

end
