(* ===== verification/Rendez_Correct.thy ===== *)
theory Rendez_Correct
  imports Rendez
begin

text \<open>
  No wakeup is lost: the invariant of the step relation of \<open>sleep\<close>, \<open>wakeup\<close> and \<open>postnote\<close>, what
  it says of sleeping processes, and that the two lock orders cannot stop the system.
\<close>

section \<open>What a process holds at each point\<close>

text \<open>The \<open>Rendez\<close> it has locked.\<close>

fun holdsR :: "rpc \<Rightarrow> nat option" where
  "holdsR (SPLock r) = Some r"
| "holdsR (STest r) = Some r"
| "holdsR (SNote r) = Some r"
| "holdsR (SUndo r) = Some r"
| "holdsR (SCommit r) = Some r"
| "holdsR (SUnl1 r) = Some r"
| "holdsR (SUnl2 r) = Some r"
| "holdsR (WTest r) = Some r"
| "holdsR (WPLock r p) = Some r"
| "holdsR (WDo r p) = Some r"
| "holdsR (WUnl r p) = Some r"
| "holdsR (NDo p r) = Some r"
| "holdsR _ = None"

text \<open>The process whose \<open>rlock\<close> it holds.\<close>

fun holdsP :: "nat \<Rightarrow> rpc \<Rightarrow> nat option" where
  "holdsP u (STest r) = Some u"
| "holdsP u (SNote r) = Some u"
| "holdsP u (SUndo r) = Some u"
| "holdsP u (SCommit r) = Some u"
| "holdsP u (SUnl1 r) = Some u"
| "holdsP u (WDo r p) = Some p"
| "holdsP u (WUnl r p) = Some p"
| "holdsP u (NTest p) = Some p"
| "holdsP u (NDo p r) = Some p"
| "holdsP u (NUnl p) = Some p"
| "holdsP u _ = None"

text \<open>The rendezvous it is going to sleep on, has put itself in, and has committed to.\<close>

fun sleepsat :: "rpc \<Rightarrow> nat option" where
  "sleepsat (SUnl1 r) = Some r"
| "sleepsat (SUnl2 r) = Some r"
| "sleepsat (Asleep r) = Some r"
| "sleepsat _ = None"

fun insleep :: "rpc \<Rightarrow> nat option" where
  "insleep (STest r) = Some r"
| "insleep (SNote r) = Some r"
| "insleep (SUndo r) = Some r"
| "insleep (SCommit r) = Some r"
| "insleep c = sleepsat c"

fun insleepcall :: "rpc \<Rightarrow> nat option" where
  "insleepcall (SLock r) = Some r"
| "insleepcall (SPLock r) = Some r"
| "insleepcall c = insleep c"

text \<open>Has tested the condition, and has tested for notes.\<close>

fun tested :: "rpc \<Rightarrow> nat option" where
  "tested (SNote r) = Some r"
| "tested (SCommit r) = Some r"
| "tested c = sleepsat c"

fun committed :: "rpc \<Rightarrow> bool" where
  "committed (SCommit r) = True"
| "committed c = (sleepsat c \<noteq> None)"

text \<open>On its way to wake the sleeper of a rendezvous, or a process that has a note.\<close>

fun waking :: "nat \<Rightarrow> rpc \<Rightarrow> bool" where
  "waking r (WLock r') = (r' = r)"
| "waking r (WTest r') = (r' = r)"
| "waking r (WPLock r' p) = (r' = r)"
| "waking r (WDo r' p) = (r' = r)"
| "waking r _ = False"

fun noting :: "nat \<Rightarrow> rpc \<Rightarrow> bool" where
  "noting p (NLock p') = (p' = p)"
| "noting p (NTest p') = (p' = p)"
| "noting p (NDo p' r) = (p' = p)"
| "noting p _ = False"

section \<open>The invariant\<close>

definition locks_ok :: "slpsys \<Rightarrow> bool" where
  "locks_ok s \<longleftrightarrow> (\<forall>u r. rl s r = Some u \<longleftrightarrow> holdsR (rpc s u) = Some r)
    \<and> (\<forall>u p. kl s p = Some u \<longleftrightarrow> holdsP u (rpc s u) = Some p)"

definition owners_ok :: "slpsys \<Rightarrow> bool" where
  "owners_ok s \<longleftrightarrow> (\<forall>u r. insleepcall (rpc s u) = Some r \<longrightarrow> owner s r = u)"

definition links_ok :: "slpsys \<Rightarrow> bool" where
  "links_ok s \<longleftrightarrow> (\<forall>u r. rp s r = Some u \<longleftrightarrow> insleep (rpc s u) = Some r)
    \<and> (\<forall>u. pr s u = sleepsat (rpc s u)) \<and> (\<forall>u. wakeme s u \<longleftrightarrow> pr s u \<noteq> None)"

definition targets_ok :: "slpsys \<Rightarrow> bool" where
  "targets_ok s \<longleftrightarrow> (\<forall>w r p. rpc s w = WPLock r p \<or> rpc s w = WDo r p \<longrightarrow> rp s r = Some p)
    \<and> (\<forall>w r p. rpc s w = NDo p r \<longrightarrow> pr s p = Some r)"

definition timers_ok :: "slpsys \<Rightarrow> bool" where
  "timers_ok s \<longleftrightarrow> (\<forall>u r. insleepcall (rpc s u) = Some r \<longrightarrow> timed s u \<longrightarrow> trend s u = None \<or> trend s u = Some r)"

definition wakeups_ok :: "slpsys \<Rightarrow> bool" where
  "wakeups_ok s \<longleftrightarrow> (\<forall>u r. tested (rpc s u) = Some r \<longrightarrow> tfn s u r \<longrightarrow> (\<exists>w. waking r (rpc s w)))"

definition notes_ok :: "slpsys \<Rightarrow> bool" where
  "notes_ok s \<longleftrightarrow> (\<forall>u. committed (rpc s u) \<longrightarrow> notepending s u \<longrightarrow> (\<exists>w. noting u (rpc s w)))"

text \<open>Relations between the points.\<close>

lemma sleepsat_insleep: "sleepsat c = Some r \<Longrightarrow> insleep c = Some r"
  by (cases c) auto

lemma insleep_call: "insleep c = Some r \<Longrightarrow> insleepcall c = Some r"
  by (cases c) auto

lemma tested_insleep: "tested c = Some r \<Longrightarrow> insleep c = Some r"
  by (cases c) auto

lemma insleep_holds: "insleep c = Some r \<Longrightarrow> holdsR c \<noteq> Some r \<Longrightarrow> c = Asleep r"
  by (cases c) auto

lemmas sleep_step_defs = at_def wake_def

lemma locksD:
  assumes "locks_ok s"
  shows "rl s r = Some u \<longleftrightarrow> holdsR (rpc s u) = Some r" "kl s p = Some u \<longleftrightarrow> holdsP u (rpc s u) = Some p"
  using assms by (simp_all add: locks_ok_def)

lemma linksD:
  assumes "links_ok s"
  shows "rp s r = Some u \<longleftrightarrow> insleep (rpc s u) = Some r" "pr s u = sleepsat (rpc s u)"
    "wakeme s u \<longleftrightarrow> sleepsat (rpc s u) \<noteq> None"
  using assms by (simp_all add: links_ok_def)

text \<open>Whoever holds both locks of a sleeper finds it asleep.\<close>

lemma both_locks_asleep:
  assumes "locks_ok s" "insleep (rpc s p) = Some r" "holdsR (rpc s u) = Some r" "holdsP u (rpc s u) = Some p" "u \<noteq> p"
  shows "rpc s p = Asleep r"
proof -
  have "rl s r = Some u" "kl s p = Some u"
    using assms locksD[OF assms(1)] by blast+
  then have "holdsR (rpc s p) \<noteq> Some r"
    using locksD(1)[OF assms(1), of r p] assms(5) by auto
  then show ?thesis using insleep_holds assms(2) by blast
qed

lemma woken_asleep:
  assumes "locks_ok s" "links_ok s" "targets_ok s" "rpc s u = WDo r p \<or> rpc s u = NDo p r"
  shows "rpc s p = Asleep r"
proof -
  have "rp s r = Some p \<or> pr s p = Some r"
    using assms(3,4) by (auto simp: targets_ok_def)
  then have "insleep (rpc s p) = Some r"
    using linksD[OF assms(2)] sleepsat_insleep by auto
  moreover from this have "u \<noteq> p" using assms(4) by auto
  ultimately show ?thesis
    using both_locks_asleep[OF assms(1), of p r u] assms(4) by auto
qed

section \<open>Each part is kept\<close>

lemma owners_step: "sleepstep u s t \<Longrightarrow> owners_ok s \<Longrightarrow> owners_ok t"
  by (cases rule: sleepstep.cases) (auto simp: sleep_step_defs owners_ok_def split: if_splits)

lemma timers_step:
  assumes "sleepstep u s t" "timers_ok s"
  shows "timers_ok t"
proof -
  have "trend t v = None \<or> trend t v = Some r" if v: "insleepcall (rpc t v) = Some r" "timed t v" for v r
  proof -
    have T: "insleepcall (rpc s v) = Some r \<Longrightarrow> timed s v \<Longrightarrow> trend s v = None \<or> trend s v = Some r"
      using assms(2) by (simp add: timers_ok_def)
    show ?thesis
      using assms(1) v T by (cases rule: sleepstep.cases) (auto simp: sleep_step_defs split: if_splits)
  qed
  then show ?thesis by (simp add: timers_ok_def)
qed

lemma rlocks_step:
  assumes "sleepstep u s t" "locks_ok s" "links_ok s" "targets_ok s"
  shows "rl t r = Some v \<longleftrightarrow> holdsR (rpc t v) = Some r"
  using assms(1) locksD(1)[OF assms(2), of r v] locksD(1)[OF assms(2), of r u] woken_asleep[OF assms(2-4), of u]
  by (cases rule: sleepstep.cases) (auto simp: sleep_step_defs split: if_splits)

lemma plocks_step:
  assumes "sleepstep u s t" "locks_ok s" "links_ok s" "targets_ok s"
  shows "kl t p = Some v \<longleftrightarrow> holdsP v (rpc t v) = Some p"
  using assms(1) locksD(2)[OF assms(2), of p v] locksD(2)[OF assms(2), of p u] woken_asleep[OF assms(2-4), of u]
  by (cases rule: sleepstep.cases) (auto simp: sleep_step_defs split: if_splits)

lemma locks_step: "sleepstep u s t \<Longrightarrow> locks_ok s \<Longrightarrow> links_ok s \<Longrightarrow> targets_ok s \<Longrightarrow> locks_ok t"
  using rlocks_step plocks_step by (simp add: locks_ok_def)

lemma rp_step:
  assumes "sleepstep u s t" "locks_ok s" "links_ok s" "targets_ok s" "owners_ok s"
  shows "rp t r = Some v \<longleftrightarrow> insleep (rpc t v) = Some r"
proof -
  have O: "insleepcall (rpc s w) = Some r \<Longrightarrow> owner s r = w" for w
    using assms(5) by (simp add: owners_ok_def)
  have A: "rpc s p = Asleep r \<Longrightarrow> owner s r = p" for p
    by (rule O) simp
  show ?thesis
    using assms(1) linksD(1)[OF assms(3), of r v] linksD(1)[OF assms(3), of r u] woken_asleep[OF assms(2-4), of u]
      O[of u] O[of v] insleep_call[of "rpc s v" r] A
    by (cases rule: sleepstep.cases) (auto simp: sleep_step_defs split: if_splits)
qed

lemma pr_step:
  assumes "sleepstep u s t" "locks_ok s" "links_ok s" "targets_ok s"
  shows "pr t v = sleepsat (rpc t v)"
  using assms(1) linksD(2)[OF assms(3), of v] woken_asleep[OF assms(2-4), of u]
  by (cases rule: sleepstep.cases) (auto simp: sleep_step_defs split: if_splits)

lemma wakeme_step:
  assumes "sleepstep u s t" "locks_ok s" "links_ok s" "targets_ok s"
  shows "wakeme t v \<longleftrightarrow> sleepsat (rpc t v) \<noteq> None"
  using assms(1) linksD(3)[OF assms(3), of v] woken_asleep[OF assms(2-4), of u]
  by (cases rule: sleepstep.cases) (auto simp: sleep_step_defs split: if_splits)

lemma links_step: "sleepstep u s t \<Longrightarrow> locks_ok s \<Longrightarrow> links_ok s \<Longrightarrow> targets_ok s \<Longrightarrow> owners_ok s \<Longrightarrow> links_ok t"
  using rp_step pr_step wakeme_step by (simp add: links_ok_def)

lemma targets_step:
  assumes "sleepstep u s t" "locks_ok s" "links_ok s" "targets_ok s" "owners_ok s"
  shows "targets_ok t"
proof -
  have R: "rl s r = Some v \<Longrightarrow> rl s r = Some w \<Longrightarrow> v = w" for r v w by simp
  have W: "rp t r = Some p" if w: "rpc t w = WPLock r p \<or> rpc t w = WDo r p" for w r p
  proof -
    have T: "rpc s w = WPLock r p \<or> rpc s w = WDo r p \<Longrightarrow> rp s r = Some p"
      using assms(4) by (auto simp: targets_ok_def)
    show ?thesis
      using assms(1) w T locksD(1)[OF assms(2), of r w] locksD(1)[OF assms(2), of r u]
      by (cases rule: sleepstep.cases) (auto simp: sleep_step_defs split: if_splits)
  qed
  have N: "pr t p = Some r" if w: "rpc t w = NDo p r" for w r p
  proof -
    have T: "rpc s w = NDo p r \<Longrightarrow> pr s p = Some r"
      using assms(4) by (auto simp: targets_ok_def)
    show ?thesis
      using assms(1) w T locksD(2)[OF assms(2), of p w] locksD(2)[OF assms(2), of p u]
      by (cases rule: sleepstep.cases) (auto simp: sleep_step_defs split: if_splits)
  qed
  from W N show ?thesis by (auto simp: targets_ok_def)
qed

text \<open>A process on its way to wake the sleeper stays so while there is one.\<close>

lemma waking_kept:
  assumes "sleepstep u s t" "locks_ok s" "links_ok s" "targets_ok s" "owners_ok s"
    and "waking r (rpc s w)" "tested (rpc t v) = Some r"
  shows "waking r (rpc t w)"
proof -
  have "rp t r = Some v"
    using rp_step[OF assms(1-5)] tested_insleep[OF assms(7)] by simp
  with assms(1) show ?thesis
    using assms(6) woken_asleep[OF assms(2-4), of u]
    by (cases rule: sleepstep.cases) (auto simp: sleep_step_defs split: if_splits)
qed

text \<open>Where the condition of a sleeper becomes true, the process that made it so is on its way.\<close>

lemma waking_new:
  assumes "sleepstep u s t" "timers_ok s" "tested (rpc t v) = Some r" "tfn t v r"
    and "\<not> (tested (rpc s v) = Some r \<and> tfn s v r)"
  shows "waking r (rpc t u)"
proof -
  have "tested (rpc s v) = Some r \<Longrightarrow> timed s v \<Longrightarrow> trend s v = None \<or> trend s v = Some r"
    using assms(2) tested_insleep insleep_call unfolding timers_ok_def by blast
  with assms(1) show ?thesis
    using assms(3-5)
    by (cases rule: sleepstep.cases) (auto simp: sleep_step_defs tfn_def split: if_splits)
qed

lemma wakeups_step:
  assumes "sleepstep u s t" "locks_ok s" "links_ok s" "targets_ok s" "owners_ok s" "timers_ok s" "wakeups_ok s"
  shows "wakeups_ok t"
proof -
  have "\<exists>w. waking r (rpc t w)" if "tested (rpc t v) = Some r" "tfn t v r" for v r
  proof (cases "tested (rpc s v) = Some r \<and> tfn s v r")
    case True
    then obtain w where "waking r (rpc s w)"
      using assms(7) by (auto simp: wakeups_ok_def)
    then show ?thesis using waking_kept[OF assms(1-5)] that(1) by blast
  next
    case False
    then show ?thesis using waking_new[OF assms(1,6) that] by blast
  qed
  then show ?thesis by (simp add: wakeups_ok_def)
qed

text \<open>The same for notes: a poster stays on its way while its target is committed to sleep.\<close>

lemma noting_kept:
  assumes "sleepstep u s t" "locks_ok s" "links_ok s" "targets_ok s"
    and "noting v (rpc s w)" "committed (rpc t v)"
  shows "noting v (rpc t w)"
  using assms(1) assms(5,6) woken_asleep[OF assms(2-4), of u] linksD(2)[OF assms(3), of v]
    locksD(2)[OF assms(2), of v u] locksD(2)[OF assms(2), of v v]
  by (cases rule: sleepstep.cases) (auto simp: sleep_step_defs split: if_splits elim: committed.elims)

lemma noting_new:
  assumes "sleepstep u s t" "committed (rpc t v)" "notepending t v" "\<not> (committed (rpc s v) \<and> notepending s v)"
  shows "noting v (rpc t u)"
  using assms by (cases rule: sleepstep.cases) (auto simp: sleep_step_defs split: if_splits)

lemma notes_step:
  assumes "sleepstep u s t" "locks_ok s" "links_ok s" "targets_ok s" "notes_ok s"
  shows "notes_ok t"
proof -
  have "\<exists>w. noting v (rpc t w)" if "committed (rpc t v)" "notepending t v" for v
  proof (cases "committed (rpc s v) \<and> notepending s v")
    case True
    then obtain w where "noting v (rpc s w)"
      using assms(5) by (auto simp: notes_ok_def)
    then show ?thesis using noting_kept[OF assms(1-4)] that(1) by blast
  next
    case False
    then show ?thesis using noting_new[OF assms(1) that] by blast
  qed
  then show ?thesis by (simp add: notes_ok_def)
qed

lemma no_panic_step:
  assumes "sleepstep u s t" "locks_ok s" "links_ok s" "targets_ok s" "\<not> panicked s"
  shows "\<not> panicked t"
  using assms(1) woken_asleep[OF assms(2-4), of u] assms(5) linksD[OF assms(3)]
  by (cases rule: sleepstep.cases) (auto simp: sleep_step_defs)

section \<open>The system\<close>

definition sleepinv :: "slpsys \<Rightarrow> bool" where
  "sleepinv s \<longleftrightarrow> locks_ok s \<and> owners_ok s \<and> links_ok s \<and> targets_ok s \<and> timers_ok s
    \<and> wakeups_ok s \<and> notes_ok s \<and> \<not> panicked s"

lemma sleepinvD:
  assumes "sleepinv s"
  shows "locks_ok s" "owners_ok s" "links_ok s" "targets_ok s" "timers_ok s" "wakeups_ok s" "notes_ok s" "\<not> panicked s"
  using assms by (simp_all add: sleepinv_def)

lemma sleepinv_step:
  assumes "sleepinv s" "sleepany s t"
  shows "sleepinv t"
proof -
  note I = sleepinvD[OF assms(1)]
  obtain u where u: "sleepstep u s t" using assms(2) by (auto simp: sleepany_def)
  show ?thesis
    unfolding sleepinv_def
    using locks_step[OF u I(1,3,4)] owners_step[OF u I(2)] links_step[OF u I(1,3,4,2)] targets_step[OF u I(1,3,4,2)]
      timers_step[OF u I(5)] wakeups_step[OF u I(1,3,4,2,5,6)] notes_step[OF u I(1,3,4,7)] no_panic_step[OF u I(1,3,4,8)]
    by blast
qed

text \<open>At the start no process is in these procedures.\<close>

definition sleepstart :: "slpsys \<Rightarrow> bool" where
  "sleepstart s \<longleftrightarrow> (\<forall>u. rpc s u = Idle \<and> pr s u = None \<and> kl s u = None \<and> \<not> wakeme s u)
    \<and> (\<forall>r. rp s r = None \<and> rl s r = None) \<and> \<not> panicked s"

lemma sleepstart_inv: "sleepstart s \<Longrightarrow> sleepinv s"
  by (simp add: sleepstart_def sleepinv_def locks_ok_def owners_ok_def links_ok_def targets_ok_def timers_ok_def
      wakeups_ok_def notes_ok_def)

text \<open>
  What the comments of the code ask for: \<open>r->p\<close> and \<open>p->r\<close> stay synchronized, so that neither
  \<open>panic\<close> is reached and no second process is found at a rendezvous (\<open>double sleep\<close>), and a
  sleeper whose condition holds, or that has a note, is about to be awakened.
\<close>

definition sleepgoal :: "slpsys \<Rightarrow> bool" where
  "sleepgoal s \<longleftrightarrow> \<not> panicked s
    \<and> (\<forall>u r. rpc s u = SPLock r \<longrightarrow> rp s r = None)
    \<and> (\<forall>u r. rpc s u = Asleep r \<longrightarrow> rp s r = Some u \<and> pr s u = Some r)
    \<and> (\<forall>u r. rpc s u = Asleep r \<and> tfn s u r \<longrightarrow> (\<exists>w. waking r (rpc s w)))
    \<and> (\<forall>u r. rpc s u = Asleep r \<and> notepending s u \<longrightarrow> (\<exists>w. noting u (rpc s w)))"

lemma sleepinv_goal:
  assumes "sleepinv s"
  shows "sleepgoal s"
proof -
  note I = sleepinvD[OF assms]
  have "rp s r = None" if u: "rpc s u = SPLock r" for u r
  proof (rule ccontr)
    assume "rp s r \<noteq> None"
    then obtain v where v: "insleep (rpc s v) = Some r" using linksD(1)[OF I(3)] by auto
    have "owner s r = v" using I(2) insleep_call[OF v] by (simp add: owners_ok_def)
    moreover have "owner s r = u" using I(2) u by (simp add: owners_ok_def)
    ultimately show False using v u by simp
  qed
  moreover have "rp s r = Some u \<and> pr s u = Some r" if "rpc s u = Asleep r" for u r
    using that linksD[OF I(3)] by simp
  moreover have "\<exists>w. waking r (rpc s w)" if "rpc s u = Asleep r" "tfn s u r" for u r
  proof -
    have "tested (rpc s u) = Some r" using that(1) by simp
    then show ?thesis using that(2) I(6) unfolding wakeups_ok_def by blast
  qed
  moreover have "\<exists>w. noting u (rpc s w)" if "rpc s u = Asleep r" "notepending s u" for u r
    using that I(7) by (auto simp: notes_ok_def)
  ultimately show ?thesis using I(8) by (auto simp: sleepgoal_def)
qed

interpretation slp: safety sleepstart sleepany sleepinv sleepgoal
  by unfold_locales (blast intro: sleepstart_inv sleepinv_step sleepinv_goal)+

section \<open>The lock orders\<close>

text \<open>
  \<open>sleep\<close> and \<open>wakeup\<close> take the lock of the rendezvous before that of the process, \<open>postnote\<close> the other
  way around and gives up the first when it cannot have the second.
\<close>

definition cango :: "slpsys \<Rightarrow> nat \<Rightarrow> bool" where
  "cango s u \<longleftrightarrow> rpc s u \<noteq> Idle \<and> (\<exists>t. sleepstep u s t \<and> t \<noteq> s)"

lemma cangoI:
  assumes "sleepstep u s (at u c s')" "rpc s u \<noteq> Idle" "rpc s u \<noteq> c"
  shows "cango s u"
proof -
  have "rpc (at u c s') u = c" by (simp add: at_def)
  then have "at u c s' \<noteq> s" using assms(3) by auto
  then show ?thesis using assms(1,2) unfolding cango_def by blast
qed

text \<open>Whoever holds the lock of a process can go on.\<close>

lemma holder_P_goes:
  assumes "sleepinv s" "kl s p = Some u"
  shows "cango s u"
proof -
  note I = sleepinvD[OF assms(1)]
  have h: "holdsP u (rpc s u) = Some p" using assms(2) locksD(2)[OF I(1)] by blast
  note W = woken_asleep[OF I(1,3,4), of u] and L = linksD[OF I(3)]
  show ?thesis
  proof (cases "rpc s u")
    case (STest r)
    then show ?thesis
      using cangoI[OF sleepstep.s_true] cangoI[OF sleepstep.s_false] by (cases "tfn s u r") simp_all
  next
    case (SNote r)
    then show ?thesis
      using cangoI[OF sleepstep.s_noted] cangoI[OF sleepstep.s_unnoted] by (cases "notepending s u") simp_all
  next
    case (SUndo r)
    then show ?thesis using cangoI[OF sleepstep.s_undo] by simp
  next
    case (SCommit r)
    then show ?thesis using cangoI[OF sleepstep.s_commit] by simp
  next
    case (SUnl1 r)
    then show ?thesis using cangoI[OF sleepstep.s_unl1] by simp
  next
    case (WDo r q)
    then show ?thesis using cangoI[OF sleepstep.w_do] W[of r q] L by simp
  next
    case (WUnl r q)
    then show ?thesis using cangoI[OF sleepstep.w_unl] by simp
  next
    case (NTest q)
    then show ?thesis
      using cangoI[OF sleepstep.n_none] cangoI[OF sleepstep.n_try] cangoI[OF sleepstep.n_busy]
      by (metis not_None_eq rpc.distinct rpc.simps)
  next
    case (NDo q r)
    then show ?thesis using cangoI[OF sleepstep.n_do] W[of r q] L by simp
  next
    case (NUnl q)
    then show ?thesis using cangoI[OF sleepstep.n_unl] by simp
  qed (use h in auto)
qed

lemma wants_P_goes:
  assumes "sleepinv s" "rpc s u = SPLock r \<or> rpc s u = WPLock r p \<or> rpc s u = NLock p"
  shows "\<exists>v. cango s v"
proof -
  let ?p = "if rpc s u = SPLock r then u else p"
  show ?thesis
  proof (cases "kl s ?p")
    case None
    then show ?thesis
      using assms(2) cangoI[OF sleepstep.s_plock] cangoI[OF sleepstep.w_plock] cangoI[OF sleepstep.n_lock]
      by (auto split: if_splits) blast+
  next
    case (Some v)
    then show ?thesis using holder_P_goes[OF assms(1)] by blast
  qed
qed

lemma holder_R_goes:
  assumes "sleepinv s" "rl s r = Some u"
  shows "\<exists>v. cango s v"
proof -
  have h: "holdsR (rpc s u) = Some r" using assms locksD(1) sleepinvD(1) by blast
  consider "\<exists>p. holdsP u (rpc s u) = Some p" | "rpc s u = SPLock r" | p where "rpc s u = WPLock r p"
    | "rpc s u = SUnl2 r" | "rpc s u = WTest r"
    using h by (cases "rpc s u") auto
  then show ?thesis
  proof cases
    case 1
    then show ?thesis using holder_P_goes[OF assms(1)] locksD(2)[OF sleepinvD(1)[OF assms(1)]] by blast
  next
    case 4
    then show ?thesis using cangoI[OF sleepstep.s_unl2] by auto
  next
    case 5
    then have "cango s u"
      using cangoI[OF sleepstep.w_none] cangoI[OF sleepstep.w_some] by (cases "rp s r") simp_all
    then show ?thesis by blast
  qed (use wants_P_goes[OF assms(1)] in blast)+
qed

lemma sleep_goes:
  assumes "sleepinv s" "rpc s u \<noteq> Idle" "\<And>r. rpc s u \<noteq> Asleep r"
  shows "\<exists>v. cango s v"
proof -
  consider r where "rl s r = Some u" | p where "kl s p = Some u" | r where "rpc s u = SLock r \<or> rpc s u = WLock r"
    | p where "rpc s u = NLock p" | "rpc s u = Awake"
    using assms(2,3) locksD[OF sleepinvD(1)[OF assms(1)]] by (cases "rpc s u") auto
  then show ?thesis
  proof cases
    case (3 r)
    then have "cango s u" if "rl s r = None"
      using that cangoI[OF sleepstep.s_lock] cangoI[OF sleepstep.w_lock] by auto
    then show ?thesis using holder_R_goes[OF assms(1), of r] by (cases "rl s r") blast+
  next
    case 5
    then show ?thesis using cangoI[OF sleepstep.s_done] by auto
  qed (use holder_P_goes[OF assms(1)] holder_R_goes[OF assms(1)] wants_P_goes[OF assms(1)] in blast)+
qed

section \<open>Properties\<close>

text \<open>A run in which process 0 sleeps on rendezvous 0 and process 1 is about to wake it.\<close>

definition sleep_ex :: slpsys where
  "sleep_ex = \<lparr>owner = (\<lambda>_. 0), cnd = (\<lambda>_. False), rp = (\<lambda>_. None), rl = (\<lambda>_. None), pr = (\<lambda>_. None),
    kl = (\<lambda>_. None), wakeme = (\<lambda>_. False), notepending = (\<lambda>_. False), timed = (\<lambda>_. False),
    trend = (\<lambda>_. None), rpc = (\<lambda>_. Idle), rres = (\<lambda>_. None), panicked = False\<rparr>"

lemma sleep_ex_start: "sleepstart sleep_ex"
  by (simp add: sleepstart_def sleep_ex_def)

lemma anystep: "sleepany\<^sup>*\<^sup>* s t \<Longrightarrow> sleepstep u t t' \<Longrightarrow> sleepany\<^sup>*\<^sup>* s t'"
  by (rule rtranclp.rtrancl_into_rtrancl) (auto simp: sleepany_def)

lemma sleep_ex_run:
  "\<exists>t. sleepany\<^sup>*\<^sup>* sleep_ex t \<and> rpc t 0 = Asleep 0 \<and> rpc t 1 = WLock 0 \<and> cnd t 0"
proof -
  note r1 = anystep[OF rtranclp.rtrancl_refl[of sleepany sleep_ex] sleepstep.sleep[of _ 0 0]]
  note r2 = anystep[OF r1 sleepstep.s_lock[of _ 0 0]]
  note r3 = anystep[OF r2 sleepstep.s_plock[of _ 0 0]]
  note r4 = anystep[OF r3 sleepstep.s_false[of _ 0 0]]
  note r5 = anystep[OF r4 sleepstep.s_unnoted[of _ 0 0]]
  note r6 = anystep[OF r5 sleepstep.s_commit[of _ 0 0]]
  note r7 = anystep[OF r6 sleepstep.s_unl1[of _ 0 0]]
  note r8 = anystep[OF r7 sleepstep.s_unl2[of _ 0 0]]
  note r9 = anystep[OF r8 sleepstep.wakeup[of _ 1 0 True]]
  show ?thesis
    by (rule exI, rule conjI, rule r9) (simp_all add: sleep_ex_def at_def tfn_def)
qed

text \<open>
  C12: in every state the processes reach, however their steps are interleaved with \<open>wakeup\<close>s, timers
  and notes: neither \<open>panic\<close> has been reached; a process about to put itself into a rendezvous finds
  no other there; a process that sleeps is linked to its rendezvous in both directions; if its
  condition holds (or its timer has gone off), a process is on its way to wake it; if a note
  is pending, a process is on its way to deliver it. This is under the contract of a \<open>Rendez\<close>: one
  process sleeps on it, and who makes its condition true calls \<open>wakeup\<close> afterwards.\<close>

theorem sleep_wakeup_safe:
  assumes "sleepstart s" "sleepany\<^sup>*\<^sup>* s t"
  shows "\<not> panicked t \<and> (rpc t u = SPLock r \<longrightarrow> rp t r = None)
    \<and> (rpc t u = Asleep r \<longrightarrow> rp t r = Some u \<and> pr t u = Some r
        \<and> (tfn t u r \<longrightarrow> (\<exists>w. waking r (rpc t w)))
        \<and> (notepending t u \<longrightarrow> (\<exists>w. noting u (rpc t w))))"
  using slp.reached_goal[OF assms] unfolding sleepgoal_def by blast

theorem sleep_wakeup_safe_witness:
  "\<exists>t. rpc t 0 = Asleep 0 \<and> tfn t 0 0 \<and> \<not> panicked t \<and> rp t 0 = Some 0 \<and> (\<exists>w. waking 0 (rpc t w))"
proof -
  obtain t where t: "sleepany\<^sup>*\<^sup>* sleep_ex t" "rpc t 0 = Asleep 0" "cnd t 0"
    using sleep_ex_run by blast
  have "tfn t 0 0" using t(3) by (simp add: tfn_def)
  then show ?thesis
    using t(2) sleep_wakeup_safe[OF sleep_ex_start t(1), of 0 0] by blast
qed

text \<open>
  C13: in every state reached, if some process is inside \<open>sleep\<close>, \<open>wakeup\<close> or \<open>postnote\<close> and not asleep, then
  some process that is inside can take a step that changes the state: the opposite lock orders
  of \<open>wakeup\<close> and \<open>postnote\<close> never deadlock.\<close>

theorem sleep_no_deadlock:
  assumes "sleepstart s" "sleepany\<^sup>*\<^sup>* s t" "rpc t u \<noteq> Idle" "\<And>r. rpc t u \<noteq> Asleep r"
  shows "\<exists>v t'. rpc t v \<noteq> Idle \<and> sleepstep v t t' \<and> t' \<noteq> t"
  using sleep_goes[OF slp.reached_inv[OF assms(1,2)] assms(3,4)] unfolding cango_def by blast

theorem sleep_no_deadlock_witness:
  "\<exists>t v t'. rpc t 1 = WLock 0 \<and> rpc t v \<noteq> Idle \<and> sleepstep v t t' \<and> t' \<noteq> t"
proof -
  obtain t where t: "sleepany\<^sup>*\<^sup>* sleep_ex t" "rpc t 1 = WLock 0"
    using sleep_ex_run by blast
  show ?thesis
    using t(2) sleep_no_deadlock[OF sleep_ex_start t(1), of 1] by auto
qed

section \<open>The list of notes\<close>

text \<open>
  The list never grows past \<open>NNOTE\<close>; a note of the kernel to a process that cannot handle it is never
  lost, and it is then the only one; a note is lost only when five are waiting.
\<close>

lemma addnote_ok:
  assumes "length (pnote p) \<le> NNOTE" "addnote n flag p = (ok, p')"
  shows "length (pnote p') \<le> NNOTE" "ok \<Longrightarrow> pnote p' \<noteq> [] \<and> last (pnote p') = (n, flag)"
    "flag \<noteq> NUser \<Longrightarrow> \<not> handler p \<or> notified p \<Longrightarrow> ok \<and> pnote p' = [(n, flag)]"
    "\<not> ok \<Longrightarrow> p' = p \<and> length (pnote p) = NNOTE"
  using assms by (auto simp: addnote_def NNOTE_def Let_def split: if_splits)

end
