(* ===== verification/Rendhash.thy ===== *)
theory Rendhash
  imports Plan9_Prelude
begin

unbundle bit_operations_syntax

text \<open>
  The rendezvous of user processes (\<open>sysrendezvous\<close> of \<open>src/port/sysproc.c\<close>) and the end of \<open>postnote\<close>
  (\<open>src/port/proc.c\<close>), which takes a process that has a note out of one. A process group has a
  hash table of the processes that wait, chained through \<open>rendhash\<close>, with its spin lock held in
  each routine. A waiting process goes on with \<open>rendval\<close>.
\<close>

section \<open>The table\<close>

definition RENDLOG :: nat where "RENDLOG = 5"

record rgrp =
  rendhash :: "nat \<Rightarrow> nat option"    \<comment> \<open>the buckets\<close>
  rendlink :: "nat \<Rightarrow> nat option"    \<comment> \<open>\<open>p->rendhash\<close>\<close>
  rendtag :: "nat \<Rightarrow> 64 word"
  rendval :: "nat \<Rightarrow> 64 word"
  inrend :: "nat \<Rightarrow> bool"            \<comment> \<open>\<open>p->state == Rendezvous\<close>\<close>

definition REND :: "64 word \<Rightarrow> nat" where
  "REND tag = unat (tag AND (push_bit RENDLOG 1 - 1))"

text \<open>\<open>*l = v\<close>, for \<open>l\<close> at bucket \<open>b\<close> or at the link of a process.\<close>

definition relink :: "nat \<Rightarrow> nat option \<Rightarrow> nat option \<Rightarrow> rgrp \<Rightarrow> rgrp" where
  "relink b l v g = (let (h, nx) = setlink l v (rendhash g b, rendlink g)
     in g\<lparr>rendhash := (rendhash g)(b := h), rendlink := nx\<rparr>)"

text \<open>The result: the value returned at once, or \<open>None\<close> when the caller goes to sleep.\<close>

definition sysrendezvous :: "nat \<Rightarrow> 64 word \<Rightarrow> 64 word \<Rightarrow> rgrp \<Rightarrow> (64 word option \<times> rgrp) option" where
  "sysrendezvous up tag val g =
    (let b = REND tag; g = g\<lparr>rendval := (rendval g)(up := - 1)\<rparr> in
     case seek (rendhash g b) None (\<lambda>p. rendtag g p = tag) (rendlink g) of
       None \<Rightarrow> None
     | Some (Some p, l) \<Rightarrow>
         let v = rendval g p; g = relink b l (rendlink g p) g
         in Some (Some v, g\<lparr>rendval := (rendval g)(p := val), inrend := (inrend g)(p := False)\<rparr>)
     | Some (None, l) \<Rightarrow>
         let g = g\<lparr>rendtag := (rendtag g)(up := tag), rendval := (rendval g)(up := val)\<rparr>;
             nx = (case l of None \<Rightarrow> rendhash g b | Some q \<Rightarrow> rendlink g q);
             g = g\<lparr>rendlink := (rendlink g)(up := nx)\<rparr>
         in Some (None, (relink b l (Some up) g)\<lparr>inrend := (inrend g)(up := True)\<rparr>))"

text \<open>The end of \<open>postnote\<close>.\<close>

definition pullout :: "nat \<Rightarrow> rgrp \<Rightarrow> rgrp option" where
  "pullout p g =
    (if \<not> inrend g p then Some g
     else let g = g\<lparr>rendval := (rendval g)(p := - 1)\<rparr>; b = REND (rendtag g p) in
       case seek (rendhash g b) None (\<lambda>d. d = p) (rendlink g) of
         None \<Rightarrow> None
       | Some (d, l) \<Rightarrow>
           let g = (if d = None then g else relink b l (rendlink g p) g)
           in Some (g\<lparr>inrend := (inrend g)(p := False)\<rparr>))"

section \<open>The invariant\<close>

text \<open>Bucket \<open>b\<close> is the list \<open>C b\<close> of the processes that wait with a tag of that bucket.\<close>

definition rendrep :: "rgrp \<Rightarrow> (nat \<Rightarrow> nat list) \<Rightarrow> bool" where
  "rendrep g C \<longleftrightarrow> (\<forall>b. chain (rendlink g) (rendhash g b) (C b) \<and> distinct (C b))
    \<and> (\<forall>b p. p \<in> set (C b) \<longleftrightarrow> inrend g p \<and> REND (rendtag g p) = b)
    \<and> (\<forall>p q. inrend g p \<longrightarrow> inrend g q \<longrightarrow> rendtag g p = rendtag g q \<longrightarrow> p = q)"

text \<open>The specification: for each tag the process that waits, with its value.\<close>

definition rendrel :: "rgrp \<Rightarrow> (64 word \<Rightarrow> (nat \<times> 64 word) option) \<Rightarrow> bool" where
  "rendrel g A \<longleftrightarrow> (\<exists>C. rendrep g C) \<and> (\<forall>t p v. A t = Some (p, v) \<longleftrightarrow> inrend g p \<and> rendtag g p = t \<and> rendval g p = v)"

lemma rendrepD:
  assumes "rendrep g C"
  shows "chain (rendlink g) (rendhash g b) (C b)" "distinct (C b)" "p \<in> set (C b) \<longleftrightarrow> inrend g p \<and> REND (rendtag g p) = b"
    "inrend g p \<Longrightarrow> inrend g q \<Longrightarrow> rendtag g p = rendtag g q \<Longrightarrow> p = q"
  using assms unfolding rendrep_def by blast+

lemma relink_fields [simp]:
  "rendtag (relink b l v g) = rendtag g" "rendval (relink b l v g) = rendval g" "inrend (relink b l v g) = inrend g"
  by (simp_all add: relink_def split: prod.split)

lemma relink_chain:
  "chain (rendlink (relink b l v g)) (rendhash (relink b l v g) b) xs \<longleftrightarrow>
    (let (h, nx) = setlink l v (rendhash g b, rendlink g) in chain nx h xs)"
  by (simp add: relink_def split: prod.split)

lemma chain_cong: "(\<And>x. x \<in> set xs \<Longrightarrow> f x = g x) \<Longrightarrow> chain f h xs = chain g h xs"
  by (induction xs arbitrary: h) auto

lemma relink_other:
  assumes "b' \<noteq> b" "\<And>q. l = Some q \<Longrightarrow> q \<notin> set xs"
  shows "chain (rendlink (relink b l v g)) (rendhash (relink b l v g) b') xs = chain (rendlink g) (rendhash g b') xs"
  using assms by (auto simp: relink_def setlink_def split: option.split)

text \<open>Taking out \<open>p\<close>, which the loop has found behind \<open>as\<close>.\<close>

lemma rendrep_remove:
  assumes "rendrep g C" "C b = as @ p # bs" "g' = (relink b (if as = [] then None else Some (last as)) (rendlink g p) g)
      \<lparr>rendval := rv, inrend := (inrend g)(p := False)\<rparr>"
  shows "rendrep g' (C(b := as @ bs))"
proof -
  note D = rendrepD[OF assms(1)]
  let ?l = "if as = [] then None else Some (last as)"
  have b: "inrend g p" "REND (rendtag g p) = b" using D(3)[of p b] assms(2) by auto
  obtain h nx where s: "setlink ?l (rendlink g p) (rendhash g b, rendlink g) = (h, nx)" by (cases "setlink ?l (rendlink g p) (rendhash g b, rendlink g)")
  have "chain nx h (as @ bs)"
    by (rule setlink_unlink[OF _ _ s]) (use D(1,2)[of b] assms(2) in auto)
  then have c: "chain (rendlink g') (rendhash g' b) (as @ bs)"
    using relink_chain[of b ?l "rendlink g p" g "as @ bs"] s by (simp add: assms(3))
  have o: "chain (rendlink g') (rendhash g' b') (C b')" if "b' \<noteq> b" for b'
  proof -
    have "q \<notin> set (C b')" if "?l = Some q" for q
    proof -
      have "q \<in> set (C b)" using that assms(2) by (auto split: if_splits)
      then show ?thesis using D(3)[of q b] D(3)[of q b'] \<open>b' \<noteq> b\<close> by auto
    qed
    then show ?thesis using relink_other[OF that, of ?l] D(1) by (simp add: assms(3))
  qed
  have m: "q \<in> set ((C(b := as @ bs)) b') \<longleftrightarrow> inrend g' q \<and> REND (rendtag g' q) = b'" for q b'
    using D(3)[of q b'] D(2)[of b] assms(2) b by (cases "q = p") (auto simp: assms(3))
  show ?thesis
    unfolding rendrep_def
    using c o m D(2)[of b] D(2) D(4) assms(2) by (auto simp: assms(3) split: if_splits)
qed

text \<open>Putting the caller at the end of its bucket.\<close>

lemma rendrep_add:
  assumes "rendrep g C" "\<not> inrend g u" "\<And>p. inrend g p \<Longrightarrow> rendtag g p \<noteq> tag"
    and "xs = C (REND tag)" "l = (if xs = [] then None else Some (last xs))"
    and "g' = (relink (REND tag) l (Some u) (g\<lparr>rendlink := (rendlink g)(u := None), rendtag := (rendtag g)(u := tag), rendval := rv\<rparr>))
      \<lparr>inrend := (inrend g)(u := True)\<rparr>"
  shows "rendrep g' (C(REND tag := xs @ [u]))"
proof -
  note D = rendrepD[OF assms(1)]
  let ?b = "REND tag" and ?g = "g\<lparr>rendlink := (rendlink g)(u := None), rendtag := (rendtag g)(u := tag), rendval := rv\<rparr>"
  have u: "u \<notin> set (C b)" for b using D(3)[of u b] assms(2) by auto
  obtain h nx where s: "setlink l (Some u) (rendhash g ?b, (rendlink g)(u := None)) = (h, nx)"
    by (cases "setlink l (Some u) (rendhash g ?b, (rendlink g)(u := None))")
  have "chain nx h (xs @ [u])"
    by (rule setlink_append[of "rendlink g" "rendhash g ?b"]) (use D(1,2)[of ?b] u[of ?b] s assms(4,5) in auto)
  then have c: "chain (rendlink g') (rendhash g' ?b) (xs @ [u])"
    using relink_chain[of ?b l "Some u" ?g "xs @ [u]"] s by (simp add: assms(6))
  have o: "chain (rendlink g') (rendhash g' b') (C b')" if "b' \<noteq> ?b" for b'
  proof -
    have "q \<notin> set (C b')" if "l = Some q" for q
    proof -
      have "q \<in> set (C ?b)" using that assms(4,5) by (auto split: if_splits)
      then show ?thesis using D(3)[of q ?b] D(3)[of q b'] \<open>b' \<noteq> ?b\<close> by auto
    qed
    then show ?thesis using relink_other[OF that, of l "C b'" "Some u" ?g] D(1) u by (simp add: assms(6))
  qed
  have m: "q \<in> set ((C(?b := xs @ [u])) b') \<longleftrightarrow> inrend g' q \<and> REND (rendtag g' q) = b'" for q b'
    using D(3)[of q b'] assms(2,4) by (cases "q = u") (auto simp: assms(6))
  have t: "p = q" if "inrend g' p" "inrend g' q" "rendtag g' p = rendtag g' q" for p q
    using that D(4)[of p q] assms(3)[of p] assms(3)[of q] by (auto simp: assms(6) split: if_splits)
  show ?thesis
    unfolding rendrep_def using c o m t D(2) u[of ?b] assms(4) by simp
qed

section \<open>Refinement\<close>

text \<open>The loop of \<open>sysrendezvous\<close> finds the process that waits with the tag, if there is one.\<close>

lemma seek_tag:
  assumes "rendrep g C"
  shows "seek (rendhash g (REND tag)) None (\<lambda>p. rendtag g p = tag) (rendlink g) = Some (None, if C (REND tag) = [] then None else Some (last (C (REND tag))))
      \<and> (\<forall>p. inrend g p \<longrightarrow> rendtag g p \<noteq> tag)
    \<or> (\<exists>as p bs. seek (rendhash g (REND tag)) None (\<lambda>p. rendtag g p = tag) (rendlink g) = Some (Some p, if as = [] then None else Some (last as))
      \<and> C (REND tag) = as @ p # bs \<and> inrend g p \<and> rendtag g p = tag)"
proof (cases "\<exists>p. inrend g p \<and> rendtag g p = tag")
  case True
  then obtain p where p: "inrend g p" "rendtag g p = tag" by blast
  then have "p \<in> set (C (REND tag))" using rendrepD(3)[OF assms] by simp
  then obtain as bs where s: "C (REND tag) = as @ p # bs" "p \<notin> set as" using split_list_first by metis
  have "rendtag g x \<noteq> tag" if "x \<in> set as" for x
    using that s rendrepD(3)[OF assms, of x "REND tag"] rendrepD(4)[OF assms, of x p] p by auto
  then show ?thesis
    using seek_chain[of "rendlink g" _ as "p # bs"] rendrepD(1)[OF assms, of "REND tag"] s p by auto
next
  case False
  then have "rendtag g x \<noteq> tag" if "x \<in> set (C (REND tag))" for x
    using that rendrepD(3)[OF assms, of x "REND tag"] by auto
  then show ?thesis
    using seek_chain[of "rendlink g" _ "C (REND tag)" "[]"] rendrepD(1)[OF assms, of "REND tag"] False by auto
qed

lemma seek_proc:
  assumes "rendrep g C" "inrend g p"
  shows "\<exists>as bs. seek (rendhash g (REND (rendtag g p))) None (\<lambda>d. d = p) (rendlink g) = Some (Some p, if as = [] then None else Some (last as))
      \<and> C (REND (rendtag g p)) = as @ p # bs"
proof -
  have "p \<in> set (C (REND (rendtag g p)))" using rendrepD(3)[OF assms(1)] assms(2) by simp
  then obtain as bs where s: "C (REND (rendtag g p)) = as @ p # bs" "p \<notin> set as" using split_list_first by metis
  then show ?thesis
    using seek_chain[of "rendlink g" _ as "p # bs" "\<lambda>d. d = p"] rendrepD(1)[OF assms(1), of "REND (rendtag g p)"] by fastforce
qed

lemma rendrep_val: "rendrep (g\<lparr>rendval := v\<rparr>) C = rendrep g C"
  by (simp add: rendrep_def)

lemma rendrelI:
  assumes "rendrep g C" "\<And>t p v. A t = Some (p, v) \<longleftrightarrow> inrend g p \<and> rendtag g p = t \<and> rendval g p = v"
  shows "rendrel g A"
  using assms unfolding rendrel_def by blast

lemma sysrendezvous_meet:
  assumes "rendrel g A" "\<not> inrend g u" "A tag = Some (p, v)"
  shows "\<exists>g'. sysrendezvous u tag val g = Some (Some v, g') \<and> rendrel g' (A(tag := None)) \<and> rendval g' p = val \<and> \<not> inrend g' p"
proof -
  obtain C where C: "rendrep g C" using assms(1) by (auto simp: rendrel_def)
  have A: "A t = Some (q, w) \<longleftrightarrow> inrend g q \<and> rendtag g q = t \<and> rendval g q = w" for t q w
    using assms(1) by (simp add: rendrel_def)
  have p: "inrend g p" "rendtag g p = tag" "rendval g p = v" using A assms(3) by auto
  let ?g = "g\<lparr>rendval := (rendval g)(u := - 1)\<rparr>"
  obtain as bs where s: "seek (rendhash g (REND tag)) None (\<lambda>p. rendtag g p = tag) (rendlink g) = Some (Some p, if as = [] then None else Some (last as))"
    "C (REND tag) = as @ p # bs"
    using seek_tag[OF C, of tag] p rendrepD(4)[OF C] by blast
  define g' where "g' = (relink (REND tag) (if as = [] then None else Some (last as)) (rendlink g p) ?g)
    \<lparr>rendval := ((rendval g)(u := - 1))(p := val), inrend := (inrend g)(p := False)\<rparr>"
  have "sysrendezvous u tag val g = Some (Some v, g')"
    using s p assms(2) by (auto simp: sysrendezvous_def Let_def g'_def)
  moreover have "rendrep g' (C(REND tag := as @ bs))"
    using rendrep_remove[of ?g C "REND tag" as p bs g'] C s(2) by (simp add: rendrep_val g'_def)
  moreover have "(A(tag := None)) t = Some (q, w) \<longleftrightarrow> inrend g' q \<and> rendtag g' q = t \<and> rendval g' q = w" for t q w
    using A[of t q w] A[of tag p v] p assms(2) rendrepD(4)[OF C, of p q] by (cases "q = p") (auto simp: g'_def)
  moreover have "rendval g' p = val" "\<not> inrend g' p" by (simp_all add: g'_def)
  ultimately show ?thesis using rendrelI by blast
qed

lemma sysrendezvous_wait:
  assumes "rendrel g A" "\<not> inrend g u" "A tag = None"
  shows "\<exists>g'. sysrendezvous u tag val g = Some (None, g') \<and> rendrel g' (A(tag := Some (u, val))) \<and> inrend g' u"
proof -
  obtain C where C: "rendrep g C" using assms(1) by (auto simp: rendrel_def)
  have A: "A t = Some (q, w) \<longleftrightarrow> inrend g q \<and> rendtag g q = t \<and> rendval g q = w" for t q w
    using assms(1) by (simp add: rendrel_def)
  have none: "rendtag g p \<noteq> tag" if "inrend g p" for p using A[of tag p "rendval g p"] assms(3) that by auto
  let ?xs = "C (REND tag)"
  let ?l = "if ?xs = [] then None else Some (last ?xs)"
  have s: "seek (rendhash g (REND tag)) None (\<lambda>p. rendtag g p = tag) (rendlink g) = Some (None, ?l)"
    using seek_tag[OF C, of tag] none by blast
  have nx: "(case ?l of None \<Rightarrow> rendhash g (REND tag) | Some q \<Rightarrow> rendlink g q) = None"
    using rendrepD(1)[OF C, of "REND tag"] chain_link[of "rendlink g" _ "butlast ?xs" "last ?xs" "[]"] by (cases "?xs = []") auto
  define g' where "g' = (relink (REND tag) ?l (Some u) (g\<lparr>rendlink := (rendlink g)(u := None), rendtag := (rendtag g)(u := tag),
    rendval := (rendval g)(u := val)\<rparr>))\<lparr>inrend := (inrend g)(u := True)\<rparr>"
  have "sysrendezvous u tag val g = Some (None, g')"
    using s nx by (cases "?xs = []") (simp_all add: sysrendezvous_def Let_def g'_def relink_def)
  moreover have "rendrep g' (C(REND tag := ?xs @ [u]))"
    using rendrep_add[OF C assms(2) none refl refl g'_def] by blast
  moreover have "(A(tag := Some (u, val))) t = Some (q, w) \<longleftrightarrow> inrend g' q \<and> rendtag g' q = t \<and> rendval g' q = w" for t q w
    using A[of t q w] none[of q] assms(2) by (cases "q = u") (auto simp: g'_def)
  moreover have "inrend g' u" by (simp add: g'_def)
  ultimately show ?thesis using rendrelI by blast
qed

lemma pullout_ok:
  assumes "rendrel g A"
  shows "\<exists>g'. pullout p g = Some g' \<and> rendrel g' (\<lambda>t. case A t of Some (q, v) \<Rightarrow> if q = p then None else A t | None \<Rightarrow> None)
    \<and> \<not> inrend g' p \<and> (inrend g p \<longrightarrow> rendval g' p = - 1)"
proof -
  obtain C where C: "rendrep g C" using assms(1) by (auto simp: rendrel_def)
  have A: "A t = Some (q, w) \<longleftrightarrow> inrend g q \<and> rendtag g q = t \<and> rendval g q = w" for t q w
    using assms(1) by (simp add: rendrel_def)
  let ?A = "\<lambda>t. case A t of Some (q, v) \<Rightarrow> if q = p then None else A t | None \<Rightarrow> None"
  have A': "?A t = Some (q, w) \<longleftrightarrow> q \<noteq> p \<and> A t = Some (q, w)" for t q w
    by (auto split: option.splits)
  show ?thesis
  proof (cases "inrend g p")
    case False
    then have "?A t = Some (q, w) \<longleftrightarrow> A t = Some (q, w)" for t q w unfolding A' using A[of t q w] by auto
    then have "rendrel g ?A" using A by (intro rendrelI[OF C]) simp
    then show ?thesis using False by (auto simp: pullout_def)
  next
    case True
    let ?b = "REND (rendtag g p)" and ?g = "g\<lparr>rendval := (rendval g)(p := - 1)\<rparr>"
    obtain as bs where s: "seek (rendhash g ?b) None (\<lambda>d. d = p) (rendlink g) = Some (Some p, if as = [] then None else Some (last as))"
      "C ?b = as @ p # bs"
      using seek_proc[OF C True] by blast
    define g' where "g' = (relink ?b (if as = [] then None else Some (last as)) (rendlink g p) ?g)
      \<lparr>rendval := (rendval g)(p := - 1), inrend := (inrend g)(p := False)\<rparr>"
    have "pullout p g = Some g'"
      using s True by (simp add: pullout_def Let_def g'_def relink_def split: prod.split)
    moreover have "rendrep g' (C(?b := as @ bs))"
      using rendrep_remove[of ?g C ?b as p bs g'] C s(2) by (simp add: rendrep_val g'_def)
    moreover have "?A t = Some (q, w) \<longleftrightarrow> inrend g' q \<and> rendtag g' q = t \<and> rendval g' q = w" for t q w
      unfolding A' using A[of t q w] by (auto simp: g'_def)
    then have "rendrel g' ?A" by (rule rendrelI[OF calculation(2)])
    moreover have "rendval g' p = - 1" "\<not> inrend g' p" by (simp_all add: g'_def)
    ultimately show ?thesis by simp
  qed
qed

section \<open>Properties\<close>

text \<open>
  C19: the table of a process group refines a map from tags to the process that waits and its
  value. \<open>sysrendezvous\<close> by a process that does not wait always returns or sleeps: when one waits
  with the tag, the two exchange their values and nobody waits there any more; otherwise the
  caller waits. The end of \<open>postnote\<close> takes a waiting process out, which then gets \<open>~0\<close>, and leaves
  the others.\<close>

theorem rendezvous_refines:
  assumes "rendrel g A" "\<not> inrend g u"
  shows "(case A tag of
      Some (p, v) \<Rightarrow> \<exists>g'. sysrendezvous u tag val g = Some (Some v, g') \<and> rendrel g' (A(tag := None)) \<and> rendval g' p = val \<and> \<not> inrend g' p
    | None \<Rightarrow> \<exists>g'. sysrendezvous u tag val g = Some (None, g') \<and> rendrel g' (A(tag := Some (u, val))) \<and> inrend g' u)
    \<and> (\<exists>g'. pullout p g = Some g' \<and> rendrel g' (\<lambda>t. case A t of Some (q, v) \<Rightarrow> if q = p then None else A t | None \<Rightarrow> None)
        \<and> \<not> inrend g' p \<and> (inrend g p \<longrightarrow> rendval g' p = - 1))"
  using sysrendezvous_meet[OF assms] sysrendezvous_wait[OF assms] pullout_ok[OF assms(1)]
  by (auto split: option.splits)

definition rgrp_ex :: rgrp where
  "rgrp_ex = \<lparr>rendhash = (\<lambda>_. None), rendlink = (\<lambda>_. None), rendtag = (\<lambda>_. 0), rendval = (\<lambda>_. 0), inrend = (\<lambda>_. False)\<rparr>"

theorem rendezvous_refines_witness:
  "\<exists>g g'. sysrendezvous 1 7 10 rgrp_ex = Some (None, g) \<and> sysrendezvous 2 7 20 g = Some (Some 10, g') \<and> rendval g' 1 = 20"
proof -
  have r: "rendrel rgrp_ex (\<lambda>_. None)" unfolding rendrel_def rendrep_def by (auto simp: rgrp_ex_def intro!: exI[of _ "\<lambda>_. []"])
  obtain g where g: "sysrendezvous 1 7 10 rgrp_ex = Some (None, g)" "rendrel g [7 \<mapsto> (1, 10)]"
    using rendezvous_refines[OF r, of 1 7 10] by (auto simp: rgrp_ex_def)
  have "inrend g 2 \<longleftrightarrow> [7 \<mapsto> (1 :: nat, 10)] (rendtag g 2) = Some (2 :: nat, rendval g 2)"
    using g(2) unfolding rendrel_def by blast
  then have "\<not> inrend g 2" by (simp split: if_splits)
  then show ?thesis
    using g(1) rendezvous_refines[OF g(2), of 2 7 20] by auto
qed

end
