(* ===== verification/Tcp.thy ===== *)
theory Tcp
  imports Plan9_Prelude "HOL-Library.Signed_Division"
begin

unbundle bit_operations_syntax

text \<open>
  The transmission control protocol (\<open>src/ip/tcp.c\<close>): the control block of a conversation, the
  arithmetic of sequence numbers, the receive window, the resequencing queue, the processing of
  acknowledgements with congestion control, and output.

  The flags of a segment and of a control block are sets. The data of a segment, and of the two
  queues of a conversation, is the list of its bytes: \<open>pullblock\<close> drops bytes, \<open>trimblock\<close> takes
  bytes, \<open>qpassnolim\<close> appends, \<open>qdiscard\<close> drops and \<open>qcopy\<close> copies, as the theories of blocks and
  queues show. \<open>NOW\<close> is an argument. What becomes of the packets handed to \<open>ipoput4\<close> and \<open>ipoput6\<close> is a
  parameter, \<open>net\<close>. The conversation stays locked while \<open>tcpoutput\<close> runs. Statistics are left out.
\<close>

section \<open>Constants and segments\<close>

type_synonym seqno = "32 word"

datatype tcpflag = URG | ACK | PSH | RST | SYN | FIN

datatype tcbflag = FORCE | CLONE | RETRAN | ACTIVE | SYNACK

datatype tcpst = Closed | Listen | Syn_sent | Syn_received | Established | Finwait1 | Finwait2 | Close_wait
  | Closing | Last_ack | Time_wait

definition QMAX :: "32 word" where "QMAX = 64 * 1024 - 1"
definition MAXBACKMS :: int where "MAXBACKMS = 9 * 60 * 1000"
definition MSPTICK :: int where "MSPTICK = 50"
definition MSL2 :: int where "MSL2 = 10"
definition Maxqscale :: nat where "Maxqscale = 4"

record tcpseg =
  seq :: seqno
  ack :: seqno
  flags :: "tcpflag set"
  upd :: bool          \<comment> \<open>\<open>update\<close>\<close>
  ws :: nat
  wnd :: "32 word"
  urg :: "16 word"
  mssopt :: "16 word"

record reseq =
  rseg :: tcpseg
  rbp :: "8 word list"
  rlength :: "16 word"

section \<open>The control block and the conversation\<close>

datatype timerstate = TcptimerOFF | TcptimerON | TcptimerDONE

record tcptimer =
  tst :: timerstate
  start :: int
  tcount :: int

text \<open>What \<open>ipoput\<close> or the allocation of the header does with the next packet.\<close>

datatype netres = Okay | Nomem | Noroute

text \<open>What a conversation does besides changing its state.\<close>

datatype tcpev = Sent tcpseg "8 word list" | Probe tcpseg "8 word list" | Reset string | Connected bool | Hangup | Panicked string

record tcpconv =
  state :: tcpst
  snd_una :: seqno  snd_nxt :: seqno  snd_ptr :: seqno
  snd_wnd :: "32 word"  snd_urg :: seqno  snd_wl2 :: seqno
  snd_scale :: nat  snd_dupacks :: "32 word"  snd_partialack :: "32 word"
  snd_recovery :: bool  snd_retransmit :: bool  snd_rto :: bool  snd_rxt :: seqno
  rcv_nxt :: seqno  rcv_wnd :: "32 word"  rcv_wsnt :: seqno  rcv_wptr :: seqno  rcv_urg :: seqno
  rcv_ackptr :: seqno  rcv_blocked :: bool  rcv_scale :: nat
  iss :: seqno  cwind :: "32 word"  abcbytes :: "32 word"  scale :: nat  ssthresh :: "32 word"
  irs :: seqno  mss :: "16 word"  rerecv :: int  window :: "32 word"  qscale :: nat
  backoff :: nat  backedoff :: int  tflags :: "tcbflag set"
  reseqq :: "reseq list"  nreseq :: int  reseqlen :: int
  timer :: tcptimer  acktimer :: tcptimer  rtt_timer :: tcptimer  katimer :: tcptimer
  rttseq :: seqno  srtt :: int  mdev :: int  kacounter :: int  sndsyntime :: "32 word"
  ttime :: "32 word"  timeuna :: seqno  flgcnt :: int
  rq :: "8 word list"  wq :: "8 word list"  rclosed :: bool
  net :: "nat \<Rightarrow> netres"  npkt :: nat  hogdefense :: bool
  evs :: "tcpev list"

definition emit :: "tcpev \<Rightarrow> tcpconv \<Rightarrow> tcpconv" where
  "emit e c = c\<lparr>evs := evs c @ [e]\<rparr>"

section \<open>Sequence numbers\<close>

definition seq_within :: "seqno \<Rightarrow> seqno \<Rightarrow> seqno \<Rightarrow> bool" where
  "seq_within x low high \<longleftrightarrow> (if low \<le> high then low \<le> x \<and> x \<le> high else x \<ge> low \<or> x \<le> high)"

definition seq_lt :: "seqno \<Rightarrow> seqno \<Rightarrow> bool" where "seq_lt x y \<longleftrightarrow> sint (x - y) < 0"
definition seq_le :: "seqno \<Rightarrow> seqno \<Rightarrow> bool" where "seq_le x y \<longleftrightarrow> sint (x - y) \<le> 0"
definition seq_gt :: "seqno \<Rightarrow> seqno \<Rightarrow> bool" where "seq_gt x y \<longleftrightarrow> sint (x - y) > 0"
definition seq_ge :: "seqno \<Rightarrow> seqno \<Rightarrow> bool" where "seq_ge x y \<longleftrightarrow> sint (x - y) \<ge> 0"

section \<open>Timers\<close>

definition tcpgo :: "tcptimer \<Rightarrow> tcptimer" where
  "tcpgo t = (if start t = 0 then t else t\<lparr>tcount := start t, tst := TcptimerON\<rparr>)"

definition tcphalt :: "tcptimer \<Rightarrow> tcptimer" where
  "tcphalt t = t\<lparr>tst := TcptimerOFF\<rparr>"

definition tcpsetkacounter :: "tcpconv \<Rightarrow> tcpconv" where
  "tcpsetkacounter c =
    (let k = (12 * 60 * 1000) sdiv (start (katimer c) * MSPTICK) in c\<lparr>kacounter := (if k < 3 then 3 else k)\<rparr>)"

definition tcpsettimer :: "tcpconv \<Rightarrow> tcpconv" where
  "tcpsettimer c =
    (let x = s32 (s32 (2 ^ backoff c) * s32 (mdev c + drop_bit 3 (srtt c) + MSPTICK)) sdiv MSPTICK;
         x = (if x < 300 div MSPTICK then 300 div MSPTICK else if x > 64000 div MSPTICK then 64000 div MSPTICK else x)
     in c\<lparr>timer := (timer c)\<lparr>start := x\<rparr>\<rparr>)"

section \<open>States\<close>

definition tcpsetstate :: "tcpst \<Rightarrow> tcpconv \<Rightarrow> tcpconv" where
  "tcpsetstate new c =
    (let old = state c in
     if old = new then c
     else let c = (case new of
              Closed \<Rightarrow> c\<lparr>rq := [], wq := [], rclosed := True\<rparr>
            | Close_wait \<Rightarrow> c\<lparr>rclosed := True\<rparr>
            | _ \<Rightarrow> c);
            c = c\<lparr>state := new\<rparr>
        in if old = Syn_sent \<and> new \<noteq> Closed then emit (Connected True) c else c)"

definition dumpreseq :: "tcpconv \<Rightarrow> tcpconv" where
  "dumpreseq c = c\<lparr>reseqq := [], nreseq := 0, reseqlen := 0\<rparr>"

definition localclose :: "tcpconv \<Rightarrow> tcpconv" where
  "localclose c =
    (let c = c\<lparr>timer := tcphalt (timer c), rtt_timer := tcphalt (rtt_timer c), acktimer := tcphalt (acktimer c),
            katimer := tcphalt (katimer c)\<rparr>;
         c = dumpreseq c;
         c = (if state c = Syn_sent then emit (Connected False) c else c);
         c = emit Hangup (c\<lparr>rclosed := True\<rparr>)
     in tcpsetstate Closed c)"

section \<open>The receive window\<close>

definition tcprcvwin :: "tcpconv \<Rightarrow> tcpconv" where
  "tcprcvwin c =
    (let w = s32 (uint (window c) - int (length (rq c)));
         w = (if w < 0 then 0 else w);
         w = (if seq_lt (rcv_nxt c + word_of_int w) (rcv_wptr c) then sint (rcv_wptr c - rcv_nxt c) else w);
         c = (if word_of_int w \<noteq> rcv_wnd c \<and>
                (drop_bit (rcv_scale c) w = 0 \<or> window c > 4 * ucast (mss c) \<and> w < uint (mss c) div 4)
              then c\<lparr>rcv_blocked := True\<rparr> else c)
     in c\<lparr>rcv_wnd := word_of_int w, rcv_wptr := rcv_nxt c + word_of_int w\<rparr>)"

definition inwindow :: "tcpconv \<Rightarrow> seqno \<Rightarrow> bool" where
  "inwindow c x \<longleftrightarrow> seq_within x (rcv_nxt c) (rcv_nxt c + rcv_wnd c - 1)"

text \<open>
  \<open>tcptrim\<close>: \<open>None\<close> is the result -1. The arguments are the segment, its data and \<open>*length\<close>; the panic is
  an event.
\<close>

definition trimaccept :: "tcpconv \<Rightarrow> tcpseg \<Rightarrow> 16 word \<Rightarrow> bool" where
  "trimaccept c sg len =
    (inwindow c (seq sg)
     \<or> len \<noteq> 0 \<and> (inwindow c (seq sg + ucast len - 1) \<or> seq_within (rcv_nxt c) (seq sg) (seq sg + ucast len - 1)))"

definition trimsyn :: "tcpseg \<Rightarrow> int \<Rightarrow> tcpseg \<times> int" where
  "trimsyn sg dup =
    (if SYN \<in> flags sg
     then let sg = sg\<lparr>flags := flags sg - {SYN}, seq := seq sg + 1\<rparr>
          in (if urg sg > 1 then sg\<lparr>urg := urg sg - 1\<rparr> else sg\<lparr>flags := flags sg - {URG}\<rparr>, dup - 1)
     else (sg, dup))"

definition trimold :: "int \<Rightarrow> tcpseg \<Rightarrow> 8 word list \<Rightarrow> 16 word \<Rightarrow> tcpseg \<times> 8 word list \<times> 16 word" where
  "trimold dup sg bp len =
    (if dup \<le> 0 then (sg, bp, len)
     else let sg = sg\<lparr>seq := seq sg + word_of_int dup\<rparr>
          in (if uint (urg sg) > dup then sg\<lparr>urg := urg sg - word_of_int dup\<rparr> else sg\<lparr>flags := flags sg - {URG}, urg := 0\<rparr>,
              drop (unat (word_of_int dup :: 16 word)) bp, len - word_of_int dup))"

definition trimfront :: "tcpconv \<Rightarrow> tcpseg \<Rightarrow> 8 word list \<Rightarrow> 16 word \<Rightarrow> tcpconv \<times> tcpseg \<times> 8 word list \<times> 16 word" where
  "trimfront c sg bp len =
    (let dup = sint (rcv_nxt c - seq sg) in
     if dup \<le> 0 then (c, sg, bp, len)
     else let (sg, dup') = trimsyn sg dup in (c\<lparr>rerecv := rerecv c + dup\<rparr>, trimold dup' sg bp len))"

definition trimback :: "tcpconv \<times> tcpseg \<times> 8 word list \<times> 16 word \<Rightarrow> tcpconv \<times> tcpseg \<times> 8 word list \<times> 16 word" where
  "trimback x = (case x of (c, sg, bp, len) \<Rightarrow>
    let excess = sint (seq sg + ucast len - (rcv_nxt c + rcv_wnd c)) in
    if excess > 0
    then let len = len - word_of_int excess
         in (if length bp < unat len then emit (Panicked ''presotto is a boofhead'') c else c\<lparr>rerecv := rerecv c + excess\<rparr>,
             sg\<lparr>flags := flags sg - {FIN}\<rparr>, take (unat len) bp, len)
    else (c, sg, bp, len))"

definition tcptrim :: "tcpconv \<Rightarrow> tcpseg \<Rightarrow> 8 word list \<Rightarrow> 16 word \<Rightarrow> (tcpconv \<times> tcpseg \<times> 8 word list \<times> 16 word) option" where
  "tcptrim c sg bp length0 =
    (let len = length0 + (if SYN \<in> flags sg then 1 else 0) + (if FIN \<in> flags sg then 1 else 0) in
     if rcv_wnd c = 0 then if len = 0 \<and> seq sg = rcv_nxt c then Some (c, sg, bp, length0) else None
     else if \<not> trimaccept c sg len then None
     else Some (trimback (trimfront c sg bp length0)))"

section \<open>The resequencing queue\<close>

fun insreseq :: "reseq \<Rightarrow> reseq list \<Rightarrow> reseq list" where
  "insreseq r [] = [r]"
| "insreseq r (x # xs) = (if seq_lt (seq (rseg r)) (seq (rseg x)) then r # x # xs else x # insreseq r xs)"

text \<open>\<open>mem\<close> is the outcome of \<open>malloc\<close>; the result says whether the queue was dumped.\<close>

definition addreseq :: "bool \<Rightarrow> tcpconv \<Rightarrow> tcpseg \<Rightarrow> 8 word list \<Rightarrow> 16 word \<Rightarrow> bool \<times> tcpconv" where
  "addreseq mem c sg bp len =
    (if \<not> mem then (False, c)
     else let c = c\<lparr>reseqlen := reseqlen c + uint len, nreseq := nreseq c + 1,
            reseqq := insreseq \<lparr>rseg = sg, rbp = bp, rlength = len\<rparr> (reseqq c)\<rparr> in
       if reseqlen c > sint (window c) then (True, dumpreseq c)
       else if nreseq c > sint (window c div ucast (mss c)) then (True, dumpreseq c)
       else (False, c))"

definition getreseq :: "tcpconv \<Rightarrow> (tcpseg \<times> 8 word list \<times> 16 word \<times> tcpconv) option" where
  "getreseq c =
    (case reseqq c of
       [] \<Rightarrow> None
     | r # rs \<Rightarrow> Some (rseg r, rbp r, rlength r,
         c\<lparr>reseqq := rs, nreseq := nreseq c - 1, reseqlen := reseqlen c - uint (rlength r)\<rparr>))"

section \<open>Congestion control\<close>

definition mss32 :: "tcpconv \<Rightarrow> 32 word" where "mss32 c = ucast (mss c)"

definition tcpcongestion :: "tcpconv \<Rightarrow> tcpconv" where
  "tcpcongestion c =
    (let inflight = snd_nxt c - snd_una c;
         inflight = (if inflight > cwind c then cwind c else inflight);
         h = inflight div 2
     in c\<lparr>ssthresh := (if h < 2 * mss32 c then 2 * mss32 c else h)\<rparr>)"

definition tcpabcincr :: "32 word \<Rightarrow> tcpconv \<Rightarrow> tcpconv" where
  "tcpabcincr acked c =
    (let c = c\<lparr>abcbytes := abcbytes c + acked\<rparr> in
     if cwind c < ssthresh c
     then let limit = (if snd_rto c then mss32 c else 2 * mss32 c)
          in c\<lparr>cwind := cwind c + min (abcbytes c) limit, abcbytes := 0\<rparr>
     else let c = c\<lparr>snd_rto := False\<rparr> in
          if abcbytes c \<ge> cwind c then c\<lparr>abcbytes := abcbytes c - cwind c, cwind := cwind c + mss32 c\<rparr> else c)"

definition initialwindow :: "tcpconv \<Rightarrow> tcpconv" where
  "initialwindow c = c\<lparr>cwind := (if mss c < 1095 then 4 * mss32 c else if mss c < 2190 then 4380 else 2 * mss32 c)\<rparr>"

definition tcpsynackrtt :: "32 word \<Rightarrow> tcpconv \<Rightarrow> tcpconv" where
  "tcpsynackrtt now c =
    (let delta = sint (now - sndsyntime c)
     in c\<lparr>srtt := s32 (push_bit 3 delta), mdev := s32 (push_bit 2 delta), rtt_timer := tcphalt (rtt_timer c)\<rparr>)"

definition tcpsetscale :: "nat \<Rightarrow> nat \<Rightarrow> tcpconv \<Rightarrow> tcpconv" where
  "tcpsetscale rcvscale sndscale c =
    (let q = (if rcvscale > Maxqscale then Maxqscale else rcvscale mod 256)
     in tcprcvwin (c\<lparr>rcv_scale := rcvscale mod 256, snd_scale := sndscale mod 256, qscale := q,
          window := push_bit q QMAX, ssthresh := push_bit q QMAX\<rparr>))"

section \<open>Output\<close>

text \<open>The number of bytes, with flags, to put into the next segment; \<open>None\<close> is \<open>break\<close>.\<close>

definition segsize :: "tcpconv \<Rightarrow> 32 word option" where
  "segsize c =
    (let sndcnt = word_of_int (int (length (wq c)) + flgcnt c) :: 32 word; sent = snd_ptr c - snd_una c in
     if snd_wnd c = 0
     then if sent > 0 \<and> FORCE \<notin> tflags c then None
          else Some (if sndcnt < sent then 0 else if sndcnt - sent > 0 then 1 else 0)
     else let s = (if sndcnt > cwind c then cwind c else sndcnt);
              s = (if s > snd_wnd c then snd_wnd c else s)
          in Some (if s < sent then 0 else if s - sent > mss32 c then mss32 c else s - sent))"

definition holdback :: "tcpconv \<Rightarrow> 32 word \<Rightarrow> bool" where
  "holdback c ssize \<longleftrightarrow> FORCE \<notin> tflags c \<and>
    (ssize = 0 \<or> ssize < mss32 c \<and> snd_nxt c = snd_ptr c \<and> snd_ptr c - snd_una c > 3 * mss32 c)"

text \<open>The segment, its data and the sequence space it takes.\<close>

definition makeseg :: "tcpconv \<Rightarrow> 32 word \<Rightarrow> tcpseg \<times> 8 word list \<times> 32 word" where
  "makeseg c ssize =
    (let syn = snd_ptr c = iss c \<and> state c \<in> {Syn_sent, Syn_received};
         fl = (if state c = Syn_sent then {} else {ACK}) \<union> (if syn then {SYN} else {});
         dsize = (if syn then if state c = Syn_sent then ssize - 1 else 0 else ssize);
         ssize = (if syn \<and> state c = Syn_received then 1 else ssize);
         sent = snd_ptr c - snd_una c;
         sndcnt = word_of_int (int (length (wq c)) + flgcnt c) :: 32 word;
         bp = (if dsize = 0 then [] else take (unat dsize) (drop (unat sent) (wq c)));
         short = dsize \<noteq> 0 \<and> length bp \<noteq> unat dsize;
         fl = fl \<union> (if short then {FIN} else {});
         dsize = (if short then dsize - 1 else dsize);
         fl = fl \<union> (if sent + dsize = sndcnt \<and> dsize \<noteq> 0 then {PSH} else {})
     in (\<lparr>seq = snd_ptr c, ack = rcv_nxt c, flags = fl, upd = False, ws = (if syn then scale c else 0),
          wnd = rcv_wnd c, urg = 0, mssopt = (if syn then mss c else 0)\<rparr>, bp, ssize))"

definition startxmit :: "32 word \<Rightarrow> 32 word \<Rightarrow> tcpconv \<Rightarrow> tcpconv" where
  "startxmit now ssize c =
    (if ssize = 0 then c
     else let c = (if tst (timer c) \<noteq> TcptimerON then c\<lparr>ttime := now, timeuna := snd_una c, timer := tcpgo (timer c)\<rparr> else c)
     in if \<not> snd_retransmit c \<and> tst (rtt_timer c) \<noteq> TcptimerON \<and> ssize = mss32 c
        then c\<lparr>rtt_timer := tcpgo (rtt_timer c), rttseq := snd_ptr c\<rparr> else c)"

text \<open>The window to advertise; an opened window is announced.\<close>

definition openwin :: "tcpconv \<Rightarrow> tcpconv" where
  "openwin c =
    (let c = tcprcvwin c in
     if rcv_blocked c \<and> rcv_wnd c > 0 then c\<lparr>rcv_blocked := False, tflags := insert FORCE (tflags c)\<rparr> else c)"

definition advance :: "32 word \<Rightarrow> tcpconv \<Rightarrow> tcpconv" where
  "advance ssize c =
    (let c = c\<lparr>snd_ptr := snd_ptr c + ssize\<rparr> in if seq_gt (snd_ptr c) (snd_nxt c) then c\<lparr>snd_nxt := snd_ptr c\<rparr> else c)"

text \<open>From the construction of the header to the end of a round: \<open>Inl\<close> ends the loop.\<close>

definition sendseg :: "32 word \<Rightarrow> tcpseg \<Rightarrow> 8 word list \<Rightarrow> 32 word \<Rightarrow> tcpconv \<Rightarrow> tcpconv + tcpconv" where
  "sendseg now sg bp ssize c =
    (let r = net c (npkt c); c = c\<lparr>npkt := npkt c + 1\<rparr> in
     if r = Nomem then Inl c
     else let c = startxmit now ssize c;
              c = c\<lparr>rcv_ackptr := ack sg, rcv_wsnt := rcv_wptr c, katimer := tcpgo (katimer c)\<rparr>
          in Inr (if r = Noroute then localclose c else emit (Sent sg bp) c))"

text \<open>One round of the loop.\<close>

definition tcpout1 :: "32 word \<Rightarrow> tcpconv \<Rightarrow> tcpconv + tcpconv" where
  "tcpout1 now c =
    (if state c \<in> {Listen, Closed, Finwait2} then Inl c
     else if snd_ptr c \<noteq> iss c \<and> SYNACK \<notin> tflags c then Inl c
     else let c = openwin c in
       case segsize c of
         None \<Rightarrow> Inl c
       | Some ssize \<Rightarrow>
         if holdback c ssize then Inl c
         else let c = c\<lparr>tflags := tflags c - {FORCE}, acktimer := tcphalt (acktimer c)\<rparr>; (sg, bp, ssize) = makeseg c ssize
              in sendseg now sg bp ssize (advance ssize c))"

fun tcpoutn :: "nat \<Rightarrow> 32 word \<Rightarrow> tcpconv \<Rightarrow> tcpconv" where
  "tcpoutn 0 now c = c"
| "tcpoutn (Suc n) now c = (case tcpout1 now c of Inl c \<Rightarrow> c | Inr c \<Rightarrow> tcpoutn n now c)"

definition tcpoutput :: "32 word \<Rightarrow> tcpconv \<Rightarrow> tcpconv" where
  "tcpoutput now c =
    tcpoutn 100 now (if FORCE \<notin> tflags c \<and> rcv_nxt c - rcv_ackptr c \<ge> 2 * mss32 c then c\<lparr>tflags := insert FORCE (tflags c)\<rparr> else c)"

definition tcprxmit :: "32 word \<Rightarrow> tcpconv \<Rightarrow> tcpconv" where
  "tcprxmit now c =
    (let c = c\<lparr>tflags := tflags c \<union> {RETRAN, FORCE}\<rparr>; tptr = snd_ptr c; tcwind = cwind c;
         c = tcpoutput now (c\<lparr>snd_ptr := snd_una c, cwind := mss32 c, snd_retransmit := True\<rparr>)
     in c\<lparr>snd_retransmit := False, cwind := tcwind, snd_ptr := tptr\<rparr>)"

definition tcpkick :: "32 word \<Rightarrow> tcpconv \<Rightarrow> tcpconv" where
  "tcpkick now c = (if state c \<in> {Syn_sent, Syn_received, Established, Close_wait} then tcpoutput now c else localclose c)"

definition tcpacktimer :: "32 word \<Rightarrow> tcpconv \<Rightarrow> tcpconv" where
  "tcpacktimer now c = (if state c \<noteq> Closed then tcpoutput now (c\<lparr>tflags := insert FORCE (tflags c)\<rparr>) else c)"

section \<open>Acknowledgements\<close>

text \<open>From the label \<open>recovery\<close>: fast retransmit.\<close>

definition recover :: "32 word \<Rightarrow> tcpseg \<Rightarrow> tcpconv \<Rightarrow> tcpconv" where
  "recover now sg c =
    (if snd_recovery c then c\<lparr>cwind := cwind c + mss32 c\<rparr>
     else if seq_le (snd_rxt c) (ack sg)
     then let c = c\<lparr>abcbytes := 0, snd_recovery := True, snd_partialack := 0, snd_rxt := snd_nxt c\<rparr>;
              c = tcpcongestion c
          in tcprxmit now (c\<lparr>cwind := ssthresh c + 3 * mss32 c\<rparr>)
     else c)"

definition dupack :: "32 word \<Rightarrow> tcpseg \<Rightarrow> tcpconv \<Rightarrow> tcpconv" where
  "dupack now sg c =
    (if snd_wnd c = 0 \<and> wnd sg > 0 \<and> seq_lt (ack sg) (snd_ptr c) then recover now sg (c\<lparr>snd_wnd := wnd sg\<rparr>)
     else if ack sg = snd_una c \<and> snd_una c \<noteq> snd_nxt c
     then let c = c\<lparr>snd_dupacks := snd_dupacks c + 1\<rparr> in
          if snd_dupacks c = 3 then recover now sg c
          else if snd_recovery c then c\<lparr>cwind := cwind c + mss32 c\<rparr> else c
     else c)"

definition updwindow :: "tcpseg \<Rightarrow> tcpconv \<Rightarrow> tcpconv" where
  "updwindow sg c =
    (if seq_gt (ack sg) (snd_wl2 c) \<or> snd_wl2 c = ack sg \<and> wnd sg > snd_wnd c
     then (if snd_wl2 c \<noteq> ack sg then c\<lparr>snd_dupacks := 0\<rparr> else c)\<lparr>snd_wnd := wnd sg, snd_wl2 := ack sg\<rparr>
     else c)"

definition ackcongestion :: "tcpseg \<Rightarrow> 32 word \<Rightarrow> tcpconv \<Rightarrow> tcpconv" where
  "ackcongestion sg acked c =
    (if snd_recovery c
     then if seq_ge (ack sg) (snd_rxt c)
       then let c = c\<lparr>snd_dupacks := 0, snd_recovery := False, cwind := snd_nxt c - snd_una c + mss32 c\<rparr>
            in if ssthresh c < cwind c then c\<lparr>cwind := ssthresh c\<rparr> else c
       else let c = c\<lparr>cwind := (if cwind c > acked then cwind c - acked else mss32 c)\<rparr>;
                c = (if acked \<ge> mss32 c then c\<lparr>cwind := cwind c + mss32 c\<rparr> else c)
            in c\<lparr>snd_partialack := snd_partialack c + 1\<rparr>
     else tcpabcincr acked c)"

definition ackrtt :: "tcpseg \<Rightarrow> tcpconv \<Rightarrow> tcpconv" where
  "ackrtt sg c =
    (if tst (rtt_timer c) = TcptimerON \<and> seq_ge (ack sg) (rttseq c)
     then let c = c\<lparr>rtt_timer := tcphalt (rtt_timer c)\<rparr> in
       if RETRAN \<in> tflags c then c
       else let rtt = s32 (start (rtt_timer c) - tcount (rtt_timer c));
                rtt = s32 ((if rtt = 0 then 1 else rtt) * MSPTICK);
                c = c\<lparr>backoff := 0, backedoff := 0\<rparr>;
                c = (if srtt c = 0 then c\<lparr>srtt := s32 (push_bit 3 rtt), mdev := s32 (push_bit 2 rtt)\<rparr>
                     else let delta = s32 (rtt - drop_bit 3 (srtt c)); sr = s32 (srtt c + delta);
                          delta = s32 (\<bar>delta\<bar> - drop_bit 2 (mdev c)); md = s32 (mdev c + delta)
                       in c\<lparr>srtt := (if sr \<le> 0 then 1 else sr), mdev := (if md \<le> 0 then 1 else md)\<rparr>)
            in tcpsettimer c
     else c)"

text \<open>From the label \<open>done\<close>.\<close>

definition ackdone :: "32 word \<Rightarrow> tcpseg \<Rightarrow> 32 word \<Rightarrow> tcpconv \<Rightarrow> tcpconv" where
  "ackdone now sg acked c =
    (let n = min (unat acked) (length (wq c));
         c = c\<lparr>wq := drop n (wq c), flgcnt := (if n < unat acked then flgcnt c - 1 else flgcnt c), snd_una := ack sg\<rparr>;
         c = (if snd_recovery c then tcprxmit now c else c);
         c = (if seq_gt (ack sg) (snd_urg c) then c\<lparr>snd_urg := ack sg\<rparr> else c);
         c = (if snd_una c \<noteq> snd_nxt c
              then if \<not> snd_recovery c \<or> snd_partialack c = 1
                then c\<lparr>ttime := now, timeuna := snd_una c, timer := tcpgo (timer c)\<rparr> else c
              else c\<lparr>timer := tcphalt (timer c)\<rparr>);
         c = (if seq_lt (snd_ptr c) (snd_una c) then c\<lparr>snd_ptr := snd_una c\<rparr> else c);
         c = (if \<not> snd_recovery c then c\<lparr>tflags := tflags c - {RETRAN}\<rparr> else c)
     in c\<lparr>backoff := 0, backedoff := 0\<rparr>)"

definition update :: "32 word \<Rightarrow> tcpseg \<Rightarrow> tcpconv \<Rightarrow> tcpseg \<times> tcpconv" where
  "update now sg c =
    (if upd sg then (sg, c)
     else (sg\<lparr>upd := True\<rparr>,
       let c = updwindow sg (dupack now sg c) in
       if \<not> seq_gt (ack sg) (snd_una c)
       then if RETRAN \<in> tflags c \<and> snd_wnd c = 0 then c\<lparr>backedoff := MAXBACKMS div 4\<rparr> else c
       else let acked = ack sg - snd_una c in
         if SYNACK \<notin> tflags c
         then ackdone now sg (acked - 1) (c\<lparr>tflags := insert SYNACK (tflags c), flgcnt := flgcnt c - 1\<rparr>)
         else ackdone now sg acked (ackrtt sg (ackcongestion sg acked c))))"

definition procsyn :: "tcpseg \<Rightarrow> tcpconv \<Rightarrow> tcpconv" where
  "procsyn sg c =
    (let c = c\<lparr>tflags := insert FORCE (tflags c), rcv_nxt := seq sg + 1, rcv_wptr := seq sg + 1, rcv_wsnt := 0,
            rcv_urg := seq sg + 1, irs := seq sg\<rparr>;
         c = (if mssopt sg \<noteq> 0 \<and> mssopt sg < mss c then c\<lparr>mss := mssopt sg\<rparr> else c)
     in initialwindow (c\<lparr>snd_wnd := wnd sg\<rparr>))"

end
