(* ===== verification/Tcp_Frame.thy ===== *)
theory Tcp_Frame
  imports Tcp
begin

text \<open>
  What the sending side of a conversation leaves alone. Output, retransmission and the processing of
  an acknowledgement keep the receive pointer, and keep the receive queue and the resequencing queue,
  unless they close the conversation for want of a route. The right edge of the receive window never
  moves back.
\<close>

section \<open>The receive window\<close>

text \<open>The room in the advertised window, and its bound: window and queued bytes never exceed the scaled queue.\<close>

definition wroom :: "tcpconv \<Rightarrow> nat" where
  "wroom c = unat (rcv_wptr c - rcv_nxt c)"

definition wok :: "tcpconv \<Rightarrow> bool" where
  "wok c \<longleftrightarrow> uint (window c) \<le> 2 ^ 20 \<and> wroom c + length (rq c) \<le> 2 ^ 20"

lemma sint32_small: "sint (word_of_int k :: 32 word) = k" if "- (2 ^ 31) \<le> k" "k < 2 ^ 31" for k
  using that by (simp add: sint_sbintrunc' signed_take_bit_int_eq_self)

lemma s32_small32: "- 2147483648 \<le> x \<Longrightarrow> x < 2147483648 \<Longrightarrow> s32 x = x"
  by (rule s32_small) simp_all

lemma tcprcvwin_room:
  assumes "wok c"
  shows "rcv_wptr (tcprcvwin c) = rcv_nxt c + rcv_wnd (tcprcvwin c)"
    and "unat (rcv_wnd (tcprcvwin c)) = max (nat (uint (window c) - int (length (rq c)))) (wroom c)"
proof -
  define d where "d = int (wroom c)"
  have wp: "rcv_wptr c = rcv_nxt c + word_of_int d" by (simp add: wroom_def d_def)
  have "wroom c + length (rq c) \<le> 1048576" using assms by (simp add: wok_def)
  hence d: "0 \<le> d" "d \<le> 1048576" and q: "int (length (rq c)) \<le> 1048576" by (simp_all add: d_def)
  have u: "0 \<le> uint (window c)" "uint (window c) \<le> 1048576" using assms by (auto simp: wok_def)
  define w0 where "w0 = max 0 (uint (window c) - int (length (rq c)))"
  have w0: "0 \<le> w0" "w0 \<le> 1048576" using u by (auto simp: w0_def)
  have s: "s32 (uint (window c) - int (length (rq c))) = uint (window c) - int (length (rq c))"
    by (rule s32_small32) (use u q in linarith)+
  have lt: "seq_lt (rcv_nxt c + word_of_int w0) (rcv_wptr c) \<longleftrightarrow> w0 < d"
  proof -
    have "rcv_nxt c + word_of_int w0 - rcv_wptr c = word_of_int (w0 - d)" by (simp add: wp)
    thus ?thesis using w0 d by (simp only: seq_lt_def) (subst sint32_small, auto)
  qed
  have "rcv_wptr c - rcv_nxt c = word_of_int d" by (simp add: wp)
  hence sd: "sint (rcv_wptr c - rcv_nxt c) = d" using d by (simp only:) (rule sint32_small, simp_all)
  have m: "(if s32 (uint (window c) - int (length (rq c))) < 0 then 0 else s32 (uint (window c) - int (length (rq c)))) = w0"
    by (simp add: s w0_def)
  have r: "rcv_wnd (tcprcvwin c) = word_of_int (max w0 d)" "rcv_wptr (tcprcvwin c) = rcv_nxt c + word_of_int (max w0 d)"
    using lt sd by (auto simp: tcprcvwin_def Let_def m max_def)
  show "rcv_wptr (tcprcvwin c) = rcv_nxt c + rcv_wnd (tcprcvwin c)" by (simp add: r)
  have "unat (word_of_int (max w0 d) :: 32 word) = nat (max w0 d)"
    using w0 d by (intro unat_eq_nat_uint[THEN trans]) (auto simp: uint_word_of_int)
  thus "unat (rcv_wnd (tcprcvwin c)) = max (nat (uint (window c) - int (length (rq c)))) (wroom c)"
    by (simp add: r w0_def d_def max_def) linarith
qed

lemma tcprcvwin_fields [simp]:
  "rcv_nxt (tcprcvwin c) = rcv_nxt c" "window (tcprcvwin c) = window c" "rq (tcprcvwin c) = rq c"
  "reseqq (tcprcvwin c) = reseqq c" "state (tcprcvwin c) = state c" "rclosed (tcprcvwin c) = rclosed c"
  "evs (tcprcvwin c) = evs c"
  by (simp_all add: tcprcvwin_def Let_def)

lemma tcprcvwin_wok:
  assumes "wok c"
  shows "wok (tcprcvwin c)" "wroom c \<le> wroom (tcprcvwin c)" "wroom (tcprcvwin c) = unat (rcv_wnd (tcprcvwin c))"
proof -
  show w: "wroom (tcprcvwin c) = unat (rcv_wnd (tcprcvwin c))" by (simp add: wroom_def tcprcvwin_room(1)[OF assms])
  show "wroom c \<le> wroom (tcprcvwin c)" by (simp add: w tcprcvwin_room(2)[OF assms])
  show "wok (tcprcvwin c)" using assms by (simp add: wok_def w tcprcvwin_room(2)[OF assms] max_def) linarith
qed

section \<open>The frame of the sending side\<close>

definition kept :: "tcpconv \<Rightarrow> tcpconv \<Rightarrow> bool" where
  "kept c c' \<longleftrightarrow> state c' = state c \<and> rq c' = rq c \<and> reseqq c' = reseqq c \<and> rclosed c' = rclosed c \<and>
    (Hangup \<in> set (evs c') \<longleftrightarrow> Hangup \<in> set (evs c))"

definition shut :: "tcpconv \<Rightarrow> tcpconv \<Rightarrow> bool" where
  "shut c c' \<longleftrightarrow> state c' = Closed \<and> (rq c' = rq c \<or> rq c' = []) \<and> reseqq c' = [] \<and> rclosed c' \<and> Hangup \<in> set (evs c')"

definition quiet :: "tcpconv \<Rightarrow> tcpconv \<Rightarrow> bool" where
  "quiet c c' \<longleftrightarrow> rcv_nxt c' = rcv_nxt c \<and> window c' = window c \<and> (wok c \<longrightarrow> wok c' \<and> wroom c \<le> wroom c') \<and>
    (kept c c' \<or> shut c c')"

lemmas quiet_defs = quiet_def kept_def shut_def

lemma quiet_refl [simp]: "quiet c c"
  by (simp add: quiet_defs)

lemma quiet_trans [trans]: "quiet c c' \<Longrightarrow> quiet c' c'' \<Longrightarrow> quiet c c''"
proof -
  assume a: "quiet c c'" "quiet c' c''"
  have "kept c c'' \<or> shut c c''" if "kept c c' \<or> shut c c'" "kept c' c'' \<or> shut c' c''"
    using that unfolding kept_def shut_def by metis
  moreover have "wok c \<longrightarrow> wok c'' \<and> wroom c \<le> wroom c''" using a unfolding quiet_def by (metis order_trans)
  ultimately show ?thesis using a unfolding quiet_def by metis
qed

text \<open>The fields of the sending side.\<close>

lemma quiet_same:
  assumes "rcv_nxt c' = rcv_nxt c" "window c' = window c" "rcv_wptr c' = rcv_wptr c" "state c' = state c" "rq c' = rq c"
    "reseqq c' = reseqq c" "rclosed c' = rclosed c" "evs c' = evs c"
  shows "quiet c c'"
  using assms by (simp add: quiet_defs wok_def wroom_def)

lemma quiet_emit: "e \<noteq> Hangup \<Longrightarrow> quiet c (emit e c)"
  by (simp add: quiet_defs wok_def wroom_def emit_def)

lemma quiet_tcprcvwin: "quiet c (tcprcvwin c)"
  unfolding quiet_def kept_def using tcprcvwin_wok(1,2) by simp

lemma quiet_localclose: "quiet c (localclose c)"
  by (cases "state c") (simp_all add: quiet_defs wok_def wroom_def localclose_def tcpsetstate_def dumpreseq_def emit_def Let_def)

lemma quiet_tcpcongestion: "quiet c (tcpcongestion c)"
  by (rule quiet_same) (simp_all add: tcpcongestion_def Let_def)

lemma quiet_tcpabcincr: "quiet c (tcpabcincr n c)"
  by (rule quiet_same) (simp_all add: tcpabcincr_def Let_def)

lemma quiet_startxmit: "quiet c (startxmit now n c)"
  by (rule quiet_same) (simp_all add: startxmit_def Let_def)

lemma quiet_tcpsettimer: "quiet c (tcpsettimer c)"
  by (rule quiet_same) (simp_all add: tcpsettimer_def Let_def)

lemma quiet_updwindow: "quiet c (updwindow sg c)"
  by (rule quiet_same) (simp_all add: updwindow_def Let_def)

lemma quiet_ackcongestion: "quiet c (ackcongestion sg n c)"
proof -
  have "quiet c (ackcongestion sg n c)" if "snd_recovery c"
    by (rule quiet_same) (use that in \<open>simp_all add: ackcongestion_def Let_def\<close>)
  thus ?thesis using quiet_tcpabcincr by (cases "snd_recovery c") (simp_all add: ackcongestion_def)
qed

lemma quiet_ackrtt: "quiet c (ackrtt sg c)"
  by (rule quiet_same) (simp_all add: ackrtt_def tcpsettimer_def Let_def)

section \<open>Output\<close>

lemma quiet_openwin: "quiet c (openwin c)"
proof -
  have "quiet (tcprcvwin c) (openwin c)" by (rule quiet_same) (simp_all add: openwin_def Let_def)
  with quiet_tcprcvwin show ?thesis by (rule quiet_trans)
qed

lemma quiet_advance: "quiet c (advance n c)"
  by (rule quiet_same) (simp_all add: advance_def Let_def)

definition res :: "tcpconv + tcpconv \<Rightarrow> tcpconv" where
  "res r = (case r of Inl c \<Rightarrow> c | Inr c \<Rightarrow> c)"

lemma res_simps [simp]: "res (Inl c) = c" "res (Inr c) = c"
  by (simp_all add: res_def)

lemma quiet_sendseg: "quiet c (res (sendseg now sg bp n c))"
proof -
  define c1 where "c1 = c\<lparr>npkt := npkt c + 1\<rparr>"
  define c2 where "c2 = startxmit now n c1"
  define c3 where "c3 = c2\<lparr>rcv_ackptr := ack sg, rcv_wsnt := rcv_wptr c2, katimer := tcpgo (katimer c2)\<rparr>"
  have 1: "quiet c c1" by (rule quiet_same) (simp_all add: c1_def)
  have "quiet c2 c3" by (rule quiet_same) (simp_all add: c3_def)
  with quiet_trans[OF 1 quiet_startxmit[of c1 now n]] have 3: "quiet c c3" unfolding c2_def by (rule quiet_trans)
  have "sendseg now sg bp n c = (if net c (npkt c) = Nomem then Inl c1
    else Inr (if net c (npkt c) = Noroute then localclose c3 else emit (Sent sg bp) c3))"
    unfolding sendseg_def Let_def c1_def[symmetric] c2_def[symmetric] c3_def[symmetric] by (rule refl)
  thus ?thesis using 1 quiet_trans[OF 3 quiet_localclose] quiet_trans[OF 3 quiet_emit] by simp
qed

lemma quiet_tcpout1: "quiet c (res (tcpout1 now c))"
proof -
  define c1 where "c1 = openwin c"
  define c2 where "c2 = c1\<lparr>tflags := tflags c1 - {FORCE}, acktimer := tcphalt (acktimer c1)\<rparr>"
  have 1: "quiet c c1" unfolding c1_def by (rule quiet_openwin)
  have "quiet c1 c2" by (rule quiet_same) (simp_all add: c2_def)
  with 1 have 2: "quiet c c2" by (rule quiet_trans)
  have 3: "quiet c (res (sendseg now sg bp k (advance k c2)))" for sg bp k
    using quiet_trans[OF quiet_trans[OF 2 quiet_advance] quiet_sendseg] .
  show ?thesis
    unfolding tcpout1_def Let_def c1_def[symmetric] c2_def[symmetric]
    using 1 3 by (simp split: option.split prod.split)
qed

lemma quiet_tcpoutn: "quiet c (tcpoutn n now c)"
proof (induction n arbitrary: c)
  case (Suc n)
  show ?case using quiet_tcpout1[of c now] quiet_trans[OF _ Suc.IH] by (cases "tcpout1 now c") auto
qed simp

lemma quiet_tcpoutput: "quiet c (tcpoutput now c)"
proof -
  have "quiet c (if FORCE \<notin> tflags c \<and> rcv_nxt c - rcv_ackptr c \<ge> 2 * mss32 c then c\<lparr>tflags := insert FORCE (tflags c)\<rparr> else c)"
    by (rule quiet_same) simp_all
  thus ?thesis unfolding tcpoutput_def by (rule quiet_trans[OF _ quiet_tcpoutn])
qed

lemma quiet_tcprxmit: "quiet c (tcprxmit now c)"
proof -
  define c1 where "c1 = c\<lparr>tflags := tflags c \<union> {RETRAN, FORCE}, snd_ptr := snd_una c, cwind := mss32 c, snd_retransmit := True\<rparr>"
  define c2 where "c2 = tcpoutput now c1"
  have e: "tcprxmit now c = c2\<lparr>snd_retransmit := False, cwind := cwind c, snd_ptr := snd_ptr c\<rparr>"
    by (simp add: tcprxmit_def Let_def c2_def c1_def mss32_def)
  have "quiet c c1" by (rule quiet_same) (simp_all add: c1_def)
  hence "quiet c c2" unfolding c2_def by (rule quiet_trans[OF _ quiet_tcpoutput])
  moreover have "quiet c2 (tcprxmit now c)" unfolding e by (rule quiet_same) simp_all
  ultimately show ?thesis by (rule quiet_trans)
qed

lemma quiet_tcpkick: "quiet c (tcpkick now c)"
  by (simp add: tcpkick_def quiet_tcpoutput quiet_localclose)

lemma quiet_tcpacktimer: "quiet c (tcpacktimer now c)"
proof -
  have "quiet c (c\<lparr>tflags := insert FORCE (tflags c)\<rparr>)" by (rule quiet_same) simp_all
  thus ?thesis by (simp add: tcpacktimer_def quiet_trans[OF _ quiet_tcpoutput])
qed

section \<open>Acknowledgements\<close>

lemma quiet_recover: "quiet c (recover now sg c)"
proof -
  define c1 where "c1 = c\<lparr>abcbytes := 0, snd_recovery := True, snd_partialack := 0, snd_rxt := snd_nxt c\<rparr>"
  define c2 where "c2 = tcpcongestion c1"
  define c3 where "c3 = c2\<lparr>cwind := ssthresh c2 + 3 * mss32 c2\<rparr>"
  have 1: "quiet c c1" by (rule quiet_same) (simp_all add: c1_def)
  have "quiet c2 c3" by (rule quiet_same) (simp_all add: c3_def)
  with quiet_trans[OF 1 quiet_tcpcongestion] have "quiet c c3" unfolding c2_def by (rule quiet_trans)
  hence "quiet c (tcprxmit now c3)" by (rule quiet_trans[OF _ quiet_tcprxmit])
  moreover have "quiet c (c\<lparr>cwind := cwind c + mss32 c\<rparr>)" by (rule quiet_same) simp_all
  ultimately show ?thesis
    unfolding recover_def Let_def c1_def[symmetric] c2_def[symmetric] c3_def[symmetric] by simp
qed

lemma quiet_dupack: "quiet c (dupack now sg c)"
proof -
  have a: "quiet c (recover now sg (c\<lparr>snd_wnd := wnd sg\<rparr>))"
    by (rule quiet_trans[OF quiet_same quiet_recover]) simp_all
  define c1 where "c1 = c\<lparr>snd_dupacks := snd_dupacks c + 1\<rparr>"
  have 1: "quiet c c1" by (rule quiet_same) (simp_all add: c1_def)
  have "quiet c (c1\<lparr>cwind := cwind c1 + mss32 c1\<rparr>)"
    by (rule quiet_trans[OF 1 quiet_same]) simp_all
  thus ?thesis unfolding dupack_def Let_def c1_def[symmetric] using a 1 quiet_trans[OF 1 quiet_recover] by simp
qed

text \<open>The stages of \<open>ackdone\<close>: what has been acknowledged leaves the queue, the next hole is sent again, and the
  timer follows.\<close>

lemma quiet_ackdone: "quiet c (ackdone now sg acked c)"
proof -
  define n where "n = min (unat acked) (length (wq c))"
  define c1 where "c1 = c\<lparr>wq := drop n (wq c), flgcnt := (if n < unat acked then flgcnt c - 1 else flgcnt c), snd_una := ack sg\<rparr>"
  define c2 where "c2 = (if snd_recovery c1 then tcprxmit now c1 else c1)"
  have 1: "quiet c c1" by (rule quiet_same) (simp_all add: c1_def)
  have 2: "quiet c c2" using 1 quiet_trans[OF 1 quiet_tcprxmit] by (simp add: c2_def)
  define c3 where "c3 = (if seq_gt (ack sg) (snd_urg c2) then c2\<lparr>snd_urg := ack sg\<rparr> else c2)"
  define c4 where "c4 = (if snd_una c3 \<noteq> snd_nxt c3
              then if \<not> snd_recovery c3 \<or> snd_partialack c3 = 1
                then c3\<lparr>ttime := now, timeuna := snd_una c3, timer := tcpgo (timer c3)\<rparr> else c3
              else c3\<lparr>timer := tcphalt (timer c3)\<rparr>)"
  define c5 where "c5 = (if seq_lt (snd_ptr c4) (snd_una c4) then c4\<lparr>snd_ptr := snd_una c4\<rparr> else c4)"
  define c6 where "c6 = (if \<not> snd_recovery c5 then c5\<lparr>tflags := tflags c5 - {RETRAN}\<rparr> else c5)"
  have e: "ackdone now sg acked c = c6\<lparr>backoff := 0, backedoff := 0\<rparr>"
    unfolding ackdone_def Let_def n_def[symmetric] c1_def[symmetric] c2_def[symmetric] c3_def[symmetric]
      c4_def[symmetric] c5_def[symmetric] c6_def[symmetric] by (rule refl)
  have 3: "quiet c2 c3" by (rule quiet_same) (simp_all add: c3_def)
  have 4: "quiet c3 c4" by (rule quiet_same) (simp_all add: c4_def)
  have 5: "quiet c4 c5" by (rule quiet_same) (simp_all add: c5_def)
  have 6: "quiet c5 c6" by (rule quiet_same) (simp_all add: c6_def)
  have 7: "quiet c6 (ackdone now sg acked c)" unfolding e by (rule quiet_same) simp_all
  from 2 3 4 5 6 7 show ?thesis using quiet_trans by blast
qed

lemma quiet_update: "quiet c (snd (update now sg c))"
proof -
  define c1 where "c1 = updwindow sg (dupack now sg c)"
  have 1: "quiet c c1" using quiet_trans[OF quiet_dupack quiet_updwindow] unfolding c1_def .
  have 2: "quiet c (c1\<lparr>backedoff := b\<rparr>)" for b by (rule quiet_trans[OF 1 quiet_same]) simp_all
  have 3: "quiet c (ackdone now sg a (c1\<lparr>tflags := f, flgcnt := k\<rparr>))" for a f k
    by (rule quiet_trans[OF quiet_trans[OF 1 quiet_same] quiet_ackdone]) simp_all
  have 4: "quiet c (ackdone now sg a (ackrtt sg (ackcongestion sg a c1)))" for a
    using quiet_trans[OF quiet_trans[OF quiet_trans[OF 1 quiet_ackcongestion] quiet_ackrtt] quiet_ackdone] .
  show ?thesis unfolding update_def Let_def c1_def[symmetric] using 1 2 3 4 by simp
qed

lemma update_seg: "fst (update now sg c) = sg\<lparr>upd := True\<rparr>"
  by (cases sg) (simp add: update_def)

text \<open>What \<^const>\<open>quiet\<close> says of the queues.\<close>

lemma quiet_reseqq: "quiet c c' \<Longrightarrow> length (reseqq c') \<le> length (reseqq c)"
  by (auto simp: quiet_defs)

end
