(* ===== verification/Tcp_Input.thy ===== *)
theory Tcp_Input
  imports Tcp_Frame
begin

unbundle bit_operations_syntax

text \<open>
  The input state machine of \<open>src/ip/tcp.c\<close>, from the point in \<open>tcpiput\<close> where the conversation of a
  segment is known and locked, and the other entries of a conversation: the timeouts, the keep alive
  timer and the close.
\<close>

section \<open>Input\<close>

definition sndrst :: "tcpseg \<Rightarrow> string \<Rightarrow> tcpconv \<Rightarrow> tcpconv" where
  "sndrst sg why c = (if RST \<in> flags sg then c else emit (Reset why) c)"

definition unsent :: "tcpconv \<Rightarrow> bool" where
  "unsent c \<longleftrightarrow> int (length (wq c)) + flgcnt c \<noteq> 0"

definition timewait :: "tcpconv \<Rightarrow> tcpconv" where
  "timewait c =
    (let c = c\<lparr>rtt_timer := tcphalt (rtt_timer c), acktimer := tcphalt (acktimer c), katimer := tcphalt (katimer c)\<rparr>;
         c = tcpsetstate Time_wait c
     in c\<lparr>timer := tcpgo ((timer c)\<lparr>start := MSL2 * (1000 div MSPTICK)\<rparr>)\<rparr>)"

text \<open>The switch on the state for a segment with an acknowledgement: \<open>Inl\<close> is \<open>goto raise\<close>.\<close>

definition inputack :: "32 word \<Rightarrow> tcpseg \<Rightarrow> tcpconv \<Rightarrow> tcpconv + (tcpseg \<times> tcpconv)" where
  "inputack now sg c =
    (case state c of
       Syn_received \<Rightarrow>
         if \<not> seq_within (ack sg) (snd_una c + 1) (snd_nxt c) then Inl (sndrst sg ''bad seq in Syn_received'' c)
         else let (sg, c) = update now sg c; c = tcpsetstate Established c in Inr (update now sg c)
     | Established \<Rightarrow> Inr (update now sg c)
     | Close_wait \<Rightarrow> Inr (update now sg c)
     | Finwait1 \<Rightarrow>
         let (sg, c) = update now sg c in
         Inr (sg, if unsent c then c
           else let c = c\<lparr>rtt_timer := tcphalt (rtt_timer c), acktimer := tcphalt (acktimer c)\<rparr>;
                    c = tcpsetkacounter c; c = tcpsetstate Finwait2 (c\<lparr>ttime := now\<rparr>)
                in c\<lparr>katimer := tcpgo ((katimer c)\<lparr>start := MSL2 * (1000 div MSPTICK)\<rparr>)\<rparr>)
     | Finwait2 \<Rightarrow> Inr (update now sg c)
     | Closing \<Rightarrow> let (sg, c) = update now sg c in Inr (sg, if unsent c then c else timewait c)
     | Last_ack \<Rightarrow>
         let (sg, c) = update now sg c in
         if \<not> unsent c then Inl (localclose c)
         else let c = c\<lparr>tflags := insert FORCE (tflags c)\<rparr>
              in Inr (sg, if tst (timer c) \<noteq> TcptimerON then c\<lparr>timer := tcpgo (timer c)\<rparr> else c)
     | Time_wait \<Rightarrow>
         let c = c\<lparr>tflags := insert FORCE (tflags c)\<rparr>
         in Inr (sg, if tst (timer c) \<noteq> TcptimerON then c\<lparr>timer := tcpgo (timer c)\<rparr> else c)
     | _ \<Rightarrow> Inr (sg, c))"

definition inputurg :: "tcpseg \<Rightarrow> 8 word list \<Rightarrow> tcpconv \<Rightarrow> 8 word list \<times> tcpconv" where
  "inputurg sg bp c =
    (if URG \<in> flags sg \<and> urg sg \<noteq> 0
     then if seq_gt (ucast (urg sg) + seq sg) (rcv_urg c)
          then (drop (unat (urg sg)) bp, c\<lparr>rcv_urg := ucast (urg sg) + seq sg\<rparr>) else (bp, c)
     else (bp, if seq_gt (rcv_nxt c) (rcv_urg c) then c\<lparr>rcv_urg := rcv_nxt c\<rparr> else c))"

text \<open>The data of the segment: \<open>Inl\<close> is the return after data in the state \<open>Finwait2\<close>.\<close>

definition inputdata :: "tcpseg \<Rightarrow> 8 word list \<Rightarrow> 16 word \<Rightarrow> tcpconv \<Rightarrow> tcpconv + tcpconv" where
  "inputdata sg bp len c =
    (if len = 0 then Inr c
     else if state c \<in> {Syn_received, Established, Finwait1}
     then let c = c\<lparr>rq := (if rclosed c then rq c else rq c @ bp), rcv_nxt := rcv_nxt c + ucast len\<rparr>
          in Inr (if tst (acktimer c) \<noteq> TcptimerON then c\<lparr>acktimer := tcpgo (acktimer c)\<rparr> else c)
     else if state c = Finwait2 then Inl (sndrst sg ''send to Finwait2'' c)
     else Inr c)"

definition inputfin :: "tcpseg \<Rightarrow> tcpconv \<Rightarrow> tcpconv" where
  "inputfin sg c =
    (if FIN \<notin> flags sg then c
     else let c = c\<lparr>tflags := insert FORCE (tflags c)\<rparr> in
       if state c \<in> {Syn_received, Established} then tcpsetstate Close_wait (c\<lparr>rcv_nxt := rcv_nxt c + 1\<rparr>)
       else if state c = Finwait1 then
         let c = c\<lparr>rcv_nxt := rcv_nxt c + 1\<rparr> in if unsent c then tcpsetstate Closing c else timewait c
       else if state c = Finwait2 then timewait (c\<lparr>rcv_nxt := rcv_nxt c + 1\<rparr>)
       else if state c = Time_wait then c\<lparr>timer := tcpgo (timer c)\<rparr>
       else c)"

text \<open>The loop that takes the next adjacent segment from the resequencing queue.\<close>

function nextseg :: "tcpconv \<Rightarrow> tcpconv + (tcpseg \<times> 8 word list \<times> 16 word \<times> tcpconv)" where
  "nextseg c =
    (case getreseq c of
       None \<Rightarrow> Inl c
     | Some (sg, bp, len, c1) \<Rightarrow>
         if \<not> seq_ge (rcv_nxt c) (seq sg) then Inl c
         else case tcptrim (tcprcvwin c1) sg bp len of
                None \<Rightarrow> nextseg (tcprcvwin c1)
              | Some (c2, sg, bp, len) \<Rightarrow> Inr (sg, bp, len, c2\<lparr>tflags := insert FORCE (tflags c2)\<rparr>))"
  by pat_completeness auto
termination
  by (relation "measure (\<lambda>c. length (reseqq c))") (auto simp: getreseq_def split: list.splits)

text \<open>One round of the loop over the segment and those adjacent to it.\<close>

datatype inputres = Raise tcpconv | Done tcpconv | Output tcpconv | Next tcpseg "8 word list" "16 word" tcpconv

definition input1 :: "32 word \<Rightarrow> tcpseg \<Rightarrow> 8 word list \<Rightarrow> 16 word \<Rightarrow> tcpconv \<Rightarrow> inputres" where
  "input1 now sg bp len c =
    (if RST \<in> flags sg then Raise (localclose c)
     else if ACK \<notin> flags sg then Raise c
     else case inputack now sg c of
       Inl c \<Rightarrow> Raise c
     | Inr (sg, c) \<Rightarrow>
       let (bp, c) = inputurg sg bp c in
       case inputdata sg bp len c of
         Inl c \<Rightarrow> Done c
       | Inr c \<Rightarrow>
         case nextseg (inputfin sg c) of
           Inl c \<Rightarrow> Output c
         | Inr (sg, bp, len, c) \<Rightarrow> Next sg bp len c)"

section \<open>The loop over adjacent segments ends\<close>

lemma tcptrim_reseqq: "tcptrim c sg bp len = Some (c', r) \<Longrightarrow> reseqq c' = reseqq c"
  by (auto simp: tcptrim_def trimfront_def trimback_def emit_def Let_def split: if_splits prod.splits)

lemma tcpsetstate_reseqq [simp]: "reseqq (tcpsetstate new c) = reseqq c"
  by (cases new) (simp_all add: tcpsetstate_def emit_def Let_def)

lemma timewait_reseqq [simp]: "reseqq (timewait c) = reseqq c"
  by (simp add: timewait_def Let_def)

lemma tcpsetkacounter_reseqq [simp]: "reseqq (tcpsetkacounter c) = reseqq c"
  by (simp add: tcpsetkacounter_def Let_def)

lemma update_reseqq: "length (reseqq (snd (update now sg c))) \<le> length (reseqq c)"
  by (rule quiet_reseqq[OF quiet_update])

lemma getreseq_shorter: "getreseq c = Some (sg, bp, len, c') \<Longrightarrow> length (reseqq c') < length (reseqq c)"
  by (auto simp: getreseq_def split: list.splits)

lemma nextseg_shorter: "nextseg c = Inr (sg, bp, len, c') \<Longrightarrow> length (reseqq c') < length (reseqq c)"
proof (induction c rule: nextseg.induct)
  case (1 c)
  obtain sg1 bp1 len1 c1 where g: "getreseq c = Some (sg1, bp1, len1, c1)"
    using "1.prems" by (cases "getreseq c") (auto simp: nextseg.simps[of c])
  have s: "seq_ge (rcv_nxt c) (seq sg1)" using "1.prems" by (auto simp: nextseg.simps[of c] g split: if_splits)
  show ?case
  proof (cases "tcptrim (tcprcvwin c1) sg1 bp1 len1")
    case None
    have "length (reseqq c') < length (reseqq (tcprcvwin c1))"
      using "1.IH"[OF g refl refl refl _ None] "1.prems" s None by (simp add: nextseg.simps[of c] g)
    with getreseq_shorter[OF g] show ?thesis by simp
  next
    case (Some x)
    then obtain c2 y where x: "tcptrim (tcprcvwin c1) sg1 bp1 len1 = Some (c2, y)" by (cases x) auto
    have "reseqq c' = reseqq c2" using "1.prems" s by (auto simp: nextseg.simps[of c] g x split: prod.splits)
    with tcptrim_reseqq[OF x] getreseq_shorter[OF g] show ?thesis by simp
  qed
qed

lemma inputack_reseqq: "inputack now sg c = Inr (sg', c') \<Longrightarrow> length (reseqq c') \<le> length (reseqq c)"
  using update_reseqq[of now sg c] update_reseqq[of now "fst (update now sg c)" "tcpsetstate Established (snd (update now sg c))"]
  by (cases "state c") (auto simp: inputack_def Let_def split: if_splits prod.splits)

lemma input1_shorter:
  assumes "input1 now sg bp len c = Next sg' bp' len' c'"
  shows "length (reseqq c') < length (reseqq c)"
proof -
  obtain sg1 c1 where a: "inputack now sg c = Inr (sg1, c1)"
    using assms by (cases "inputack now sg c") (auto simp: input1_def split: if_splits)
  obtain bp2 c2 where u: "inputurg sg1 bp c1 = (bp2, c2)" by fastforce
  obtain c3 where d: "inputdata sg1 bp2 len c2 = Inr c3"
    using assms a u by (cases "inputdata sg1 bp2 len c2") (auto simp: input1_def split: if_splits)
  have n: "nextseg (inputfin sg1 c3) = Inr (sg', bp', len', c')"
    using assms a u d by (auto simp: input1_def split: if_splits sum.splits)
  have "reseqq (inputfin sg1 c3) = reseqq c3" by (simp add: inputfin_def Let_def)
  moreover have "reseqq c3 = reseqq c2" using d by (auto simp: inputdata_def Let_def split: if_splits)
  moreover have "reseqq c2 = reseqq c1" using u by (auto simp: inputurg_def split: if_splits)
  ultimately show ?thesis using nextseg_shorter[OF n] inputack_reseqq[OF a] by simp
qed

function tcploop :: "32 word \<Rightarrow> tcpseg \<Rightarrow> 8 word list \<Rightarrow> 16 word \<Rightarrow> tcpconv \<Rightarrow> tcpconv" where
  "tcploop now sg bp len c =
    (case input1 now sg bp len c of
       Raise c \<Rightarrow> tcpkick now c
     | Done c \<Rightarrow> c
     | Output c \<Rightarrow> tcpoutput now c
     | Next sg bp len c \<Rightarrow> tcploop now sg bp len c)"
  by pat_completeness auto
termination
  by (relation "measure (\<lambda>(now, sg, bp, len, c). length (reseqq c))") (auto dest: input1_shorter)

section \<open>Segments that arrive\<close>

definition syn_sent :: "32 word \<Rightarrow> tcpseg \<Rightarrow> 16 word \<Rightarrow> tcpconv \<Rightarrow> inputres + (tcpseg \<times> tcpconv)" where
  "syn_sent now sg len c =
    (if ACK \<in> flags sg \<and> \<not> seq_within (ack sg) (iss c + 1) (snd_nxt c)
     then Inl (Raise (sndrst sg ''bad seq in Syn_sent'' c))
     else if RST \<in> flags sg then Inl (Raise (if ACK \<in> flags sg then localclose c else c))
     else if SYN \<notin> flags sg then Inl (Done c)
     else let c = procsyn sg c;
       (sg, c) = (if ACK \<in> flags sg
         then let (sg, c) = update now sg c; c = tcpsetstate Established (tcpsynackrtt now c)
              in (sg, tcpsetscale (ws sg) (scale c) c)
         else (sg, tcpsetstate Syn_received (c\<lparr>ttime := now\<rparr>)))
     in if len \<noteq> 0 \<or> FIN \<in> flags sg then Inr (sg, c) else Inl (Output c))"

definition stateless_hog :: "tcpseg \<Rightarrow> tcpconv \<Rightarrow> tcpconv" where
  "stateless_hog sg c =
    (if state c \<noteq> Syn_received \<and> RST \<notin> flags sg \<and> hogdefense c \<and>
        seq_within (ack sg) (snd_una c - 2 ^ 31) (snd_una c - 2 ^ 29)
     then localclose c else c)"

text \<open>A segment no part of which is in the window.\<close>

definition notinwindow :: "32 word \<Rightarrow> tcpseg \<Rightarrow> tcpconv \<Rightarrow> tcpconv" where
  "notinwindow now sg c =
    (let (sg, c) = update now sg c; c = (if \<not> unsent c \<and> state c = Closing then timewait c else c)
     in if RST \<notin> flags sg then tcpoutput now (c\<lparr>tflags := insert FORCE (tflags c)\<rparr>) else c)"

text \<open>From the cut to the window; \<open>mem\<close> is the outcome of the allocation of a queue entry.\<close>

definition inputwin :: "32 word \<Rightarrow> bool \<Rightarrow> tcpseg \<Rightarrow> 8 word list \<Rightarrow> 16 word \<Rightarrow> tcpconv \<Rightarrow> tcpconv" where
  "inputwin now mem sg bp len c =
    (let c = tcprcvwin c in
     case tcptrim c sg bp len of
       None \<Rightarrow> notinwindow now sg c
     | Some (c, sg, bp, len) \<Rightarrow>
         if len \<noteq> 0 \<and> state c = Closed then tcpkick now (sndrst sg ''sending to Closed'' c)
         else if seq sg \<noteq> rcv_nxt c \<and> (len \<noteq> 0 \<or> SYN \<in> flags sg \<or> FIN \<in> flags sg)
         then let (sg, c) = update now sg c; c = snd (addreseq mem c sg bp len)
              in tcpoutput now (c\<lparr>tflags := insert FORCE (tflags c)\<rparr>)
         else tcploop now sg bp len (if nreseq c > 0 then c\<lparr>tflags := insert FORCE (tflags c)\<rparr> else c))"

definition inputseg :: "32 word \<Rightarrow> bool \<Rightarrow> tcpseg \<Rightarrow> 8 word list \<Rightarrow> 16 word \<Rightarrow> tcpconv \<Rightarrow> tcpconv" where
  "inputseg now mem sg bp len c = inputwin now mem sg bp len (stateless_hog sg c)"

definition inputend :: "32 word \<Rightarrow> inputres \<Rightarrow> tcpconv" where
  "inputend now r = (case r of Raise c \<Rightarrow> tcpkick now c | Done c \<Rightarrow> c | Output c \<Rightarrow> tcpoutput now c | Next sg bp len c \<Rightarrow> tcploop now sg bp len c)"

definition tcpiput :: "32 word \<Rightarrow> bool \<Rightarrow> tcpseg \<Rightarrow> 8 word list \<Rightarrow> 16 word \<Rightarrow> tcpconv \<Rightarrow> tcpconv" where
  "tcpiput now mem sg bp len c =
    (let sg = sg\<lparr>wnd := push_bit (rcv_scale c) (wnd sg)\<rparr>; c = tcpsetkacounter c in
     case state c of
       Closed \<Rightarrow> tcpkick now (sndrst sg ''sending to Closed'' c)
     | Syn_sent \<Rightarrow> (case syn_sent now sg len c of Inl r \<Rightarrow> inputend now r | Inr (sg, c) \<Rightarrow> inputseg now mem sg bp len c)
     | Syn_received \<Rightarrow> inputseg now mem sg bp len (if ACK \<in> flags sg then tcpsynackrtt now c else c)
     | _ \<Rightarrow> inputseg now mem sg bp len c)"

section \<open>Timeouts\<close>

definition tcptimeout :: "32 word \<Rightarrow> tcpconv \<Rightarrow> tcpconv" where
  "tcptimeout now c =
    (case state c of
       Time_wait \<Rightarrow> localclose c
     | Closed \<Rightarrow> c
     | _ \<Rightarrow>
       let c = c\<lparr>backoff := (backoff c + 1) mod 256\<rparr>;
           maxback = (if state c = Syn_sent then MAXBACKMS div 2 else MAXBACKMS);
           c = c\<lparr>backedoff := s32 (backedoff c + start (timer c) * MSPTICK)\<rparr>
       in if backedoff c \<ge> maxback then localclose c
          else let c = tcpsettimer c;
            c = (if \<not> snd_rto c then tcpcongestion c else c);
            c = tcprxmit now c;
            c = c\<lparr>snd_ptr := snd_una c, cwind := mss32 c, snd_rto := True\<rparr>;
            c = (if snd_recovery c then c\<lparr>snd_dupacks := 0, snd_recovery := False, snd_rxt := snd_nxt c\<rparr> else c)
          in c\<lparr>abcbytes := 0\<rparr>)"

text \<open>The probe is sent from outside the stream: \<open>rnd\<close> is \<open>nrand(1<<20)\<close>, \<open>b\<close> the byte found in the new block.\<close>

definition tcpsendka :: "32 word \<Rightarrow> 8 word \<Rightarrow> tcpconv \<Rightarrow> tcpconv" where
  "tcpsendka rnd b c =
    (let c = tcprcvwin (c\<lparr>rcv_ackptr := rcv_nxt c\<rparr>);
         sg = \<lparr>seq = (if hogdefense c then snd_una c - 2 ^ 30 - rnd else snd_una c - 1), ack = rcv_nxt c,
           flags = {ACK, PSH} \<union> (if state c = Finwait2 then {FIN} else {}), upd = False, ws = 0, wnd = rcv_wnd c, urg = 0,
           mssopt = 0\<rparr>;
         bp = (if state c = Finwait2 then [] else [b]);
         r = net c (npkt c); c = c\<lparr>npkt := npkt c + 1\<rparr>
     in if r = Okay then emit (Probe sg bp) c else c)"

definition tcpkeepalive :: "32 word \<Rightarrow> 8 word \<Rightarrow> tcpconv \<Rightarrow> tcpconv" where
  "tcpkeepalive rnd b c =
    (if state c = Closed then c
     else let c = c\<lparr>kacounter := kacounter c - 1\<rparr> in
       if kacounter c \<le> 0 then localclose c
       else let c = tcpsendka rnd b c in c\<lparr>katimer := tcpgo (katimer c)\<rparr>)"

text \<open>The control message \<open>keepalive\<close>; \<open>x\<close> is the number of its argument. \<open>Inl\<close> is the error string.\<close>

definition tcpstartka :: "int option \<Rightarrow> tcpconv \<Rightarrow> string + tcpconv" where
  "tcpstartka x c =
    (if state c \<noteq> Established then Inl ''connection must be in Establised state''
     else let c = (case x of Some x \<Rightarrow> if x \<ge> MSPTICK then c\<lparr>katimer := (katimer c)\<lparr>start := x sdiv MSPTICK\<rparr>\<rparr> else c | None \<Rightarrow> c);
              c = tcpsetkacounter c
          in Inr (c\<lparr>katimer := tcpgo (katimer c)\<rparr>))"

section \<open>The close of a conversation\<close>

definition tcpclose :: "32 word \<Rightarrow> tcpconv \<Rightarrow> tcpconv" where
  "tcpclose now c =
    (let c = c\<lparr>rclosed := True, rq := []\<rparr> in
     case state c of
       Listen \<Rightarrow> localclose (emit (Connected False) c)
     | Closed \<Rightarrow> localclose c
     | Syn_sent \<Rightarrow> localclose c
     | Syn_received \<Rightarrow> tcpoutput now (tcpsetstate Finwait1 (c\<lparr>flgcnt := flgcnt c + 1, snd_nxt := snd_nxt c + 1\<rparr>))
     | Established \<Rightarrow> tcpoutput now (tcpsetstate Finwait1 (c\<lparr>flgcnt := flgcnt c + 1, snd_nxt := snd_nxt c + 1\<rparr>))
     | Close_wait \<Rightarrow> tcpoutput now (tcpsetstate Last_ack (c\<lparr>flgcnt := flgcnt c + 1, snd_nxt := snd_nxt c + 1\<rparr>))
     | _ \<Rightarrow> c)"

text \<open>
  The control message \<open>hangup\<close>; \<open>remote\<close> says that the conversation has a remote address. A header that cannot be
  allocated is handed to \<open>ipoput\<close> all the same.
\<close>

definition tcphangup :: "bool \<Rightarrow> tcpconv \<Rightarrow> tcpconv" where
  "tcphangup remote c =
    (let c = (if remote
       then let c = c\<lparr>rcv_ackptr := rcv_nxt c\<rparr>;
                r = net c (npkt c); c = c\<lparr>npkt := npkt c + 1\<rparr>
            in if r = Nomem then emit (Panicked ''nil block'') c else emit (Reset ''hangup'') c
       else c)
     in localclose c)"

text \<open>An error reported by the network, and the search for stale conversations, at one conversation.\<close>

definition tcpadvise :: "tcpconv \<Rightarrow> tcpconv" where
  "tcpadvise c = (if state c = Syn_sent then localclose c else c)"

definition tcpgc :: "32 word \<Rightarrow> tcpconv \<Rightarrow> tcpconv" where
  "tcpgc now c =
    (case state c of
       Syn_received \<Rightarrow> if now - ttime c > 5000 then localclose c else c
     | Finwait2 \<Rightarrow> if now - ttime c > 5 * 60 * 1000 then localclose c else c
     | _ \<Rightarrow> c)"

section \<open>The beginning of a conversation\<close>

definition DEF_MSS :: "16 word" where "DEF_MSS = 1460"
definition DEF_MSS6 :: "16 word" where "DEF_MSS6 = 1280"
definition DEF_KAT :: int where "DEF_KAT = 120000"
definition TCP_ACK :: int where "TCP_ACK = 50"
definition MAX_TIME :: int where "MAX_TIME = 2 ^ 20"
definition SYNACK_RXTIMER :: "32 word" where "SYNACK_RXTIMER = 250"
definition Defadvscale :: nat where "Defadvscale = 4"

text \<open>\<open>memset(tcb, 0, sizeof(Tcpctl))\<close>: the queues and the network are not part of the control block.\<close>

definition zerotcb :: "tcpconv \<Rightarrow> tcpconv" where
  "zerotcb c = (let off = \<lparr>tst = TcptimerOFF, start = 0, tcount = 0\<rparr> in
    \<lparr>state = Closed,
     snd_una = 0, snd_nxt = 0, snd_ptr = 0, snd_wnd = 0, snd_urg = 0, snd_wl2 = 0, snd_scale = 0, snd_dupacks = 0,
     snd_partialack = 0, snd_recovery = False, snd_retransmit = False, snd_rto = False, snd_rxt = 0,
     rcv_nxt = 0, rcv_wnd = 0, rcv_wsnt = 0, rcv_wptr = 0, rcv_urg = 0, rcv_ackptr = 0, rcv_blocked = False, rcv_scale = 0,
     iss = 0, cwind = 0, abcbytes = 0, scale = 0, ssthresh = 0, irs = 0, mss = 0, rerecv = 0, window = 0, qscale = 0,
     backoff = 0, backedoff = 0, tflags = {}, reseqq = [], nreseq = 0, reseqlen = 0,
     timer = off, acktimer = off, rtt_timer = off, katimer = off, rttseq = 0, srtt = 0, mdev = 0, kacounter = 0,
     sndsyntime = 0, ttime = 0, timeuna = 0, flgcnt = 0,
     rq = rq c, wq = wq c, rclosed = rclosed c, net = net c, npkt = npkt c, hogdefense = hogdefense c, evs = evs c\<rparr>)"

text \<open>\<open>irtt\<close> is \<open>tcp_irtt\<close>; \<open>v6\<close> says that the conversation is neither a listener nor over IPv4.\<close>

definition inittcpctl :: "int \<Rightarrow> bool \<Rightarrow> tcpconv \<Rightarrow> tcpconv" where
  "inittcpctl irtt v6 c =
    (let c = zerotcb c;
         c = c\<lparr>ssthresh := QMAX, srtt := s32 (push_bit 3 irtt), mdev := 0,
               timer := (timer c)\<lparr>start := irtt sdiv MSPTICK\<rparr>, rtt_timer := (rtt_timer c)\<lparr>start := MAX_TIME\<rparr>,
               acktimer := (acktimer c)\<lparr>start := TCP_ACK div MSPTICK\<rparr>, katimer := (katimer c)\<lparr>start := DEF_KAT div MSPTICK\<rparr>\<rparr>;
         m = (if v6 then DEF_MSS6 else DEF_MSS)
     in tcpsetscale 0 0 (c\<lparr>mss := m, cwind := ucast m, abcbytes := 0\<rparr>))"

text \<open>\<open>isn\<close> is the random sequence number, \<open>mtu\<close> the result of \<open>tcpmtu\<close>.\<close>

definition tcpsndsyn :: "32 word \<Rightarrow> seqno \<Rightarrow> 16 word \<Rightarrow> tcpconv \<Rightarrow> tcpconv" where
  "tcpsndsyn now isn mtu c =
    c\<lparr>iss := isn, rttseq := isn, snd_wl2 := isn, snd_una := isn, snd_rxt := isn, snd_ptr := isn, snd_nxt := isn,
      flgcnt := flgcnt c + 1, tflags := insert FORCE (tflags c), sndsyntime := now, scale := Defadvscale, mss := mtu\<rparr>"

definition tcpstart_connect :: "32 word \<Rightarrow> int \<Rightarrow> bool \<Rightarrow> seqno \<Rightarrow> 16 word \<Rightarrow> tcpconv \<Rightarrow> tcpconv" where
  "tcpstart_connect now irtt v6 isn mtu c =
    (let c = inittcpctl irtt v6 c; c = tcpsndsyn now isn mtu (c\<lparr>tflags := insert ACTIVE (tflags c)\<rparr>)
     in tcpoutput now (tcpsetstate Syn_sent c))"

definition tcpstart_listen :: "int \<Rightarrow> tcpconv \<Rightarrow> tcpconv" where
  "tcpstart_listen irtt c =
    (let c = inittcpctl irtt False c in tcpsetstate Listen (c\<lparr>tflags := insert CLONE (tflags c)\<rparr>))"

text \<open>A call in limbo, and the conversation made of it: \<open>l\<close> is the listener, \<open>c\<close> the conversation of \<open>Fsnewcall\<close>.\<close>

record limbocall =
  lirs :: seqno
  liss :: seqno
  lmss :: "16 word"
  lrcvscale :: nat
  lsndscale :: nat
  lastsend :: "32 word"
  rexmits :: "8 word"

definition copytcb :: "tcpconv \<Rightarrow> tcpconv \<Rightarrow> tcpconv" where
  "copytcb l c = l\<lparr>rq := rq c, wq := wq c, rclosed := rclosed c, net := net c, npkt := npkt c, evs := evs c\<rparr>"

definition newcall :: "32 word \<Rightarrow> limbocall \<Rightarrow> tcpseg \<Rightarrow> tcpconv \<Rightarrow> tcpconv \<Rightarrow> tcpconv" where
  "newcall now lp sg l c =
    (let c = copytcb l c;
         c = c\<lparr>tflags := tflags c - {CLONE}, timer := tcphalt (timer c), acktimer := tcphalt (acktimer c),
               katimer := tcphalt (katimer c), rtt_timer := tcphalt (rtt_timer c)\<rparr>;
         c = c\<lparr>irs := lirs lp, rcv_nxt := lirs lp + 1, rcv_wptr := lirs lp + 1, rcv_wsnt := 0, rcv_urg := lirs lp + 1\<rparr>;
         c = c\<lparr>iss := liss lp, rttseq := liss lp, snd_wl2 := liss lp, snd_una := liss lp + 1, snd_ptr := liss lp + 1,
               snd_nxt := liss lp + 1, snd_rxt := liss lp + 1, flgcnt := 0, tflags := insert SYNACK (tflags c)\<rparr>;
         c = (if lmss lp \<noteq> 0 \<and> lmss lp < mss c then c\<lparr>mss := lmss lp\<rparr> else c);
         c = tcpsetscale (lrcvscale lp) (lsndscale lp) c;
         c = initialwindow (c\<lparr>snd_wnd := wnd sg\<rparr>);
         c = tcpsynackrtt now (c\<lparr>sndsyntime := lastsend lp + ucast (rexmits lp) * SYNACK_RXTIMER\<rparr>)
     in tcpsetstate Established c)"

end
