(* ===== verification/Tcp_Correct.thy ===== *)
theory Tcp_Correct
  imports Tcp_Input "HOL-Library.Sublist"
begin

text \<open>
  The receiving side of a conversation delivers the stream of its peer: whatever segments of the
  stream arrive, in whatever order, cut and repeated as they may be, the bytes read and the bytes
  waiting are a prefix of the stream, and a reader that sees the end has seen all of it.
\<close>

section \<open>Sequence numbers as positions\<close>

lemma seq_within_diff: "seq_within x low (low + d) \<longleftrightarrow> x - low \<le> d"
  unfolding seq_within_def by uint_arith

text \<open>Position \<open>p\<close> of a stream whose SYN has the sequence number \<open>isn\<close>: the SYN is at 0, the first byte at 1.\<close>

definition seqat :: "seqno \<Rightarrow> nat \<Rightarrow> seqno" where
  "seqat isn p = isn + word_of_nat p"

lemma seqat_diff: "seqat isn a - seqat isn b = word_of_int (int a - int b)"
  by (simp add: seqat_def)

lemma seqat_add: "seqat isn a + word_of_nat n = seqat isn (a + n)"
  by (simp add: seqat_def)

lemma sint_seqat: "\<bar>int a - int b\<bar> < 2 ^ 31 \<Longrightarrow> sint (seqat isn a - seqat isn b) = int a - int b"
  unfolding seqat_diff by (rule sint32_small) auto

lemma uint_seqat: "uint (seqat isn a - seqat isn b) = (int a - int b) mod 2 ^ 32"
  unfolding seqat_diff by (simp only: uint_word_of_int) simp

lemma seqat_eq: "\<bar>int a - int b\<bar> < 2 ^ 31 \<Longrightarrow> seqat isn a = seqat isn b \<longleftrightarrow> a = b"
  using sint_seqat[of a b isn] by auto

lemma seqat_within:
  assumes "\<bar>int a - int b\<bar> < 2 ^ 31" "n < 2 ^ 31"
  shows "seqat isn a - seqat isn b \<le> word_of_nat n \<longleftrightarrow> b \<le> a \<and> a \<le> b + n"
proof -
  have n: "uint (word_of_nat n :: 32 word) = int n" using assms(2) by (simp add: unsigned_of_nat take_bit_nat_eq_self)
  show ?thesis
  proof (cases "b \<le> a")
    case True
    hence "uint (seqat isn a - seqat isn b) = int a - int b" using assms(1) unfolding uint_seqat by (intro mod_pos_pos_trivial) auto
    thus ?thesis using n True by (simp add: word_le_def) linarith
  next
    case False
    have "(int a - int b) mod 2 ^ 32 = (int a - int b + 2 ^ 32) mod 2 ^ 32" by (rule mod_add_self2[symmetric])
    also have "\<dots> = int a - int b + 2 ^ 32" using assms(1) False by (intro mod_pos_pos_trivial) auto
    finally have "(int a - int b) mod 2 ^ 32 = int a - int b + 2 ^ 32" .
    thus ?thesis using n False assms by (simp add: word_le_def uint_seqat)
  qed
qed

section \<open>Segments of a stream\<close>

text \<open>
  A segment of the stream \<open>S\<close> at position \<open>s\<close>: its data are the bytes of the stream there, a SYN is at
  position 0 and a FIN is at the end. Nothing is asked of its acknowledgement, its window or its RST.
  It has no URG flag: of an urgent segment \<open>tcpiput\<close> drops the bytes up to the urgent pointer, though it
  acknowledges them, so that the stream would have a hole.
\<close>

definition dstart :: "nat \<Rightarrow> tcpseg \<Rightarrow> nat" where
  "dstart s sg = (if SYN \<in> flags sg then s + 1 else s)"

definition genuine :: "8 word list \<Rightarrow> seqno \<Rightarrow> nat \<Rightarrow> tcpseg \<Rightarrow> 8 word list \<Rightarrow> bool" where
  "genuine S isn s sg bp \<longleftrightarrow> seq sg = seqat isn s \<and> URG \<notin> flags sg \<and> (SYN \<in> flags sg \<longrightarrow> s = 0) \<and> 1 \<le> dstart s sg \<and>
    prefix bp (drop (dstart s sg - 1) S) \<and> (FIN \<in> flags sg \<longrightarrow> dstart s sg - 1 + length bp = length S) \<and> length bp + 2 < 2 ^ 16"

definition seglen :: "tcpseg \<Rightarrow> 8 word list \<Rightarrow> nat" where
  "seglen sg bp = length bp + (if SYN \<in> flags sg then 1 else 0) + (if FIN \<in> flags sg then 1 else 0)"

lemma unat16: "n < 2 ^ 16 \<Longrightarrow> unat (word_of_nat n :: 16 word) = n"
  by (simp add: unsigned_of_nat take_bit_nat_eq_self)

lemma ucast16: "n < 2 ^ 16 \<Longrightarrow> ucast (word_of_nat n :: 16 word) = (word_of_nat n :: 32 word)"
  by (simp add: unsigned_of_nat take_bit_nat_eq_self)

lemma seglen_word:
  assumes "genuine S isn s sg bp"
  shows "word_of_nat (length bp) + (if SYN \<in> flags sg then 1 else 0) + (if FIN \<in> flags sg then 1 else 0) = (word_of_nat (seglen sg bp) :: 16 word)"
    and "seglen sg bp < 2 ^ 16"
  using assms by (auto simp: seglen_def genuine_def)

lemma trimaccept_overlap:
  assumes g: "genuine S isn s sg bp" and n: "rcv_nxt c = seqat isn p" and w: "rcv_wnd c = word_of_nat W" "0 < W" "W \<le> 2 ^ 20"
    and near: "\<bar>int s - int p\<bar> < 2 ^ 30" and a: "trimaccept c sg (word_of_nat (seglen sg bp))"
  shows "p \<le> s \<and> s < p + W \<or> s < p \<and> p < s + seglen sg bp"
proof -
  let ?l = "seglen sg bp"
  have l: "?l < 2 ^ 16" by (rule seglen_word(2)[OF g])
  have sq: "seq sg = seqat isn s" using g by (simp add: genuine_def)
  have w1: "rcv_nxt c + rcv_wnd c - 1 = seqat isn p + word_of_nat (W - 1)" using w by (simp add: n of_nat_diff)
  have in1: "inwindow c (seqat isn x) \<longleftrightarrow> p \<le> x \<and> x < p + W" if "\<bar>int x - int p\<bar> < 2 ^ 31" for x
  proof -
    have "inwindow c (seqat isn x) \<longleftrightarrow> seqat isn x - seqat isn p \<le> word_of_nat (W - 1)"
      unfolding inwindow_def w1 by (simp only: n seq_within_diff)
    also have "\<dots> \<longleftrightarrow> p \<le> x \<and> x \<le> p + (W - 1)" using w by (intro seqat_within[OF that]) simp
    finally show ?thesis using w by auto
  qed
  have e: "seq sg + ucast (word_of_nat ?l :: 16 word) - 1 = seqat isn (s + ?l - 1)" if "0 < ?l"
  proof -
    have "seqat isn (s + ?l - 1) = seqat isn s + word_of_nat (?l - 1)" using that by (simp only: seqat_add) simp
    thus ?thesis using that by (simp add: sq ucast16[OF l] of_nat_diff)
  qed
  have e2: "seqat isn (s + ?l - 1) = seq sg + word_of_nat (?l - 1)" if "0 < ?l" using that by (simp only: sq seqat_add) simp
  have nz: "0 < ?l" if "word_of_nat ?l \<noteq> (0 :: 16 word)" using that by (cases "?l = 0") auto
  from a consider "inwindow c (seq sg)" | "0 < ?l" "inwindow c (seqat isn (s + ?l - 1))"
    | "0 < ?l" "seq_within (rcv_nxt c) (seq sg) (seq sg + word_of_nat (?l - 1))"
    unfolding trimaccept_def using e e2 nz by metis
  thus ?thesis
  proof cases
    case 1
    with near in1[of s] show ?thesis by (simp add: sq)
  next
    case 2
    have "p \<le> s + ?l - 1 \<and> s + ?l - 1 < p + W" using 2 near l in1[of "s + ?l - 1"] by auto
    thus ?thesis using 2(1) by linarith
  next
    case 3
    have "s \<le> p \<and> p \<le> s + (?l - 1)"
      using 3(2) near l unfolding seq_within_diff n sq by (subst (asm) seqat_within) auto
    thus ?thesis using 3(1) w(2) by linarith
  qed
qed

text \<open>What a cut leaves: a segment of the same stream that begins at the receive pointer or later, fits the window and
  has no SYN.\<close>

definition fits :: "8 word list \<Rightarrow> seqno \<Rightarrow> nat \<Rightarrow> nat \<Rightarrow> nat \<Rightarrow> tcpseg \<Rightarrow> 8 word list \<Rightarrow> bool" where
  "fits S isn p W s sg bp \<longleftrightarrow> genuine S isn s sg bp \<and> SYN \<notin> flags sg \<and> p \<le> s \<and> s + length bp \<le> p + W"

lemma prefix_drop: "prefix xs (drop n ys) \<Longrightarrow> k \<le> length xs \<Longrightarrow> prefix (drop k xs) (drop (n + k) ys)"
  by (auto simp: prefix_def) (metis append_same_eq drop_append drop_drop add.commute diff_is_0_eq drop0)

lemma genuine_take:
  assumes "genuine S isn s sg bp"
  shows "genuine S isn s (sg\<lparr>flags := flags sg - {FIN}\<rparr>) (take n bp)"
  using assms prefix_order.order_trans[OF take_is_prefix[of n bp]] by (auto simp: genuine_def dstart_def)

text \<open>The front of an old segment.\<close>

lemma trimfront_genuine:
  assumes g: "genuine S isn s sg bp" and n: "rcv_nxt c = seqat isn p" and near: "\<bar>int s - int p\<bar> < 2 ^ 30"
    and o: "s < p" "p < s + seglen sg bp"
  obtains sg' bp' d where "trimfront c sg bp (word_of_nat (length bp)) = (c\<lparr>rerecv := d\<rparr>, sg', bp', word_of_nat (length bp'))"
    "genuine S isn p sg' bp'" "SYN \<notin> flags sg'" "length bp' \<le> length bp" "flags sg' \<subseteq> flags sg"
proof -
  have dup: "sint (rcv_nxt c - seq sg) = int p - int s" using g near o(1) sint_seqat[of p s isn] by (simp add: n genuine_def)
  define k where "k = p - dstart s sg"
  have k: "k \<le> length bp" using o by (auto simp: k_def dstart_def seglen_def split: if_splits)
  moreover have "length bp + 2 < 2 ^ 16" using g by (simp add: genuine_def)
  ultimately have k2: "k < 2 ^ 16" by simp
  have ds: "dstart s sg \<le> p" using o by (simp add: dstart_def)
  define sg1 where "sg1 = fst (trimsyn sg (int p - int s))"
  have sg1: "seq sg1 = seqat isn (dstart s sg)" "URG \<notin> flags sg1" "flags sg1 = flags sg - {SYN}"
    using g by (auto simp: sg1_def trimsyn_def genuine_def dstart_def Let_def seqat_def)
  have ik: "trimsyn sg (int p - int s) = (sg1, int k)" using ds by (auto simp: sg1_def trimsyn_def k_def dstart_def Let_def)
  have tf: "trimfront c sg bp (word_of_nat (length bp)) =
    (c\<lparr>rerecv := rerecv c + (int p - int s)\<rparr>, trimold (int k) sg1 bp (word_of_nat (length bp)))"
    using o(1) by (simp add: trimfront_def dup ik)
  define sg2 where "sg2 = fst (trimold (int k) sg1 bp (word_of_nat (length bp)))"
  have s2: "seq sg2 = seqat isn p" "URG \<notin> flags sg2" "flags sg2 = flags sg - {SYN}"
    using sg1 seqat_add[of isn "dstart s sg" k] ds k_def by (auto simp: sg2_def trimold_def Let_def)
  have to: "trimold (int k) sg1 bp (word_of_nat (length bp)) = (sg2, drop k bp, word_of_nat (length (drop k bp)))"
    using k unat16[OF k2] by (simp add: sg2_def trimold_def Let_def of_nat_diff)
  have d1: "1 \<le> dstart s sg" using g by (simp add: genuine_def)
  have pk: "dstart s sg - 1 + k = p - 1" using ds d1 by (simp add: k_def)
  have pl: "p - 1 + length (drop k bp) = dstart s sg - 1 + length bp" using k ds d1 by (simp add: k_def)
  have pre: "prefix (drop k bp) (drop (p - 1) S)"
    using prefix_drop[of bp "dstart s sg - 1" S k] g k unfolding pk genuine_def by blast
  have fin: "FIN \<in> flags sg2 \<longrightarrow> p - 1 + length (drop k bp) = length S"
    using g unfolding pl s2(3) genuine_def by blast
  have dp: "dstart p sg2 = p" "1 \<le> p" "SYN \<notin> flags sg2" using s2(3) o(1) by (simp_all add: dstart_def)
  have "length bp + 2 < 2 ^ 16" using g unfolding genuine_def by blast
  hence "length (drop k bp) + 2 < 2 ^ 16" by simp
  with pre fin dp s2(1,2) have "genuine S isn p sg2 (drop k bp)" unfolding genuine_def by metis
  moreover have "trimfront c sg bp (word_of_nat (length bp)) =
    (c\<lparr>rerecv := rerecv c + (int p - int s)\<rparr>, sg2, drop k bp, word_of_nat (length (drop k bp)))" by (simp only: tf to)
  moreover have "length (drop k bp) \<le> length bp" "flags sg2 \<subseteq> flags sg" using s2(3) by auto
  ultimately show thesis using dp(3) that by metis
qed

lemma trimback_genuine:
  assumes g: "genuine S isn s sg bp" and n: "rcv_nxt c = seqat isn p" and w: "rcv_wnd c = word_of_nat W" "W \<le> 2 ^ 20"
    and s: "p \<le> s" "s < p + 2 ^ 30" "s \<le> p + W" "SYN \<notin> flags sg"
  obtains sg' bp' d where "trimback (c, sg, bp, word_of_nat (length bp)) = (c\<lparr>rerecv := d\<rparr>, sg', bp', word_of_nat (length bp'))"
    "fits S isn p W s sg' bp'" "flags sg' \<subseteq> flags sg"
proof -
  have l: "length bp + 2 < 2 ^ 16" using g by (simp add: genuine_def)
  have sq: "seq sg = seqat isn s" using g by (simp add: genuine_def)
  have "seq sg + ucast (word_of_nat (length bp) :: 16 word) - (rcv_nxt c + rcv_wnd c) = seqat isn (s + length bp) - seqat isn (p + W)"
    using l by (simp add: sq n w ucast16 seqat_add)
  hence ex: "sint (seq sg + ucast (word_of_nat (length bp) :: 16 word) - (rcv_nxt c + rcv_wnd c)) = int (s + length bp) - int (p + W)"
    using sint_seqat[of "s + length bp" "p + W" isn] s w l by simp
  show thesis
  proof (cases "s + length bp \<le> p + W")
    case True
    have "trimback (c, sg, bp, word_of_nat (length bp)) = (c\<lparr>rerecv := rerecv c\<rparr>, sg, bp, word_of_nat (length bp))"
      using True by (simp add: trimback_def ex)
    thus thesis using that[of "rerecv c" sg bp] g s True by (simp add: fits_def)
  next
    case False
    define k where "k = p + W - s"
    have k: "k < length bp" "int (s + length bp) - int (p + W) = int (length bp - k)" "s + k = p + W"
      using False s(3) by (auto simp: k_def)
    have "(word_of_nat (length bp) :: 16 word) - word_of_int (int (length bp - k)) = word_of_nat k"
      using k(1) by (simp add: of_nat_diff)
    moreover have "unat (word_of_nat k :: 16 word) = k" using k(1) l by (intro unat16) simp
    ultimately have "trimback (c, sg, bp, word_of_nat (length bp)) =
        (c\<lparr>rerecv := rerecv c + int (length bp - k)\<rparr>, sg\<lparr>flags := flags sg - {FIN}\<rparr>, take k bp, word_of_nat (length (take k bp)))"
      using k(1) by (simp add: trimback_def ex[unfolded k(2)] Let_def del: of_nat_diff)
    moreover have "fits S isn p W s (sg\<lparr>flags := flags sg - {FIN}\<rparr>) (take k bp)"
      using genuine_take[OF g] s k by (simp add: fits_def)
    ultimately show thesis by (intro that[of "rerecv c + int (length bp - k)" "sg\<lparr>flags := flags sg - {FIN}\<rparr>" "take k bp"]) auto
  qed
qed

lemma tcptrim_genuine:
  assumes g: "genuine S isn s sg bp" and n: "rcv_nxt c = seqat isn p" and w: "rcv_wnd c = word_of_nat W" "W \<le> 2 ^ 20"
    and near: "\<bar>int s - int p\<bar> < 2 ^ 30" and p: "1 \<le> p"
    and r: "tcptrim c sg bp (word_of_nat (length bp)) = Some (c', sg', bp', len')"
  obtains d s' where "c' = c\<lparr>rerecv := d\<rparr>" "len' = word_of_nat (length bp')" "fits S isn p W s' sg' bp'" "flags sg' \<subseteq> flags sg"
    "p \<le> s + seglen sg bp" "s' = max s p"
proof (cases "W = 0")
  case True
  hence "word_of_nat (seglen sg bp) = (0 :: 16 word)" "seq sg = rcv_nxt c" and c: "c' = c" "sg' = sg" "bp' = bp" "len' = word_of_nat (length bp)"
    using r w seglen_word(1)[OF g] by (auto simp: tcptrim_def Let_def split: if_splits)
  hence "seglen sg bp = 0" "s = p" using seglen_word(2)[OF g] near seqat_eq[of s p isn] g n
    by (auto simp: genuine_def dest: arg_cong[where f = unat] simp: unat16)
  thus thesis using g c True that[of "rerecv c" s] by (auto simp: fits_def seglen_def split: if_splits)
next
  case False
  hence wz: "rcv_wnd c \<noteq> 0" using w by (simp add: word_of_nat_eq_0_iff nat_dvd_not_less)
  with r have a: "trimaccept c sg (word_of_nat (seglen sg bp))" and e: "(c', sg', bp', len') = trimback (trimfront c sg bp (word_of_nat (length bp)))"
    using seglen_word(1)[OF g] by (auto simp: tcptrim_def Let_def split: if_splits)
  have False': "0 < W" using False by simp
  from trimaccept_overlap[OF g n w(1) False' w(2) near a] show thesis
  proof
    assume s: "p \<le> s \<and> s < p + W"
    have "sint (rcv_nxt c - seq sg) \<le> 0" using g near s sint_seqat[of p s isn] by (simp add: n genuine_def)
    hence "trimfront c sg bp (word_of_nat (length bp)) = (c, sg, bp, word_of_nat (length bp))" by (simp add: trimfront_def)
    moreover have ns: "SYN \<notin> flags sg" using g s p unfolding genuine_def by auto
    moreover have sb: "s < p + 2 ^ 30" using s w(2) by simp
    moreover obtain sg2 bp2 d where "trimback (c, sg, bp, word_of_nat (length bp)) = (c\<lparr>rerecv := d\<rparr>, sg2, bp2, word_of_nat (length bp2))"
      "fits S isn p W s sg2 bp2" "flags sg2 \<subseteq> flags sg"
      by (rule trimback_genuine[OF g n w conjunct1[OF s] sb less_imp_le[OF conjunct2[OF s]] ns])
    ultimately have "c' = c\<lparr>rerecv := d\<rparr>" "len' = word_of_nat (length bp')" "fits S isn p W s sg' bp'" "flags sg' \<subseteq> flags sg"
      using e by simp_all
    moreover have "p \<le> s + seglen sg bp" "s = max s p" using s by simp_all
    ultimately show thesis by (rule that)
  next
    assume s: "s < p \<and> p < s + seglen sg bp"
    obtain sg1 bp1 d where t: "trimfront c sg bp (word_of_nat (length bp)) = (c\<lparr>rerecv := d\<rparr>, sg1, bp1, word_of_nat (length bp1))"
      "genuine S isn p sg1 bp1" "SYN \<notin> flags sg1" "flags sg1 \<subseteq> flags sg"
      using trimfront_genuine[OF g n near] s by metis
    have n1: "rcv_nxt (c\<lparr>rerecv := d\<rparr>) = seqat isn p" and w1: "rcv_wnd (c\<lparr>rerecv := d\<rparr>) = word_of_nat W"
      and pb: "p < p + 2 ^ 30" using n w(1) by simp_all
    obtain sg2 bp2 d2 where b: "trimback (c\<lparr>rerecv := d\<rparr>, sg1, bp1, word_of_nat (length bp1)) = (c\<lparr>rerecv := d\<rparr>\<lparr>rerecv := d2\<rparr>, sg2, bp2, word_of_nat (length bp2))"
      "fits S isn p W p sg2 bp2" "flags sg2 \<subseteq> flags sg1"
      by (rule trimback_genuine[OF t(2) n1 w1 w(2) order_refl pb le_add1 t(3)])
    have "c' = c\<lparr>rerecv := d2\<rparr>" "len' = word_of_nat (length bp')" "fits S isn p W p sg' bp'" "flags sg' \<subseteq> flags sg"
      using e t(1,4) b by simp_all
    moreover have "p \<le> s + seglen sg bp" "p = max s p" using s by simp_all
    ultimately show thesis by (rule that)
  qed
qed

section \<open>A conversation whose receive queue is closed\<close>

text \<open>
  Nothing more is put into the queue. Either the conversation was hung up, and the reader is told so, or
  the peer has closed its side and all of the stream has been delivered, or the user has closed it.
\<close>

definition dead :: "8 word list \<Rightarrow> 8 word list \<Rightarrow> tcpconv \<Rightarrow> bool" where
  "dead S rd c \<longleftrightarrow> rclosed c \<and> prefix (rd @ rq c) S \<and>
    (Hangup \<in> set (evs c) \<or> state c \<notin> {Syn_sent, Syn_received, Established} \<and> (state c = Close_wait \<longrightarrow> rd @ rq c = S))"

lemma prefix_flush: "prefix (rd @ xs) S \<Longrightarrow> prefix rd S"
  by (meson append_prefixD)

lemma dead_quiet: "quiet c c' \<Longrightarrow> dead S rd c \<Longrightarrow> dead S rd c'"
  by (auto simp: dead_def quiet_defs dest: prefix_flush)

lemma shut_dead: "shut c c' \<Longrightarrow> prefix (rd @ rq c) S \<Longrightarrow> dead S rd c'"
  by (auto simp: dead_def shut_def dest: prefix_flush)

lemma dead_setstate:
  assumes "dead S rd c" "Hangup \<in> set (evs c) \<or> new \<notin> {Syn_sent, Syn_received, Established, Close_wait}"
  shows "dead S rd (tcpsetstate new c)"
proof -
  have "rclosed (tcpsetstate new c)" using assms(1) by (cases new) (simp_all add: dead_def tcpsetstate_def emit_def Let_def)
  moreover have "rq (tcpsetstate new c) = rq c \<or> rq (tcpsetstate new c) = []"
    by (cases new) (simp_all add: tcpsetstate_def emit_def Let_def)
  moreover have "state (tcpsetstate new c) = new" by (cases new) (simp_all add: tcpsetstate_def emit_def Let_def)
  moreover have "Hangup \<in> set (evs (tcpsetstate new c)) \<longleftrightarrow> Hangup \<in> set (evs c)"
    by (cases new) (simp_all add: tcpsetstate_def emit_def Let_def)
  ultimately show ?thesis using assms by (auto simp: dead_def dest: prefix_flush)
qed

lemma dead_same:
  assumes "dead S rd c" "state c' = state c" "rq c' = rq c" "rclosed c' = rclosed c" "evs c' = evs c"
  shows "dead S rd c'"
  using assms by (simp add: dead_def)

lemma dead_update: "dead S rd c \<Longrightarrow> update now sg c = (sg', c') \<Longrightarrow> dead S rd c'"
  using dead_quiet[OF quiet_update] by (metis snd_conv)

lemma dead_timewait: "dead S rd c \<Longrightarrow> dead S rd (timewait c)"
  unfolding timewait_def Let_def
  by (rule dead_same[OF dead_setstate[of S rd "c\<lparr>rtt_timer := tcphalt (rtt_timer c), acktimer := tcphalt (acktimer c), katimer := tcphalt (katimer c)\<rparr>" Time_wait]])
    (auto intro: dead_same)

lemma dead_sndrst: "dead S rd c \<Longrightarrow> dead S rd (sndrst sg why c)"
  using dead_quiet[OF quiet_emit[of "Reset why"]] by (simp add: sndrst_def)

lemma dead_hungup: "dead S rd c \<Longrightarrow> state c \<in> {Syn_sent, Syn_received, Established} \<Longrightarrow> Hangup \<in> set (evs c)"
  by (auto simp: dead_def)

lemma quiet_hangup: "quiet c c' \<Longrightarrow> Hangup \<in> set (evs c) \<Longrightarrow> Hangup \<in> set (evs c')"
  by (auto simp: quiet_defs)

lemma dead_inputack:
  assumes d: "dead S rd c"
  shows "case inputack now sg c of Inl c' \<Rightarrow> dead S rd c' | Inr (sg', c') \<Rightarrow> dead S rd c'"
proof -
  define c1 where "c1 = snd (update now sg c)"
  have u: "update now sg c = (sg\<lparr>upd := True\<rparr>, c1)" using update_seg[of now sg c] by (simp add: c1_def prod_eq_iff)
  have 1: "dead S rd c1" using dead_update[OF d u] .
  have same: "dead S rd c'" if "state c' = state c1" "rq c' = rq c1" "rclosed c' = rclosed c1" "evs c' = evs c1" for c'
    using dead_same[OF 1 that] .
  have h: "Hangup \<in> set (evs c1)" if "state c = Syn_received"
    using quiet_hangup[OF quiet_update dead_hungup[OF d], of now sg] that by (simp add: c1_def)
  have 2: "dead S rd (snd (update now sg' (tcpsetstate Established c1)))" if "state c = Syn_received" for sg'
    using dead_quiet[OF quiet_update dead_setstate[OF 1 disjI1[OF h[OF that]]]] .
  have 3: "dead S rd (tcpsetstate Finwait2 c')" if "state c' = state c1" "rq c' = rq c1" "rclosed c' = rclosed c1" "evs c' = evs c1" for c'
    using dead_setstate[OF same[OF that], of Finwait2] by simp
  show ?thesis
  proof (cases "state c")
    case Syn_received
    then show ?thesis using 2 dead_sndrst[OF d] by (auto simp: inputack_def u Let_def split: prod.split) (metis snd_conv)
  next
    case Finwait1
    have "dead S rd (tcpsetstate Finwait2 (tcpsetkacounter (c1\<lparr>rtt_timer := a, acktimer := b\<rparr>)\<lparr>ttime := t\<rparr>)\<lparr>katimer := k\<rparr>)" for a b t k
      by (rule dead_same[OF 3[of "tcpsetkacounter (c1\<lparr>rtt_timer := a, acktimer := b\<rparr>)\<lparr>ttime := t\<rparr>"]]) (simp_all add: tcpsetkacounter_def Let_def)
    with Finwait1 1 show ?thesis by (simp add: inputack_def u Let_def)
  next
    case Closing
    then show ?thesis using 1 dead_timewait[OF 1] by (simp add: inputack_def u)
  next
    case Last_ack
    have "dead S rd (c1\<lparr>tflags := f\<rparr>)" "dead S rd (c1\<lparr>tflags := f, timer := t\<rparr>)" for f t by (rule same; simp)+
    then show ?thesis using Last_ack 1 dead_quiet[OF quiet_localclose 1] by (simp add: inputack_def u Let_def)
  next
    case Time_wait
    have "dead S rd (c\<lparr>tflags := f\<rparr>)" "dead S rd (c\<lparr>tflags := f, timer := t\<rparr>)" for f t by (rule dead_same[OF d]; simp)+
    then show ?thesis using Time_wait by (simp add: inputack_def Let_def)
  qed (use 1 d in \<open>simp_all add: inputack_def u\<close>)
qed

lemma quiet_trimfront: "quiet c (fst (trimfront c sg bp len))"
  by (rule quiet_same) (simp_all add: trimfront_def Let_def split: prod.split)

lemma quiet_trimback: "quiet c (fst (trimback (c, x)))"
proof (cases x)
  case (fields sg bp len)
  have "quiet c (c\<lparr>rerecv := d\<rparr>)" for d by (rule quiet_same) simp_all
  thus ?thesis using quiet_emit[of "Panicked _" c] by (simp add: fields trimback_def Let_def)
qed

lemma quiet_tcptrim: "tcptrim c sg bp len = Some (c', r) \<Longrightarrow> quiet c c'"
  using quiet_trans[OF quiet_trimfront[of c sg bp len] quiet_trimback[of "fst (trimfront c sg bp len)" "snd (trimfront c sg bp len)"]]
  by (auto simp: tcptrim_def Let_def split: if_splits)

lemma dead_getreseq: "dead S rd c \<Longrightarrow> getreseq c = Some (sg, bp, len, c') \<Longrightarrow> dead S rd c'"
  by (auto simp: getreseq_def dead_def split: list.splits)

lemma dead_nextseg:
  assumes "dead S rd c"
  shows "case nextseg c of Inl c' \<Rightarrow> dead S rd c' | Inr (sg, bp, len, c') \<Rightarrow> dead S rd c'"
  using assms
proof (induction c rule: nextseg.induct)
  case (1 c)
  show ?case
  proof (cases "getreseq c")
    case None
    thus ?thesis using "1.prems" by (simp add: nextseg.simps[of c])
  next
    case (Some y)
    then obtain sg bp len c1 where g: "getreseq c = Some (sg, bp, len, c1)" by (cases y) auto
    have d1: "dead S rd (tcprcvwin c1)" by (rule dead_quiet[OF quiet_tcprcvwin dead_getreseq[OF "1.prems" g]])
    show ?thesis
    proof (cases "seq_ge (rcv_nxt c) (seq sg)")
      case True
      show ?thesis
      proof (cases "tcptrim (tcprcvwin c1) sg bp len")
        case None
        have "\<not> \<not> seq_ge (rcv_nxt c) (seq sg)" using True by simp
        from "1.IH"[OF g refl refl refl this None d1] show ?thesis using True None by (simp add: nextseg.simps[of c] g)
      next
        case (Some x)
        then obtain c2 sg2 bp2 len2 where x: "tcptrim (tcprcvwin c1) sg bp len = Some (c2, sg2, bp2, len2)" by (cases x) auto
        have "dead S rd (c2\<lparr>tflags := f\<rparr>)" for f by (rule dead_same[OF dead_quiet[OF quiet_tcptrim[OF x] d1]]) simp_all
        thus ?thesis using True by (simp add: nextseg.simps[of c] g x)
      qed
    qed (use "1.prems" g in \<open>simp add: nextseg.simps[of c]\<close>)
  qed
qed

lemma dead_inputurg: "dead S rd c \<Longrightarrow> dead S rd (snd (inputurg sg bp c))"
  by (erule dead_same) (simp_all add: inputurg_def)

lemma dead_inputdata: "dead S rd c \<Longrightarrow> case inputdata sg bp len c of Inl c' \<Rightarrow> dead S rd c' | Inr c' \<Rightarrow> dead S rd c'"
proof -
  assume d: "dead S rd c"
  hence r: "rclosed c" by (simp add: dead_def)
  have "dead S rd (c\<lparr>rcv_nxt := n\<rparr>)" "dead S rd (c\<lparr>rcv_nxt := n, acktimer := t\<rparr>)" for n t by (rule dead_same[OF d]; simp)+
  thus ?thesis using d r dead_sndrst[OF d] by (simp add: inputdata_def Let_def)
qed

lemma dead_inputfin: "dead S rd c \<Longrightarrow> dead S rd (inputfin sg c)"
proof -
  assume d: "dead S rd c"
  have s: "dead S rd (c\<lparr>tflags := f\<rparr>)" "dead S rd (c\<lparr>tflags := f, rcv_nxt := n\<rparr>)" "dead S rd (c\<lparr>tflags := f, timer := t\<rparr>)" for f n t
    by (rule dead_same[OF d]; simp)+
  have "dead S rd (tcpsetstate Close_wait (c\<lparr>tflags := f, rcv_nxt := n\<rparr>))" if "state c \<in> {Syn_received, Established}" for f n
    using dead_hungup[OF d] that by (intro dead_setstate[OF s(2)]) auto
  moreover have "dead S rd (tcpsetstate Closing (c\<lparr>tflags := f, rcv_nxt := n\<rparr>))" for f n
    by (intro dead_setstate[OF s(2)]) simp
  ultimately show ?thesis using d s dead_timewait[OF s(2)] by (simp add: inputfin_def Let_def)
qed

definition resdead :: "8 word list \<Rightarrow> 8 word list \<Rightarrow> inputres \<Rightarrow> bool" where
  "resdead S rd r \<longleftrightarrow> (case r of Raise c \<Rightarrow> dead S rd c | Done c \<Rightarrow> dead S rd c | Output c \<Rightarrow> dead S rd c | Next sg bp len c \<Rightarrow> dead S rd c)"

text \<open>The part of a round after the acknowledgement.\<close>

definition input2 :: "tcpseg \<Rightarrow> 8 word list \<Rightarrow> 16 word \<Rightarrow> tcpconv \<Rightarrow> inputres" where
  "input2 sg bp len c =
    (let (bp, c) = inputurg sg bp c in
       case inputdata sg bp len c of
         Inl c \<Rightarrow> Done c
       | Inr c \<Rightarrow>
         case nextseg (inputfin sg c) of
           Inl c \<Rightarrow> Output c
         | Inr (sg, bp, len, c) \<Rightarrow> Next sg bp len c)"

lemma input1_alt:
  "input1 now sg bp len c =
    (if RST \<in> flags sg then Raise (localclose c)
     else if ACK \<notin> flags sg then Raise c
     else case inputack now sg c of Inl c \<Rightarrow> Raise c | Inr (sg, c) \<Rightarrow> input2 sg bp len c)"
  unfolding input1_def input2_def by (rule refl)

lemma dead_input2: "dead S rd c \<Longrightarrow> resdead S rd (input2 sg bp len c)"
proof -
  assume d: "dead S rd c"
  obtain bp1 c1 where u: "inputurg sg bp c = (bp1, c1)" by fastforce
  have "dead S rd c1" using dead_inputurg[OF d, of sg bp] by (simp add: u)
  from dead_inputdata[OF this, of sg bp1 len] show ?thesis
  proof (cases "inputdata sg bp1 len c1")
    case (Inr c2)
    have "dead S rd (inputfin sg c2)" using \<open>case inputdata sg bp1 len c1 of Inl c' \<Rightarrow> _ c' | Inr c' \<Rightarrow> _ c'\<close> Inr dead_inputfin by simp
    from dead_nextseg[OF this] show ?thesis by (auto simp: input2_def u Inr resdead_def split: sum.splits)
  qed (simp add: input2_def u resdead_def)
qed

lemma dead_input1: "dead S rd c \<Longrightarrow> resdead S rd (input1 now sg bp len c)"
  using dead_inputack[of S rd c now sg] dead_input2[of S rd] dead_quiet[OF quiet_localclose, of S rd c]
  by (auto simp: input1_alt resdead_def split: sum.splits)

lemma dead_tcploop: "dead S rd c \<Longrightarrow> dead S rd (tcploop now sg bp len c)"
proof (induction now sg bp len c rule: tcploop.induct)
  case (1 now sg bp len c)
  from dead_input1[OF "1.prems", of now sg bp len] show ?case
    using "1.IH" dead_quiet[OF quiet_tcpkick] dead_quiet[OF quiet_tcpoutput]
    by (cases "input1 now sg bp len c") (simp_all add: resdead_def tcploop.simps[of now sg bp len c])
qed

section \<open>The other entries leave the receiving side alone\<close>

lemma quiet_tflags: "quiet c (c\<lparr>tflags := f\<rparr>)"
  by (rule quiet_same) simp_all

lemma quiet_tcpsetkacounter: "quiet c (tcpsetkacounter c)"
  by (rule quiet_same) (simp_all add: tcpsetkacounter_def Let_def)

lemma quiet_tcpsynackrtt: "quiet c (tcpsynackrtt now c)"
  by (rule quiet_same) (simp_all add: tcpsynackrtt_def Let_def)

lemma quiet_stateless_hog: "quiet c (stateless_hog sg c)"
  by (simp add: stateless_hog_def quiet_localclose)

lemma quiet_sndrst: "quiet c (sndrst sg why c)"
  by (simp add: sndrst_def quiet_emit)

lemma quiet_tcptimeout: "quiet c (tcptimeout now c)"
proof -
  define c1 where "c1 = c\<lparr>backoff := (backoff c + 1) mod 256\<rparr>"
  define c2 where "c2 = c1\<lparr>backedoff := s32 (backedoff c1 + start (timer c1) * MSPTICK)\<rparr>"
  define c3 where "c3 = (if \<not> snd_rto (tcpsettimer c2) then tcpcongestion (tcpsettimer c2) else tcpsettimer c2)"
  define c4 where "c4 = tcprxmit now c3"
  define c5 where "c5 = c4\<lparr>snd_ptr := snd_una c4, cwind := mss32 c4, snd_rto := True\<rparr>"
  define c6 where "c6 = (if snd_recovery c5 then c5\<lparr>snd_dupacks := 0, snd_recovery := False, snd_rxt := snd_nxt c5\<rparr> else c5)"
  have 2: "quiet c c2" by (rule quiet_same) (simp_all add: c2_def c1_def)
  have "quiet c c3"
    using quiet_trans[OF 2 quiet_tcpsettimer] quiet_trans[OF quiet_trans[OF 2 quiet_tcpsettimer] quiet_tcpcongestion] by (simp add: c3_def)
  hence 4: "quiet c c4" unfolding c4_def by (rule quiet_trans[OF _ quiet_tcprxmit])
  have "quiet c4 (c6\<lparr>abcbytes := 0\<rparr>)" by (rule quiet_same) (simp_all add: c6_def c5_def)
  hence 6: "quiet c (c6\<lparr>abcbytes := 0\<rparr>)" using 4 quiet_trans by blast
  have "tcptimeout now c \<in> {localclose c, c, localclose c2, c6\<lparr>abcbytes := 0\<rparr>}"
    unfolding tcptimeout_def Let_def c1_def[symmetric] c2_def[symmetric] c3_def[symmetric] c4_def[symmetric] c5_def[symmetric] c6_def[symmetric]
    by (cases "state c") simp_all
  thus ?thesis using 6 quiet_trans[OF 2 quiet_localclose] quiet_localclose[of c] by auto
qed

lemma quiet_tcpkeepalive: "quiet c (tcpkeepalive rnd b c)"
proof -
  define c1 where "c1 = c\<lparr>kacounter := kacounter c - 1\<rparr>"
  define c2 where "c2 = tcprcvwin (c1\<lparr>rcv_ackptr := rcv_nxt c1\<rparr>)"
  have 1: "quiet c c1" by (rule quiet_same) (simp_all add: c1_def)
  have "quiet c1 (c1\<lparr>rcv_ackptr := rcv_nxt c1\<rparr>)" by (rule quiet_same) simp_all
  hence 2: "quiet c c2" unfolding c2_def using 1 quiet_trans quiet_tcprcvwin by blast
  have "quiet c2 (c2\<lparr>npkt := n\<rparr>)" for n by (rule quiet_same) simp_all
  hence 3: "quiet c (c2\<lparr>npkt := n\<rparr>)" for n using 2 quiet_trans by blast
  have 4: "quiet c (tcpsendka rnd b c1)"
    unfolding tcpsendka_def Let_def c2_def[symmetric] using 3 quiet_trans[OF 3 quiet_emit] by simp
  have "quiet d (d\<lparr>katimer := t\<rparr>)" for d t by (rule quiet_same) simp_all
  thus ?thesis unfolding tcpkeepalive_def Let_def c1_def[symmetric]
    using 1 quiet_trans[OF 1 quiet_localclose] quiet_trans[OF 4] by simp
qed

lemma quiet_tcphangup: "quiet c (tcphangup remote c)"
proof -
  have "quiet c (c\<lparr>rcv_ackptr := a, npkt := n\<rparr>)" for a n by (rule quiet_same) simp_all
  hence "quiet c (emit e (c\<lparr>rcv_ackptr := a, npkt := n\<rparr>))" if "e \<noteq> Hangup" for e a n using quiet_trans quiet_emit that by blast
  thus ?thesis using quiet_localclose quiet_trans by (simp add: tcphangup_def Let_def) blast
qed

lemma quiet_tcpgc: "quiet c (tcpgc now c)"
  by (cases "state c") (simp_all add: tcpgc_def quiet_localclose)

lemma quiet_tcpadvise: "quiet c (tcpadvise c)"
  by (simp add: tcpadvise_def quiet_localclose)

lemma quiet_tcpstartka: "tcpstartka x c = Inr c' \<Longrightarrow> quiet c c'"
  by (rule quiet_same) (auto simp: tcpstartka_def tcpsetkacounter_def Let_def split: if_splits option.splits)

section \<open>A segment that arrives at a closed queue\<close>

lemma dead_force: "dead S rd c \<Longrightarrow> dead S rd (tcpoutput now (c\<lparr>tflags := f\<rparr>))"
  using dead_quiet[OF quiet_trans[OF quiet_tflags quiet_tcpoutput]] .

lemma dead_notinwindow: "dead S rd c \<Longrightarrow> dead S rd (notinwindow now sg c)"
proof -
  assume d: "dead S rd c"
  obtain sg1 c1 where u: "update now sg c = (sg1, c1)" by fastforce
  have "dead S rd c1" by (rule dead_update[OF d u])
  hence "dead S rd (if \<not> unsent c1 \<and> state c1 = Closing then timewait c1 else c1)" using dead_timewait by simp
  thus ?thesis using dead_force by (simp add: notinwindow_def u Let_def)
qed

lemma dead_addreseq: "dead S rd c \<Longrightarrow> dead S rd (snd (addreseq mem c sg bp len))"
  by (erule dead_same) (simp_all add: addreseq_def dumpreseq_def Let_def)

lemma dead_inputwin: "dead S rd c \<Longrightarrow> dead S rd (inputwin now mem sg bp len c)"
proof -
  assume d: "dead S rd c"
  define c1 where "c1 = tcprcvwin c"
  have d1: "dead S rd c1" using dead_quiet[OF quiet_tcprcvwin d] by (simp add: c1_def)
  show ?thesis
  proof (cases "tcptrim c1 sg bp len")
    case None
    thus ?thesis using dead_notinwindow[OF d1] by (simp add: inputwin_def Let_def c1_def[symmetric])
  next
    case (Some x)
    then obtain c2 sg2 bp2 len2 where x: "tcptrim c1 sg bp len = Some (c2, sg2, bp2, len2)" by (cases x) auto
    have d2: "dead S rd c2" by (rule dead_quiet[OF quiet_tcptrim[OF x] d1])
    obtain sg3 c3 where u: "update now sg2 c2 = (sg3, c3)" by fastforce
    have 3: "dead S rd (snd (addreseq mem c3 sg3 bp2 len2))" by (rule dead_addreseq[OF dead_update[OF d2 u]])
    have 4: "dead S rd (if nreseq c2 > 0 then c2\<lparr>tflags := insert FORCE (tflags c2)\<rparr> else c2)"
      using d2 dead_quiet[OF quiet_tflags d2] by simp
    have "inputwin now mem sg bp len c \<in>
        {tcpkick now (sndrst sg2 ''sending to Closed'' c2),
         (let c4 = snd (addreseq mem c3 sg3 bp2 len2) in tcpoutput now (c4\<lparr>tflags := insert FORCE (tflags c4)\<rparr>)),
         tcploop now sg2 bp2 len2 (if nreseq c2 > 0 then c2\<lparr>tflags := insert FORCE (tflags c2)\<rparr> else c2)}"
      by (simp add: inputwin_def Let_def c1_def[symmetric] x u)
    thus ?thesis
      using dead_quiet[OF quiet_tcpkick dead_sndrst[OF d2]] dead_force[OF 3] dead_tcploop[OF 4] by (auto simp: Let_def)
  qed
qed

lemma dead_inputseg: "dead S rd c \<Longrightarrow> dead S rd (inputseg now mem sg bp len c)"
  unfolding inputseg_def by (rule dead_inputwin[OF dead_quiet[OF quiet_stateless_hog]])

lemma procsyn_fields [simp]:
  "state (procsyn sg c) = state c" "rq (procsyn sg c) = rq c" "rclosed (procsyn sg c) = rclosed c" "evs (procsyn sg c) = evs c"
  "window (procsyn sg c) = window c" "reseqq (procsyn sg c) = reseqq c"
  "rcv_nxt (procsyn sg c) = seq sg + 1" "rcv_wptr (procsyn sg c) = seq sg + 1"
  by (simp_all add: procsyn_def initialwindow_def Let_def)

lemma tcpsetscale_fields [simp]:
  "state (tcpsetscale m n c) = state c" "rq (tcpsetscale m n c) = rq c" "rclosed (tcpsetscale m n c) = rclosed c"
  "evs (tcpsetscale m n c) = evs c" "reseqq (tcpsetscale m n c) = reseqq c" "rcv_nxt (tcpsetscale m n c) = rcv_nxt c"
  by (simp_all add: tcpsetscale_def Let_def)

text \<open>The conversation a SYN makes of one in the state \<open>Syn_sent\<close>.\<close>

definition synced :: "32 word \<Rightarrow> tcpseg \<Rightarrow> tcpconv \<Rightarrow> tcpseg \<times> tcpconv" where
  "synced now sg c =
    (let c = procsyn sg c in
     if ACK \<in> flags sg
     then let (sg, c) = update now sg c; c = tcpsetstate Established (tcpsynackrtt now c)
          in (sg, tcpsetscale (ws sg) (scale c) c)
     else (sg, tcpsetstate Syn_received (c\<lparr>ttime := now\<rparr>)))"

lemma syn_sent_cases:
  obtains why where "syn_sent now sg len c = Inl (Raise (sndrst sg why c))"
  | "syn_sent now sg len c = Inl (Raise (localclose c))"
  | "syn_sent now sg len c = Inl (Raise c)"
  | "syn_sent now sg len c = Inl (Done c)"
  | "SYN \<in> flags sg" "syn_sent now sg len c = Inr (synced now sg c)"
  | "SYN \<in> flags sg" "syn_sent now sg len c = Inl (Output (snd (synced now sg c)))"
proof -
  have e: "syn_sent now sg len c =
    (if ACK \<in> flags sg \<and> \<not> seq_within (ack sg) (iss c + 1) (snd_nxt c)
     then Inl (Raise (sndrst sg ''bad seq in Syn_sent'' c))
     else if RST \<in> flags sg then Inl (Raise (if ACK \<in> flags sg then localclose c else c))
     else if SYN \<notin> flags sg then Inl (Done c)
     else if len \<noteq> 0 \<or> FIN \<in> flags (fst (synced now sg c)) then Inr (synced now sg c) else Inl (Output (snd (synced now sg c))))"
    by (simp add: syn_sent_def synced_def Let_def split: prod.split)
  show thesis
  proof (cases "ACK \<in> flags sg \<and> \<not> seq_within (ack sg) (iss c + 1) (snd_nxt c)")
    case True
    with e show thesis by (intro that(1)) simp
  next
    case 1: False
    show thesis
    proof (cases "RST \<in> flags sg")
      case True
      with e 1 that(2,3) show thesis by (cases "ACK \<in> flags sg") simp_all
    next
      case False
      with e 1 that(4,5,6) show thesis
        by (cases "SYN \<in> flags sg"; cases "len \<noteq> 0 \<or> FIN \<in> flags (fst (synced now sg c))") simp_all
    qed
  qed
qed

lemma synced_seg: "fst (synced now sg c) = sg \<or> fst (synced now sg c) = sg\<lparr>upd := True\<rparr>"
  using update_seg[of now sg "procsyn sg c"] by (simp add: synced_def Let_def split: prod.split) (metis fst_conv)

lemma dead_synced:
  assumes d: "dead S rd c" and s: "state c = Syn_sent"
  shows "dead S rd (snd (synced now sg c))"
proof -
  have h: "Hangup \<in> set (evs c)" using dead_hungup[OF d] s by simp
  have p: "dead S rd (procsyn sg c)" by (rule dead_same[OF d]) simp_all
  obtain sg1 c1 where u: "update now sg (procsyn sg c) = (sg1, c1)" by fastforce
  have q: "quiet (procsyn sg c) (tcpsynackrtt now c1)" using quiet_trans[OF quiet_update[of "procsyn sg c" now sg] quiet_tcpsynackrtt[of _ now]] by (simp add: u)
  have "Hangup \<in> set (evs (tcpsynackrtt now c1))" using quiet_hangup[OF q] h by simp
  hence "dead S rd (tcpsetstate Established (tcpsynackrtt now c1))" using dead_setstate[OF dead_quiet[OF q p]] by simp
  hence "dead S rd (tcpsetscale m n (tcpsetstate Established (tcpsynackrtt now c1)))" for m n by (rule dead_same) simp_all
  moreover have "dead S rd ((procsyn sg c)\<lparr>ttime := now\<rparr>)" by (rule dead_same[OF p]) simp_all
  hence "dead S rd (tcpsetstate Syn_received ((procsyn sg c)\<lparr>ttime := now\<rparr>))" using h by (intro dead_setstate) simp_all
  ultimately show ?thesis by (simp add: synced_def Let_def u)
qed

lemma dead_tcpiput: "dead S rd c \<Longrightarrow> dead S rd (tcpiput now mem sg bp len c)"
proof -
  assume "dead S rd c"
  define sg' where "sg' = sg\<lparr>wnd := push_bit (rcv_scale c) (wnd sg)\<rparr>"
  define c1 where "c1 = tcpsetkacounter c"
  have d: "dead S rd c1" using dead_quiet[OF quiet_tcpsetkacounter \<open>dead S rd c\<close>] by (simp add: c1_def)
  have i: "dead S rd (inputseg now mem sg' bp len c1)" "dead S rd (inputseg now mem sg' bp len (tcpsynackrtt now c1))"
    using dead_inputseg[OF d] dead_inputseg[OF dead_quiet[OF quiet_tcpsynackrtt d]] by auto
  have k: "dead S rd (tcpkick now c')" if "dead S rd c'" for c' using dead_quiet[OF quiet_tcpkick that] .
  have "dead S rd (case syn_sent now sg' len c1 of Inl r \<Rightarrow> inputend now r | Inr (sg, c) \<Rightarrow> inputseg now mem sg bp len c)" if "state c1 = Syn_sent"
  proof (cases rule: syn_sent_cases[of now sg' len c1])
    case 5
    thus ?thesis using dead_inputseg[OF dead_synced[OF d that]] by (simp split: prod.split) (metis snd_conv)
  next
    case 6
    thus ?thesis using dead_quiet[OF quiet_tcpoutput dead_synced[OF d that]] by (simp add: inputend_def)
  qed (use d k dead_sndrst[OF d] dead_quiet[OF quiet_localclose d] in \<open>simp_all add: inputend_def\<close>)
  thus ?thesis
    using i k[OF dead_sndrst[OF d]] unfolding tcpiput_def Let_def sg'_def[symmetric] c1_def[symmetric] by (cases "state c1") simp_all
qed

end
