(* ===== verification/Tcp_Stream.thy ===== *)
theory Tcp_Stream
  imports Tcp_Correct
begin

text \<open>
  A conversation whose receive queue is open: the invariant of the receive pointer and of the
  resequencing queue, and the delivery of the stream over every sequence of events.
\<close>

section \<open>The resequencing queue\<close>

text \<open>The queue holds segments of the stream in the order of their positions, none further behind the receive pointer \<open>p\<close>
  than \<open>B\<close>.\<close>

definition queued :: "8 word list \<Rightarrow> seqno \<Rightarrow> nat \<Rightarrow> nat \<Rightarrow> reseq list \<Rightarrow> bool" where
  "queued S isn p B q \<longleftrightarrow> (\<exists>ss. list_all2 (\<lambda>s r. genuine S isn s (rseg r) (rbp r) \<and> SYN \<notin> flags (rseg r) \<and> rlength r = word_of_nat (length (rbp r))) ss q
    \<and> sorted ss \<and> (\<forall>s\<in>set ss. p \<le> s + B \<and> s \<le> p + 2 ^ 20))"

lemma queued_Nil [simp]: "queued S isn p B []"
  by (simp add: queued_def)

lemma queued_Cons:
  assumes "queued S isn p B (r # rs)"
  obtains s where "genuine S isn s (rseg r) (rbp r)" "SYN \<notin> flags (rseg r)" "rlength r = word_of_nat (length (rbp r))"
    "p \<le> s + B" "s \<le> p + 2 ^ 20" "queued S isn p B rs" "\<And>C. p \<le> s + C \<Longrightarrow> queued S isn p C (r # rs) \<and> queued S isn p C rs"
proof -
  let ?P = "\<lambda>s r. genuine S isn s (rseg r) (rbp r) \<and> SYN \<notin> flags (rseg r) \<and> rlength r = word_of_nat (length (rbp r))"
  obtain s ss where ss: "?P s r" "list_all2 ?P ss rs" "sorted (s # ss)" "\<forall>x\<in>set (s # ss). p \<le> x + B \<and> x \<le> p + 2 ^ 20"
    using assms unfolding queued_def list_all2_Cons2 by blast
  have r: "queued S isn p C (r # rs) \<and> queued S isn p C rs" if "p \<le> s + C" for C
  proof -
    have b: "\<forall>x\<in>set (s # ss). p \<le> x + C \<and> x \<le> p + 2 ^ 20" using ss(3,4) that by fastforce
    have "list_all2 ?P (s # ss) (r # rs)" using ss(1,2) by simp
    hence "queued S isn p C (r # rs)" unfolding queued_def using ss(3) b by blast
    moreover have "sorted ss" "\<forall>x\<in>set ss. p \<le> x + C \<and> x \<le> p + 2 ^ 20" using ss(3) b by auto
    hence "queued S isn p C rs" unfolding queued_def using ss(2) by blast
    ultimately show ?thesis ..
  qed
  show thesis using that[of s] ss r by auto
qed

lemma queued_advance: "queued S isn p B q \<Longrightarrow> queued S isn (p + n) (B + n) q"
  unfolding queued_def by fastforce

lemma insreseq_positions:
  assumes "list_all2 P ss q" "sorted ss" "P s r" "\<And>s r. P s r \<Longrightarrow> seq (rseg r) = seqat isn s"
    "\<forall>x\<in>set ss. \<bar>int s - int x\<bar> < 2 ^ 31"
  shows "\<exists>ss'. list_all2 P ss' (insreseq r q) \<and> sorted ss' \<and> set ss' = insert s (set ss)"
  using assms(1,2,5)
proof (induction ss q rule: list_all2_induct)
  case Nil
  show ?case using assms(3) by (intro exI[of _ "[s]"]) simp
next
  case (Cons x ss y q)
  have lt: "seq_lt (seq (rseg r)) (seq (rseg y)) \<longleftrightarrow> s < x"
    using assms(4)[OF assms(3)] assms(4)[OF Cons.hyps(1)] Cons.prems(2) sint_seqat[of s x isn] by (simp add: seq_lt_def)
  show ?case
  proof (cases "s < x")
    case True
    thus ?thesis using Cons.hyps Cons.prems(1) assms(3) lt by (intro exI[of _ "s # x # ss"]) (auto intro: less_imp_le)
  next
    case False
    obtain ss' where "list_all2 P ss' (insreseq r q)" "sorted ss'" "set ss' = insert s (set ss)"
      using Cons.IH Cons.prems by auto
    thus ?thesis using Cons.hyps(1) Cons.prems(1) False lt by (intro exI[of _ "x # ss'"]) auto
  qed
qed

lemma queued_insreseq:
  assumes q: "queued S isn p B q" and g: "genuine S isn s sg bp" "SYN \<notin> flags sg" "len = word_of_nat (length bp)"
    and s: "p \<le> s + B" "s \<le> p + 2 ^ 20" and B: "B \<le> 2 ^ 20"
  shows "queued S isn p B (insreseq \<lparr>rseg = sg, rbp = bp, rlength = len\<rparr> q)"
proof -
  let ?P = "\<lambda>s r. genuine S isn s (rseg r) (rbp r) \<and> SYN \<notin> flags (rseg r) \<and> rlength r = word_of_nat (length (rbp r))"
  obtain ss where ss: "list_all2 ?P ss q" "sorted ss" "\<forall>s\<in>set ss. p \<le> s + B \<and> s \<le> p + 2 ^ 20"
    using q unfolding queued_def by blast
  have near: "\<forall>x\<in>set ss. \<bar>int s - int x\<bar> < 2 ^ 31"
  proof
    fix x assume "x \<in> set ss"
    hence "p \<le> x + B" "x \<le> p + 2 ^ 20" using ss(3) by auto
    thus "\<bar>int s - int x\<bar> < 2 ^ 31" using s B by simp
  qed
  have "\<exists>ss'. list_all2 ?P ss' (insreseq \<lparr>rseg = sg, rbp = bp, rlength = len\<rparr> q) \<and> sorted ss' \<and> set ss' = insert s (set ss)"
  proof (rule insreseq_positions[OF ss(1,2) _ _ near])
    show "seq (rseg r) = seqat isn s" if "?P s r" for s r using that by (simp add: genuine_def)
  qed (use g in simp)
  then obtain ss' where ss': "list_all2 ?P ss' (insreseq \<lparr>rseg = sg, rbp = bp, rlength = len\<rparr> q)" "sorted ss'" "set ss' = insert s (set ss)"
    by blast
  have "\<forall>x\<in>set ss'. p \<le> x + B \<and> x \<le> p + 2 ^ 20" using ss(3) s ss'(3) by simp
  thus ?thesis using ss'(1,2) unfolding queued_def by blast
qed

section \<open>A conversation whose receive queue is open\<close>

text \<open>The position of the receive pointer: behind the bytes \<open>rd\<close> that were read and those that wait.\<close>

definition rpos :: "8 word list \<Rightarrow> tcpconv \<Rightarrow> nat" where
  "rpos rd c = length rd + length (rq c) + 1"

definition live :: "8 word list \<Rightarrow> seqno \<Rightarrow> 8 word list \<Rightarrow> nat \<Rightarrow> tcpconv \<Rightarrow> bool" where
  "live S isn rd B c \<longleftrightarrow> \<not> rclosed c \<and> state c \<in> {Syn_received, Established} \<and> prefix (rd @ rq c) S \<and>
    rcv_nxt c = seqat isn (rpos rd c) \<and> wok c \<and> queued S isn (rpos rd c) B (reseqq c)"

definition good :: "8 word list \<Rightarrow> seqno \<Rightarrow> 8 word list \<Rightarrow> nat \<Rightarrow> tcpconv \<Rightarrow> bool" where
  "good S isn rd B c \<longleftrightarrow> live S isn rd B c \<or> dead S rd c"

lemma live_same:
  assumes "live S isn rd B c" "state c' = state c" "rq c' = rq c" "rclosed c' = rclosed c" "rcv_nxt c' = rcv_nxt c"
    "rcv_wptr c' = rcv_wptr c" "window c' = window c" "reseqq c' = reseqq c"
  shows "live S isn rd B c'"
proof -
  have "wok c' = wok c" "rpos rd c' = rpos rd c" using assms(2-) by (simp_all add: wok_def wroom_def rpos_def)
  thus ?thesis using assms by (simp add: live_def)
qed

lemma live_requeue:
  assumes "live S isn rd B c" "queued S isn (rpos rd c) B (reseqq c')" "state c' = state c" "rq c' = rq c" "rclosed c' = rclosed c"
    "rcv_nxt c' = rcv_nxt c" "rcv_wptr c' = rcv_wptr c" "window c' = window c"
  shows "live S isn rd B c'"
proof -
  have "wok c' = wok c" "rpos rd c' = rpos rd c" using assms(3-) by (simp_all add: wok_def wroom_def rpos_def)
  thus ?thesis using assms by (simp add: live_def)
qed

lemma live_quiet:
  assumes q: "quiet c c'" and l: "live S isn rd B c"
  shows "(live S isn rd B c' \<and> state c' = state c \<and> wroom c \<le> wroom c' \<and> rq c' = rq c) \<or> dead S rd c' \<and> Hangup \<in> set (evs c')"
proof -
  have w: "wok c'" "wroom c \<le> wroom c'" "rcv_nxt c' = rcv_nxt c" using q l by (auto simp: quiet_def live_def)
  from q consider "kept c c'" | "shut c c'" by (auto simp: quiet_def)
  thus ?thesis
  proof cases
    case 1
    thus ?thesis using l w by (simp add: live_def kept_def rpos_def)
  next
    case 2
    thus ?thesis using l shut_dead[OF 2] by (simp add: live_def shut_def)
  qed
qed

lemma good_quiet: "quiet c c' \<Longrightarrow> good S isn rd B c \<Longrightarrow> good S isn rd B c'"
  using live_quiet[of c c' S isn rd B] dead_quiet[of c c' S rd] by (auto simp: good_def)

lemma live_tcprcvwin:
  assumes "live S isn rd B c"
  shows "live S isn rd B (tcprcvwin c)" "rcv_wnd (tcprcvwin c) = word_of_nat (wroom (tcprcvwin c))" "wroom (tcprcvwin c) \<le> 2 ^ 20"
proof -
  have w: "wok c" using assms by (simp add: live_def)
  show "live S isn rd B (tcprcvwin c)" using assms tcprcvwin_wok(1)[OF w] by (simp add: live_def rpos_def)
  show "rcv_wnd (tcprcvwin c) = word_of_nat (wroom (tcprcvwin c))" by (simp add: tcprcvwin_wok(3)[OF w])
  show "wroom (tcprcvwin c) \<le> 2 ^ 20" using tcprcvwin_wok(1)[OF w] by (simp add: wok_def)
qed

text \<open>A segment ready for the state machine: it begins at the receive pointer and fits the window, or carries nothing.\<close>

definition ready :: "8 word list \<Rightarrow> seqno \<Rightarrow> 8 word list \<Rightarrow> tcpseg \<Rightarrow> 8 word list \<Rightarrow> 16 word \<Rightarrow> tcpconv \<Rightarrow> bool" where
  "ready S isn rd sg bp len c \<longleftrightarrow> len = word_of_nat (length bp) \<and> URG \<notin> flags sg \<and>
    (genuine S isn (rpos rd c) sg bp \<and> SYN \<notin> flags sg \<and> length bp \<le> wroom c \<or> bp = [] \<and> FIN \<notin> flags sg)"

lemma live_getreseq:
  assumes l: "live S isn rd B c" and g: "getreseq c = Some (sg, bp, len, c')"
  obtains s where "live S isn rd B c'" "wroom c' = wroom c" "rpos rd c' = rpos rd c" "genuine S isn s sg bp" "SYN \<notin> flags sg"
    "len = word_of_nat (length bp)" "rpos rd c \<le> s + B" "s \<le> rpos rd c + 2 ^ 20"
    "\<And>C. rpos rd c \<le> s + C \<Longrightarrow> live S isn rd C c \<and> live S isn rd C c'"
proof -
  obtain r rs where r: "reseqq c = r # rs" "sg = rseg r" "bp = rbp r" "len = rlength r" and
    c': "c' = c\<lparr>reseqq := rs, nreseq := nreseq c - 1, reseqlen := reseqlen c - uint (rlength r)\<rparr>"
    using g by (auto simp: getreseq_def split: list.splits)
  have q: "queued S isn (rpos rd c) B (r # rs)" using l r(1) by (simp add: live_def)
  obtain s where s: "genuine S isn s (rseg r) (rbp r)" "SYN \<notin> flags (rseg r)" "rlength r = word_of_nat (length (rbp r))"
    "rpos rd c \<le> s + B" "s \<le> rpos rd c + 2 ^ 20" "queued S isn (rpos rd c) B rs"
    "\<And>C. rpos rd c \<le> s + C \<Longrightarrow> queued S isn (rpos rd c) C (r # rs) \<and> queued S isn (rpos rd c) C rs"
    by (rule queued_Cons[OF q], rule that)
  have f: "rq c' = rq c" "rpos rd c' = rpos rd c" "wroom c' = wroom c" "wok c' = wok c" "state c' = state c" "rclosed c' = rclosed c" "reseqq c' = rs"
    "rcv_nxt c' = rcv_nxt c"
    by (simp_all add: c' rpos_def wroom_def wok_def)
  have "live S isn rd C c \<and> live S isn rd C c'" if "rpos rd c \<le> s + C" for C
    using l s(7)[OF that] r(1) by (simp add: live_def f)
  moreover have "live S isn rd B c'" using l s(6) by (simp add: live_def f)
  ultimately show thesis using that[of s] s f r by metis
qed

section \<open>The next adjacent segment\<close>

lemma genuine_urg: "genuine S isn s sg bp \<Longrightarrow> URG \<notin> flags sg"
  by (simp add: genuine_def)

lemma genuine_upd: "genuine S isn s (sg\<lparr>upd := u\<rparr>) bp = genuine S isn s sg bp"
  by (simp add: genuine_def dstart_def)

lemma genuine_wnd: "genuine S isn s (sg\<lparr>wnd := u\<rparr>) bp = genuine S isn s sg bp"
  by (simp add: genuine_def dstart_def)

lemma seglen_bound: "genuine S isn s sg bp \<Longrightarrow> seglen sg bp \<le> 2 ^ 16"
  using seglen_word(2)[of S isn s sg bp] by simp

lemma live_tcptrim:
  assumes l: "live S isn rd B c" and g: "genuine S isn s sg bp" and near: "\<bar>int s - int (rpos rd c)\<bar> < 2 ^ 30"
    and t: "tcptrim (tcprcvwin c) sg bp (word_of_nat (length bp)) = Some (c', sg', bp', len')"
  obtains s' where "live S isn rd B c'" "rpos rd c' = rpos rd c" "len' = word_of_nat (length bp')" "s' = max s (rpos rd c)"
    "fits S isn (rpos rd c) (wroom c') s' sg' bp'" "rpos rd c \<le> s + seglen sg bp" "wroom c' \<le> 2 ^ 20"
    "flags sg' \<subseteq> flags sg"
proof -
  have n: "rcv_nxt (tcprcvwin c) = seqat isn (rpos rd c)" using l by (simp add: live_def)
  have p: "1 \<le> rpos rd c" by (simp add: rpos_def)
  obtain d s' where d: "c' = (tcprcvwin c)\<lparr>rerecv := d\<rparr>" "len' = word_of_nat (length bp')"
    "fits S isn (rpos rd c) (wroom (tcprcvwin c)) s' sg' bp'" "flags sg' \<subseteq> flags sg" "rpos rd c \<le> s + seglen sg bp" "s' = max s (rpos rd c)"
    by (rule tcptrim_genuine[OF g n live_tcprcvwin(2,3)[OF l] near p t], rule that)
  have f: "wroom c' = wroom (tcprcvwin c)" "rpos rd c' = rpos rd c" by (simp_all add: d(1) wroom_def rpos_def)
  have "live S isn rd B c'" by (rule live_same[OF live_tcprcvwin(1)[OF l]]) (simp_all add: d(1))
  thus thesis by (rule that) (use d f live_tcprcvwin(3)[OF l] in simp_all)
qed

lemma live_nextseg:
  assumes "live S isn rd B c" "B \<le> 2 ^ 20"
  shows "case nextseg c of Inl c' \<Rightarrow> live S isn rd (2 ^ 16) c'
    | Inr (sg, bp, len, c') \<Rightarrow> live S isn rd (2 ^ 16) c' \<and> ready S isn rd sg bp len c'"
  using assms
proof (induction c rule: nextseg.induct)
  case (1 c)
  note l = "1.prems"(1) and B = "1.prems"(2)
  show ?case
  proof (cases "getreseq c")
    case None
    hence "reseqq c = []" by (simp add: getreseq_def split: list.splits)
    hence "live S isn rd (2 ^ 16) c" using l by (simp add: live_def)
    thus ?thesis using None by (simp add: nextseg.simps[of c])
  next
    case (Some y)
    then obtain sg bp len c1 where g: "getreseq c = Some (sg, bp, len, c1)" by (cases y) auto
    obtain s where s: "live S isn rd B c1" "wroom c1 = wroom c" "rpos rd c1 = rpos rd c" "genuine S isn s sg bp" "SYN \<notin> flags sg"
      "len = word_of_nat (length bp)" "rpos rd c \<le> s + B" "s \<le> rpos rd c + 2 ^ 20"
      "\<And>C. rpos rd c \<le> s + C \<Longrightarrow> live S isn rd C c \<and> live S isn rd C c1"
      by (rule live_getreseq[OF l g], rule that)
    have sq: "seq sg = seqat isn s" using s(4) by (simp add: genuine_def)
    have near: "\<bar>int s - int (rpos rd c)\<bar> < 2 ^ 30" using s(7,8) B by simp
    have ge: "seq_ge (rcv_nxt c) (seq sg) \<longleftrightarrow> s \<le> rpos rd c"
      using l near sint_seqat[of "rpos rd c" s isn] by (simp add: seq_ge_def sq live_def)
    show ?thesis
    proof (cases "s \<le> rpos rd c")
      case False
      hence "live S isn rd (2 ^ 16) c" using s(9)[of "2 ^ 16"] by simp
      thus ?thesis using False ge by (simp add: nextseg.simps[of c] g)
    next
      case True
      show ?thesis
      proof (cases "tcptrim (tcprcvwin c1) sg bp len")
        case None
        have "\<not> \<not> seq_ge (rcv_nxt c) (seq sg)" using True ge by simp
        from "1.IH"[OF g refl refl refl this None live_tcprcvwin(1)[OF s(1)] B] show ?thesis
          using True ge None by (simp add: nextseg.simps[of c] g)
      next
        case (Some x)
        then obtain c2 sg2 bp2 len2 where x: "tcptrim (tcprcvwin c1) sg bp (word_of_nat (length bp)) = Some (c2, sg2, bp2, len2)"
          using s(6) by (cases x) auto
        have near1: "\<bar>int s - int (rpos rd c1)\<bar> < 2 ^ 30" using near s(3) by simp
        obtain s' where t: "rpos rd c2 = rpos rd c1" "len2 = word_of_nat (length bp2)" "s' = max s (rpos rd c1)"
          "fits S isn (rpos rd c1) (wroom c2) s' sg2 bp2" "rpos rd c1 \<le> s + seglen sg bp" "flags sg2 \<subseteq> flags sg"
          by (rule live_tcptrim[OF s(1) s(4) near1 x], rule that)
        have "rpos rd c \<le> s + 2 ^ 16" using t(5) s(3) seglen_bound[OF s(4)] by linarith
        hence "live S isn rd (2 ^ 16) c1" using s(9) by blast
        hence "live S isn rd (2 ^ 16) c2" by (rule live_tcptrim[OF _ s(4) near1 x])
        hence "live S isn rd (2 ^ 16) (c2\<lparr>tflags := f\<rparr>)" for f by (rule live_same) simp_all
        moreover have "ready S isn rd sg2 bp2 len2 (c2\<lparr>tflags := f\<rparr>)" for f
        proof -
          have "fits S isn (rpos rd c2) (wroom c2) (rpos rd c2) sg2 bp2" using t(1,3,4) True s(3) by (simp add: max_def split: if_splits)
          moreover have "rpos rd (c2\<lparr>tflags := f\<rparr>) = rpos rd c2" "wroom (c2\<lparr>tflags := f\<rparr>) = wroom c2" by (simp_all add: rpos_def wroom_def)
          ultimately show ?thesis using t(2) genuine_urg[of S isn "rpos rd c2" sg2 bp2] by (simp add: ready_def fits_def)
        qed
        ultimately show ?thesis using True ge x s(6) by (simp add: nextseg.simps[of c] g)
      qed
    qed
  qed
qed

section \<open>A round of the state machine\<close>

lemma ready_seg: "ready S isn rd (sg\<lparr>upd := u\<rparr>) bp len c = ready S isn rd sg bp len c"
  by (simp add: ready_def genuine_def dstart_def)

lemma ready_room:
  "ready S isn rd sg bp len c \<Longrightarrow> rq c' = rq c \<Longrightarrow> wroom c \<le> wroom c' \<Longrightarrow> ready S isn rd sg bp len c'"
  by (auto simp: ready_def rpos_def)

lemma live_inputack:
  assumes l: "live S isn rd B c" and r: "ready S isn rd sg bp len c"
  shows "case inputack now sg c of Inl c' \<Rightarrow> good S isn rd B c'
    | Inr (sg', c') \<Rightarrow> dead S rd c' \<or> live S isn rd B c' \<and> state c' = Established \<and> sg' = sg\<lparr>upd := True\<rparr> \<and> ready S isn rd sg' bp len c'"
proof -
  define c1 where "c1 = snd (update now sg c)"
  have u: "update now sg c = (sg\<lparr>upd := True\<rparr>, c1)" using update_seg[of now sg c] by (simp add: c1_def prod_eq_iff)
  have q: "quiet c c1" unfolding c1_def by (rule quiet_update)
  have est: "dead S rd c' \<or> live S isn rd B c' \<and> state c' = Established \<and> ready S isn rd (sg\<lparr>upd := True\<rparr>) bp len c'"
    if "quiet d c'" "live S isn rd B d" "state d = Established" "rq d = rq c" "wroom c \<le> wroom d" for c' d
    using live_quiet[OF that(1,2)] that(3,4,5) ready_room[OF r] by (auto simp: ready_seg)
  have s: "state c = Syn_received \<or> state c = Established" using l by (auto simp: live_def)
  thus ?thesis
  proof
    assume e: "state c = Established"
    show ?thesis using est[OF q l e] e by (simp add: inputack_def u)
  next
    assume e: "state c = Syn_received"
    have g: "good S isn rd B (sndrst sg why c)" for why using good_quiet[OF quiet_sndrst] l by (simp add: good_def)
    define c2 where "c2 = tcpsetstate Established c1"
    obtain c3 where c3: "update now (sg\<lparr>upd := True\<rparr>) c2 = (sg\<lparr>upd := True\<rparr>, c3)" "quiet c2 c3"
      using quiet_update[of c2 now "sg\<lparr>upd := True\<rparr>"] by (auto simp: update_def)
    from live_quiet[OF q l] have "dead S rd c3 \<or> live S isn rd B c3 \<and> state c3 = Established \<and> ready S isn rd (sg\<lparr>upd := True\<rparr>) bp len c3"
    proof
      assume a: "live S isn rd B c1 \<and> state c1 = state c \<and> wroom c \<le> wroom c1 \<and> rq c1 = rq c"
      have f: "state c2 = Established" "rq c2 = rq c1" "rclosed c2 = rclosed c1" "rcv_nxt c2 = rcv_nxt c1" "rcv_wptr c2 = rcv_wptr c1"
        "window c2 = window c1" "reseqq c2 = reseqq c1" using a e by (simp_all add: c2_def tcpsetstate_def)
      have "wok c2 = wok c1" "rpos rd c2 = rpos rd c1" "wroom c2 = wroom c1" using f by (simp_all add: wok_def wroom_def rpos_def)
      hence "live S isn rd B c2" using a f by (auto simp: live_def)
      thus ?thesis using est[OF c3(2)] a f \<open>wroom c2 = wroom c1\<close> by simp
    next
      assume "dead S rd c1 \<and> Hangup \<in> set (evs c1)"
      thus ?thesis using dead_quiet[OF c3(2) dead_setstate[of S rd c1 Established, folded c2_def]] by simp
    qed
    thus ?thesis using g e c3(1) by (simp add: inputack_def u c2_def[symmetric])
  qed
qed

lemma live_inputurg:
  assumes "live S isn rd B c" "URG \<notin> flags sg"
  obtains c' where "inputurg sg bp c = (bp, c')" "live S isn rd B c'" "state c' = state c" "rq c' = rq c" "wroom c' = wroom c"
proof (rule that[of "if seq_gt (rcv_nxt c) (rcv_urg c) then c\<lparr>rcv_urg := rcv_nxt c\<rparr> else c"])
  show "live S isn rd B (if seq_gt (rcv_nxt c) (rcv_urg c) then c\<lparr>rcv_urg := rcv_nxt c\<rparr> else c)"
    by (rule live_same[OF assms(1)]) simp_all
qed (use assms(2) in \<open>simp_all add: inputurg_def wroom_def\<close>)

text \<open>Bytes at the receive pointer go to the queue.\<close>

lemma live_inputdata:
  assumes l: "live S isn rd B c" and s: "state c = Established" and r: "ready S isn rd sg bp len c"
  obtains c' where "inputdata sg bp len c = Inr c'" "live S isn rd (B + length bp) c'" "state c' = Established"
    "rpos rd c' = rpos rd c + length bp" "rd @ rq c' = (rd @ rq c) @ bp"
proof (cases "bp = []")
  case True
  hence "len = 0" using r by (simp add: ready_def)
  thus thesis using that[of c] True l s by (simp add: inputdata_def)
next
  case False
  have g: "genuine S isn (rpos rd c) sg bp" "SYN \<notin> flags sg" "length bp \<le> wroom c" "len = word_of_nat (length bp)"
    using r False by (auto simp: ready_def)
  have lb: "length bp + 2 < 2 ^ 16" using g(1) by (simp add: genuine_def)
  hence "len \<noteq> 0" using False unat16[of "length bp"] g(4) by auto
  define c1 where "c1 = c\<lparr>rq := rq c @ bp, rcv_nxt := rcv_nxt c + word_of_nat (length bp)\<rparr>"
  define c' where "c' = (if tst (acktimer c1) \<noteq> TcptimerON then c1\<lparr>acktimer := tcpgo (acktimer c1)\<rparr> else c1)"
  have rc: "\<not> rclosed c" using l by (simp add: live_def)
  have uc: "ucast len = (word_of_nat (length bp) :: 32 word)" using g(4) lb ucast16[of "length bp"] by simp
  have i: "inputdata sg bp len c = Inr c'"
    using \<open>len \<noteq> 0\<close> s rc by (simp add: inputdata_def Let_def c'_def c1_def uc)
  have p: "rpos rd c1 = rpos rd c + length bp" by (simp add: rpos_def c1_def)
  have pre: "prefix (rd @ rq c @ bp) S"
  proof -
    obtain t where t: "S = (rd @ rq c) @ t" using l by (auto simp: live_def prefix_def)
    have "dstart (rpos rd c) sg - 1 = length (rd @ rq c)" using g(2) by (simp add: dstart_def rpos_def)
    hence "prefix bp t" using g(1) t by (simp add: genuine_def)
    thus ?thesis using t by (auto simp: prefix_def)
  qed
  have room: "wroom c1 = wroom c - length bp"
  proof -
    have "rcv_wptr c1 - rcv_nxt c1 = (rcv_wptr c - rcv_nxt c) - word_of_nat (length bp)" by (simp add: c1_def)
    moreover have "unat (word_of_nat (length bp) :: 32 word) = length bp" using lb by (simp add: unsigned_of_nat take_bit_nat_eq_self)
    moreover have "word_of_nat (length bp) \<le> rcv_wptr c - rcv_nxt c" using g(3) calculation(2) by (simp add: wroom_def word_le_nat_alt)
    ultimately show ?thesis by (simp add: wroom_def unat_sub)
  qed
  have "wok c1" using l room g(3) by (simp add: live_def wok_def c1_def)
  moreover have "rcv_nxt c1 = seqat isn (rpos rd c1)" using l p by (simp add: live_def c1_def seqat_add)
  moreover have "queued S isn (rpos rd c1) (B + length bp) (reseqq c1)"
    using l queued_advance[of S isn "rpos rd c" B "reseqq c" "length bp"] p by (simp add: live_def c1_def)
  ultimately have "live S isn rd (B + length bp) c1" using rc s pre by (simp add: live_def c1_def)
  hence "live S isn rd (B + length bp) c'" by (rule live_same) (simp_all add: c'_def)
  moreover have "rpos rd c' = rpos rd c + length bp" using p by (simp add: c'_def rpos_def)
  ultimately show thesis using that[of c'] i s by (simp add: c'_def c1_def)
qed

text \<open>At the FIN all of the stream is in the queue.\<close>

lemma live_inputfin:
  assumes l: "live S isn rd B c" and s: "state c = Established" and f: "FIN \<in> flags sg \<longrightarrow> rd @ rq c = S"
  shows "FIN \<notin> flags sg \<and> inputfin sg c = c \<or> dead S rd (inputfin sg c)"
proof (cases "FIN \<in> flags sg")
  case True
  hence "rclosed (inputfin sg c)" "rq (inputfin sg c) = rq c" "state (inputfin sg c) = Close_wait"
    using s by (simp_all add: inputfin_def tcpsetstate_def Let_def)
  thus ?thesis using f True by (simp add: dead_def)
qed (simp add: inputfin_def)

definition resgood :: "8 word list \<Rightarrow> seqno \<Rightarrow> 8 word list \<Rightarrow> inputres \<Rightarrow> bool" where
  "resgood S isn rd r \<longleftrightarrow> (case r of Raise c \<Rightarrow> good S isn rd (2 ^ 16) c | Done c \<Rightarrow> good S isn rd (2 ^ 16) c | Output c \<Rightarrow> good S isn rd (2 ^ 16) c
    | Next sg bp len c \<Rightarrow> dead S rd c \<or> live S isn rd (2 ^ 16) c \<and> ready S isn rd sg bp len c)"

lemma resdead_good: "resdead S rd r \<Longrightarrow> resgood S isn rd r"
  by (auto simp: resdead_def resgood_def good_def split: inputres.splits)

lemma live_input2:
  assumes l: "live S isn rd (2 ^ 16) c" and s: "state c = Established" and r: "ready S isn rd sg bp len c"
  shows "resgood S isn rd (input2 sg bp len c)"
proof -
  have ur: "URG \<notin> flags sg" using r by (simp add: ready_def)
  obtain c1 where u: "inputurg sg bp c = (bp, c1)" "live S isn rd (2 ^ 16) c1" "state c1 = state c" "rq c1 = rq c" "wroom c1 = wroom c"
    by (rule live_inputurg[OF l ur], rule that)
  have r1: "ready S isn rd sg bp len c1" using ready_room[OF r u(4)] u(5) by simp
  have s1: "state c1 = Established" using u(3) s by simp
  obtain c2 where d: "inputdata sg bp len c1 = Inr c2" "live S isn rd (2 ^ 16 + length bp) c2" "state c2 = Established"
    "rpos rd c2 = rpos rd c1 + length bp" "rd @ rq c2 = (rd @ rq c1) @ bp"
    by (rule live_inputdata[OF u(2) s1 r1], rule that)
  have lb: "length bp + 2 < 2 ^ 16" using r by (auto simp: ready_def genuine_def)
  have "FIN \<in> flags sg \<longrightarrow> rd @ rq c2 = S"
  proof
    assume f: "FIN \<in> flags sg"
    have g: "genuine S isn (rpos rd c1) sg bp" "SYN \<notin> flags sg" using r1 f by (auto simp: ready_def)
    have "length S = length (rd @ rq c1) + length bp" using g f by (simp add: genuine_def dstart_def rpos_def)
    moreover have "prefix (rd @ rq c2) S" using d(2) by (simp add: live_def)
    ultimately show "rd @ rq c2 = S" using d(5) by (auto simp: prefix_def)
  qed
  from live_inputfin[OF d(2,3) this] show ?thesis
  proof
    assume f: "FIN \<notin> flags sg \<and> inputfin sg c2 = c2"
    have "2 ^ 16 + length bp \<le> 2 ^ 20" using lb by simp
    from live_nextseg[OF d(2) this] show ?thesis
      using f by (auto simp: input2_def u(1) d(1) resgood_def good_def split: sum.splits)
  next
    assume "dead S rd (inputfin sg c2)"
    from dead_nextseg[OF this] show ?thesis by (auto simp: input2_def u(1) d(1) resgood_def good_def split: sum.splits)
  qed
qed

lemma live_input1:
  assumes l: "live S isn rd (2 ^ 16) c" and r: "ready S isn rd sg bp len c"
  shows "resgood S isn rd (input1 now sg bp len c)"
proof -
  have g: "good S isn rd (2 ^ 16) c" using l by (simp add: good_def)
  have "resgood S isn rd (case inputack now sg c of Inl c \<Rightarrow> Raise c | Inr (sg, c) \<Rightarrow> input2 sg bp len c)"
  proof (cases "inputack now sg c")
    case (Inl c')
    thus ?thesis using live_inputack[OF l r, of now] by (simp add: resgood_def)
  next
    case (Inr x)
    then obtain sg' c' where x: "inputack now sg c = Inr (sg', c')" by (cases x) auto
    from live_inputack[OF l r, of now] have "dead S rd c' \<or> live S isn rd (2 ^ 16) c' \<and> state c' = Established \<and> ready S isn rd sg' bp len c'"
      by (auto simp: x)
    thus ?thesis using resdead_good[OF dead_input2] live_input2 by (auto simp: x)
  qed
  thus ?thesis using g good_quiet[OF quiet_localclose g] by (simp add: input1_alt resgood_def)
qed

lemma live_tcploop:
  assumes "live S isn rd (2 ^ 16) c" "ready S isn rd sg bp len c"
  shows "good S isn rd (2 ^ 16) (tcploop now sg bp len c)"
  using assms
proof (induction now sg bp len c rule: tcploop.induct)
  case (1 now sg bp len c)
  from live_input1[OF "1.prems", of now] show ?case
    using "1.IH" good_quiet[OF quiet_tcpkick] good_quiet[OF quiet_tcpoutput] dead_tcploop
    by (cases "input1 now sg bp len c") (auto simp: resgood_def good_def tcploop.simps[of now sg bp len c])
qed

section \<open>A segment that arrives\<close>

lemma good_force: "good S isn rd B c \<Longrightarrow> good S isn rd B (tcpoutput now (c\<lparr>tflags := f\<rparr>))"
  using good_quiet[OF quiet_trans[OF quiet_tflags quiet_tcpoutput]] .

lemma good_notinwindow:
  assumes "live S isn rd B c"
  shows "good S isn rd B (notinwindow now sg c)"
proof -
  obtain sg1 c1 where u: "update now sg c = (sg1, c1)" by fastforce
  have "good S isn rd B c1" using good_quiet[OF quiet_update[of c now sg]] assms by (simp add: good_def u)
  moreover have "state c1 \<noteq> Closing" if "live S isn rd B c1" using that by (auto simp: live_def)
  ultimately have "good S isn rd B (if \<not> unsent c1 \<and> state c1 = Closing then timewait c1 else c1)"
    using dead_timewait by (auto simp: good_def)
  thus ?thesis using good_force by (simp add: notinwindow_def u Let_def)
qed

text \<open>A segment beyond the receive pointer is kept, unless the queue is full and all of it is dropped.\<close>

lemma good_addreseq:
  assumes c: "good S isn rd B c" and B: "B \<le> 2 ^ 20" and g: "genuine S isn s sg bp" "SYN \<notin> flags sg" "len = word_of_nat (length bp)"
    and s: "live S isn rd B c \<Longrightarrow> rpos rd c \<le> s \<and> s \<le> rpos rd c + 2 ^ 20"
  shows "good S isn rd B (snd (addreseq mem c sg bp len))"
proof (cases "live S isn rd B c")
  case True
  let ?q = "insreseq \<lparr>rseg = sg, rbp = bp, rlength = len\<rparr> (reseqq c)"
  have q: "queued S isn (rpos rd c) B ?q" using True s[OF True] by (intro queued_insreseq[OF _ g _ _ B]) (auto simp: live_def)
  have f: "live S isn rd B (c\<lparr>reseqlen := a, nreseq := b, reseqq := q\<rparr>)" if "queued S isn (rpos rd c) B q" for a b q
    by (rule live_requeue[OF True]) (use that in simp_all)
  have "live S isn rd B (c\<lparr>reseqq := [], nreseq := b, reseqlen := a\<rparr>)" for a b
    by (rule live_requeue[OF True]) simp_all
  thus ?thesis using True f[OF q] by (simp add: addreseq_def dumpreseq_def Let_def good_def)
next
  case False
  thus ?thesis using c dead_addreseq by (auto simp: good_def)
qed

lemma live_inputwin:
  assumes l: "live S isn rd (2 ^ 16) c" and g: "genuine S isn s sg bp" and near: "\<bar>int s - int (rpos rd c)\<bar> < 2 ^ 30"
    and len: "len = word_of_nat (length bp)"
  shows "good S isn rd (2 ^ 16) (inputwin now mem sg bp len c)"
proof (cases "tcptrim (tcprcvwin c) sg bp len")
  case None
  thus ?thesis using good_notinwindow[OF live_tcprcvwin(1)[OF l]] by (simp add: inputwin_def Let_def)
next
  case (Some x)
  then obtain c2 sg2 bp2 len2 where x: "tcptrim (tcprcvwin c) sg bp (word_of_nat (length bp)) = Some (c2, sg2, bp2, len2)"
    using len by (cases x) auto
  obtain s' where t: "live S isn rd (2 ^ 16) c2" "rpos rd c2 = rpos rd c" "len2 = word_of_nat (length bp2)" "s' = max s (rpos rd c)"
    "fits S isn (rpos rd c) (wroom c2) s' sg2 bp2" "rpos rd c \<le> s + seglen sg bp" "wroom c2 \<le> 2 ^ 20" "flags sg2 \<subseteq> flags sg"
    by (rule live_tcptrim[OF l g near x], rule that)
  have g2: "genuine S isn s' sg2 bp2" "SYN \<notin> flags sg2" "rpos rd c2 \<le> s'" "s' + length bp2 \<le> rpos rd c2 + wroom c2"
    using t(2,5) by (simp_all add: fits_def)
  have open2: "state c2 \<noteq> Closed" using t(1) by (auto simp: live_def)
  have at: "seq sg2 = rcv_nxt c2 \<longleftrightarrow> s' = rpos rd c2"
    using g2(1,3,4) t(1,7) seqat_eq[of s' "rpos rd c2" isn] by (simp add: genuine_def live_def)
  show ?thesis
  proof (cases "seq sg2 \<noteq> rcv_nxt c2 \<and> (len2 \<noteq> 0 \<or> SYN \<in> flags sg2 \<or> FIN \<in> flags sg2)")
    case True
    obtain sg3 c3 where u: "update now sg2 c2 = (sg3, c3)" by fastforce
    have sg3: "sg3 = sg2\<lparr>upd := True\<rparr>" using update_seg[of now sg2 c2] by (simp add: u)
    have g3: "genuine S isn s' sg3 bp2" "SYN \<notin> flags sg3" using g2(1,2) by (simp_all add: sg3 genuine_upd)
    have q: "quiet c2 c3" using quiet_update[of c2 now sg2] by (simp add: u)
    have "good S isn rd (2 ^ 16) c3" using good_quiet[OF q] t(1) by (simp add: good_def)
    moreover have "rpos rd c3 \<le> s' \<and> s' \<le> rpos rd c3 + 2 ^ 20" if "live S isn rd (2 ^ 16) c3"
    proof -
      have "rq c3 = rq c2" using live_quiet[OF q t(1)] that by (auto simp: live_def dead_def)
      thus ?thesis using g2(3,4) t(7) by (simp add: rpos_def)
    qed
    ultimately have "good S isn rd (2 ^ 16) (snd (addreseq mem c3 sg3 bp2 len2))" by (intro good_addreseq[OF _ _ g3 t(3)]) simp_all
    thus ?thesis using True open2 x len good_force by (simp add: inputwin_def Let_def u)
  next
    case False
    define c3 where "c3 = (if nreseq c2 > 0 then c2\<lparr>tflags := insert FORCE (tflags c2)\<rparr> else c2)"
    have l3: "live S isn rd (2 ^ 16) c3" by (rule live_same[OF t(1)]) (simp_all add: c3_def)
    have "bp2 = []" if "len2 = 0" using that t(3) g2(1) unat16[of "length bp2"] by (auto simp: genuine_def)
    moreover have "s' = rpos rd c2 \<or> len2 = 0 \<and> FIN \<notin> flags sg2" using False at g2(2) by blast
    ultimately have "ready S isn rd sg2 bp2 len2 c2" using g2 t(3) genuine_urg[OF g2(1)] by (auto simp: ready_def)
    hence "ready S isn rd sg2 bp2 len2 c3" by (rule ready_room) (simp_all add: c3_def wroom_def)
    thus ?thesis using False open2 x len live_tcploop[OF l3] by (auto simp: inputwin_def Let_def c3_def[symmetric])
  qed
qed

section \<open>A conversation that waits for its SYN\<close>

definition fresh :: "8 word list \<Rightarrow> tcpconv \<Rightarrow> bool" where
  "fresh rd c \<longleftrightarrow> \<not> rclosed c \<and> state c = Syn_sent \<and> rd = [] \<and> rq c = [] \<and> reseqq c = [] \<and> uint (window c) \<le> 2 ^ 20"

lemma fresh_quiet: "quiet c c' \<Longrightarrow> fresh rd c \<Longrightarrow> fresh rd c' \<or> dead S rd c' \<and> Hangup \<in> set (evs c')"
  by (auto simp: fresh_def quiet_defs dead_def)

lemma window_scale: "uint (push_bit (if m > Maxqscale then Maxqscale else m mod 256) QMAX) \<le> 2 ^ 20"
proof -
  define k where "k = (if m > Maxqscale then Maxqscale else m mod 256)"
  have "k \<in> {0, 1, 2, 3, 4}" by (auto simp: k_def Maxqscale_def)
  thus ?thesis unfolding k_def[symmetric] by (auto simp: QMAX_def)
qed

lemma tcpsetscale_wok:
  assumes "wroom c = 0" "length (rq c) \<le> 2 ^ 20"
  shows "wok (tcpsetscale m n c)"
proof -
  define k where "k = (if m > Maxqscale then Maxqscale else m mod 256)"
  have "wok (c\<lparr>rcv_scale := a, snd_scale := b, qscale := k, window := push_bit k QMAX, ssthresh := push_bit k QMAX\<rparr>)" for a b
    using assms window_scale[of m] by (simp add: wok_def wroom_def k_def)
  thus ?thesis unfolding tcpsetscale_def Let_def k_def[symmetric] by (rule tcprcvwin_wok(1))
qed

lemma good_synced:
  assumes f: "fresh rd c" and sq: "seq sg = isn"
  shows "good S isn rd (2 ^ 16) (snd (synced now sg c))" and "rd = []"
    "live S isn rd (2 ^ 16) (snd (synced now sg c)) \<Longrightarrow> rpos rd (snd (synced now sg c)) = 1"
proof -
  define c1 where "c1 = procsyn sg c"
  have c1: "state c1 = Syn_sent" "rd = []" "rq c1 = []" "reseqq c1 = []" "\<not> rclosed c1" "rcv_nxt c1 = seqat isn 1" "wok c1" "wroom c1 = 0"
    using f sq by (simp_all add: c1_def fresh_def seqat_def wok_def wroom_def)
  show "rd = []" by (rule c1(2))
  have mk: "live S isn rd (2 ^ 16) c' \<and> rpos rd c' = 1"
    if "state c' \<in> {Syn_received, Established}" "rq c' = []" "reseqq c' = []" "\<not> rclosed c'" "rcv_nxt c' = seqat isn 1" "wok c'" for c'
    using that c1(2) by (simp add: live_def rpos_def)
  have "dead S rd (snd (synced now sg c)) \<or> live S isn rd (2 ^ 16) (snd (synced now sg c)) \<and> rpos rd (snd (synced now sg c)) = 1"
  proof (cases "ACK \<in> flags sg")
    case False
    define c2 where "c2 = tcpsetstate Syn_received (c1\<lparr>ttime := now\<rparr>)"
    have "state c2 = Syn_received" "rq c2 = []" "reseqq c2 = []" "\<not> rclosed c2" "rcv_nxt c2 = seqat isn 1" "wok c2"
      using c1 by (simp_all add: c2_def tcpsetstate_def emit_def wok_def wroom_def Let_def)
    thus ?thesis using mk[of c2] False by (simp add: synced_def c1_def[symmetric] c2_def[symmetric])
  next
    case True
    obtain sg2 c2 where u: "update now sg c1 = (sg2, c2)" by fastforce
    define c3 where "c3 = tcpsynackrtt now c2"
    define c4 where "c4 = tcpsetstate Established c3"
    have q: "quiet c1 c3" using quiet_trans[OF quiet_update[of c1 now sg] quiet_tcpsynackrtt[of _ now]] by (simp add: u c3_def)
    have e: "snd (synced now sg c) = tcpsetscale (ws sg2) (scale c4) c4"
      using True by (simp add: synced_def c1_def[symmetric] u c3_def[symmetric] c4_def[symmetric])
    from q consider "kept c1 c3" | "shut c1 c3" by (auto simp: quiet_def)
    thus ?thesis
    proof cases
      case 1
      have 3: "state c3 = Syn_sent" "rq c3 = []" "reseqq c3 = []" "\<not> rclosed c3" using 1 c1 by (simp_all add: kept_def)
      have w: "rcv_nxt c3 = seqat isn 1" using q c1 by (simp add: quiet_def)
      have e3: "rcv_nxt c4 = rcv_nxt c3" "rcv_wptr c4 = rcv_wptr c3" "window c4 = window c3" "state c4 = Established" "rq c4 = rq c3"
        "rclosed c4 = rclosed c3" "reseqq c4 = reseqq c3"
        using 3(1) by (simp_all add: c4_def tcpsetstate_def emit_def Let_def)
      have "wok c3" using q c1(7) by (simp add: quiet_def)
      moreover have "wok c4 = wok c3" using e3 by (simp add: wok_def wroom_def)
      ultimately have "wok c4" by simp
      hence "wok (tcpsetscale (ws sg2) (scale c4) c4)"
        unfolding tcpsetscale_def Let_def by (intro tcprcvwin_wok(1)) (use window_scale[of "ws sg2"] in \<open>simp add: wok_def wroom_def\<close>)
      thus ?thesis using mk[of "tcpsetscale (ws sg2) (scale c4) c4"] e e3 3 w by simp
    next
      case 2
      hence "dead S rd c3" "Hangup \<in> set (evs c3)" using shut_dead[OF 2, of rd S] c1 by (simp_all add: shut_def)
      hence "dead S rd c4" using dead_setstate[of S rd c3 Established] by (simp add: c4_def)
      thus ?thesis unfolding e by (intro disjI1, rule dead_same) simp_all
    qed
  qed
  thus "good S isn rd (2 ^ 16) (snd (synced now sg c))"
    "live S isn rd (2 ^ 16) (snd (synced now sg c)) \<Longrightarrow> rpos rd (snd (synced now sg c)) = 1"
    by (auto simp: good_def dead_def live_def)
qed

section \<open>The events of a conversation\<close>

text \<open>The state is a conversation and the bytes its user has read.\<close>

type_synonym tcpsys = "tcpconv \<times> 8 word list"

inductive tcpstep :: "8 word list \<Rightarrow> seqno \<Rightarrow> tcpsys \<Rightarrow> tcpsys \<Rightarrow> bool" for S isn where
  arrive: "genuine S isn s sg bp \<Longrightarrow> \<bar>int s - int (rpos rd c)\<bar> < 2 ^ 30 \<Longrightarrow>
    tcpstep S isn (c, rd) (tcpiput now mem sg bp (word_of_nat (length bp)) c, rd)"
| readq: "tcpstep S isn (c, rd) (c\<lparr>rq := drop n (rq c)\<rparr>, rd @ take n (rq c))"
| writeq: "tcpstep S isn (c, rd) (c\<lparr>wq := wq c @ xs\<rparr>, rd)"
| kick: "tcpstep S isn (c, rd) (tcpkick now c, rd)"
| acktimer: "tcpstep S isn (c, rd) (tcpacktimer now c, rd)"
| timeout: "tcpstep S isn (c, rd) (tcptimeout now c, rd)"
| keepalive: "tcpstep S isn (c, rd) (tcpkeepalive rnd b c, rd)"
| startka: "tcpstartka x c = Inr c' \<Longrightarrow> tcpstep S isn (c, rd) (c', rd)"
| gc: "tcpstep S isn (c, rd) (tcpgc now c, rd)"
| advise: "tcpstep S isn (c, rd) (tcpadvise c, rd)"
| hangup: "tcpstep S isn (c, rd) (tcphangup remote c, rd)"
| close: "tcpstep S isn (c, rd) (tcpclose now c, rd)"

text \<open>The beginnings: an active call, whatever its parameters, or a call that comes out of limbo with the sequence number
  of its SYN.\<close>

inductive tcpstarted :: "seqno \<Rightarrow> tcpsys \<Rightarrow> bool" for isn where
  connecting: "rq c = [] \<Longrightarrow> \<not> rclosed c \<Longrightarrow> tcpstarted isn (tcpstart_connect now irtt v6 isn0 mtu c, [])"
| accepted: "rq c = [] \<Longrightarrow> \<not> rclosed c \<Longrightarrow> lirs lp = isn \<Longrightarrow> tcpstarted isn (newcall now lp sg (tcpstart_listen irtt l) c, [])"

definition tcpinv :: "8 word list \<Rightarrow> seqno \<Rightarrow> tcpsys \<Rightarrow> bool" where
  "tcpinv S isn s = (case s of (c, rd) \<Rightarrow> good S isn rd (2 ^ 16) c \<or> fresh rd c)"

definition tcpgoal :: "8 word list \<Rightarrow> tcpsys \<Rightarrow> bool" where
  "tcpgoal S s = (case s of (c, rd) \<Rightarrow> prefix (rd @ rq c) S \<and> (state c = Close_wait \<and> Hangup \<notin> set (evs c) \<longrightarrow> rd @ rq c = S))"

lemma tcpinv_goal: "tcpinv S isn s \<Longrightarrow> tcpgoal S s"
  by (cases s) (auto simp: tcpinv_def tcpgoal_def good_def live_def dead_def fresh_def)

lemma tcpinv_quiet: "tcpinv S isn (c, rd) \<Longrightarrow> quiet c c' \<Longrightarrow> tcpinv S isn (c', rd)"
  using good_quiet[of c c' S isn rd] fresh_quiet[of c c' rd S] by (auto simp: tcpinv_def good_def)

lemma tcpinv_readq:
  assumes "tcpinv S isn (c, rd)"
  shows "tcpinv S isn (c\<lparr>rq := drop n (rq c)\<rparr>, rd @ take n (rq c))"
proof -
  define c' where "c' = c\<lparr>rq := drop n (rq c)\<rparr>"
  have f: "(rd @ take n (rq c)) @ rq c' = rd @ rq c" "rpos (rd @ take n (rq c)) c' = rpos rd c" "wroom c' = wroom c"
    by (simp_all add: c'_def rpos_def wroom_def)
  have "wok c'" if "wok c"
  proof -
    have "length (rq c') \<le> length (rq c)" "window c' = window c" by (simp_all add: c'_def)
    thus ?thesis using that f(3) unfolding wok_def by auto
  qed
  hence "live S isn (rd @ take n (rq c)) (2 ^ 16) c'" if "live S isn rd (2 ^ 16) c"
    using that f(1,2) unfolding live_def by (simp add: c'_def)
  moreover have "dead S (rd @ take n (rq c)) c'" if "dead S rd c"
    using that f(1) unfolding dead_def by (simp add: c'_def)
  moreover have "fresh (rd @ take n (rq c)) c'" if "fresh rd c" using that by (simp add: fresh_def c'_def)
  ultimately show ?thesis using assms by (auto simp: tcpinv_def good_def c'_def[symmetric])
qed

lemma good_inputseg:
  assumes "good S isn rd (2 ^ 16) c" "genuine S isn s sg bp" "live S isn rd (2 ^ 16) c \<Longrightarrow> \<bar>int s - int (rpos rd c)\<bar> < 2 ^ 30"
  shows "good S isn rd (2 ^ 16) (inputseg now mem sg bp (word_of_nat (length bp)) c)"
proof (cases "dead S rd (stateless_hog sg c)")
  case True
  thus ?thesis unfolding inputseg_def good_def using dead_inputwin by blast
next
  case False
  hence l: "live S isn rd (2 ^ 16) c" using assms(1) dead_quiet[OF quiet_stateless_hog] by (auto simp: good_def)
  with live_quiet[OF quiet_stateless_hog l] False have "live S isn rd (2 ^ 16) (stateless_hog sg c)" "rq (stateless_hog sg c) = rq c" by auto
  thus ?thesis unfolding inputseg_def using assms(3)[OF l] by (intro live_inputwin[OF _ assms(2)]) (simp_all add: rpos_def)
qed

lemma tcpinv_tcpiput:
  assumes i: "tcpinv S isn (c, rd)" and g: "genuine S isn s sg bp" and near: "\<bar>int s - int (rpos rd c)\<bar> < 2 ^ 30"
  shows "tcpinv S isn (tcpiput now mem sg bp (word_of_nat (length bp)) c, rd)"
proof -
  define sg' where "sg' = sg\<lparr>wnd := push_bit (rcv_scale c) (wnd sg)\<rparr>"
  define c1 where "c1 = tcpsetkacounter c"
  have g': "genuine S isn s sg' bp" using g by (simp add: sg'_def genuine_wnd)
  have i1: "tcpinv S isn (c1, rd)" using tcpinv_quiet[OF i quiet_tcpsetkacounter] by (simp add: c1_def)
  have rp: "rpos rd c1 = rpos rd c" by (simp add: c1_def rpos_def tcpsetkacounter_def Let_def)
  have e: "tcpiput now mem sg bp (word_of_nat (length bp)) c =
    (case state c1 of
       Closed \<Rightarrow> tcpkick now (sndrst sg' ''sending to Closed'' c1)
     | Syn_sent \<Rightarrow> (case syn_sent now sg' (word_of_nat (length bp)) c1 of Inl r \<Rightarrow> inputend now r | Inr (sg, c) \<Rightarrow> inputseg now mem sg bp (word_of_nat (length bp)) c)
     | Syn_received \<Rightarrow> inputseg now mem sg' bp (word_of_nat (length bp)) (if ACK \<in> flags sg' then tcpsynackrtt now c1 else c1)
     | _ \<Rightarrow> inputseg now mem sg' bp (word_of_nat (length bp)) c1)"
    unfolding tcpiput_def Let_def sg'_def[symmetric] c1_def[symmetric] by (rule refl)
  have k: "tcpinv S isn (tcpkick now c', rd)" "tcpinv S isn (tcpoutput now c', rd)" if "tcpinv S isn (c', rd)" for c'
    using tcpinv_quiet[OF that] quiet_tcpkick quiet_tcpoutput by blast+
  consider "dead S rd c" | "fresh rd c1" | "live S isn rd (2 ^ 16) c1"
  proof -
    have "dead S rd c" if "dead S rd c1" by (rule dead_same[OF that]) (simp_all add: c1_def tcpsetkacounter_def Let_def)
    thus thesis using that i1 by (auto simp: tcpinv_def good_def)
  qed
  thus ?thesis
  proof cases
    case 1
    thus ?thesis using dead_tcpiput by (simp add: tcpinv_def good_def)
  next
    case 3
    have "tcpinv S isn (inputseg now mem sg' bp (word_of_nat (length bp)) c1, rd)"
      using good_inputseg[of S isn rd c1, OF _ g'] 3 near rp by (auto simp: tcpinv_def good_def)
    moreover have "tcpinv S isn (inputseg now mem sg' bp (word_of_nat (length bp)) (tcpsynackrtt now c1), rd)"
    proof -
      have "good S isn rd (2 ^ 16) (tcpsynackrtt now c1)" using good_quiet[OF quiet_tcpsynackrtt] 3 by (simp add: good_def)
      moreover have "rpos rd (tcpsynackrtt now c1) = rpos rd c1" by (simp add: rpos_def tcpsynackrtt_def Let_def)
      ultimately show ?thesis using good_inputseg[of S isn rd "tcpsynackrtt now c1", OF _ g'] near rp by (auto simp: tcpinv_def)
    qed
    moreover have "state c1 = Syn_received \<or> state c1 = Established" using 3 by (auto simp: live_def)
    ultimately show ?thesis unfolding e by auto
  next
    case 2
    have s: "state c1 = Syn_sent" using 2 by (simp add: fresh_def)
    have sy: "good S isn rd (2 ^ 16) (snd (synced now sg' c1))" "rd = []"
      "live S isn rd (2 ^ 16) (snd (synced now sg' c1)) \<Longrightarrow> rpos rd (snd (synced now sg' c1)) = 1" "s = 0" if "SYN \<in> flags sg'"
    proof -
      have "s = 0" "seq sg' = isn" using g' that by (auto simp: genuine_def seqat_def)
      thus "good S isn rd (2 ^ 16) (snd (synced now sg' c1))" "rd = []"
        "live S isn rd (2 ^ 16) (snd (synced now sg' c1)) \<Longrightarrow> rpos rd (snd (synced now sg' c1)) = 1" "s = 0"
        using good_synced[OF 2] by auto
    qed
    have "tcpinv S isn (case syn_sent now sg' (word_of_nat (length bp)) c1 of Inl r \<Rightarrow> inputend now r | Inr (sg, c) \<Rightarrow> inputseg now mem sg bp (word_of_nat (length bp)) c, rd)"
    proof (cases rule: syn_sent_cases[of now sg' "word_of_nat (length bp)" c1])
      case 5
      have "genuine S isn s (fst (synced now sg' c1)) bp" using synced_seg[of now sg' c1] g' genuine_upd by metis
      hence "good S isn rd (2 ^ 16) (inputseg now mem (fst (synced now sg' c1)) bp (word_of_nat (length bp)) (snd (synced now sg' c1)))"
        using sy[OF 5(1)] by (intro good_inputseg) auto
      thus ?thesis using 5(2) by (cases "synced now sg' c1") (simp add: tcpinv_def)
    next
      case 6
      thus ?thesis using k(2) sy(1)[OF 6(1)] by (simp add: inputend_def tcpinv_def)
    qed (use i1 k tcpinv_quiet[OF i1 quiet_sndrst] tcpinv_quiet[OF i1 quiet_localclose] in \<open>simp_all add: inputend_def\<close>)
    thus ?thesis unfolding e using s by simp
  qed
qed

lemma tcpinv_tcpclose:
  assumes "tcpinv S isn (c, rd)"
  shows "tcpinv S isn (tcpclose now c, rd)"
proof -
  define c0 where "c0 = c\<lparr>rclosed := True, rq := []\<rparr>"
  have pre: "prefix rd S" using tcpinv_goal[OF assms] by (auto simp: tcpgoal_def dest: prefix_flush)
  have c0: "rclosed c0" "rq c0 = []" "state c0 = state c" by (simp_all add: c0_def)
  have shut: "dead S rd (localclose d)" if "rq d = []" for d
  proof -
    have "shut d (localclose d)"
      using that by (cases "state d") (simp_all add: shut_def localclose_def tcpsetstate_def dumpreseq_def emit_def Let_def)
    thus ?thesis using shut_dead[of d "localclose d" rd S] that pre by simp
  qed
  have half: "dead S rd (tcpoutput now (tcpsetstate new (c0\<lparr>flgcnt := a, snd_nxt := b\<rparr>)))" if "new = Finwait1 \<or> new = Last_ack" for new a b
  proof -
    define d where "d = tcpsetstate new (c0\<lparr>flgcnt := a, snd_nxt := b\<rparr>)"
    have "state d = new" "rq d = []" "rclosed d" using that c0 by (auto simp: d_def tcpsetstate_def emit_def Let_def)
    hence "dead S rd d" using pre that by (auto simp: dead_def)
    thus ?thesis unfolding d_def[symmetric] by (rule dead_quiet[OF quiet_tcpoutput])
  qed
  have rest: "dead S rd c0" if "state c \<notin> {Syn_sent, Syn_received, Established, Close_wait}" using that c0 pre by (simp add: dead_def)
  have "dead S rd (tcpclose now c)"
    unfolding tcpclose_def Let_def c0_def[symmetric] c0(3)
    using shut[of c0] shut[of "emit (Connected False) c0"] c0(2) half rest by (cases "state c") (simp_all add: emit_def)
  thus ?thesis by (simp add: tcpinv_def good_def)
qed

lemma tcpinv_step:
  assumes "tcpinv S isn s" "tcpstep S isn s t"
  shows "tcpinv S isn t"
  using assms(2,1)
proof cases
  case (arrive x sg bp rd c now mem)
  thus ?thesis using tcpinv_tcpiput assms(1) by simp
next
  case (readq c rd n)
  thus ?thesis using tcpinv_readq assms(1) by simp
next
  case (writeq c rd xs)
  have "quiet c (c\<lparr>wq := wq c @ xs\<rparr>)" by (rule quiet_same) simp_all
  thus ?thesis using writeq tcpinv_quiet assms(1) by simp
next
  case (startka x c c' rd)
  thus ?thesis using tcpinv_quiet[OF _ quiet_tcpstartka[OF startka(3)]] assms(1) by simp
next
  case (close c rd now)
  thus ?thesis using tcpinv_tcpclose assms(1) by simp
qed (use assms(1) tcpinv_quiet quiet_tcpkick quiet_tcpacktimer quiet_tcptimeout quiet_tcpkeepalive quiet_tcpgc quiet_tcpadvise
      quiet_tcphangup in blast)+

lemma inittcpctl_fields:
  "rq (inittcpctl irtt v6 c) = rq c" "rclosed (inittcpctl irtt v6 c) = rclosed c" "reseqq (inittcpctl irtt v6 c) = []"
  "state (inittcpctl irtt v6 c) = Closed" "uint (window (inittcpctl irtt v6 c)) \<le> 2 ^ 20"
  using window_scale[of 0] by (simp_all add: inittcpctl_def zerotcb_def tcpsetscale_def Let_def)

lemma tcpstart_inv:
  assumes "tcpstarted isn s"
  shows "tcpinv S isn s"
  using assms
proof cases
  case (connecting c now irtt v6 isn0 mtu)
  define c1 where "c1 = tcpsndsyn now isn0 mtu ((inittcpctl irtt v6 c)\<lparr>tflags := insert ACTIVE (tflags (inittcpctl irtt v6 c))\<rparr>)"
  have "fresh [] (tcpsetstate Syn_sent c1)"
    using connecting(2,3) inittcpctl_fields[of irtt v6 c] by (simp add: c1_def tcpsndsyn_def fresh_def tcpsetstate_def Let_def)
  hence "tcpinv S isn (tcpsetstate Syn_sent c1, [])" by (simp add: tcpinv_def)
  from tcpinv_quiet[OF this quiet_tcpoutput] show ?thesis using connecting(1) by (simp add: tcpstart_connect_def Let_def c1_def)
next
  case (accepted c lp now sg irtt l)
  define l1 where "l1 = tcpstart_listen irtt l"
  have l1: "reseqq l1 = []" using inittcpctl_fields(3)[of irtt False l] by (simp add: l1_def tcpstart_listen_def Let_def)
  define c1 where "c1 = (copytcb l1 c)\<lparr>timer := tcphalt (timer l1), acktimer := tcphalt (acktimer l1),
       katimer := tcphalt (katimer l1), rtt_timer := tcphalt (rtt_timer l1), irs := isn, rcv_nxt := isn + 1, rcv_wptr := isn + 1,
       rcv_wsnt := 0, rcv_urg := isn + 1, iss := liss lp, rttseq := liss lp, snd_wl2 := liss lp, snd_una := liss lp + 1, snd_ptr := liss lp + 1,
       snd_nxt := liss lp + 1, snd_rxt := liss lp + 1, flgcnt := 0, tflags := insert SYNACK (tflags l1 - {CLONE})\<rparr>"
  define c2 where "c2 = (if lmss lp \<noteq> 0 \<and> lmss lp < mss c1 then c1\<lparr>mss := lmss lp\<rparr> else c1)"
  define c3 where "c3 = tcpsetscale (lrcvscale lp) (lsndscale lp) c2"
  define c4 where "c4 = tcpsynackrtt now ((initialwindow (c3\<lparr>snd_wnd := wnd sg\<rparr>))\<lparr>sndsyntime := lastsend lp + ucast (rexmits lp) * SYNACK_RXTIMER\<rparr>)"
  have e: "newcall now lp sg l1 c = tcpsetstate Established c4"
    using accepted(4) unfolding newcall_def Let_def c4_def c3_def c2_def c1_def by (simp add: copytcb_def)
  have 2: "rq c2 = []" "rclosed c2 = False" "reseqq c2 = []" "rcv_nxt c2 = seqat isn 1" "wroom c2 = 0"
    using accepted(2,3) l1 by (simp_all add: c2_def c1_def copytcb_def seqat_def wroom_def)
  have 3: "rq c3 = []" "rclosed c3 = False" "reseqq c3 = []" "rcv_nxt c3 = seqat isn 1" "wok c3"
    using 2 tcpsetscale_wok[of c2] by (simp_all add: c3_def)
  have q: "quiet c3 c4"
    unfolding c4_def by (rule quiet_trans[OF quiet_same quiet_tcpsynackrtt]) (simp_all add: initialwindow_def)
  have 4: "rq c4 = []" "rclosed c4 = False" "reseqq c4 = []" "rcv_nxt c4 = seqat isn 1" "wok c4"
    using 3 q by (simp_all add: c4_def tcpsynackrtt_def initialwindow_def Let_def quiet_def)
  define c5 where "c5 = tcpsetstate Established c4"
  have 5: "rq c5 = []" "rclosed c5 = False" "reseqq c5 = []" "rcv_nxt c5 = seqat isn 1" "wok c5" "state c5 = Established"
    using 4 by (simp_all add: c5_def tcpsetstate_def emit_def Let_def wok_def wroom_def)
  hence "live S isn [] (2 ^ 16) c5" by (simp add: live_def rpos_def)
  thus ?thesis using accepted(1) e by (simp add: tcpinv_def good_def c5_def l1_def)
qed

interpretation tcpr: safety "tcpstarted isn" "tcpstep S isn" "tcpinv S isn" "tcpgoal S" for S isn
  by unfold_locales (blast intro: tcpstart_inv tcpinv_step tcpinv_goal)+

section \<open>The stream is delivered\<close>

text \<open>A run: a call is accepted, its second segment arrives before its first.\<close>

definition tcp_ex0 :: tcpconv where
  "tcp_ex0 = \<lparr>state = Closed,
     snd_una = 0, snd_nxt = 0, snd_ptr = 0, snd_wnd = 0, snd_urg = 0, snd_wl2 = 0, snd_scale = 0, snd_dupacks = 0,
     snd_partialack = 0, snd_recovery = False, snd_retransmit = False, snd_rto = False, snd_rxt = 0,
     rcv_nxt = 0, rcv_wnd = 0, rcv_wsnt = 0, rcv_wptr = 0, rcv_urg = 0, rcv_ackptr = 0, rcv_blocked = False, rcv_scale = 0,
     iss = 0, cwind = 0, abcbytes = 0, scale = 0, ssthresh = 0, irs = 0, mss = 0, rerecv = 0, window = 0, qscale = 0,
     backoff = 0, backedoff = 0, tflags = {}, reseqq = [], nreseq = 0, reseqlen = 0,
     timer = \<lparr>tst = TcptimerOFF, start = 0, tcount = 0\<rparr>, acktimer = \<lparr>tst = TcptimerOFF, start = 0, tcount = 0\<rparr>,
     rtt_timer = \<lparr>tst = TcptimerOFF, start = 0, tcount = 0\<rparr>, katimer = \<lparr>tst = TcptimerOFF, start = 0, tcount = 0\<rparr>,
     rttseq = 0, srtt = 0, mdev = 0, kacounter = 0, sndsyntime = 0, ttime = 0, timeuna = 0, flgcnt = 0,
     rq = [], wq = [], rclosed = False, net = (\<lambda>n. Okay), npkt = 0, hogdefense = False, evs = []\<rparr>"

definition tcp_seg :: "seqno \<Rightarrow> seqno \<Rightarrow> tcpflag set \<Rightarrow> tcpseg" where
  "tcp_seg s a f = \<lparr>seq = s, ack = a, flags = f, upd = False, ws = 0, wnd = 1000, urg = 0, mssopt = 0\<rparr>"

definition tcp_ex1 :: tcpconv where
  "tcp_ex1 = newcall 10 \<lparr>lirs = 4294967295, liss = 300, lmss = 1000, lrcvscale = 0, lsndscale = 0, lastsend = 5, rexmits = 0\<rparr>
    (tcp_seg 0 301 {ACK}) (tcpstart_listen 500 tcp_ex0) tcp_ex0"

definition tcp_ex2 :: tcpconv where
  "tcp_ex2 = tcpiput 11 True (tcp_seg 1 301 {ACK, FIN}) [2, 3] (word_of_nat (length [2 :: 8 word, 3])) tcp_ex1"

definition tcp_ex3 :: tcpconv where
  "tcp_ex3 = tcpiput 12 True (tcp_seg 0 301 {ACK}) [1] (word_of_nat (length [1 :: 8 word])) tcp_ex2"

lemma tcp_ex3_state: "state tcp_ex3 = Close_wait \<and> Hangup \<notin> set (evs tcp_ex3)"
  by code_simp

lemma tcp_ex_run:
  shows "tcpstarted 4294967295 (tcp_ex1, [])" and "(tcpstep [1, 2, 3] 4294967295)\<^sup>*\<^sup>* (tcp_ex1, []) (tcp_ex3, [])"
proof -
  show "tcpstarted 4294967295 (tcp_ex1, [])"
    unfolding tcp_ex1_def by (rule tcpstarted.accepted) (simp_all add: tcp_ex0_def)
  have q: "rq tcp_ex1 = []" "rq tcp_ex2 = []" by code_simp+
  have "tcpstep [1, 2, 3] 4294967295 (tcp_ex1, []) (tcp_ex2, [])"
    unfolding tcp_ex2_def
    by (rule tcpstep.arrive[of _ _ 2]) (simp_all add: genuine_def dstart_def seqat_def tcp_seg_def rpos_def q)
  moreover have "tcpstep [1, 2, 3] 4294967295 (tcp_ex2, []) (tcp_ex3, [])"
    unfolding tcp_ex3_def
    by (rule tcpstep.arrive[of _ _ 1]) (simp_all add: genuine_def dstart_def seqat_def tcp_seg_def rpos_def q)
  ultimately show "(tcpstep [1, 2, 3] 4294967295)\<^sup>*\<^sup>* (tcp_ex1, []) (tcp_ex3, [])" by auto
qed

text \<open>
  C2: let segments of the peer's stream arrive at a conversation, lost, repeated, cut, overlapping and in any order,
  none of them with the URG flag (whose bytes the code drops) and each less than \<open>2^30\<close> bytes before or after the
  receive pointer when it arrives, with at most 65533 bytes of data; between reads, writes, timeouts, acknowledgements of
  any content, resets, failures of memory and of the network, hangups and the close. Then the bytes that were read followed by those
  in the receive queue are a prefix of the stream, across the wrap of the sequence numbers; and when the conversation
  is in \<open>Close_wait\<close> and was not hung up, so that the reader sees an end of file, they are the whole stream.\<close>

theorem tcp_delivers_stream:
  assumes "tcpstarted isn s" "(tcpstep S isn)\<^sup>*\<^sup>* s (c, rd)"
  shows "prefix (rd @ rq c) S \<and> (state c = Close_wait \<and> Hangup \<notin> set (evs c) \<longrightarrow> rd @ rq c = S)"
  using tcpr.reached_goal[OF assms] by (simp add: tcpgoal_def)

theorem tcp_delivers_stream_witness:
  "state tcp_ex3 = Close_wait \<and> [] @ rq tcp_ex3 = [1, 2, 3]"
  using tcp_delivers_stream[OF tcp_ex_run] tcp_ex3_state by blast

end
