(* ===== verification/Tcp_Progress.thy ===== *)
theory Tcp_Progress
  imports Tcp_Stream
begin

text \<open>
  Bytes that arrive in order reach the receive queue, and what is in the queue stays there until it is read
  or the conversation is hung up.
\<close>

section \<open>The receive queue only grows\<close>

definition grows :: "tcpconv \<Rightarrow> tcpconv \<Rightarrow> bool" where
  "grows c c' \<longleftrightarrow> (Hangup \<in> set (evs c) \<longrightarrow> Hangup \<in> set (evs c')) \<and> (Hangup \<in> set (evs c') \<or> prefix (rq c) (rq c'))"

lemma grows_trans [trans]: "grows c c' \<Longrightarrow> grows c' c'' \<Longrightarrow> grows c c''"
  unfolding grows_def using prefix_order.order_trans by blast

lemma grows_same: "rq c' = rq c \<Longrightarrow> evs c' = evs c \<Longrightarrow> grows c c'"
  by (simp add: grows_def)

lemma quiet_grows: "quiet c c' \<Longrightarrow> grows c c'"
  by (auto simp: quiet_defs grows_def)

lemma grows_setstate: "new \<noteq> Closed \<Longrightarrow> grows c (tcpsetstate new c)"
  by (cases new) (simp_all add: grows_def tcpsetstate_def emit_def Let_def)

lemma grows_timewait: "grows c (timewait c)"
proof -
  define c1 where "c1 = c\<lparr>rtt_timer := tcphalt (rtt_timer c), acktimer := tcphalt (acktimer c), katimer := tcphalt (katimer c)\<rparr>"
  have "grows c c1" by (rule grows_same) (simp_all add: c1_def)
  moreover have "grows c1 (tcpsetstate Time_wait c1)" by (rule grows_setstate) simp
  moreover have "grows (tcpsetstate Time_wait c1) (timewait c)" by (rule grows_same) (simp_all add: timewait_def Let_def c1_def)
  ultimately show ?thesis using grows_trans by blast
qed

lemma grows_update: "update now sg c = (sg', c') \<Longrightarrow> grows c c'"
  using quiet_grows[OF quiet_update[of c now sg]] by simp

lemma grows_inputack: "case inputack now sg c of Inl c' \<Rightarrow> grows c c' | Inr (sg', c') \<Rightarrow> grows c c'"
proof -
  obtain sg1 c1 where u: "update now sg c = (sg1, c1)" by fastforce
  have 1: "grows c c1" by (rule grows_update[OF u])
  have same: "grows c c'" if "rq c' = rq c1" "evs c' = evs c1" for c' using grows_trans[OF 1 grows_same[OF that]] .
  have same0: "grows c c'" if "rq c' = rq c" "evs c' = evs c" for c' using grows_same[OF that] .
  show ?thesis
  proof (cases "state c")
    case Syn_received
    have "grows c (snd (update now sg1 (tcpsetstate Established c1)))"
      using grows_trans[OF grows_trans[OF 1 grows_setstate] quiet_grows[OF quiet_update]] by simp
    then show ?thesis using Syn_received quiet_grows[OF quiet_sndrst] by (auto simp: inputack_def u split: prod.split)
  next
    case Finwait1
    define c2 where "c2 = tcpsetkacounter (c1\<lparr>rtt_timer := tcphalt (rtt_timer c1), acktimer := tcphalt (acktimer c1)\<rparr>)\<lparr>ttime := now\<rparr>"
    have "grows c c2" by (rule same) (simp_all add: c2_def tcpsetkacounter_def Let_def)
    hence 2: "grows c (tcpsetstate Finwait2 c2)" using grows_trans grows_setstate by blast
    have "grows c ((tcpsetstate Finwait2 c2)\<lparr>katimer := k\<rparr>)" for k by (rule grows_trans[OF 2 grows_same]) simp_all
    then show ?thesis using Finwait1 1 by (simp add: inputack_def u Let_def c2_def)
  next
    case Closing
    then show ?thesis using 1 grows_trans[OF 1 grows_timewait] by (simp add: inputack_def u)
  next
    case Last_ack
    have "grows c (c1\<lparr>tflags := f\<rparr>)" "grows c (c1\<lparr>tflags := f, timer := t\<rparr>)" for f t by (rule same; simp)+
    then show ?thesis using Last_ack grows_trans[OF 1 quiet_grows[OF quiet_localclose]] by (simp add: inputack_def u Let_def)
  next
    case Time_wait
    have "grows c (c\<lparr>tflags := f\<rparr>)" "grows c (c\<lparr>tflags := f, timer := t\<rparr>)" for f t by (rule same0; simp)+
    then show ?thesis using Time_wait by (simp add: inputack_def Let_def)
  qed (use 1 same0 in \<open>simp_all add: inputack_def u\<close>)
qed

lemma grows_inputfin: "grows c (inputfin sg c)"
proof -
  have s: "grows c (c\<lparr>tflags := f\<rparr>)" "grows c (c\<lparr>tflags := f, rcv_nxt := n\<rparr>)" "grows c (c\<lparr>tflags := f, timer := t\<rparr>)" "grows c c" for f n t
    by (rule grows_same; simp)+
  have "grows c (tcpsetstate new (c\<lparr>tflags := f, rcv_nxt := n\<rparr>))" if "new \<noteq> Closed" for new f n
    using grows_trans[OF s(2) grows_setstate[OF that]] .
  thus ?thesis using s grows_trans[OF s(2) grows_timewait] by (simp add: inputfin_def Let_def)
qed

lemma grows_nextseg: "case nextseg c of Inl c' \<Rightarrow> grows c c' | Inr (sg, bp, len, c') \<Rightarrow> grows c c'"
proof (induction c rule: nextseg.induct)
  case (1 c)
  have r: "grows c c" by (rule grows_same) simp_all
  show ?case
  proof (cases "getreseq c")
    case None
    thus ?thesis using r by (simp add: nextseg.simps[of c])
  next
    case (Some y)
    then obtain sg bp len c1 where g: "getreseq c = Some (sg, bp, len, c1)" by (cases y) auto
    have "grows c c1" by (rule grows_same) (use g in \<open>auto simp: getreseq_def split: list.splits\<close>)
    hence 1: "grows c (tcprcvwin c1)" using grows_trans quiet_grows[OF quiet_tcprcvwin] by blast
    show ?thesis
    proof (cases "seq_ge (rcv_nxt c) (seq sg)")
      case True
      show ?thesis
      proof (cases "tcptrim (tcprcvwin c1) sg bp len")
        case None
        have "\<not> \<not> seq_ge (rcv_nxt c) (seq sg)" using True by simp
        from "1.IH"[OF g refl refl refl this None] show ?thesis
          using True None grows_trans[OF 1] by (auto simp: nextseg.simps[of c] g split: sum.splits)
      next
        case (Some x)
        then obtain c2 sg2 bp2 len2 where x: "tcptrim (tcprcvwin c1) sg bp len = Some (c2, sg2, bp2, len2)" by (cases x) auto
        have "grows c (c2\<lparr>tflags := f\<rparr>)" for f
          by (rule grows_trans[OF grows_trans[OF 1 quiet_grows[OF quiet_tcptrim[OF x]]] grows_same]) simp_all
        thus ?thesis using True by (simp add: nextseg.simps[of c] g x)
      qed
    qed (use r g in \<open>simp add: nextseg.simps[of c]\<close>)
  qed
qed

primrec resc :: "inputres \<Rightarrow> tcpconv" where
  "resc (Raise c) = c" | "resc (Done c) = c" | "resc (Output c) = c" | "resc (Next sg bp len c) = c"

lemma grows_inputdata: "grows c (res (inputdata sg bp len c))"
  using quiet_grows[OF quiet_sndrst[of c sg]] by (simp add: inputdata_def Let_def grows_def)

lemma input2_grows:
  assumes "inputurg sg bp c = (bp', c1)" "inputdata sg bp' len c1 = Inr c2"
  shows "grows c2 (resc (input2 sg bp len c))"
  using assms grows_trans[OF grows_inputfin[of c2 sg]] grows_nextseg[of "inputfin sg c2"]
  by (auto simp: input2_def split: sum.splits)

lemma grows_input2: "grows c (resc (input2 sg bp len c))"
proof -
  obtain bp1 c1 where u: "inputurg sg bp c = (bp1, c1)" by fastforce
  have 1: "grows c c1" by (rule grows_same) (use u in \<open>auto simp: inputurg_def split: if_splits\<close>)
  show ?thesis
  proof (cases "inputdata sg bp1 len c1")
    case (Inl c2)
    thus ?thesis using grows_trans[OF 1 grows_inputdata[of c1 sg bp1 len]] by (simp add: input2_def u)
  next
    case (Inr c2)
    thus ?thesis using grows_trans[OF grows_trans[OF 1 grows_inputdata[of c1 sg bp1 len]]] input2_grows[OF u Inr] by simp
  qed
qed

lemma grows_input1: "grows c (resc (input1 now sg bp len c))"
proof -
  have "grows c (resc (case inputack now sg c of Inl c \<Rightarrow> Raise c | Inr (sg, c) \<Rightarrow> input2 sg bp len c))"
  proof (cases "inputack now sg c")
    case (Inl c')
    thus ?thesis using grows_inputack[of c now sg] by simp
  next
    case (Inr x)
    then obtain sg' c' where x: "inputack now sg c = Inr (sg', c')" by (cases x) auto
    have "grows c c'" using grows_inputack[of c now sg] by (simp add: x)
    thus ?thesis using grows_trans[OF _ grows_input2] by (simp add: x)
  qed
  thus ?thesis using quiet_grows[OF quiet_localclose[of c]] quiet_grows[OF quiet_refl[of c]] by (simp add: input1_alt)
qed

lemma grows_rest:
  assumes "grows c (resc r)" "\<And>sg bp len c'. r = Next sg bp len c' \<Longrightarrow> grows c' (tcploop now sg bp len c')"
  shows "grows c (case r of Raise c \<Rightarrow> tcpkick now c | Done c \<Rightarrow> c | Output c \<Rightarrow> tcpoutput now c | Next sg bp len c \<Rightarrow> tcploop now sg bp len c)"
proof (cases r)
  case (Raise c')
  thus ?thesis using grows_trans[OF _ quiet_grows[OF quiet_tcpkick]] assms(1) by simp
next
  case (Output c')
  thus ?thesis using grows_trans[OF _ quiet_grows[OF quiet_tcpoutput]] assms(1) by simp
next
  case (Next sg bp len c')
  thus ?thesis using grows_trans[OF _ assms(2)[OF Next]] assms(1) by simp
qed (use assms(1) in simp)

lemma grows_tcploop: "grows c (tcploop now sg bp len c)"
proof (induction now sg bp len c rule: tcploop.induct)
  case (1 now sg bp len c)
  show ?case unfolding tcploop.simps[of now sg bp len c] by (rule grows_rest[OF grows_input1]) (rule "1.IH")
qed

section \<open>Data in order\<close>

lemma tcploop_appends:
  assumes l: "live S isn rd (2 ^ 16) c" and s: "state c = Established" and r: "ready S isn rd sg bp len c"
    and f: "ACK \<in> flags sg" "RST \<notin> flags sg"
  shows "Hangup \<in> set (evs (tcploop now sg bp len c)) \<or> prefix (rq c @ bp) (rq (tcploop now sg bp len c))"
proof -
  obtain sg1 c1 where u: "update now sg c = (sg1, c1)" by fastforce
  have a: "inputack now sg c = Inr (sg1, c1)" using s by (simp add: inputack_def u)
  have e: "input1 now sg bp len c = input2 sg1 bp len c1" using f by (simp add: input1_alt a)
  have sg1: "sg1 = sg\<lparr>upd := True\<rparr>" using update_seg[of now sg c] by (simp add: u)
  have g: "grows x (tcploop now sg bp len c)" if "grows x (resc (input1 now sg bp len c))" for x
    unfolding tcploop.simps[of now sg bp len c] by (rule grows_rest[OF that]) (rule grows_tcploop)
  have q: "quiet c c1" using quiet_update[of c now sg] by (simp add: u)
  from live_quiet[OF q l] show ?thesis
  proof
    assume c1: "live S isn rd (2 ^ 16) c1 \<and> state c1 = state c \<and> wroom c \<le> wroom c1 \<and> rq c1 = rq c"
    have r1: "ready S isn rd sg1 bp len c1" using ready_room[OF r, of c1] c1 by (simp add: sg1 ready_seg)
    have ur: "URG \<notin> flags sg1" using r1 by (simp add: ready_def)
    obtain c2 where c2: "inputurg sg1 bp c1 = (bp, c2)" "live S isn rd (2 ^ 16) c2" "state c2 = state c1" "rq c2 = rq c1" "wroom c2 = wroom c1"
      by (rule live_inputurg[OF conjunct1[OF c1] ur], rule that)
    have s2: "state c2 = Established" using c1 c2(3) s by simp
    have r2: "ready S isn rd sg1 bp len c2" using ready_room[OF r1 c2(4)] c2(5) by simp
    obtain c3 where c3: "inputdata sg1 bp len c2 = Inr c3" "rd @ rq c3 = (rd @ rq c2) @ bp"
      by (rule live_inputdata[OF c2(2) s2 r2], rule that)
    have "grows c3 (tcploop now sg bp len c)" by (rule g) (simp add: e input2_grows[OF c2(1) c3(1)])
    moreover have "rq c3 = rq c @ bp" using c3(2) c2(4) c1 by simp
    ultimately show ?thesis by (simp add: grows_def)
  next
    assume "dead S rd c1 \<and> Hangup \<in> set (evs c1)"
    moreover have "grows c1 (tcploop now sg bp len c)" by (rule g) (simp add: e grows_input2)
    ultimately show ?thesis by (simp add: grows_def)
  qed
qed

lemma tcptrim_inorder:
  assumes g: "genuine S isn p sg bp" "SYN \<notin> flags sg" and n: "rcv_nxt c = seqat isn p" and w: "rcv_wnd c = word_of_nat W" "W \<le> 2 ^ 20"
    and b: "length bp \<le> W" "0 < W"
  shows "tcptrim c sg bp (word_of_nat (length bp)) = Some (c, sg, bp, word_of_nat (length bp))"
proof -
  have sq: "seq sg = seqat isn p" using g(1) by (simp add: genuine_def)
  have lb: "length bp < 2 ^ 16" using g(1) by (simp add: genuine_def)
  have wz: "rcv_wnd c \<noteq> 0" using w b by (simp add: word_of_nat_eq_0_iff nat_dvd_not_less)
  have "seq_within x x (x + word_of_nat (W - 1))" for x :: seqno unfolding seq_within_diff by simp
  moreover have "rcv_nxt c + rcv_wnd c - 1 = rcv_nxt c + word_of_nat (W - 1)" using w b by (simp add: of_nat_diff)
  ultimately have "inwindow c (seq sg)" unfolding inwindow_def sq n[symmetric] by metis
  hence a: "trimaccept c sg len" for len by (simp add: trimaccept_def)
  have tf: "trimfront c sg bp len = (c, sg, bp, len)" for len by (simp add: trimfront_def sq n)
  have "seq sg + ucast (word_of_nat (length bp) :: 16 word) - (rcv_nxt c + rcv_wnd c) = seqat isn (p + length bp) - seqat isn (p + W)"
    using ucast16[OF lb] by (simp add: sq n w seqat_add)
  moreover have "sint (seqat isn (p + length bp) - seqat isn (p + W)) = int (p + length bp) - int (p + W)"
    by (rule sint_seqat) (use w b in simp)
  ultimately have "trimback (c, sg, bp, word_of_nat (length bp)) = (c, sg, bp, word_of_nat (length bp))" using b by (simp add: trimback_def)
  thus ?thesis using wz a by (simp add: tcptrim_def tf)
qed

lemma tcprcvwin_kacounter: "rcv_wnd (tcprcvwin (tcpsetkacounter c)) = rcv_wnd (tcprcvwin c)"
  by (simp add: tcprcvwin_def tcpsetkacounter_def Let_def)

lemma grows_inputwin: "grows c (inputwin now mem sg bp len c)"
proof -
  define c1 where "c1 = tcprcvwin c"
  have 1: "grows c c1" unfolding c1_def by (rule quiet_grows[OF quiet_tcprcvwin])
  have out: "grows d (tcpoutput now (d\<lparr>tflags := f\<rparr>))" for d f by (rule quiet_grows[OF quiet_trans[OF quiet_tflags quiet_tcpoutput]])
  show ?thesis
  proof (cases "tcptrim c1 sg bp len")
    case None
    obtain sg2 c2 where u: "update now sg c1 = (sg2, c2)" by fastforce
    have 2: "grows c c2" by (rule grows_trans[OF 1 grows_update[OF u]])
    have "grows c (if \<not> unsent c2 \<and> state c2 = Closing then timewait c2 else c2)" using 2 grows_trans[OF 2 grows_timewait] by simp
    thus ?thesis using None grows_trans[OF _ out] by (simp add: inputwin_def Let_def c1_def[symmetric] notinwindow_def u)
  next
    case (Some x)
    then obtain c2 sg2 bp2 len2 where x: "tcptrim c1 sg bp len = Some (c2, sg2, bp2, len2)" by (cases x) auto
    have 2: "grows c c2" by (rule grows_trans[OF 1 quiet_grows[OF quiet_tcptrim[OF x]]])
    obtain sg3 c3 where u: "update now sg2 c2 = (sg3, c3)" by fastforce
    have "grows c3 (snd (addreseq mem c3 sg3 bp2 len2))" by (rule grows_same) (simp_all add: addreseq_def dumpreseq_def Let_def)
    hence 3: "grows c (snd (addreseq mem c3 sg3 bp2 len2))" using grows_trans[OF grows_trans[OF 2 grows_update[OF u]]] by blast
    have 4: "grows c (if nreseq c2 > 0 then c2\<lparr>tflags := insert FORCE (tflags c2)\<rparr> else c2)"
      using 2 grows_trans[OF 2 quiet_grows[OF quiet_tflags]] by simp
    have "inputwin now mem sg bp len c \<in>
        {tcpkick now (sndrst sg2 ''sending to Closed'' c2),
         (let c4 = snd (addreseq mem c3 sg3 bp2 len2) in tcpoutput now (c4\<lparr>tflags := insert FORCE (tflags c4)\<rparr>)),
         tcploop now sg2 bp2 len2 (if nreseq c2 > 0 then c2\<lparr>tflags := insert FORCE (tflags c2)\<rparr> else c2)}"
      by (simp add: inputwin_def Let_def c1_def[symmetric] x u)
    thus ?thesis
      using grows_trans[OF 2 quiet_grows[OF quiet_trans[OF quiet_sndrst quiet_tcpkick]]] grows_trans[OF 3 out] grows_trans[OF 4 grows_tcploop]
      by (auto simp: Let_def)
  qed
qed

text \<open>A segment that begins at the receive pointer and fits the window.\<close>

lemma tcpiput_appends:
  assumes l: "live S isn rd (2 ^ 16) c" and s: "state c = Established" and g: "genuine S isn (rpos rd c) sg bp" "SYN \<notin> flags sg"
    and f: "ACK \<in> flags sg" "RST \<notin> flags sg" and b: "bp \<noteq> []" "length bp \<le> unat (rcv_wnd (tcprcvwin c))"
  shows "Hangup \<in> set (evs (tcpiput now mem sg bp (word_of_nat (length bp)) c)) \<or>
    prefix (rq c @ bp) (rq (tcpiput now mem sg bp (word_of_nat (length bp)) c))"
proof -
  define sg' where "sg' = sg\<lparr>wnd := push_bit (rcv_scale c) (wnd sg)\<rparr>"
  define c1 where "c1 = tcpsetkacounter c"
  define c2 where "c2 = stateless_hog sg' c1"
  let ?len = "word_of_nat (length bp) :: 16 word"
  have sg': "genuine S isn p sg' bp = genuine S isn p sg bp" "flags sg' = flags sg" for p by (simp_all add: sg'_def genuine_wnd)
  have c1: "state c1 = Established" "rq c1 = rq c" "rpos rd c1 = rpos rd c"
    using s by (simp_all add: c1_def tcpsetkacounter_def Let_def rpos_def)
  have l1: "live S isn rd (2 ^ 16) c1" by (rule live_same[OF l]) (simp_all add: c1_def tcpsetkacounter_def Let_def)
  have e: "tcpiput now mem sg bp ?len c = inputwin now mem sg' bp ?len c2"
    using c1(1) by (simp add: tcpiput_def Let_def c1_def c2_def sg'_def inputseg_def)
  show ?thesis
  proof (cases "c2 = c1")
    case False
    hence "c2 = localclose c1" by (auto simp: c2_def stateless_hog_def split: if_splits)
    hence "Hangup \<in> set (evs c2)" using c1(1) by (simp add: localclose_def tcpsetstate_def dumpreseq_def emit_def Let_def)
    thus ?thesis using grows_inputwin[of c2 now mem sg' bp ?len] by (simp add: e grows_def)
  next
    case True
    define c3 where "c3 = tcprcvwin c1"
    have c3: "live S isn rd (2 ^ 16) c3" "rcv_wnd c3 = word_of_nat (wroom c3)" "wroom c3 \<le> 2 ^ 20" "rq c3 = rq c" "rpos rd c3 = rpos rd c" "state c3 = Established"
      using live_tcprcvwin[OF l1] c1 by (simp_all add: c3_def rpos_def)
    have "wroom c3 = unat (rcv_wnd c3)" using l1 tcprcvwin_wok(3)[of c1] by (simp add: c3_def live_def)
    moreover have "rcv_wnd c3 = rcv_wnd (tcprcvwin c)" by (simp add: c3_def c1_def tcprcvwin_kacounter)
    ultimately have room: "length bp \<le> wroom c3" using b(2) by simp
    have "0 < wroom c3" using room b(1) by (cases bp) simp_all
    hence t: "tcptrim c3 sg' bp ?len = Some (c3, sg', bp, ?len)"
      using tcptrim_inorder[of S isn "rpos rd c3" sg' bp c3 "wroom c3"] g sg' c3 room b(1) by (auto simp: live_def)
    define c4 where "c4 = (if nreseq c3 > 0 then c3\<lparr>tflags := insert FORCE (tflags c3)\<rparr> else c3)"
    have c4: "live S isn rd (2 ^ 16) c4" by (rule live_same[OF c3(1)]) (simp_all add: c4_def)
    have c4': "state c4 = Established" "rq c4 = rq c" using c3 by (simp_all add: c4_def)
    have "seq sg' = rcv_nxt c3" using g(1) c3(1,5) by (simp add: sg'_def genuine_def live_def)
    hence i: "inputwin now mem sg' bp ?len c2 = tcploop now sg' bp ?len c4"
      using True c3(6) t by (simp add: inputwin_def Let_def c3_def[symmetric] c4_def[symmetric])
    have "ready S isn rd sg' bp ?len c4"
      using g sg' room c3(5) genuine_urg[OF g(1)] by (simp add: ready_def c4_def rpos_def wroom_def)
    from tcploop_appends[OF c4 c4'(1) this] f sg'(2) show ?thesis by (simp add: e i c4'(2))
  qed
qed

text \<open>
  C3: in every state a conversation reaches (by the events of the property on the stream: no URG segments, none \<open>2^30\<close> bytes
  away) in which it is established and was not hung up, a segment with bytes of the peer's stream that begins at the receive
  pointer, carries an acknowledgement, no SYN, no reset and no URG flag (urgent bytes are dropped), and fits the window is accepted: when \<open>tcpiput\<close> returns, the receive queue holds what it held followed by the bytes of the segment (and perhaps
  more, from the resequencing queue), unless the conversation has been hung up.\<close>

theorem tcp_inorder_delivered:
  assumes "tcpstarted isn s" "(tcpstep S isn)\<^sup>*\<^sup>* s (c, rd)" "state c = Established" "Hangup \<notin> set (evs c)"
    "genuine S isn (length rd + length (rq c) + 1) sg bp" "SYN \<notin> flags sg" "ACK \<in> flags sg" "RST \<notin> flags sg" "bp \<noteq> []"
    "length bp \<le> unat (rcv_wnd (tcprcvwin c))"
  shows "Hangup \<in> set (evs (tcpiput now mem sg bp (word_of_nat (length bp)) c)) \<or>
    prefix (rq c @ bp) (rq (tcpiput now mem sg bp (word_of_nat (length bp)) c))"
proof -
  have "live S isn rd (2 ^ 16) c"
    using tcpr.reached_inv[OF assms(1,2)] assms(3,4) by (auto simp: tcpinv_def good_def dead_def fresh_def)
  thus ?thesis using assms(3,5-) by (intro tcpiput_appends) (simp_all add: rpos_def)
qed

lemma tcp_ex1_state: "state tcp_ex1 = Established" "Hangup \<notin> set (evs tcp_ex1)" "rq tcp_ex1 = []" "rcv_wnd (tcprcvwin tcp_ex1) = 65535"
  by code_simp+

lemma tcp_ex1_accepts: "Hangup \<notin> set (evs (tcpiput 12 True (tcp_seg 0 301 {ACK}) [1] (word_of_nat (length [1 :: 8 word])) tcp_ex1))"
  by code_simp

theorem tcp_inorder_delivered_witness:
  "prefix [1] (rq (tcpiput 12 True (tcp_seg 0 301 {ACK}) [1] (word_of_nat (length [1 :: 8 word])) tcp_ex1))"
proof -
  have "genuine [1, 2, 3] 4294967295 (length ([] :: 8 word list) + length (rq tcp_ex1) + 1) (tcp_seg 0 301 {ACK}) [1]"
    by (simp add: genuine_def dstart_def seqat_def tcp_seg_def tcp_ex1_state)
  from tcp_inorder_delivered[OF tcp_ex_run(1) rtranclp.rtrancl_refl tcp_ex1_state(1,2) this, of 12 True] tcp_ex1_accepts
  show ?thesis by (simp add: tcp_ex1_state tcp_seg_def)
qed

section \<open>Acknowledgements of what was not sent\<close>

definition tcp_ex4 :: tcpconv where
  "tcp_ex4 = tcp_ex1\<lparr>wq := [7, 8, 9]\<rparr>"

definition tcp_ex5 :: tcpconv where
  "tcp_ex5 = tcpiput 12 True (tcp_seg 0 304 {ACK}) [] 0 tcp_ex4"

definition sentdata :: "tcpconv \<Rightarrow> 8 word list" where
  "sentdata c = concat (map (\<lambda>e. case e of Sent sg bp \<Rightarrow> bp | _ \<Rightarrow> []) (evs c))"

text \<open>
  C23: an acknowledgement is not compared with what has been sent: in a reachable state with three bytes to send, none of
  which was sent, a segment of the stream that acknowledges all three makes \<open>update\<close> discard them; the bytes never leave the
  machine, and the conversation stays established.\<close>

theorem unsent_data_discarded:
  "tcpstarted 4294967295 (tcp_ex1, []) \<and> tcpstep [] 4294967295 (tcp_ex1, []) (tcp_ex4, []) \<and> tcpstep [] 4294967295 (tcp_ex4, []) (tcp_ex5, [])
    \<and> wq tcp_ex4 = [7, 8, 9] \<and> sentdata tcp_ex4 = [] \<and> wq tcp_ex5 = [] \<and> sentdata tcp_ex5 = [] \<and> state tcp_ex5 = Established"
proof -
  have w: "wq tcp_ex1 = []" "rq tcp_ex4 = []" by code_simp+
  have "tcpstep [] 4294967295 (tcp_ex1, []) (tcp_ex4, [])"
    using tcpstep.writeq[of "[]" 4294967295 tcp_ex1 "[]" "[7, 8, 9]"] by (simp add: tcp_ex4_def w(1))
  moreover have "tcpstep [] 4294967295 (tcp_ex4, []) (tcp_ex5, [])"
    using tcpstep.arrive[of "[]" 4294967295 1 "tcp_seg 0 304 {ACK}" "[]" "[]" tcp_ex4 12 True]
    by (simp add: tcp_ex5_def genuine_def dstart_def seqat_def tcp_seg_def rpos_def w(2))
  moreover have "wq tcp_ex5 = []" "sentdata tcp_ex4 = []" "sentdata tcp_ex5 = []" "state tcp_ex5 = Established" by code_simp+
  ultimately show ?thesis using tcp_ex_run(1) by (simp add: tcp_ex4_def)
qed

end
