(* ===== verification/Tcphdr.thy ===== *)
theory Tcphdr
  imports Tcp Ipv4
begin

unbundle bit_operations_syntax

text \<open>
  The headers of TCP on the wire (\<open>htontcp4\<close>, \<open>htontcp6\<close>, \<open>ntohtcp4\<close>, \<open>ntohtcp6\<close> and the first part of \<open>tcpiput\<close> in
  \<open>src/ip/tcp.c\<close>). A packet is the list of its bytes: padding a chain for a header prepends the header to its bytes, and the
  checksum of a chain is the complement of the ones' complement sum of its bytes, as the theories of block
  chains and checksums show. The two routines that build headers share their code but for the window scale option, which
  the one for IPv4 always sends. \<open>hnputs\<close>, \<open>hnputl\<close>, \<open>nhgets\<close> and \<open>nhgetl\<close> are the library's stores and loads in network
  order. The template \<open>ph\<close> is zero behind the ports (\<open>memset\<close>), so the checksum is taken over a zero field.
\<close>

section \<open>Fields\<close>

definition bitof :: "tcpflag \<Rightarrow> nat" where
  "bitof f = (case f of URG \<Rightarrow> 5 | ACK \<Rightarrow> 4 | PSH \<Rightarrow> 3 | RST \<Rightarrow> 2 | SYN \<Rightarrow> 1 | FIN \<Rightarrow> 0)"

definition flagbit :: "tcpflag set \<Rightarrow> tcpflag \<Rightarrow> u16" where
  "flagbit fs f = (if f \<in> fs then push_bit (bitof f) 1 else 0)"

definition flagbits :: "tcpflag set \<Rightarrow> u16" where
  "flagbits fs = flagbit fs URG OR flagbit fs ACK OR flagbit fs PSH OR flagbit fs RST OR flagbit fs SYN OR flagbit fs FIN"

definition bitflags :: "u8 \<Rightarrow> tcpflag set" where
  "bitflags b = set (filter (\<lambda>f. bit b (bitof f)) [URG, ACK, PSH, RST, SYN, FIN])"

definition nhgets :: "u8 list \<Rightarrow> nat \<Rightarrow> u16" where
  "nhgets bs i = push_bit 8 (ucast (bs ! i)) OR ucast (bs ! (i + 1))"

definition nhgetl :: "u8 list \<Rightarrow> nat \<Rightarrow> u32" where
  "nhgetl bs i = push_bit 24 (ucast (bs ! i)) OR push_bit 16 (ucast (bs ! (i + 1))) OR push_bit 8 (ucast (bs ! (i + 2))) OR ucast (bs ! (i + 3))"

definition TCP4_IPLEN :: nat where "TCP4_IPLEN = 8"
definition TCP4_PHDRSIZE :: nat where "TCP4_PHDRSIZE = 12"
definition TCP4_HDRSIZE :: nat where "TCP4_HDRSIZE = 20"
definition TCP4_PKT :: nat where "TCP4_PKT = TCP4_IPLEN + TCP4_PHDRSIZE"
definition TCP6_PHDRSIZE :: nat where "TCP6_PHDRSIZE = 40"
definition EOLOPT :: u8 where "EOLOPT = 0"
definition NOOPOPT :: u8 where "NOOPOPT = 1"
definition MSSOPT :: u8 where "MSSOPT = 2"
definition MSS_LENGTH :: nat where "MSS_LENGTH = 4"
definition WSOPT :: u8 where "WSOPT = 3"
definition WS_LENGTH :: nat where "WS_LENGTH = 3"

section \<open>The header that is sent\<close>

text \<open>The length of the header and the padding; \<open>always\<close> says that the window scale is sent whatever it is.\<close>

definition sendws :: "bool \<Rightarrow> tcpseg \<Rightarrow> bool" where
  "sendws always sg \<longleftrightarrow> always \<or> ws sg \<noteq> 0"

definition optlens :: "bool \<Rightarrow> tcpseg \<Rightarrow> nat \<times> nat" where
  "optlens always sg =
    (if SYN \<in> flags sg
     then let hdrlen = TCP4_HDRSIZE + (if mssopt sg \<noteq> 0 then MSS_LENGTH else 0) + (if sendws always sg then WS_LENGTH else 0);
              optpad = hdrlen mod 4; optpad = (if optpad \<noteq> 0 then 4 - optpad else 0)
          in (hdrlen + optpad, optpad)
     else (TCP4_HDRSIZE, 0))"

definition optbytes :: "bool \<Rightarrow> tcpseg \<Rightarrow> u8 list" where
  "optbytes always sg =
    (if SYN \<in> flags sg
     then (if mssopt sg \<noteq> 0 then [MSSOPT, of_nat MSS_LENGTH] @ bytes2 (mssopt sg) else [])
       @ (if sendws always sg then [WSOPT, of_nat WS_LENGTH, of_nat (ws sg)] else [])
       @ replicate (snd (optlens always sg)) NOOPOPT
     else [])"

text \<open>The header from the sequence number on, with a checksum; \<open>scl\<close> is \<open>tcb->snd.scale\<close> or 0.\<close>

definition tcpfields :: "tcpseg \<Rightarrow> nat \<Rightarrow> nat \<Rightarrow> u16 \<Rightarrow> u8 list" where
  "tcpfields sg hdrlen scl ck =
    bytes4 (seq sg) @ bytes4 (ack sg) @ bytes2 (push_bit 10 (of_nat hdrlen) OR flagbits (flags sg))
    @ bytes2 (ucast (drop_bit scl (wnd sg))) @ bytes2 ck @ bytes2 (urg sg)"

definition ptclsum :: "nat \<Rightarrow> nat \<Rightarrow> u8 list \<Rightarrow> u16" where
  "ptclsum offset len bs = NOT (onesum (take len (drop offset bs)))"

record tcp4ph =
  p4unused :: u8
  p4proto :: u8
  p4src :: u32
  p4dst :: u32
  p4sport :: u16
  p4dport :: u16

definition pseudo4 :: "tcp4ph \<Rightarrow> u16 \<Rightarrow> u8 list" where
  "pseudo4 ph len = [p4unused ph, p4proto ph] @ bytes2 len @ bytes4 (p4src ph) @ bytes4 (p4dst ph) @ bytes2 (p4sport ph) @ bytes2 (p4dport ph)"

text \<open>The bytes from \<open>Unused\<close> on, which the checksum covers; the eight before it belong to IP.\<close>

definition htontcp4 :: "tcpseg \<Rightarrow> u8 list \<Rightarrow> tcp4ph \<Rightarrow> nat \<Rightarrow> bool \<Rightarrow> u8 list" where
  "htontcp4 sg dat ph scl nochecksum =
    (let hdrlen = fst (optlens True sg); len = of_nat (hdrlen + length dat);
         pkt = (\<lambda>ck. pseudo4 ph len @ tcpfields sg hdrlen scl ck @ optbytes True sg @ dat)
     in if nochecksum then pkt 0 else pkt (ptclsum 0 (hdrlen + length dat + TCP4_PHDRSIZE) (pkt 0)))"

record tcp6ph =
  p6proto :: u8
  p6src :: "u8 list"
  p6dst :: "u8 list"
  p6sport :: u16
  p6dport :: u16

definition pseudo6 :: "tcp6ph \<Rightarrow> u32 \<Rightarrow> u8 list" where
  "pseudo6 ph len = bytes4 len @ [0, 0, 0, p6proto ph] @ p6src ph @ p6dst ph @ bytes2 (p6sport ph) @ bytes2 (p6dport ph)"

text \<open>The whole packet: after the checksum the pseudo header becomes the header of IP, but for the \<open>ttl\<close>.\<close>

definition htontcp6 :: "tcpseg \<Rightarrow> u8 list \<Rightarrow> tcp6ph \<Rightarrow> nat \<Rightarrow> bool \<Rightarrow> u8 list" where
  "htontcp6 sg dat ph scl nochecksum =
    (let hdrlen = fst (optlens False sg); n = hdrlen + length dat;
         pkt = (\<lambda>ck. pseudo6 ph (of_nat n) @ tcpfields sg hdrlen scl ck @ optbytes False sg @ dat);
         ck = (if nochecksum then 0 else ptclsum 0 (n + TCP6_PHDRSIZE) (pkt 0))
     in [0x60, 0, 0, 0] @ bytes2 (of_nat n) @ [p6proto ph, p6proto ph] @ drop 8 (pkt ck))"

section \<open>The header that is received\<close>

text \<open>The loop over the options, with the bytes left of the header.\<close>

definition byteat :: "u8 list \<Rightarrow> nat \<Rightarrow> u8" where
  "byteat bs i = (if i < length bs then bs ! i else 0)"

function optloop :: "nat \<Rightarrow> u8 list \<Rightarrow> u16 \<times> nat \<Rightarrow> u16 \<times> nat" where
  "optloop n bs mw =
    (if n = 0 \<or> byteat bs 0 = EOLOPT then mw
     else if byteat bs 0 = NOOPOPT then optloop (n - 1) (drop 1 bs) mw
     else let optlen = unat (byteat bs 1) in
       if optlen < 2 \<or> optlen > n then mw
       else let mw = (if byteat bs 0 = MSSOPT \<and> optlen = MSS_LENGTH then (nhgets bs 2, snd mw)
                      else if byteat bs 0 = WSOPT \<and> optlen = WS_LENGTH \<and> byteat bs 2 \<le> 14 then (fst mw, unat (byteat bs 2))
                      else mw)
            in optloop (n - optlen) (drop optlen bs) mw)"
  by pat_completeness auto
termination
  by (relation "measure (\<lambda>(n, bs, mw). n)") auto

declare optloop.simps [simp del]

text \<open>
  The header behind \<open>off\<close> bytes of IP: ports, segment, length of the header. \<open>None\<close> is the result -1. The options are read
  from the bytes of the packet; the code reads them through \<open>h\<close>, set before the second \<open>pullupblock\<close>, which is the
  same as long as that call does not move the header to a new block.
\<close>

definition ntohtcp :: "nat \<Rightarrow> u8 list \<Rightarrow> (u16 \<times> u16 \<times> tcpseg \<times> nat) option" where
  "ntohtcp off bs =
    (if length bs < off + TCP4_HDRSIZE then None
     else let hdrlen = unat (drop_bit 2 (bs ! (off + 12)) AND NOT 3) in
       if hdrlen < TCP4_HDRSIZE then None
       else if length bs < hdrlen + off then None
       else let (m, w) = optloop (hdrlen - TCP4_HDRSIZE) (drop (off + TCP4_HDRSIZE) bs) (0, 0)
            in Some (nhgets bs off, nhgets bs (off + 2),
                 \<lparr>seq = nhgetl bs (off + 4), ack = nhgetl bs (off + 8), flags = bitflags (bs ! (off + 13)), upd = False, ws = w,
                  wnd = ucast (nhgets bs (off + 14)), urg = nhgets bs (off + 18), mssopt = m\<rparr>, hdrlen))"

datatype hdrerr = CsumErrs | HlenErrs | LenErrs

text \<open>
  The IPv4 branch of \<open>tcpiput\<close>; \<open>ckd\<close> is the flag \<open>Btcpck\<close>. The result is the two addresses, the two ports, the segment and
  its data.
\<close>

definition tcpin4 :: "bool \<Rightarrow> u8 list \<Rightarrow> hdrerr + (u32 \<times> u32 \<times> u16 \<times> u16 \<times> tcpseg \<times> u8 list)" where
  "tcpin4 ckd bs =
    (let len = nhgets bs 2;
         bs = take 8 bs @ [0] @ [bs ! 9] @ bytes2 (len - of_nat TCP4_PKT) @ drop 12 bs
     in if \<not> ckd \<and> (bs ! 36 \<noteq> 0 \<or> bs ! 37 \<noteq> 0) \<and> ptclsum TCP4_IPLEN (unat len - TCP4_IPLEN) bs \<noteq> 0 then Inl CsumErrs
        else case ntohtcp TCP4_PKT bs of
          None \<Rightarrow> Inl HlenErrs
        | Some (sp, dp, sg, hdrlen) \<Rightarrow>
            let len = len - of_nat (hdrlen + TCP4_PKT); d = drop (hdrlen + TCP4_PKT) bs
            in if length d < unat len then Inl LenErrs
               else Inr (nhgetl bs 12, nhgetl bs 16, sp, dp, sg, take (unat len) d))"

definition tcpin6 :: "u8 list \<Rightarrow> hdrerr + (u8 list \<times> u8 list \<times> u16 \<times> u16 \<times> tcpseg \<times> u8 list)" where
  "tcpin6 bs =
    (let len = nhgets bs 4; proto = bs ! 6;
         ph = bytes4 (ucast len) @ [0, 0, 0, proto] @ drop 8 bs
     in if (bs ! 56 \<noteq> 0 \<or> bs ! 57 \<noteq> 0) \<and> ptclsum 0 (unat len + TCP6_PHDRSIZE) ph \<noteq> 0 then Inl CsumErrs
        else case ntohtcp TCP6_PHDRSIZE bs of
          None \<Rightarrow> Inl HlenErrs
        | Some (sp, dp, sg, hdrlen) \<Rightarrow>
            let len = len - of_nat hdrlen; d = drop (hdrlen + TCP6_PHDRSIZE) bs
            in if length d < unat len then Inl LenErrs
               else Inr (take 16 (drop 8 bs), take 16 (drop 24 bs), sp, dp, sg, take (unat len) d))"

section \<open>Fields come back\<close>

lemma bytes2_join: "push_bit 8 (ucast (ucast (drop_bit 8 w) :: u8)) OR ucast (ucast w :: u8) = w" for w :: u16
  by (rule bit_eqI) (auto simp: bit_simps)

lemma bytes4_join: "push_bit 24 (ucast (ucast (drop_bit 24 w) :: u8)) OR push_bit 16 (ucast (ucast (drop_bit 16 w) :: u8))
    OR push_bit 8 (ucast (ucast (drop_bit 8 w) :: u8)) OR ucast (ucast w :: u8) = w" (is "?l = w") for w :: u32
proof (rule bit_eqI)
  fix n assume "possible_bit TYPE(u32) n"
  then have "n < 32" by simp
  then consider "n < 8" | "8 \<le> n" "n < 16" | "16 \<le> n" "n < 24" | "24 \<le> n" "n < 32" by fastforce
  thus "bit ?l n \<longleftrightarrow> bit w n" by cases (auto simp: bit_simps)
qed

lemma length_bytes [simp]: "length (bytes2 w) = 2" "length (bytes4 v) = 4"
  by (simp_all add: bytes2_def bytes4_def)

lemma nhgets_at: "nhgets (xs @ bytes2 w @ ys) (length xs) = w"
  by (simp add: nhgets_def bytes2_def nth_append bytes2_join)

lemma nhgetl_at: "nhgetl (xs @ bytes4 w @ ys) (length xs) = w"
  by (simp add: nhgetl_def bytes4_def nth_append bytes4_join)

lemma flagbit_high: "drop_bit 8 (flagbit fs f) = 0"
  by (cases f) (simp_all add: flagbit_def bitof_def)

lemma flagbits_high: "drop_bit 8 (flagbits fs) = 0"
  by (simp add: flagbits_def flagbit_high)

lemma bit_flagbit: "bit (flagbit fs g) (bitof f) \<longleftrightarrow> g \<in> fs \<and> g = f"
  by (cases f; cases g) (simp_all add: flagbit_def bitof_def bit_simps)

lemma bit_flagbits: "bit (flagbits fs) (bitof f) \<longleftrightarrow> f \<in> fs"
  unfolding flagbits_def by (cases f) (simp_all add: bit_or_iff bit_flagbit)

lemma bitflags_flagbits: "bitflags (ucast (push_bit 10 h OR flagbits fs)) = fs"
proof -
  have "bit (ucast (push_bit 10 h OR flagbits fs) :: u8) (bitof f) \<longleftrightarrow> f \<in> fs" for f
  proof -
    have "bitof f < 8" by (cases f) (simp_all add: bitof_def)
    thus ?thesis using bit_flagbits[of fs f] by (simp add: bit_simps)
  qed
  moreover have "f \<in> set [URG, ACK, PSH, RST, SYN, FIN]" for f by (cases f) simp_all
  ultimately show ?thesis unfolding bitflags_def set_filter by blast
qed

lemma optlens_cases: "fst (optlens a sg) = 20 \<or> fst (optlens a sg) = 24 \<or> fst (optlens a sg) = 28"
  by (simp add: optlens_def TCP4_HDRSIZE_def MSS_LENGTH_def WS_LENGTH_def Let_def)

lemma length_optbytes: "length (optbytes a sg) = fst (optlens a sg) - 20"
  by (simp add: optbytes_def optlens_def TCP4_HDRSIZE_def MSS_LENGTH_def WS_LENGTH_def Let_def)

lemma hdrlen_back: "unat (drop_bit 2 (ucast (drop_bit 8 (push_bit 10 (of_nat (fst (optlens a sg))) OR flagbits fs)) :: u8) AND NOT 3) = fst (optlens a sg)"
proof -
  have "drop_bit 8 (push_bit 10 h OR flagbits fs) = drop_bit 8 (push_bit 10 h)" for h by (simp add: flagbits_high)
  thus ?thesis using optlens_cases[of a sg] by (elim disjE) (simp_all add: flagbits_high)
qed

lemma optloop_end: "optloop 0 bs mw = mw"
  by (subst optloop.simps) simp

lemma optloop_noop: "0 < n \<Longrightarrow> optloop n (NOOPOPT # bs) mw = optloop (n - 1) bs mw"
  by (subst optloop.simps) (simp add: byteat_def NOOPOPT_def EOLOPT_def)

lemma optloop_mss: "4 \<le> n \<Longrightarrow> optloop n (MSSOPT # 4 # bytes2 m @ bs) mw = optloop (n - 4) bs (m, snd mw)"
  by (subst optloop.simps) (simp add: byteat_def NOOPOPT_def EOLOPT_def MSSOPT_def MSS_LENGTH_def bytes2_def nhgets_def bytes2_join Let_def)

lemma optloop_ws:
  "3 \<le> n \<Longrightarrow> w \<le> 14 \<Longrightarrow> optloop n (WSOPT # 3 # w # bs) mw = optloop (n - 3) bs (fst mw, unat w)"
  by (subst optloop.simps) (simp add: byteat_def NOOPOPT_def EOLOPT_def MSSOPT_def MSS_LENGTH_def WSOPT_def WS_LENGTH_def Let_def)

lemma optloop_back:
  assumes "ws sg \<le> 14"
  shows "optloop (fst (optlens a sg) - 20) (optbytes a sg @ dat) (0, 0) =
    (if SYN \<in> flags sg then (mssopt sg, ws sg) else (0, 0))"
proof -
  have w: "unat (of_nat (ws sg) :: u8) = ws sg" "(of_nat (ws sg) :: u8) \<le> 14"
    using assms by (simp_all add: unat_of_nat word_le_nat_alt)
  have l: "TCP4_HDRSIZE = 20" "MSS_LENGTH = 4" "WS_LENGTH = 3" by (simp_all add: TCP4_HDRSIZE_def MSS_LENGTH_def WS_LENGTH_def)
  note opts = optloop_end optloop_noop optloop_mss optloop_ws[OF _ w(2), unfolded w(1)]
  show ?thesis
    by (cases "SYN \<in> flags sg"; cases "mssopt sg = 0"; cases "sendws a sg")
      (auto simp: optlens_def optbytes_def Let_def l opts sendws_def)
qed

text \<open>The segment as the other side reads it: the scaled window in 16 bits, the options of a SYN only.\<close>

definition overwire :: "nat \<Rightarrow> tcpseg \<Rightarrow> tcpseg" where
  "overwire scl sg = sg\<lparr>upd := False, wnd := ucast (ucast (drop_bit scl (wnd sg)) :: u16),
     ws := (if SYN \<in> flags sg then ws sg else 0), mssopt := (if SYN \<in> flags sg then mssopt sg else 0)\<rparr>"

lemma ntohtcp_back:
  assumes "length pre = off" "ws sg \<le> 14"
  shows "ntohtcp off (pre @ bytes2 sp @ bytes2 dp @ tcpfields sg (fst (optlens a sg)) scl ck @ optbytes a sg @ dat)
    = Some (sp, dp, overwire scl sg, fst (optlens a sg))"
proof -
  define H where "H = fst (optlens a sg)"
  define fl where "fl = push_bit 10 (of_nat H) OR flagbits (flags sg)"
  define bs where "bs = pre @ bytes2 sp @ bytes2 dp @ tcpfields sg H scl ck @ optbytes a sg @ dat"
  have H: "20 \<le> H" using optlens_cases[of a sg] by (auto simp: H_def)
  have nth: "bs ! (off + k) = (bytes2 sp @ bytes2 dp @ tcpfields sg H scl ck @ optbytes a sg @ dat) ! k" for k
    using assms(1) by (simp add: bs_def nth_append)
  have lf: "length (tcpfields sg H scl ck) = 16" by (simp add: tcpfields_def)
  have lb: "off + 20 \<le> length bs" "H + off \<le> length bs"
    using assms(1) lf length_optbytes[of a sg] H by (simp_all add: bs_def H_def)
  have s: "nhgets bs off = sp" using nhgets_at[of pre sp] assms(1) by (simp add: bs_def)
  have d: "nhgets bs (off + 2) = dp" using nhgets_at[of "pre @ bytes2 sp" dp] assms(1) by (simp add: bs_def)
  have q: "nhgetl bs (off + 4) = seq sg" using nhgetl_at[of "pre @ bytes2 sp @ bytes2 dp" "seq sg"] assms(1) by (simp add: bs_def tcpfields_def)
  have k: "nhgetl bs (off + 8) = ack sg"
    using nhgetl_at[of "pre @ bytes2 sp @ bytes2 dp @ bytes4 (seq sg)" "ack sg"] assms(1) by (simp add: bs_def tcpfields_def)
  have f: "bs ! (off + 12) = ucast (drop_bit 8 fl)" "bs ! (off + 13) = ucast fl"
    unfolding nth by (simp_all add: tcpfields_def bytes2_def bytes4_def fl_def)
  let ?p = "pre @ bytes2 sp @ bytes2 dp @ bytes4 (seq sg) @ bytes4 (ack sg) @ bytes2 fl"
  have w: "nhgets bs (off + 14) = ucast (drop_bit scl (wnd sg))"
    using nhgets_at[of ?p "ucast (drop_bit scl (wnd sg))"] assms(1) by (simp add: bs_def tcpfields_def fl_def)
  have u: "nhgets bs (off + 18) = urg sg"
    using nhgets_at[of "?p @ bytes2 (ucast (drop_bit scl (wnd sg))) @ bytes2 ck" "urg sg"] assms(1) by (simp add: bs_def tcpfields_def fl_def)
  have dr: "drop (off + 20) bs = optbytes a sg @ dat" using assms(1) lf by (simp add: bs_def)
  have h: "unat (drop_bit 2 (bs ! (off + 12)) AND NOT 3) = H" unfolding f(1) fl_def H_def by (rule hdrlen_back)
  have b: "bitflags (bs ! (off + 13)) = flags sg" unfolding f(2) fl_def by (rule bitflags_flagbits)
  have o: "optloop (H - 20) (drop (off + 20) bs) (0, 0) = (if SYN \<in> flags sg then (mssopt sg, ws sg) else (0, 0))"
    unfolding dr H_def by (rule optloop_back[OF assms(2)])
  have "ntohtcp off bs = Some (sp, dp, overwire scl sg, H)"
    unfolding ntohtcp_def TCP4_HDRSIZE_def h using lb H by (simp add: o s d q k b w u overwire_def del: add_2_eq_Suc')
  thus ?thesis by (simp add: bs_def H_def)
qed

text \<open>A checksum that was stored verifies.\<close>

lemma tcpsum_verifies:
  assumes "even (length ps)" and c: "ck = NOT (onesum (ps @ tcpfields sg H scl 0 @ xs))"
  shows "NOT (onesum (ps @ tcpfields sg H scl ck @ xs)) = 0"
proof -
  let ?a = "ps @ bytes4 (seq sg) @ bytes4 (ack sg) @ bytes2 (push_bit 10 (of_nat H) OR flagbits (flags sg)) @ bytes2 (ucast (drop_bit scl (wnd sg)))"
  have e: "ps @ tcpfields sg H scl c @ xs = ?a @ [ucast (drop_bit 8 c), ucast c] @ bytes2 (urg sg) @ xs" for c
    by (simp add: tcpfields_def bytes2_def)
  have "NOT (onesum (?a @ [ucast (drop_bit 8 ck), ucast ck] @ bytes2 (urg sg) @ xs)) = 0"
    by (rule onesum_stored) (use assms(1) in \<open>simp_all add: c e[of 0, simplified]\<close>)
  thus ?thesis by (simp only: e)
qed

section \<open>Round trips\<close>

lemma unat_len16: "n < 65536 \<Longrightarrow> unat (of_nat n :: u16) = n"
  by (simp add: unsigned_of_nat take_bit_nat_eq_self)

lemma unat_data16:
  assumes "H + n < 65536"
  shows "unat (of_nat (H + n) - of_nat H :: u16) = n"
proof -
  have "(of_nat (H + n) - of_nat H :: u16) = of_nat n" by simp
  thus ?thesis using assms by (simp only: unat_len16)
qed

text \<open>The receiver on the bytes of a packet over IPv4 whose checksum is zero or right.\<close>

lemma tcpin4_back:
  assumes pkt_def: "pkt = pseudo4 ph (of_nat n) @ tcpfields sg H scl ck @ optbytes True sg @ dat"
    and H: "H = fst (optlens True sg)" "n = H + length dat" "n + 20 < 65536" and sg: "ws sg \<le> 14" "p4unused ph = 0"
    and ip: "length ip = 8" "nhgets ip 2 = of_nat (n + 20)" and ck: "ck = 0 \<or> NOT (onesum pkt) = 0"
  shows "tcpin4 ckd (ip @ [tl0, p4proto ph, c1, c2] @ drop 4 pkt)
    = Inr (p4src ph, p4dst ph, p4sport ph, p4dport ph, overwire scl sg, dat)"
proof -
  let ?p = pkt and ?q = "ip @ pseudo4 ph (of_nat n) @ tcpfields sg H scl ck @ optbytes True sg"
  let ?wire = "ip @ [tl0, p4proto ph, c1, c2] @ drop 4 ?p"
  define bs where "bs = ip @ ?p"
  have P: "TCP4_PKT = 20" "TCP4_IPLEN = 8" by (simp_all add: TCP4_PKT_def TCP4_IPLEN_def TCP4_PHDRSIZE_def)
  have H20: "20 \<le> H" using optlens_cases[of True sg] by (auto simp: H(1))
  have q: "length ?q = H + 20" "bs = ?q @ dat"
    using ip(1) length_optbytes[of True sg] H20 by (simp_all add: bs_def pkt_def pseudo4_def tcpfields_def H(1))
  have len: "length ?p = n + 12" using arg_cong[OF q(2), of length] q(1) ip(1) by (simp add: bs_def H(2))
  have p4: "?p = [0, p4proto ph] @ bytes2 (of_nat n) @ drop 4 ?p" using sg(2) by (simp add: pkt_def pseudo4_def bytes2_def)
  have L: "nhgets ?wire 2 = of_nat (n + 20)" using ip by (simp add: nhgets_def nth_append)
  have fx: "take 8 ?wire @ [0] @ [?wire ! 9] @ bytes2 (nhgets ?wire 2 - of_nat TCP4_PKT) @ drop 12 ?wire = bs"
    using ip(1) L p4 by (simp add: bs_def P nth_append)
  have "bs ! 36 = ucast (drop_bit 8 ck)" "bs ! 37 = ucast ck"
    using ip(1) by (simp_all add: bs_def nth_append pkt_def pseudo4_def tcpfields_def bytes2_def bytes4_def)
  hence ok: "(bs ! 36 \<noteq> 0 \<or> bs ! 37 \<noteq> 0) \<and> ptclsum TCP4_IPLEN (unat (nhgets ?wire 2) - TCP4_IPLEN) bs \<noteq> 0 \<longleftrightarrow> False"
    using ck len ip(1) unfolding L unat_len16[OF H(3)] by (auto simp: ptclsum_def P bs_def)
  let ?pre = "ip @ [p4unused ph, p4proto ph] @ bytes2 (of_nat n)"
  have e: "bs = (?pre @ bytes4 (p4src ph) @ bytes4 (p4dst ph)) @ bytes2 (p4sport ph) @ bytes2 (p4dport ph) @ tcpfields sg H scl ck @ optbytes True sg @ dat"
    by (simp add: bs_def pkt_def pseudo4_def)
  have nt: "ntohtcp TCP4_PKT bs = Some (p4sport ph, p4dport ph, overwire scl sg, H)"
    unfolding e H(1) by (rule ntohtcp_back) (use sg(1) ip(1) in \<open>simp_all add: P\<close>)
  have a: "nhgetl bs 12 = p4src ph" "nhgetl bs 16 = p4dst ph"
    using nhgetl_at[of ?pre "p4src ph"] nhgetl_at[of "?pre @ bytes4 (p4src ph)" "p4dst ph"] ip(1) by (simp_all add: e)
  have dr: "drop (H + TCP4_PKT) bs = dat" using q unfolding P by (metis append_eq_conv_conj)
  have ul: "unat (nhgets ?wire 2 - of_nat (H + TCP4_PKT)) = length dat"
    using unat_data16[of "H + 20" "length dat"] H(2,3) unfolding L P by (simp add: ac_simps)
  show ?thesis unfolding tcpin4_def Let_def fx ok nt option.case prod.case dr ul a by simp
qed

text \<open>
  C22: a segment that \<open>htontcp4\<close> puts into a packet comes back as it was: whatever IP writes into its part of the header (with
  the right total length), the receiver finds the checksum correct, and takes from the packet the addresses, the ports, the
  sequence numbers, all flags, the window as scaled, the options of a SYN and exactly the data.\<close>

theorem tcp4_roundtrip:
  assumes "ws sg \<le> 14" "p4unused ph = 0" "fst (optlens True sg) + length dat + 20 < 2 ^ 16" "length ip = 8"
    "nhgets ip 2 = of_nat (fst (optlens True sg) + length dat + 20)"
  shows "tcpin4 ckd (ip @ [tl0, p4proto ph, c1, c2] @ drop 4 (htontcp4 sg dat ph scl nochecksum))
    = Inr (p4src ph, p4dst ph, p4sport ph, p4dport ph, overwire scl sg, dat)"
proof -
  define H where "H = fst (optlens True sg)"
  define n where "n = H + length dat"
  define pkt where "pkt ck = pseudo4 ph (of_nat n) @ tcpfields sg H scl ck @ optbytes True sg @ dat" for ck
  define ck where "ck = (if nochecksum then 0 else NOT (onesum (pkt 0)))"
  have n: "n + 20 < 65536" "20 \<le> H" using assms(3) optlens_cases[of True sg] by (auto simp: n_def H_def)
  have "length (pkt 0) = n + 12"
    using length_optbytes[of True sg] n(2) by (simp add: pkt_def pseudo4_def tcpfields_def n_def H_def)
  hence hton: "htontcp4 sg dat ph scl nochecksum = pkt ck"
    by (simp add: htontcp4_def Let_def pkt_def ck_def n_def H_def ptclsum_def TCP4_PHDRSIZE_def add.commute)
  have ok: "ck = 0 \<or> NOT (onesum (pkt ck)) = 0"
  proof (cases nochecksum)
    case False
    thus ?thesis unfolding pkt_def by (intro disjI2 tcpsum_verifies) (simp_all add: ck_def pkt_def pseudo4_def)
  qed (simp add: ck_def)
  show ?thesis unfolding hton
    by (rule tcpin4_back[OF pkt_def H_def n_def n(1) assms(1,2,4) _ ok]) (simp add: assms(5) n_def H_def)
qed

definition seg_ex :: tcpseg where
  "seg_ex = \<lparr>seq = 0x01020304, ack = 0xfffffffe, flags = {SYN, ACK}, upd = True, ws = 4, wnd = 0x12345, urg = 0, mssopt = 1460\<rparr>"

definition ph4_ex :: tcp4ph where
  "ph4_ex = \<lparr>p4unused = 0, p4proto = 6, p4src = 0x0a000001, p4dst = 0x0a000002, p4sport = 564, p4dport = 5000\<rparr>"

theorem tcp4_roundtrip_witness:
  "tcpin4 False ([0x45, 0, 0, 50, 1, 2, 0x40, 0] @ [255, p4proto ph4_ex, 7, 8] @ drop 4 (htontcp4 seg_ex [9, 8] ph4_ex 4 False))
    = Inr (0x0a000001, 0x0a000002, 564, 5000, overwire 4 seg_ex, [9, 8])"
proof -
  have l: "fst (optlens True seg_ex) = 28" by (simp add: optlens_def seg_ex_def TCP4_HDRSIZE_def MSS_LENGTH_def WS_LENGTH_def sendws_def Let_def)
  have "nhgets [0x45, 0, 0, 50, 1, 2, 0x40, 0] 2 = of_nat (fst (optlens True seg_ex) + length [9 :: u8, 8] + 20)"
    unfolding l by (simp add: nhgets_def)
  from tcp4_roundtrip[OF _ _ _ _ this, of ph4_ex False 255 7 8 4 False] show ?thesis unfolding l by (simp add: seg_ex_def ph4_ex_def)
qed

text \<open>
  The same for IPv6, whose header \<open>htontcp6\<close> writes itself but for the hop limit.\<close>

lemma tcp6_roundtrip:
  assumes "ws sg \<le> 14" "fst (optlens False sg) + length dat < 2 ^ 16" "length (p6src ph) = 16" "length (p6dst ph) = 16"
  shows "tcpin6 ((htontcp6 sg dat ph scl nochecksum)[7 := hops])
    = Inr (p6src ph, p6dst ph, p6sport ph, p6dport ph, overwire scl sg, dat)"
proof -
  define H where "H = fst (optlens False sg)"
  define n where "n = H + length dat"
  define pkt where "pkt ck = pseudo6 ph (of_nat n) @ tcpfields sg H scl ck @ optbytes False sg @ dat" for ck
  define ck where "ck = (if nochecksum then 0 else NOT (onesum (pkt 0)))"
  have n: "n < 65536" "20 \<le> H" using assms(2) optlens_cases[of False sg] by (auto simp: n_def H_def)
  have len: "length (pkt ck) = n + 40" for ck
    using length_optbytes[of False sg] n(2) assms(3,4) by (simp add: pkt_def pseudo6_def tcpfields_def n_def H_def)
  define rest where "rest = p6src ph @ p6dst ph @ bytes2 (p6sport ph) @ bytes2 (p6dport ph) @ tcpfields sg H scl ck @ optbytes False sg @ dat"
  have d8: "drop 8 (pkt ck) = rest" by (simp add: pkt_def pseudo6_def rest_def)
  define wire where "wire = [0x60, 0, 0, 0] @ bytes2 (of_nat n) @ [p6proto ph, hops] @ rest"
  have wire: "(htontcp6 sg dat ph scl nochecksum)[7 := hops] = wire"
  proof -
    have "htontcp6 sg dat ph scl nochecksum = [0x60, 0, 0, 0] @ bytes2 (of_nat n) @ [p6proto ph, p6proto ph] @ rest"
      using len[of 0] unfolding d8[symmetric]
      by (simp add: htontcp6_def Let_def pkt_def ck_def n_def H_def ptclsum_def TCP6_PHDRSIZE_def add.commute)
    thus ?thesis by (simp add: wire_def bytes2_def)
  qed
  have L: "nhgets wire 4 = of_nat n" by (simp add: wire_def nhgets_def bytes2_def bytes2_join)
  have uL: "unat (of_nat n :: u16) = n" "ucast (of_nat n :: u16) = (of_nat n :: u32)"
    using n(1) by (simp_all add: unat_len16 unsigned_of_nat take_bit_nat_eq_self)
  have pr: "wire ! 6 = p6proto ph" "drop 8 wire = rest" by (simp_all add: wire_def bytes2_def)
  have ph: "bytes4 (ucast (nhgets wire 4)) @ [0, 0, 0, wire ! 6] @ drop 8 wire = pkt ck"
    unfolding L uL(2) pr by (simp add: pkt_def pseudo6_def rest_def)
  have ok: "ptclsum 0 (unat (nhgets wire 4) + TCP6_PHDRSIZE) (pkt ck) = 0" if "wire ! 56 \<noteq> 0 \<or> wire ! 57 \<noteq> 0"
  proof -
    have "wire ! 56 = rest ! 48" "wire ! 57 = rest ! 49" by (simp_all add: wire_def bytes2_def)
    moreover have "rest ! 48 = ucast (drop_bit 8 ck)" "rest ! 49 = ucast ck"
      using assms(3,4) by (simp_all add: rest_def nth_append tcpfields_def bytes2_def bytes4_def)
    ultimately have "\<not> nochecksum" using that by (auto simp: ck_def)
    hence "NOT (onesum (pkt ck)) = 0"
      unfolding pkt_def by (intro tcpsum_verifies) (use assms(3,4) in \<open>simp_all add: ck_def pkt_def pseudo6_def\<close>)
    thus ?thesis using len[of ck] unfolding L uL by (simp add: ptclsum_def TCP6_PHDRSIZE_def)
  qed
  have P: "TCP6_PHDRSIZE = 40" by (simp add: TCP6_PHDRSIZE_def)
  let ?pre = "[0x60, 0, 0, 0] @ bytes2 (of_nat n) @ [p6proto ph, hops] @ p6src ph @ p6dst ph"
  have e: "wire = ?pre @ bytes2 (p6sport ph) @ bytes2 (p6dport ph) @ tcpfields sg H scl ck @ optbytes False sg @ dat"
    by (simp add: wire_def rest_def)
  have lp: "length ?pre = TCP6_PHDRSIZE" using assms(3,4) by (simp add: P)
  have nt: "ntohtcp TCP6_PHDRSIZE wire = Some (p6sport ph, p6dport ph, overwire scl sg, H)"
    unfolding e H_def by (rule ntohtcp_back[OF lp assms(1)])
  have dr: "drop (H + TCP6_PHDRSIZE) wire = dat"
  proof -
    let ?q = "?pre @ bytes2 (p6sport ph) @ bytes2 (p6dport ph) @ tcpfields sg H scl ck @ optbytes False sg"
    have "length ?q = H + TCP6_PHDRSIZE" using assms(3,4) length_optbytes[of False sg] n(2) by (simp add: tcpfields_def H_def P)
    moreover have "wire = ?q @ dat" by (simp add: e)
    ultimately show ?thesis by (metis append_eq_conv_conj)
  qed
  have ul: "unat (nhgets wire 4 - of_nat H) = length dat" unfolding L n_def by (rule unat_data16) (use n in \<open>simp add: n_def\<close>)
  have a: "take 16 (drop 8 wire) = p6src ph" "take 16 (drop 24 wire) = p6dst ph"
    using assms(3,4) by (simp_all add: wire_def rest_def bytes2_def)
  have nc: "((wire ! 56 \<noteq> 0 \<or> wire ! 57 \<noteq> 0) \<and> ptclsum 0 (unat (nhgets wire 4) + TCP6_PHDRSIZE) (pkt ck) \<noteq> 0) = False" using ok by blast
  show ?thesis unfolding wire tcpin6_def Let_def ph nc if_False nt option.case prod.case dr ul a by simp
qed

end
