(* ===== verification/Limbo.thy ===== *)
theory Limbo
  imports Tcp_Input Ipht "HOL-Library.Sublist"
begin

unbundle bit_operations_syntax

text \<open>
  Calls in limbo (\<open>limbo\<close>, \<open>limborexmit\<close>, \<open>limborst\<close>, \<open>sndsynack\<close> and \<open>tcpincoming\<close> in \<open>src/ip/tcp.c\<close>): a SYN to a listener
  does not get a conversation, but an entry in a hash table, until its SYN-ACK is acknowledged.

  A list linked by \<open>next\<close> is the list of its entries; the pointer \<open>l\<close> of the loops is the length of what is before it. The
  lock of the protocol makes each routine one step. \<open>synacks\<close> records what was sent. The arguments \<open>ok\<close> and \<open>mem\<close> say
  whether \<open>htontcp\<close> and \<open>malloc\<close> find memory, \<open>isn\<close> is the random sequence number, \<open>ifc\<close> the interface of the local
  address with its \<open>maxtu\<close> and \<open>hsize\<close>.
\<close>

section \<open>Data\<close>

record limboent = limbocall +
  lwho :: conv
  lversion :: nat

record limbos =
  lht :: "nat \<Rightarrow> limboent list"
  nlimbo :: int
  synacks :: "(conv \<times> nat \<times> tcpseg) list"

definition V4 :: nat where "V4 = 4"
definition V6 :: nat where "V6 = 6"
definition Maxlimbo :: int where "Maxlimbo = 1000"
definition NLHT :: nat where "NLHT = 256"
definition LHTMASK :: u32 where "LHTMASK = of_nat NLHT - 1"

definition hashipa :: "u8 list \<Rightarrow> u16 \<Rightarrow> nat" where
  "hashipa a p = unat ((ucast (a ! (IPaddrlen - 2)) + ucast (a ! (IPaddrlen - 1)) + ucast p :: u32) AND LHTMASK)"

text \<open>The caller of a segment: our end is its destination.\<close>

definition hashwho :: "conv \<Rightarrow> nat" where
  "hashwho who = hashipa (raddr who) (rport who)"

definition iscall :: "conv \<Rightarrow> nat \<Rightarrow> limboent \<Rightarrow> bool" where
  "iscall who ver lp \<longleftrightarrow> lport (lwho lp) = lport who \<and> rport (lwho lp) = rport who \<and> lversion lp = ver
     \<and> ipeq (raddr (lwho lp)) (raddr who) \<and> ipeq (laddr (lwho lp)) (laddr who)"

text \<open>The loop that looks for a call: the entries before it, and those from it on.\<close>

definition seekcall :: "conv \<Rightarrow> nat \<Rightarrow> limboent list \<Rightarrow> limboent list \<times> limboent list" where
  "seekcall who ver lps = (takeWhile (\<lambda>lp. \<not> iscall who ver lp) lps, dropWhile (\<lambda>lp. \<not> iscall who ver lp) lps)"

definition setbucket :: "nat \<Rightarrow> limboent list \<Rightarrow> int \<Rightarrow> limbos \<Rightarrow> limbos" where
  "setbucket h lps n s = s\<lparr>lht := (lht s)(h := lps), nlimbo := n\<rparr>"

section \<open>Operations\<close>

definition tcpmtu :: "(int \<times> int) option \<Rightarrow> nat \<Rightarrow> int" where
  "tcpmtu ifc version =
    (if version = V6 then case ifc of None \<Rightarrow> int (unat DEF_MSS6) | Some (maxtu, hsize) \<Rightarrow> maxtu - hsize - (40 + 20)
     else case ifc of None \<Rightarrow> int (unat DEF_MSS) | Some (maxtu, hsize) \<Rightarrow> maxtu - hsize - (20 + 20))"

text \<open>\<open>None\<close> is the result -1.\<close>

definition sndsynack :: "(int \<times> int) option \<Rightarrow> bool \<Rightarrow> u32 \<Rightarrow> limboent \<Rightarrow> (limboent \<times> tcpseg) option" where
  "sndsynack ifc ok now lp =
    (let lp = lp\<lparr>lsndscale := (if lrcvscale lp \<noteq> 0 then Defadvscale else 0)\<rparr>;
         sg = \<lparr>seq = liss lp, ack = lirs lp + 1, flags = {SYN, ACK}, upd = False, ws = lsndscale lp, wnd = QMAX, urg = 0,
               mssopt = of_int (tcpmtu ifc (lversion lp))\<rparr>
     in if ok then Some (lp\<lparr>lastsend := now\<rparr>, sg) else None)"

definition sent :: "limboent \<Rightarrow> tcpseg \<Rightarrow> limbos \<Rightarrow> limbos" where
  "sent lp sg s = s\<lparr>synacks := (lwho lp, lversion lp, sg) # synacks s\<rparr>"

text \<open>The end of \<open>limbo\<close>: the entry is at the end of \<open>before\<close>; it is taken out again when nothing could be sent.\<close>

definition answer :: "(int \<times> int) option \<Rightarrow> bool \<Rightarrow> u32 \<Rightarrow> nat \<Rightarrow> limboent list \<Rightarrow> limboent \<Rightarrow> limboent list \<Rightarrow> int \<Rightarrow> limbos \<Rightarrow> limbos" where
  "answer ifc ok now h before lp after n s =
    (case sndsynack ifc ok now lp of
       None \<Rightarrow> setbucket h (before @ after) (n - 1) s
     | Some (lp, sg) \<Rightarrow> sent lp sg (setbucket h (before @ lp # after) n s))"

definition newlimbo :: "conv \<Rightarrow> nat \<Rightarrow> tcpseg \<Rightarrow> seqno \<Rightarrow> limboent \<Rightarrow> limboent" where
  "newlimbo who ver sg isn lp = lp\<lparr>lversion := ver, lwho := who, lmss := mssopt sg, lrcvscale := ws sg, lirs := seq sg, liss := isn\<rparr>"

definition zerolimbo :: limboent where
  "zerolimbo = \<lparr>lirs = 0, liss = 0, lmss = 0, lrcvscale = 0, lsndscale = 0, lastsend = 0, rexmits = 0,
     lwho = \<lparr>laddr = IPnoaddr, lport = 0, raddr = IPnoaddr, rport = 0\<rparr>, lversion = 0\<rparr>"

text \<open>
  When the table is full the first entry of the bucket is used again: it is unlinked, and stored through \<open>l\<close>, which points to the
  \<open>next\<close> of the last entry. If it was the only one, \<open>l\<close> points to its own \<open>next\<close>: it then follows itself, and the bucket,
  which has become empty, does not lead to it; a failure to send stores to the same place.
\<close>

definition recycle :: "(int \<times> int) option \<Rightarrow> bool \<Rightarrow> u32 \<Rightarrow> conv \<Rightarrow> nat \<Rightarrow> tcpseg \<Rightarrow> seqno \<Rightarrow> nat \<Rightarrow> limboent \<Rightarrow> limboent list \<Rightarrow> limbos \<Rightarrow> limbos" where
  "recycle ifc ok now who ver sg isn h lp lps s =
    (let lp = newlimbo who ver sg isn lp in
     if lps = [] then
       (case sndsynack ifc ok now lp of
          None \<Rightarrow> setbucket h [] (nlimbo s - 1) s
        | Some (lp, sg) \<Rightarrow> sent lp sg (setbucket h [] (nlimbo s) s))
     else answer ifc ok now h lps lp [] (nlimbo s) s)"

definition limbo :: "(int \<times> int) option \<Rightarrow> bool \<Rightarrow> bool \<Rightarrow> u32 \<Rightarrow> seqno \<Rightarrow> conv \<Rightarrow> nat \<Rightarrow> tcpseg \<Rightarrow> limbos \<Rightarrow> limbos" where
  "limbo ifc mem ok now isn who ver sg s =
    (let h = hashwho who; lps = lht s h in
     case seekcall who ver lps of
       (before, lp # after) \<Rightarrow> answer ifc ok now h before (lp\<lparr>lirs := seq sg\<rparr>) after (nlimbo s) s
     | (_, []) \<Rightarrow>
         if nlimbo s \<ge> Maxlimbo \<and> lps \<noteq> [] then recycle ifc ok now who ver sg isn h (hd lps) (tl lps) s
         else if \<not> mem then s
         else answer ifc ok now h lps (newlimbo who ver sg isn zerolimbo) [] (nlimbo s + 1) s)"

text \<open>
  The inner loop of \<open>limborexmit\<close>: what the bucket holds from \<open>l\<close> on, \<open>seen\<close>, \<open>nlimbo\<close>, and what is sent. Where the code
  says \<open>continue\<close> without moving \<open>l\<close>, the same place is looked at again. \<open>ok\<close> and \<open>clk\<close> are indexed by \<open>seen\<close>.
\<close>

function rexmitloop :: "(int \<times> int) option \<Rightarrow> (int \<Rightarrow> bool) \<Rightarrow> (int \<Rightarrow> u32) \<Rightarrow> u32 \<Rightarrow> int \<Rightarrow> int \<Rightarrow> limboent list
    \<Rightarrow> limboent list \<times> int \<times> int \<times> (conv \<times> nat \<times> tcpseg) list" where
  "rexmitloop ifc ok clk now seen n [] = ([], seen, n, [])"
| "rexmitloop ifc ok clk now seen n (lp # lps) =
    (if \<not> seen < n then (lp # lps, seen, n, [])
     else let seen = seen + 1 in
       if now - lastsend lp < (ucast (rexmits lp) + 1) * SYNACK_RXTIMER then rexmitloop ifc ok clk now seen n (lp # lps)
       else let lp = lp\<lparr>rexmits := rexmits lp + 1\<rparr> in
         if rexmits lp > 5 then rexmitloop ifc ok clk now seen (n - 1) lps
         else if n > 100 then rexmitloop ifc ok clk now seen n (lp # lps)
         else case sndsynack ifc (ok seen) (clk seen) lp of
             None \<Rightarrow> rexmitloop ifc ok clk now seen (n - 1) lps
           | Some (lp, sg) \<Rightarrow>
               let (rest, seen, n, out) = rexmitloop ifc ok clk now seen n lps
               in (lp # rest, seen, n, out @ [(lwho lp, lversion lp, sg)]))"
  by pat_completeness auto
termination
  by (relation "measure (\<lambda>(ifc, ok, clk, now, seen, n, lps). nat (n - seen))") auto

declare rexmitloop.simps(2) [simp del]

fun rexmitall :: "(int \<times> int) option \<Rightarrow> (int \<Rightarrow> bool) \<Rightarrow> (int \<Rightarrow> u32) \<Rightarrow> u32 \<Rightarrow> nat list \<Rightarrow> int \<Rightarrow> limbos \<Rightarrow> limbos" where
  "rexmitall ifc ok clk now [] seen s = s"
| "rexmitall ifc ok clk now (h # hs) seen s =
    (if \<not> seen < nlimbo s then s
     else let (lps, seen, n, out) = rexmitloop ifc ok clk now seen (nlimbo s) (lht s h);
              s = setbucket h lps n s
          in rexmitall ifc ok clk now hs seen (s\<lparr>synacks := out @ synacks s\<rparr>))"

definition limborexmit :: "(int \<times> int) option \<Rightarrow> bool \<Rightarrow> (int \<Rightarrow> bool) \<Rightarrow> (int \<Rightarrow> u32) \<Rightarrow> u32 \<Rightarrow> limbos \<Rightarrow> limbos" where
  "limborexmit ifc locked ok clk now s = (if \<not> locked then s else rexmitall ifc ok clk now [0..<NLHT] 0 s)"

definition limborst :: "conv \<Rightarrow> nat \<Rightarrow> tcpseg \<Rightarrow> limbos \<Rightarrow> limbos" where
  "limborst who ver sg s =
    (let h = hashwho who in
     case seekcall who ver (lht s h) of
       (_, []) \<Rightarrow> s
     | (before, lp # after) \<Rightarrow> if seq sg = lirs lp + 1 then setbucket h (before @ after) (nlimbo s - 1) s else s)"

text \<open>The first part of \<open>tcpincoming\<close>, which takes the call out of the table.\<close>

definition takecall :: "conv \<Rightarrow> nat \<Rightarrow> tcpseg \<Rightarrow> limbos \<Rightarrow> limboent option \<times> limbos" where
  "takecall who ver sg s =
    (if SYN \<in> flags sg \<or> ACK \<notin> flags sg then (None, s)
     else let h = hashwho who in
       case seekcall who ver (lht s h) of
         (_, []) \<Rightarrow> (None, s)
       | (before, lp # after) \<Rightarrow>
           if seq sg \<noteq> lirs lp + 1 \<or> ack sg \<noteq> liss lp + 1 then (None, s)
           else (Some lp, setbucket h (before @ after) (nlimbo s - 1) s))"

text \<open>
  The protocol: its table of calls, its table of conversations, their addresses and control blocks. \<open>new\<close> is the result of
  \<open>Fsnewcall\<close>, which sets the addresses of the conversation it finds.
\<close>

record tcpproto =
  lim :: limbos
  ht :: ipht
  cvs :: "nat \<Rightarrow> conv"
  tcbs :: "nat \<Rightarrow> tcpconv"

definition tcpincoming :: "u32 \<Rightarrow> nat option \<Rightarrow> nat \<Rightarrow> conv \<Rightarrow> nat \<Rightarrow> tcpseg \<Rightarrow> tcpproto \<Rightarrow> nat option \<times> tcpproto" where
  "tcpincoming now new l who ver sg s =
    (case takecall who ver sg (lim s) of
       (None, t) \<Rightarrow> (None, s\<lparr>lim := t\<rparr>)
     | (Some lp, t) \<Rightarrow>
         (case new of
            None \<Rightarrow> (None, s\<lparr>lim := t\<rparr>)
          | Some c \<Rightarrow>
              let cv = (cvs s)(c := who); tcb = newcall now (limbocall.truncate lp) sg (tcbs s l) (tcbs s c)
              in (Some c, s\<lparr>lim := t, cvs := cv, tcbs := (tcbs s)(c := tcb), ht := iphtadd cv c (ht s)\<rparr>)))"

datatype demux = Reset | Freed | Deliver nat

text \<open>\<open>tcpiput\<close> from the search for the conversation on, up to the state machine of the conversation.\<close>

definition tcpdemux :: "(int \<times> int) option \<Rightarrow> bool \<Rightarrow> bool \<Rightarrow> u32 \<Rightarrow> seqno \<Rightarrow> nat option \<Rightarrow> conv \<Rightarrow> nat \<Rightarrow> tcpseg \<Rightarrow> tcpproto \<Rightarrow> demux \<times> tcpproto" where
  "tcpdemux ifc mem ok now isn new who ver sg s =
    (case iphtlook (cvs s) (ht s) (raddr who) (rport who) (laddr who) (lport who) of
       None \<Rightarrow> (Reset, s)
     | Some c \<Rightarrow>
         if state (tcbs s c) \<noteq> Listen then (Deliver c, s)
         else if RST \<in> flags sg then (Freed, s\<lparr>lim := limborst who ver sg (lim s)\<rparr>)
         else if SYN \<in> flags sg \<and> ACK \<notin> flags sg then (Freed, s\<lparr>lim := limbo ifc mem ok now isn who ver sg (lim s)\<rparr>)
         else case tcpincoming now new c who ver sg s of
             (None, s) \<Rightarrow> (Reset, s)
           | (Some n, s) \<Rightarrow> (Deliver n, s))"

section \<open>The table as a map\<close>

definition addrs :: "conv \<Rightarrow> bool" where
  "addrs who \<longleftrightarrow> length (laddr who) = IPaddrlen \<and> length (raddr who) = IPaddrlen"

definition lkey :: "limboent \<Rightarrow> conv \<times> nat" where
  "lkey lp = (lwho lp, lversion lp)"

definition calls :: "limbos \<Rightarrow> conv \<times> nat \<rightharpoonup> limboent" where
  "calls s k = find (\<lambda>lp. lkey lp = k) (lht s (hashwho (fst k)))"

definition bucketok :: "nat \<Rightarrow> limboent list \<Rightarrow> bool" where
  "bucketok h lps \<longleftrightarrow> distinct (map lkey lps) \<and> (\<forall>lp \<in> set lps. addrs (lwho lp) \<and> hashwho (lwho lp) = h)"

definition limbook :: "limbos \<Rightarrow> bool" where
  "limbook s \<longleftrightarrow> (\<forall>h. bucketok h (lht s h))"

definition ncalls :: "limbos \<Rightarrow> int" where
  "ncalls s = (\<Sum>h<NLHT. int (length (lht s h)))"

lemma hashwho_less: "hashwho who < NLHT"
proof -
  have "unat (w AND LHTMASK) \<le> 255" for w :: u32
  proof -
    have "w AND LHTMASK \<le> LHTMASK" by (rule word_and_le1)
    thus ?thesis by (simp add: LHTMASK_def NLHT_def word_le_nat_alt)
  qed
  from le_less_trans[OF this, of 256] show ?thesis unfolding hashwho_def hashipa_def NLHT_def by simp
qed

lemma iscall_lkey: "addrs who \<Longrightarrow> addrs (lwho lp) \<Longrightarrow> iscall who ver lp \<longleftrightarrow> lkey lp = (who, ver)"
  by (auto simp: iscall_def lkey_def addrs_def ipeq_iff)

lemma seekcall_cases:
  assumes "addrs who" "bucketok h lps"
  obtains (absent) "seekcall who ver lps = (lps, [])" "(who, ver) \<notin> lkey ` set lps"
  | (there) before lp after where "lps = before @ lp # after" "seekcall who ver lps = (before, lp # after)" "lkey lp = (who, ver)"
proof -
  have m: "iscall who ver lp \<longleftrightarrow> lkey lp = (who, ver)" if "lp \<in> set lps" for lp
    using that assms iscall_lkey by (auto simp: bucketok_def)
  show thesis
  proof (cases "dropWhile (\<lambda>lp. \<not> iscall who ver lp) lps")
    case Nil
    hence "\<forall>lp \<in> set lps. \<not> iscall who ver lp" by (auto simp: dropWhile_eq_Nil_conv)
    moreover from this have "takeWhile (\<lambda>lp. \<not> iscall who ver lp) lps = lps" by (simp add: takeWhile_eq_all_conv)
    ultimately show thesis using Nil m by (intro absent) (auto simp: seekcall_def)
  next
    case (Cons lp after)
    let ?b = "takeWhile (\<lambda>lp. \<not> iscall who ver lp) lps"
    have e: "lps = ?b @ lp # after" using takeWhile_dropWhile_id[of "\<lambda>lp. \<not> iscall who ver lp" lps] Cons by simp
    hence "lp \<in> set lps" by (metis in_set_conv_decomp)
    moreover have "iscall who ver lp" using hd_dropWhile[of "\<lambda>lp. \<not> iscall who ver lp" lps] Cons by simp
    ultimately show thesis using e Cons m by (intro there[of ?b lp after]) (auto simp: seekcall_def)
  qed
qed

lemma find_absent: "k \<notin> f ` set xs \<Longrightarrow> find (\<lambda>x. f x = k) xs = None"
  by (auto simp: find_None_iff)

lemma find_there: "distinct (map f (xs @ x # ys)) \<Longrightarrow> find (\<lambda>y. f y = f x) (xs @ x # ys) = Some x"
  by (induction xs) auto

lemma calls_there: "limbook s \<Longrightarrow> lht s (hashwho (fst k)) = before @ lp # after \<Longrightarrow> lkey lp = k \<Longrightarrow> calls s k = Some lp"
  unfolding calls_def limbook_def bucketok_def using find_there[of lkey before lp after] by (metis (no_types))

lemma find_keys: "distinct (map f (xs @ ys)) \<Longrightarrow> find (\<lambda>y. f y = k) (xs @ ys) = (case find (\<lambda>y. f y = k) xs of None \<Rightarrow> find (\<lambda>y. f y = k) ys | r \<Rightarrow> r)"
  by (induction xs) auto

section \<open>What the operations do to the map\<close>

lemma ncalls_setbucket: "h < NLHT \<Longrightarrow> ncalls (setbucket h lps n s) = ncalls s - int (length (lht s h)) + int (length lps)"
proof -
  assume h: "h < NLHT"
  have "ncalls (setbucket h lps n s) = (\<Sum>i<NLHT. int (length (lht s i)) + (if i = h then int (length lps) - int (length (lht s h)) else 0))"
    unfolding ncalls_def setbucket_def by (rule sum.cong) auto
  also have "\<dots> = ncalls s + (int (length lps) - int (length (lht s h)))" using h by (simp add: sum.distrib ncalls_def)
  finally show ?thesis by simp
qed

lemma nlimbo_setbucket [simp]: "nlimbo (setbucket h lps n s) = n" "synacks (setbucket h lps n s) = synacks s" "lht (setbucket h lps n s) = (lht s)(h := lps)"
  by (simp_all add: setbucket_def)

lemma sent_simps [simp]: "lht (sent lp sg s) = lht s" "nlimbo (sent lp sg s) = nlimbo s" "ncalls (sent lp sg s) = ncalls s"
    "limbook (sent lp sg s) = limbook s" "calls (sent lp sg s) = calls s" "synacks (sent lp sg s) = (lwho lp, lversion lp, sg) # synacks s"
  by (auto simp: sent_def ncalls_def limbook_def calls_def)

lemma limbook_setbucket: "limbook s \<Longrightarrow> bucketok h lps \<Longrightarrow> limbook (setbucket h lps n s)"
  by (simp add: limbook_def)

lemma bucketok_remove: "bucketok h (before @ lp # after) \<Longrightarrow> bucketok h (before @ after)"
  by (auto simp: bucketok_def)

lemma bucketok_replace: "bucketok h (before @ lp # after) \<Longrightarrow> lkey lp' = lkey lp \<Longrightarrow> bucketok h (before @ lp' # after)"
  by (auto simp: bucketok_def lkey_def)

lemma bucketok_snoc: "bucketok h lps \<Longrightarrow> addrs (lwho lp) \<Longrightarrow> hashwho (lwho lp) = h \<Longrightarrow> lkey lp \<notin> lkey ` set lps \<Longrightarrow> bucketok h (lps @ [lp])"
  by (auto simp: bucketok_def)

text \<open>Removing an entry of a bucket and putting one there are deletion and update of the map.\<close>

lemma calls_remove:
  assumes "limbook s" "lht s h = before @ lp # after" "h = hashwho (lwho lp)"
  shows "calls (setbucket h (before @ after) n s) = (calls s)(lkey lp := None)"
proof
  fix k
  have b: "distinct (map lkey (before @ lp # after))" using assms by (metis limbook_def bucketok_def)
  show "calls (setbucket h (before @ after) n s) k = ((calls s)(lkey lp := None)) k"
  proof (cases "hashwho (fst k) = h")
    case True
    have "k \<noteq> lkey lp \<Longrightarrow> find (\<lambda>l. lkey l = k) (before @ after) = find (\<lambda>l. lkey l = k) (before @ lp # after)"
      by (induction before) auto
    moreover have "find (\<lambda>l. lkey l = lkey lp) (before @ after) = None" using b by (intro find_absent) auto
    ultimately show ?thesis using True assms(2) by (auto simp: calls_def)
  next
    case False
    hence "k \<noteq> lkey lp" using assms(3) by (auto simp: lkey_def)
    thus ?thesis using False by (simp add: calls_def)
  qed
qed

lemma calls_put:
  assumes "limbook s" "lht s h = before @ old @ after" "h = hashwho (lwho lp)" "bucketok h (before @ lp # after)"
    "\<And>lp'. lp' \<in> set old \<Longrightarrow> lkey lp' = lkey lp"
  shows "calls (setbucket h (before @ lp # after) n s) = (calls s)(lkey lp \<mapsto> lp)"
proof
  fix k
  have b: "distinct (map lkey (before @ lp # after))" using assms(4) by (simp add: bucketok_def)
  show "calls (setbucket h (before @ lp # after) n s) k = ((calls s)(lkey lp \<mapsto> lp)) k"
  proof (cases "hashwho (fst k) = h")
    case True
    have "k \<noteq> lkey lp \<Longrightarrow> find (\<lambda>l. lkey l = k) old = None" using assms(5) by (auto simp: find_None_iff)
    hence "find (\<lambda>l. lkey l = k) (before @ lp # after) = find (\<lambda>l. lkey l = k) (before @ old @ after)" if "k \<noteq> lkey lp"
      using that by (induction before; induction old) auto
    thus ?thesis using True assms(2) find_there[OF b] by (auto simp: calls_def)
  next
    case False
    hence "k \<noteq> lkey lp" using assms(3) by (auto simp: lkey_def)
    thus ?thesis using False by (simp add: calls_def)
  qed
qed

text \<open>The entry and the segment once the SYN-ACK is sent.\<close>

definition answered :: "u32 \<Rightarrow> limboent \<Rightarrow> limboent" where
  "answered now lp = lp\<lparr>lsndscale := (if lrcvscale lp \<noteq> 0 then Defadvscale else 0), lastsend := now\<rparr>"

definition synackof :: "(int \<times> int) option \<Rightarrow> limboent \<Rightarrow> tcpseg" where
  "synackof ifc lp = \<lparr>seq = liss lp, ack = lirs lp + 1, flags = {SYN, ACK}, upd = False,
     ws = (if lrcvscale lp \<noteq> 0 then Defadvscale else 0), wnd = QMAX, urg = 0, mssopt = of_int (tcpmtu ifc (lversion lp))\<rparr>"

lemma sndsynack_eq: "sndsynack ifc ok now lp = (if ok then Some (answered now lp, synackof ifc lp) else None)"
  by (simp add: sndsynack_def answered_def synackof_def Let_def)

lemma answered_simps [simp]: "lwho (answered now lp) = lwho lp" "lversion (answered now lp) = lversion lp" "lirs (answered now lp) = lirs lp"
    "liss (answered now lp) = liss lp" "lkey (answered now lp) = lkey lp" "lmss (answered now lp) = lmss lp" "lrcvscale (answered now lp) = lrcvscale lp"
  by (simp_all add: answered_def lkey_def)

lemma lkey_simps [simp]: "lkey (lp\<lparr>lirs := x\<rparr>) = lkey lp" "lkey (lp\<lparr>rexmits := y\<rparr>) = lkey lp" "lkey (newlimbo who ver sg isn lp) = (who, ver)"
    "lwho (newlimbo who ver sg isn lp) = who" "lversion (newlimbo who ver sg isn lp) = ver" "lirs (newlimbo who ver sg isn lp) = seq sg"
    "liss (newlimbo who ver sg isn lp) = isn"
  by (simp_all add: lkey_def newlimbo_def)

lemma answer_ok: "answer ifc True now h before lp after n s
    = sent (answered now lp) (synackof ifc lp) (setbucket h (before @ answered now lp # after) n s)"
  by (simp add: answer_def sndsynack_eq)

lemma bucketokD: "limbook s \<Longrightarrow> bucketok h (lht s h)"
  by (simp add: limbook_def)

lemma lkeyD: "lkey lp = (who, ver) \<Longrightarrow> lwho lp = who \<and> lversion lp = ver"
  by (simp add: lkey_def)

text \<open>With room in the table a SYN puts its call into the map, or renews it there.\<close>

definition limboentry :: "seqno \<Rightarrow> conv \<Rightarrow> nat \<Rightarrow> tcpseg \<Rightarrow> limbos \<Rightarrow> limboent" where
  "limboentry isn who ver sg s =
    (case calls s (who, ver) of Some lp \<Rightarrow> lp\<lparr>lirs := seq sg\<rparr> | None \<Rightarrow> newlimbo who ver sg isn zerolimbo)"

lemma limbo_room:
  assumes s: "limbook s" and a: "addrs who" and n: "nlimbo s < Maxlimbo" and e: "e = limboentry isn who ver sg s"
    and s': "s' = limbo ifc True True now isn who ver sg s"
  shows "limbook s' \<and> calls s' = (calls s)((who, ver) \<mapsto> answered now e) \<and> nlimbo s' - ncalls s' = nlimbo s - ncalls s
    \<and> synacks s' = (who, ver, synackof ifc e) # synacks s"
proof -
  let ?h = "hashwho who"
  note b = bucketokD[OF s, of ?h] and h = hashwho_less[of who]
  from a b show ?thesis
  proof (cases rule: seekcall_cases[of who ?h "lht s ?h" ver])
    case absent
    have c: "calls s (who, ver) = None" using find_absent[OF absent(2)] by (simp add: calls_def)
    define lp where "lp = newlimbo who ver sg isn zerolimbo"
    have k: "lkey lp = (who, ver)" "lwho lp = who" "lversion lp = ver" by (simp_all add: lp_def)
    have e': "e = lp" by (simp add: e limboentry_def c lp_def)
    have eq: "s' = answer ifc True now ?h (lht s ?h) lp [] (nlimbo s + 1) s" using absent(1) n by (simp add: s' limbo_def Let_def lp_def)
    have b': "bucketok ?h (lht s ?h @ [answered now lp])" using bucketok_snoc[OF b, of "answered now lp"] a absent(2) k by simp
    have m: "calls (setbucket ?h (lht s ?h @ [answered now lp]) n s) = (calls s)((who, ver) \<mapsto> answered now lp)" for n
      using calls_put[OF s _ _ b', of "[]" n] unfolding answered_simps k by simp
    show ?thesis unfolding eq answer_ok e' by (simp add: m k limbook_setbucket[OF s b'] ncalls_setbucket[OF h])
  next
    case (there before lp after)
    have c: "calls s (who, ver) = Some lp" using calls_there[OF s, of "(who, ver)" before lp after] there by simp
    define lp' where "lp' = lp\<lparr>lirs := seq sg\<rparr>"
    have k: "lkey lp = (who, ver)" "lkey lp' = (who, ver)" "lwho lp' = who" "lversion lp' = ver" using there(3) by (simp_all add: lp'_def lkey_def)
    have e': "e = lp'" by (simp add: e limboentry_def c lp'_def)
    have eq: "s' = answer ifc True now ?h before lp' after (nlimbo s) s" using there(2) by (simp add: s' limbo_def Let_def lp'_def)
    have b': "bucketok ?h (before @ answered now lp' # after)" using bucketok_replace[of ?h before lp after "answered now lp'"] b there(1) k by simp
    have m: "calls (setbucket ?h (before @ answered now lp' # after) n s) = (calls s)((who, ver) \<mapsto> answered now lp')" for n
      using calls_put[OF s _ _ b', of "[lp]" n] unfolding answered_simps k there(1) by (simp add: k(1))
    show ?thesis unfolding eq answer_ok e' by (simp add: m k limbook_setbucket[OF s b'] ncalls_setbucket[OF h] there(1))
  qed
qed

text \<open>A reset with the sequence number behind the SYN deletes the call.\<close>

lemma limborst_map:
  assumes s: "limbook s" and a: "addrs who" and s': "s' = limborst who ver sg s"
  shows "limbook s' \<and> nlimbo s' - ncalls s' = nlimbo s - ncalls s \<and> synacks s' = synacks s
    \<and> calls s' = (case calls s (who, ver) of Some lp \<Rightarrow> if seq sg = lirs lp + 1 then (calls s)((who, ver) := None) else calls s | None \<Rightarrow> calls s)"
proof -
  let ?h = "hashwho who"
  note b = bucketokD[OF s, of ?h] and h = hashwho_less[of who]
  from a b show ?thesis
  proof (cases rule: seekcall_cases[of who ?h "lht s ?h" ver])
    case absent
    thus ?thesis using s find_absent[OF absent(2)] by (simp add: s' limborst_def Let_def calls_def)
  next
    case (there before lp after)
    have c: "calls s (who, ver) = Some lp" using calls_there[OF s, of "(who, ver)" before lp after] there by simp
    have b': "bucketok ?h (before @ after)" using bucketok_remove b there(1) by simp
    show ?thesis using there c s h limbook_setbucket[OF s b'] calls_remove[OF s there(1)] lkeyD[OF there(3)]
      by (simp add: s' limborst_def Let_def ncalls_setbucket)
  qed
qed

text \<open>An acknowledgement takes out the call it fits, and only that.\<close>

lemma takecall_map:
  assumes s: "limbook s" and a: "addrs who" and t: "takecall who ver sg s = (r, s')"
  shows "limbook s' \<and> nlimbo s' - ncalls s' = nlimbo s - ncalls s \<and> synacks s' = synacks s
    \<and> (case r of
         None \<Rightarrow> s' = s \<and> \<not> (SYN \<notin> flags sg \<and> ACK \<in> flags sg \<and> (\<exists>lp. calls s (who, ver) = Some lp \<and> seq sg = lirs lp + 1 \<and> ack sg = liss lp + 1))
       | Some lp \<Rightarrow> SYN \<notin> flags sg \<and> ACK \<in> flags sg \<and> calls s (who, ver) = Some lp \<and> seq sg = lirs lp + 1 \<and> ack sg = liss lp + 1
           \<and> calls s' = (calls s)((who, ver) := None))"
proof (cases "SYN \<in> flags sg \<or> ACK \<notin> flags sg")
  case True
  thus ?thesis using s t by (auto simp: takecall_def)
next
  case f: False
  let ?h = "hashwho who"
  note b = bucketokD[OF s, of ?h] and h = hashwho_less[of who]
  from a b show ?thesis
  proof (cases rule: seekcall_cases[of who ?h "lht s ?h" ver])
    case absent
    thus ?thesis using s t f find_absent[OF absent(2)] by (auto simp: takecall_def Let_def calls_def)
  next
    case (there before lp after)
    have c: "calls s (who, ver) = Some lp" using calls_there[OF s, of "(who, ver)" before lp after] there by simp
    have b': "bucketok ?h (before @ after)" using bucketok_remove b there(1) by simp
    have m: "calls (setbucket ?h (before @ after) n s) = (calls s)((who, ver) := None)" for n
      using calls_remove[OF s there(1)] lkeyD[OF there(3)] there(3) by simp
    show ?thesis
    proof (cases "seq sg = lirs lp + 1 \<and> ack sg = liss lp + 1")
      case True
      hence "r = Some lp" "s' = setbucket ?h (before @ after) (nlimbo s - 1) s" using t f there(2) by (auto simp: takecall_def Let_def)
      thus ?thesis using True f c by (simp add: m limbook_setbucket[OF s b'] ncalls_setbucket[OF h] there(1))
    next
      case False
      hence "r = None" "s' = s" using t f there(2) by (auto simp: takecall_def Let_def)
      thus ?thesis using False c s by simp
    qed
  qed
qed

section \<open>Retransmission\<close>

definition ident :: "limboent \<Rightarrow> conv \<times> nat \<times> seqno \<times> seqno" where
  "ident lp = (lwho lp, lversion lp, lirs lp, liss lp)"

lemma ident_simps [simp]: "ident (answered t lp) = ident lp" "ident (lp\<lparr>rexmits := x\<rparr>) = ident lp"
  by (simp_all add: ident_def)

text \<open>The loop drops entries and counts them, and changes nothing that a handshake depends on.\<close>

lemma rexmitloop_kept:
  "rexmitloop ifc ok clk now seen n lps = (lps', seen', n', out)
    \<Longrightarrow> subseq (map ident lps') (map ident lps) \<and> n' - int (length lps') = n - int (length lps) \<and> seen \<le> seen'"
proof (induction ifc ok clk now seen n lps arbitrary: lps' seen' n' out rule: rexmitloop.induct)
  case (1 ifc ok clk now seen n)
  thus ?case by simp
next
  case (2 ifc ok clk now seen n lp lps)
  let ?lp = "lp\<lparr>rexmits := rexmits lp + 1\<rparr>"
  consider (full) "\<not> seen < n"
    | (early) "seen < n" "now - lastsend lp < (ucast (rexmits lp) + 1) * SYNACK_RXTIMER"
    | (old) "seen < n" "\<not> now - lastsend lp < (ucast (rexmits lp) + 1) * SYNACK_RXTIMER" "rexmits lp + 1 > 5"
    | (many) "seen < n" "\<not> now - lastsend lp < (ucast (rexmits lp) + 1) * SYNACK_RXTIMER" "\<not> rexmits lp + 1 > 5" "n > 100"
    | (send) "seen < n" "\<not> now - lastsend lp < (ucast (rexmits lp) + 1) * SYNACK_RXTIMER" "\<not> rexmits lp + 1 > 5" "\<not> n > 100"
    by blast
  thus ?case
  proof cases
    case full
    thus ?thesis using "2.prems" by (simp add: rexmitloop.simps(2))
  next
    case early
    hence "rexmitloop ifc ok clk now (seen + 1) n (lp # lps) = (lps', seen', n', out)" using "2.prems" by (subst (asm) rexmitloop.simps(2)) simp
    thus ?thesis using "2.IH"(1)[of "seen + 1"] early by simp
  next
    case old
    hence "rexmitloop ifc ok clk now (seen + 1) (n - 1) lps = (lps', seen', n', out)" using "2.prems" by (subst (asm) rexmitloop.simps(2)) simp
    thus ?thesis using "2.IH"(2)[of "seen + 1" ?lp] old by auto
  next
    case many
    hence "rexmitloop ifc ok clk now (seen + 1) n (?lp # lps) = (lps', seen', n', out)" using "2.prems" by (subst (asm) rexmitloop.simps(2)) simp
    thus ?thesis using "2.IH"(3)[of "seen + 1" ?lp] many by simp
  next
    case send
    show ?thesis
    proof (cases "ok (seen + 1)")
      case True
      obtain rest sn m o1 where r: "rexmitloop ifc ok clk now (seen + 1) n lps = (rest, sn, m, o1)" by (metis prod_cases4)
      have s: "sndsynack ifc (ok (seen + 1)) (clk (seen + 1)) ?lp = Some (answered (clk (seen + 1)) ?lp, synackof ifc ?lp)"
        using True by (simp add: sndsynack_eq)
      have "lps' = answered (clk (seen + 1)) ?lp # rest" "seen' = sn" "n' = m"
        using "2.prems" send r s by (simp_all add: rexmitloop.simps(2))
      thus ?thesis using "2.IH"(5)[of "seen + 1" ?lp _ "answered (clk (seen + 1)) ?lp" "synackof ifc ?lp" rest sn m o1] send s r by simp
    next
      case False
      hence s: "sndsynack ifc (ok (seen + 1)) (clk (seen + 1)) ?lp = None" by (simp add: sndsynack_eq)
      hence "rexmitloop ifc ok clk now (seen + 1) (n - 1) lps = (lps', seen', n', out)" using "2.prems" send by (simp add: rexmitloop.simps(2)[of _ _ _ _ seen])
      thus ?thesis using "2.IH"(4)[of "seen + 1" ?lp] send s by auto
    qed
  qed
qed

end
