(* ===== verification/Limbo_Correct.thy ===== *)
theory Limbo_Correct
  imports Limbo Tcp_Stream
begin

text \<open>
  What the table of calls in limbo promises: no conversation is made without the three segments of a handshake, over all sequences
  of what can happen to the table; the handshake makes one and connects it to the caller; and two ways in which the table
  does not do what it is meant to.
\<close>

section \<open>Nobody gets in without a handshake\<close>

text \<open>The entries of the table and the SYNs that came: the entries of a listener as a step relation.\<close>

inductive limbostep :: "limbos \<times> (conv \<times> nat \<times> seqno) list \<Rightarrow> limbos \<times> (conv \<times> nat \<times> seqno) list \<Rightarrow> bool" where
  syn: "addrs who \<Longrightarrow> limbostep (s, syns) (limbo ifc mem ok now isn who ver sg s, (who, ver, seq sg) # syns)"
| rst: "addrs who \<Longrightarrow> limbostep (s, syns) (limborst who ver sg s, syns)"
| ack: "addrs who \<Longrightarrow> limbostep (s, syns) (snd (takecall who ver sg s), syns)"
| rexmit: "limbostep (s, syns) (limborexmit ifc locked oks clk now s, syns)"

definition limboinit :: "limbos \<times> (conv \<times> nat \<times> seqno) list \<Rightarrow> bool" where
  "limboinit x \<longleftrightarrow> x = (\<lparr>lht = \<lambda>_. [], nlimbo = 0, synacks = []\<rparr>, [])"

text \<open>A SYN came from the caller, and the SYN-ACK that answers it went to the caller.\<close>

definition shaken :: "(conv \<times> nat \<times> seqno) list \<Rightarrow> (conv \<times> nat \<times> tcpseg) list \<Rightarrow> conv \<times> nat \<times> seqno \<times> seqno \<Rightarrow> bool" where
  "shaken syns out = (\<lambda>(who, ver, i, j). (who, ver, i) \<in> set syns
     \<and> (\<exists>sg. (who, ver, sg) \<in> set out \<and> flags sg = {SYN, ACK} \<and> seq sg = j \<and> ack sg = i + 1))"

definition shown :: "(conv \<times> nat \<times> seqno) list \<Rightarrow> limbos \<Rightarrow> bool" where
  "shown syns s \<longleftrightarrow> (\<forall>h. \<forall>lp \<in> set (lht s h). shaken syns (synacks s) (ident lp))"

definition limboinv :: "limbos \<times> (conv \<times> nat \<times> seqno) list \<Rightarrow> bool" where
  "limboinv = (\<lambda>(s, syns). limbook s \<and> shown syns s \<and> ncalls s \<le> nlimbo s)"

definition limbogoal :: "limbos \<times> (conv \<times> nat \<times> seqno) list \<Rightarrow> bool" where
  "limbogoal = (\<lambda>(s, syns). ncalls s \<le> nlimbo s \<and> (\<forall>who ver sg lp t. addrs who \<and> takecall who ver sg s = (Some lp, t)
     \<longrightarrow> (who, ver, seq sg - 1) \<in> set syns \<and> (\<exists>sa. (who, ver, sa) \<in> set (synacks s) \<and> flags sa = {SYN, ACK} \<and> seq sa = ack sg - 1 \<and> ack sa = seq sg)))"

lemma shaken_mono: "shaken syns out x \<Longrightarrow> set syns \<subseteq> set syns' \<Longrightarrow> set out \<subseteq> set out' \<Longrightarrow> shaken syns' out' x"
  by (auto simp: shaken_def)

lemma shown_mono:
  assumes "shown syns s" "\<And>h. ident ` set (lht t h) \<subseteq> ident ` set (lht s h)" "set syns \<subseteq> set syns'" "set (synacks s) \<subseteq> set (synacks t)"
  shows "shown syns' t"
  unfolding shown_def
proof (intro allI ballI)
  fix h lp assume "lp \<in> set (lht t h)"
  then obtain lp' where "lp' \<in> set (lht s h)" "ident lp = ident lp'" using assms(2) by blast
  thus "shaken syns' (synacks t) (ident lp)" using assms(1,3,4) shaken_mono by (metis shown_def)
qed

lemma answer_inv:
  assumes s: "limbook s" "shown syns s" and h: "h < NLHT" "bucketok h (before @ lp # after)"
    and sub: "set (before @ after) \<subseteq> set (lht s h)" and i: "(lwho lp, lversion lp, lirs lp) \<in> set syns'" "set syns \<subseteq> set syns'"
    and n: "ncalls s - int (length (lht s h)) + int (length (before @ after)) + 1 \<le> n"
  shows "limboinv (answer ifc ok now h before lp after n s, syns')"
proof (cases ok)
  case False
  have "shown syns' (setbucket h (before @ after) (n - 1) s)" by (rule shown_mono[OF s(2)]) (use sub i(2) in auto)
  thus ?thesis using False n bucketok_remove[OF h(2)] limbook_setbucket[OF s(1)] by (simp add: answer_def sndsynack_eq limboinv_def ncalls_setbucket[OF h(1)])
next
  case True
  let ?t = "answer ifc True now h before lp after n s"
  have b: "bucketok h (before @ answered now lp # after)" by (rule bucketok_replace[OF h(2)]) simp
  have o: "set (synacks s) \<subseteq> set (synacks ?t)" "(lwho lp, lversion lp, synackof ifc lp) \<in> set (synacks ?t)" unfolding answer_ok by auto
  have new: "shaken syns' (synacks ?t) (ident lp)" using i(1) o(2) by (force simp: shaken_def ident_def synackof_def)
  have "shown syns' ?t" unfolding shown_def
  proof (intro allI ballI)
    fix k l assume "l \<in> set (lht ?t k)"
    then consider "l = answered now lp" | k' where "l \<in> set (lht s k')" using sub by (auto simp: answer_ok split: if_splits)
    thus "shaken syns' (synacks ?t) (ident l)"
    proof cases
      case 1
      thus ?thesis using new by simp
    next
      case 2
      thus ?thesis using s(2) o(1) i(2) shaken_mono by (metis shown_def)
    qed
  qed
  moreover have "limbook ?t \<and> ncalls ?t \<le> nlimbo ?t" using n limbook_setbucket[OF s(1) b] by (simp add: answer_ok ncalls_setbucket[OF h(1)])
  ultimately show ?thesis using True by (simp add: limboinv_def)
qed

lemma bucketok_tl: "bucketok h (lp # lps) \<Longrightarrow> bucketok h lps"
  by (auto simp: bucketok_def)

lemma limbo_inv:
  assumes inv: "limboinv (s, syns)" and a: "addrs who"
  shows "limboinv (limbo ifc mem ok now isn who ver sg s, (who, ver, seq sg) # syns)"
proof -
  let ?h = "hashwho who" and ?syns = "(who, ver, seq sg) # syns"
  have s: "limbook s" "shown syns s" and n: "ncalls s \<le> nlimbo s" using inv by (simp_all add: limboinv_def)
  note b = bucketokD[OF s(1), of ?h] and h = hashwho_less[of who]
  have keep: "limboinv (s, ?syns)" using s n by (auto simp: limboinv_def intro: shown_mono)
  from a b show ?thesis
  proof (cases rule: seekcall_cases[of who ?h "lht s ?h" ver])
    case absent
    have new: "bucketok ?h (lps @ [newlimbo who ver sg isn lp])" if "bucketok ?h lps" "set lps \<subseteq> set (lht s ?h)" for lps lp
      by (rule bucketok_snoc[OF that(1)]) (use a absent(2) that(2) in auto)
    consider (alloc) "\<not> (nlimbo s \<ge> Maxlimbo \<and> lht s ?h \<noteq> [])" | (reuse) lp lps where "nlimbo s \<ge> Maxlimbo" "lht s ?h = lp # lps"
      by (cases "lht s ?h") auto
    thus ?thesis
    proof cases
      case alloc
      have e: "limbo ifc mem ok now isn who ver sg s
          = (if mem then answer ifc ok now ?h (lht s ?h) (newlimbo who ver sg isn zerolimbo) [] (nlimbo s + 1) s else s)"
        using absent(1) alloc by (auto simp: limbo_def Let_def)
      have "limboinv (answer ifc ok now ?h (lht s ?h) (newlimbo who ver sg isn zerolimbo) [] (nlimbo s + 1) s, ?syns)"
        by (rule answer_inv[OF s h new[OF b]]) (use n in auto)
      thus ?thesis using keep unfolding e by simp
    next
      case (reuse lp lps)
      have e: "limbo ifc mem ok now isn who ver sg s = recycle ifc ok now who ver sg isn ?h lp lps s"
        using absent(1) reuse by (simp add: limbo_def Let_def)
      show ?thesis
      proof (cases "lps = []")
        case True
        have "shown ?syns (setbucket ?h [] m s)" for m by (rule shown_mono[OF s(2)]) (use reuse True in auto)
        moreover from this have "shown ?syns (sent l g (setbucket ?h [] m s))" for l g m by (rule shown_mono) auto
        moreover have "limbook (setbucket ?h [] m s)" for m by (rule limbook_setbucket[OF s(1)]) (simp add: bucketok_def)
        ultimately show ?thesis using n reuse True unfolding e
          by (simp add: recycle_def Let_def sndsynack_eq limboinv_def ncalls_setbucket[OF h])
      next
        case False
        have "bucketok ?h lps" using b reuse(2) bucketok_tl by simp
        hence "limboinv (answer ifc ok now ?h lps (newlimbo who ver sg isn lp) [] (nlimbo s) s, ?syns)"
          by (intro answer_inv[OF s h new]) (use n reuse(2) in auto)
        thus ?thesis using False unfolding e by (simp add: recycle_def Let_def)
      qed
    qed
  next
    case (there before lp after)
    have e: "limbo ifc mem ok now isn who ver sg s = answer ifc ok now ?h before (lp\<lparr>lirs := seq sg\<rparr>) after (nlimbo s) s"
      using there(2) by (simp add: limbo_def Let_def)
    have "bucketok ?h (before @ lp\<lparr>lirs := seq sg\<rparr> # after)" by (rule bucketok_replace) (use b there(1) in simp_all)
    thus ?thesis unfolding e using lkeyD[OF there(3)] n by (intro answer_inv[OF s h]) (auto simp: there(1))
  qed
qed

lemma seekcall_subset: "seekcall who ver lps = (before, lp # after) \<Longrightarrow> set (before @ after) \<subseteq> set lps"
proof -
  assume a: "seekcall who ver lps = (before, lp # after)"
  have "before @ lp # after = lps" using a takeWhile_dropWhile_id[of "\<lambda>lp. \<not> iscall who ver lp" lps] by (simp add: seekcall_def)
  thus ?thesis by auto
qed

lemma limborst_sub: "set (lht (limborst who ver sg s) h) \<subseteq> set (lht s h)"
  using seekcall_subset[of who ver "lht s (hashwho who)"] by (auto simp: limborst_def Let_def split: prod.splits list.splits)

lemma takecall_sub: "set (lht (snd (takecall who ver sg s)) h) \<subseteq> set (lht s h)"
  using seekcall_subset[of who ver "lht s (hashwho who)"] by (auto simp: takecall_def Let_def split: prod.splits list.splits)

lemma subseq_set: "subseq xs ys \<Longrightarrow> set xs \<subseteq> set ys"
  by (induction rule: list_emb.induct) auto

lemma subseq_distinct: "subseq xs ys \<Longrightarrow> distinct ys \<Longrightarrow> distinct xs"
  by (induction rule: list_emb.induct) (auto dest: subseq_set)

lemma ident_addrs: "ident lp = ident lp' \<Longrightarrow> lwho lp = lwho lp' \<and> lkey lp = lkey lp'"
  by (simp add: ident_def lkey_def)

lemma bucketok_subseq:
  assumes "bucketok h lps" "subseq (map ident lps') (map ident lps)"
  shows "bucketok h lps'"
proof -
  let ?k = "\<lambda>(w, v, i, j). (w, v)"
  have k: "map lkey l = map ?k (map ident l)" for l by (simp add: lkey_def ident_def)
  have "subseq (map lkey lps') (map lkey lps)" unfolding k using assms(2) by (rule subseq_map)
  hence d: "distinct (map lkey lps')" using assms(1) by (auto simp: bucketok_def dest: subseq_distinct)
  have "ident ` set lps' \<subseteq> ident ` set lps" using assms(2) using subseq_set[of "map ident lps'" "map ident lps"] by simp
  have "addrs (lwho lp) \<and> hashwho (lwho lp) = h" if "lp \<in> set lps'" for lp
  proof -
    have "ident lp \<in> ident ` set lps" using that \<open>ident ` set lps' \<subseteq> ident ` set lps\<close> by blast
    then obtain l where "l \<in> set lps" "ident lp = ident l" by blast
    thus ?thesis using ident_addrs[of lp l] assms(1) by (simp add: bucketok_def)
  qed
  thus ?thesis using d by (simp add: bucketok_def)
qed

lemma rexmitall_inv: "limboinv (s, syns) \<Longrightarrow> \<forall>h \<in> set hs. h < NLHT \<Longrightarrow> limboinv (rexmitall ifc oks clk now hs seen s, syns)"
proof (induction hs arbitrary: seen s)
  case Nil
  thus ?case by simp
next
  case (Cons h hs)
  show ?case
  proof (cases "seen < nlimbo s")
    case True
    obtain lps sn n out where r: "rexmitloop ifc oks clk now seen (nlimbo s) (lht s h) = (lps, sn, n, out)" by (metis prod_cases4)
    note k = rexmitloop_kept[OF r]
    let ?t = "(setbucket h lps n s)\<lparr>synacks := out @ synacks s\<rparr>"
    have inv: "limbook s" "shown syns s" "ncalls s \<le> nlimbo s" using Cons.prems(1) by (simp_all add: limboinv_def)
    have "limbook (setbucket h lps n s)" using k bucketok_subseq[OF bucketokD[OF inv(1)]] by (intro limbook_setbucket inv) blast
    hence "limbook ?t" by (simp add: limbook_def)
    moreover have "ident ` set lps \<subseteq> ident ` set (lht s h)" using k by (metis list.set_map subseq_set)
    hence "shown syns ?t" by (intro shown_mono[OF inv(2)]) auto
    moreover have "ncalls ?t = ncalls (setbucket h lps n s)" by (simp add: ncalls_def)
    hence "ncalls ?t \<le> nlimbo ?t" using k inv(3) Cons.prems(2) by (simp add: ncalls_setbucket)
    ultimately have "limboinv (?t, syns)" by (simp add: limboinv_def)
    from Cons.IH[OF this] show ?thesis using True r Cons.prems(2) by simp
  next
    case False
    thus ?thesis using Cons.prems by simp
  qed
qed

lemma limbostep_inv: "limbostep x y \<Longrightarrow> limboinv x \<Longrightarrow> limboinv y"
proof (induction rule: limbostep.induct)
  case (syn who s syns ifc mem ok now isn ver sg)
  thus ?case by (intro limbo_inv)
next
  case (rst who s syns ver sg)
  have "limbook s" "shown syns s" "ncalls s \<le> nlimbo s" using rst(2) by (simp_all add: limboinv_def)
  moreover note limborst_map[OF this(1) rst(1) refl, of ver sg]
  moreover have "shown syns (limborst who ver sg s)"
    using calculation by (intro shown_mono[OF calculation(2)] image_mono limborst_sub) simp_all
  ultimately show ?case by (simp add: limboinv_def)
next
  case (ack who s syns ver sg)
  have "limbook s" "shown syns s" "ncalls s \<le> nlimbo s" using ack(2) by (simp_all add: limboinv_def)
  moreover note takecall_map[OF this(1) ack(1) prod.collapse[symmetric], of ver sg]
  moreover have "shown syns (snd (takecall who ver sg s))"
    using calculation by (intro shown_mono[OF calculation(2)] image_mono takecall_sub) simp_all
  ultimately show ?case by (simp add: limboinv_def)
next
  case (rexmit s syns ifc locked oks clk now)
  thus ?case by (simp add: limborexmit_def rexmitall_inv)
qed

lemma limboinv_goal: "limboinv x \<Longrightarrow> limbogoal x"
proof -
  assume "limboinv x"
  then obtain s syns where x: "x = (s, syns)" and inv: "limbook s" "shown syns s" "ncalls s \<le> nlimbo s" by (cases x) (auto simp: limboinv_def)
  have "shaken syns (synacks s) (who, ver, seq sg - 1, ack sg - 1)" if "addrs who" "takecall who ver sg s = (Some lp, t)" for who ver sg lp t
  proof -
    note m = takecall_map[OF inv(1) that, simplified]
    have "lp \<in> set (lht s (hashwho who))" "lkey lp = (who, ver)" using m by (auto simp: calls_def find_Some_iff)
    hence "shaken syns (synacks s) (who, ver, lirs lp, liss lp)" using inv(2) lkeyD by (force simp: shown_def ident_def)
    thus ?thesis using m by simp
  qed
  thus "limbogoal x" using inv(3) by (auto simp: x limbogoal_def shaken_def)
qed

interpretation lim: safety limboinit limbostep limboinv limbogoal
proof unfold_locales
  show "limboinit x \<Longrightarrow> limboinv x" for x by (simp add: limboinit_def limboinv_def limbook_def bucketok_def shown_def ncalls_def)
qed (auto intro: limbostep_inv limboinv_goal)

section \<open>A caller\<close>

definition who_ex :: conv where
  "who_ex = \<lparr>laddr = replicate 15 0 @ [1], lport = 564, raddr = replicate 15 0 @ [2], rport = 5000\<rparr>"

definition syn_ex :: tcpseg where
  "syn_ex = \<lparr>seq = 100, ack = 0, flags = {SYN}, upd = False, ws = 4, wnd = 0, urg = 0, mssopt = 1460\<rparr>"

definition ack_ex :: tcpseg where
  "ack_ex = \<lparr>seq = 101, ack = 701, flags = {ACK}, upd = False, ws = 0, wnd = 8192, urg = 0, mssopt = 0\<rparr>"

definition lim_ex :: limbos where
  "lim_ex = \<lparr>lht = \<lambda>_. [], nlimbo = 0, synacks = []\<rparr>"

text \<open>Conversation 0 listens on the port.\<close>

definition cvs_ex :: "nat \<Rightarrow> conv" where
  "cvs_ex i = \<lparr>laddr = IPnoaddr, lport = 564, raddr = IPnoaddr, rport = 0\<rparr>"

definition proto_ex :: tcpproto where
  "proto_ex = \<lparr>lim = lim_ex, ht = iphtadd cvs_ex 0 (\<lambda>_. []), cvs = cvs_ex, tcbs = \<lambda>_. tcp_ex0\<lparr>state := Listen\<rparr>\<rparr>"

definition proto_ex1 :: tcpproto where
  "proto_ex1 = proto_ex\<lparr>lim := limbo None True True 0 700 who_ex V4 syn_ex lim_ex\<rparr>"

lemmas limbo_ex_defs = who_ex_def syn_ex_def ack_ex_def lim_ex_def proto_ex_def proto_ex1_def

lemma who_ex_simps [simp]: "addrs who_ex" "raddr who_ex \<noteq> IPnoaddr" "lport who_ex = 564"
proof -
  have "last (raddr who_ex) \<noteq> last IPnoaddr" by (simp add: who_ex_def IPnoaddr_def IPaddrlen_def)
  thus "raddr who_ex \<noteq> IPnoaddr" by metis
qed (simp_all add: addrs_def who_ex_def IPaddrlen_def)

definition entry_ex :: limboent where
  "entry_ex = answered 0 (newlimbo who_ex V4 syn_ex 700 zerolimbo)"

lemma lim_ex1: "lht (lim proto_ex1) = (\<lambda>_. [])(hashwho who_ex := [entry_ex])" "synacks (lim proto_ex1) = [(who_ex, V4, synackof None (newlimbo who_ex V4 syn_ex 700 zerolimbo))]"
  by (simp_all add: proto_ex1_def limbo_def Let_def lim_ex_def seekcall_def answer_ok Maxlimbo_def entry_ex_def)

lemma take_ex: "fst (takecall who_ex V4 ack_ex (lim proto_ex1)) = Some entry_ex"
proof -
  have "iscall who_ex V4 entry_ex" by (simp add: iscall_lkey entry_ex_def)
  thus ?thesis by (simp add: takecall_def Let_def lim_ex1 seekcall_def) (simp add: ack_ex_def syn_ex_def entry_ex_def)
qed

text \<open>
  C7: no conversation without a handshake. After any SYNs, resets, acknowledgements and retransmissions, in any order and
  with any failures of memory, a segment makes a conversation out of a call only if a SYN with the
  sequence number before it came from that caller, and it acknowledges a SYN-ACK that was sent to that caller in answer to that SYN.\<close>

theorem handshake_required:
  assumes "limboinit x" "limbostep\<^sup>*\<^sup>* x (lim p, syns)" "addrs who" "tcpincoming now new l who ver sg p = (Some c, p')"
  shows "(who, ver, seq sg - 1) \<in> set syns
    \<and> (\<exists>sa. (who, ver, sa) \<in> set (synacks (lim p)) \<and> flags sa = {SYN, ACK} \<and> ack sa = seq sg \<and> ack sg = seq sa + 1)"
proof -
  obtain lp t where "takecall who ver sg (lim p) = (Some lp, t)"
    using assms(4) by (auto simp: tcpincoming_def split: prod.splits option.splits)
  thus ?thesis using lim.reached_goal[OF assms(1,2)] assms(3) by (fastforce simp: limbogoal_def)
qed

theorem handshake_required_witness:
  "(who_ex, V4, 100) \<in> set [(who_ex, V4, seq syn_ex)] \<and> (\<exists>sa. (who_ex, V4, sa) \<in> set (synacks (lim proto_ex1)) \<and> ack sa = 101 \<and> 701 = seq sa + 1)"
proof -
  have i: "limboinit (lim_ex, [])" by (simp add: limboinit_def lim_ex_def)
  have "limbostep (lim_ex, []) (lim proto_ex1, [(who_ex, V4, seq syn_ex)])" unfolding proto_ex1_def by (simp add: limbostep.syn)
  hence r: "limbostep\<^sup>*\<^sup>* (lim_ex, []) (lim proto_ex1, [(who_ex, V4, seq syn_ex)])" by blast
  obtain t where "takecall who_ex V4 ack_ex (lim proto_ex1) = (Some entry_ex, t)" using take_ex by (metis prod.collapse)
  hence "\<exists>p'. tcpincoming 9 (Some 1) 0 who_ex V4 ack_ex proto_ex1 = (Some 1, p')" by (simp add: tcpincoming_def Let_def)
  then obtain p' where "tcpincoming 9 (Some 1) 0 who_ex V4 ack_ex proto_ex1 = (Some 1, p')" by blast
  from handshake_required[OF i r _ this] show ?thesis by (auto simp: ack_ex_def)
qed

section \<open>The handshake\<close>

lemma iphtlook_new:
  assumes "addrs (cv c)" "raddr (cv c) \<noteq> IPnoaddr"
  shows "iphtlook cv (iphtadd cv c tab) (raddr (cv c)) (rport (cv c)) (laddr (cv c)) (lport (cv c)) = Some c"
proof -
  have "matchof (cv c) = IPmatchexact" using assms by (simp add: matchof_def ipeq_iff addrs_def)
  thus ?thesis using assms(1) by (simp add: iphtlook_def iphtadd_def hashof_def Let_def ipeq_iff addrs_def)
qed

lemma setup_frame:
  "rcv_nxt (tcpsetscale r t c) = rcv_nxt c" "snd_una (tcpsetscale r t c) = snd_una c" "snd_nxt (tcpsetscale r t c) = snd_nxt c"
  "rcv_nxt (initialwindow c) = rcv_nxt c" "snd_una (initialwindow c) = snd_una c" "snd_nxt (initialwindow c) = snd_nxt c"
  "rcv_nxt (tcpsynackrtt now c) = rcv_nxt c" "snd_una (tcpsynackrtt now c) = snd_una c" "snd_nxt (tcpsynackrtt now c) = snd_nxt c"
  by (simp_all add: tcpsetscale_def tcprcvwin_def initialwindow_def tcpsynackrtt_def Let_def)

lemma newcall_connected:
  "state (newcall now lp sg l c) = Established \<and> rcv_nxt (newcall now lp sg l c) = lirs lp + 1 \<and> snd_una (newcall now lp sg l c) = liss lp + 1
    \<and> snd_nxt (newcall now lp sg l c) = liss lp + 1"
proof -
  have e: "state (tcpsetstate Established c) = Established" "rcv_nxt (tcpsetstate Established c) = rcv_nxt c"
      "snd_una (tcpsetstate Established c) = snd_una c" "snd_nxt (tcpsetstate Established c) = snd_nxt c" for c
    by (simp_all add: tcpsetstate_def Let_def emit_def)
  show ?thesis by (simp add: newcall_def Let_def e setup_frame)
qed

text \<open>
  C8: the handshake connects, when the kernel has the resources. A SYN to a listener, with room in a well-formed table, memory for
  the entry and a SYN-ACK that can be sent, is answered by a SYN-ACK for it. Whatever happens before the caller's acknowledgement
  comes, as long as its call is still in limbo (it may have been answered again), the listener listens and \<open>Fsnewcall\<close> finds a
  conversation (the backlog of the listener is not full), that acknowledgement gets this conversation: established, expecting the
  byte after the SYN and sending from the number the caller was told; the call leaves the table; and every later segment from
  the caller goes to the conversation.\<close>

theorem handshake_connects:
  assumes syn: "iphtlook (cvs s) (ht s) (raddr who) (rport who) (laddr who) (lport who) = Some l" "state (tcbs s l) = Listen"
      "limbook (lim s)" "nlimbo (lim s) < Maxlimbo" "addrs who" "raddr who \<noteq> IPnoaddr" "flags sg \<inter> {SYN, ACK, RST} = {SYN}"
      "tcpdemux ifc True True now isn new who ver sg s = (r, s1)"
    and later: "iphtlook (cvs t) (ht t) (raddr who) (rport who) (laddr who) (lport who) = Some l" "state (tcbs t l) = Listen"
      "limbook (lim t)" "map_option ident (calls (lim t) (who, ver)) = map_option ident (calls (lim s1) (who, ver))"
    and ans: "synacks (lim s1) = (who, ver, sa) # rest" "flags ag \<inter> {SYN, ACK, RST} = {ACK}" "seq ag = ack sa" "ack ag = seq sa + 1"
      "tcpdemux ifc' mem ok now' isn' (Some c) who ver ag t = (r', t1)"
  shows "r = Freed \<and> flags sa = {SYN, ACK} \<and> ack sa = seq sg + 1 \<and> r' = Deliver c \<and> cvs t1 c = who
    \<and> state (tcbs t1 c) = Established \<and> rcv_nxt (tcbs t1 c) = seq sg + 1 \<and> snd_una (tcbs t1 c) = seq sa + 1
    \<and> calls (lim t1) (who, ver) = None \<and> (\<forall>g. tcpdemux ifc mem ok now isn new who ver g t1 = (Deliver c, t1))"
proof -
  define e where "e = limboentry isn who ver sg (lim s)"
  have sf: "SYN \<in> flags sg" "ACK \<notin> flags sg" "RST \<notin> flags sg" and af: "SYN \<notin> flags ag" "ACK \<in> flags ag" "RST \<notin> flags ag"
    using syn(7) ans(2) by blast+
  have s1: "r = Freed" "lim s1 = limbo ifc True True now isn who ver sg (lim s)" using syn(1,2,8) sf by (auto simp: tcpdemux_def)
  note m = limbo_room[OF syn(3,5,4) e_def s1(2)]
  have sa: "sa = synackof ifc e" using m ans(1) by simp
  have ei: "lirs e = seq sg" "lwho e = who" "lversion e = ver"
    by (auto simp: e_def limboentry_def calls_def find_Some_iff lkey_def split: option.splits)
  have "map_option ident (calls (lim t) (who, ver)) = Some (who, ver, seq sg, liss e)" using later(4) m ei by (simp add: ident_def)
  then obtain lp where lp: "calls (lim t) (who, ver) = Some lp" "lirs lp = seq sg" "liss lp = liss e" by (auto simp: ident_def)
  have nums: "seq ag = lirs lp + 1" "ack ag = liss lp + 1" "ack sa = seq sg + 1" "seq sa = liss e" "flags sa = {SYN, ACK}"
    using ans(3,4) sa lp ei by (simp_all add: synackof_def)
  obtain q u where q: "takecall who ver ag (lim t) = (q, u)" by (metis surj_pair)
  note k = takecall_map[OF later(3) syn(5) q]
  have q': "q = Some lp" "calls u (who, ver) = None" using k lp(1) nums af by (auto split: option.splits)
  define cv where "cv = (cvs t)(c := who)"
  define tcb where "tcb = newcall now' (limbocall.truncate lp) ag (tcbs t l) (tcbs t c)"
  have t1: "r' = Deliver c" "t1 = t\<lparr>lim := u, cvs := cv, tcbs := (tcbs t)(c := tcb), ht := iphtadd cv c (ht t)\<rparr>"
    using ans(5) af later(1,2) q q' by (simp_all add: tcpdemux_def tcpincoming_def Let_def cv_def tcb_def)
  have look: "iphtlook cv (iphtadd cv c (ht t)) (raddr who) (rport who) (laddr who) (lport who) = Some c"
    using iphtlook_new[of cv c] syn(5,6) by (simp add: cv_def)
  have st: "state tcb = Established" "rcv_nxt tcb = seq sg + 1" "snd_una tcb = seq sa + 1"
    using newcall_connected[of now' "limbocall.truncate lp" ag "tcbs t l" "tcbs t c"] lp nums by (simp_all add: tcb_def limbocall.truncate_def)
  show ?thesis using s1(1) nums t1 st q'(2) look by (simp add: tcpdemux_def cv_def)
qed

theorem handshake_connects_witness:
  "\<exists>s1 t1. tcpdemux None True True 0 700 None who_ex V4 syn_ex proto_ex = (Freed, s1)
    \<and> tcpdemux None True True 9 0 (Some 1) who_ex V4 ack_ex s1 = (Deliver 1, t1) \<and> state (tcbs t1 1) = Established
    \<and> rcv_nxt (tcbs t1 1) = 101 \<and> snd_una (tcbs t1 1) = 701 \<and> tcpdemux None True True 0 700 None who_ex V4 ack_ex t1 = (Deliver 1, t1)"
proof -
  have look: "iphtlook cvs_ex (iphtadd cvs_ex 0 (\<lambda>_. [])) (raddr who_ex) (rport who_ex) (laddr who_ex) (lport who_ex) = Some 0"
  proof -
    have "matchof (cvs_ex 0) = IPmatchport" by (simp add: matchof_def cvs_ex_def ipeq_iff)
    moreover have "hashof (cvs_ex 0) = iphash IPnoaddr 0 IPnoaddr 564" "lport (cvs_ex 0) = 564" by (simp_all add: hashof_def cvs_ex_def)
    ultimately show ?thesis by (simp add: iphtlook_def iphtadd_def)
  qed
  have l: "limbook lim_ex" by (simp add: limbook_def lim_ex_def bucketok_def)
  let ?sa = "synackof None (newlimbo who_ex V4 syn_ex 700 zerolimbo)"
  have d: "tcpdemux None True True 0 700 None who_ex V4 syn_ex proto_ex = (Freed, proto_ex1)"
    using look by (simp add: tcpdemux_def proto_ex1_def) (simp add: proto_ex_def syn_ex_def)
  have l1: "limbook (lim proto_ex1)"
    using limbo_room[OF l who_ex_simps(1) _ refl refl] by (simp add: proto_ex1_def) (simp add: lim_ex_def Maxlimbo_def)
  obtain r' t1 where t1: "tcpdemux None True True 9 0 (Some 1) who_ex V4 ack_ex proto_ex1 = (r', t1)" by (metis surj_pair)
  have "r' = Deliver 1 \<and> state (tcbs t1 1) = Established \<and> rcv_nxt (tcbs t1 1) = seq syn_ex + 1 \<and> snd_una (tcbs t1 1) = seq ?sa + 1
      \<and> (\<forall>g. tcpdemux None True True 0 700 None who_ex V4 g t1 = (Deliver 1, t1))"
    using handshake_connects[OF _ _ _ _ who_ex_simps(1,2) _ d _ _ l1 refl lim_ex1(2) _ _ _ t1] look l
    by (simp add: proto_ex1_def proto_ex_def) (simp add: lim_ex_def Maxlimbo_def syn_ex_def ack_ex_def synackof_def)
  thus ?thesis using d t1 by (simp add: syn_ex_def synackof_def)
qed

section \<open>A full table\<close>

text \<open>
  C24: a full table leaks. When the table is full, the bucket of two callers is empty, and memory and the sending of SYN-ACKs do not fail, a SYN from
  each of them, one right after the other, leaves the buckets as they were and the count one higher: the entry of the first is
  used for the second, and is in no bucket any more. So after \<open>k\<close> such pairs \<open>k\<close> entries are counted that are in no bucket, \<open>2 * k\<close> SYN-ACKs
  have been sent, and no acknowledgement of either caller, whatever its numbers, finds a call.\<close>

theorem limbo_leaks:
  assumes "Maxlimbo \<le> nlimbo s" "lht s (hashwho a) = []" "hashwho b = hashwho a" "addrs a" "addrs b" "a \<noteq> b"
    and f: "f = (\<lambda>s. limbo ifc True True now isn b ver sg (limbo ifc True True now isn a ver sg s))"
  shows "lht ((f ^^ k) s) = lht s \<and> nlimbo ((f ^^ k) s) = nlimbo s + int k
    \<and> length (synacks ((f ^^ k) s)) = length (synacks s) + 2 * k
    \<and> takecall a v g ((f ^^ k) s) = (None, (f ^^ k) s) \<and> takecall b v g ((f ^^ k) s) = (None, (f ^^ k) s)"
proof -
  have none: "takecall who v g t = (None, t)" if "lht t (hashwho who) = []" for who t
    using that by (simp add: takecall_def Let_def seekcall_def)
  have "lht ((f ^^ k) s) = lht s \<and> nlimbo ((f ^^ k) s) = nlimbo s + int k \<and> length (synacks ((f ^^ k) s)) = length (synacks s) + 2 * k"
  proof (induction k)
    case 0
    show ?case by simp
  next
    case (Suc k)
    let ?s = "(f ^^ k) s" and ?h = "hashwho a"
    let ?lp = "answered now (newlimbo a ver sg isn zerolimbo)"
    define t where "t = limbo ifc True True now isn a ver sg ?s"
    have h: "lht ?s ?h = []" "Maxlimbo \<le> nlimbo ?s" using Suc assms(1,2) by simp_all
    have t: "lht t = (lht s)(?h := [?lp])" "nlimbo t = nlimbo s + int k + 1" "length (synacks t) = length (synacks s) + 2 * k + 1"
      using h Suc by (simp_all add: t_def limbo_def Let_def seekcall_def answer_ok)
    have "\<not> iscall b ver ?lp" using assms(4-6) by (simp add: iscall_lkey)
    hence "limbo ifc True True now isn b ver sg t = recycle ifc True now b ver sg isn ?h ?lp [] t"
      using t assms(1,3) by (simp add: limbo_def Let_def seekcall_def)
    moreover have "lht (recycle ifc True now b ver sg isn ?h ?lp [] t) = lht s" "nlimbo (recycle ifc True now b ver sg isn ?h ?lp [] t) = nlimbo t"
        "length (synacks (recycle ifc True now b ver sg isn ?h ?lp [] t)) = length (synacks t) + 1"
      using t assms(2) by (simp_all add: recycle_def Let_def sndsynack_eq fun_upd_idem)
    ultimately show ?case using t(2,3) by (simp add: f t_def)
  qed
  then show ?thesis using none assms(2,3) by simp
qed

theorem limbo_leaks_witness:
  "\<exists>s8. s8 = ((\<lambda>s. limbo None True True 0 700 (who_ex\<lparr>lport := 565\<rparr>) V4 syn_ex (limbo None True True 0 700 who_ex V4 syn_ex s)) ^^ 8)
       (lim_ex\<lparr>nlimbo := 1000\<rparr>) \<and> nlimbo s8 = 1008 \<and> takecall who_ex V4 ack_ex s8 = (None, s8)"
proof -
  have "addrs (who_ex\<lparr>lport := 565\<rparr>)" "who_ex \<noteq> who_ex\<lparr>lport := 565\<rparr>" by (simp_all add: addrs_def who_ex_def IPaddrlen_def)
  thus ?thesis using limbo_leaks[of "lim_ex\<lparr>nlimbo := 1000\<rparr>" who_ex "who_ex\<lparr>lport := 565\<rparr>" _ None 0 700 V4 syn_ex 8 V4 ack_ex, OF _ _ _ _ _ _ refl]
    by (simp add: lim_ex_def Maxlimbo_def hashwho_def)
qed

section \<open>Retransmission stops at the first call that is not due\<close>

lemma rexmitloop_stuck:
  assumes "now - lastsend lp < (ucast (rexmits lp) + 1) * SYNACK_RXTIMER" "seen \<le> n"
  shows "rexmitloop ifc ok clk now seen n (lp # lps) = (lp # lps, n, n, [])"
  using assms(2)
proof (induction "nat (n - seen)" arbitrary: seen)
  case 0
  thus ?case by (simp add: rexmitloop.simps(2))
next
  case (Suc k)
  hence "k = nat (n - (seen + 1))" "seen + 1 \<le> n" "seen < n" by simp_all
  from Suc.hyps(1)[OF this(1,2)] this(3) show ?case using assms(1) by (subst rexmitloop.simps(2)) (simp add: Let_def)
qed

lemma setbucket_idem: "(setbucket h (lht s h) (nlimbo s) s)\<lparr>synacks := [] @ synacks s\<rparr> = s"
  by (simp add: setbucket_def)

lemma rexmitall_done: "nlimbo s \<le> seen \<Longrightarrow> rexmitall ifc ok clk now hs seen s = s"
  by (cases hs) simp_all

lemma rexmitall_stuck:
  assumes "now - lastsend lp < (ucast (rexmits lp) + 1) * SYNACK_RXTIMER" "lht s h = lp # lps"
  shows "\<forall>i \<in> set hs. lht s i = [] \<Longrightarrow> 0 \<le> nlimbo s \<Longrightarrow> rexmitall ifc ok clk now (hs @ h # hs') 0 s = s"
proof (induction hs)
  case Nil
  thus ?case using rexmitloop_stuck[OF assms(1), of 0 "nlimbo s" ifc ok clk lps] setbucket_idem[of s h] assms(2) by (simp add: rexmitall_done)
next
  case (Cons i hs)
  thus ?case using setbucket_idem[of s i] by simp
qed

text \<open>
  C26: retransmission stops at the first call that is not due. If the first call of the first bucket that is not empty was answered
  lately, \<open>limborexmit\<close> does nothing at all: no SYN-ACK is sent again and no call is timed out, however many there
  are and however long they have waited. (\<open>continue\<close> does not move to the next call, so that the loops end by the count.)\<close>

theorem limborexmit_stops:
  assumes "h < NLHT" "\<forall>i < h. lht s i = []" "lht s h = lp # lps" "0 \<le> nlimbo s"
    "now - lastsend lp < (ucast (rexmits lp) + 1) * SYNACK_RXTIMER"
  shows "limborexmit ifc locked ok clk now s = s"
proof -
  have "[0..<NLHT] = [0..<h] @ h # [Suc h..<NLHT]" using assms(1) by (metis less_imp_le_nat upt_conv_Cons upt_add_eq_append le_add_diff_inverse zero_le)
  thus ?thesis using rexmitall_stuck[OF assms(5,3), of "[0..<h]"] assms(2,4) by (simp add: limborexmit_def)
qed

definition due_ex :: limbos where
  "due_ex = \<lparr>lht = (\<lambda>_. [])(7 := [zerolimbo\<lparr>lastsend := 99900\<rparr>, zerolimbo]), nlimbo = 2, synacks = []\<rparr>"

theorem limborexmit_stops_witness: "limborexmit None True (\<lambda>_. True) (\<lambda>_. 100000) 100000 due_ex = due_ex"
  using limborexmit_stops[of 7 due_ex "zerolimbo\<lparr>lastsend := 99900\<rparr>" "[zerolimbo]" 100000]
  by (simp add: due_ex_def NLHT_def) (simp add: zerolimbo_def SYNACK_RXTIMER_def)

end
