(* ===== verification/Mntmux.thy ===== *)
theory Mntmux
  imports Plan9_Prelude
begin

unbundle bit_operations_syntax

text \<open>
  The multiplexer of the mount driver (\<open>mountio\<close> and the routines around it in \<open>src/port/devmnt.c\<close>): many processes
  send requests over one channel to a file server, and one of them at a time reads the replies, its own and those of the
  others. A note makes a process send a flush of its request and wait for the answer to that.

  A request is known by a number, its pointer. The queue of a mount point and the free list are lists; the requests a process
  is waiting for, linked by \<open>flushed\<close>, are the list its program counter carries, the latest flush first. A section under a lock
  is one step, and so is \<open>sleep\<close> with its test, as shown for \<open>sleep\<close> and \<open>wakeup\<close>. What the server sends is
  arbitrary.
\<close>

section \<open>Data\<close>

text \<open>A message; \<open>fbody\<close> is all of it that is not looked at here, with the data.\<close>

record fcall =
  ftype :: nat
  ftag :: nat
  foldtag :: nat
  fbody :: "u8 list"

definition Rerror :: nat where "Rerror = 107"
definition Tflush :: nat where "Tflush = 108"
definition Rflush :: nat where "Rflush = 109"
definition Tmax :: nat where "Tmax = 128"

record mntrpc =
  request :: fcall
  reply :: fcall
  rdone :: bool
  rz :: "nat option"      \<comment> \<open>the process asleep at \<open>r\<close>\<close>

definition TAGSHIFT :: nat where "TAGSHIFT = 5"
definition TAGMASK :: nat where "TAGMASK = 2 ^ TAGSHIFT - 1"
definition NMASK :: nat where "NMASK = (64 * 1024) div 2 ^ TAGSHIFT"

text \<open>Where a process is in \<open>mountio\<close>; the flag of the last ones says that it will raise an error.\<close>

datatype mpc = MIdle | MQueue "nat list" | MWrite "nat list" | MGate "nat list" | MSleep "nat list" | MAsleep "nat list"
  | MWoken "nat list" | MRead "nat list" | MMux "nat list" | MGateOut "nat list" | MErr bool "nat list" | MFlush "nat list"
  | MFree bool "nat list" | MSetfl bool "nat list" | MUnq bool "nat list" | MNext bool "nat list" | MReturn bool "nat list"

text \<open>\<open>heap\<close> holds the requests that are allocated, \<open>wire\<close> what was sent, \<open>results\<close> what \<open>mountrpc\<close> gave to its callers.\<close>

datatype mres = Raised | Replied fcall

record mntsys =
  rpc :: "nat \<Rightarrow> mntrpc"
  heap :: "nat set"
  rpcfree :: "nat list"
  nrpcfree :: int
  nrpcused :: int
  tagmask :: "nat \<Rightarrow> u32"
  rip :: "nat option"
  queue :: "nat list"
  pc :: "nat \<Rightarrow> mpc"
  wire :: "fcall list"
  got :: "fcall list"
  results :: "(nat \<times> fcall \<times> mres) list"

section \<open>Tags\<close>

text \<open>\<open>None\<close> is the panic.\<close>

definition alloctag :: "(nat \<Rightarrow> u32) \<Rightarrow> (nat \<times> (nat \<Rightarrow> u32)) option" where
  "alloctag m =
    (case find (\<lambda>i. m i \<noteq> - 1) [0..<NMASK] of
       None \<Rightarrow> None
     | Some i \<Rightarrow>
         (case find (\<lambda>j. \<not> bit (m i) j) [0..<2 ^ TAGSHIFT] of
            None \<Rightarrow> None
          | Some j \<Rightarrow> Some (i * 2 ^ TAGSHIFT + j, m(i := m i OR push_bit j 1))))"

definition freetag :: "nat \<Rightarrow> (nat \<Rightarrow> u32) \<Rightarrow> nat \<Rightarrow> u32" where
  "freetag t m = (let i = t div 2 ^ TAGSHIFT in m(i := m i AND NOT (push_bit (t AND TAGMASK) 1)))"

text \<open>The part of \<open>mntreset\<close> that sets the tags: 0 and \<open>NOTAG\<close> are never given out.\<close>

definition mntreset :: "nat \<Rightarrow> u32" where
  "mntreset i = (if i = 0 then 1 else if i = NMASK - 1 then 0x80000000 else 0)"

section \<open>Operations\<close>

definition updrpc :: "nat \<Rightarrow> (mntrpc \<Rightarrow> mntrpc) \<Rightarrow> mntsys \<Rightarrow> mntsys" where
  "updrpc r f s = s\<lparr>rpc := (rpc s)(r := f (rpc s r))\<rparr>"

text \<open>\<open>x\<close> is the memory \<open>malloc\<close> finds.\<close>

definition mntralloc :: "nat \<Rightarrow> mntsys \<Rightarrow> (nat \<times> mntsys) option" where
  "mntralloc x s =
    (case rpcfree s of
       [] \<Rightarrow>
         (case alloctag (tagmask s) of
            None \<Rightarrow> None
          | Some (t, m) \<Rightarrow>
              Some (x, updrpc x (\<lambda>q. q\<lparr>request := (request q)\<lparr>ftag := t\<rparr>, rdone := False, rz := None\<rparr>)
                (s\<lparr>heap := insert x (heap s), tagmask := m, nrpcused := nrpcused s + 1\<rparr>)))
     | new # rest \<Rightarrow>
         Some (new, updrpc new (\<lambda>q. q\<lparr>rdone := False\<rparr>)
           (s\<lparr>rpcfree := rest, nrpcfree := nrpcfree s - 1, nrpcused := nrpcused s + 1\<rparr>)))"

definition mntfree :: "nat \<Rightarrow> mntsys \<Rightarrow> mntsys" where
  "mntfree r s =
    (if nrpcfree s \<ge> 16
     then s\<lparr>tagmask := freetag (ftag (request (rpc s r))) (tagmask s), heap := heap s - {r}, nrpcused := nrpcused s - 1\<rparr>
     else s\<lparr>rpcfree := r # rpcfree s, nrpcfree := nrpcfree s + 1, nrpcused := nrpcused s - 1\<rparr>)"

text \<open>\<open>wakeup\<close>: the process asleep, if there is one, returns from \<open>sleep\<close>.\<close>

definition wakerpc :: "nat \<Rightarrow> mntsys \<Rightarrow> mntsys" where
  "wakerpc r s =
    (case rz (rpc s r) of
       None \<Rightarrow> s
     | Some p \<Rightarrow> (case pc s p of MAsleep rs \<Rightarrow> updrpc r (\<lambda>q. q\<lparr>rz := None\<rparr>) (s\<lparr>pc := (pc s)(p := MWoken rs)\<rparr>) | _ \<Rightarrow> s))"

fun gateloop :: "nat list \<Rightarrow> mntsys \<Rightarrow> mntsys" where
  "gateloop [] s = s"
| "gateloop (q # qs) s = (if \<not> rdone (rpc s q) \<and> rz (rpc s q) \<noteq> None then wakerpc q s else gateloop qs s)"

definition mntgate :: "mntsys \<Rightarrow> mntsys" where
  "mntgate s = gateloop (queue s) (s\<lparr>rip := None\<rparr>)"

text \<open>The first request of the queue with the tag of the reply is taken out and given the reply.\<close>

definition mountmux :: "nat \<Rightarrow> mntsys \<Rightarrow> mntsys" where
  "mountmux r s =
    (case find (\<lambda>q. ftag (request (rpc s q)) = ftag (reply (rpc s r))) (queue s) of
       None \<Rightarrow> s
     | Some q \<Rightarrow>
         let s = s\<lparr>queue := remove1 q (queue s)\<rparr>;
             s = (if q \<noteq> r then updrpc q (\<lambda>x. x\<lparr>reply := reply (rpc s r)\<rparr>) s else s);
             s = updrpc q (\<lambda>x. x\<lparr>rdone := True\<rparr>) s
         in if q \<noteq> r then wakerpc q s else s)"

definition mntflushalloc :: "nat \<Rightarrow> nat \<Rightarrow> mntsys \<Rightarrow> (nat \<times> mntsys) option" where
  "mntflushalloc x r s =
    (case mntralloc x s of
       None \<Rightarrow> None
     | Some (fr, s) \<Rightarrow>
         let q = request (rpc s r); old = (if ftype q = Tflush then foldtag q else ftag q)
         in Some (fr, updrpc fr (\<lambda>y. y\<lparr>request := (request y)\<lparr>ftype := Tflush, foldtag := old\<rparr>\<rparr>) s))"

definition mntqrm :: "nat \<Rightarrow> mntsys \<Rightarrow> mntsys" where
  "mntqrm r s = (updrpc r (\<lambda>q. q\<lparr>rdone := True\<rparr>) s)\<lparr>queue := remove1 r (queue s)\<rparr>"

definition rpcattn :: "nat \<Rightarrow> mntsys \<Rightarrow> bool" where
  "rpcattn r s \<longleftrightarrow> rdone (rpc s r) \<or> rip s = None"

text \<open>The end of \<open>mountrpc\<close>: anything but the reply of the type asked for is raised as an error.\<close>

definition mountres :: "bool \<Rightarrow> mntrpc \<Rightarrow> mres" where
  "mountres raise q =
    (if raise \<or> ftype (reply q) = Rerror \<or> ftype (reply q) = Rflush \<or> ftype (reply q) \<noteq> ftype (request q) + 1 then Raised
     else Replied (reply q))"

definition goto :: "nat \<Rightarrow> mpc \<Rightarrow> mntsys \<Rightarrow> mntsys" where
  "goto p k s = s\<lparr>pc := (pc s)(p := k)\<rparr>"

section \<open>Steps\<close>

text \<open>
  \<open>io\<close> says whether a write to the channel may fail other than by a note, \<open>nomem\<close> whether the memory for a flush may be missing.
  In that case \<open>mntralloc\<close> raises an error out of the handler of \<open>mountio\<close>, and nothing is taken from the queue.
\<close>

inductive mntstep :: "bool \<Rightarrow> bool \<Rightarrow> mntsys \<Rightarrow> mntsys \<Rightarrow> bool" for io nomem where
  start: "pc s p = MIdle \<Longrightarrow> x \<notin> heap s \<Longrightarrow> mntralloc x s = Some (r, t) \<Longrightarrow> ty \<noteq> Tflush
    \<Longrightarrow> mntstep io nomem s (goto p (MQueue [r])
          (updrpc r (\<lambda>q. q\<lparr>request := (request q)\<lparr>ftype := ty, fbody := body\<rparr>, reply := (reply q)\<lparr>ftag := 0, ftype := Tmax\<rparr>\<rparr>) t))"
| enqueue: "pc s p = MQueue (r # rs) \<Longrightarrow> mntstep io nomem s (goto p (MWrite (r # rs)) (s\<lparr>queue := r # queue s\<rparr>))"
| send: "pc s p = MWrite (r # rs) \<Longrightarrow> mntstep io nomem s (goto p (MGate (r # rs)) (s\<lparr>wire := request (rpc s r) # wire s\<rparr>))"
| send_fail: "pc s p = MWrite rs \<Longrightarrow> io \<Longrightarrow> mntstep io nomem s (goto p (MErr False rs) s)"
| send_intr: "pc s p = MWrite rs \<Longrightarrow> mntstep io nomem s (goto p (MErr True rs) s)"
| gate_open: "pc s p = MGate rs \<Longrightarrow> rip s = None \<Longrightarrow> mntstep io nomem s (goto p (MRead rs) (s\<lparr>rip := Some p\<rparr>))"
| gate_shut: "pc s p = MGate rs \<Longrightarrow> rip s \<noteq> None \<Longrightarrow> mntstep io nomem s (goto p (MSleep rs) s)"
| nosleep: "pc s p = MSleep (r # rs) \<Longrightarrow> rpcattn r s \<Longrightarrow> mntstep io nomem s (goto p (MWoken (r # rs)) s)"
| asleep: "pc s p = MSleep (r # rs) \<Longrightarrow> \<not> rpcattn r s
    \<Longrightarrow> mntstep io nomem s (goto p (MAsleep (r # rs)) (updrpc r (\<lambda>q. q\<lparr>rz := Some p\<rparr>) s))"
| sleep_intr: "pc s p = MAsleep (r # rs) \<Longrightarrow> mntstep io nomem s (goto p (MErr True (r # rs)) (updrpc r (\<lambda>q. q\<lparr>rz := None\<rparr>) s))"
| woken_intr: "pc s p = MWoken rs \<Longrightarrow> mntstep io nomem s (goto p (MErr True rs) s)"
| woken_done: "pc s p = MWoken (r # rs) \<Longrightarrow> rdone (rpc s r) \<Longrightarrow> mntstep io nomem s (goto p (MFree False (r # rs)) s)"
| woken_again: "pc s p = MWoken (r # rs) \<Longrightarrow> \<not> rdone (rpc s r) \<Longrightarrow> mntstep io nomem s (goto p (MGate (r # rs)) s)"
| read_done: "pc s p = MRead (r # rs) \<Longrightarrow> rdone (rpc s r) \<Longrightarrow> mntstep io nomem s (goto p (MGateOut (r # rs)) s)"
| read_msg: "pc s p = MRead (r # rs) \<Longrightarrow> \<not> rdone (rpc s r)
    \<Longrightarrow> mntstep io nomem s (goto p (MMux (r # rs)) (updrpc r (\<lambda>q. q\<lparr>reply := m\<rparr>) (s\<lparr>got := m # got s\<rparr>)))"
| read_fail: "pc s p = MRead (r # rs) \<Longrightarrow> \<not> rdone (rpc s r)
    \<Longrightarrow> mntstep io nomem s (goto p (MErr intr (r # rs)) (updrpc r (\<lambda>q. q\<lparr>reply := (reply q)\<lparr>ftype := 0, ftag := 0\<rparr>\<rparr>) s))"
| mux: "pc s p = MMux (r # rs) \<Longrightarrow> mntstep io nomem s (goto p (MRead (r # rs)) (mountmux r s))"
| gateout: "pc s p = MGateOut rs \<Longrightarrow> mntstep io nomem s (goto p (MFree False rs) (mntgate s))"
| err: "pc s p = MErr intr rs
    \<Longrightarrow> mntstep io nomem s (goto p (if intr then MFlush rs else MFree True rs) (if rip s = Some p then mntgate s else s))"
| flush: "pc s p = MFlush (r # rs) \<Longrightarrow> x \<notin> heap s \<Longrightarrow> mntflushalloc x r s = Some (fr, t)
    \<Longrightarrow> mntstep io nomem s (goto p (MQueue (fr # r # rs)) t)"
| flush_fail: "pc s p = MFlush (r # rs) \<Longrightarrow> nomem \<Longrightarrow> mntstep io nomem s (goto p (MReturn True [last (r # rs)]) s)"
| free_done: "pc s p = MFree raise (r # rs) \<Longrightarrow> rdone (rpc s r) \<Longrightarrow> mntstep io nomem s (goto p (MNext raise (r # rs)) s)"
| free_undone: "pc s p = MFree raise (r # rs) \<Longrightarrow> \<not> rdone (rpc s r) \<Longrightarrow> mntstep io nomem s (goto p (MSetfl raise (r # rs)) s)"
| setfl: "pc s p = MSetfl raise (r # rs)
    \<Longrightarrow> mntstep io nomem s (goto p (MUnq raise (r # rs)) (updrpc r (\<lambda>q. q\<lparr>reply := (reply q)\<lparr>ftype := Rflush\<rparr>\<rparr>) s))"
| unq: "pc s p = MUnq raise (r # rs) \<Longrightarrow> mntstep io nomem s (goto p (MNext raise (r # rs)) (mntqrm r s))"
| free_next: "pc s p = MNext raise (r # rs) \<Longrightarrow> rs \<noteq> [] \<Longrightarrow> mntstep io nomem s (goto p (MFree raise rs) (mntfree r s))"
| last_free: "pc s p = MNext raise [r] \<Longrightarrow> mntstep io nomem s (goto p (MReturn raise [r]) s)"
| finish: "pc s p = MReturn raise [r]
    \<Longrightarrow> mntstep io nomem s (goto p MIdle (mntfree r (s\<lparr>results := (p, request (rpc s r), mountres raise (rpc s r)) # results s\<rparr>)))"

inductive_cases mntstepE: "mntstep io nomem s t"

end
