(* ===== verification/Mntmux_Correct.thy ===== *)
theory Mntmux_Correct
  imports Mntmux
begin

unbundle bit_operations_syntax

text \<open>
  What the multiplexer of the mount driver promises, over all interleavings of its processes: every reply goes to the request with
  its tag, one process reads at a time, and no process sleeps while nobody reads and nobody is about to.
\<close>

section \<open>Tags in use\<close>

definition tagset :: "(nat \<Rightarrow> u32) \<Rightarrow> nat set" where
  "tagset m = {t. t < 65536 \<and> bit (m (t div 32)) (t mod 32)}"

lemma nmask: "NMASK = 2048" "(2::nat) ^ TAGSHIFT = 32" "TAGMASK = 31"
  by (simp_all add: NMASK_def TAGSHIFT_def TAGMASK_def)

lemma bit_or_one: "bit (w OR 2 ^ j :: u32) n \<longleftrightarrow> bit w n \<or> n = j \<and> j < 32" for j n :: nat
  by (auto simp: bit_simps)

lemma alloctag_ok:
  assumes "alloctag m = Some (t, m')"
  shows "t < 65536 \<and> t \<notin> tagset m \<and> tagset m' = insert t (tagset m)"
proof -
  obtain i where i: "find (\<lambda>i. m i \<noteq> - 1) [0..<NMASK] = Some i" using assms by (auto simp: alloctag_def split: option.splits)
  obtain j where j: "find (\<lambda>j. \<not> bit (m i) j) [0..<2 ^ TAGSHIFT] = Some j" and r: "t = i * 32 + j" "m' = m(i := m i OR push_bit j 1)"
    using assms i by (auto simp: alloctag_def nmask split: option.splits)
  have b: "i < 2048" "j < 32" "\<not> bit (m i) j" using i j by (auto simp: find_Some_iff nmask)
  have t: "t div 32 = i" "t mod 32 = j" using b r by simp_all
  have "u \<in> tagset m' \<longleftrightarrow> u = t \<or> u \<in> tagset m" for u
  proof (cases "u div 32 = i")
    case True
    have "u = t \<longleftrightarrow> u mod 32 = j" using True t by (metis div_mult_mod_eq)
    thus ?thesis using True b r t by (auto simp: tagset_def bit_or_one)
  next
    case False
    thus ?thesis using r t by (auto simp: tagset_def)
  qed
  thus ?thesis using b t r by (auto simp: tagset_def)
qed

lemma freetag_ok: "t < 65536 \<Longrightarrow> tagset (freetag t m) = tagset m - {t}"
proof -
  assume t: "t < 65536"
  have a: "t AND 31 = t mod 32" using take_bit_eq_mask[of 5 t] by (simp add: nmask(3) take_bit_eq_mod mask_eq_exp_minus_1)
  have "u \<in> tagset (freetag t m) \<longleftrightarrow> u \<in> tagset m \<and> u \<noteq> t" for u
  proof (cases "u div 32 = t div 32")
    case True
    have e: "u = t \<longleftrightarrow> u mod 32 = t mod 32" using True by (metis div_mult_mod_eq)
    have "bit (w AND NOT (2 ^ (t mod 32)) :: u32) (u mod 32) \<longleftrightarrow> bit w (u mod 32) \<and> u mod 32 \<noteq> t mod 32" for w
      by (auto simp: bit_simps)
    moreover have "freetag t m (u div 32) = m (u div 32) AND NOT (2 ^ (t mod 32))" using True by (simp add: freetag_def nmask a Let_def)
    ultimately show ?thesis unfolding tagset_def mem_Collect_eq by (simp only: e) blast
  next
    case False
    thus ?thesis by (auto simp: tagset_def freetag_def nmask Let_def)
  qed
  thus ?thesis by auto
qed

section \<open>The requests of a process\<close>

fun rlist :: "mpc \<Rightarrow> nat list" where
  "rlist MIdle = []"
| "rlist (MQueue rs) = rs"
| "rlist (MWrite rs) = rs"
| "rlist (MGate rs) = rs"
| "rlist (MSleep rs) = rs"
| "rlist (MAsleep rs) = rs"
| "rlist (MWoken rs) = rs"
| "rlist (MRead rs) = rs"
| "rlist (MMux rs) = rs"
| "rlist (MGateOut rs) = rs"
| "rlist (MErr e rs) = rs"
| "rlist (MFlush rs) = rs"
| "rlist (MFree b rs) = rs"
| "rlist (MSetfl b rs) = rs"
| "rlist (MUnq b rs) = rs"
| "rlist (MNext b rs) = rs"
| "rlist (MReturn b rs) = rs"

text \<open>No two processes share a request, and none is on the free list.\<close>

definition own :: "mntsys \<Rightarrow> bool" where
  "own s \<longleftrightarrow> (\<forall>p. distinct (rlist (pc s p)) \<and> set (rlist (pc s p)) \<subseteq> heap s \<and> set (rlist (pc s p)) \<inter> set (rpcfree s) = {}
        \<and> (pc s p \<noteq> MIdle \<longrightarrow> rlist (pc s p) \<noteq> []))
     \<and> (\<forall>p q. p \<noteq> q \<longrightarrow> set (rlist (pc s p)) \<inter> set (rlist (pc s q)) = {})
     \<and> distinct (rpcfree s) \<and> set (rpcfree s) \<subseteq> heap s"

definition tagof :: "mntsys \<Rightarrow> nat \<Rightarrow> nat" where
  "tagof s r = ftag (request (rpc s r))"

definition tagsok :: "mntsys \<Rightarrow> bool" where
  "tagsok s \<longleftrightarrow> inj_on (tagof s) (heap s) \<and> tagof s ` heap s \<subseteq> tagset (tagmask s)"

text \<open>All requests of a process but the first it made are flushes of that.\<close>

definition flushes :: "mntsys \<Rightarrow> nat list \<Rightarrow> bool" where
  "flushes s rs \<longleftrightarrow> rs \<noteq> [] \<longrightarrow> ftype (request (rpc s (last rs))) \<noteq> Tflush
     \<and> (\<forall>f \<in> set (butlast rs). ftype (request (rpc s f)) = Tflush \<and> foldtag (request (rpc s f)) = tagof s (last rs))"

definition namesok :: "mntsys \<Rightarrow> bool" where
  "namesok s \<longleftrightarrow> (\<forall>p. flushes s (rlist (pc s p)))"

definition ownership :: "mntsys \<Rightarrow> bool" where
  "ownership s \<longleftrightarrow> own s \<and> tagsok s \<and> namesok s"

text \<open>What most steps leave alone.\<close>

definition framed :: "mntsys \<Rightarrow> mntsys \<Rightarrow> bool" where
  "framed s t \<longleftrightarrow> heap t = heap s \<and> rpcfree t = rpcfree s \<and> tagmask t = tagmask s
     \<and> (\<forall>p. rlist (pc t p) = rlist (pc s p) \<and> (pc t p = MIdle \<longleftrightarrow> pc s p = MIdle)) \<and> (\<forall>r. request (rpc t r) = request (rpc s r))"

lemma goto_simps [simp]: "pc (goto p k s) = (pc s)(p := k)" "rpc (goto p k s) = rpc s" "heap (goto p k s) = heap s"
    "rpcfree (goto p k s) = rpcfree s" "nrpcfree (goto p k s) = nrpcfree s" "tagmask (goto p k s) = tagmask s" "rip (goto p k s) = rip s"
    "queue (goto p k s) = queue s" "got (goto p k s) = got s" "results (goto p k s) = results s"
  by (simp_all add: goto_def)

lemma updrpc_simps [simp]: "pc (updrpc r f s) = pc s" "rpc (updrpc r f s) = (rpc s)(r := f (rpc s r))" "heap (updrpc r f s) = heap s"
    "rpcfree (updrpc r f s) = rpcfree s" "nrpcfree (updrpc r f s) = nrpcfree s" "tagmask (updrpc r f s) = tagmask s" "rip (updrpc r f s) = rip s"
    "queue (updrpc r f s) = queue s" "got (updrpc r f s) = got s" "results (updrpc r f s) = results s"
  by (simp_all add: updrpc_def)

lemma framed_trans: "framed s t \<Longrightarrow> framed t u \<Longrightarrow> framed s u"
  by (simp add: framed_def)

lemma framed_own: "framed s t \<Longrightarrow> ownership s \<Longrightarrow> ownership t"
  unfolding ownership_def framed_def own_def tagsok_def namesok_def flushes_def tagof_def by simp

lemma framed_goto: "rlist k = rlist (pc s p) \<Longrightarrow> k = MIdle \<longleftrightarrow> pc s p = MIdle \<Longrightarrow> framed s (goto p k s)"
  by (simp add: framed_def)

lemma framed_updrpc: "(\<And>q. request (f q) = request q) \<Longrightarrow> framed s (updrpc r f s)"
  by (simp add: framed_def)

lemma wakerpc_cases:
  obtains (none) "wakerpc q s = s" "\<forall>p rs. rz (rpc s q) = Some p \<longrightarrow> pc s p \<noteq> MAsleep rs"
  | (woke) p rs where "rz (rpc s q) = Some p" "pc s p = MAsleep rs" "wakerpc q s = updrpc q (\<lambda>q. q\<lparr>rz := None\<rparr>) (s\<lparr>pc := (pc s)(p := MWoken rs)\<rparr>)"
proof (cases "rz (rpc s q)")
  case None
  thus thesis using none by (simp add: wakerpc_def)
next
  case (Some p)
  show thesis
  proof (cases "\<exists>rs. pc s p = MAsleep rs")
    case True
    thus thesis using Some woke by (auto simp: wakerpc_def)
  next
    case False
    hence "wakerpc q s = s" using Some by (auto simp: wakerpc_def split: mpc.splits)
    thus thesis using False Some none by auto
  qed
qed

lemma framed_wakerpc: "framed s (wakerpc q s)"
  by (rule wakerpc_cases[of q s]) (auto simp: framed_def)

lemma wakerpc_simps [simp]: "rip (wakerpc q s) = rip s" "queue (wakerpc q s) = queue s" "got (wakerpc q s) = got s" "results (wakerpc q s) = results s"
    "rdone (rpc (wakerpc q s) r) = rdone (rpc s r)" "reply (rpc (wakerpc q s) r) = reply (rpc s r)"
  by (rule wakerpc_cases[of q s]; simp)+

lemma gateloop_or:
  "gateloop qs s = s \<and> (\<forall>q \<in> set qs. rdone (rpc s q) \<or> rz (rpc s q) = None)
    \<or> (\<exists>q \<in> set qs. \<not> rdone (rpc s q) \<and> rz (rpc s q) \<noteq> None \<and> gateloop qs s = wakerpc q s)"
  by (induction qs) auto

lemma mntgate_cases:
  obtains (none) "mntgate s = s\<lparr>rip := None\<rparr>" "\<forall>q \<in> set (queue s). rdone (rpc s q) \<or> rz (rpc s q) = None"
  | (woke) q where "q \<in> set (queue s)" "\<not> rdone (rpc s q)" "rz (rpc s q) \<noteq> None" "mntgate s = wakerpc q (s\<lparr>rip := None\<rparr>)"
  using gateloop_or[of "queue s" "s\<lparr>rip := None\<rparr>"] unfolding mntgate_def by auto

lemma framed_mntgate: "framed s (mntgate s)"
proof (cases rule: mntgate_cases[of s])
  case none
  thus ?thesis by (simp add: framed_def)
next
  case (woke q)
  have "framed s (s\<lparr>rip := None\<rparr>)" by (simp add: framed_def)
  thus ?thesis using framed_wakerpc framed_trans unfolding woke(4) by blast
qed

lemma mntgate_simps [simp]: "rip (mntgate s) = None" "queue (mntgate s) = queue s" "got (mntgate s) = got s" "results (mntgate s) = results s"
    "rdone (rpc (mntgate s) r) = rdone (rpc s r)" "reply (rpc (mntgate s) r) = reply (rpc s r)"
  by (cases rule: mntgate_cases[of s]; simp)+

text \<open>A reply: it finds no request, or is given to the one in the queue with its tag.\<close>

lemma mountmux_cases:
  obtains (lost) "mountmux r s = s" "\<forall>q \<in> set (queue s). tagof s q \<noteq> ftag (reply (rpc s r))"
  | (given) q t where "q \<in> set (queue s)" "tagof s q = ftag (reply (rpc s r))"
      "t = updrpc q (\<lambda>x. x\<lparr>reply := reply (rpc s r), rdone := True\<rparr>) (s\<lparr>queue := remove1 q (queue s)\<rparr>)"
      "mountmux r s = (if q \<noteq> r then wakerpc q t else t)"
proof (cases "find (\<lambda>q. ftag (request (rpc s q)) = ftag (reply (rpc s r))) (queue s)")
  case None
  hence "mountmux r s = s" by (simp add: mountmux_def)
  moreover have "\<forall>q \<in> set (queue s). tagof s q \<noteq> ftag (reply (rpc s r))" using None by (auto simp: find_None_iff tagof_def)
  ultimately show thesis by (rule lost)
next
  case (Some q)
  define t where "t = updrpc q (\<lambda>x. x\<lparr>reply := reply (rpc s r), rdone := True\<rparr>) (s\<lparr>queue := remove1 q (queue s)\<rparr>)"
  have "q \<in> set (queue s)" "tagof s q = ftag (reply (rpc s r))" using Some by (auto simp: find_Some_iff tagof_def)
  moreover have "mountmux r s = (if q \<noteq> r then wakerpc q t else t)"
    using Some by (simp add: mountmux_def Let_def t_def updrpc_def)
  ultimately show thesis using given t_def by blast
qed

lemma framed_mountmux: "framed s (mountmux r s)"
proof (cases rule: mountmux_cases[of r s])
  case (given q t)
  have "framed s t" by (simp add: given(3) framed_def)
  thus ?thesis using framed_wakerpc framed_trans given(4) by metis
qed (simp add: framed_def)

lemma mountmux_simps [simp]: "rip (mountmux r s) = rip s" "got (mountmux r s) = got s" "results (mountmux r s) = results s"
  by (cases rule: mountmux_cases[of r s]; simp)+

lemma framed_mntqrm: "framed s (mntqrm r s)"
  by (simp add: mntqrm_def framed_def)

section \<open>Allocating and freeing\<close>

lemma mntralloc_own:
  assumes o: "own s" "tagsok s" and x: "x \<notin> heap s" and a: "mntralloc x s = Some (r, t)"
  shows "r \<notin> \<Union> (range (set \<circ> rlist \<circ> pc s)) \<and> r \<in> heap t \<and> r \<notin> set (rpcfree t) \<and> own t \<and> tagsok t \<and> pc t = pc s \<and> queue t = queue s \<and> rip t = rip s
    \<and> got t = got s \<and> results t = results s \<and> (\<exists>q. rpc t = (rpc s)(r := q) \<and> \<not> rdone q \<and> (rz q = None \<or> rz q = rz (rpc s r)))"
proof (cases "rpcfree s")
  case Nil
  obtain tag m where m: "alloctag (tagmask s) = Some (tag, m)" and r: "r = x"
    and t: "t = updrpc x (\<lambda>q. q\<lparr>request := (request q)\<lparr>ftag := tag\<rparr>, rdone := False, rz := None\<rparr>) (s\<lparr>heap := insert x (heap s), tagmask := m, nrpcused := nrpcused s + 1\<rparr>)"
    using a Nil by (auto simp: mntralloc_def split: option.splits)
  note tag = alloctag_ok[OF m]
  have "own t" using o(1) by (auto simp: own_def t)
  moreover have "tagsok t"
  proof -
    have "tagof t y = tagof s y" if "y \<in> heap s" for y using that x by (auto simp: tagof_def t)
    hence e: "inj_on (tagof t) (heap s)" "tagof t ` heap s = tagof s ` heap s" using o(2) by (auto simp: tagsok_def cong: inj_on_cong)
    moreover have "tagof t x = tag" by (simp add: tagof_def t)
    ultimately show ?thesis using tag o(2) x by (auto simp: tagsok_def t)
  qed
  moreover have "r \<notin> \<Union> (range (set \<circ> rlist \<circ> pc s))" using o(1) x r by (auto simp: own_def)
  ultimately show ?thesis using r Nil by (auto simp: t)
next
  case (Cons new rest)
  have r: "r = new" and t: "t = updrpc new (\<lambda>q. q\<lparr>rdone := False\<rparr>) (s\<lparr>rpcfree := rest, nrpcfree := nrpcfree s - 1, nrpcused := nrpcused s + 1\<rparr>)"
    using a Cons by (auto simp: mntralloc_def)
  have "own t" using o(1) Cons by (auto simp: own_def t)
  moreover have "tagof t = tagof s" by (auto simp: tagof_def t)
  hence "tagsok t" using o(2) by (simp add: tagsok_def t)
  moreover have "r \<notin> \<Union> (range (set \<circ> rlist \<circ> pc s))" using o(1) Cons r by (auto simp: own_def)
  ultimately show ?thesis using o(1) Cons r by (auto simp: own_def t)
qed

text \<open>A request that no process has any more is freed.\<close>

lemma mntfree_own:
  assumes o: "own s" "tagsok s" and r: "r \<in> heap s" "r \<notin> set (rpcfree s)" "r \<notin> \<Union> (range (set \<circ> rlist \<circ> pc s))"
  shows "own (mntfree r s) \<and> tagsok (mntfree r s)"
proof (cases "nrpcfree s \<ge> 16")
  case True
  have t: "tagof s r < 65536" using o(2) r(1) by (auto simp: tagsok_def tagset_def)
  have "tagof s r \<notin> tagof s ` (heap s - {r})" using o(2) r(1) by (auto simp: tagsok_def inj_on_def)
  hence "tagof s ` (heap s - {r}) \<subseteq> tagset (tagmask s) - {tagof s r}" using o(2) unfolding tagsok_def by blast
  moreover have "inj_on (tagof s) (heap s - {r})" using o(2) inj_on_diff unfolding tagsok_def by blast
  moreover have "tagof (mntfree r s) = tagof s" by (auto simp: tagof_def mntfree_def)
  moreover have "heap (mntfree r s) = heap s - {r}" "tagmask (mntfree r s) = freetag (tagof s r) (tagmask s)" using True by (simp_all add: mntfree_def tagof_def)
  ultimately have "tagsok (mntfree r s)" using freetag_ok[OF t] by (simp add: tagsok_def)
  moreover have "own (mntfree r s)" using o(1) r True by (auto simp: own_def mntfree_def)
  ultimately show ?thesis by blast
next
  case False
  have "tagof (mntfree r s) = tagof s" by (auto simp: tagof_def mntfree_def)
  hence "tagsok (mntfree r s)" using o(2) False by (simp add: tagsok_def mntfree_def)
  moreover have "own (mntfree r s)" using o(1) r False by (auto simp: own_def mntfree_def)
  ultimately show ?thesis by blast
qed

lemma mntfree_simps [simp]: "pc (mntfree r s) = pc s" "rpc (mntfree r s) = rpc s" "rip (mntfree r s) = rip s" "queue (mntfree r s) = queue s"
    "got (mntfree r s) = got s" "results (mntfree r s) = results s"
  by (simp_all add: mntfree_def)

section \<open>The queue, the reader and the replies\<close>

definition newest :: "mpc \<Rightarrow> nat \<Rightarrow> bool" where
  "newest k r \<longleftrightarrow> (\<exists>rs. k = MQueue (r # rs))"

text \<open>The queue holds the requests that wait for a reply, except one about to be queued.\<close>

definition queueok :: "mntsys \<Rightarrow> bool" where
  "queueok s \<longleftrightarrow> distinct (queue s)
     \<and> (\<forall>r \<in> set (queue s). \<not> rdone (rpc s r) \<and> (\<exists>p. r \<in> set (rlist (pc s p)) \<and> \<not> newest (pc s p) r))
     \<and> (\<forall>p. \<forall>r \<in> set (rlist (pc s p)). \<not> rdone (rpc s r) \<longrightarrow> r \<in> set (queue s) \<or> newest (pc s p) r)
     \<and> (\<forall>p r. newest (pc s p) r \<longrightarrow> \<not> rdone (rpc s r))"

definition stage :: "mntsys \<Rightarrow> mpc \<Rightarrow> bool" where
  "stage s k = (case k of
     MMux rs \<Rightarrow> \<not> rdone (rpc s (hd rs)) \<and> reply (rpc s (hd rs)) \<in> set (got s)
   | MUnq b rs \<Rightarrow> rdone (rpc s (hd rs)) \<or> ftype (reply (rpc s (hd rs))) = Rflush
   | MNext b rs \<Rightarrow> rdone (rpc s (hd rs))
   | MReturn b rs \<Rightarrow> length rs = 1 \<and> rdone (rpc s (hd rs))
   | _ \<Rightarrow> True)"

definition reading :: "mpc \<Rightarrow> bool" where
  "reading k = (case k of MRead rs \<Rightarrow> True | MMux rs \<Rightarrow> True | MGateOut rs \<Rightarrow> True | _ \<Rightarrow> False)"

definition inerr :: "mpc \<Rightarrow> bool" where
  "inerr k = (case k of MErr e rs \<Rightarrow> True | _ \<Rightarrow> False)"

definition readok :: "mntsys \<Rightarrow> bool" where
  "readok s \<longleftrightarrow> (\<forall>p. reading (pc s p) \<longrightarrow> rip s = Some p) \<and> (\<forall>p. rip s = Some p \<longrightarrow> reading (pc s p) \<or> inerr (pc s p))"

definition sleepsat :: "mpc \<Rightarrow> nat \<Rightarrow> bool" where
  "sleepsat k r \<longleftrightarrow> (\<exists>rs. k = MAsleep (r # rs))"

definition sleepok :: "mntsys \<Rightarrow> bool" where
  "sleepok s \<longleftrightarrow> (\<forall>p r. rz (rpc s r) = Some p \<longleftrightarrow> sleepsat (pc s p) r)"

text \<open>A reply that was read for the request, or the mark of a flush.\<close>

definition answers :: "fcall list \<Rightarrow> mntrpc \<Rightarrow> bool" where
  "answers ms q \<longleftrightarrow> ftype (reply q) = Rflush \<or> ftag (reply q) = ftag (request q) \<and> reply q \<in> set ms"

definition replyok :: "mntsys \<Rightarrow> bool" where
  "replyok s \<longleftrightarrow> (\<forall>p. \<forall>r \<in> set (rlist (pc s p)). rdone (rpc s r) \<longrightarrow> answers (got s) (rpc s r))"

definition resok :: "mntsys \<Rightarrow> bool" where
  "resok s \<longleftrightarrow> (\<forall>(p, q, x) \<in> set (results s). \<forall>m. x = Replied m \<longrightarrow> ftag m = ftag q \<and> ftype m = ftype q + 1 \<and> m \<in> set (got s))"

definition muxinv :: "mntsys \<Rightarrow> bool" where
  "muxinv s \<longleftrightarrow> ownership s \<and> queueok s \<and> (\<forall>p. stage s (pc s p)) \<and> readok s \<and> sleepok s \<and> replyok s \<and> resok s"

definition isasleep :: "mpc \<Rightarrow> bool" where
  "isasleep k = (case k of MAsleep rs \<Rightarrow> True | _ \<Rightarrow> False)"

lemmas pc_tests = newest_def reading_def inerr_def sleepsat_def isasleep_def

lemma isasleep_sleepsat: "\<not> isasleep k \<Longrightarrow> \<not> sleepsat k r"
  by (auto simp: isasleep_def sleepsat_def)

text \<open>A process moves on, with the same requests.\<close>

lemma move_inv:
  assumes i: "muxinv s" and k: "rlist k = rlist (pc s p)" "k \<noteq> MIdle" "pc s p \<noteq> MIdle"
    and n: "\<And>r. \<not> newest k r" "\<And>r. \<not> newest (pc s p) r" "\<not> isasleep k" "\<not> isasleep (pc s p)"
    and st: "stage s k" "reading k \<Longrightarrow> rip s = Some p" "rip s = Some p \<Longrightarrow> reading k \<or> inerr k"
  shows "muxinv (goto p k s)"
proof -
  have "framed s (goto p k s)" using k by (intro framed_goto) simp_all
  hence "ownership (goto p k s)" using i framed_own by (auto simp: muxinv_def)
  moreover have "queueok (goto p k s)"
  proof -
    have "queueok s" using i by (simp add: muxinv_def)
    moreover have "rlist (pc (goto p k s) q) = rlist (pc s q)" "newest (pc (goto p k s) q) r = newest (pc s q) r" for q r
      using k(1) n(1,2) by auto
    ultimately show ?thesis unfolding queueok_def by simp
  qed
  moreover have "stage (goto p k s) (pc (goto p k s) q)" for q
    using i st(1) by (auto simp: muxinv_def stage_def split: mpc.splits)
  moreover have "readok (goto p k s)" using i st(2,3) by (auto simp: muxinv_def readok_def)
  moreover have "sleepok (goto p k s)" using i isasleep_sleepsat[OF n(3)] isasleep_sleepsat[OF n(4)] by (auto simp: muxinv_def sleepok_def)
  moreover have "replyok (goto p k s)" using i k(1) by (auto simp: muxinv_def replyok_def)
  moreover have "resok (goto p k s)" using i by (simp add: muxinv_def resok_def)
  ultimately show ?thesis by (simp add: muxinv_def)
qed

lemma wire_inv: "muxinv (s\<lparr>wire := w\<rparr>) = muxinv s"
proof -
  have "framed s (s\<lparr>wire := w\<rparr>)" "framed (s\<lparr>wire := w\<rparr>) s" by (simp_all add: framed_def)
  hence "ownership (s\<lparr>wire := w\<rparr>) = ownership s" using framed_own by blast
  thus ?thesis by (simp add: muxinv_def queueok_def stage_def readok_def sleepok_def replyok_def resok_def split: mpc.splits)
qed

lemma got_inv:
  assumes i: "muxinv s"
  shows "muxinv (s\<lparr>got := m # got s\<rparr>)"
proof -
  let ?t = "s\<lparr>got := m # got s\<rparr>"
  have "framed s ?t" by (simp add: framed_def)
  hence "ownership ?t" using i framed_own by (auto simp: muxinv_def)
  moreover have "queueok ?t" "readok ?t" "sleepok ?t" using i by (simp_all add: muxinv_def queueok_def readok_def sleepok_def)
  moreover have "stage ?t (pc ?t p)" for p using i by (auto simp: muxinv_def stage_def split: mpc.splits)
  moreover have "replyok ?t" using i by (auto simp: muxinv_def replyok_def answers_def)
  moreover have "resok ?t" using i by (fastforce simp: muxinv_def resok_def)
  ultimately show ?thesis by (simp add: muxinv_def)
qed

text \<open>The reply of a request changes.\<close>

lemma reply_inv:
  assumes i: "muxinv s" and d: "rdone (rpc s r) \<Longrightarrow> ftype m = Rflush"
    and k: "\<And>p rs. pc s p \<noteq> MMux (r # rs)" "\<And>p b rs. pc s p \<noteq> MUnq b (r # rs)"
  shows "muxinv (updrpc r (\<lambda>q. q\<lparr>reply := m\<rparr>) s)"
proof -
  let ?t = "updrpc r (\<lambda>q. q\<lparr>reply := m\<rparr>) s"
  have "framed s ?t" by (rule framed_updrpc) simp
  hence "ownership ?t" using i framed_own by (auto simp: muxinv_def)
  moreover have "queueok ?t" using i by (auto simp: muxinv_def queueok_def)
  moreover have "readok ?t" "resok ?t" using i by (simp_all add: muxinv_def readok_def resok_def)
  moreover have "sleepok ?t" using i by (auto simp: muxinv_def sleepok_def)
  moreover have "stage ?t (pc ?t p)" for p
  proof -
    have o: "stage s (pc s p)" "own s" using i by (simp_all add: muxinv_def ownership_def)
    have "hd (rlist (pc s p)) \<noteq> r" if "pc s p = MMux rs \<or> pc s p = MUnq b rs" for rs b
    proof -
      have "rlist (pc s p) = rs" "rs \<noteq> []" using that o(2) by (auto simp: own_def) (metis rlist.simps mpc.distinct)+
      thus ?thesis using that k by (cases rs) auto
    qed
    thus ?thesis using o(1) by (auto simp: stage_def split: mpc.splits)
  qed
  moreover have "replyok ?t" using i d by (auto simp: muxinv_def replyok_def answers_def)
  ultimately show ?thesis by (simp add: muxinv_def)
qed

text \<open>A process is woken.\<close>

lemma wake_inv:
  assumes i: "muxinv s"
  shows "muxinv (wakerpc q s)"
proof (cases rule: wakerpc_cases[of q s])
  case none
  thus ?thesis using i by simp
next
  case (woke p rs)
  let ?t = "wakerpc q s"
  have rs: "sleepsat (pc s p) q" using i woke(1) by (simp add: muxinv_def sleepok_def)
  have sl: "sleepsat (pc s p) r \<longleftrightarrow> r = q" for r using rs by (auto simp: sleepsat_def)
  have t: "pc ?t = (pc s)(p := MWoken rs)" "\<And>r. rz (rpc ?t r) = (if r = q then None else rz (rpc s r))" "\<And>r. request (rpc ?t r) = request (rpc s r)"
    using woke(3) by auto
  have "ownership ?t" using i framed_own[OF framed_wakerpc] by (auto simp: muxinv_def)
  moreover have "queueok ?t"
  proof -
    have "rlist (pc ?t p') = rlist (pc s p')" "newest (pc ?t p') r = newest (pc s p') r" for p' r using woke(2) t(1) by (auto simp: newest_def)
    thus ?thesis using i by (simp add: muxinv_def queueok_def)
  qed
  moreover have "stage ?t (pc ?t p')" for p' using i t(1) by (auto simp: muxinv_def stage_def split: mpc.splits)
  moreover have "readok ?t" using i t(1) woke(2) by (auto simp: muxinv_def readok_def reading_def inerr_def)
  moreover have "sleepok ?t"
  proof -
    have so: "rz (rpc s r) = Some p' \<longleftrightarrow> sleepsat (pc s p') r" for r p' using i by (simp add: muxinv_def sleepok_def)
    have "rz (rpc ?t r) = Some p' \<longleftrightarrow> sleepsat (pc ?t p') r" for r p'
    proof (cases "p' = p")
      case True
      thus ?thesis using t so[of r p] sl by (auto simp: sleepsat_def)
    next
      case False
      thus ?thesis using t so[of r p'] woke(1) by auto
    qed
    thus ?thesis by (simp add: sleepok_def)
  qed
  moreover have "rlist (pc ?t p') = rlist (pc s p')" for p' using woke(2) t(1) by simp
  hence "replyok ?t" using i t(3) by (simp add: muxinv_def replyok_def answers_def)
  moreover have "resok ?t" using i by (simp add: muxinv_def resok_def)
  ultimately show ?thesis by (simp add: muxinv_def)
qed

text \<open>A request gets done.\<close>

lemma done_inv:
  assumes i: "muxinv s" and a: "\<not> rdone (rpc s q) \<Longrightarrow> answers (got s) ((rpc s q)\<lparr>reply := m\<rparr>)" "rdone (rpc s q) \<Longrightarrow> m = reply (rpc s q)"
    and k: "\<And>p rs. pc s p \<noteq> MMux (q # rs)" "\<And>p. \<not> newest (pc s p) q"
  shows "muxinv (updrpc q (\<lambda>x. x\<lparr>reply := m, rdone := True\<rparr>) (s\<lparr>queue := remove1 q (queue s)\<rparr>))"
proof -
  let ?t = "updrpc q (\<lambda>x. x\<lparr>reply := m, rdone := True\<rparr>) (s\<lparr>queue := remove1 q (queue s)\<rparr>)"
  have "framed s ?t" by (simp add: framed_def)
  hence "ownership ?t" using i framed_own by (auto simp: muxinv_def)
  moreover have "queueok ?t"
  proof -
    have q: "queueok s" using i by (simp add: muxinv_def)
    hence "set (remove1 q (queue s)) = set (queue s) - {q}" by (simp add: queueok_def set_remove1_eq)
    thus ?thesis using q k(2) by (auto simp: queueok_def)
  qed
  moreover have "readok ?t" "resok ?t" using i by (simp_all add: muxinv_def readok_def resok_def)
  moreover have "sleepok ?t" using i by (auto simp: muxinv_def sleepok_def)
  moreover have "stage ?t (pc ?t p)" for p
  proof -
    have o: "stage s (pc s p)" "own s" using i by (simp_all add: muxinv_def ownership_def)
    have "hd rs \<noteq> q" if "pc s p = MMux rs" for rs
    proof -
      have "rs \<noteq> []" using that o(2) unfolding own_def by (metis mpc.distinct(15) rlist.simps(9))
      thus ?thesis using that k(1) by (cases rs) auto
    qed
    thus ?thesis using o(1) by (auto simp: stage_def split: mpc.splits)
  qed
  moreover have "replyok ?t" using i a by (auto simp: muxinv_def replyok_def answers_def)
  ultimately show ?thesis by (simp add: muxinv_def)
qed

section \<open>Every step keeps the invariant\<close>

lemma ownD: "muxinv s \<Longrightarrow> r \<in> set (rlist (pc s p)) \<Longrightarrow> r \<in> set (rlist (pc s q)) \<Longrightarrow> p = q"
  unfolding muxinv_def ownership_def own_def by blast

lemma enqueue_inv:
  assumes i: "muxinv s" and p: "pc s p = MQueue (r # rs)"
  shows "muxinv (goto p (MWrite (r # rs)) (s\<lparr>queue := r # queue s\<rparr>))"
proof -
  let ?t = "goto p (MWrite (r # rs)) (s\<lparr>queue := r # queue s\<rparr>)"
  have rl: "rlist (pc ?t q) = rlist (pc s q)" for q using p by simp
  have "framed s ?t" using p by (simp add: framed_def)
  hence "ownership ?t" using i framed_own by (auto simp: muxinv_def)
  moreover have "queueok ?t"
  proof -
    have q: "queueok s" using i by (simp add: muxinv_def)
    have r: "r \<in> set (rlist (pc s p))" "newest (pc s p) r" using p by (simp_all add: newest_def)
    have nq: "r \<notin> set (queue s)"
    proof
      assume "r \<in> set (queue s)"
      then obtain p' where "r \<in> set (rlist (pc s p'))" "\<not> newest (pc s p') r" using q by (auto simp: queueok_def)
      thus False using ownD[OF i r(1)] r(2) by auto
    qed
    have nn: "newest (pc ?t p') x \<longleftrightarrow> newest (pc s p') x \<and> x \<noteq> r" for p' x
    proof (cases "p' = p")
      case False
      thus ?thesis using ownD[OF i r(1), of p'] by (auto simp: newest_def)
    qed (use p in \<open>auto simp: newest_def\<close>)
    have "\<not> rdone (rpc s r)" using q r(2) by (auto simp: queueok_def)
    moreover have "\<exists>p'. x \<in> set (rlist (pc s p')) \<and> \<not> (newest (pc s p') x \<and> x \<noteq> r)" if "x = r \<or> x \<in> set (queue s)" for x
      using that q r by (auto simp: queueok_def)
    ultimately show ?thesis using q nq unfolding queueok_def rl nn by auto
  qed
  moreover have "stage ?t (pc ?t q)" for q using i by (auto simp: muxinv_def stage_def split: mpc.splits)
  moreover have "readok ?t" using i p by (auto simp: muxinv_def readok_def reading_def inerr_def)
  moreover have "sleepok ?t" using i p by (auto simp: muxinv_def sleepok_def sleepsat_def)
  moreover have "replyok ?t" using i unfolding muxinv_def replyok_def rl by simp
  moreover have "resok ?t" using i by (simp add: muxinv_def resok_def)
  ultimately show ?thesis by (simp add: muxinv_def)
qed

text \<open>A process takes the gate, or leaves it.\<close>

lemma rip_inv:
  assumes i: "muxinv s" and k: "rlist k = rlist (pc s p)" "k \<noteq> MIdle" "pc s p \<noteq> MIdle"
    and n: "\<And>r. \<not> newest k r" "\<And>r. \<not> newest (pc s p) r" "\<not> isasleep k" "\<not> isasleep (pc s p)" "stage s k"
    and v: "v = (if reading k then Some p else None)" "rip s = None \<or> rip s = Some p"
  shows "muxinv (goto p k (s\<lparr>rip := v\<rparr>))"
proof -
  let ?t = "goto p k (s\<lparr>rip := v\<rparr>)"
  have "framed s ?t" using k by (simp add: framed_def)
  hence "ownership ?t" using i framed_own by (auto simp: muxinv_def)
  moreover have "rlist (pc ?t q) = rlist (pc s q)" "newest (pc ?t q) r = newest (pc s q) r" for q r using k(1) n(1,2) by auto
  hence "queueok ?t" "replyok ?t" using i by (simp_all add: muxinv_def queueok_def replyok_def)
  moreover have "stage ?t (pc ?t q)" for q using i n(5) by (auto simp: muxinv_def stage_def split: mpc.splits)
  moreover have "readok ?t" using i v by (auto simp: muxinv_def readok_def)
  moreover have "sleepok ?t" using i isasleep_sleepsat[OF n(3)] isasleep_sleepsat[OF n(4)] by (auto simp: muxinv_def sleepok_def)
  moreover have "resok ?t" using i by (simp add: muxinv_def resok_def)
  ultimately show ?thesis by (simp add: muxinv_def)
qed

lemma wakerpc_eq: "wakerpc q s = (case rz (rpc s q) of None \<Rightarrow> s
    | Some p \<Rightarrow> if isasleep (pc s p) then updrpc q (\<lambda>q. q\<lparr>rz := None\<rparr>) (s\<lparr>pc := (pc s)(p := MWoken (rlist (pc s p)))\<rparr>) else s)"
  by (simp add: wakerpc_def isasleep_def split: option.split mpc.split)

lemma wakerpc_goto: "\<not> isasleep (pc s p) \<Longrightarrow> \<not> isasleep k \<Longrightarrow> wakerpc q (goto p k s) = goto p k (wakerpc q s)"
proof (cases "rz (rpc s q)")
  case (Some p')
  assume a: "\<not> isasleep (pc s p)" "\<not> isasleep k"
  show ?thesis
  proof (cases "p' = p")
    case True
    thus ?thesis using Some a by (simp add: wakerpc_eq)
  next
    case False
    thus ?thesis using Some by (simp add: wakerpc_eq goto_def updrpc_def fun_upd_twist[of p' p])
  qed
qed (simp add: wakerpc_eq)

lemma mntgate_goto:
  assumes "\<not> isasleep (pc s p)" "\<not> isasleep k"
  shows "goto p k (mntgate s) = goto p k (s\<lparr>rip := None\<rparr>) \<or> (\<exists>q. goto p k (mntgate s) = wakerpc q (goto p k (s\<lparr>rip := None\<rparr>)))"
proof (cases rule: mntgate_cases[of s])
  case (woke q)
  have "goto p k (mntgate s) = wakerpc q (goto p k (s\<lparr>rip := None\<rparr>))" unfolding woke(4) by (rule wakerpc_goto[symmetric]) (use assms in simp_all)
  thus ?thesis by blast
qed simp

lemma gate_inv:
  assumes i: "muxinv s" and k: "rlist k = rlist (pc s p)" "k \<noteq> MIdle" "pc s p \<noteq> MIdle"
    and n: "\<And>r. \<not> newest k r" "\<And>r. \<not> newest (pc s p) r" "\<not> isasleep k" "\<not> isasleep (pc s p)" "stage s k" "\<not> reading k" "rip s = Some p"
  shows "muxinv (goto p k (mntgate s))"
proof -
  have "muxinv (goto p k (s\<lparr>rip := None\<rparr>))" by (rule rip_inv[OF i k n(1-5)]) (use n(6,7) in simp_all)
  thus ?thesis using mntgate_goto[OF n(4,3)] wake_inv by metis
qed

lemma mux_inv:
  assumes i: "muxinv s" and p: "pc s p = MMux (r # rs)"
  shows "muxinv (goto p (MRead (r # rs)) (mountmux r s))"
proof -
  let ?k = "MRead (r # rs)"
  have rp: "rip s = Some p" using i p by (auto simp: muxinv_def readok_def reading_def)
  have "stage s (pc s p)" using i by (simp add: muxinv_def)
  hence m: "reply (rpc s r) \<in> set (got s)" using p by (simp add: stage_def)
  have i1: "muxinv (goto p ?k s)"
    by (rule move_inv[OF i]) (use p rp in \<open>simp_all add: pc_tests stage_def\<close>)
  show ?thesis
  proof (cases rule: mountmux_cases[of r s])
    case lost
    thus ?thesis using i1 by simp
  next
    case (given q t)
    have only: "pc (goto p ?k s) p' \<noteq> MMux l" for p' l
    proof (cases "p' = p")
      case False
      have "\<not> reading (pc s p')" using i rp False by (auto simp: muxinv_def readok_def)
      thus ?thesis using False by (auto simp: reading_def)
    qed simp
    obtain p' where q: "q \<in> set (rlist (pc s p'))" "\<not> newest (pc s p') q" "\<not> rdone (rpc s q)"
      using i given(1) by (auto simp: muxinv_def queueok_def)
    have nn: "\<not> newest (pc (goto p ?k s) x) q" for x
    proof
      assume "newest (pc (goto p ?k s) x) q"
      hence "x \<noteq> p" "newest (pc s x) q" by (auto simp: newest_def split: if_splits)
      thus False using ownD[OF i q(1), of x] q(2) by (auto simp: newest_def)
    qed
    let ?m = "reply (rpc s r)"
    have "muxinv (updrpc q (\<lambda>x. x\<lparr>reply := ?m, rdone := True\<rparr>) ((goto p ?k s)\<lparr>queue := remove1 q (queue (goto p ?k s))\<rparr>))"
      by (rule done_inv[OF i1]) (use given(2) m q(3) only nn in \<open>auto simp: answers_def tagof_def\<close>)
    moreover have "updrpc q (\<lambda>x. x\<lparr>reply := ?m, rdone := True\<rparr>) ((goto p ?k s)\<lparr>queue := remove1 q (queue (goto p ?k s))\<rparr>) = goto p ?k t"
      by (simp add: given(3) goto_def updrpc_def)
    ultimately have it: "muxinv (goto p ?k t)" by simp
    have "goto p ?k (wakerpc q t) = wakerpc q (goto p ?k t)"
      by (rule wakerpc_goto[symmetric]) (use p in \<open>simp_all add: given(3) isasleep_def\<close>)
    thus ?thesis using it wake_inv unfolding given(4) by simp
  qed
qed

lemma stage_cong:
  assumes "\<And>r. r \<in> set (rlist k) \<Longrightarrow> rpc t r = rpc s r" "got t = got s" "k \<noteq> MIdle \<Longrightarrow> rlist k \<noteq> []"
  shows "stage t k = stage s k"
proof -
  have "rpc t (hd (rlist k)) = rpc s (hd (rlist k))" if "k \<noteq> MIdle" using assms(1,3) that by (simp add: hd_in_set)
  thus ?thesis using assms(2) by (cases k) (simp_all add: stage_def)
qed

text \<open>A process gets one more request, which it is about to queue.\<close>

lemma own_grow:
  assumes t: "own t" "r \<in> heap t" "r \<notin> set (rpcfree t)" "\<And>q. r \<notin> set (rlist (pc t q))"
    and u: "pc u = (pc t)(p := MQueue (r # rlist (pc t p)))" "heap u = heap t" "rpcfree u = rpcfree t"
  shows "own u"
  unfolding own_def
proof (intro conjI allI impI)
  fix q q'
  show "distinct (rlist (pc u q))" using t(1,4) by (auto simp: own_def u)
  show "set (rlist (pc u q)) \<subseteq> heap u" using t(1,2) by (auto simp: own_def u)
  show "set (rlist (pc u q)) \<inter> set (rpcfree u) = {}" using t(1,3) by (auto simp: own_def u)
  show "rlist (pc u q) \<noteq> []" if "pc u q \<noteq> MIdle" using t(1) that by (auto simp: own_def u)
  show "set (rlist (pc u q)) \<inter> set (rlist (pc u q')) = {}" if "q \<noteq> q'" using t(1,4) that by (auto simp: own_def u)
qed (use t(1) in \<open>simp_all add: own_def u\<close>)

lemma namesok_grow:
  assumes s: "namesok s" and r: "\<And>q. r \<notin> set (rlist (pc s q))"
    and u: "pc u = (pc s)(p := MQueue (r # rs))" "\<And>y. y \<noteq> r \<Longrightarrow> rpc u y = rpc s y" "flushes u (r # rs)"
  shows "namesok u"
  unfolding namesok_def
proof
  fix q
  show "flushes u (rlist (pc u q))"
  proof (cases "q = p")
    case False
    have l: "flushes s (rlist (pc s q))" using s by (simp add: namesok_def)
    have e: "rpc u y = rpc s y" if "y \<in> set (rlist (pc s q))" for y by (rule u(2)) (use r[of q] that in auto)
    have "flushes u (rlist (pc s q))" unfolding flushes_def tagof_def
      using l e in_set_butlastD[of _ "rlist (pc s q)"] last_in_set[of "rlist (pc s q)"] by (auto simp: flushes_def tagof_def)
    thus ?thesis using False by (simp add: u(1))
  qed (use u in simp)
qed

lemma queueok_grow:
  assumes q: "queueok s" and r: "\<And>q. r \<notin> set (rlist (pc s q))" and p: "rs = rlist (pc s p)" "\<And>r. \<not> newest (pc s p) r"
    and u: "pc u = (pc s)(p := MQueue (r # rs))" "\<And>y. y \<noteq> r \<Longrightarrow> rpc u y = rpc s y" "\<not> rdone (rpc u r)" "queue u = queue s"
  shows "queueok u"
proof -
  have nq: "r \<notin> set (queue s)" using q r by (auto simp: queueok_def)
  have nw: "newest (pc u q) y \<longleftrightarrow> (if q = p then y = r else newest (pc s q) y)" for q y by (auto simp: u(1) newest_def)
  have rl: "set (rlist (pc u q)) = (if q = p then insert r (set (rlist (pc s p))) else set (rlist (pc s q)))" for q by (simp add: u(1) p(1))
  have "\<exists>q. y \<in> set (rlist (pc u q)) \<and> \<not> newest (pc u q) y" if y: "y \<in> set (queue s)" for y
  proof -
    obtain q' where "y \<in> set (rlist (pc s q'))" "\<not> newest (pc s q') y" using q y by (auto simp: queueok_def)
    moreover have "y \<noteq> r" using y nq by blast
    ultimately show ?thesis unfolding nw rl by (intro exI[of _ q']) auto
  qed
  moreover have "\<not> rdone (rpc u y)" if "y \<in> set (queue s)" for y
  proof -
    have "rpc u y = rpc s y" by (rule u(2)) (use that nq in auto)
    thus ?thesis using q that by (simp add: queueok_def)
  qed
  moreover have "\<not> rdone (rpc u y)" if "newest (pc u q) y" for q y
  proof (cases "y = r")
    case False
    thus ?thesis using that q u(2)[of y] by (auto simp: nw queueok_def split: if_splits)
  qed (use u(3) in simp)
  moreover have "y \<in> set (queue s) \<or> newest (pc u q) y" if "y \<in> set (rlist (pc u q))" "\<not> rdone (rpc u y)" for q y
  proof (cases "y = r")
    case True
    thus ?thesis using that(1) r[of q] by (auto simp: nw rl split: if_splits)
  next
    case False
    hence "y \<in> set (rlist (pc s q))" "\<not> rdone (rpc s y)" using that u(2)[of y] by (auto simp: rl split: if_splits)
    thus ?thesis using q p(2) by (auto simp: queueok_def nw)
  qed
  ultimately show ?thesis using q unfolding queueok_def u(4) by blast
qed

lemma grow_inv:
  assumes i: "muxinv s" and r: "\<And>q. r \<notin> set (rlist (pc s q))" and o: "own u" "tagsok u"
    and p: "rs = rlist (pc s p)" "\<And>r. \<not> newest (pc s p) r" "\<not> isasleep (pc s p)" "\<not> reading (pc s p)" "\<not> inerr (pc s p)"
    and u: "pc u = (pc s)(p := MQueue (r # rs))" "\<And>y. y \<noteq> r \<Longrightarrow> rpc u y = rpc s y" "\<not> rdone (rpc u r)" "rz (rpc u r) = None" "flushes u (r # rs)"
      "queue u = queue s" "rip u = rip s" "got u = got s" "results u = results s"
  shows "muxinv u"
proof -
  have "namesok u" by (rule namesok_grow[OF _ r u(1,2,5)]) (use i in \<open>simp add: muxinv_def ownership_def\<close>)
  moreover have "queueok u" by (rule queueok_grow[OF _ r p(1,2) u(1-3,6)]) (use i in \<open>simp add: muxinv_def\<close>)
  moreover have "stage u (pc u q)" for q
  proof (cases "q = p")
    case False
    have "rpc u y = rpc s y" if "y \<in> set (rlist (pc s q))" for y by (rule u(2)) (use that r[of q] in auto)
    hence "stage u (pc s q) = stage s (pc s q)"
      by (rule stage_cong) (use u(8) i in \<open>simp_all add: muxinv_def ownership_def own_def\<close>)
    thus ?thesis using False i by (simp add: muxinv_def u(1))
  qed (simp add: stage_def u(1))
  moreover have "readok u" using i p(4,5) by (auto simp: muxinv_def readok_def u(1,7) reading_def inerr_def)
  moreover have "sleepok u"
  proof -
    have so: "rz (rpc s y) = Some q \<longleftrightarrow> sleepsat (pc s q) y" for y q using i by (simp add: muxinv_def sleepok_def)
    have "\<not> sleepsat (pc s q) r" for q using r[of q] by (auto simp: sleepsat_def)
    moreover have "\<not> sleepsat (pc s p) y" for y by (rule isasleep_sleepsat[OF p(3)])
    ultimately have "rz (rpc u y) = Some q \<longleftrightarrow> sleepsat (pc u q) y" for y q
      using so u(2,4) by (cases "y = r") (auto simp: u(1) sleepsat_def)
    thus ?thesis by (simp add: sleepok_def)
  qed
  moreover have "answers (got u) (rpc u y)" if "y \<in> set (rlist (pc u q))" "rdone (rpc u y)" for q y
  proof -
    have "y \<noteq> r" using that(2) u(3) by auto
    moreover from this have "y \<in> set (rlist (pc s q))" using that(1) p(1) by (auto simp: u(1) split: if_splits)
    ultimately show ?thesis using i that(2) u(2,8) by (auto simp: muxinv_def replyok_def)
  qed
  moreover have "resok u" using i by (simp add: muxinv_def resok_def u)
  ultimately show ?thesis using o by (simp add: muxinv_def ownership_def replyok_def)
qed

lemma alloc_inv:
  assumes i: "muxinv s" and x: "x \<notin> heap s" "mntralloc x s = Some (r, t)"
    and f: "\<And>q. ftag (request (f q)) = ftag (request q)" "\<And>q. rdone (f q) = rdone q" "\<And>q. rz (f q) = rz q"
    and p: "rs = rlist (pc s p)" "\<And>r. \<not> newest (pc s p) r" "\<not> isasleep (pc s p)" "\<not> reading (pc s p)" "\<not> inerr (pc s p)"
    and n: "flushes (updrpc r f t) (r # rs)"
  shows "muxinv (goto p (MQueue (r # rs)) (updrpc r f t))"
proof -
  define u where "u = goto p (MQueue (r # rs)) (updrpc r f t)"
  have o: "own s" "tagsok s" using i by (simp_all add: muxinv_def ownership_def)
  note a = mntralloc_own[OF o x]
  obtain q where q: "rpc t = (rpc s)(r := q)" "\<not> rdone q" "rz q = None \<or> rz q = rz (rpc s r)" using a by blast
  have r: "r \<notin> set (rlist (pc s p'))" for p' using a by auto
  have "rz (rpc s r) \<noteq> Some p'" for p'
  proof
    assume "rz (rpc s r) = Some p'"
    hence "sleepsat (pc s p') r" using i by (simp add: muxinv_def sleepok_def)
    thus False using r[of p'] by (auto simp: sleepsat_def)
  qed
  hence z: "rz q = None" using q(3) by (metis not_Some_eq)
  have "own u" by (rule own_grow[of t r]) (use a p(1) r in \<open>auto simp: u_def\<close>)
  moreover have "tagof u = tagof t" using f(1) by (auto simp: tagof_def u_def)
  hence "tagsok u" using a by (simp add: tagsok_def u_def)
  moreover have "flushes u (r # rs)" using n by (simp add: u_def flushes_def tagof_def)
  ultimately have "muxinv u" by (intro grow_inv[OF i r _ _ p]) (use a q z f in \<open>simp_all add: u_def\<close>)
  thus ?thesis by (simp add: u_def)
qed

text \<open>A process is through with the latest of its requests.\<close>

lemma own_shrink:
  assumes s: "own s" "tagsok s" and p: "rlist (pc s p) = r # rs" "rlist k = rs" "k = MIdle \<longleftrightarrow> rs = []"
  shows "own (mntfree r (goto p k s)) \<and> tagsok (mntfree r (goto p k s))"
proof (rule mntfree_own)
  have "distinct (r # rs)" using s(1) p(1) by (metis own_def)
  show "own (goto p k s)"
    unfolding own_def
  proof (intro conjI allI impI)
    fix q q'
    have sub: "set (rlist (pc (goto p k s) x)) \<subseteq> set (rlist (pc s x))" for x using p by auto
    show "distinct (rlist (pc (goto p k s) q))" using s(1) p \<open>distinct (r # rs)\<close> by (auto simp: own_def)
    show "set (rlist (pc (goto p k s) q)) \<subseteq> heap (goto p k s)" by (rule subset_trans[OF sub]) (use s(1) in \<open>simp add: own_def\<close>)
    show "set (rlist (pc (goto p k s) q)) \<inter> set (rpcfree (goto p k s)) = {}"
      using s(1) sub[of q] unfolding own_def goto_simps(4) by blast
    show "rlist (pc (goto p k s) q) \<noteq> []" if "pc (goto p k s) q \<noteq> MIdle" using s(1) that p by (auto simp: own_def split: if_splits)
    show "set (rlist (pc (goto p k s) q)) \<inter> set (rlist (pc (goto p k s) q')) = {}" if "q \<noteq> q'"
      using s(1) that sub[of q] sub[of q'] unfolding own_def by blast
  qed (use s(1) in \<open>simp_all add: own_def\<close>)
  have "tagof (goto p k s) = tagof s" by (auto simp: tagof_def)
  thus "tagsok (goto p k s)" using s(2) by (simp add: tagsok_def)
  have "r \<in> set (rlist (pc s p))" using p(1) by simp
  thus "r \<in> heap (goto p k s)" "r \<notin> set (rpcfree (goto p k s))" using s(1) by (auto simp: own_def)
  have "r \<notin> set (rlist (pc (goto p k s) q))" for q
  proof (cases "q = p")
    case True
    thus ?thesis using p(2) \<open>distinct (r # rs)\<close> by simp
  next
    case False
    hence "r \<notin> set (rlist (pc s q))" using s(1) \<open>r \<in> set (rlist (pc s p))\<close> unfolding own_def by blast
    thus ?thesis using False by simp
  qed
  thus "r \<notin> \<Union> (range (set \<circ> rlist \<circ> pc (goto p k s)))" by auto
qed

lemma shrink_inv:
  assumes i: "muxinv s" and p: "rlist (pc s p) = r # rs" "rlist k = rs" "k = MIdle \<longleftrightarrow> rs = []" "rdone (rpc s r)"
    and n: "\<And>r. \<not> newest k r" "\<And>r. \<not> newest (pc s p) r" "\<not> isasleep k" "\<not> isasleep (pc s p)" "\<not> reading k" "\<not> reading (pc s p)"
      "\<not> inerr (pc s p)" "stage s k"
  shows "muxinv (goto p k (mntfree r s))"
proof -
  let ?u = "goto p k (mntfree r s)"
  have sub: "set (rlist (pc ?u x)) \<subseteq> set (rlist (pc s x))" for x using p by auto
  have "?u = mntfree r (goto p k s)" by (rule mntsys.equality) (simp_all add: mntfree_def goto_def)
  hence "own ?u" "tagsok ?u" using own_shrink[of s p r rs k] i p(1-3) by (simp_all add: muxinv_def ownership_def)
  moreover have "namesok ?u" unfolding namesok_def
  proof
    fix x
    have "flushes s (rlist (pc s x))" for x using i by (simp add: muxinv_def ownership_def namesok_def)
    from this[of p] this[of x] show "flushes ?u (rlist (pc ?u x))" using p by (auto simp: flushes_def tagof_def split: if_splits)
  qed
  moreover have "queueok ?u"
  proof -
    have q: "queueok s" using i by (simp add: muxinv_def)
    have nw: "newest (pc ?u x) y \<longleftrightarrow> newest (pc s x) y" for x y using n(1,2) by auto
    have "\<exists>x. y \<in> set (rlist (pc ?u x)) \<and> \<not> newest (pc s x) y" if y: "y \<in> set (queue s)" for y
    proof -
      obtain x where "y \<in> set (rlist (pc s x))" "\<not> newest (pc s x) y" "\<not> rdone (rpc s y)" using q y by (auto simp: queueok_def)
      moreover have "y \<noteq> r" using calculation(3) p(4) by auto
      ultimately show ?thesis using p by (intro exI[of _ x]) auto
    qed
    moreover have "y \<in> set (queue s) \<or> newest (pc s x) y" if "y \<in> set (rlist (pc ?u x))" "\<not> rdone (rpc s y)" for x y
      using q that sub[of x] unfolding queueok_def by blast
    ultimately show ?thesis using q unfolding queueok_def nw by simp
  qed
  moreover have "stage ?u (pc ?u x)" for x using i n(8) by (auto simp: muxinv_def stage_def split: mpc.splits)
  moreover have "readok ?u" using i n(5-7) by (auto simp: muxinv_def readok_def)
  moreover have "sleepok ?u" using i isasleep_sleepsat[OF n(3)] isasleep_sleepsat[OF n(4)] by (auto simp: muxinv_def sleepok_def)
  moreover have "answers (got ?u) (rpc ?u y)" if "y \<in> set (rlist (pc ?u x))" "rdone (rpc ?u y)" for x y
    using i that sub[of x] unfolding muxinv_def replyok_def by auto
  moreover have "resok ?u" using i by (simp add: muxinv_def resok_def)
  ultimately show ?thesis by (simp add: muxinv_def ownership_def replyok_def)
qed

text \<open>Going to sleep, and leaving it for a note.\<close>

lemma rz_inv:
  assumes i: "muxinv s" and k: "rlist (pc s p) = r # rs" "rlist k = r # rs" "k \<noteq> MIdle" "pc s p \<noteq> MIdle"
    and n: "\<And>r. \<not> newest k r" "\<And>r. \<not> newest (pc s p) r" "\<not> reading k" "\<not> reading (pc s p)" "\<not> inerr (pc s p)" "stage s k"
    and z: "v = (if sleepsat k r then Some p else None)"
  shows "muxinv (goto p k (updrpc r (\<lambda>q. q\<lparr>rz := v\<rparr>) s))"
proof -
  let ?u = "goto p k (updrpc r (\<lambda>q. q\<lparr>rz := v\<rparr>) s)"
  have same: "rdone (rpc ?u y) = rdone (rpc s y)" "reply (rpc ?u y) = reply (rpc s y)" "request (rpc ?u y) = request (rpc s y)" for y by simp_all
  have rl: "rlist (pc ?u x) = rlist (pc s x)" for x using k by simp
  have nw: "newest (pc ?u x) y = newest (pc s x) y" for x y using n(1,2) by simp
  have "framed s ?u" using k by (simp add: framed_def)
  hence "ownership ?u" using i framed_own by (auto simp: muxinv_def)
  moreover have "queueok ?u" using i unfolding muxinv_def queueok_def same rl nw by simp
  moreover have "stage ?u (pc ?u x)" for x
  proof -
    have "stage ?u c = stage s c" for c unfolding stage_def same by (simp split: mpc.split)
    thus ?thesis using i n(6) by (simp add: muxinv_def)
  qed
  moreover have "readok ?u" using i n(3-5) by (auto simp: muxinv_def readok_def)
  moreover have "sleepok ?u"
  proof -
    have so: "rz (rpc s y) = Some x \<longleftrightarrow> sleepsat (pc s x) y" for y x using i by (simp add: muxinv_def sleepok_def)
    have h: "sleepsat c y \<Longrightarrow> hd (rlist c) = y" for c y by (auto simp: sleepsat_def)
    have "\<not> sleepsat (pc s x) r" if "x \<noteq> p" for x
      using ownD[OF i, of r x p] that k(1) by (auto simp: sleepsat_def)
    moreover have "\<not> sleepsat (pc s p) y" "\<not> sleepsat k y" if "y \<noteq> r" for y using h[of "pc s p" y] h[of k y] k(1,2) that by auto
    ultimately have "rz (rpc ?u y) = Some x \<longleftrightarrow> sleepsat (pc ?u x) y" for y x
      using so[of y x] z by (cases "y = r"; cases "x = p") auto
    thus ?thesis by (simp add: sleepok_def)
  qed
  moreover have "replyok ?u" using i unfolding muxinv_def replyok_def rl answers_def same by simp
  moreover have "resok ?u" using i by (simp add: muxinv_def resok_def)
  ultimately show ?thesis by (simp add: muxinv_def)
qed

lemma unq_inv:
  assumes i: "muxinv s" and p: "pc s p = MUnq raise (r # rs)"
  shows "muxinv (goto p (MNext raise (r # rs)) (mntqrm r s))"
proof -
  have "stage s (pc s p)" using i by (simp add: muxinv_def)
  hence a: "\<not> rdone (rpc s r) \<Longrightarrow> answers (got s) ((rpc s r)\<lparr>reply := reply (rpc s r)\<rparr>)" using p by (auto simp: stage_def answers_def)
  have k: "pc s q \<noteq> MMux (r # l)" "\<not> newest (pc s q) r" for q l using ownD[OF i, of r p q] p by (auto simp: newest_def)
  have e: "mntqrm r s = updrpc r (\<lambda>x. x\<lparr>reply := reply (rpc s r), rdone := True\<rparr>) (s\<lparr>queue := remove1 r (queue s)\<rparr>)"
    by (simp add: mntqrm_def updrpc_def)
  have "muxinv (mntqrm r s)" unfolding e by (rule done_inv[OF i a]) (use k in auto)
  moreover have "rip s \<noteq> Some p" using i p by (auto simp: muxinv_def readok_def reading_def inerr_def)
  ultimately show ?thesis using p by (intro move_inv) (auto simp: mntqrm_def pc_tests stage_def)
qed

lemma rip_not: "muxinv s \<Longrightarrow> \<not> reading (pc s p) \<Longrightarrow> \<not> inerr (pc s p) \<Longrightarrow> rip s \<noteq> Some p"
  by (auto simp: muxinv_def readok_def)

lemma rip_is: "muxinv s \<Longrightarrow> reading (pc s p) \<Longrightarrow> rip s = Some p"
  by (auto simp: muxinv_def readok_def)

text \<open>Steps that only move a process which does not read.\<close>

lemma plain_inv:
  assumes "muxinv s" "rlist k = rlist (pc s p)" "k \<noteq> MIdle" "pc s p \<noteq> MIdle" "\<And>r. \<not> newest k r" "\<And>r. \<not> newest (pc s p) r"
    "\<not> isasleep k" "\<not> isasleep (pc s p)" "stage s k" "\<not> reading k" "\<not> reading (pc s p)" "\<not> inerr (pc s p)"
  shows "muxinv (goto p k s)"
  by (rule move_inv[OF assms(1-9)]) (use assms(10) rip_not[OF assms(1,11,12)] in simp_all)

lemma start_inv:
  assumes "muxinv s" "pc s p = MIdle" "x \<notin> heap s" "mntralloc x s = Some (r, t)" "ty \<noteq> Tflush"
  shows "muxinv (goto p (MQueue [r]) (updrpc r (\<lambda>q. q\<lparr>request := (request q)\<lparr>ftype := ty, fbody := body\<rparr>, reply := (reply q)\<lparr>ftag := 0, ftype := Tmax\<rparr>\<rparr>) t))"
  by (rule alloc_inv[OF assms(1,3,4)]) (use assms(2,5) in \<open>simp_all add: pc_tests flushes_def\<close>)

lemma flush_inv:
  assumes i: "muxinv s" and p: "pc s p = MFlush (r # rs)" and x: "x \<notin> heap s" "mntflushalloc x r s = Some (fr, u)"
  shows "muxinv (goto p (MQueue (fr # r # rs)) u)"
proof -
  obtain t where t: "mntralloc x s = Some (fr, t)" using x(2) by (auto simp: mntflushalloc_def Let_def split: option.splits)
  define old where "old = (if ftype (request (rpc t r)) = Tflush then foldtag (request (rpc t r)) else ftag (request (rpc t r)))"
  define f where "f = (\<lambda>y. y\<lparr>request := (request y)\<lparr>ftype := Tflush, foldtag := old\<rparr>\<rparr> :: mntrpc)"
  have u: "u = updrpc fr f t" using x(2) t by (simp add: mntflushalloc_def Let_def f_def old_def)
  have o: "own s" "tagsok s" using i by (simp_all add: muxinv_def ownership_def)
  note a = mntralloc_own[OF o x(1) t]
  have "fr \<notin> set (rlist (pc s p))" using a by auto
  hence nf: "fr \<notin> set (r # rs)" using p by simp
  have same: "rpc t y = rpc s y" if "y \<in> set (r # rs)" for y using a nf that by auto
  have l: "flushes s (r # rs)" using i p by (auto simp: muxinv_def ownership_def namesok_def) (metis rlist.simps(12))
  have old: "old = tagof s (last (r # rs))"
    using l same[of r] by (cases "rs = []") (auto simp: old_def flushes_def tagof_def)
  have "flushes (updrpc fr f t) (fr # r # rs)"
  proof -
    have e: "rpc (updrpc fr f t) y = rpc s y" if "y \<in> set (r # rs)" for y using same[OF that] nf that by auto
    have "last (r # rs) \<in> set (r # rs)" by (rule last_in_set) simp
    moreover have "y \<in> set (r # rs)" if "y \<in> set (butlast (r # rs))" for y using that by (rule in_set_butlastD)
    moreover have "set (butlast (fr # r # rs)) = insert fr (set (butlast (r # rs)))" "last (fr # r # rs) = last (r # rs)" by simp_all
    moreover have "request (rpc (updrpc fr f t) fr) = (request (rpc t fr))\<lparr>ftype := Tflush, foldtag := old\<rparr>" by (simp add: f_def)
    ultimately show ?thesis using l e old unfolding flushes_def tagof_def by simp
  qed
  thus ?thesis unfolding u using p by (intro alloc_inv[OF i x(1) t]) (simp_all add: f_def pc_tests)
qed

lemma finish_inv:
  assumes i: "muxinv s" and p: "pc s p = MReturn raise [r]"
  shows "muxinv (goto p MIdle (mntfree r (s\<lparr>results := (p, request (rpc s r), mountres raise (rpc s r)) # results s\<rparr>)))"
proof -
  let ?s = "s\<lparr>results := (p, request (rpc s r), mountres raise (rpc s r)) # results s\<rparr>"
  have "stage s (pc s p)" using i by (simp add: muxinv_def)
  hence d: "rdone (rpc s r)" using p by (simp add: stage_def)
  moreover have "r \<in> set (rlist (pc s p))" using p by simp
  ultimately have a: "answers (got s) (rpc s r)" using i by (auto simp: muxinv_def replyok_def)
  have "framed s ?s" by (simp add: framed_def)
  hence "ownership ?s" using i framed_own by (auto simp: muxinv_def)
  moreover have "resok ?s" using i a by (auto simp: muxinv_def resok_def mountres_def answers_def split: if_splits)
  ultimately have "muxinv ?s"
    using i by (simp add: muxinv_def queueok_def stage_def readok_def sleepok_def replyok_def cong: mpc.case_cong)
  thus ?thesis by (rule shrink_inv[where rs = "[]"]) (use p d in \<open>simp_all add: pc_tests stage_def\<close>)
qed

lemmas step_tests = pc_tests stage_def

lemma stageD: "muxinv s \<Longrightarrow> stage s (pc s p)"
  by (simp add: muxinv_def)

lemma err_inv:
  assumes i: "muxinv s" and p: "pc s p = MErr intr rs"
  shows "muxinv (goto p (if intr then MFlush rs else MFree True rs) (if rip s = Some p then mntgate s else s))"
proof (cases "rip s = Some p")
  case True
  show ?thesis unfolding if_P[OF True] by (rule gate_inv[OF i]) (use p True in \<open>auto simp: step_tests split: if_splits\<close>)
next
  case False
  show ?thesis unfolding if_not_P[OF False] by (rule move_inv[OF i]) (use p False in \<open>auto simp: step_tests split: if_splits\<close>)
qed

lemma muxinv_step: "mntstep io False s t \<Longrightarrow> muxinv s \<Longrightarrow> muxinv t"
proof (induction rule: mntstep.induct)
  case (start s p x r t ty body)
  thus ?case by (intro start_inv)
next
  case (enqueue s p r rs)
  thus ?case by (intro enqueue_inv)
next
  case (send s p r rs)
  have "muxinv (goto p (MGate (r # rs)) s)" using send by (intro plain_inv) (simp_all add: step_tests)
  moreover have "goto p (MGate (r # rs)) (s\<lparr>wire := w\<rparr>) = (goto p (MGate (r # rs)) s)\<lparr>wire := w\<rparr>" for w by (simp add: goto_def)
  ultimately show ?case by (simp add: wire_inv)
next
  case (send_fail s p rs)
  have "rip s \<noteq> Some p" using rip_not[of s p] send_fail by (simp add: step_tests)
  thus ?case using send_fail by (intro move_inv) (simp_all add: step_tests)
next
  case (send_intr s p rs)
  have "rip s \<noteq> Some p" using rip_not[of s p] send_intr by (simp add: step_tests)
  thus ?case using send_intr by (intro move_inv) (simp_all add: step_tests)
next
  case (gate_open s p rs)
  thus ?case by (intro rip_inv) (simp_all add: step_tests)
next
  case (gate_shut s p rs)
  thus ?case by (intro plain_inv) (simp_all add: step_tests)
next
  case (nosleep s p r rs)
  thus ?case by (intro plain_inv) (simp_all add: step_tests)
next
  case (asleep s p r rs)
  thus ?case by (intro rz_inv) (simp_all add: step_tests)
next
  case (sleep_intr s p r rs)
  thus ?case by (intro rz_inv) (simp_all add: step_tests)
next
  case (woken_intr s p rs)
  have "rip s \<noteq> Some p" using rip_not[of s p] woken_intr by (simp add: step_tests)
  thus ?case using woken_intr by (intro move_inv) (simp_all add: step_tests)
next
  case (woken_done s p r rs)
  thus ?case by (intro plain_inv) (simp_all add: step_tests)
next
  case (woken_again s p r rs)
  thus ?case by (intro plain_inv) (simp_all add: step_tests)
next
  case (read_done s p r rs)
  thus ?case using rip_is[of s p] by (intro move_inv) (simp_all add: step_tests)
next
  case (read_msg s p r rs m)
  let ?s = "updrpc r (\<lambda>q. q\<lparr>reply := m\<rparr>) (s\<lparr>got := m # got s\<rparr>)"
  have o: "pc s q \<noteq> MMux (r # l)" "pc s q \<noteq> MUnq b (r # l)" for q l b using ownD[OF read_msg(3), of r p q] read_msg(1) by auto
  have "muxinv ?s" by (rule reply_inv[OF got_inv[OF read_msg(3)]]) (use read_msg(2) o in simp_all)
  thus ?case by (rule move_inv) (use read_msg rip_is[of s p] in \<open>simp_all add: step_tests\<close>)
next
  case (read_fail s p r rs intr)
  let ?s = "updrpc r (\<lambda>q. q\<lparr>reply := (reply q)\<lparr>ftype := 0, ftag := 0\<rparr>\<rparr>) s"
  have e: "?s = updrpc r (\<lambda>q. q\<lparr>reply := (reply (rpc s r))\<lparr>ftype := 0, ftag := 0\<rparr>\<rparr>) s" by (simp add: updrpc_def)
  have o: "pc s q \<noteq> MMux (r # l)" "pc s q \<noteq> MUnq b (r # l)" for q l b using ownD[OF read_fail(3), of r p q] read_fail(1) by auto
  have "muxinv ?s" unfolding e by (rule reply_inv[OF read_fail(3)]) (use read_fail(2) o in simp_all)
  thus ?case by (rule move_inv) (use read_fail in \<open>simp_all add: step_tests\<close>)
next
  case (mux s p r rs)
  thus ?case by (intro mux_inv)
next
  case (gateout s p rs)
  thus ?case using rip_is[of s p] by (intro gate_inv) (simp_all add: step_tests)
next
  case (err s p intr rs)
  thus ?case by (intro err_inv)
next
  case (flush s p r rs x fr t)
  thus ?case by (intro flush_inv)
next
  case (flush_fail s p r rs)
  thus ?case by simp
next
  case (free_done s p raise r rs)
  thus ?case by (intro plain_inv) (simp_all add: step_tests)
next
  case (free_undone s p raise r rs)
  thus ?case by (intro plain_inv) (simp_all add: step_tests)
next
  case (setfl s p raise r rs)
  let ?s = "updrpc r (\<lambda>q. q\<lparr>reply := (reply q)\<lparr>ftype := Rflush\<rparr>\<rparr>) s"
  have e: "?s = updrpc r (\<lambda>q. q\<lparr>reply := (reply (rpc s r))\<lparr>ftype := Rflush\<rparr>\<rparr>) s" by (simp add: updrpc_def)
  have o: "pc s q \<noteq> MMux (r # l)" "pc s q \<noteq> MUnq b (r # l)" for q l b using ownD[OF setfl(2), of r p q] setfl(1) by auto
  have "muxinv ?s" unfolding e by (rule reply_inv[OF setfl(2)]) (use o in simp_all)
  thus ?case by (rule plain_inv) (use setfl in \<open>simp_all add: step_tests\<close>)
next
  case (unq s p raise r rs)
  thus ?case by (intro unq_inv)
next
  case (free_next s p raise r rs)
  thus ?case using stageD[of s p] by (intro shrink_inv[where rs = rs]) (simp_all add: step_tests)
next
  case (last_free s p raise r)
  thus ?case using stageD[of s p] by (intro plain_inv) (simp_all add: step_tests)
next
  case (finish s p raise r)
  thus ?case by (intro finish_inv)
qed

section \<open>Nobody sleeps while nobody reads\<close>

definition dozeok :: "mntsys \<Rightarrow> bool" where
  "dozeok s \<longleftrightarrow> (\<forall>p r. sleepsat (pc s p) r \<longrightarrow> \<not> rdone (rpc s r))"

text \<open>A process that will try the gate.\<close>

definition inplay :: "mntsys \<Rightarrow> mpc \<Rightarrow> bool" where
  "inplay s k = (case k of MQueue rs \<Rightarrow> True | MWrite rs \<Rightarrow> True | MGate rs \<Rightarrow> True | MFlush rs \<Rightarrow> True | MErr intr rs \<Rightarrow> intr
     | MSleep rs \<Rightarrow> \<not> rdone (rpc s (hd rs)) | MWoken rs \<Rightarrow> \<not> rdone (rpc s (hd rs)) | _ \<Rightarrow> False)"

definition liveok :: "mntsys \<Rightarrow> bool" where
  "liveok s \<longleftrightarrow> (rip s = None \<and> (\<exists>p. isasleep (pc s p)) \<longrightarrow> (\<exists>p. inplay s (pc s p)))"

lemma doze_keep:
  assumes "dozeok s" "\<And>p r. sleepsat (pc t p) r \<Longrightarrow> sleepsat (pc s p) r \<and> rdone (rpc t r) = rdone (rpc s r)"
  shows "dozeok t"
  using assms by (auto simp: dozeok_def)

lemma sleepsat_wakerpc:
  assumes "sleepok s" "sleepsat (pc (wakerpc q s) p) r"
  shows "sleepsat (pc s p) r \<and> r \<noteq> q"
proof (cases rule: wakerpc_cases[of q s])
  case none
  moreover have "r \<noteq> q"
  proof
    assume "r = q"
    hence "rz (rpc s q) = Some p" "\<exists>rs. pc s p = MAsleep rs" using assms none(1) by (auto simp: sleepok_def sleepsat_def)
    thus False using none(2) by auto
  qed
  ultimately show ?thesis using assms(2) by simp
next
  case (woke p' rs)
  have "p \<noteq> p'" using assms(2) woke(3) by (auto simp: sleepsat_def)
  moreover have "sleepsat (pc s p) r" using assms(2) woke(3) calculation by simp
  moreover have "r \<noteq> q" using calculation assms(1) woke(1) unfolding sleepok_def by (metis option.inject)
  ultimately show ?thesis by simp
qed

lemma doze_mux:
  assumes i: "muxinv s" "dozeok s" and p: "pc s p = MMux (r # rs)"
  shows "dozeok (goto p (MRead (r # rs)) (mountmux r s))"
proof (cases rule: mountmux_cases[of r s])
  case lost
  thus ?thesis using i(2) by (auto simp: dozeok_def sleepsat_def)
next
  case (given q t)
  have so: "sleepok t" using i(1) by (auto simp: given(3) muxinv_def sleepok_def)
  show ?thesis
  proof (rule doze_keep[OF i(2)])
    fix p' y assume a: "sleepsat (pc (goto p (MRead (r # rs)) (mountmux r s)) p') y"
    hence n: "p' \<noteq> p" by (auto simp: sleepsat_def)
    have "sleepsat (pc s p') y \<and> y \<noteq> q"
    proof (cases "q = r")
      case True
      have "sleepsat (pc s p') y" using a n True given(3,4) by simp
      moreover have "y \<noteq> r" using ownD[OF i(1), of r p p'] p n calculation by (auto simp: sleepsat_def)
      ultimately show ?thesis using True by simp
    next
      case False
      thus ?thesis using a n given(4) sleepsat_wakerpc[OF so, of q p' y] by (simp add: given(3))
    qed
    thus "sleepsat (pc s p') y \<and> rdone (rpc (goto p (MRead (r # rs)) (mountmux r s)) y) = rdone (rpc s y)"
      using given(3,4) by simp
  qed
qed

lemma sleepsat_mntgate: "muxinv s \<Longrightarrow> sleepsat (pc (mntgate s) p) r \<Longrightarrow> sleepsat (pc s p) r"
proof (cases rule: mntgate_cases[of s])
  case (woke q)
  assume i: "muxinv s" and a: "sleepsat (pc (mntgate s) p) r"
  have "sleepok (s\<lparr>rip := None\<rparr>)" using i by (simp add: muxinv_def sleepok_def)
  from sleepsat_wakerpc[OF this] show ?thesis using a unfolding woke(4) by simp
qed simp

lemma sleepsat_simps [simp]: "sleepsat (MAsleep (r # rs)) y \<longleftrightarrow> y = r" "\<not> sleepsat MIdle y" "\<not> sleepsat (MQueue rs) y" "\<not> sleepsat (MWrite rs) y"
    "\<not> sleepsat (MGate rs) y" "\<not> sleepsat (MSleep rs) y" "\<not> sleepsat (MWoken rs) y" "\<not> sleepsat (MRead rs) y" "\<not> sleepsat (MMux rs) y"
    "\<not> sleepsat (MGateOut rs) y" "\<not> sleepsat (MErr e rs) y" "\<not> sleepsat (MFlush rs) y" "\<not> sleepsat (MFree b rs) y" "\<not> sleepsat (MSetfl b rs) y"
    "\<not> sleepsat (MUnq b rs) y" "\<not> sleepsat (MNext b rs) y" "\<not> sleepsat (MReturn b rs) y"
  by (auto simp: sleepsat_def)

lemma doze_alloc:
  assumes i: "muxinv s" "dozeok s" and x: "x \<notin> heap s" "mntralloc x s = Some (r, t)" and f: "\<And>q. rdone (f q) = rdone q"
  shows "dozeok (goto p (MQueue l) (updrpc r f t))"
proof (rule doze_keep[OF i(2)])
  fix p' y assume a: "sleepsat (pc (goto p (MQueue l) (updrpc r f t)) p') y"
  have o: "own s" "tagsok s" using i(1) by (simp_all add: muxinv_def ownership_def)
  note al = mntralloc_own[OF o x]
  have s: "sleepsat (pc s p') y" using a al by (auto split: if_splits)
  hence "y \<in> set (rlist (pc s p'))" by (auto simp: sleepsat_def)
  hence "y \<noteq> r" using al by auto
  thus "sleepsat (pc s p') y \<and> rdone (rpc (goto p (MQueue l) (updrpc r f t)) y) = rdone (rpc s y)" using s al by auto
qed

lemma doze_unq:
  assumes i: "muxinv s" "dozeok s" and p: "pc s p = MUnq raise (r # rs)"
  shows "dozeok (goto p (MNext raise (r # rs)) (mntqrm r s))"
proof (rule doze_keep[OF i(2)])
  fix p' y assume a: "sleepsat (pc (goto p (MNext raise (r # rs)) (mntqrm r s)) p') y"
  hence s: "p' \<noteq> p" "sleepsat (pc s p') y" by (auto simp: mntqrm_def split: if_splits)
  hence "y \<noteq> r" using ownD[OF i(1), of r p p'] p by (auto simp: sleepsat_def)
  thus "sleepsat (pc s p') y \<and> rdone (rpc (goto p (MNext raise (r # rs)) (mntqrm r s)) y) = rdone (rpc s y)"
    using s by (simp add: mntqrm_def)
qed

lemma doze_gate: "muxinv s \<Longrightarrow> dozeok s \<Longrightarrow> \<not> isasleep k \<Longrightarrow> dozeok (goto p k (mntgate s))"
  by (rule doze_keep[of s]) (auto simp: sleepsat_mntgate dest: isasleep_sleepsat split: if_splits)

lemma mntflushalloc_eq:
  assumes "mntflushalloc x r s = Some (fr, u)"
  obtains t f where "mntralloc x s = Some (fr, t)" "u = updrpc fr f t" "\<forall>q. rdone (f q) = rdone q"
  using assms by (fastforce simp: mntflushalloc_def Let_def split: option.splits)

lemma doze_step: "mntstep io False s t \<Longrightarrow> muxinv s \<Longrightarrow> dozeok s \<Longrightarrow> dozeok t"
proof (induction rule: mntstep.induct)
  case (start s p x r t ty body)
  thus ?case by (intro doze_alloc[of s]) simp_all
next
  case (flush s p r rs x fr t)
  from flush(3) obtain t' f where "mntralloc x s = Some (fr, t')" "t = updrpc fr f t'" "\<forall>q. rdone (f q) = rdone q" by (elim mntflushalloc_eq) blast
  thus ?case using flush by (auto intro: doze_alloc)
next
  case (asleep s p r rs)
  thus ?case by (auto simp: dozeok_def rpcattn_def split: if_splits)
next
  case (mux s p r rs)
  thus ?case by (intro doze_mux)
next
  case (unq s p raise r rs)
  thus ?case by (intro doze_unq)
next
  case (gateout s p rs)
  thus ?case by (intro doze_gate) (simp_all add: isasleep_def)
next
  case (err s p intr rs)
  have "dozeok (goto p k s)" if "\<not> isasleep k" for k
    using err(3) isasleep_sleepsat[OF that] by (auto simp: dozeok_def)
  thus ?case using err doze_gate[of s] by (auto simp: isasleep_def split: if_splits)
qed (rule doze_keep, assumption, auto split: if_splits)+

lemma live_rip: "rip t \<noteq> None \<Longrightarrow> liveok t"
  by (auto simp: liveok_def)

lemma live_in: "inplay t (pc t p) \<Longrightarrow> liveok t"
  by (auto simp: liveok_def)

lemma live_keep:
  assumes "liveok s" "rip t = rip s" "\<And>q. isasleep (pc t q) \<Longrightarrow> isasleep (pc s q)" "\<And>q. inplay s (pc s q) \<Longrightarrow> inplay t (pc t q)"
  shows "liveok t"
  using assms unfolding liveok_def by metis

text \<open>The reader that leaves wakes a process that waits, if one does.\<close>

lemma live_gate:
  assumes i: "muxinv s" "dozeok s" and p: "\<not> isasleep (pc s p)" "\<not> isasleep k"
  shows "liveok (goto p k (mntgate s))"
proof (cases rule: mntgate_cases[of s])
  case none
  have "\<not> isasleep (pc s q)" for q
  proof
    assume "isasleep (pc s q)"
    then obtain l where l: "pc s q = MAsleep l" by (auto simp: isasleep_def split: mpc.splits)
    have "l \<noteq> []" using i(1) l unfolding muxinv_def ownership_def own_def by (metis mpc.distinct(9) rlist.simps(6))
    then obtain r rs where r: "pc s q = MAsleep (r # rs)" using l by (cases l) auto
    hence sl: "sleepsat (pc s q) r" by simp
    have "rz (rpc s r) = Some q" using i(1) sl by (simp add: muxinv_def sleepok_def)
    moreover have "\<not> rdone (rpc s r)" using i(2) sl unfolding dozeok_def by blast
    moreover have "r \<in> set (queue s)"
    proof -
      have "r \<in> set (rlist (pc s q))" "\<not> newest (pc s q) r" using r by (auto simp: newest_def)
      thus ?thesis using i(1) calculation(2) unfolding muxinv_def queueok_def by blast
    qed
    ultimately show False using none(2) by auto
  qed
  thus ?thesis using p(2) none(1) by (simp add: liveok_def)
next
  case (woke q)
  obtain p' where z: "rz (rpc s q) = Some p'" using woke(3) by blast
  hence "sleepsat (pc s p') q" using i(1) by (simp add: muxinv_def sleepok_def)
  then obtain rs where rs: "pc s p' = MAsleep (q # rs)" by (auto simp: sleepsat_def)
  hence n: "p' \<noteq> p" using p(1) by (auto simp: isasleep_def)
  have "pc (goto p k (mntgate s)) p' = MWoken (q # rs)" unfolding woke(4) using n z rs by (simp add: wakerpc_def)
  hence "inplay (goto p k (mntgate s)) (pc (goto p k (mntgate s)) p')" using woke(2) by (simp add: inplay_def)
  thus ?thesis by (rule live_in)
qed

lemma inplay_cong:
  assumes "\<And>r. r \<in> set (rlist k) \<Longrightarrow> rdone (rpc t r) = rdone (rpc s r)" "k \<noteq> MIdle \<Longrightarrow> rlist k \<noteq> []"
  shows "inplay t k = inplay s k"
proof -
  have "rdone (rpc t (hd (rlist k))) = rdone (rpc s (hd (rlist k)))" if "k \<noteq> MIdle" using assms that by (simp add: hd_in_set)
  thus ?thesis by (cases k) (simp_all add: inplay_def)
qed

lemma inplay_simps [simp]: "inplay s (MQueue rs)" "inplay s (MWrite rs)" "inplay s (MGate rs)" "inplay s (MFlush rs)" "inplay s (MErr e rs) = e"
    "inplay s (MSleep (r # rs)) \<longleftrightarrow> \<not> rdone (rpc s r)" "inplay s (MWoken (r # rs)) \<longleftrightarrow> \<not> rdone (rpc s r)" "\<not> inplay s MIdle"
    "\<not> inplay s (MFree b rs)" "\<not> inplay s (MSetfl b rs)" "\<not> inplay s (MUnq b rs)" "\<not> inplay s (MNext b rs)" "\<not> inplay s (MReturn b rs)"
  by (simp_all add: inplay_def)

text \<open>A process that has no part in it moves.\<close>

lemma live_move:
  assumes l: "liveok s" and i: "muxinv s" and t: "rip t = rip s" "\<And>q. q \<noteq> p \<Longrightarrow> pc t q = pc s q"
    and d: "\<And>q r. q \<noteq> p \<Longrightarrow> r \<in> set (rlist (pc s q)) \<Longrightarrow> rdone (rpc t r) = rdone (rpc s r)"
    and k: "\<not> isasleep (pc t p)" "inplay s (pc s p) \<Longrightarrow> inplay t (pc t p)"
  shows "liveok t"
proof (rule live_keep[OF l t(1)])
  have o: "own s" using i by (simp add: muxinv_def ownership_def)
  show "isasleep (pc s q)" if "isasleep (pc t q)" for q using that k(1) t(2)[of q] by (cases "q = p") auto
  show "inplay t (pc t q)" if "inplay s (pc s q)" for q
  proof (cases "q = p")
    case False
    have "inplay t (pc s q) = inplay s (pc s q)" by (rule inplay_cong) (use d[OF False] o in \<open>auto simp: own_def\<close>)
    thus ?thesis using that t(2)[OF False] by simp
  qed (use that k(2) in simp)
qed

lemma live_step: "mntstep False False s t \<Longrightarrow> muxinv s \<Longrightarrow> dozeok s \<Longrightarrow> liveok s \<Longrightarrow> liveok t"
proof (induction rule: mntstep.induct)
  case (nosleep s p r rs)
  show ?case by (rule live_move[of s _ p]) (use nosleep in \<open>simp_all add: isasleep_def\<close>)
next
  case (woken_done s p r rs)
  show ?case by (rule live_move[of s _ p]) (use woken_done in \<open>simp_all add: isasleep_def\<close>)
next
  case (err s p intr rs)
  show ?case
  proof (cases "rip s = Some p")
    case True
    thus ?thesis using err by (simp add: live_gate isasleep_def)
  next
    case False
    show ?thesis by (rule live_move[of s _ p]) (use err False in \<open>simp_all add: isasleep_def\<close>)
  qed
next
  case (gateout s p rs)
  thus ?case by (intro live_gate) (simp_all add: isasleep_def)
next
  case (free_done s p raise r rs)
  show ?case by (rule live_move[of s _ p]) (use free_done in \<open>simp_all add: isasleep_def\<close>)
next
  case (free_undone s p raise r rs)
  show ?case by (rule live_move[of s _ p]) (use free_undone in \<open>simp_all add: isasleep_def\<close>)
next
  case (setfl s p raise r rs)
  show ?case by (rule live_move[of s _ p]) (use setfl in \<open>simp_all add: isasleep_def\<close>)
next
  case (unq s p raise r rs)
  have "x \<noteq> r" if "q \<noteq> p" "x \<in> set (rlist (pc s q))" for q x using ownD[OF unq(2), of r p q] unq(1) that by auto
  hence d: "rdone (rpc (mntqrm r s) x) = rdone (rpc s x)" if "q \<noteq> p" "x \<in> set (rlist (pc s q))" for q x using that by (simp add: mntqrm_def)
  show ?case by (rule live_move[of s _ p]) (use unq d in \<open>simp_all add: isasleep_def mntqrm_def\<close>)
next
  case (free_next s p raise r rs)
  show ?case by (rule live_move[of s _ p]) (use free_next in \<open>simp_all add: isasleep_def\<close>)
next
  case (last_free s p raise r)
  show ?case by (rule live_move[of s _ p]) (use last_free in \<open>simp_all add: isasleep_def\<close>)
next
  case (finish s p raise r)
  show ?case by (rule live_move[of s _ p]) (use finish in \<open>simp_all add: isasleep_def\<close>)
next
  case (asleep s p r rs)
  thus ?case by (intro live_rip) (simp add: rpcattn_def)
next
  case (mux s p r rs)
  thus ?case using rip_is[of s p] by (intro live_rip) (simp add: reading_def)
next
  case (read_msg s p r rs m)
  thus ?case using rip_is[of s p] by (intro live_rip) (simp add: reading_def)
next
  case (read_fail s p r rs intr)
  thus ?case using rip_is[of s p] by (intro live_rip) (simp add: reading_def)
next
  case (read_done s p r rs)
  thus ?case using rip_is[of s p] by (intro live_rip) (simp add: reading_def)
next
  case (gate_open s p rs)
  show ?case by (rule live_rip) simp
next
  case (gate_shut s p rs)
  thus ?case by (intro live_rip) simp
next
  case (start s p x r t ty body)
  show ?case by (rule live_in[of _ p]) simp
next
  case (flush s p r rs x fr t)
  show ?case by (rule live_in[of _ p]) simp
next
  case (enqueue s p r rs)
  show ?case by (rule live_in[of _ p]) simp
next
  case (send s p r rs)
  show ?case by (rule live_in[of _ p]) simp
next
  case (send_intr s p rs)
  show ?case by (rule live_in[of _ p]) simp
next
  case (sleep_intr s p r rs)
  show ?case by (rule live_in[of _ p]) simp
next
  case (woken_intr s p rs)
  show ?case by (rule live_in[of _ p]) simp
next
  case (woken_again s p r rs)
  show ?case by (rule live_in[of _ p]) simp
qed simp_all

end
