(* ===== verification/Mntmux_Runs.thy ===== *)
theory Mntmux_Runs
  imports Mntmux_Correct
begin

text \<open>
  The promises of the multiplexer of the mount driver over all runs, and runs that show where it breaks them: when a write to the
  channel fails, and when there is no memory for a flush. The runs are evaluated by an executable form of the steps.
\<close>

section \<open>The start and the promises\<close>

definition muxstart :: "mntsys \<Rightarrow> bool" where
  "muxstart s \<longleftrightarrow> (\<forall>p. pc s p = MIdle) \<and> (\<forall>r. rz (rpc s r) = None) \<and> heap s = {} \<and> rpcfree s = [] \<and> rip s = None \<and> queue s = []
     \<and> results s = []"

definition muxgoal :: "mntsys \<Rightarrow> bool" where
  "muxgoal s \<longleftrightarrow> (\<forall>(p, q, x) \<in> set (results s). \<forall>m. x = Replied m \<longrightarrow> ftag m = ftag q \<and> ftype m = ftype q + 1 \<and> m \<in> set (got s))
     \<and> inj_on (tagof s) (set (queue s)) \<and> (\<forall>p p'. reading (pc s p) \<and> reading (pc s p') \<longrightarrow> p = p')
     \<and> (\<forall>f \<in> set (queue s). ftype (request (rpc s f)) = Tflush
          \<longrightarrow> (\<exists>p. f \<in> set (rlist (pc s p)) \<and> foldtag (request (rpc s f)) = tagof s (last (rlist (pc s p)))))"

lemma muxstart_inv: "muxstart s \<Longrightarrow> muxinv s \<and> dozeok s \<and> liveok s"
  by (auto simp: muxstart_def muxinv_def ownership_def own_def tagsok_def namesok_def flushes_def queueok_def stage_def readok_def
      sleepok_def replyok_def resok_def dozeok_def liveok_def pc_tests)

lemma muxinv_goal:
  assumes i: "muxinv s"
  shows "muxgoal s"
proof -
  have q: "f \<in> heap s \<and> (\<exists>p. f \<in> set (rlist (pc s p)))" if "f \<in> set (queue s)" for f
    using that i unfolding muxinv_def queueok_def ownership_def own_def by blast
  have "inj_on (tagof s) (set (queue s))"
  proof (rule inj_on_subset)
    show "inj_on (tagof s) (heap s)" using i by (simp add: muxinv_def ownership_def tagsok_def)
  qed (use q in blast)
  moreover have "p = p'" if "reading (pc s p)" "reading (pc s p')" for p p' using rip_is[OF i] that by (metis option.inject)
  moreover have "\<exists>p. f \<in> set (rlist (pc s p)) \<and> foldtag (request (rpc s f)) = tagof s (last (rlist (pc s p)))"
    if f: "f \<in> set (queue s)" "ftype (request (rpc s f)) = Tflush" for f
  proof -
    obtain p where p: "f \<in> set (rlist (pc s p))" using q f(1) by blast
    hence l: "flushes s (rlist (pc s p))" "rlist (pc s p) \<noteq> []" using i by (auto simp: muxinv_def ownership_def namesok_def)
    hence "f \<noteq> last (rlist (pc s p))" using f(2) by (auto simp: flushes_def)
    hence "f \<in> set (butlast (rlist (pc s p)))" using p l(2) by (metis append_butlast_last_id in_set_conv_decomp_last set_ConsD set_append Un_iff empty_iff empty_set)
    thus ?thesis using l p by (auto simp: flushes_def)
  qed
  ultimately show ?thesis using i by (auto simp: muxgoal_def muxinv_def resok_def)
qed

interpretation mux: safety muxstart "mntstep io False" muxinv muxgoal for io
  by unfold_locales (auto simp: muxstart_inv intro: muxinv_step muxinv_goal)

interpretation muxlive: safety muxstart "mntstep False False" "\<lambda>s. muxinv s \<and> dozeok s \<and> liveok s" liveok
  by unfold_locales (auto simp: muxstart_inv intro: muxinv_step doze_step live_step)

section \<open>Steps that run\<close>

datatype mlab = Start nat nat "u8 list" | Go | Intr | Fail | Msg fcall | Alloc nat | Nomem

fun mexec :: "nat \<times> mlab \<Rightarrow> mntsys \<Rightarrow> mntsys option" where
  "mexec (p, a) s = (case (pc s p, a) of
     (MIdle, Start x ty body) \<Rightarrow>
       if x \<in> heap s \<or> ty = Tflush then None
       else (case mntralloc x s of
           None \<Rightarrow> None
         | Some (r, t) \<Rightarrow> Some (goto p (MQueue [r]) (updrpc r (\<lambda>q. q\<lparr>request := (request q)\<lparr>ftype := ty, fbody := body\<rparr>,
             reply := (reply q)\<lparr>ftag := 0, ftype := Tmax\<rparr>\<rparr>) t)))
   | (MQueue (r # rs), Go) \<Rightarrow> Some (goto p (MWrite (r # rs)) (s\<lparr>queue := r # queue s\<rparr>))
   | (MWrite (r # rs), Go) \<Rightarrow> Some (goto p (MGate (r # rs)) (s\<lparr>wire := request (rpc s r) # wire s\<rparr>))
   | (MWrite rs, Intr) \<Rightarrow> Some (goto p (MErr True rs) s)
   | (MWrite rs, Fail) \<Rightarrow> Some (goto p (MErr False rs) s)
   | (MGate rs, Go) \<Rightarrow> Some (if rip s = None then goto p (MRead rs) (s\<lparr>rip := Some p\<rparr>) else goto p (MSleep rs) s)
   | (MSleep (r # rs), Go) \<Rightarrow>
       Some (if rpcattn r s then goto p (MWoken (r # rs)) s else goto p (MAsleep (r # rs)) (updrpc r (\<lambda>q. q\<lparr>rz := Some p\<rparr>) s))
   | (MWoken rs, Intr) \<Rightarrow> Some (goto p (MErr True rs) s)
   | (MWoken (r # rs), Go) \<Rightarrow> Some (goto p (if rdone (rpc s r) then MFree False (r # rs) else MGate (r # rs)) s)
   | (MRead (r # rs), Go) \<Rightarrow> if rdone (rpc s r) then Some (goto p (MGateOut (r # rs)) s) else None
   | (MRead (r # rs), Msg m) \<Rightarrow>
       if rdone (rpc s r) then None else Some (goto p (MMux (r # rs)) (updrpc r (\<lambda>q. q\<lparr>reply := m\<rparr>) (s\<lparr>got := m # got s\<rparr>)))
   | (MMux (r # rs), Go) \<Rightarrow> Some (goto p (MRead (r # rs)) (mountmux r s))
   | (MGateOut rs, Go) \<Rightarrow> Some (goto p (MFree False rs) (mntgate s))
   | (MErr intr rs, Go) \<Rightarrow> Some (goto p (if intr then MFlush rs else MFree True rs) (if rip s = Some p then mntgate s else s))
   | (MFlush (r # rs), Alloc x) \<Rightarrow>
       if x \<in> heap s then None
       else (case mntflushalloc x r s of None \<Rightarrow> None | Some (fr, t) \<Rightarrow> Some (goto p (MQueue (fr # r # rs)) t))
   | (MFlush (r # rs), Nomem) \<Rightarrow> Some (goto p (MReturn True [last (r # rs)]) s)
   | (MFree raise (r # rs), Go) \<Rightarrow> Some (goto p (if rdone (rpc s r) then MNext raise (r # rs) else MSetfl raise (r # rs)) s)
   | (MSetfl raise (r # rs), Go) \<Rightarrow> Some (goto p (MUnq raise (r # rs)) (updrpc r (\<lambda>q. q\<lparr>reply := (reply q)\<lparr>ftype := Rflush\<rparr>\<rparr>) s))
   | (MUnq raise (r # rs), Go) \<Rightarrow> Some (goto p (MNext raise (r # rs)) (mntqrm r s))
   | (MNext raise (r # r' # rs), Go) \<Rightarrow> Some (goto p (MFree raise (r' # rs)) (mntfree r s))
   | (MNext raise [r], Go) \<Rightarrow> Some (goto p (MReturn raise [r]) s)
   | (MReturn raise [r], Go) \<Rightarrow>
       Some (goto p MIdle (mntfree r (s\<lparr>results := (p, request (rpc s r), mountres raise (rpc s r)) # results s\<rparr>)))
   | _ \<Rightarrow> None)"

fun mrun :: "(nat \<times> mlab) list \<Rightarrow> mntsys \<Rightarrow> mntsys option" where
  "mrun [] s = Some s"
| "mrun (a # as) s = (case mexec a s of None \<Rightarrow> None | Some t \<Rightarrow> mrun as t)"

lemma mexec_step:
  assumes "mexec (p, a) s = Some t" "a = Fail \<longrightarrow> io" "a = Nomem \<longrightarrow> nomem"
  shows "mntstep io nomem s t"
proof (cases "(\<exists>e rs. pc s p = MErr e rs) \<or> (\<exists>rs. pc s p = MFlush rs)")
  case True
  thus ?thesis using assms mntstep.err[of s p True] mntstep.err[of s p False] mntstep.flush_fail[of s p] mntstep.flush[of s p]
    by (auto split: mpc.splits mlab.splits list.splits option.splits if_splits)
next
  case False
  thus ?thesis using assms by (auto split: mpc.splits mlab.splits list.splits option.splits if_splits intro: mntstep.intros)
qed

lemma mrun_steps:
  "mrun as s = Some t \<Longrightarrow> Fail \<in> snd ` set as \<longrightarrow> io \<Longrightarrow> Nomem \<in> snd ` set as \<longrightarrow> nomem \<Longrightarrow> (mntstep io nomem)\<^sup>*\<^sup>* s t"
proof (induction as arbitrary: s)
  case (Cons a as)
  obtain u where u: "mexec a s = Some u" "mrun as u = Some t" using Cons.prems(1) by (auto split: option.splits)
  have "mntstep io nomem s u" by (rule mexec_step[of "fst a" "snd a"]) (use u(1) Cons.prems(2,3) in auto)
  moreover have "(mntstep io nomem)\<^sup>*\<^sup>* u t" by (rule Cons.IH[OF u(2)]) (use Cons.prems(2,3) in auto)
  ultimately show ?case by (rule converse_rtranclp_into_rtranclp)
qed simp

definition mux_ex :: mntsys where
  "mux_ex = (let f = \<lparr>ftype = 0, ftag = 0, foldtag = 0, fbody = []\<rparr> in
     \<lparr>rpc = \<lambda>_. \<lparr>request = f, reply = f, rdone = False, rz = None\<rparr>, heap = {}, rpcfree = [], nrpcfree = 0, nrpcused = 0,
      tagmask = mntreset, rip = None, queue = [], pc = \<lambda>_. MIdle, wire = [], got = [], results = []\<rparr>)"

lemma mux_ex_start: "muxstart mux_ex"
  by (simp add: muxstart_def mux_ex_def Let_def)

lemma mexec_rules:
  "pc s p = MIdle \<Longrightarrow> x \<notin> heap s \<Longrightarrow> ty \<noteq> Tflush \<Longrightarrow> mntralloc x s = Some (r, t) \<Longrightarrow> mexec (p, Start x ty body) s
    = Some (goto p (MQueue [r]) (updrpc r (\<lambda>q. q\<lparr>request := (request q)\<lparr>ftype := ty, fbody := body\<rparr>, reply := (reply q)\<lparr>ftag := 0, ftype := Tmax\<rparr>\<rparr>) t))"
  "pc s p = MQueue (r # rs) \<Longrightarrow> mexec (p, Go) s = Some (goto p (MWrite (r # rs)) (s\<lparr>queue := r # queue s\<rparr>))"
  "pc s p = MWrite (r # rs) \<Longrightarrow> mexec (p, Go) s = Some (goto p (MGate (r # rs)) (s\<lparr>wire := request (rpc s r) # wire s\<rparr>))"
  "pc s p = MWrite (r # rs) \<Longrightarrow> mexec (p, Intr) s = Some (goto p (MErr True (r # rs)) s)"
  "pc s p = MWrite (r # rs) \<Longrightarrow> mexec (p, Fail) s = Some (goto p (MErr False (r # rs)) s)"
  "pc s p = MGate rs \<Longrightarrow> rip s = None \<Longrightarrow> mexec (p, Go) s = Some (goto p (MRead rs) (s\<lparr>rip := Some p\<rparr>))"
  "pc s p = MGate rs \<Longrightarrow> rip s = Some q \<Longrightarrow> mexec (p, Go) s = Some (goto p (MSleep rs) s)"
  "pc s p = MSleep (r # rs) \<Longrightarrow> \<not> rpcattn r s \<Longrightarrow> mexec (p, Go) s = Some (goto p (MAsleep (r # rs)) (updrpc r (\<lambda>q. q\<lparr>rz := Some p\<rparr>) s))"
  "pc s p = MWoken (r # rs) \<Longrightarrow> mexec (p, Intr) s = Some (goto p (MErr True (r # rs)) s)"
  "pc s p = MRead (r # rs) \<Longrightarrow> rdone (rpc s r) \<Longrightarrow> mexec (p, Go) s = Some (goto p (MGateOut (r # rs)) s)"
  "pc s p = MRead (r # rs) \<Longrightarrow> \<not> rdone (rpc s r) \<Longrightarrow> mexec (p, Msg m) s
    = Some (goto p (MMux (r # rs)) (updrpc r (\<lambda>q. q\<lparr>reply := m\<rparr>) (s\<lparr>got := m # got s\<rparr>)))"
  "pc s p = MMux (r # rs) \<Longrightarrow> mexec (p, Go) s = Some (goto p (MRead (r # rs)) (mountmux r s))"
  "pc s p = MGateOut rs \<Longrightarrow> mexec (p, Go) s = Some (goto p (MFree False rs) (mntgate s))"
  "pc s p = MErr intr rs \<Longrightarrow> mexec (p, Go) s = Some (goto p (if intr then MFlush rs else MFree True rs) (if rip s = Some p then mntgate s else s))"
  "pc s p = MFlush (r # rs) \<Longrightarrow> x \<notin> heap s \<Longrightarrow> mntflushalloc x r s = Some (fr, t) \<Longrightarrow> mexec (p, Alloc x) s = Some (goto p (MQueue (fr # r # rs)) t)"
  "pc s p = MFlush (r # rs) \<Longrightarrow> mexec (p, Nomem) s = Some (goto p (MReturn True [last (r # rs)]) s)"
  "pc s p = MFree raise (r # rs) \<Longrightarrow> mexec (p, Go) s = Some (goto p (if rdone (rpc s r) then MNext raise (r # rs) else MSetfl raise (r # rs)) s)"
  "pc s p = MSetfl raise (r # rs) \<Longrightarrow> mexec (p, Go) s = Some (goto p (MUnq raise (r # rs)) (updrpc r (\<lambda>q. q\<lparr>reply := (reply q)\<lparr>ftype := Rflush\<rparr>\<rparr>) s))"
  "pc s p = MUnq raise (r # rs) \<Longrightarrow> mexec (p, Go) s = Some (goto p (MNext raise (r # rs)) (mntqrm r s))"
  "pc s p = MNext raise (r # r' # rs) \<Longrightarrow> mexec (p, Go) s = Some (goto p (MFree raise (r' # rs)) (mntfree r s))"
  "pc s p = MNext raise [r] \<Longrightarrow> mexec (p, Go) s = Some (goto p (MReturn raise [r]) s)"
  "pc s p = MReturn raise [r] \<Longrightarrow> mexec (p, Go) s
    = Some (goto p MIdle (mntfree r (s\<lparr>results := (p, request (rpc s r), mountres raise (rpc s r)) # results s\<rparr>)))"
  by simp_all

lemmas mexec_bool = mexec_rules(14)[where intr = True] mexec_rules(14)[where intr = False]
  mexec_rules(17-22)[where raise = True] mexec_rules(17-22)[where raise = False]

declare mexec.simps [simp del]

text \<open>The first tags.\<close>

lemma alloctag_low:
  assumes "m 0 = w" "w \<noteq> - 1" "find (\<lambda>j. \<not> bit w j) [0..<32] = Some j"
  shows "alloctag m = Some (j, m(0 := w OR push_bit j 1))"
proof -
  have "0 < NMASK" by (simp add: nmask)
  hence "find (\<lambda>i. m i \<noteq> - 1) [0..<NMASK] = Some 0" using assms(1,2) by (subst upt_conv_Cons) simp_all
  thus ?thesis using assms(1,3) by (simp add: alloctag_def nmask(2))
qed

lemma first_tags:
  "m 0 = 1 \<Longrightarrow> alloctag m = Some (1, m(0 := 3))" "m 0 = 3 \<Longrightarrow> alloctag m = Some (2, m(0 := 7))"
  "m 0 = 7 \<Longrightarrow> alloctag m = Some (3, m(0 := 15))" "m 0 = 15 \<Longrightarrow> alloctag m = Some (4, m(0 := 31))"
  by (simp_all add: alloctag_low[of m 1 1] alloctag_low[of m 3 2] alloctag_low[of m 7 3] alloctag_low[of m 15 4] upt_conv_Cons bit_numeral_rec bit_1_iff)

lemmas run_defs = mux_ex_def Let_def mntralloc_def goto_def updrpc_def mountmux_def mntgate_def wakerpc_def mntqrm_def mntflushalloc_def mntfree_def
  rpcattn_def mountres_def first_tags Tflush_def Rflush_def Rerror_def Tmax_def mntreset_def mexec_rules mexec_bool

text \<open>Process 0 reads; processes 1 and 2 wait; the reply to 0 comes; 2 is woken.\<close>

definition waits :: "nat \<Rightarrow> nat \<Rightarrow> (nat \<times> mlab) list" where
  "waits p x = map (Pair p) [Start x 116 [], Go, Go, Go]"

definition acts3 :: "(nat \<times> mlab) list" where
  "acts3 = waits 0 10 @ waits 1 11 @ [(1, Go)] @ waits 2 12 @ [(2, Go), (0, Msg \<lparr>ftype = 117, ftag = 1, foldtag = 0, fbody = [42]\<rparr>),
     (0, Go), (0, Go), (0, Go), (0, Go), (0, Go), (0, Go)]"

lemma acts3_run: "\<exists>t. mrun acts3 mux_ex = Some t \<and> rip t = None \<and> pc t 0 = MIdle \<and> pc t 1 = MAsleep [11] \<and> pc t 2 = MWoken [12]
    \<and> results t = [(0, \<lparr>ftype = 116, ftag = 1, foldtag = 0, fbody = []\<rparr>, Replied \<lparr>ftype = 117, ftag = 1, foldtag = 0, fbody = [42]\<rparr>)]"
  by (simp add: acts3_def waits_def run_defs)

text \<open>A note comes for process 2, and its flush cannot be written.\<close>

definition acts4 :: "(nat \<times> mlab) list" where
  "acts4 = acts3 @ [(2, Intr), (2, Go), (2, Alloc 13), (2, Go), (2, Fail), (2, Go), (2, Go), (2, Go), (2, Go), (2, Go), (2, Go), (2, Go), (2, Go), (2, Go), (2, Go)]"

lemma acts4_run: "\<exists>t. mrun acts4 mux_ex = Some t \<and> rip t = None \<and> pc t 1 = MAsleep [11] \<and> rz (rpc t 11) = Some 1 \<and> queue t = [11] \<and> (\<forall>p. p \<noteq> 1 \<longrightarrow> pc t p = MIdle)"
  by (simp add: acts4_def acts3_def waits_def run_defs)

lemma nomem_run: "\<exists>t. mrun [(0, Start 10 116 []), (0, Go), (0, Intr), (0, Go), (0, Nomem), (0, Go)] mux_ex = Some t
    \<and> queue t = [10] \<and> rpcfree t = [10] \<and> (\<forall>p. pc t p = MIdle)"
  by (simp add: run_defs)

section \<open>Replies\<close>

text \<open>
  C5: every reply goes to the request it answers. Whatever the server sends, however the processes interleave and whenever notes, failed
  reads and failed writes come (memory for flush requests being there), \<open>mountrpc\<close> gives a process only a reply that was read from the channel, that has the tag of
  its request and the type that answers it; the requests that wait have different tags; no two processes read the channel at once; and
  a flush that waits names the request its process made first.\<close>

theorem mux_replies:
  assumes "muxstart s" "(mntstep io False)\<^sup>*\<^sup>* s t"
  shows "(\<forall>p q m. (p, q, Replied m) \<in> set (results t) \<longrightarrow> ftag m = ftag q \<and> ftype m = ftype q + 1 \<and> m \<in> set (got t))
    \<and> inj_on (\<lambda>r. ftag (request (rpc t r))) (set (queue t))
    \<and> (\<forall>p p'. reading (pc t p) \<and> reading (pc t p') \<longrightarrow> p = p')
    \<and> (\<forall>f \<in> set (queue t). ftype (request (rpc t f)) = Tflush
         \<longrightarrow> (\<exists>p. f \<in> set (rlist (pc t p)) \<and> foldtag (request (rpc t f)) = ftag (request (rpc t (last (rlist (pc t p)))))))"
proof -
  have e: "tagof t = (\<lambda>r. ftag (request (rpc t r)))" by (auto simp: tagof_def)
  have "muxgoal t" by (rule mux.reached_goal[OF assms])
  note g = this[unfolded muxgoal_def e]
  have "ftag m = ftag q \<and> ftype m = ftype q + 1 \<and> m \<in> set (got t)" if "(p, q, Replied m) \<in> set (results t)" for p q m
    using bspec[OF conjunct1[OF g] that] by simp
  thus ?thesis using conjunct2[OF g] by (intro conjI allI impI) simp_all
qed

theorem mux_replies_witness:
  "\<exists>t m. mrun acts3 mux_ex = Some t \<and> (0, \<lparr>ftype = 116, ftag = 1, foldtag = 0, fbody = []\<rparr>, Replied m) \<in> set (results t)
    \<and> ftag m = 1 \<and> m \<in> set (got t)"
proof -
  obtain t where t: "mrun acts3 mux_ex = Some t"
    "results t = [(0, \<lparr>ftype = 116, ftag = 1, foldtag = 0, fbody = []\<rparr>, Replied \<lparr>ftype = 117, ftag = 1, foldtag = 0, fbody = [42]\<rparr>)]"
    using acts3_run by blast
  have "(mntstep False False)\<^sup>*\<^sup>* mux_ex t" by (rule mrun_steps[OF t(1)]) (auto simp: acts3_def waits_def)
  from mux_replies[OF mux_ex_start this] t show ?thesis by auto
qed

section \<open>Sleepers\<close>

text \<open>
  C6: nobody is left asleep. As long as writes to the channel do not fail (but for notes) and there is memory for flushes, when a
  process sleeps at the gate, then some process reads the channel, or one that has not got its reply is on its way to the gate: it is about to
  queue or write a request, about to test the gate, woken, or about to flush after a note.\<close>

theorem mux_sleepers:
  assumes "muxstart s" "(mntstep False False)\<^sup>*\<^sup>* s t" "pc t p = MAsleep rs"
  shows "(\<exists>q. rip t = Some q \<and> (reading (pc t q) \<or> (\<exists>e l. pc t q = MErr e l))) \<or> (\<exists>q. inplay t (pc t q))"
proof (cases "rip t")
  case None
  have "liveok t" by (rule muxlive.reached_goal[OF assms(1,2)])
  moreover have "isasleep (pc t p)" by (simp add: assms(3) isasleep_def)
  ultimately show ?thesis using None by (auto simp: liveok_def)
next
  case (Some q)
  have "muxinv t" by (rule mux.reached_inv[OF assms(1,2)])
  hence "reading (pc t q) \<or> inerr (pc t q)" using Some by (simp add: muxinv_def readok_def)
  thus ?thesis using Some by (auto simp: inerr_def split: mpc.splits)
qed

theorem mux_sleepers_witness:
  "\<exists>t. mrun acts3 mux_ex = Some t \<and> rip t = None \<and> pc t 1 = MAsleep [11] \<and> (\<exists>q. inplay t (pc t q))"
proof -
  obtain t where t: "mrun acts3 mux_ex = Some t" "rip t = None" "pc t 1 = MAsleep [11]" using acts3_run by blast
  have "(mntstep False False)\<^sup>*\<^sup>* mux_ex t" by (rule mrun_steps[OF t(1)]) (auto simp: acts3_def waits_def)
  from mux_sleepers[OF mux_ex_start this t(3)] t show ?thesis by auto
qed

text \<open>
  C25: a failed write can leave a process asleep for good. The reader that leaves wakes one process; if that one has a note pending and cannot
  write its flush, it leaves without having passed the gate and without waking another. Then nobody reads, all others are gone, and
  the last one sleeps, its request in the queue.\<close>

theorem mux_write_failure:
  "\<exists>s t. muxstart s \<and> (mntstep True False)\<^sup>*\<^sup>* s t \<and> rip t = None \<and> pc t = (\<lambda>_. MIdle)(1 := MAsleep [11])
    \<and> queue t = [11] \<and> \<not> rdone (rpc t 11)"
proof -
  obtain t where t: "mrun acts4 mux_ex = Some t" "rip t = None" "pc t 1 = MAsleep [11]" "queue t = [11]" "\<forall>p. p \<noteq> 1 \<longrightarrow> pc t p = MIdle"
    using acts4_run by blast
  have r: "(mntstep True False)\<^sup>*\<^sup>* mux_ex t" by (rule mrun_steps[OF t(1)]) (auto simp: acts4_def acts3_def waits_def)
  have "muxinv t" by (rule mux.reached_inv[OF mux_ex_start r])
  hence "\<not> rdone (rpc t 11)" using t(4) by (simp add: muxinv_def queueok_def)
  moreover have "pc t = (\<lambda>_. MIdle)(1 := MAsleep [11])" using t(3,5) by (auto simp: fun_eq_iff)
  ultimately show ?thesis using t r mux_ex_start by blast
qed

text \<open>Without memory for a flush, the request is freed while it is still in the queue.\<close>

lemma flush_nomem_dangles: "\<exists>s t. muxstart s \<and> (mntstep False True)\<^sup>*\<^sup>* s t \<and> 10 \<in> set (queue t) \<and> 10 \<in> set (rpcfree t)"
proof -
  obtain t where t: "mrun [(0, Start 10 116 []), (0, Go), (0, Intr), (0, Go), (0, Nomem), (0, Go)] mux_ex = Some t" "queue t = [10]" "rpcfree t = [10]"
    using nomem_run by blast
  have "(mntstep False True)\<^sup>*\<^sup>* mux_ex t" by (rule mrun_steps[OF t(1)]) auto
  thus ?thesis using t mux_ex_start by (metis list.set_intros(1))
qed

end
