(* ===== verification/Sched.thy ===== *)
theory Sched
  imports Plan9_Prelude "HOL-Library.Signed_Division"
begin

unbundle bit_operations_syntax

text \<open>
  The scheduler (\<open>src/port/proc.c\<close>): the run queues of each scheduler \<open>run[i]\<close>, the priorities, and
  how processors take processes from the queues and give them back.

  A process and a processor are numbers. The run queues are the pointers \<open>head\<close>, \<open>tail\<close> and \<open>rnext\<close>
  of the code; that they are lists is an invariant. Real-time processes (\<open>edf.c\<close>) are not modelled:
  \<open>p->edf\<close> is \<open>nil\<close> for every process, so that \<open>edfready\<close>, \<open>edflock\<close> and \<open>edfrecord\<close> do nothing.
  Statistics are left out.
\<close>

section \<open>State\<close>

definition Npriq :: nat where "Npriq = 20"
definition Nrq :: nat where "Nrq = Npriq + 2"
definition Nsched :: nat where "Nsched = 16"
definition Scaling :: int where "Scaling = 2"
definition Shortburst :: int where "Shortburst = HZ"

datatype procstate = Dead | Moribund | Ready | Scheding | Running | Queueing | QueueingR | QueueingW
  | Wakeme | Broken | Stopped | Rendezvous | Waitrelease | Semdown

record sproc =
  pstate :: procstate
  rnext :: "nat option"
  pmach :: "nat option"     \<comment> \<open>\<open>p->mach\<close>: the processor it runs on\<close>
  mp :: "nat option"        \<comment> \<open>the processor it last ran on\<close>
  wired :: "nat option"
  priority :: nat
  basepri :: nat
  fixedpri :: bool
  cpu :: int                \<comment> \<open>an unsigned field, here as the \<open>int\<close> it is read as\<close>
  lastupdate :: int
  readytime :: "64 word"
  delaysched :: nat
  nlocks :: nat

record schedq =
  rhead :: "nat option"
  rtail :: "nat option"
  rn :: int

record sched =
  nrdy :: int
  balancetime :: "32 word"
  runq :: "nat \<Rightarrow> schedq"
  runvec :: "32 word"

text \<open>
  \<open>mup\<close> is \<open>up\<close> on the processor. \<open>color\<close> is what \<open>machcolor\<close> returns for it, which is machine
  dependent.
\<close>

record smach =
  msch :: "nat option"
  color :: int
  mproc :: "nat option"
  mup :: "nat option"
  readied :: "nat option"
  mticks :: "32 word"
  schedticks :: "32 word"
  mload :: int

record schedsys =
  proc :: "nat \<Rightarrow> sproc"
  run :: "nat \<Rightarrow> sched"
  mach :: "nat \<Rightarrow> smach"
  systicks :: "32 word"
  nmach :: "32 word"

definition updp :: "nat \<Rightarrow> (sproc \<Rightarrow> sproc) \<Rightarrow> schedsys \<Rightarrow> schedsys" where
  "updp p f s = s\<lparr>proc := (proc s)(p := f (proc s p))\<rparr>"

definition updm :: "nat \<Rightarrow> (smach \<Rightarrow> smach) \<Rightarrow> schedsys \<Rightarrow> schedsys" where
  "updm m f s = s\<lparr>mach := (mach s)(m := f (mach s m))\<rparr>"

definition updsch :: "nat \<Rightarrow> (sched \<Rightarrow> sched) \<Rightarrow> schedsys \<Rightarrow> schedsys" where
  "updsch k f s = s\<lparr>run := (run s)(k := f (run s k))\<rparr>"

definition procsaved :: "sproc \<Rightarrow> bool" where
  "procsaved p \<longleftrightarrow> pmach p = None"

section \<open>Which scheduler\<close>

definition setmachsched :: "nat \<Rightarrow> schedsys \<Rightarrow> schedsys" where
  "setmachsched m s =
    (let c = color (mach s m); c = (if c < 0 then 0 else c)
     in updm m (\<lambda>x. x\<lparr>msch := Some (nat c mod Nsched)\<rparr>) s)"

definition procsched :: "nat \<Rightarrow> nat \<Rightarrow> schedsys \<Rightarrow> nat \<times> schedsys" where
  "procsched m p s =
    (let pm = (case mp (proc s p) of None \<Rightarrow> m | Some pm \<Rightarrow> pm);
         s = (if msch (mach s pm) = None then setmachsched pm s else s)
     in (the (msch (mach s pm)), s))"

section \<open>Priorities\<close>

text \<open>\<open>int\<close> arithmetic wraps (\<open>s32\<close>), and division truncates.\<close>

definition updatecpu :: "nat \<Rightarrow> nat \<Rightarrow> schedsys \<Rightarrow> schedsys" where
  "updatecpu m p s =
    (let t = s32 (uint (systicks s) * Scaling + Scaling div 2);
         n = s32 (t - lastupdate (proc s p));
         s = updp p (\<lambda>x. x\<lparr>lastupdate := t\<rparr>) s
     in if n = 0 \<or> msch (mach s m) = None then s
        else let D = Shortburst * Scaling; n = (if n > D then D else n); ocpu = cpu (proc s p) in
          if mup (mach s m) \<noteq> Some p
          then updp p (\<lambda>x. x\<lparr>cpu := s32 (ocpu * s32 (D - n)) sdiv D\<rparr>) s
          else let t = s32 (1000 - ocpu); t = s32 (t * s32 (D - n)) sdiv D
               in updp p (\<lambda>x. x\<lparr>cpu := s32 (1000 - t)\<rparr>) s)"

text \<open>\<open>sys->nmach\<close> is unsigned, so the first division is; \<open>p->basepri\<close> is, so the comparison with it is.\<close>

definition reprioritize :: "nat \<Rightarrow> schedsys \<Rightarrow> fault + nat" where
  "reprioritize p s =
    (let load = mload (mach s 0) in
     if load = 0 then Inr (basepri (proc s p))
     else let fairshare = sint (nmach s * 1000 * 1000 div word_of_int load);
              n = cpu (proc s p); n = (if n = 0 then 1 else n);
              ratio = s32 (fairshare + n sdiv 2) sdiv n;
              ratio = (if ratio mod 2 ^ 32 > int (basepri (proc s p)) then int (basepri (proc s p)) else ratio)
          in if ratio < 0 then Inl (Panic ''reprioritize'') else Inr (nat ratio))"

definition procpriority :: "nat \<Rightarrow> int \<Rightarrow> bool \<Rightarrow> schedsys \<Rightarrow> schedsys" where
  "procpriority p pri fixed s =
    (let pri = (if pri \<ge> int Npriq then int Npriq - 1 else if pri < 0 then 0 else pri)
     in updp p (\<lambda>x. x\<lparr>basepri := nat pri, priority := nat pri, fixedpri := fixed\<rparr>) s)"

text \<open>The decaying load average of processor 0, from \<open>nrdy\<close> and the number of ticks its scheduler was busy.\<close>

definition loadavg :: "int \<Rightarrow> int \<Rightarrow> 32 word \<Rightarrow> int" where
  "loadavg ld nready nrun =
    (let n = (word_of_int nready + ucast nrun) * 1000 :: 64 word
     in sint (ucast ((word_of_int (s32 (ld * (HZ - 1))) + n) div word_of_int HZ :: 64 word) :: 32 word))"

section \<open>Run queues\<close>

definition queueproc :: "nat \<Rightarrow> nat \<Rightarrow> nat \<Rightarrow> schedsys \<Rightarrow> schedsys" where
  "queueproc k pri p s =
    (let s = updp p (\<lambda>x. x\<lparr>priority := pri, rnext := None\<rparr>) s;
         rq = runq (run s k) pri;
         (rq, s) = (case rtail rq of
             Some t \<Rightarrow> (rq, updp t (\<lambda>x. x\<lparr>rnext := Some p\<rparr>) s)
           | None \<Rightarrow> (rq\<lparr>rhead := Some p\<rparr>, s));
         rq = rq\<lparr>rtail := Some p, rn := rn rq + 1\<rparr>
     in updsch k (\<lambda>x. x\<lparr>runq := (runq x)(pri := rq), nrdy := nrdy x + 1, runvec := runvec x OR push_bit pri 1\<rparr>) s)"

text \<open>The loop that finds \<open>tp\<close> again: the process found, if any, and the one before it.\<close>

definition refind :: "nat option \<Rightarrow> nat option \<Rightarrow> nat \<Rightarrow> (nat \<Rightarrow> nat option) \<Rightarrow> (nat option \<times> nat option) option" where
  "refind p l tp nx = seek p l (\<lambda>q. q = tp) nx"

text \<open>\<open>got\<close> is the result of \<open>canlock(sch)\<close>.\<close>

definition dequeueproc :: "bool \<Rightarrow> nat \<Rightarrow> nat \<Rightarrow> nat \<Rightarrow> schedsys \<Rightarrow> (nat option \<times> schedsys) option" where
  "dequeueproc got k i tp s =
    (if \<not> got then Some (None, s)
     else case refind (rhead (runq (run s k) i)) None tp (\<lambda>q. rnext (proc s q)) of
       None \<Rightarrow> None
     | Some (None, l) \<Rightarrow> Some (None, s)
     | Some (Some p, l) \<Rightarrow>
         if \<not> procsaved (proc s p) then Some (None, s)
         else let rq = runq (run s k) i;
                  nx = rnext (proc s p);
                  rq = (if nx = None then rq\<lparr>rtail := l\<rparr> else rq);
                  (rq, s) = (case l of
                      Some l \<Rightarrow> (rq, updp l (\<lambda>x. x\<lparr>rnext := nx\<rparr>) s)
                    | None \<Rightarrow> (rq\<lparr>rhead := nx\<rparr>, s));
                  rv = (if rhead rq = None then runvec (run s k) AND NOT (push_bit i 1) else runvec (run s k));
                  rq = rq\<lparr>rn := rn rq - 1\<rparr>
              in Some (Some p, updsch k (\<lambda>x. x\<lparr>runq := (runq x)(i := rq), nrdy := nrdy x - 1, runvec := rv\<rparr>) s))"

text \<open>\<open>now\<close> is the reading of \<open>fastticks\<close>.\<close>

definition schedready :: "nat \<Rightarrow> 64 word \<Rightarrow> nat \<Rightarrow> nat \<Rightarrow> schedsys \<Rightarrow> fault + schedsys" where
  "schedready m now k p s =
    (let s = (if mproc (mach s m) \<noteq> Some p \<and> (wired (proc s p) = None \<or> wired (proc s p) = Some m)
              then updm m (\<lambda>x. x\<lparr>readied := Some p\<rparr>) s else s);
         s = updatecpu m p s
     in case reprioritize p s of
          Inl f \<Rightarrow> Inl f
        | Inr pri \<Rightarrow> Inr (queueproc k pri p (updp p (\<lambda>x. x\<lparr>priority := pri, readytime := now, pstate := Ready\<rparr>) s)))"

definition readyp :: "nat \<Rightarrow> 64 word \<Rightarrow> nat \<Rightarrow> schedsys \<Rightarrow> fault + schedsys" where
  "readyp m now p s = (let (k, s) = procsched m p s in schedready m now k p s)"

section \<open>Picking a process\<close>

definition softaffinity :: "nat \<Rightarrow> sproc \<Rightarrow> bool" where
  "softaffinity m p \<longleftrightarrow> mp p = None \<or> mp p = Some m"

definition hardaffinity :: "nat \<Rightarrow> sproc \<Rightarrow> bool" where
  "hardaffinity m p \<longleftrightarrow> wired p = None \<or> wired p = Some m"

definition mayrun :: "nat \<Rightarrow> 64 word \<Rightarrow> 64 word \<Rightarrow> sproc \<Rightarrow> bool" where
  "mayrun m affdelay now p \<longleftrightarrow> softaffinity m p \<or> hardaffinity m p \<and> now - readytime p \<ge> affdelay"

text \<open>The cooperative choice at the start of \<open>runproc\<close>: the process this processor made ready last.\<close>

definition cooperative :: "nat \<Rightarrow> schedsys \<Rightarrow> (nat \<times> nat) option" where
  "cooperative m s =
    (case readied (mach s m) of
       None \<Rightarrow> None
     | Some p \<Rightarrow>
         if procsaved (proc s p) \<and> pstate (proc s p) = Ready
           \<and> runvec (run s (the (msch (mach s m)))) AND (push_bit (Nrq - 1) 1 OR push_bit (Nrq - 2) 1) = 0
           \<and> hardaffinity m (proc s p)
         then Some (priority (proc s p), p) else None)"

text \<open>The two loops of \<open>runproc\<close> that look for the highest priority process this processor can run.\<close>

partial_function (option) firstable :: "nat option \<Rightarrow> (nat \<Rightarrow> bool) \<Rightarrow> (nat \<Rightarrow> nat option) \<Rightarrow> nat option option" where
  "firstable p ok nx =
    (case p of
       None \<Rightarrow> Some None
     | Some q \<Rightarrow> if ok q then Some (Some q) else firstable (nx q) ok nx)"

declare firstable.simps [code]

fun searchrq :: "nat \<Rightarrow> 64 word \<Rightarrow> 64 word \<Rightarrow> nat \<Rightarrow> schedsys \<Rightarrow> nat \<Rightarrow> (nat \<times> nat) option option" where
  "searchrq m affdelay now k s 0 = Some None"
| "searchrq m affdelay now k s (Suc i) =
    (case firstable (rhead (runq (run s k) i)) (\<lambda>p. mayrun m affdelay now (proc s p)) (\<lambda>p. rnext (proc s p)) of
       None \<Rightarrow> None
     | Some (Some p) \<Rightarrow> Some (Some (i, p))
     | Some None \<Rightarrow> searchrq m affdelay now k s i)"

text \<open>From \<open>found\<close> to the end of \<open>runproc\<close>.\<close>

definition runtake :: "bool \<Rightarrow> nat \<Rightarrow> nat \<Rightarrow> nat \<Rightarrow> nat \<Rightarrow> schedsys \<Rightarrow> (nat option \<times> schedsys) option" where
  "runtake got m k i p s =
    (case dequeueproc got k i p s of
       Some (Some p, s) \<Rightarrow> Some (Some p, updp p (\<lambda>x. x\<lparr>pstate := Scheding, mp := Some m\<rparr>) s)
     | r \<Rightarrow> r)"

text \<open>The end of \<open>sched\<close>: processor \<open>m\<close> runs \<open>p\<close>.\<close>

definition schedto :: "nat \<Rightarrow> nat \<Rightarrow> schedsys \<Rightarrow> fault + schedsys" where
  "schedto m p s =
    (let s = updatecpu m p s in
     case reprioritize p s of
       Inl f \<Rightarrow> Inl f
     | Inr pri \<Rightarrow>
        let s = updp p (\<lambda>x. x\<lparr>priority := pri\<rparr>) s;
            s = (if readied (mach s m) \<noteq> Some p then updm m (\<lambda>x. x\<lparr>schedticks := mticks x + word_of_int (HZ div 10)\<rparr>) s else s);
            s = updm m (\<lambda>x. x\<lparr>readied := None, mup := Some p, mproc := Some p\<rparr>) s;
            s = updp p (\<lambda>x. x\<lparr>pstate := Running, pmach := Some m\<rparr>) s
        in if hardaffinity m (proc s p) then Inr s else Inl (Panic ''assert''))"

section \<open>Leaving the processor\<close>

text \<open>\<open>sched\<close> called by a process: put off while it holds locks.\<close>

definition delayed :: "sproc \<Rightarrow> bool" where
  "delayed p \<longleftrightarrow> nlocks p \<noteq> 0 \<and> pstate p \<noteq> Moribund"

text \<open>
  \<open>schedinit\<close>, where a process that leaves arrives, in the two parts another processor can tell
  apart: the switch on its state, and \<open>mach = nil\<close>.
\<close>

definition leave1 :: "nat \<Rightarrow> 64 word \<Rightarrow> nat \<Rightarrow> schedsys \<Rightarrow> fault + schedsys" where
  "leave1 m now u s =
    (let s = updm m (\<lambda>x. x\<lparr>mproc := None\<rparr>) (updp u (\<lambda>x. x\<lparr>delaysched := 0\<rparr>) s) in
     if pstate (proc s u) = Running then readyp m now u s
     else if pstate (proc s u) = Moribund then Inr (updp u (\<lambda>x. x\<lparr>pstate := Dead\<rparr>) s)
     else Inr s)"

definition leave2 :: "nat \<Rightarrow> nat \<Rightarrow> schedsys \<Rightarrow> schedsys" where
  "leave2 m u s = updm m (\<lambda>x. x\<lparr>mup := None\<rparr>) (updatecpu m u (updp u (\<lambda>x. x\<lparr>pmach := None\<rparr>) s))"

section \<open>Preemption\<close>

definition anyready :: "nat \<Rightarrow> schedsys \<Rightarrow> bool" where
  "anyready m s \<longleftrightarrow> runvec (run s (the (msch (mach s m)))) \<noteq> 0"

definition anyhigher :: "nat \<Rightarrow> nat \<Rightarrow> schedsys \<Rightarrow> bool" where
  "anyhigher m p s \<longleftrightarrow>
    runvec (run s (the (msch (mach s m)))) AND NOT (push_bit (priority (proc s p) + 1) 1 - 1) \<noteq> 0"

text \<open>\<open>hzsched\<close> behind its call of \<open>rebalance\<close>; \<open>p\<close> is \<open>m->proc\<close>.\<close>

definition hzsched :: "nat \<Rightarrow> nat \<Rightarrow> schedsys \<Rightarrow> schedsys" where
  "hzsched m p s =
    (if anyhigher m p s
        \<or> \<not> fixedpri (proc s p) \<and> sint (mticks (mach s m) - schedticks (mach s m)) \<ge> 0 \<and> anyready m s
     then updp p (\<lambda>x. x\<lparr>delaysched := delaysched x + 1\<rparr>) (updm m (\<lambda>x. x\<lparr>readied := None\<rparr>) s)
     else s)"

text \<open>\<open>yield\<close> before its call of \<open>sched\<close>; the result is whether it calls it.\<close>

definition yielding :: "nat \<Rightarrow> nat \<Rightarrow> schedsys \<Rightarrow> bool \<times> schedsys" where
  "yielding m u s =
    (if anyready m s then (True, updp u (\<lambda>x. x\<lparr>lastupdate := s32 (lastupdate x - Scaling div 2)\<rparr>) s) else (False, s))"

section \<open>Rebalancing\<close>

text \<open>
  One pass of the loop of \<open>rebalance\<close> at queue \<open>pri\<close>, up to \<open>dequeueproc\<close>: go on to the next queue,
  look at this one again, or put a process into another queue and look again.
\<close>

datatype rebal = Skip schedsys | Again schedsys | Move nat nat schedsys

definition rebalance1 :: "bool \<Rightarrow> nat \<Rightarrow> nat \<Rightarrow> nat \<Rightarrow> schedsys \<Rightarrow> (fault + rebal) option" where
  "rebalance1 got m k pri s =
    (case rhead (runq (run s k) pri) of
       None \<Rightarrow> Some (Inr (Skip s))
     | Some p \<Rightarrow>
        if mp (proc s p) \<noteq> Some m \<or> pri = basepri (proc s p) then Some (Inr (Skip s))
        else let s = updatecpu m p s in
          case reprioritize p s of
            Inl f \<Rightarrow> Some (Inl f)
          | Inr npri \<Rightarrow>
              if npri = pri then Some (Inr (Skip s))
              else case dequeueproc got k pri p s of
                None \<Rightarrow> None
              | Some (None, s) \<Rightarrow> Some (Inr (Again s))
              | Some (Some p, s) \<Rightarrow> Some (Inr (Move p npri s)))"

definition rebalance_due :: "nat \<Rightarrow> nat \<Rightarrow> schedsys \<Rightarrow> bool" where
  "rebalance_due m k s \<longleftrightarrow> mticks (mach s m) - balancetime (run s k) \<ge> word_of_int HZ"

section \<open>The system\<close>

text \<open>
  \<open>spc\<close> is where a processor is: at the start of \<open>runproc\<close>, in its loop, at \<open>found\<close> with a queue and a
  process, running \<open>up\<close>, or between the parts of \<open>schedinit\<close>. \<open>reb\<close> is the queue at which the processor
  rebalances, with the process it has taken out and the queue to put it into.
\<close>

datatype mpc = Start | Loop | Found nat nat | Run | Left

record ssys =
  st :: schedsys
  spc :: "nat \<Rightarrow> mpc"
  reb :: "nat \<Rightarrow> (nat \<times> (nat \<times> nat) option) option"

definition mysch :: "nat \<Rightarrow> ssys \<Rightarrow> nat" where
  "mysch m s = the (msch (mach (st s) m))"

text \<open>The states a process gives itself before it calls \<open>sched\<close> to wait.\<close>

definition blocked :: "procstate \<Rightarrow> bool" where
  "blocked x \<longleftrightarrow> x \<in> {Queueing, QueueingR, QueueingW, Wakeme, Broken, Stopped, Rendezvous, Waitrelease, Semdown}"

text \<open>
  \<open>ready\<close> is called for processes that wait and for new ones, as its callers do. The wiring \<open>wired\<close> of
  a process is fixed: \<open>procwired\<close>, which a write to a process's control file calls at any time, is not a step
  (it can wire a process elsewhere that a processor has just picked).
  A process made by \<open>newproc\<close> is in the state \<open>Scheding\<close> until it is made ready. The scan for a process runs beside changes of the queues; the rule \<open>search\<close> allows any
  process the processor may run, in any queue.
\<close>

inductive schedstep :: "64 word \<Rightarrow> nat \<Rightarrow> ssys \<Rightarrow> ssys \<Rightarrow> bool" for affdelay where
  coop: "spc s m = Start \<Longrightarrow> cooperative m (st s) = Some (i, p) \<Longrightarrow> schedstep affdelay m s (s\<lparr>spc := (spc s)(m := Found i p)\<rparr>)"
| nocoop: "spc s m = Start \<Longrightarrow> cooperative m (st s) = None \<Longrightarrow> schedstep affdelay m s (s\<lparr>spc := (spc s)(m := Loop)\<rparr>)"
| search: "spc s m = Loop \<Longrightarrow> mayrun m affdelay now (proc (st s) p) \<Longrightarrow> i < Nrq
    \<Longrightarrow> schedstep affdelay m s (s\<lparr>spc := (spc s)(m := Found i p)\<rparr>)"
| missed: "spc s m = Found i p \<Longrightarrow> runtake got m (mysch m s) i p (st s) = Some (None, t)
    \<Longrightarrow> schedstep affdelay m s (s\<lparr>st := t, spc := (spc s)(m := Loop)\<rparr>)"
| take_proc: "spc s m = Found i p \<Longrightarrow> runtake got m (mysch m s) i p (st s) = Some (Some q, t) \<Longrightarrow> schedto m q t = Inr t'
    \<Longrightarrow> schedstep affdelay m s (s\<lparr>st := t', spc := (spc s)(m := Run)\<rparr>)"
| block: "spc s m = Run \<Longrightarrow> mup (mach (st s) m) = Some u \<Longrightarrow> pstate (proc (st s) u) = Running \<Longrightarrow> blocked x \<or> x = Moribund
    \<Longrightarrow> schedstep affdelay m s (s\<lparr>st := updp u (\<lambda>p. p\<lparr>pstate := x\<rparr>) (st s)\<rparr>)"
| delay: "spc s m = Run \<Longrightarrow> mup (mach (st s) m) = Some u \<Longrightarrow> delayed (proc (st s) u)
    \<Longrightarrow> schedstep affdelay m s (s\<lparr>st := updp u (\<lambda>p. p\<lparr>delaysched := delaysched p + 1\<rparr>) (st s)\<rparr>)"
| leave1: "spc s m = Run \<Longrightarrow> mup (mach (st s) m) = Some u \<Longrightarrow> \<not> delayed (proc (st s) u) \<Longrightarrow> leave1 m now u (st s) = Inr t
    \<Longrightarrow> schedstep affdelay m s (s\<lparr>st := t, spc := (spc s)(m := Left)\<rparr>)"
| leave2: "spc s m = Left \<Longrightarrow> mup (mach (st s) m) = Some u
    \<Longrightarrow> schedstep affdelay m s (s\<lparr>st := leave2 m u (st s), spc := (spc s)(m := Start)\<rparr>)"
| wakeup: "blocked (pstate (proc (st s) p)) \<or> pstate (proc (st s) p) = Scheding \<Longrightarrow> readyp m now p (st s) = Inr t \<Longrightarrow> schedstep affdelay m s (s\<lparr>st := t\<rparr>)"
| hz: "mproc (mach (st s) m) = Some u \<Longrightarrow> schedstep affdelay m s (s\<lparr>st := hzsched m u (st s)\<rparr>)"
| yielding: "mup (mach (st s) m) = Some u \<Longrightarrow> schedstep affdelay m s (s\<lparr>st := snd (yielding m u (st s))\<rparr>)"
| setpri: "schedstep affdelay m s (s\<lparr>st := procpriority p pri fixed (st s)\<rparr>)"
| tick: "schedstep affdelay m s (s\<lparr>st := updm m (\<lambda>x. x\<lparr>mticks := mticks x + 1, mload := ld\<rparr>)
      (if m = 0 then (st s)\<lparr>systicks := systicks (st s) + 1\<rparr> else st s)\<rparr>)"
| reb_start: "reb s m = None \<Longrightarrow> rebalance_due m (mysch m s) (st s)
    \<Longrightarrow> schedstep affdelay m s (s\<lparr>st := updsch (mysch m s) (\<lambda>x. x\<lparr>balancetime := mticks (mach (st s) m)\<rparr>) (st s), reb := (reb s)(m := Some (0, None))\<rparr>)"
| reb_end: "reb s m = Some (Npriq, None) \<Longrightarrow> schedstep affdelay m s (s\<lparr>reb := (reb s)(m := None)\<rparr>)"
| reb_skip: "reb s m = Some (pri, None) \<Longrightarrow> pri < Npriq \<Longrightarrow> rebalance1 got m (mysch m s) pri (st s) = Some (Inr (Skip t))
    \<Longrightarrow> schedstep affdelay m s (s\<lparr>st := t, reb := (reb s)(m := Some (pri + 1, None))\<rparr>)"
| reb_again: "reb s m = Some (pri, None) \<Longrightarrow> pri < Npriq \<Longrightarrow> rebalance1 got m (mysch m s) pri (st s) = Some (Inr (Again t))
    \<Longrightarrow> schedstep affdelay m s (s\<lparr>st := t\<rparr>)"
| reb_move: "reb s m = Some (pri, None) \<Longrightarrow> pri < Npriq \<Longrightarrow> rebalance1 got m (mysch m s) pri (st s) = Some (Inr (Move p npri t))
    \<Longrightarrow> schedstep affdelay m s (s\<lparr>st := t, reb := (reb s)(m := Some (pri, Some (p, npri)))\<rparr>)"
| reb_put: "reb s m = Some (pri, Some (p, npri))
    \<Longrightarrow> schedstep affdelay m s (s\<lparr>st := queueproc (mysch m s) npri p (st s), reb := (reb s)(m := Some (pri, None))\<rparr>)"

definition schedany :: "64 word \<Rightarrow> ssys \<Rightarrow> ssys \<Rightarrow> bool" where
  "schedany affdelay s t \<longleftrightarrow> (\<exists>m. schedstep affdelay m s t)"

end
