(* ===== verification/Sched_Correct.thy ===== *)
theory Sched_Correct
  imports Sched
begin

unbundle bit_operations_syntax

text \<open>
  The scheduler: the run queues are lists, the bit vector and the counts agree with them, no
  ready process is lost and none runs on two processors; the search finds the process of
  highest priority; the cpu average and the priorities stay in their ranges.
\<close>

section \<open>What the routines leave alone\<close>

lemma updp_fields [simp]:
  "run (updp p f s) = run s" "mach (updp p f s) = mach s" "systicks (updp p f s) = systicks s" "nmach (updp p f s) = nmach s"
  "proc (updp p f s) q = (if q = p then f (proc s p) else proc s q)"
  by (simp_all add: updp_def)

lemma updm_fields [simp]:
  "run (updm m f s) = run s" "proc (updm m f s) = proc s" "systicks (updm m f s) = systicks s" "nmach (updm m f s) = nmach s"
  "mach (updm m f s) q = (if q = m then f (mach s m) else mach s q)"
  by (simp_all add: updm_def)

lemma updsch_fields [simp]:
  "mach (updsch k f s) = mach s" "proc (updsch k f s) = proc s" "systicks (updsch k f s) = systicks s" "nmach (updsch k f s) = nmach s"
  "run (updsch k f s) j = (if j = k then f (run s k) else run s j)"
  by (simp_all add: updsch_def)

lemma updatecpu_shape: "\<exists>a b. updatecpu m p s = updp p (\<lambda>x. x\<lparr>lastupdate := a, cpu := b\<rparr>) s"
proof -
  have *: "updp p f (updp p g s) = updp p (\<lambda>x. f (g x)) s" for f g by (simp add: updp_def)
  have **: "updp p (\<lambda>x. x\<lparr>lastupdate := t\<rparr>) s = updp p (\<lambda>x. x\<lparr>lastupdate := t, cpu := cpu (proc s p)\<rparr>) s" for t
    by (simp add: updp_def)
  show ?thesis
    unfolding updatecpu_def Let_def
    by (auto simp: * simp del: updp_fields intro: ** split: if_splits)
qed

lemma updatecpu_fields [simp]:
  "run (updatecpu m p s) = run s" "mach (updatecpu m p s) = mach s" "nmach (updatecpu m p s) = nmach s"
  "systicks (updatecpu m p s) = systicks s"
  "rnext (proc (updatecpu m p s) q) = rnext (proc s q)" "pstate (proc (updatecpu m p s) q) = pstate (proc s q)"
  "pmach (proc (updatecpu m p s) q) = pmach (proc s q)" "mp (proc (updatecpu m p s) q) = mp (proc s q)"
  "wired (proc (updatecpu m p s) q) = wired (proc s q)" "basepri (proc (updatecpu m p s) q) = basepri (proc s q)"
  "priority (proc (updatecpu m p s) q) = priority (proc s q)"
  using updatecpu_shape[of m p s] by auto

text \<open>The comparison with the unsigned base priority catches negative ratios: the panic is not reached.\<close>

lemma sdiv_abs_le: "\<bar>x sdiv y\<bar> \<le> \<bar>x :: int\<bar>"
proof -
  have "\<bar>x\<bar> div \<bar>y\<bar> \<le> \<bar>x\<bar>" using zdiv_mono2[of "\<bar>x\<bar>" 1 "\<bar>y\<bar>"] by (cases "y = 0") simp_all
  moreover have "\<bar>sgn (x * y)\<bar> * (\<bar>x\<bar> div \<bar>y\<bar>) \<le> \<bar>x\<bar> div \<bar>y\<bar>"
    by (simp add: abs_sgn_eq div_int_pos_iff)
  moreover have "\<bar>x sdiv y\<bar> = \<bar>sgn (x * y)\<bar> * (\<bar>x\<bar> div \<bar>y\<bar>)"
    unfolding signed_divide_int_def abs_mult by (simp add: div_int_pos_iff)
  ultimately show ?thesis by linarith
qed

lemma reprioritize_total:
  assumes "basepri (proc s p) < 2 ^ 31"
  shows "\<exists>n. reprioritize p s = Inr n \<and> n \<le> basepri (proc s p)"
proof -
  let ?b = "int (basepri (proc s p))"
  have neg: "?b < r mod 2 ^ 32" if "r < 0" "- (2 ^ 31) \<le> r" for r
  proof -
    have "r mod 2 ^ 32 = r + 2 ^ 32" using that mod_pos_pos_trivial[of "r + 2 ^ 32" "2 ^ 32"] mod_add_self2[of r "2 ^ 32"] by simp
    then show ?thesis using that assms by simp
  qed
  have big: "- (2 ^ 31) \<le> s32 x sdiv y \<and> s32 x sdiv y \<le> 2 ^ 31" for x y
    using sdiv_abs_le[of "s32 x" y] s32_ge[of x] s32_less[of x] by linarith
  define r where "r = (let n = cpu (proc s p); n = (if n = 0 then 1 else n) in
    s32 (sint (nmach s * 1000 * 1000 div word_of_int (mload (mach s 0))) + n sdiv 2) sdiv n)"
  have rb: "- (2 ^ 31) \<le> r" "r \<le> 2 ^ 31" using big by (simp_all add: r_def Let_def)
  have R: "reprioritize p s = (if mload (mach s 0) = 0 then Inr (basepri (proc s p))
      else let ratio = (if r mod 2 ^ 32 > ?b then ?b else r) in if ratio < 0 then Inl (Panic ''reprioritize'') else Inr (nat ratio))"
    by (simp add: reprioritize_def r_def Let_def)
  show ?thesis
  proof (cases "r mod 2 ^ 32 > ?b")
    case True
    then show ?thesis by (simp add: R)
  next
    case False
    then have "0 \<le> r" using neg rb(1) by (cases "r < 0") auto
    moreover from this have "r mod 2 ^ 32 = r" using rb(2) by simp
    ultimately show ?thesis using False by (simp add: R nat_le_iff)
  qed
qed

lemma reprioritize_le: "reprioritize p s = Inr n \<Longrightarrow> basepri (proc s p) < 2 ^ 31 \<Longrightarrow> n \<le> basepri (proc s p)"
  using reprioritize_total[of s p] by auto

lemma queueproc_fields [simp]:
  "mach (queueproc k pri p s) = mach s"
  "pstate (proc (queueproc k pri p s) q) = pstate (proc s q)"
  "pmach (proc (queueproc k pri p s) q) = pmach (proc s q)" "mp (proc (queueproc k pri p s) q) = mp (proc s q)"
  "wired (proc (queueproc k pri p s) q) = wired (proc s q)" "basepri (proc (queueproc k pri p s) q) = basepri (proc s q)"
  "priority (proc (queueproc k pri p s) q) = (if q = p then pri else priority (proc s q))"
  by (auto simp: queueproc_def Let_def split: option.splits)

lemma dequeueproc_fields:
  assumes "dequeueproc got k i tp s = Some (r, t)"
  shows "mach t = mach s" "pstate (proc t q) = pstate (proc s q)" "pmach (proc t q) = pmach (proc s q)"
    "mp (proc t q) = mp (proc s q)" "wired (proc t q) = wired (proc s q)" "basepri (proc t q) = basepri (proc s q)"
    "priority (proc t q) = priority (proc s q)"
  using assms by (auto simp: dequeueproc_def Let_def split: option.splits if_splits)

section \<open>The run queues as lists\<close>

text \<open>\<open>Q k i\<close> is the list of the processes in queue \<open>i\<close> of scheduler \<open>k\<close>.\<close>

definition nextp :: "schedsys \<Rightarrow> nat \<Rightarrow> nat option" where
  "nextp s q = rnext (proc s q)"

definition qrep :: "schedsys \<Rightarrow> nat \<Rightarrow> nat \<Rightarrow> nat list \<Rightarrow> bool" where
  "qrep s k i xs \<longleftrightarrow> (let rq = runq (run s k) i in
     chain (nextp s) (rhead rq) xs \<and> distinct xs \<and> rtail rq = (if xs = [] then None else Some (last xs))
     \<and> rn rq = int (length xs))"

definition schedrep :: "schedsys \<Rightarrow> (nat \<Rightarrow> nat \<Rightarrow> nat list) \<Rightarrow> bool" where
  "schedrep s Q \<longleftrightarrow> (\<forall>k i. qrep s k i (Q k i)) \<and> (\<forall>k i. Nrq \<le> i \<longrightarrow> Q k i = [])
    \<and> (\<forall>k i. bit (runvec (run s k)) i \<longleftrightarrow> Q k i \<noteq> []) \<and> (\<forall>k. nrdy (run s k) = (\<Sum>i<Nrq. int (length (Q k i))))
    \<and> (\<forall>k i k' i' p. p \<in> set (Q k i) \<longrightarrow> p \<in> set (Q k' i') \<longrightarrow> k = k' \<and> i = i')"

lemma schedrepD:
  assumes "schedrep s Q"
  shows "qrep s k i (Q k i)" "Nrq \<le> i \<Longrightarrow> Q k i = []" "bit (runvec (run s k)) i \<longleftrightarrow> Q k i \<noteq> []"
    "nrdy (run s k) = (\<Sum>i<Nrq. int (length (Q k i)))"
    "p \<in> set (Q k i) \<Longrightarrow> p \<in> set (Q k' i') \<Longrightarrow> k = k' \<and> i = i'"
  using assms unfolding schedrep_def by blast+

lemma qrepD:
  assumes "qrep s k i xs"
  shows "chain (nextp s) (rhead (runq (run s k) i)) xs" "distinct xs"
    "rtail (runq (run s k) i) = (if xs = [] then None else Some (last xs))" "rn (runq (run s k) i) = int (length xs)"
  using assms by (simp_all add: qrep_def Let_def)

lemma qrep_cong: "nextp t = nextp s \<Longrightarrow> runq (run t k) i = runq (run s k) i \<Longrightarrow> qrep t k i xs = qrep s k i xs"
  by (simp add: qrep_def)

lemma schedrep_cong:
  "nextp t = nextp s \<Longrightarrow> (\<And>k. runq (run t k) = runq (run s k) \<and> runvec (run t k) = runvec (run s k) \<and> nrdy (run t k) = nrdy (run s k))
    \<Longrightarrow> schedrep t Q = schedrep s Q"
  by (simp add: schedrep_def qrep_def)

text \<open>Another queue does not notice changes of the links of processes that are not in it.\<close>

lemma qrep_frame:
  assumes "qrep s k i xs" "runq (run t k) i = runq (run s k) i" "\<And>q. q \<in> set xs \<Longrightarrow> nextp t q = nextp s q"
  shows "qrep t k i xs"
proof -
  have "chain (nextp t) h ys = chain (nextp s) h ys" if "set ys \<subseteq> set xs" for h ys
    using that assms(3) by (induction ys arbitrary: h) auto
  then show ?thesis using assms(1,2) by (simp add: qrep_def)
qed

definition qput :: "nat \<Rightarrow> nat \<Rightarrow> nat list \<Rightarrow> (nat \<Rightarrow> nat \<Rightarrow> nat list) \<Rightarrow> nat \<Rightarrow> nat \<Rightarrow> nat list" where
  "qput k i xs Q = Q(k := (Q k)(i := xs))"

lemma qput_simps [simp]: "qput k i xs Q k' i' = (if k' = k \<and> i' = i then xs else Q k' i')"
  by (simp add: qput_def)

lemma sum_qput:
  assumes "i < Nrq"
  shows "(\<Sum>j<Nrq. int (length (qput k i xs Q k' j)))
    = (\<Sum>j<Nrq. int (length (Q k' j))) + (if k' = k then int (length xs) - int (length (Q k i)) else 0)"
proof (cases "k' = k")
  case True
  have "(\<Sum>j<Nrq. int (length (qput k i xs Q k j)))
      = int (length xs) + (\<Sum>j\<in>{..<Nrq} - {i}. int (length (qput k i xs Q k j)))"
    using assms by (subst sum.remove[of _ i]) auto
  also have "(\<Sum>j\<in>{..<Nrq} - {i}. int (length (qput k i xs Q k j))) = (\<Sum>j\<in>{..<Nrq} - {i}. int (length (Q k j)))"
    by (intro sum.cong) auto
  finally show ?thesis
    using True assms sum.remove[of "{..<Nrq}" i "\<lambda>j. int (length (Q k j))"] by simp
qed simp

lemma bit_runvec_or: "i < Nrq \<Longrightarrow> bit (w OR push_bit i 1 :: 32 word) j \<longleftrightarrow> bit w j \<or> j = i"
  by (auto simp: bit_or_iff bit_exp_iff Nrq_def Npriq_def)

lemma bit_runvec_andnot: "i < Nrq \<Longrightarrow> bit (w AND NOT (push_bit i 1) :: 32 word) j \<longleftrightarrow> bit w j \<and> j \<noteq> i"
  by (auto simp: bit_and_iff bit_not_iff bit_exp_iff Nrq_def Npriq_def dest: bit_imp_le_length)

lemma schedrep_put:
  assumes "schedrep s Q" "qrep t k i xs" "i < Nrq"
    and others: "\<And>k' i'. (k', i') \<noteq> (k, i) \<Longrightarrow> runq (run t k') i' = runq (run s k') i'"
    and links: "\<And>k' i' q. (k', i') \<noteq> (k, i) \<Longrightarrow> q \<in> set (Q k' i') \<Longrightarrow> nextp t q = nextp s q"
    and new: "\<And>k' i' q. (k', i') \<noteq> (k, i) \<Longrightarrow> q \<in> set xs \<Longrightarrow> q \<notin> set (Q k' i')"
    and vec: "\<And>j. bit (runvec (run t k)) j \<longleftrightarrow> (if j = i then xs \<noteq> [] else bit (runvec (run s k)) j)"
    and cnt: "nrdy (run t k) = nrdy (run s k) + int (length xs) - int (length (Q k i))"
    and rest: "\<And>k'. k' \<noteq> k \<Longrightarrow> runvec (run t k') = runvec (run s k') \<and> nrdy (run t k') = nrdy (run s k')"
  shows "schedrep t (qput k i xs Q)"
  unfolding schedrep_def
proof (intro conjI allI impI)
  note D = schedrepD[OF assms(1)]
  fix k' i'
  show "qrep t k' i' (qput k i xs Q k' i')"
    using assms(2) qrep_frame[OF D(1)[of k' i'] others[of k' i']] links[of k' i'] by (cases "(k', i') = (k, i)") auto
  show "qput k i xs Q k' i' = []" if "Nrq \<le> i'" using that D(2) assms(3) by auto
  show "bit (runvec (run t k')) i' \<longleftrightarrow> qput k i xs Q k' i' \<noteq> []"
    using vec[of i'] rest[of k'] D(3)[of k' i'] by (cases "k' = k") auto
  show "nrdy (run t k') = (\<Sum>j<Nrq. int (length (qput k i xs Q k' j)))"
    unfolding sum_qput[OF assms(3)] using cnt rest[of k'] D(4) by auto
  show "k' = k''" "i' = i''" if "p \<in> set (qput k i xs Q k' i')" "p \<in> set (qput k i xs Q k'' i'')" for k'' i'' p
    using that new[of k' i' p] new[of k'' i'' p] D(5)[of p k' i' k'' i''] by (auto split: if_splits)
qed

section \<open>Queueing\<close>

lemma queueproc_next:
  "nextp (queueproc k pri p s) =
    (case rtail (runq (run s k) pri) of None \<Rightarrow> (nextp s)(p := None) | Some t \<Rightarrow> (nextp s)(p := None, t := Some p))"
  by (auto simp: queueproc_def Let_def nextp_def fun_eq_iff split: option.splits)

lemma queueproc_run:
  "run (queueproc k pri p s) = (run s)(k := (run s k)\<lparr>
     runq := (runq (run s k))(pri := let rq = runq (run s k) pri in
       rq\<lparr>rhead := (if rtail rq = None then Some p else rhead rq), rtail := Some p, rn := rn rq + 1\<rparr>),
     nrdy := nrdy (run s k) + 1, runvec := runvec (run s k) OR push_bit pri 1\<rparr>)"
  by (auto simp: queueproc_def Let_def fun_eq_iff split: option.splits)

lemma queueproc_rep:
  assumes "schedrep s Q" "\<And>k i. p \<notin> set (Q k i)" "pri < Nrq"
  shows "schedrep (queueproc k pri p s) (qput k pri (Q k pri @ [p]) Q)"
proof (rule schedrep_put[OF assms(1) _ assms(3)])
  note D = schedrepD[OF assms(1)]
  let ?xs = "Q k pri"
  have R: "qrep s k pri ?xs" by (rule D(1))
  note E = qrepD[OF R]
  show "qrep (queueproc k pri p s) k pri (?xs @ [p])"
  proof (cases "?xs = []")
    case True
    then show ?thesis using E by (simp add: qrep_def queueproc_next queueproc_run)
  next
    case False
    have "chain ((nextp s)(last ?xs := Some p, p := None)) (rhead (runq (run s k) pri)) (?xs @ [p])"
      using chain_snoc[OF E(1) False E(2)] assms(2) by blast
    moreover have "last ?xs \<noteq> p" using assms(2)[of k pri] False last_in_set by metis
    ultimately show ?thesis
      using E False assms(2) by (simp add: qrep_def queueproc_next queueproc_run fun_upd_twist)
  qed
  show "runq (run (queueproc k pri p s) k') i' = runq (run s k') i'" if "(k', i') \<noteq> (k, pri)" for k' i'
    using that by (auto simp: queueproc_run)
  show "nextp (queueproc k pri p s) q = nextp s q" if "(k', i') \<noteq> (k, pri)" "q \<in> set (Q k' i')" for k' i' q
  proof -
    have "q \<noteq> p" using that(2) assms(2) by auto
    moreover have "?xs \<noteq> [] \<Longrightarrow> q \<noteq> last ?xs"
      using that D(5)[OF that(2), of k pri] last_in_set[of ?xs] by auto
    ultimately show ?thesis using E(3) by (simp add: queueproc_next split: option.split)
  qed
  show "q \<notin> set (Q k' i')" if "(k', i') \<noteq> (k, pri)" "q \<in> set (?xs @ [p])" for k' i' q
    using that assms(2)[of k' i'] D(5)[of q k' i' k pri] by auto
  show "bit (runvec (run (queueproc k pri p s) k)) j \<longleftrightarrow> (if j = pri then ?xs @ [p] \<noteq> [] else bit (runvec (run s k)) j)" for j
    using bit_runvec_or[OF assms(3)] by (simp add: queueproc_run del: push_bit_of_1)
qed (simp_all add: queueproc_run)

section \<open>Dequeueing\<close>

lemma refind_chain:
  "chain nx h (as @ bs) \<Longrightarrow> tp \<notin> set as \<Longrightarrow> bs = [] \<or> hd bs = tp
    \<Longrightarrow> refind h l tp nx = Some (if bs = [] then None else Some tp, if as = [] then l else Some (last as))"
  unfolding refind_def by (subst seek_chain[of nx h as bs]) auto

lemma dequeueproc_miss:
  assumes "schedrep s Q" "\<not> got \<or> p \<notin> set (Q k i) \<or> \<not> procsaved (proc s p)"
  shows "dequeueproc got k i p s = Some (None, s)"
proof -
  note C = qrepD(1)[OF schedrepD(1)[OF assms(1), of k i]]
  show ?thesis
  proof (cases "p \<in> set (Q k i)")
    case True
    then obtain as bs where "Q k i = as @ p # bs" "p \<notin> set as" using split_list_first by metis
    then show ?thesis using refind_chain[of "nextp s" _ as "p # bs" p None] C assms(2) True
      by (auto simp: dequeueproc_def nextp_def[abs_def])
  next
    case False
    then show ?thesis using refind_chain[of "nextp s" _ "Q k i" "[]" p None] C
      by (auto simp: dequeueproc_def nextp_def[abs_def])
  qed
qed

text \<open>Removing \<open>p\<close> from the list of its queue.\<close>

lemma dequeueproc_next:
  assumes "refind (rhead (runq (run s k) i)) None p (nextp s) = Some (Some p, l)" "procsaved (proc s p)"
  shows "\<exists>t. dequeueproc True k i p s = Some (Some p, t)
    \<and> nextp t = (case l of None \<Rightarrow> nextp s | Some l \<Rightarrow> (nextp s)(l := nextp s p))
    \<and> run t = (run s)(k := let rq = runq (run s k) i; h = (if l = None then nextp s p else rhead rq) in (run s k)\<lparr>
         runq := (runq (run s k))(i := rq\<lparr>rhead := h, rtail := (if nextp s p = None then l else rtail rq), rn := rn rq - 1\<rparr>),
         nrdy := nrdy (run s k) - 1,
         runvec := (if h = None then runvec (run s k) AND NOT (push_bit i 1) else runvec (run s k))\<rparr>)"
  using assms unfolding dequeueproc_def nextp_def[abs_def]
  by (auto simp: Let_def fun_eq_iff updsch_def updp_def split: option.split)

lemma dequeueproc_hit:
  assumes "schedrep s Q" "p \<in> set (Q k i)" "procsaved (proc s p)"
  shows "\<exists>t. dequeueproc True k i p s = Some (Some p, t) \<and> schedrep t (qput k i (remove1 p (Q k i)) Q)"
proof -
  note D = schedrepD[OF assms(1)]
  obtain as bs where xs: "Q k i = as @ p # bs" "p \<notin> set as" using split_list_first[OF assms(2)] by metis
  note E = qrepD[OF D(1)[of k i], unfolded xs(1)]
  have i: "i < Nrq" using D(2)[of i k] assms(2) by (cases "Nrq \<le> i") auto
  have rem: "remove1 p (Q k i) = as @ bs" using xs by (simp add: remove1_append)
  have "refind (rhead (runq (run s k) i)) None p (nextp s) = Some (Some p, if as = [] then None else Some (last as))"
    using refind_chain[OF E(1) xs(2), of None] by simp
  from dequeueproc_next[OF this assms(3)]
  obtain t where t: "dequeueproc True k i p s = Some (Some p, t)"
    "nextp t = (if as = [] then nextp s else (nextp s)(last as := nextp s p))"
    "run t = (run s)(k := let rq = runq (run s k) i; h = (if as = [] then nextp s p else rhead rq) in (run s k)\<lparr>
         runq := (runq (run s k))(i := rq\<lparr>rhead := h,
           rtail := (if nextp s p = None then (if as = [] then None else Some (last as)) else rtail rq), rn := rn rq - 1\<rparr>),
         nrdy := nrdy (run s k) - 1,
         runvec := (if h = None then runvec (run s k) AND NOT (push_bit i 1) else runvec (run s k))\<rparr>)"
    by (auto split: if_splits simp del: push_bit_of_1)
  have L: "nextp s p = (if bs = [] then None else Some (hd bs))" "chain (nextp s) (nextp s p) bs"
    using chain_link[OF E(1)] by auto
  have head: "(if as = [] then nextp s p else rhead (runq (run s k) i)) = None \<longleftrightarrow> as @ bs = []"
    using E(1) L(1) by (cases as) auto
  have "schedrep t (qput k i (as @ bs) Q)"
  proof (rule schedrep_put[OF assms(1) _ i])
    show "qrep t k i (as @ bs)"
      using E L chain_unlink[OF E(1,2)] t(2,3) by (cases "bs = []") (simp_all add: qrep_def Let_def)
    show "runq (run t k') i' = runq (run s k') i'" if "(k', i') \<noteq> (k, i)" for k' i'
      using that t(3) by (auto simp: Let_def)
    show "nextp t q = nextp s q" if "(k', i') \<noteq> (k, i)" "q \<in> set (Q k' i')" for k' i' q
    proof -
      have "as \<noteq> [] \<Longrightarrow> q \<noteq> last as"
        using that D(5)[OF that(2), of k i] xs(1) last_in_set[of as] by auto
      then show ?thesis by (simp add: t(2))
    qed
    show "q \<notin> set (Q k' i')" if "(k', i') \<noteq> (k, i)" "q \<in> set (as @ bs)" for k' i' q
      using that D(5)[of q k' i' k i] xs(1) by auto
    show "bit (runvec (run t k)) j \<longleftrightarrow> (if j = i then as @ bs \<noteq> [] else bit (runvec (run s k)) j)" for j
      using head bit_runvec_andnot[OF i] D(3)[of k i] xs(1) by (auto simp: t(3) Let_def simp del: push_bit_of_1)
    show "nrdy (run t k) = nrdy (run s k) + int (length (as @ bs)) - int (length (Q k i))"
      using xs(1) by (simp add: t(3) Let_def)
  qed (simp add: t(3))
  then show ?thesis using t(1) rem by simp
qed

section \<open>Ready processes and processors\<close>

text \<open>
  The parts of the invariant, each over the functions it is about: a process is in a queue or in
  the hands of a rebalancing processor just when it is ready, and in one place only.
\<close>

definition inqueues :: "(nat \<Rightarrow> nat \<Rightarrow> nat list) \<Rightarrow> nat set" where
  "inqueues Q = {p. \<exists>k i. p \<in> set (Q k i)}"

definition inhand :: "(nat \<Rightarrow> (nat \<times> nat) option) \<Rightarrow> nat set" where
  "inhand hand = {p. \<exists>m n. hand m = Some (p, n)}"

definition rq_ok :: "nat set \<Rightarrow> (nat \<Rightarrow> procstate) \<Rightarrow> (nat \<Rightarrow> (nat \<times> nat) option) \<Rightarrow> bool" where
  "rq_ok R ps hand \<longleftrightarrow> {p. ps p = Ready} = R \<union> inhand hand \<and> R \<inter> inhand hand = {}
    \<and> (\<forall>m p n. hand m = Some (p, n) \<longrightarrow> n < Nrq)
    \<and> (\<forall>m m' p n n'. hand m = Some (p, n) \<longrightarrow> hand m' = Some (p, n') \<longrightarrow> m' = m)"

lemma inqueues_append: "inqueues (qput k i (Q k i @ [p]) Q) = insert p (inqueues Q)"
proof -
  have "q \<in> inqueues (qput k i (Q k i @ [p]) Q) \<longleftrightarrow> q = p \<or> q \<in> inqueues Q" for q
    unfolding inqueues_def mem_Collect_eq
    by (metis (no_types, lifting) in_set_conv_decomp list.set_intros(1) qput_simps set_append Un_iff empty_iff empty_set set_ConsD)
  then show ?thesis by blast
qed

lemma inqueues_remove:
  assumes "schedrep s Q" "p \<in> set (Q k i)"
  shows "inqueues (qput k i (remove1 p (Q k i)) Q) = inqueues Q - {p}"
proof -
  have "q \<in> set (qput k i (remove1 p (Q k i)) Q k' i') \<longleftrightarrow> q \<noteq> p \<and> q \<in> set (Q k' i')" for q k' i'
  proof (cases "(k', i') = (k, i)")
    case True
    then show ?thesis using set_remove1_eq[OF qrepD(2)[OF schedrepD(1)[OF assms(1), of k i]]] by auto
  next
    case False
    then have "p \<notin> set (Q k' i')" using schedrepD(5)[OF assms(1) assms(2), of k' i'] by blast
    then show ?thesis using False by auto
  qed
  then show ?thesis unfolding inqueues_def by blast
qed

lemma inhand_upd: "hand m = None \<Longrightarrow> inhand (hand(m := Some (p, n))) = insert p (inhand hand)"
  unfolding inhand_def by (rule set_eqI, rule iffI) (auto split: if_splits, metis option.distinct(1))

lemma inhand_clear:
  assumes "rq_ok R ps hand" "hand m = Some (p, n)"
  shows "inhand (hand(m := None)) = inhand hand - {p}"
proof -
  have "m' = m" if "hand m' = Some (p, n')" for m' n' using assms that unfolding rq_ok_def by blast
  then show ?thesis
    unfolding inhand_def by (intro set_eqI iffI) (auto split: if_splits, metis assms(2) option.inject prod.inject)
qed

lemma rq_okD:
  assumes "rq_ok R ps hand"
  shows "ps p = Ready \<longleftrightarrow> p \<in> R \<or> p \<in> inhand hand" "p \<in> R \<Longrightarrow> p \<notin> inhand hand"
  using assms unfolding rq_ok_def by blast+

lemma rq_state:
  assumes "rq_ok R ps hand" "ps u \<noteq> Ready" "x \<noteq> Ready"
  shows "rq_ok R (ps(u := x)) hand"
proof -
  have "{p. (ps(u := x)) p = Ready} = {p. ps p = Ready}" using assms(2,3) by auto
  then show ?thesis using assms(1) unfolding rq_ok_def by metis
qed

lemma rq_enqueue:
  assumes "rq_ok R ps hand" "ps p \<noteq> Ready"
  shows "rq_ok (insert p R) (ps(p := Ready)) hand"
  using assms unfolding rq_ok_def by auto

lemma rq_take:
  assumes "rq_ok R ps hand" "p \<in> R" "x \<noteq> Ready"
  shows "rq_ok (R - {p}) (ps(p := x)) hand"
proof -
  have "{q. (ps(p := x)) q = Ready} = {q. ps q = Ready} - {p}" using assms(3) by auto
  then show ?thesis using assms(1,2) unfolding rq_ok_def by auto
qed

lemma rq_move:
  assumes "rq_ok R ps hand" "p \<in> R" "hand m = None" "n < Nrq"
  shows "rq_ok (R - {p}) ps (hand(m := Some (p, n)))"
proof -
  have "hand m' \<noteq> Some (p, n')" for m' n' using assms(1,2) by (auto simp: rq_ok_def inhand_def)
  then show ?thesis
    using assms unfolding rq_ok_def inhand_upd[of hand, OF assms(3)] by auto
qed

lemma rq_put:
  assumes "rq_ok R ps hand" "hand m = Some (p, n)"
  shows "rq_ok (insert p R) ps (hand(m := None))"
proof -
  have "p \<in> inhand hand" using assms(2) by (auto simp: inhand_def)
  then show ?thesis
    using assms unfolding rq_ok_def inhand_clear[OF assms] by auto
qed

end
