(* ===== verification/Sched_System.thy ===== *)
theory Sched_System
  imports Sched_Correct
begin

text \<open>
  The processors as a system: the invariant of the step relation of the scheduler. No process runs on
  two processors, no ready process is lost, and a wired process runs only where it is wired.
\<close>

section \<open>Processors\<close>

text \<open>
  \<open>p->mach\<close> and \<open>up\<close> agree, a processor has a process just when it runs or leaves one, and a process
  in the state \<open>Running\<close> runs.
\<close>

definition cpu_ok :: "(nat \<Rightarrow> nat option) \<Rightarrow> (nat \<Rightarrow> nat option) \<Rightarrow> (nat \<Rightarrow> mpc) \<Rightarrow> (nat \<Rightarrow> procstate) \<Rightarrow> bool" where
  "cpu_ok pm mu pc ps \<longleftrightarrow> (\<forall>p m. pm p = Some m \<longleftrightarrow> mu m = Some p) \<and> (\<forall>m. mu m \<noteq> None \<longleftrightarrow> pc m \<in> {Run, Left})
    \<and> (\<forall>p. ps p = Running \<longrightarrow> (\<exists>m. mu m = Some p \<and> pc m = Run))"

lemma cpu_okD:
  assumes "cpu_ok pm mu pc ps"
  shows "pm p = Some m \<longleftrightarrow> mu m = Some p" "mu m \<noteq> None \<longleftrightarrow> pc m \<in> {Run, Left}"
    "ps p = Running \<Longrightarrow> \<exists>m. mu m = Some p \<and> pc m = Run"
  using assms unfolding cpu_ok_def by blast+

lemma cpu_pc:
  assumes "cpu_ok pm mu pc ps" "pc m \<notin> {Run, Left}" "c \<notin> {Run, Left}"
  shows "cpu_ok pm mu (pc(m := c)) ps"
proof -
  have "\<exists>m'. mu m' = Some p \<and> (pc(m := c)) m' = Run" if r: "ps p = Running" for p
  proof -
    obtain m' where "mu m' = Some p" "pc m' = Run" using cpu_okD(3)[OF assms(1) r] by blast
    then show ?thesis using assms(2) by (intro exI[of _ m']) auto
  qed
  moreover have "mu m' \<noteq> None \<longleftrightarrow> (pc(m := c)) m' \<in> {Run, Left}" for m'
    using cpu_okD(2)[OF assms(1), of m'] assms(2,3) by simp
  ultimately show ?thesis using assms(1) unfolding cpu_ok_def by blast
qed

lemma cpu_state:
  assumes "cpu_ok pm mu pc ps" "x \<noteq> Running"
  shows "cpu_ok pm mu pc (ps(p := x))"
proof -
  have "\<exists>m. mu m = Some q \<and> pc m = Run" if "(ps(p := x)) q = Running" for q
    using that assms(2) cpu_okD(3)[OF assms(1), of q] by (auto split: if_splits)
  then show ?thesis using assms(1) unfolding cpu_ok_def by blast
qed

lemma cpu_take:
  assumes "cpu_ok pm mu pc ps" "pm p = None" "pc m \<notin> {Run, Left}"
  shows "cpu_ok (pm(p := Some m)) (mu(m := Some p)) (pc(m := Run)) (ps(p := Running))"
proof -
  note D = cpu_okD[OF assms(1)]
  have mu: "mu m = None" using D(2) assms(3) by blast
  have "(pm(p := Some m)) q = Some m' \<longleftrightarrow> (mu(m := Some p)) m' = Some q" for q m'
    using D(1)[of q m'] D(1)[of p m'] D(1)[of q m] mu assms(2) by auto
  moreover have "(mu(m := Some p)) m' \<noteq> None \<longleftrightarrow> (pc(m := Run)) m' \<in> {Run, Left}" for m'
    using D(2)[of m'] by simp
  moreover have "\<exists>m'. (mu(m := Some p)) m' = Some q \<and> (pc(m := Run)) m' = Run" if q: "(ps(p := Running)) q = Running" for q
  proof (cases "q = p")
    case False
    then obtain m' where "mu m' = Some q" "pc m' = Run" using D(3)[of q] q by auto
    then show ?thesis using mu by (intro exI[of _ m']) auto
  qed auto
  ultimately show ?thesis unfolding cpu_ok_def by blast
qed

lemma cpu_left:
  assumes "cpu_ok pm mu pc ps" "mu m = Some u" "pc m = Run" "ps u \<noteq> Running"
  shows "cpu_ok pm mu (pc(m := Left)) ps"
proof -
  note D = cpu_okD[OF assms(1)]
  have "\<exists>m'. mu m' = Some p \<and> (pc(m := Left)) m' = Run" if r: "ps p = Running" for p
  proof -
    obtain m' where "mu m' = Some p" "pc m' = Run" using D(3)[OF r] by blast
    then show ?thesis using assms(2,4) r by (intro exI[of _ m']) auto
  qed
  moreover have "mu m' \<noteq> None \<longleftrightarrow> (pc(m := Left)) m' \<in> {Run, Left}" for m'
    using D(2)[of m'] assms(3) by auto
  ultimately show ?thesis using assms(1) unfolding cpu_ok_def by blast
qed

lemma cpu_leave:
  assumes "cpu_ok pm mu pc ps" "mu m = Some u" "pc m = Left"
  shows "cpu_ok (pm(u := None)) (mu(m := None)) (pc(m := Start)) ps"
proof -
  note D = cpu_okD[OF assms(1)]
  have "(pm(u := None)) q = Some m' \<longleftrightarrow> (mu(m := None)) m' = Some q" for q m'
    using D(1)[of q m'] D(1)[of u m'] D(1)[of u m] assms(2) by auto
  moreover have "(mu(m := None)) m' \<noteq> None \<longleftrightarrow> (pc(m := Start)) m' \<in> {Run, Left}" for m'
    using D(2)[of m'] by simp
  moreover have "\<exists>m'. (mu(m := None)) m' = Some q \<and> (pc(m := Start)) m' = Run" if q: "ps q = Running" for q
  proof -
    obtain m' where "mu m' = Some q" "pc m' = Run" using D(3)[OF q] by blast
    then show ?thesis using assms(3) by (intro exI[of _ m']) auto
  qed
  ultimately show ?thesis unfolding cpu_ok_def by blast
qed

section \<open>Wiring and constants\<close>

definition aff_ok :: "(nat \<Rightarrow> nat option) \<Rightarrow> (nat \<Rightarrow> nat option) \<Rightarrow> (nat \<Rightarrow> mpc) \<Rightarrow> bool" where
  "aff_ok wi mo pc \<longleftrightarrow> (\<forall>p w. wi p = Some w \<longrightarrow> mo p = Some w)
    \<and> (\<forall>m i p. pc m = Found i p \<longrightarrow> i < Nrq \<and> (wi p = None \<or> wi p = Some m))"

lemma aff_pc:
  assumes "aff_ok wi mo pc" "\<And>i p. c = Found i p \<Longrightarrow> i < Nrq \<and> (wi p = None \<or> wi p = Some m)"
  shows "aff_ok wi mo (pc(m := c))"
  using assms by (auto simp: aff_ok_def)

lemma aff_take:
  assumes "aff_ok wi mo pc" "pc m = Found i p"
  shows "aff_ok wi (mo(p := Some m)) (pc(m := Run))" "wi p = None \<or> wi p = Some m" "i < Nrq"
proof -
  have *: "i < Nrq \<and> (wi p = None \<or> wi p = Some m)" using assms unfolding aff_ok_def by blast
  then show "wi p = None \<or> wi p = Some m" "i < Nrq" by blast+
  show "aff_ok wi (mo(p := Some m)) (pc(m := Run))"
    using assms(1) * unfolding aff_ok_def by auto
qed

definition stat_ok :: "schedsys \<Rightarrow> bool" where
  "stat_ok s \<longleftrightarrow> (\<forall>p. basepri (proc s p) < Npriq \<and> priority (proc s p) < Nrq) \<and> (\<forall>m. msch (mach s m) \<noteq> None)"

text \<open>The state as seen by the parts of the invariant.\<close>

abbreviation psts :: "schedsys \<Rightarrow> nat \<Rightarrow> procstate" where "psts s \<equiv> \<lambda>p. pstate (proc s p)"
abbreviation pms :: "schedsys \<Rightarrow> nat \<Rightarrow> nat option" where "pms s \<equiv> \<lambda>p. pmach (proc s p)"
abbreviation mus :: "schedsys \<Rightarrow> nat \<Rightarrow> nat option" where "mus s \<equiv> \<lambda>m. mup (mach s m)"
abbreviation wis :: "schedsys \<Rightarrow> nat \<Rightarrow> nat option" where "wis s \<equiv> \<lambda>p. wired (proc s p)"
abbreviation mos :: "schedsys \<Rightarrow> nat \<Rightarrow> nat option" where "mos s \<equiv> \<lambda>p. mp (proc s p)"

definition handof :: "(nat \<times> (nat \<times> nat) option) option \<Rightarrow> (nat \<times> nat) option" where
  "handof r = (case r of None \<Rightarrow> None | Some (pri, h) \<Rightarrow> h)"

abbreviation hands :: "ssys \<Rightarrow> nat \<Rightarrow> (nat \<times> nat) option" where "hands s \<equiv> \<lambda>m. handof (reb s m)"

section \<open>What the routines do to the parts\<close>

lemma stat_okD:
  assumes "stat_ok s"
  shows "basepri (proc s p) < Npriq" "priority (proc s p) < Nrq" "msch (mach s m) \<noteq> None"
  using assms unfolding stat_ok_def by blast+

lemma reprioritize_less: "reprioritize p s = Inr n \<Longrightarrow> stat_ok s \<Longrightarrow> n < Nrq"
  using reprioritize_le[of p s n] stat_okD(1)[of s p] by (simp add: Nrq_def Npriq_def)

lemma stat_ok_updatecpu [simp]: "stat_ok (updatecpu m p s) = stat_ok s"
  by (simp add: stat_ok_def)

lemma schedrep_updatecpu [simp]: "schedrep (updatecpu m p s) Q = schedrep s Q"
  by (rule schedrep_cong) (simp_all add: nextp_def fun_eq_iff)

lemma readyp_cases:
  assumes "readyp m now p s = Inr t" "stat_ok s"
  obtains k pri s' where "t = queueproc k pri p s'" "pri < Nrq" "psts s' = (psts s)(p := Ready)" "pms s' = pms s" "mus s' = mus s"
    "wis s' = wis s" "mos s' = mos s" "stat_ok s'" "\<And>Q. schedrep s' Q = schedrep s Q"
proof -
  define s1 where "s1 = (if mproc (mach s m) \<noteq> Some p \<and> (wired (proc s p) = None \<or> wired (proc s p) = Some m)
              then updm m (\<lambda>x. x\<lparr>readied := Some p\<rparr>) s else s)"
  have s1: "stat_ok s1" "proc s1 = proc s" "mus s1 = mus s" "run s1 = run s"
    using assms(2) by (auto simp: s1_def stat_ok_def fun_eq_iff)
  obtain k where k: "procsched m p s = (k, s)"
    using stat_okD(3)[OF assms(2)] by (auto simp: procsched_def Let_def)
  define s2 where "s2 = updatecpu m p s1"
  obtain pri where pri: "reprioritize p s2 = Inr pri"
    "t = queueproc k pri p (updp p (\<lambda>x. x\<lparr>priority := pri, readytime := now, pstate := Ready\<rparr>) s2)"
    using assms(1) unfolding readyp_def k schedready_def s1_def[symmetric] Let_def prod.case s2_def[symmetric]
    by (auto split: sum.splits)
  have less: "pri < Nrq" using reprioritize_less[OF pri(1)] s1(1) by (simp add: s2_def)
  show thesis
  proof (rule that[OF pri(2) less])
    show "schedrep (updp p (\<lambda>x. x\<lparr>priority := pri, readytime := now, pstate := Ready\<rparr>) s2) Q = schedrep s Q" for Q
      by (rule schedrep_cong) (auto simp: nextp_def fun_eq_iff s2_def s1)
    show "stat_ok (updp p (\<lambda>x. x\<lparr>priority := pri, readytime := now, pstate := Ready\<rparr>) s2)"
      using s1(1) less by (simp add: stat_ok_def s2_def)
  qed (auto simp: s2_def s1 fun_eq_iff fun_cong[OF s1(3)])
qed

lemma stat_ok_queueproc: "stat_ok s \<Longrightarrow> pri < Nrq \<Longrightarrow> stat_ok (queueproc k pri p s)"
  by (simp add: stat_ok_def)

lemma readyp_effect:
  assumes "readyp m now p s = Inr t" "stat_ok s" "schedrep s Q" "p \<notin> inqueues Q"
  shows "\<exists>Q'. schedrep t Q' \<and> inqueues Q' = insert p (inqueues Q)" "psts t = (psts s)(p := Ready)" "pms t = pms s" "mus t = mus s"
    "wis t = wis s" "mos t = mos s" "stat_ok t"
proof -
  obtain k pri s' where t: "t = queueproc k pri p s'" "pri < Nrq" "psts s' = (psts s)(p := Ready)" "pms s' = pms s" "mus s' = mus s"
    "wis s' = wis s" "mos s' = mos s" "stat_ok s'" "\<And>Q. schedrep s' Q = schedrep s Q"
    by (rule readyp_cases[OF assms(1,2)], rule that)
  have "schedrep t (qput k pri (Q k pri @ [p]) Q)"
    unfolding t(1) using assms(4) by (intro queueproc_rep t) (auto simp: inqueues_def t(9) assms(3))
  then show "\<exists>Q'. schedrep t Q' \<and> inqueues Q' = insert p (inqueues Q)" using inqueues_append by blast
  show "psts t = (psts s)(p := Ready)" "pms t = pms s" "mus t = mus s" "wis t = wis s" "mos t = mos s"
    using t(3-7) by (simp_all add: t(1))
  show "stat_ok t" unfolding t(1) by (rule stat_ok_queueproc[OF t(8,2)])
qed

lemma dequeue_cases:
  assumes "dequeueproc got k i p s = Some (r, t)" "schedrep s Q" "stat_ok s"
  shows "(r = None \<and> t = s) \<or> (r = Some p \<and> p \<in> inqueues Q \<and> pmach (proc s p) = None
      \<and> (\<exists>Q'. schedrep t Q' \<and> inqueues Q' = inqueues Q - {p}))"
    "psts t = psts s" "pms t = pms s" "mus t = mus s" "wis t = wis s" "mos t = mos s" "stat_ok t"
proof -
  show "(r = None \<and> t = s) \<or> (r = Some p \<and> p \<in> inqueues Q \<and> pmach (proc s p) = None
      \<and> (\<exists>Q'. schedrep t Q' \<and> inqueues Q' = inqueues Q - {p}))"
  proof (cases "got \<and> p \<in> set (Q k i) \<and> procsaved (proc s p)")
    case True
    then obtain t' where t': "dequeueproc True k i p s = Some (Some p, t')" "schedrep t' (qput k i (remove1 p (Q k i)) Q)"
      using dequeueproc_hit[OF assms(2)] by blast
    have "p \<in> inqueues Q" using True unfolding inqueues_def by blast
    moreover have "r = Some p" "t = t'" "pmach (proc s p) = None" using True assms(1) t'(1) by (auto simp: procsaved_def)
    ultimately show ?thesis
      using t'(2) inqueues_remove[OF assms(2)] True by blast
  next
    case False
    then show ?thesis using dequeueproc_miss[OF assms(2)] assms(1) by auto
  qed
  show "psts t = psts s" "pms t = pms s" "mus t = mus s" "wis t = wis s" "mos t = mos s"
    using dequeueproc_fields[OF assms(1)] by simp_all
  show "stat_ok t"
    using assms(3) dequeueproc_fields[OF assms(1)] by (simp add: stat_ok_def)
qed

lemma runtake_effect:
  assumes "runtake got m k i p s = Some (r, t)" "schedrep s Q" "stat_ok s"
  shows "(r = None \<and> t = s) \<or> (r = Some p \<and> p \<in> inqueues Q \<and> pmach (proc s p) = None
      \<and> (\<exists>Q'. schedrep t Q' \<and> inqueues Q' = inqueues Q - {p}) \<and> psts t = (psts s)(p := Scheding) \<and> pms t = pms s
      \<and> mus t = mus s \<and> wis t = wis s \<and> mos t = (mos s)(p := Some m) \<and> stat_ok t)"
proof -
  have X: "schedrep (updp p (\<lambda>x. x\<lparr>pstate := Scheding, mp := Some m\<rparr>) s') Q' = schedrep s' Q'" for s' Q'
    by (rule schedrep_cong) (auto simp: nextp_def fun_eq_iff)
  obtain r' s' where d: "dequeueproc got k i p s = Some (r', s')"
    using assms(1) by (auto simp: runtake_def split: option.splits)
  note E = dequeue_cases[OF d assms(2,3)]
  show ?thesis
  proof (cases r')
    case None
    then show ?thesis using E(1) assms(1) d by (auto simp: runtake_def)
  next
    case (Some q)
    then have q: "q = p" "p \<in> inqueues Q" "pmach (proc s p) = None" "\<exists>Q'. schedrep s' Q' \<and> inqueues Q' = inqueues Q - {p}"
      using E(1) by auto
    have t: "r = Some p" "t = updp p (\<lambda>x. x\<lparr>pstate := Scheding, mp := Some m\<rparr>) s'"
      using assms(1) d Some q(1) by (auto simp: runtake_def)
    have "psts t = (psts s)(p := Scheding) \<and> pms t = pms s \<and> mus t = mus s \<and> wis t = wis s \<and> mos t = (mos s)(p := Some m)"
      using E(2-6) by (auto simp: t(2) fun_eq_iff)
    moreover have "stat_ok t" using E(7) by (simp add: t(2) stat_ok_def)
    moreover have "\<exists>Q'. schedrep t Q' \<and> inqueues Q' = inqueues Q - {p}"
      unfolding t(2) X using q(4) .
    ultimately show ?thesis using t(1) q(2,3) by blast
  qed
qed

lemma schedto_effect:
  assumes "schedto m p s = Inr t" "stat_ok s"
  shows "psts t = (psts s)(p := Running)" "pms t = (pms s)(p := Some m)" "mus t = (mus s)(m := Some p)"
    "wis t = wis s" "mos t = mos s" "stat_ok t" "schedrep t Q = schedrep s Q"
proof -
  define s1 where "s1 = updatecpu m p s"
  obtain pri where pri: "reprioritize p s1 = Inr pri"
    using assms(1) by (auto simp: schedto_def Let_def s1_def split: sum.splits)
  have less: "pri < Nrq" using reprioritize_less[OF pri] assms(2) by (simp add: s1_def)
  define s2 where "s2 = (if readied (mach s1 m) \<noteq> Some p then updm m (\<lambda>x. x\<lparr>schedticks := mticks x + word_of_int (HZ div 10)\<rparr>) (updp p (\<lambda>x. x\<lparr>priority := pri\<rparr>) s1)
     else updp p (\<lambda>x. x\<lparr>priority := pri\<rparr>) s1)"
  have t: "t = updp p (\<lambda>x. x\<lparr>pstate := Running, pmach := Some m\<rparr>) (updm m (\<lambda>x. x\<lparr>readied := None, mup := Some p, mproc := Some p\<rparr>) s2)"
    using assms(1) pri unfolding schedto_def s1_def[symmetric] Let_def s2_def
    by (auto split: if_splits)
  have s2: "proc s2 q = (if q = p then (proc s1 p)\<lparr>priority := pri\<rparr> else proc s1 q)" "mup (mach s2 m') = mup (mach s m')"
    "msch (mach s2 m') = msch (mach s m')" "run s2 = run s" for q m'
    by (auto simp: s2_def s1_def)
  show "psts t = (psts s)(p := Running)" "pms t = (pms s)(p := Some m)" "mus t = (mus s)(m := Some p)"
    "wis t = wis s" "mos t = mos s"
    by (auto simp: t s2 s1_def fun_eq_iff)
  show "stat_ok t" using assms(2) less by (simp add: t s2 s1_def stat_ok_def)
  show "schedrep t Q = schedrep s Q"
    by (rule schedrep_cong) (auto simp: nextp_def fun_eq_iff t s2 s1_def)
qed

lemma schedto_runs:
  assumes "hardaffinity m (proc s p)" "stat_ok s"
  shows "\<exists>t. schedto m p s = Inr t"
proof -
  obtain n where "reprioritize p (updatecpu m p s) = Inr n"
    using reprioritize_total[of "updatecpu m p s" p] stat_okD(1)[OF assms(2), of p] by (auto simp: Npriq_def)
  then show ?thesis using assms(1) by (simp add: schedto_def Let_def hardaffinity_def)
qed

lemma leave1_effect:
  assumes "leave1 m now u s = Inr t" "stat_ok s" "schedrep s Q" "rq_ok (inqueues Q) (psts s) hand"
  shows "\<exists>Q'. schedrep t Q' \<and> rq_ok (inqueues Q') (psts t) hand" "pms t = pms s" "mus t = mus s" "wis t = wis s" "mos t = mos s" "stat_ok t"
    "psts t = (psts s)(u := psts t u)" "psts t u \<noteq> Running"
proof -
  define s1 where "s1 = updm m (\<lambda>x. x\<lparr>mproc := None\<rparr>) (updp u (\<lambda>x. x\<lparr>delaysched := 0\<rparr>) s)"
  have s1: "psts s1 = psts s" "pms s1 = pms s" "mus s1 = mus s" "wis s1 = wis s" "mos s1 = mos s" "stat_ok s1" "schedrep s1 Q"
    using assms(2) schedrep_cong[of s1 s Q] assms(3) by (auto simp: s1_def stat_ok_def fun_eq_iff nextp_def)
  have L: "(if psts s u = Running then readyp m now u s1
     else if psts s u = Moribund then Inr (updp u (\<lambda>x. x\<lparr>pstate := Dead\<rparr>) s1) else Inr s1) = Inr t"
    using assms(1) fun_cong[OF s1(1), of u] unfolding leave1_def s1_def[symmetric] Let_def by (simp split: if_splits)
  consider "psts s u = Running" "readyp m now u s1 = Inr t" | "psts s u = Moribund" "t = updp u (\<lambda>x. x\<lparr>pstate := Dead\<rparr>) s1"
    | "psts s u \<noteq> Running" "t = s1"
    using L by (auto split: if_splits)
  then have "(\<exists>Q'. schedrep t Q' \<and> rq_ok (inqueues Q') (psts t) hand) \<and> pms t = pms s \<and> mus t = mus s \<and> wis t = wis s \<and> mos t = mos s
    \<and> stat_ok t \<and> psts t = (psts s)(u := psts t u) \<and> psts t u \<noteq> Running"
  proof cases
    case 1
    have u: "u \<notin> inqueues Q" using rq_okD(1)[OF assms(4), of u] 1(1) by auto
    note E = readyp_effect[OF 1(2) s1(6,7) u]
    have "rq_ok (insert u (inqueues Q)) (psts t) hand"
      unfolding E(2) s1 using 1(1) by (intro rq_enqueue[OF assms(4)]) simp
    then have "\<exists>Q'. schedrep t Q' \<and> rq_ok (inqueues Q') (psts t) hand" using E(1) by metis
    moreover have "psts t = (psts s)(u := psts t u) \<and> psts t u \<noteq> Running"
      using E(2) fun_cong[OF E(2), of u] s1(1) by simp
    ultimately show ?thesis using E(3-7) s1 by metis
  next
    case 2
    have "schedrep t Q" unfolding 2(2) by (subst schedrep_cong[of _ s1]) (auto simp: nextp_def fun_eq_iff s1)
    moreover have d: "psts t = (psts s)(u := Dead)" using s1(1) by (auto simp: 2(2) fun_eq_iff)
    moreover have "pms t = pms s" "mus t = mus s" "wis t = wis s" "mos t = mos s" using s1 by (auto simp: 2(2) fun_eq_iff)
    moreover have "rq_ok (inqueues Q) ((psts s)(u := Dead)) hand" using 2(1) by (intro rq_state[OF assms(4)]) simp_all
    moreover have "stat_ok t" using s1(6) by (simp add: 2(2) stat_ok_def)
    moreover have "psts t u = Dead" using fun_cong[OF d, of u] by simp
    ultimately show ?thesis by auto
  next
    case 3
    then show ?thesis using s1 assms(4) by (auto simp: fun_eq_iff)
  qed
  then show "\<exists>Q'. schedrep t Q' \<and> rq_ok (inqueues Q') (psts t) hand" "pms t = pms s" "mus t = mus s" "wis t = wis s" "mos t = mos s" "stat_ok t"
    "psts t = (psts s)(u := psts t u)" "psts t u \<noteq> Running"
    by blast+
qed

text \<open>A pass of \<open>rebalance\<close> changes at most the queue it takes a process out of.\<close>

fun rebst :: "rebal \<Rightarrow> schedsys" where
  "rebst (Skip s) = s"
| "rebst (Again s) = s"
| "rebst (Move p n s) = s"

fun rebmv :: "rebal \<Rightarrow> (nat \<times> nat) option" where
  "rebmv (Move p n s) = Some (p, n)"
| "rebmv _ = None"

lemma rebalance1_effect:
  assumes "rebalance1 got m k pri s = Some (Inr r)" "schedrep s Q" "stat_ok s"
  shows "psts (rebst r) = psts s" "pms (rebst r) = pms s" "mus (rebst r) = mus s" "wis (rebst r) = wis s" "mos (rebst r) = mos s"
    "stat_ok (rebst r)" "rebmv r = None \<Longrightarrow> schedrep (rebst r) Q"
    "rebmv r = Some (p, n) \<Longrightarrow> n < Nrq \<and> p \<in> inqueues Q \<and> (\<exists>Q'. schedrep (rebst r) Q' \<and> inqueues Q' = inqueues Q - {p})"
proof -
  consider "r = Skip s" | q where "r = Skip (updatecpu m q s)"
    | q n d t where "dequeueproc got k pri q (updatecpu m q s) = Some (d, t)" "reprioritize q (updatecpu m q s) = Inr n"
        "r = (case d of None \<Rightarrow> Again t | Some q \<Rightarrow> Move q n t)"
    using assms(1) unfolding rebalance1_def Let_def
    by (auto split: option.splits sum.splits if_splits prod.splits)
  then have "psts (rebst r) = psts s \<and> pms (rebst r) = pms s \<and> mus (rebst r) = mus s \<and> wis (rebst r) = wis s \<and> mos (rebst r) = mos s
    \<and> stat_ok (rebst r) \<and> (rebmv r = None \<longrightarrow> schedrep (rebst r) Q)
    \<and> (rebmv r = Some (p, n) \<longrightarrow> n < Nrq \<and> p \<in> inqueues Q \<and> (\<exists>Q'. schedrep (rebst r) Q' \<and> inqueues Q' = inqueues Q - {p}))"
  proof cases
    case (3 q n' d t)
    have U: "schedrep (updatecpu m q s) Q" "stat_ok (updatecpu m q s)" using assms(2,3) by simp_all
    note E = dequeue_cases[OF 3(1) U]
    have "n' < Nrq" using reprioritize_less[OF 3(2) U(2)] .
    then show ?thesis
      using E U(1) by (cases d) (auto simp: 3(3))
  qed (use assms(2,3) in simp_all)
  then show "psts (rebst r) = psts s" "pms (rebst r) = pms s" "mus (rebst r) = mus s" "wis (rebst r) = wis s" "mos (rebst r) = mos s"
    "stat_ok (rebst r)" "rebmv r = None \<Longrightarrow> schedrep (rebst r) Q"
    "rebmv r = Some (p, n) \<Longrightarrow> n < Nrq \<and> p \<in> inqueues Q \<and> (\<exists>Q'. schedrep (rebst r) Q' \<and> inqueues Q' = inqueues Q - {p})"
    by blast+
qed

section \<open>The invariant\<close>

definition schedinv :: "ssys \<Rightarrow> bool" where
  "schedinv s \<longleftrightarrow> (\<exists>Q. schedrep (st s) Q \<and> rq_ok (inqueues Q) (psts (st s)) (hands s))
    \<and> cpu_ok (pms (st s)) (mus (st s)) (spc s) (psts (st s)) \<and> aff_ok (wis (st s)) (mos (st s)) (spc s) \<and> stat_ok (st s)"

lemma schedinvI:
  assumes "schedrep (st s) Q" "rq_ok (inqueues Q) (psts (st s)) (hands s)"
    "cpu_ok (pms (st s)) (mus (st s)) (spc s) (psts (st s))" "aff_ok (wis (st s)) (mos (st s)) (spc s)" "stat_ok (st s)"
  shows "schedinv s"
  using assms unfolding schedinv_def by blast

lemma schedinv_st:
  assumes "schedrep t Q" "rq_ok (inqueues Q) (psts t) (hands s)"
    "cpu_ok (pms t) (mus t) (spc s) (psts t)" "aff_ok (wis t) (mos t) (spc s)" "stat_ok t"
  shows "schedinv (s\<lparr>st := t\<rparr>)"
  using assms by (intro schedinvI[of _ Q]) simp_all

lemma handof_simps [simp]: "handof None = None" "handof (Some (pri, h)) = h"
  by (simp_all add: handof_def)

text \<open>A step that leaves all parts alone.\<close>

lemma schedinv_same:
  assumes "schedinv s" "\<And>Q. schedrep (st t) Q = schedrep (st s) Q" "psts (st t) = psts (st s)" "pms (st t) = pms (st s)"
    "mus (st t) = mus (st s)" "wis (st t) = wis (st s)" "mos (st t) = mos (st s)" "stat_ok (st t)" "hands t = hands s" "spc t = spc s"
  shows "schedinv t"
  using assms unfolding schedinv_def by simp

lemma mayrun_hard:
  assumes "mayrun m aff now p" "\<And>w. wired p = Some w \<Longrightarrow> mp p = Some w"
  shows "wired p = None \<or> wired p = Some m"
  using assms by (cases "wired p") (auto simp: mayrun_def softaffinity_def hardaffinity_def)

lemma cooperative_ok:
  assumes "cooperative m s = Some (i, p)" "stat_ok s"
  shows "i < Nrq \<and> (wired (proc s p) = None \<or> wired (proc s p) = Some m)"
  using assms stat_okD(2)[of s] by (auto simp: cooperative_def hardaffinity_def split: option.splits if_splits)

lemma schedinvE:
  assumes "schedinv s"
  obtains Q where "schedrep (st s) Q" "rq_ok (inqueues Q) (psts (st s)) (hands s)"
    "cpu_ok (pms (st s)) (mus (st s)) (spc s) (psts (st s))" "aff_ok (wis (st s)) (mos (st s)) (spc s)" "stat_ok (st s)"
  using assms unfolding schedinv_def by blast

lemma inv_found:
  assumes "schedinv s" "spc s m \<notin> {Run, Left}" "i < Nrq" "wired (proc (st s) p) = None \<or> wired (proc (st s) p) = Some m"
  shows "schedinv (s\<lparr>spc := (spc s)(m := Found i p)\<rparr>)"
proof -
  obtain Q where I: "schedrep (st s) Q" "rq_ok (inqueues Q) (psts (st s)) (hands s)"
    "cpu_ok (pms (st s)) (mus (st s)) (spc s) (psts (st s))" "aff_ok (wis (st s)) (mos (st s)) (spc s)" "stat_ok (st s)"
    using schedinvE[OF assms(1)] by blast
  show ?thesis
    using I cpu_pc[OF I(3) assms(2), of "Found i p"] aff_pc[OF I(4), of "Found i p" m] assms(3,4)
    by (intro schedinvI[of _ Q]) simp_all
qed

lemma inv_loop:
  assumes "schedinv s" "spc s m \<notin> {Run, Left}"
  shows "schedinv (s\<lparr>spc := (spc s)(m := Loop)\<rparr>)"
proof -
  obtain Q where I: "schedrep (st s) Q" "rq_ok (inqueues Q) (psts (st s)) (hands s)"
    "cpu_ok (pms (st s)) (mus (st s)) (spc s) (psts (st s))" "aff_ok (wis (st s)) (mos (st s)) (spc s)" "stat_ok (st s)"
    using schedinvE[OF assms(1)] by blast
  show ?thesis
    using I cpu_pc[OF I(3) assms(2), of Loop] aff_pc[OF I(4), of Loop m]
    by (intro schedinvI[of _ Q]) simp_all
qed

lemma inv_search:
  assumes "schedinv s" "spc s m = Loop" "mayrun m aff now (proc (st s) p)" "i < Nrq"
  shows "schedinv (s\<lparr>spc := (spc s)(m := Found i p)\<rparr>)"
proof (rule inv_found[OF assms(1) _ assms(4)])
  obtain Q where "aff_ok (wis (st s)) (mos (st s)) (spc s)" using schedinvE[OF assms(1)] by blast
  then have "wired (proc (st s) p) = Some w \<Longrightarrow> mp (proc (st s) p) = Some w" for w by (simp add: aff_ok_def)
  then show "wired (proc (st s) p) = None \<or> wired (proc (st s) p) = Some m" by (rule mayrun_hard[OF assms(3)])
qed (simp add: assms(2))

lemma inv_missed:
  assumes "schedinv s" "spc s m = Found i p" "runtake got m k i p (st s) = Some (None, t)"
  shows "schedinv (s\<lparr>st := t, spc := (spc s)(m := Loop)\<rparr>)"
proof -
  obtain Q where "schedrep (st s) Q" "stat_ok (st s)" using schedinvE[OF assms(1)] by blast
  then have "t = st s" using runtake_effect[OF assms(3)] by blast
  then show ?thesis using inv_loop[OF assms(1), of m] assms(2) by simp
qed

lemma inv_take:
  assumes "schedinv s" "spc s m = Found i p" "runtake got m k i p (st s) = Some (Some q, t)" "schedto m q t = Inr t'"
  shows "schedinv (s\<lparr>st := t', spc := (spc s)(m := Run)\<rparr>)"
proof -
  obtain Q where I: "schedrep (st s) Q" "rq_ok (inqueues Q) (psts (st s)) (hands s)"
    "cpu_ok (pms (st s)) (mus (st s)) (spc s) (psts (st s))" "aff_ok (wis (st s)) (mos (st s)) (spc s)" "stat_ok (st s)"
    using schedinvE[OF assms(1)] by blast
  from runtake_effect[OF assms(3) I(1,5)]
  obtain Q' where R: "q = p" "p \<in> inqueues Q" "pmach (proc (st s) p) = None" "schedrep t Q'" "inqueues Q' = inqueues Q - {p}"
    "psts t = (psts (st s))(p := Scheding)" "pms t = pms (st s)" "mus t = mus (st s)" "wis t = wis (st s)"
    "mos t = (mos (st s))(p := Some m)" "stat_ok t"
    by blast
  note S = schedto_effect[OF assms(4)[unfolded R(1)] R(11)]
  have "rq_ok (inqueues Q') ((psts (st s))(p := Running)) (hands s)"
    unfolding R(5) using R(2) by (intro rq_take[OF I(2)]) simp_all
  moreover have "cpu_ok ((pms (st s))(p := Some m)) ((mus (st s))(m := Some p)) ((spc s)(m := Run)) ((psts (st s))(p := Running))"
    using R(3) assms(2) by (intro cpu_take[OF I(3)]) simp_all
  moreover have "aff_ok (wis (st s)) ((mos (st s))(p := Some m)) ((spc s)(m := Run))"
    by (rule aff_take(1)[OF I(4) assms(2)])
  ultimately show ?thesis
    using R(4) by (intro schedinvI[of _ Q']) (simp_all add: S R(6-10))
qed

lemma inv_block:
  assumes "schedinv s" "psts (st s) u = Running" "x \<noteq> Ready" "x \<noteq> Running"
  shows "schedinv (s\<lparr>st := updp u (\<lambda>p. p\<lparr>pstate := x\<rparr>) (st s)\<rparr>)"
proof -
  obtain Q where I: "schedrep (st s) Q" "rq_ok (inqueues Q) (psts (st s)) (hands s)"
    "cpu_ok (pms (st s)) (mus (st s)) (spc s) (psts (st s))" "aff_ok (wis (st s)) (mos (st s)) (spc s)" "stat_ok (st s)"
    using schedinvE[OF assms(1)] by blast
  define t where "t = updp u (\<lambda>p. p\<lparr>pstate := x\<rparr>) (st s)"
  have T: "psts t = (psts (st s))(u := x)" "pms t = pms (st s)" "mus t = mus (st s)" "wis t = wis (st s)" "mos t = mos (st s)"
    "stat_ok t" "schedrep t Q"
    using I(1,5) schedrep_cong[of t "st s" Q] by (auto simp: t_def fun_eq_iff stat_ok_def nextp_def)
  have "rq_ok (inqueues Q) ((psts (st s))(u := x)) (hands s)" using assms(2,3) by (intro rq_state[OF I(2)]) simp_all
  then show ?thesis
    unfolding t_def[symmetric]
    using T cpu_state[OF I(3) assms(4), of u] I(4) by (intro schedinv_st[of _ Q]) simp_all
qed

lemma inv_leave1:
  assumes "schedinv s" "spc s m = Run" "mus (st s) m = Some u" "leave1 m now u (st s) = Inr t"
  shows "schedinv (s\<lparr>st := t, spc := (spc s)(m := Left)\<rparr>)"
proof -
  obtain Q where I: "schedrep (st s) Q" "rq_ok (inqueues Q) (psts (st s)) (hands s)"
    "cpu_ok (pms (st s)) (mus (st s)) (spc s) (psts (st s))" "aff_ok (wis (st s)) (mos (st s)) (spc s)" "stat_ok (st s)"
    using schedinvE[OF assms(1)] by blast
  note L = leave1_effect[OF assms(4) I(5,1,2)]
  obtain Q' where Q': "schedrep t Q'" "rq_ok (inqueues Q') (psts t) (hands s)" using L(1) by blast
  have "cpu_ok (pms (st s)) (mus (st s)) (spc s) (psts t)"
    using cpu_state[OF I(3) L(8), of u] L(7) by metis
  then have "cpu_ok (pms (st s)) (mus (st s)) ((spc s)(m := Left)) (psts t)"
    using cpu_left[of "pms (st s)" "mus (st s)" "spc s" "psts t" m u] assms(2,3) L(8) by simp
  then show ?thesis
    using Q' L aff_pc[OF I(4), of Left m] by (intro schedinvI[of _ Q']) simp_all
qed

lemma inv_leave2:
  assumes "schedinv s" "spc s m = Left" "mus (st s) m = Some u"
  shows "schedinv (s\<lparr>st := leave2 m u (st s), spc := (spc s)(m := Start)\<rparr>)"
proof -
  obtain Q where I: "schedrep (st s) Q" "rq_ok (inqueues Q) (psts (st s)) (hands s)"
    "cpu_ok (pms (st s)) (mus (st s)) (spc s) (psts (st s))" "aff_ok (wis (st s)) (mos (st s)) (spc s)" "stat_ok (st s)"
    using schedinvE[OF assms(1)] by blast
  define t where "t = leave2 m u (st s)"
  have T: "psts t = psts (st s)" "pms t = (pms (st s))(u := None)" "mus t = (mus (st s))(m := None)" "wis t = wis (st s)"
    "mos t = mos (st s)" "stat_ok t" "schedrep t Q"
    using I(5) I(1) schedrep_cong[of t "st s" Q] by (auto simp: t_def leave2_def fun_eq_iff stat_ok_def nextp_def)
  show ?thesis
    unfolding t_def[symmetric]
    using T I(2) cpu_leave[OF I(3) assms(3,2)] aff_pc[OF I(4), of Start m] by (intro schedinvI[of _ Q]) simp_all
qed

lemma inv_wakeup:
  assumes "schedinv s" "psts (st s) p \<noteq> Ready" "readyp m now p (st s) = Inr t"
  shows "schedinv (s\<lparr>st := t\<rparr>)"
proof -
  obtain Q where I: "schedrep (st s) Q" "rq_ok (inqueues Q) (psts (st s)) (hands s)"
    "cpu_ok (pms (st s)) (mus (st s)) (spc s) (psts (st s))" "aff_ok (wis (st s)) (mos (st s)) (spc s)" "stat_ok (st s)"
    using schedinvE[OF assms(1)] by blast
  have p: "p \<notin> inqueues Q" using rq_okD(1)[OF I(2), of p] assms(2) by blast
  note E = readyp_effect[OF assms(3) I(5,1) p]
  obtain Q' where Q': "schedrep t Q'" "inqueues Q' = insert p (inqueues Q)" using E(1) by blast
  show ?thesis
    using Q' rq_enqueue[OF I(2) assms(2)] cpu_state[OF I(3), of Ready p] I(4) E(7)
    by (intro schedinv_st[of _ Q']) (simp_all only: E procstate.distinct not_False_eq_True)
qed

lemma inv_rebalance:
  assumes "schedinv s" "reb s m = Some (pri, None)" "rebalance1 got m k i (st s) = Some (Inr r)"
  shows "schedinv (s\<lparr>st := rebst r, reb := (reb s)(m := Some (pri', rebmv r))\<rparr>)"
proof -
  obtain Q where I: "schedrep (st s) Q" "rq_ok (inqueues Q) (psts (st s)) (hands s)"
    "cpu_ok (pms (st s)) (mus (st s)) (spc s) (psts (st s))" "aff_ok (wis (st s)) (mos (st s)) (spc s)" "stat_ok (st s)"
    using schedinvE[OF assms(1)] by blast
  note E = rebalance1_effect[OF assms(3) I(1,5)]
  have H: "hands (s\<lparr>st := rebst r, reb := (reb s)(m := Some (pri', rebmv r))\<rparr>) = (hands s)(m := rebmv r)"
    by (auto simp: fun_eq_iff)
  have h0: "hands s m = None" using assms(2) by simp
  have "\<exists>Q'. schedrep (rebst r) Q' \<and> rq_ok (inqueues Q') (psts (st s)) ((hands s)(m := rebmv r))"
  proof (cases "rebmv r")
    case None
    then have "(hands s)(m := rebmv r) = hands s" using h0 by auto
    then show ?thesis using E(7)[OF None] I(2) by metis
  next
    case (Some q)
    obtain p n where q: "q = (p, n)" by (cases q)
    show ?thesis
      using E(8)[OF Some[unfolded q]] rq_move[OF I(2) _ h0, of p n] Some q by metis
  qed
  then obtain Q' where "schedrep (rebst r) Q'" "rq_ok (inqueues Q') (psts (st s)) ((hands s)(m := rebmv r))" by blast
  then show ?thesis
    using I(3,4) E by (intro schedinvI[of _ Q']) (simp_all only: H ssys.simps ssys.select_convs ssys.update_convs simp_thms, simp_all)
qed

lemma inv_reb_put:
  assumes "schedinv s" "reb s m = Some (pri, Some (p, n))"
  shows "schedinv (s\<lparr>st := queueproc k n p (st s), reb := (reb s)(m := Some (pri, None))\<rparr>)"
proof -
  obtain Q where I: "schedrep (st s) Q" "rq_ok (inqueues Q) (psts (st s)) (hands s)"
    "cpu_ok (pms (st s)) (mus (st s)) (spc s) (psts (st s))" "aff_ok (wis (st s)) (mos (st s)) (spc s)" "stat_ok (st s)"
    using schedinvE[OF assms(1)] by blast
  have h: "hands s m = Some (p, n)" using assms(2) by simp
  have n: "n < Nrq" using I(2) h unfolding rq_ok_def by blast
  have "p \<in> inhand (hands s)" using h unfolding inhand_def by blast
  then have "p \<notin> inqueues Q" using rq_okD(2)[OF I(2)] by blast
  then have "schedrep (queueproc k n p (st s)) (qput k n (Q k n @ [p]) Q)"
    by (intro queueproc_rep I n) (auto simp: inqueues_def)
  moreover have "rq_ok (inqueues (qput k n (Q k n @ [p]) Q)) (psts (st s)) ((hands s)(m := None))"
    unfolding inqueues_append by (rule rq_put[OF I(2) h])
  moreover have "hands (s\<lparr>st := queueproc k n p (st s), reb := (reb s)(m := Some (pri, None))\<rparr>) = (hands s)(m := None)"
    by (auto simp: fun_eq_iff)
  ultimately show ?thesis
    using I(3,4) stat_ok_queueproc[OF I(5) n] by (intro schedinvI[of _ "qput k n (Q k n @ [p]) Q"]) simp_all
qed

text \<open>Steps that change no part: time, priorities, statistics of the scheduler.\<close>

lemma inv_quiet:
  assumes "schedinv s"
    and "\<And>p. pstate (proc t p) = pstate (proc (st s) p) \<and> pmach (proc t p) = pmach (proc (st s) p) \<and> wired (proc t p) = wired (proc (st s) p)
      \<and> mp (proc t p) = mp (proc (st s) p) \<and> rnext (proc t p) = rnext (proc (st s) p)
      \<and> basepri (proc t p) < Npriq \<and> priority (proc t p) < Nrq"
    and "\<And>k. runq (run t k) = runq (run (st s) k) \<and> runvec (run t k) = runvec (run (st s) k) \<and> nrdy (run t k) = nrdy (run (st s) k)"
    and "\<And>m. mup (mach t m) = mup (mach (st s) m) \<and> msch (mach t m) = msch (mach (st s) m)"
    and "\<And>m. handof (rb m) = handof (reb s m)"
  shows "schedinv (s\<lparr>st := t, reb := rb\<rparr>)"
proof (rule schedinv_same[OF assms(1)])
  have ok: "stat_ok (st s)" using assms(1) by (simp add: schedinv_def)
  show "schedrep (st (s\<lparr>st := t, reb := rb\<rparr>)) Q = schedrep (st s) Q" for Q
    using assms(2,3) by (intro schedrep_cong) (auto simp: fun_eq_iff nextp_def)
  show "stat_ok (st (s\<lparr>st := t, reb := rb\<rparr>))" using assms(2,4) ok by (simp add: stat_ok_def)
qed (use assms(2,4,5) in \<open>simp_all add: fun_eq_iff\<close>)

lemma inv_quiet_st:
  assumes "schedinv s" "\<And>p. pstate (proc t p) = pstate (proc (st s) p) \<and> pmach (proc t p) = pmach (proc (st s) p) \<and> wired (proc t p) = wired (proc (st s) p)
      \<and> mp (proc t p) = mp (proc (st s) p) \<and> rnext (proc t p) = rnext (proc (st s) p)
      \<and> basepri (proc t p) < Npriq \<and> priority (proc t p) < Nrq"
    and "\<And>k. runq (run t k) = runq (run (st s) k) \<and> runvec (run t k) = runvec (run (st s) k) \<and> nrdy (run t k) = nrdy (run (st s) k)"
    and "\<And>m. mup (mach t m) = mup (mach (st s) m) \<and> msch (mach t m) = msch (mach (st s) m)"
  shows "schedinv (s\<lparr>st := t\<rparr>)"
  using inv_quiet[OF assms, of "reb s"] by simp

lemma schedinv_stat: "schedinv s \<Longrightarrow> basepri (proc (st s) p) < Npriq \<and> priority (proc (st s) p) < Nrq"
  by (auto simp: schedinv_def stat_ok_def)

lemma schedinv_step:
  assumes "schedinv s" "schedany aff s t"
  shows "schedinv t"
proof -
  note B = schedinv_stat[OF assms(1)]
  obtain m where "schedstep aff m s t" using assms(2) by (auto simp: schedany_def)
  then show ?thesis
  proof cases
    case (coop i p)
    have "stat_ok (st s)" using assms(1) by (simp add: schedinv_def)
    then show ?thesis using coop cooperative_ok[OF coop(3)] inv_found[OF assms(1), of m i p] by simp
  next
    case nocoop
    then show ?thesis using inv_loop[OF assms(1), of m] by simp
  next
    case (search now p i)
    then show ?thesis using inv_search[OF assms(1)] by blast
  next
    case (missed i p got t')
    then show ?thesis using inv_missed[OF assms(1)] by blast
  next
    case (take_proc i p got q t' t'')
    then show ?thesis using inv_take[OF assms(1)] by blast
  next
    case (block u x)
    then show ?thesis using inv_block[OF assms(1), of u x] by (auto simp: blocked_def)
  next
    case (delay u)
    then show ?thesis using B by (auto intro!: inv_quiet_st[OF assms(1)])
  next
    case (leave1 u now t')
    then show ?thesis using inv_leave1[OF assms(1)] by blast
  next
    case (leave2 u)
    then show ?thesis using inv_leave2[OF assms(1)] by blast
  next
    case (wakeup p now t')
    then show ?thesis using inv_wakeup[OF assms(1), of p] by (auto simp: blocked_def)
  next
    case (hz u)
    then show ?thesis using B assms(1) by (auto intro!: inv_quiet_st[OF assms(1)] simp: hzsched_def)
  next
    case (yielding u)
    then show ?thesis using B assms(1) by (auto intro!: inv_quiet_st[OF assms(1)] simp: yielding_def)
  next
    case (setpri p pri fixed)
    then show ?thesis
      using B by (auto intro!: inv_quiet_st[OF assms(1)] simp: procpriority_def Let_def Npriq_def Nrq_def)
  next
    case (tick ld)
    then show ?thesis using B by (auto intro!: inv_quiet_st[OF assms(1)])
  next
    case reb_start
    then show ?thesis using B by (auto intro!: inv_quiet[OF assms(1)])
  next
    case reb_end
    then show ?thesis using B inv_quiet[OF assms(1), of "st s" "(reb s)(m := None)"] by auto
  next
    case (reb_skip pri got t')
    then show ?thesis using inv_rebalance[OF assms(1) reb_skip(2,4), of "pri + 1"] by simp
  next
    case (reb_again pri got t')
    then show ?thesis using inv_rebalance[OF assms(1) reb_again(2,4), of pri] by (simp add: fun_upd_idem)
  next
    case (reb_move pri got p npri t')
    then show ?thesis using inv_rebalance[OF assms(1) reb_move(2,4), of pri] by simp
  next
    case (reb_put pri p npri)
    then show ?thesis using inv_reb_put[OF assms(1)] by blast
  qed
qed

section \<open>Properties\<close>

text \<open>At the start the queues are empty, no process runs and every processor looks for one.\<close>

definition schedstart :: "ssys \<Rightarrow> bool" where
  "schedstart s \<longleftrightarrow> (\<forall>p. psts (st s) p \<noteq> Ready \<and> psts (st s) p \<noteq> Running \<and> pms (st s) p = None
      \<and> (wis (st s) p = None \<or> mos (st s) p = wis (st s) p))
    \<and> (\<forall>m. mus (st s) m = None \<and> spc s m = Start \<and> reb s m = None)
    \<and> (\<forall>k. nrdy (run (st s) k) = 0 \<and> runvec (run (st s) k) = 0 \<and> runq (run (st s) k) = (\<lambda>i. \<lparr>rhead = None, rtail = None, rn = 0\<rparr>))
    \<and> stat_ok (st s)"

lemma schedstart_inv:
  assumes "schedstart s"
  shows "schedinv s"
proof (rule schedinvI[of _ "\<lambda>_ _. []"])
  show "schedrep (st s) (\<lambda>_ _. [])" using assms by (simp add: schedstart_def schedrep_def qrep_def)
  show "rq_ok (inqueues (\<lambda>_ _. [])) (psts (st s)) (hands s)"
    using assms by (simp add: schedstart_def rq_ok_def inqueues_def inhand_def)
  show "cpu_ok (pms (st s)) (mus (st s)) (spc s) (psts (st s))" using assms by (simp add: schedstart_def cpu_ok_def)
  have "mos (st s) p = Some w" if "wis (st s) p = Some w" for p w
    using assms that unfolding schedstart_def by (metis option.distinct(1))
  then show "aff_ok (wis (st s)) (mos (st s)) (spc s)" using assms by (auto simp: schedstart_def aff_ok_def)
  show "stat_ok (st s)" using assms by (simp add: schedstart_def)
qed

text \<open>What the system promises in every state.\<close>

definition schedgoal :: "ssys \<Rightarrow> bool" where
  "schedgoal s \<longleftrightarrow>
    (\<forall>m m' p. mus (st s) m = Some p \<and> mus (st s) m' = Some p \<longrightarrow> m = m')
    \<and> (\<forall>p. psts (st s) p = Running \<longrightarrow> (\<exists>m. mus (st s) m = Some p))
    \<and> (\<exists>Q. schedrep (st s) Q \<and> {p. psts (st s) p = Ready} = inqueues Q \<union> inhand (hands s) \<and> inqueues Q \<inter> inhand (hands s) = {})
    \<and> (\<forall>got m i p q t. spc s m = Found i p \<and> runtake got m (mysch m s) i p (st s) = Some (Some q, t)
        \<longrightarrow> (\<exists>u. schedto m q t = Inr u))"

lemma schedinv_goal:
  assumes "schedinv s"
  shows "schedgoal s"
proof -
  obtain Q where I: "schedrep (st s) Q" "rq_ok (inqueues Q) (psts (st s)) (hands s)"
    "cpu_ok (pms (st s)) (mus (st s)) (spc s) (psts (st s))" "aff_ok (wis (st s)) (mos (st s)) (spc s)" "stat_ok (st s)"
    using schedinvE[OF assms] by blast
  have "m = m'" if "mus (st s) m = Some p" "mus (st s) m' = Some p" for m m' p
    using that cpu_okD(1)[OF I(3), of p] by (metis option.inject)
  moreover have "\<exists>m. mus (st s) m = Some p" if "psts (st s) p = Running" for p
    using cpu_okD(3)[OF I(3) that] by blast
  moreover have "\<exists>u. schedto m q t = Inr u"
    if f: "spc s m = Found i p" "runtake got m (mysch m s) i p (st s) = Some (Some q, t)" for got m i p q t
  proof (rule schedto_runs)
    have t: "q = p" "wis t = wis (st s)" "stat_ok t" using runtake_effect[OF f(2) I(1,5)] by blast+
    show "stat_ok t" by (rule t(3))
    show "hardaffinity m (proc t q)"
      using t(1,2) aff_take(2)[OF I(4) f(1)] fun_cong[of "wis t" "wis (st s)" p] by (simp add: hardaffinity_def)
  qed
  moreover have "{p. psts (st s) p = Ready} = inqueues Q \<union> inhand (hands s) \<and> inqueues Q \<inter> inhand (hands s) = {}"
    using I(2) unfolding rq_ok_def by blast
  ultimately show ?thesis using I(1) unfolding schedgoal_def by blast
qed

interpretation schd: safety schedstart "schedany aff" schedinv schedgoal for aff
  by unfold_locales (blast intro: schedstart_inv schedinv_step schedinv_goal)+

text \<open>A system of which processor 1 makes process 0 ready and processor 0 runs it.\<close>

definition sched_ex :: schedsys where
  "sched_ex = \<lparr>proc = (\<lambda>_. \<lparr>pstate = Wakeme, rnext = None, pmach = None, mp = None, wired = None, priority = 10, basepri = 10,
      fixedpri = False, cpu = 0, lastupdate = 1, readytime = 0, delaysched = 0, nlocks = 0\<rparr>),
    run = (\<lambda>_. \<lparr>nrdy = 0, balancetime = 0, runq = (\<lambda>_. \<lparr>rhead = None, rtail = None, rn = 0\<rparr>), runvec = 0\<rparr>),
    mach = (\<lambda>_. \<lparr>msch = Some 0, color = 0, mproc = None, mup = None, readied = None, mticks = 0, schedticks = 0, mload = 0\<rparr>),
    systicks = 0, nmach = 2\<rparr>"

definition ssys_ex :: ssys where
  "ssys_ex = \<lparr>st = sched_ex, spc = (\<lambda>_. Start), reb = (\<lambda>_. None)\<rparr>"

lemma ssys_ex_start: "schedstart ssys_ex"
  by (simp add: schedstart_def ssys_ex_def sched_ex_def stat_ok_def Npriq_def Nrq_def)

lemma sched_ex_run: "\<exists>t. (schedany 0)\<^sup>*\<^sup>* ssys_ex t \<and> mus (st t) 0 = Some 0 \<and> psts (st t) 0 = Running"
proof -
  have any: "(schedany 0)\<^sup>*\<^sup>* s u" if "(schedany 0)\<^sup>*\<^sup>* s t" "schedstep 0 m t u" for s t u m
    by (rule rtranclp.rtrancl_into_rtrancl[OF that(1)]) (use that(2) in \<open>auto simp: schedany_def\<close>)
  obtain t1 where t1: "readyp 1 0 0 sched_ex = Inr t1" "rhead (runq (run t1 0) 10) = Some 0" "rnext (proc t1 0) = None"
     "pmach (proc t1 0) = None" "mp (proc t1 0) = None" "wired (proc t1 0) = None" "readied (mach t1 0) = None" "msch (mach t1 0) = Some 0"
     "mload (mach t1 0) = 0"
    by (simp add: readyp_def procsched_def schedready_def updatecpu_def reprioritize_def queueproc_def sched_ex_def Let_def
       updp_def updm_def updsch_def s32_def Scaling_def)
  obtain t2 where t2: "runtake True 0 0 10 0 t1 = Some (Some 0, t2)" "wired (proc t2 0) = None" "mload (mach t2 0) = 0"
    using t1 by (simp add: runtake_def dequeueproc_def refind_def seek.simps procsaved_def Let_def)
  obtain t3 where t3: "schedto 0 0 t2 = Inr t3" "mup (mach t3 0) = Some 0" "pstate (proc t3 0) = Running"
    using t2 by (cases "readied (mach t2 0) = Some 0") (simp_all add: schedto_def reprioritize_def hardaffinity_def Let_def)
  let ?s1 = "ssys_ex\<lparr>st := t1\<rparr>" and ?s2 = "ssys_ex\<lparr>st := t1, spc := (\<lambda>_. Start)(0 := Loop)\<rparr>"
    and ?s3 = "ssys_ex\<lparr>st := t1, spc := (\<lambda>_. Start)(0 := Found 10 0)\<rparr>"
  have "schedstep 0 1 ssys_ex ?s1"
    using schedstep.wakeup[of ssys_ex 0 1 0 t1 0] t1(1) by (simp add: ssys_ex_def blocked_def sched_ex_def)
  moreover have "schedstep 0 0 ?s1 ?s2"
    using schedstep.nocoop[of ?s1 0 0] t1(7) by (simp add: ssys_ex_def cooperative_def)
  moreover have "schedstep 0 0 ?s2 ?s3"
    using schedstep.search[of ?s2 0 0 0 0 10] t1(5) by (simp add: ssys_ex_def mayrun_def softaffinity_def Nrq_def Npriq_def)
  moreover have "schedstep 0 0 ?s3 (ssys_ex\<lparr>st := t3, spc := (\<lambda>_. Start)(0 := Run)\<rparr>)"
    using schedstep.take_proc[of ?s3 0 10 0 True 0 t2 t3 0] t1(8) t2(1) t3(1) by (simp add: ssys_ex_def mysch_def)
  ultimately have "(schedany 0)\<^sup>*\<^sup>* ssys_ex (ssys_ex\<lparr>st := t3, spc := (\<lambda>_. Start)(0 := Run)\<rparr>)"
    using any rtranclp.rtrancl_refl by metis
  then show ?thesis using t3(2,3) by (intro exI[of _ "ssys_ex\<lparr>st := t3, spc := (\<lambda>_. Start)(0 := Run)\<rparr>"]) simp
qed

text \<open>
  C10: in every state the processors reach, for all interleavings of \<open>ready\<close> of processes that wait or are new, \<open>runproc\<close>,
  \<open>schedinit\<close> and \<open>rebalance\<close>, the wiring of processes being fixed: a process runs on at most one processor, and one in the state \<open>Running\<close> on just one; a
  processor that has picked a process always gets to run it: neither the assertion that the
  process is not wired elsewhere nor the panic of \<open>reprioritize\<close> is reached.\<close>

theorem sched_exclusive:
  assumes "schedstart s" "(schedany aff)\<^sup>*\<^sup>* s t"
  shows "(mup (mach (st t) m) = Some p \<and> mup (mach (st t) m') = Some p \<longrightarrow> m = m')
    \<and> (pstate (proc (st t) p) = Running \<longrightarrow> (\<exists>m. mup (mach (st t) m) = Some p))
    \<and> (spc t m = Found i p \<and> runtake got m (mysch m t) i p (st t) = Some (Some q, t')
        \<longrightarrow> (\<exists>u. schedto m q t' = Inr u))"
  using schd.reached_goal[OF assms] unfolding schedgoal_def by blast

theorem sched_exclusive_witness:
  "\<exists>t :: ssys. mup (mach (st t) 0) = Some 0 \<and> pstate (proc (st t) 0) = Running \<and> mup (mach (st t) 1) \<noteq> Some 0"
proof -
  obtain t where t: "(schedany 0)\<^sup>*\<^sup>* ssys_ex t" "mup (mach (st t) 0) = Some 0" "pstate (proc (st t) 0) = Running"
    using sched_ex_run by blast
  show ?thesis
    using t(2,3) sched_exclusive[OF ssys_ex_start t(1), of 0 0 1] by (intro exI[of _ t]) auto
qed

text \<open>
  C11: in every state the processors reach, the run queues of each scheduler are lists of processes,
  the bit vector \<open>runvec\<close> and the counts \<open>n\<close> and \<open>nrdy\<close> agree with them (\<open>schedrep\<close>), and each process in
  the state \<open>Ready\<close> is in one queue of one scheduler, or in the hands of a processor that
  rebalances: no ready process is lost, none is queued twice, and no other is queued.\<close>

theorem ready_queued_once:
  assumes "schedstart s" "(schedany aff)\<^sup>*\<^sup>* s t"
  shows "\<exists>Q. schedrep (st t) Q \<and> {p. pstate (proc (st t) p) = Ready} = inqueues Q \<union> inhand (\<lambda>m. handof (reb t m))
    \<and> inqueues Q \<inter> inhand (\<lambda>m. handof (reb t m)) = {}"
  using schd.reached_goal[OF assms] unfolding schedgoal_def by blast

theorem ready_queued_once_witness:
  "\<exists>(t :: ssys) Q. pstate (proc (st t) 0) = Running \<and> schedrep (st t) Q \<and> 0 \<notin> inqueues Q"
proof -
  obtain t where t: "(schedany 0)\<^sup>*\<^sup>* ssys_ex t" "pstate (proc (st t) 0) = Running"
    using sched_ex_run by blast
  obtain Q where "schedrep (st t) Q" "{p. pstate (proc (st t) p) = Ready} = inqueues Q \<union> inhand (\<lambda>m. handof (reb t m))"
    using ready_queued_once[OF ssys_ex_start t(1)] by blast
  moreover from this have "0 \<notin> inqueues Q" using t(2) by force
  ultimately show ?thesis using t(2) by (intro exI[of _ t] exI[of _ Q]) auto
qed

end
