(* ===== verification/Sched_Prio.thy ===== *)
theory Sched_Prio
  imports Sched_Correct
begin

unbundle bit_operations_syntax

text \<open>
  Which process runs next: the search for the highest priority, the tests for preemption, the
  decaying cpu average and the priority computed from it.
\<close>

section \<open>The search\<close>

lemma firstable_chain:
  "chain nx h xs \<Longrightarrow> firstable h ok nx = Some (List.find ok xs)"
proof (induction xs arbitrary: h)
  case Nil
  then show ?case by (simp add: firstable.simps)
next
  case (Cons x xs)
  then show ?case by (simp add: firstable.simps[of "Some x"])
qed

text \<open>What \<open>runproc\<close> looks for: the first process that may run, in the highest queue that has one.\<close>

fun bestof :: "(nat \<Rightarrow> nat list) \<Rightarrow> (nat \<Rightarrow> bool) \<Rightarrow> nat \<Rightarrow> (nat \<times> nat) option" where
  "bestof q ok 0 = None"
| "bestof q ok (Suc i) = (case List.find ok (q i) of Some p \<Rightarrow> Some (i, p) | None \<Rightarrow> bestof q ok i)"

lemma searchrq_bestof:
  assumes "schedrep s Q"
  shows "searchrq m aff now k s n = Some (bestof (Q k) (\<lambda>p. mayrun m aff now (proc s p)) n)"
proof (induction n)
  case (Suc n)
  have "firstable (rhead (runq (run s k) n)) (\<lambda>p. mayrun m aff now (proc s p)) (\<lambda>p. rnext (proc s p))
      = Some (List.find (\<lambda>p. mayrun m aff now (proc s p)) (Q k n))"
    using firstable_chain[OF qrepD(1)[OF schedrepD(1)[OF assms]]] by (simp add: nextp_def[abs_def])
  then show ?case using Suc by (simp split: option.split)
qed simp

lemma find_split: "List.find ok xs = Some p \<Longrightarrow> \<exists>as bs. xs = as @ p # bs \<and> ok p \<and> (\<forall>x \<in> set as. \<not> ok x)"
proof (induction xs)
  case (Cons x xs)
  show ?case
  proof (cases "ok x")
    case True
    then show ?thesis using Cons.prems by (intro exI[of _ "[]"] exI[of _ xs]) auto
  next
    case False
    then obtain as bs where "xs = as @ p # bs" "ok p" "\<forall>x \<in> set as. \<not> ok x" using Cons by auto
    then show ?thesis using False by (intro exI[of _ "x # as"] exI[of _ bs]) auto
  qed
qed simp

lemma bestof_None: "bestof q ok n = None \<longleftrightarrow> (\<forall>i < n. \<forall>p \<in> set (q i). \<not> ok p)"
  by (induction n) (fastforce simp: find_None_iff less_Suc_eq split: option.splits dest: find_split)+

lemma bestof_Some:
  "bestof q ok n = Some (i, p) \<Longrightarrow> i < n \<and> ok p \<and> (\<exists>as bs. q i = as @ p # bs \<and> (\<forall>x \<in> set as. \<not> ok x))
    \<and> (\<forall>j. i < j \<longrightarrow> j < n \<longrightarrow> (\<forall>x \<in> set (q j). \<not> ok x))"
proof (induction n)
  case (Suc n)
  show ?case
  proof (cases "List.find ok (q n)")
    case None
    then have "bestof q ok n = Some (i, p)" using Suc.prems by simp
    then show ?thesis using Suc.IH None by (auto simp: find_None_iff less_Suc_eq)
  next
    case (Some x)
    then have x: "i = n" "x = p" using Suc.prems by auto
    obtain as bs where "q n = as @ p # bs" "\<forall>x \<in> set as. \<not> ok x" "ok p"
      using find_split[OF Some] x by auto
    then show ?thesis using x by (auto simp: less_Suc_eq)
  qed
qed simp

section \<open>Preemption\<close>

lemma runvec_nonzero:
  assumes "schedrep s Q"
  shows "runvec (run s k) \<noteq> 0 \<longleftrightarrow> (\<exists>i < Nrq. Q k i \<noteq> [])"
proof -
  have "runvec (run s k) \<noteq> 0 \<longleftrightarrow> (\<exists>i. bit (runvec (run s k)) i)"
    by (metis bit_0_eq bit_eqI bot_apply bot_bool_def)
  then show ?thesis using schedrepD(2,3)[OF assms, where k = k] by (meson not_le)
qed

lemma bit_low_mask: "pri < Nrq \<Longrightarrow> bit (push_bit (pri + 1) 1 - 1 :: 32 word) i \<longleftrightarrow> i \<le> pri"
proof -
  assume "pri < Nrq"
  then have *: "pri + 1 < 32" by (simp add: Nrq_def Npriq_def)
  have "push_bit (pri + 1) 1 - 1 = (mask (pri + 1) :: 32 word)" by (simp add: mask_eq_exp_minus_1)
  then show ?thesis using * by (auto simp: bit_mask_iff)
qed

text \<open>\<open>anyready\<close> and \<open>anyhigher\<close> read the queues off the bit vector.\<close>

lemma anyready_iff: "schedrep s Q \<Longrightarrow> anyready m s \<longleftrightarrow> (\<exists>i < Nrq. Q (the (msch (mach s m))) i \<noteq> [])"
  by (simp add: anyready_def runvec_nonzero)

lemma anyhigher_iff:
  assumes "schedrep s Q" "priority (proc s p) < Nrq"
  shows "anyhigher m p s \<longleftrightarrow> (\<exists>i. priority (proc s p) < i \<and> i < Nrq \<and> Q (the (msch (mach s m))) i \<noteq> [])"
proof -
  let ?k = "the (msch (mach s m))" and ?w = "push_bit (priority (proc s p) + 1) 1 - 1 :: 32 word"
  have "anyhigher m p s \<longleftrightarrow> (\<exists>i. bit (runvec (run s ?k) AND NOT ?w) i)"
    unfolding anyhigher_def by (metis bit_0_eq bit_eqI bot_apply bot_bool_def)
  also have "\<dots> \<longleftrightarrow> (\<exists>i. bit (runvec (run s ?k)) i \<and> \<not> i \<le> priority (proc s p))"
    by (simp only: bit_and_iff bit_not_iff bit_low_mask[OF assms(2)]) (metis bit_imp_le_length exp_eq_zero_iff not_le possible_bit_word)
  also have "\<dots> \<longleftrightarrow> (\<exists>i. priority (proc s p) < i \<and> i < Nrq \<and> Q ?k i \<noteq> [])"
    using schedrepD(2,3)[OF assms(1), where k = ?k] by (meson not_le)
  finally show ?thesis .
qed

section \<open>The cpu average\<close>

lemma s32_mod: "s32 (x mod 2 ^ 32) = s32 x"
  unfolding s32_def take_bit_eq_mod[symmetric] by (simp only: signed_take_bit_take_bit) simp

lemma s32_diff: "s32 (s32 x - s32 y) = s32 (x - y)"
  by (simp add: s32_def signed_take_bit_diff)

lemma sdiv_nonneg: "0 \<le> x \<Longrightarrow> 0 < y \<Longrightarrow> x sdiv y = x div (y :: int)"
  by (cases "x = 0") (simp_all add: signed_divide_int_def sgn_mult)

text \<open>The time since the last update in half ticks, while fewer than \<open>2 ^ 30\<close> ticks have passed.\<close>

lemma elapsed:
  assumes "systicks s = t0 + word_of_nat d" "d < 2 ^ 30" "lastupdate (proc s p) = s32 (uint t0 * Scaling + e)" "e = 0 \<or> e = 1"
  shows "s32 (s32 (uint (systicks s) * Scaling + Scaling div 2) - lastupdate (proc s p)) = 2 * int d + 1 - e"
proof -
  have "uint (systicks s) = (uint t0 + int d) mod 2 ^ 32"
    using assms(1,2) by (simp add: uint_word_ariths unsigned_of_nat take_bit_nat_eq_self)
  then have "s32 (uint (systicks s) * 2 + 1 - (uint t0 * 2 + e)) = s32 ((uint t0 + int d) mod 2 ^ 32 * 2 + 1 - (uint t0 * 2 + e))" by simp
  also have "\<dots> = s32 (((uint t0 + int d) mod 2 ^ 32 * 2 + 1 - (uint t0 * 2 + e)) mod 2 ^ 32)" by (simp only: s32_mod)
  also have "((uint t0 + int d) mod 2 ^ 32 * 2 + 1 - (uint t0 * 2 + e)) mod 2 ^ 32 = (2 * int d + 1 - e) mod 2 ^ 32"
  proof -
    have "((uint t0 + int d) mod 2 ^ 32 * 2 + (1 - (uint t0 * 2 + e))) mod 2 ^ 32 = ((uint t0 + int d) * 2 + (1 - (uint t0 * 2 + e))) mod 2 ^ 32"
      by (metis mod_add_left_eq mod_mult_left_eq)
    then show ?thesis by (simp add: algebra_simps)
  qed
  also have "s32 ((2 * int d + 1 - e) mod 2 ^ 32) = s32 (2 * int d + 1 - e)" by (simp only: s32_mod)
  also have "\<dots> = 2 * int d + 1 - e" using assms(2,4) by (intro s32_small) auto
  finally show ?thesis using assms(3) by (simp add: s32_diff Scaling_def)
qed

definition decay :: "int \<Rightarrow> int \<Rightarrow> int" where
  "decay n x = x * (2000 - (if n > 2000 then 2000 else n)) div 2000"

lemma decay_bounds:
  assumes "0 \<le> n" "0 \<le> x"
  shows "0 \<le> decay n x \<and> decay n x \<le> x"
proof -
  let ?d = "2000 - (if n > 2000 then 2000 else n)"
  have "0 \<le> ?d" "?d \<le> 2000" using assms(1) by auto
  then have "0 \<le> x * ?d" "x * ?d \<le> x * 2000" using assms(2) by (auto intro: mult_left_mono)
  then show ?thesis unfolding decay_def by (auto intro: order.trans[OF zdiv_mono1[of _ "x * 2000" 2000]])
qed

lemma updatecpu_value:
  assumes n: "s32 (s32 (uint (systicks s) * Scaling + Scaling div 2) - lastupdate (proc s p)) = n" "0 \<le> n"
    and c: "0 \<le> cpu (proc s p)" "cpu (proc s p) \<le> 1000" and m: "msch (mach s m) \<noteq> None"
  shows "cpu (proc (updatecpu m p s) p) =
    (if mup (mach s m) = Some p then 1000 - decay n (1000 - cpu (proc s p)) else decay n (cpu (proc s p)))"
proof (cases "n = 0")
  case True
  then show ?thesis using n by (simp add: updatecpu_def Let_def decay_def)
next
  case False
  define k where "k = (if n > 2000 then 2000 else n)"
  have k: "0 \<le> 2000 - k" "2000 - k \<le> 2000" using n(2) by (auto simp: k_def)
  have s: "s32 (2000 - k) = 2000 - k" using k by (intro s32_small) auto
  have v: "s32 (x * (2000 - k)) sdiv 2000 = decay n x" if "0 \<le> x" "x \<le> 1000" for x
  proof -
    have "0 \<le> x * (2000 - k)" using that k by simp
    moreover have "x * (2000 - k) \<le> 1000 * 2000" using that k by (intro mult_mono) auto
    ultimately show ?thesis by (simp add: s32_small sdiv_nonneg decay_def k_def)
  qed
  have a: "s32 (1000 - cpu (proc s p)) = 1000 - cpu (proc s p)" using c by (intro s32_small) auto
  have b: "s32 (1000 - decay n (1000 - cpu (proc s p))) = 1000 - decay n (1000 - cpu (proc s p))"
    using decay_bounds[OF n(2), of "1000 - cpu (proc s p)"] c by (intro s32_small) auto
  have K: "(if 2000 < n then 2000 else n) = k" by (simp add: k_def)
  have D: "Shortburst * Scaling = 2000" by (simp add: Shortburst_def HZ_def Scaling_def)
  obtain sch where "msch (mach s m) = Some sch" using m by blast
  then show ?thesis
    using False v[of "cpu (proc s p)"] v[of "1000 - cpu (proc s p)"] c a b s
    unfolding updatecpu_def Let_def n(1) D K by simp
qed

section \<open>The priority\<close>

lemma rounded_antitone:
  fixes F c c' :: int
  assumes "0 \<le> F" "0 < c" "c \<le> c'"
  shows "(F + c' div 2) div c' \<le> (F + c div 2) div c"
proof -
  define k where "k = (F + c' div 2) div c'"
  show ?thesis
  proof (cases "k \<le> 0")
    case True
    have "0 \<le> (F + c div 2) div c" using assms by (intro pos_imp_zdiv_nonneg_iff[THEN iffD2]) auto
    then show ?thesis using True k_def by linarith
  next
    case False
    let ?X = "F + c' div 2"
    have "c' * k + ?X mod c' = ?X" unfolding k_def by (rule mult_div_mod_eq)
    moreover have "0 \<le> ?X mod c'" using assms by (intro pos_mod_sign) simp
    ultimately have 1: "c' * k \<le> ?X" by linarith
    have 2: "c' - c \<le> (c' - c) * k" using False assms(3) mult_left_mono[of 1 k "c' - c"] by simp
    have 3: "c' div 2 - c div 2 \<le> c' - c" using assms(3) by presburger
    have "c * k \<le> F + c div 2" using 1 2 3 by (simp add: left_diff_distrib)
    then have "c * k div c \<le> (F + c div 2) div c" using assms(2) by (intro zdiv_mono1) simp_all
    then show ?thesis unfolding k_def[symmetric] using assms(2) by simp
  qed
qed

text \<open>The share the code computes, for a sane load and number of processors.\<close>

definition fair :: "schedsys \<Rightarrow> int" where
  "fair s = uint (nmach s) * 1000000 div mload (mach s 0)"

lemma reprioritize_value:
  assumes l: "0 < mload (mach s 0)" "mload (mach s 0) < 2 ^ 31" and nm: "uint (nmach s) \<le> 32"
    and c: "0 \<le> cpu (proc s p)" "cpu (proc s p) \<le> 1000"
  shows "reprioritize p s = Inr (nat (min (int (basepri (proc s p)))
    (let c = (if cpu (proc s p) = 0 then 1 else cpu (proc s p)) in (fair s + c div 2) div c)))"
proof -
  define ld where "ld = mload (mach s 0)"
  define c1 where "c1 = (if cpu (proc s p) = 0 then 1 else cpu (proc s p))"
  have c1: "0 < c1" "c1 \<le> 1000" using c by (auto simp: c1_def)
  have nm0: "0 \<le> uint (nmach s)" by simp
  have u: "uint (nmach s * 1000 * 1000) = uint (nmach s) * 1000000"
    using nm nm0 by (simp add: uint_word_ariths)
  have w: "uint (word_of_int ld :: 32 word) = ld" using l by (simp add: ld_def unsigned_of_int take_bit_int_eq_self)
  have "uint (nmach s * 1000 * 1000 div word_of_int ld) = fair s"
    unfolding uint_div u w by (simp only: fair_def ld_def)
  moreover have f: "0 \<le> fair s" "fair s \<le> 32000000"
  proof -
    show "0 \<le> fair s" using l nm0 by (simp add: fair_def pos_imp_zdiv_nonneg_iff)
    have "uint (nmach s) * 1000000 div mload (mach s 0) \<le> uint (nmach s) * 1000000 div 1"
      using l nm0 by (intro zdiv_mono2) auto
    then show "fair s \<le> 32000000" using nm by (simp add: fair_def)
  qed
  ultimately have fs: "sint (nmach s * 1000 * 1000 div word_of_int ld) = fair s"
    using f by (simp add: sint_uint s32_small[unfolded s32_def])
  have "s32 (fair s + c1 sdiv 2) = fair s + c1 div 2"
    using f c1 by (simp add: sdiv_nonneg s32_small)
  then have r: "s32 (fair s + c1 sdiv 2) sdiv c1 = (fair s + c1 div 2) div c1"
    using f c1 by (simp add: sdiv_nonneg)
  have "0 \<le> (fair s + c1 div 2) div c1" using f c1 by (simp add: pos_imp_zdiv_nonneg_iff)
  moreover have "(fair s + c1 div 2) div c1 \<le> fair s + c1 div 2" using zdiv_mono2[of "fair s + c1 div 2" 1 c1] f c1 by simp
  ultimately have "(fair s + c1 div 2) div c1 mod 2 ^ 32 = (fair s + c1 div 2) div c1" using f c1 by simp
  then show ?thesis
    using l \<open>0 \<le> (fair s + c1 div 2) div c1\<close> unfolding reprioritize_def Let_def ld_def[symmetric] c1_def[symmetric] fs r
    by (auto simp: min_def ld_def)
qed

section \<open>Properties\<close>

text \<open>
  C17: on run queues that are lists, the search of \<open>runproc\<close> ends, and finds the first process this
  processor may run in the highest queue that has one: none in that queue before it and none
  in a higher queue may run. It finds nothing only when no process of the scheduler may run.\<close>

theorem runproc_highest:
  assumes "schedrep s Q"
  shows "\<exists>r. searchrq m aff now k s Nrq = Some r \<and>
    (case r of
       None \<Rightarrow> \<forall>i p. p \<in> set (Q k i) \<longrightarrow> \<not> mayrun m aff now (proc s p)
     | Some (i, p) \<Rightarrow> i < Nrq \<and> mayrun m aff now (proc s p)
         \<and> (\<exists>as bs. Q k i = as @ p # bs \<and> (\<forall>x. x \<in> set as \<longrightarrow> \<not> mayrun m aff now (proc s x)))
         \<and> (\<forall>j x. i < j \<longrightarrow> x \<in> set (Q k j) \<longrightarrow> \<not> mayrun m aff now (proc s x)))"
proof -
  let ?ok = "\<lambda>p. mayrun m aff now (proc s p)"
  have small: "j < Nrq" if "x \<in> set (Q k j)" for j x
    using that schedrepD(2)[OF assms, of j k] by (cases "Nrq \<le> j") auto
  show ?thesis
  proof (cases "bestof (Q k) ?ok Nrq")
    case None
    then have "\<forall>i p. p \<in> set (Q k i) \<longrightarrow> \<not> ?ok p" unfolding bestof_None using small by blast
    then show ?thesis using searchrq_bestof[OF assms, of m aff now k Nrq] None by simp
  next
    case (Some r)
    obtain i p where r: "r = (i, p)" by (cases r)
    from bestof_Some[OF Some[unfolded r]] show ?thesis
      using searchrq_bestof[OF assms, of m aff now k Nrq] Some r small by auto
  qed
qed

definition search_ex :: schedsys where
  "search_ex = \<lparr>proc = (\<lambda>p. \<lparr>pstate = Ready, rnext = (if p = 1 then Some 2 else None), pmach = None, mp = (if p = 1 then Some 7 else None),
      wired = (if p = 1 then Some 7 else None), priority = 10, basepri = 10, fixedpri = False, cpu = 0, lastupdate = 1, readytime = 0,
      delaysched = 0, nlocks = 0\<rparr>),
    run = (\<lambda>k. if k = 0 then \<lparr>nrdy = 3, balancetime = 0, runq = (\<lambda>i. if i = 10 then \<lparr>rhead = Some 1, rtail = Some 2, rn = 2\<rparr>
        else if i = 4 then \<lparr>rhead = Some 3, rtail = Some 3, rn = 1\<rparr> else \<lparr>rhead = None, rtail = None, rn = 0\<rparr>), runvec = 0x410\<rparr>
      else \<lparr>nrdy = 0, balancetime = 0, runq = (\<lambda>_. \<lparr>rhead = None, rtail = None, rn = 0\<rparr>), runvec = 0\<rparr>),
    mach = (\<lambda>_. \<lparr>msch = Some 0, color = 0, mproc = None, mup = None, readied = None, mticks = 0, schedticks = 0, mload = 0\<rparr>),
    systicks = 0, nmach = 2\<rparr>"

definition search_q :: "nat \<Rightarrow> nat \<Rightarrow> nat list" where
  "search_q k i = (if k = 0 \<and> i = 10 then [1, 2] else if k = 0 \<and> i = 4 then [3] else [])"

lemma search_ex_rep: "schedrep search_ex search_q"
proof -
  have "bit (0x410 :: 32 word) i \<longleftrightarrow> i = 4 \<or> i = 10" for i
  proof -
    have "(0x410 :: 32 word) = push_bit 4 1 OR push_bit 10 1" by simp
    then show ?thesis by (simp only: bit_or_iff bit_push_bit_iff bit_1_iff) auto
  qed
  moreover have "(\<Sum>i<22. int (length (search_q 0 i))) = 3"
    by (simp add: search_q_def lessThan_nat_numeral lessThan_Suc)
  ultimately show ?thesis
    unfolding schedrep_def by (auto simp: qrep_def Let_def search_ex_def search_q_def nextp_def Nrq_def Npriq_def)
qed

theorem runproc_highest_witness: "searchrq 5 9 0 0 search_ex Nrq = Some (Some (10, 2))"
proof -
  obtain r where r: "searchrq 5 9 0 0 search_ex Nrq = Some r"
    "case r of None \<Rightarrow> \<forall>i p. p \<in> set (search_q 0 i) \<longrightarrow> \<not> mayrun 5 9 0 (proc search_ex p)
     | Some (i, p) \<Rightarrow> i < Nrq \<and> mayrun 5 9 0 (proc search_ex p)
         \<and> (\<exists>as bs. search_q 0 i = as @ p # bs \<and> (\<forall>x. x \<in> set as \<longrightarrow> \<not> mayrun 5 9 0 (proc search_ex x)))
         \<and> (\<forall>j x. i < j \<longrightarrow> x \<in> set (search_q 0 j) \<longrightarrow> \<not> mayrun 5 9 0 (proc search_ex x))"
    using runproc_highest[OF search_ex_rep, of 5 9 0 0] by blast
  have two: "2 \<in> set (search_q 0 10)" "mayrun 5 9 0 (proc search_ex 2)" "\<not> mayrun 5 9 0 (proc search_ex 1)"
    by (simp_all add: search_q_def mayrun_def softaffinity_def hardaffinity_def search_ex_def)
  show ?thesis
  proof (cases r)
    case None
    then show ?thesis using r(2) two by auto
  next
    case (Some ip)
    obtain i p where ip: "ip = (i, p)" by (cases ip)
    have b: "mayrun 5 9 0 (proc search_ex p)" "p \<in> set (search_q 0 i)" "\<not> i < 10" using r(2) Some ip two by auto
    then have "i = 10" "p = 2" using two(3) by (auto simp: search_q_def split: if_splits)
    then show ?thesis using r(1) Some ip by simp
  qed
qed

text \<open>
  C18: while fewer than \<open>2 ^ 30\<close> clock ticks (12 days at \<open>HZ\<close>, 1000 a second) have passed since the last
  update of a process, \<open>updatecpu\<close> keeps its cpu average between 0 and 1000; the average of the
  process that runs does not fall and that of another does not rise.\<close>

theorem updatecpu_bounds:
  assumes "systicks s = t0 + word_of_nat d" "d < 2 ^ 30"
    and "lastupdate (proc s p) = s32 (uint t0 * Scaling) \<or> lastupdate (proc s p) = s32 (uint t0 * Scaling + Scaling div 2)"
    and "msch (mach s m) \<noteq> None" "0 \<le> cpu (proc s p)" "cpu (proc s p) \<le> 1000"
  shows "0 \<le> cpu (proc (updatecpu m p s) p) \<and> cpu (proc (updatecpu m p s) p) \<le> 1000
    \<and> (if mup (mach s m) = Some p then cpu (proc s p) \<le> cpu (proc (updatecpu m p s) p)
       else cpu (proc (updatecpu m p s) p) \<le> cpu (proc s p))"
proof -
  obtain e where e: "e = 0 \<or> e = 1" "lastupdate (proc s p) = s32 (uint t0 * Scaling + e)"
    using assms(3) that[of 0] that[of 1] by (auto simp: Scaling_def)
  define n where "n = 2 * int d + 1 - e"
  have "s32 (s32 (uint (systicks s) * Scaling + Scaling div 2) - lastupdate (proc s p)) = n"
    unfolding n_def by (rule elapsed[OF assms(1,2) e(2,1)])
  moreover have n: "0 \<le> n" using e(1) by (auto simp: n_def)
  ultimately have v: "cpu (proc (updatecpu m p s) p) =
    (if mup (mach s m) = Some p then 1000 - decay n (1000 - cpu (proc s p)) else decay n (cpu (proc s p)))"
    by (rule updatecpu_value[OF _ _ assms(5,6,4)])
  show ?thesis
    using v decay_bounds[OF n, of "cpu (proc s p)"] decay_bounds[OF n, of "1000 - cpu (proc s p)"] assms(5,6) by auto
qed

definition cpu_ex :: "int \<Rightarrow> int \<Rightarrow> 32 word \<Rightarrow> schedsys" where
  "cpu_ex c l now = search_ex\<lparr>proc := (\<lambda>p. (proc search_ex p)\<lparr>cpu := c, lastupdate := l\<rparr>), systicks := now,
    mach := (\<lambda>m. (mach search_ex m)\<lparr>mload := 1000\<rparr>)\<rparr>"

theorem updatecpu_bounds_witness: "cpu (proc (updatecpu 0 1 (cpu_ex 500 20 60)) 1) \<le> 500"
  using updatecpu_bounds[of "cpu_ex 500 20 60" 10 50 1 0]
  by (simp add: cpu_ex_def search_ex_def s32_def Scaling_def)

text \<open>
  for a positive load, at most 32 processors (\<open>MACHMAX\<close>) and cpu averages between 0 and 1000,
  \<open>reprioritize\<close> does not panic and gives a priority from 0 to the base priority; of two processes
  with the same base priority the one that used less of the processor gets at least the
  priority of the other.\<close>

lemma reprioritize_fair:
  assumes "0 < mload (mach s 0)" "mload (mach s 0) < 2 ^ 31" "uint (nmach s) \<le> 32"
    and "0 \<le> cpu (proc s p)" "cpu (proc s p) \<le> cpu (proc s q)" "cpu (proc s q) \<le> 1000" "basepri (proc s p) = basepri (proc s q)"
  shows "\<exists>a b. reprioritize p s = Inr a \<and> reprioritize q s = Inr b \<and> b \<le> a \<and> a \<le> basepri (proc s p)"
proof -
  define c where "c r = (if cpu (proc s r) = 0 then 1 else cpu (proc s r))" for r
  have "0 \<le> fair s" using assms(1) by (simp add: fair_def pos_imp_zdiv_nonneg_iff)
  then have "(fair s + c q div 2) div c q \<le> (fair s + c p div 2) div c p"
    using assms(4,5) by (intro rounded_antitone) (auto simp: c_def)
  then show ?thesis
    using reprioritize_value[OF assms(1-3), of p] reprioritize_value[OF assms(1-3), of q] assms(4-7)
    unfolding c_def[symmetric] Let_def by (auto simp: min_def)
qed

text \<open>
  after a process has not run for \<open>2143191683\<close> ticks (24.8 days), the difference of the times is
  negative as an \<open>int\<close>: \<open>updatecpu\<close> turns an average of 500 into \<open>- 1001\<close>, and the process, which on the
  average of 500 has priority 4, is given its base priority.\<close>

lemma updatecpu_wraps:
  "cpu (proc (updatecpu 0 1 (cpu_ex 500 1 2143191683)) 1) = - 1001
    \<and> reprioritize 1 (cpu_ex 500 1 2143191683) = Inr 4
    \<and> reprioritize 1 (updatecpu 0 1 (cpu_ex 500 1 2143191683)) = Inr 10"
  by (simp add: updatecpu_def reprioritize_def cpu_ex_def search_ex_def s32_def Scaling_def Shortburst_def HZ_def Let_def)

section \<open>The load\<close>

text \<open>The average stays between zero and the largest value it has been fed.\<close>

lemma loadavg_bounds:
  assumes "0 \<le> ld" "ld \<le> L" "0 \<le> nready" "(nready + uint nrun) * 1000 \<le> L" "L * 999 < 2 ^ 31"
  shows "0 \<le> loadavg ld nready nrun \<and> loadavg ld nready nrun \<le> L"
proof -
  let ?n = "(nready + uint nrun) * 1000"
  have n: "0 \<le> ?n" using assms(3) by simp
  have l: "s32 (ld * 999) = ld * 999" using assms(1,2,5) by (intro s32_small) auto
  have "0 \<le> nready + uint nrun" "nready + uint nrun < 2 ^ 31" using assms(3-5) by auto
  then have w: "uint ((word_of_int nready + ucast nrun) * 1000 :: 64 word) = ?n"
    using assms(3) n by (simp add: uint_word_ariths unsigned_of_int unsigned_ucast_eq take_bit_eq_mod mod_simps)
  have "uint (word_of_int (ld * 999) + (word_of_int nready + ucast nrun) * 1000 :: 64 word) = ld * 999 + ?n"
  proof -
    have plus: "uint (a + b :: 64 word) = uint a + uint b" if "uint a + uint b < 2 ^ 64" for a b
      using that by (simp add: uint_word_ariths)
    have "uint (word_of_int (ld * 999) :: 64 word) = ld * 999"
      using assms(1,2,5) by (simp add: unsigned_of_int take_bit_int_eq_self del: of_int_mult)
    then show ?thesis using plus[of "word_of_int (ld * 999)" "(word_of_int nready + ucast nrun) * 1000"] assms(2,4,5) w by simp
  qed
  then have v: "uint ((word_of_int (ld * 999) + (word_of_int nready + ucast nrun) * 1000) div 1000 :: 64 word) = (ld * 999 + ?n) div 1000"
    by (simp add: uint_div)
  have b: "0 \<le> (ld * 999 + ?n) div 1000" "(ld * 999 + ?n) div 1000 \<le> L" using assms(1,2,4) n by linarith+
  show ?thesis
    unfolding loadavg_def Let_def HZ_def using b assms(5) v l
    by (simp add: sint_uint unsigned_ucast_eq take_bit_int_eq_self s32_small[unfolded s32_def])
qed

end
