(* ===== verification/Sema.thy ===== *)
theory Sema
  imports Plan9_Prelude
begin

text \<open>
  The semaphores of user processes (\<open>src/port/sysproc.c\<close>): \<open>semacquire\<close>, \<open>tsemacquire\<close> and
  \<open>semrelease\<close>. Their value is in user memory and is changed by compare-and-swap only; the list
  of waiters is under a spin lock, and the value is never looked at with the lock held.

  The model is a step relation: a process has a program point, and one step is one action
  that other processors can see. A \<open>cas32\<close> loop is one step, where it succeeds; the short
  sections of \<open>semqueue\<close> and \<open>semdequeue\<close> are one step while the lock is free; \<open>semwakeup\<close> takes the
  lock, clears \<open>waiting\<close>, calls \<open>wakeup\<close> and goes on in separate steps. \<open>sleep\<close> tests its condition
  and goes to sleep in one step, as \<open>sleep\<close> and \<open>wakeup\<close> do under the lock of the \<open>Rendez\<close>.
\<close>

section \<open>State\<close>

text \<open>What follows the call of \<open>semwakeup\<close>: the end of an acquire, or of a release.\<close>

datatype after = Acq bool | Rel

datatype spc =
    Out                       \<comment> \<open>not in a call\<close>
  | Queue                     \<comment> \<open>before \<open>semqueue\<close>\<close>
  | Top                       \<comment> \<open>before \<open>phore.waiting = 1\<close>\<close>
  | Try                       \<comment> \<open>before \<open>canacquire\<close>\<close>
  | Sleep                     \<comment> \<open>before the test of \<open>sleep\<close>\<close>
  | Asleep
  | Deq bool                  \<comment> \<open>before \<open>semdequeue\<close>, with \<open>acquired\<close>\<close>
  | Check bool                \<comment> \<open>before \<open>if(!phore.waiting)\<close>\<close>
  | WLock int after           \<comment> \<open>in \<open>semwakeup\<close>, before \<open>lock\<close>, with \<open>n\<close>\<close>
  | Walk int "nat list" after \<comment> \<open>at the head of the loop, with \<open>n\<close> and the rest of the list\<close>
  | WWake nat int "nat list" after \<comment> \<open>before \<open>wakeup(p)\<close>\<close>

text \<open>
  \<open>sval\<close> is \<open>*addr\<close> for each address. For each process, \<open>swait\<close> is \<open>phore.waiting\<close>, \<open>saddr\<close> its
  address, \<open>sms\<close> the time left in a \<open>tsemacquire\<close>, and \<open>sres\<close> what its last call returned.
  \<open>slist\<close> is the list of the segment, and \<open>snp\<close> the number of processes.
\<close>

record semsys =
  snp :: nat
  sval :: "nat \<Rightarrow> int"
  slist :: "nat list"
  slock :: "nat option"
  swait :: "nat \<Rightarrow> bool"
  saddr :: "nat \<Rightarrow> nat"
  sms :: "nat \<Rightarrow> int option"
  spc :: "nat \<Rightarrow> spc"
  sres :: "nat \<Rightarrow> int outcome option"

section \<open>Actions\<close>

definition canacquire :: "int \<Rightarrow> int option" where
  "canacquire value = (if value > 0 then Some (value - 1) else None)"

definition goto :: "nat \<Rightarrow> spc \<Rightarrow> semsys \<Rightarrow> semsys" where
  "goto u c s = s\<lparr>spc := (spc s)(u := c)\<rparr>"

definition returns :: "nat \<Rightarrow> int outcome \<Rightarrow> semsys \<Rightarrow> semsys" where
  "returns u r s = (goto u Out s)\<lparr>sres := (sres s)(u := Some r)\<rparr>"

definition semqueue :: "nat \<Rightarrow> semsys \<Rightarrow> semsys" where
  "semqueue u s = s\<lparr>swait := (swait s)(u := False), slist := slist s @ [u]\<rparr>"

definition semdequeue :: "nat \<Rightarrow> semsys \<Rightarrow> semsys" where
  "semdequeue u s = s\<lparr>slist := remove1 u (slist s)\<rparr>"

definition semawoke :: "nat \<Rightarrow> semsys \<Rightarrow> bool" where
  "semawoke u s \<longleftrightarrow> \<not> swait s u"

text \<open>After \<open>sleep\<close> the loop starts again; after \<open>tsleep\<close> the elapsed time \<open>d\<close> is taken off first.\<close>

definition resume :: "nat \<Rightarrow> int \<Rightarrow> semsys \<Rightarrow> semsys" where
  "resume u d s =
    (case sms s u of
       None \<Rightarrow> goto u Top s
     | Some ms \<Rightarrow>
         let s = s\<lparr>sms := (sms s)(u := Some (ms - d))\<rparr>
         in if ms - d \<le> 0 then goto u (Deq False) s else goto u Top s)"

text \<open>
  The end of \<open>semacquire\<close> and \<open>tsemacquire\<close>: \<open>nexterror\<close> raises the error that ended the sleep.
\<close>

definition acquired_result :: "int option \<Rightarrow> bool \<Rightarrow> int outcome" where
  "acquired_result ms acquired =
    (case ms of
       Some m \<Rightarrow> if m \<le> 0 then Returns 0 else if \<not> acquired then Raises ''interrupted'' else Returns 1
     | None \<Rightarrow> if \<not> acquired then Raises ''interrupted'' else Returns 1)"

definition finish :: "nat \<Rightarrow> after \<Rightarrow> semsys \<Rightarrow> semsys" where
  "finish u k s = (case k of Rel \<Rightarrow> goto u Out s | Acq acquired \<Rightarrow> returns u (acquired_result (sms s u) acquired) s)"

section \<open>Steps\<close>

text \<open>
  The system calls check their arguments first: \<open>validaddr\<close> and \<open>seg\<close> find the address in a
  segment, and a negative value or count is an error. \<open>ok\<close> tells whether they find it.
\<close>

datatype semcall = Acquire bool | Tacquire int | Release int

definition semargs :: "bool \<Rightarrow> int \<Rightarrow> semcall \<Rightarrow> bool" where
  "semargs ok value c = (ok \<and> \<not> value < 0 \<and> (case c of Release delta \<Rightarrow> \<not> delta < 0 | _ \<Rightarrow> True))"

inductive sstep :: "semsys \<Rightarrow> semsys \<Rightarrow> bool" where
  bad: "u < snp s \<Longrightarrow> spc s u = Out \<Longrightarrow> \<not> semargs ok (sval s a) c \<Longrightarrow> sstep s (returns u (Raises ''bad arg'') s)"
| fast: "u < snp s \<Longrightarrow> spc s u = Out \<Longrightarrow> semargs ok (sval s a) c \<Longrightarrow> c = Acquire b \<or> c = Tacquire ms
    \<Longrightarrow> canacquire (sval s a) = Some v \<Longrightarrow> sstep s (returns u (Returns 1) (s\<lparr>sval := (sval s)(a := v)\<rparr>))"
| poll: "u < snp s \<Longrightarrow> spc s u = Out \<Longrightarrow> semargs ok (sval s a) c \<Longrightarrow> c = Acquire False \<or> c = Tacquire 0
    \<Longrightarrow> canacquire (sval s a) = None \<Longrightarrow> sstep s (returns u (Returns 0) s)"
| block: "u < snp s \<Longrightarrow> spc s u = Out \<Longrightarrow> semargs ok (sval s a) c
    \<Longrightarrow> c = Acquire True \<and> ms = None \<or> c = Tacquire m \<and> m \<noteq> 0 \<and> ms = Some m \<Longrightarrow> canacquire (sval s a) = None
    \<Longrightarrow> sstep s (goto u Queue (s\<lparr>saddr := (saddr s)(u := a), sms := (sms s)(u := ms)\<rparr>))"
| queue: "u < snp s \<Longrightarrow> spc s u = Queue \<Longrightarrow> slock s = None \<Longrightarrow> sstep s (goto u Top (semqueue u s))"
| top: "u < snp s \<Longrightarrow> spc s u = Top \<Longrightarrow> sstep s (goto u Try (s\<lparr>swait := (swait s)(u := True)\<rparr>))"
| try_ok: "u < snp s \<Longrightarrow> spc s u = Try \<Longrightarrow> canacquire (sval s (saddr s u)) = Some v
    \<Longrightarrow> sstep s (goto u (Deq True) (s\<lparr>sval := (sval s)(saddr s u := v)\<rparr>))"
| try_fail: "u < snp s \<Longrightarrow> spc s u = Try \<Longrightarrow> canacquire (sval s (saddr s u)) = None \<Longrightarrow> sstep s (goto u Sleep s)"
| sleep_not: "u < snp s \<Longrightarrow> spc s u = Sleep \<Longrightarrow> semawoke u s \<Longrightarrow> 0 \<le> d \<Longrightarrow> sstep s (resume u d s)"
| sleep_on: "u < snp s \<Longrightarrow> spc s u = Sleep \<Longrightarrow> \<not> semawoke u s \<Longrightarrow> sstep s (goto u Asleep s)"
| note_: "u < snp s \<Longrightarrow> spc s u = Sleep \<or> spc s u = Asleep \<Longrightarrow> sstep s (goto u (Deq False) s)"
| timeout: "u < snp s \<Longrightarrow> spc s u = Asleep \<Longrightarrow> sms s u = Some m \<Longrightarrow> 0 \<le> d \<Longrightarrow> sstep s (resume u d s)"
| dequeue: "u < snp s \<Longrightarrow> spc s u = Deq acq \<Longrightarrow> slock s = None \<Longrightarrow> sstep s (goto u (Check acq) (semdequeue u s))"
| check_pass: "u < snp s \<Longrightarrow> spc s u = Check acq \<Longrightarrow> \<not> swait s u \<Longrightarrow> sstep s (goto u (WLock 1 (Acq acq)) s)"
| check_done: "u < snp s \<Longrightarrow> spc s u = Check acq \<Longrightarrow> swait s u \<Longrightarrow> sstep s (finish u (Acq acq) s)"
| release: "u < snp s \<Longrightarrow> spc s u = Out \<Longrightarrow> semargs ok (sval s a) (Release delta)
    \<Longrightarrow> sstep s (goto u (WLock delta Rel) (s\<lparr>sval := (sval s)(a := s32 (sval s a + delta)), saddr := (saddr s)(u := a)\<rparr>))"
| wlock: "u < snp s \<Longrightarrow> spc s u = WLock n k \<Longrightarrow> slock s = None \<Longrightarrow> sstep s (goto u (Walk n (slist s) k) (s\<lparr>slock := Some u\<rparr>))"
| walk_end: "u < snp s \<Longrightarrow> spc s u = Walk n rest k \<Longrightarrow> rest = [] \<or> \<not> n > 0 \<Longrightarrow> sstep s (finish u k (s\<lparr>slock := None\<rparr>))"
| walk_skip: "u < snp s \<Longrightarrow> spc s u = Walk n (p # rest) k \<Longrightarrow> n > 0 \<Longrightarrow> \<not> (saddr s p = saddr s u \<and> swait s p)
    \<Longrightarrow> sstep s (goto u (Walk n rest k) s)"
| walk_hit: "u < snp s \<Longrightarrow> spc s u = Walk n (p # rest) k \<Longrightarrow> n > 0 \<Longrightarrow> saddr s p = saddr s u \<Longrightarrow> swait s p
    \<Longrightarrow> sstep s (goto u (WWake p (n - 1) rest k) (s\<lparr>swait := (swait s)(p := False)\<rparr>))"
| wake_up: "u < snp s \<Longrightarrow> spc s u = WWake p n rest k \<Longrightarrow> spc s p = Asleep \<Longrightarrow> 0 \<le> d
    \<Longrightarrow> sstep s (goto u (Walk n rest k) (resume p d s))"
| wake_none: "u < snp s \<Longrightarrow> spc s u = WWake p n rest k \<Longrightarrow> spc s p \<noteq> Asleep \<Longrightarrow> sstep s (goto u (Walk n rest k) s)"

end
