(* ===== verification/Sema_Correct.thy ===== *)
theory Sema_Correct
  imports Sema
begin

text \<open>
  The semaphores do not lose a wakeup, for any number of processes, addresses and notes: tickets
  are never available while every waiter sleeps.

  The proof counts, for a waiter that is about to sleep or asleep with \<open>waiting\<close> set, the tries
  and wakeups still to come: each process is worth the tries it will make and the calls of
  \<open>wakeup\<close> it owes or will pass on, and the one that walks the list is worth its \<open>n\<close> to the
  waiters it has not passed yet. The value of the semaphore is never above that sum.
\<close>

section \<open>Accounting\<close>

fun onlist :: "spc \<Rightarrow> bool" where
  "onlist Top = True"
| "onlist Try = True"
| "onlist Sleep = True"
| "onlist Asleep = True"
| "onlist (Deq acq) = True"
| "onlist _ = False"

fun walks :: "spc \<Rightarrow> bool" where
  "walks (Walk n rest k) = True"
| "walks (WWake p n rest k) = True"
| "walks _ = False"

text \<open>What a process at point \<open>c\<close> with its flag \<open>waiting\<close> is worth to the waiter \<open>x\<close>.\<close>

fun worth :: "nat \<Rightarrow> bool \<Rightarrow> spc \<Rightarrow> int" where
  "worth x w Out = 0"
| "worth x w Queue = 0"
| "worth x w Try = (if w then 1 else 2)"
| "worth x w Top = (if w then 0 else 1)"
| "worth x w Sleep = (if w then 0 else 1)"
| "worth x w Asleep = (if w then 0 else 1)"
| "worth x w (Deq acq) = (if w then 0 else 1)"
| "worth x w (Check acq) = (if w then 0 else 1)"
| "worth x w (WLock n k) = n"
| "worth x w (Walk n rest k) = (if x \<in> set rest then n else 0)"
| "worth x w (WWake p n rest k) = (if x \<in> set rest then n else 0)"

definition credit :: "semsys \<Rightarrow> nat \<Rightarrow> nat \<Rightarrow> nat \<Rightarrow> int" where
  "credit s a x u = (if saddr s u = a then worth x (swait s u) (spc s u) else 0)"

definition stuck :: "semsys \<Rightarrow> nat \<Rightarrow> bool" where
  "stuck s x \<longleftrightarrow> (spc s x = Sleep \<or> spc s x = Asleep) \<and> swait s x"

definition balance :: "semsys \<Rightarrow> bool" where
  "balance s \<longleftrightarrow> (\<forall>x. stuck s x \<longrightarrow> sval s (saddr s x) \<le> (\<Sum>u \<in> {..<snp s}. credit s (saddr s x) x u))"

fun owed :: "spc \<Rightarrow> int" where
  "owed (WLock n k) = n"
| "owed (Walk n rest k) = n"
| "owed (WWake p n rest k) = n"
| "owed _ = 0"

fun ahead :: "spc \<Rightarrow> nat list" where
  "ahead (Walk n rest k) = rest"
| "ahead (WWake p n rest k) = p # rest"
| "ahead _ = []"

definition shape :: "semsys \<Rightarrow> bool" where
  "shape s \<longleftrightarrow> distinct (slist s) \<and> (\<forall>u. u \<in> set (slist s) \<longleftrightarrow> onlist (spc s u)) \<and> (\<forall>u. spc s u \<noteq> Out \<longrightarrow> u < snp s)
    \<and> (\<forall>u. slock s = Some u \<longleftrightarrow> walks (spc s u)) \<and> (\<forall>u. set (ahead (spc s u)) \<subseteq> set (slist s))
    \<and> (\<forall>u. distinct (ahead (spc s u))) \<and> (\<forall>u. 0 \<le> owed (spc s u)) \<and> (\<forall>a. - (2 ^ 31) \<le> sval s a \<and> sval s a < 2 ^ 31)
    \<and> (\<forall>p. spc s p = Asleep \<and> \<not> swait s p \<longrightarrow> (\<exists>u n rest k. spc s u = WWake p n rest k \<and> saddr s u = saddr s p))"

lemma shapeD:
  assumes "shape s"
  shows "distinct (slist s)" and "u \<in> set (slist s) \<longleftrightarrow> onlist (spc s u)" and "spc s u \<noteq> Out \<Longrightarrow> u < snp s"
    and "slock s = Some u \<longleftrightarrow> walks (spc s u)" and "set (ahead (spc s u)) \<subseteq> set (slist s)" and "distinct (ahead (spc s u))"
    and "0 \<le> owed (spc s u)" and "- (2 ^ 31) \<le> sval s a" and "sval s a < 2 ^ 31"
    and "spc s p = Asleep \<Longrightarrow> \<not> swait s p \<Longrightarrow> \<exists>u n rest k. spc s u = WWake p n rest k \<and> saddr s u = saddr s p"
  using assms unfolding shape_def by blast+

lemma shapeI:
  assumes "distinct (slist s)" and "\<And>u. u \<in> set (slist s) \<longleftrightarrow> onlist (spc s u)" and "\<And>u. spc s u \<noteq> Out \<Longrightarrow> u < snp s"
    and "\<And>u. slock s = Some u \<longleftrightarrow> walks (spc s u)" and "\<And>u. set (ahead (spc s u)) \<subseteq> set (slist s)"
    and "\<And>u. distinct (ahead (spc s u))" and "\<And>u. 0 \<le> owed (spc s u)" and "\<And>a. - (2 ^ 31) \<le> sval s a \<and> sval s a < 2 ^ 31"
    and "\<And>p. spc s p = Asleep \<Longrightarrow> \<not> swait s p \<Longrightarrow> \<exists>u n rest k. spc s u = WWake p n rest k \<and> saddr s u = saddr s p"
  shows "shape s"
  using assms unfolding shape_def by blast

lemma sum_le_upd:
  fixes f g :: "nat \<Rightarrow> int"
  assumes "u < N" and "\<And>v. v < N \<Longrightarrow> v \<noteq> u \<Longrightarrow> f v \<le> g v" and "f u + d \<le> g u"
  shows "sum f {..<N} + d \<le> sum g {..<N}"
proof -
  have "sum f {..<N} = f u + sum f ({..<N} - {u})" "sum g {..<N} = g u + sum g ({..<N} - {u})"
    using assms(1) by (simp_all add: sum.remove)
  moreover have "sum f ({..<N} - {u}) \<le> sum g ({..<N} - {u})" using assms(2) by (intro sum_mono) auto
  ultimately show ?thesis using assms(3) by simp
qed

lemma worth_nonneg: "0 \<le> owed c \<Longrightarrow> 0 \<le> worth x w c"
  by (cases c) auto

lemma credits_nonneg: "shape s \<Longrightarrow> 0 \<le> (\<Sum>u \<in> {..<snp s}. credit s a x u)"
  by (intro sum_nonneg) (auto simp: credit_def shape_def worth_nonneg)

text \<open>To keep the balance, a step must be worth, to those stuck, what it adds to the value.\<close>

lemma balanceI:
  assumes b: "balance s" and sh: "shape s'" and n: "snp s' = snp s"
    and st: "\<And>x. stuck s' x \<Longrightarrow> 0 < sval s' (saddr s' x) \<Longrightarrow> stuck s x \<and> saddr s' x = saddr s x
      \<and> (\<Sum>u \<in> {..<snp s}. credit s (saddr s x) x u) + (sval s' (saddr s x) - sval s (saddr s x))
        \<le> (\<Sum>u \<in> {..<snp s}. credit s' (saddr s x) x u)"
  shows "balance s'"
  unfolding balance_def
proof (intro allI impI)
  fix x assume x: "stuck s' x"
  show "sval s' (saddr s' x) \<le> (\<Sum>u \<in> {..<snp s'}. credit s' (saddr s' x) x u)"
  proof (cases "0 < sval s' (saddr s' x)")
    case True
    have "stuck s x" and a: "saddr s' x = saddr s x" and le: "(\<Sum>u \<in> {..<snp s}. credit s (saddr s x) x u)
      + (sval s' (saddr s x) - sval s (saddr s x)) \<le> (\<Sum>u \<in> {..<snp s}. credit s' (saddr s x) x u)"
      using st[OF x True] by auto
    then have "sval s (saddr s x) \<le> (\<Sum>u \<in> {..<snp s}. credit s (saddr s x) x u)" using b by (simp add: balance_def)
    then show ?thesis using le a n by simp
  next
    case False
    then show ?thesis using credits_nonneg[OF sh] by (meson linorder_not_less order_trans)
  qed
qed

text \<open>The steps that move one process \<open>u\<close>.\<close>

lemma balance_move:
  assumes b: "balance s" and sh: "shape s'" and u: "u < snp s" and n: "snp s' = snp s"
    and same: "\<And>v. v \<noteq> u \<Longrightarrow> saddr s' v = saddr s v \<and> spc s' v = spc s v \<and> swait s' v = swait s v"
    and self: "stuck s' u \<Longrightarrow> 0 < sval s' (saddr s' u) \<Longrightarrow> stuck s u \<and> saddr s' u = saddr s u"
    and st: "\<And>a x. stuck s x \<Longrightarrow> stuck s' x \<Longrightarrow> saddr s x = a \<Longrightarrow> 0 < sval s' a \<Longrightarrow>
      credit s a x u + (sval s' a - sval s a) \<le> credit s' a x u"
  shows "balance s'"
proof (rule balanceI[OF b sh n])
  fix x assume x: "stuck s' x" "0 < sval s' (saddr s' x)"
  have sx: "stuck s x" "saddr s' x = saddr s x" using x self same[of x] by (cases "x = u"; auto simp: stuck_def)+
  have "(\<Sum>v \<in> {..<snp s}. credit s (saddr s x) x v) + (sval s' (saddr s x) - sval s (saddr s x))
    \<le> (\<Sum>v \<in> {..<snp s}. credit s' (saddr s x) x v)"
    using st[OF sx(1) x(1) refl] x(2) sx(2) same by (intro sum_le_upd[OF u]) (auto simp: credit_def)
  then show "stuck s x \<and> saddr s' x = saddr s x \<and> (\<Sum>u \<in> {..<snp s}. credit s (saddr s x) x u)
      + (sval s' (saddr s x) - sval s (saddr s x)) \<le> (\<Sum>u \<in> {..<snp s}. credit s' (saddr s x) x u)"
    using sx by blast
qed

lemma shape_move:
  assumes sh: "shape s" and u: "u < snp s" and n: "snp s' = snp s" "slist s' = slist s" "slock s' = slock s"
    and same: "\<And>v. v \<noteq> u \<Longrightarrow> saddr s' v = saddr s v \<and> spc s' v = spc s v \<and> swait s' v = swait s v"
    and val: "\<And>a. - (2 ^ 31) \<le> sval s' a \<and> sval s' a < 2 ^ 31"
    and c: "onlist (spc s' u) = onlist (spc s u)" "walks (spc s' u) = walks (spc s u)" "0 \<le> owed (spc s' u)"
    and ah: "set (ahead (spc s' u)) \<subseteq> set (ahead (spc s u))" "distinct (ahead (spc s' u))"
    and sl: "spc s' u = Asleep \<Longrightarrow> swait s' u" and nw: "\<And>p m rest k. spc s u \<noteq> WWake p m rest k"
  shows "shape s'"
proof -
  have "onlist (spc s' v) = onlist (spc s v) \<and> walks (spc s' v) = walks (spc s v) \<and> 0 \<le> owed (spc s' v)
    \<and> set (ahead (spc s' v)) \<subseteq> set (slist s) \<and> distinct (ahead (spc s' v))" for v
    using shapeD(5-7)[OF sh, of v] same[of v] c ah by (cases "v = u") auto
  moreover have "\<exists>w m rest k. spc s' w = WWake p m rest k \<and> saddr s' w = saddr s' p" if p: "spc s' p = Asleep" "\<not> swait s' p" for p
  proof -
    have "p \<noteq> u" using p sl by auto
    then obtain w m rest k where w: "spc s w = WWake p m rest k" "saddr s w = saddr s p" using shapeD(10)[OF sh, of p] p same[of p] by auto
    then have "w \<noteq> u" using nw by auto
    then have "spc s' w = WWake p m rest k" "saddr s' w = saddr s' p" using w same[of w] same[OF \<open>p \<noteq> u\<close>] by simp_all
    then show ?thesis by blast
  qed
  moreover have "v < snp s" if "spc s' v \<noteq> Out" for v using shapeD(3)[OF sh, of v] u same[of v] that by (cases "v = u") auto
  ultimately show ?thesis using sh n val by (simp add: shape_def)
qed

lemmas sem_defs = goto_def returns_def semqueue_def semdequeue_def semawoke_def

lemma resume_form: "\<exists>c ms. resume u d s = goto u c (s\<lparr>sms := ms\<rparr>) \<and> (c = Top \<or> c = Deq False)"
proof (cases "sms s u")
  case None
  then show ?thesis by (intro exI[of _ Top] exI[of _ "sms s"]) (simp add: resume_def)
next
  case (Some m)
  then show ?thesis by (auto simp: resume_def Let_def)
qed

lemma finish_form: "\<exists>r. finish u k s = (goto u Out s)\<lparr>sres := r\<rparr>"
proof (cases k)
  case Rel
  then show ?thesis by (intro exI[of _ "sres s"]) (simp add: finish_def goto_def)
qed (auto simp: finish_def returns_def)

definition seminv :: "semsys \<Rightarrow> bool" where
  "seminv s \<longleftrightarrow> shape s \<and> balance s"

lemma seminv_move:
  assumes i: "seminv s" and u: "u < snp s" and n: "snp s' = snp s" "slist s' = slist s" "slock s' = slock s"
    and same: "\<And>v. v \<noteq> u \<Longrightarrow> saddr s' v = saddr s v \<and> spc s' v = spc s v \<and> swait s' v = swait s v"
    and val: "\<And>a. - (2 ^ 31) \<le> sval s' a \<and> sval s' a < 2 ^ 31"
    and c: "onlist (spc s' u) = onlist (spc s u)" "walks (spc s' u) = walks (spc s u)" "0 \<le> owed (spc s' u)"
    and ah: "set (ahead (spc s' u)) \<subseteq> set (ahead (spc s u))" "distinct (ahead (spc s' u))"
    and sl: "spc s' u = Asleep \<Longrightarrow> swait s' u" and nw: "\<And>p m rest k. spc s u \<noteq> WWake p m rest k"
    and self: "stuck s' u \<Longrightarrow> 0 < sval s' (saddr s' u) \<Longrightarrow> stuck s u \<and> saddr s' u = saddr s u"
    and st: "\<And>a x. stuck s x \<Longrightarrow> stuck s' x \<Longrightarrow> saddr s x = a \<Longrightarrow> 0 < sval s' a \<Longrightarrow>
      credit s a x u + (sval s' a - sval s a) \<le> credit s' a x u"
  shows "seminv s'"
proof -
  have sb: "shape s" "balance s" using i by (simp_all add: seminv_def)
  have sh: "shape s'" by (rule shape_move[OF sb(1) u n same val c ah sl nw])
  have "balance s'" by (rule balance_move[OF sb(2) sh u n(1) same self st])
  then show ?thesis using sh by (simp add: seminv_def)
qed

lemma seminv_val: "seminv s \<Longrightarrow> - (2 ^ 31) \<le> sval s a \<and> sval s a < 2 ^ 31"
  by (simp add: seminv_def shape_def)

text \<open>Calls that begin or end without touching the list.\<close>

lemma seminv_returns:
  assumes i: "seminv s" and "u < snp s" and "spc s u = Out \<or> (\<exists>acq. spc s u = Check acq \<and> swait s u)"
  shows "seminv ((goto u Out s)\<lparr>sres := r\<rparr>)"
  using assms seminv_val[OF i]
  by (intro seminv_move[OF i, of u]) (auto simp: goto_def stuck_def credit_def)

lemma canacquire_Some: "canacquire v = Some v' \<longleftrightarrow> 0 < v \<and> v' = v - 1"
  and canacquire_None: "canacquire v = None \<longleftrightarrow> v \<le> 0"
  by (auto simp: canacquire_def)

lemma canacquire_val: "seminv s \<Longrightarrow> canacquire (sval s a) = Some v \<Longrightarrow> - (2 ^ 31) \<le> v \<and> v < 2 ^ 31"
  using seminv_val[of s a] by (auto simp: canacquire_Some)

lemma seminv_fast:
  assumes i: "seminv s" and "u < snp s" and "spc s u = Out" and "canacquire (sval s a) = Some v"
  shows "seminv (returns u r (s\<lparr>sval := (sval s)(a := v)\<rparr>))"
  using assms seminv_val[OF i] canacquire_val[OF i assms(4)]
  by (intro seminv_move[OF i, of u]) (auto simp: sem_defs stuck_def credit_def canacquire_Some)

lemma seminv_block:
  assumes i: "seminv s" and "u < snp s" and "spc s u = Out"
  shows "seminv (goto u Queue (s\<lparr>saddr := (saddr s)(u := a), sms := ms\<rparr>))"
  using assms seminv_val[OF i]
  by (intro seminv_move[OF i, of u]) (auto simp: sem_defs stuck_def credit_def)

lemma seminv_top:
  assumes i: "seminv s" and "u < snp s" and "spc s u = Top"
  shows "seminv (goto u Try (s\<lparr>swait := (swait s)(u := True)\<rparr>))"
  using assms seminv_val[OF i]
  by (intro seminv_move[OF i, of u]) (auto simp: sem_defs stuck_def credit_def)

lemma seminv_try_ok:
  assumes i: "seminv s" and "u < snp s" and "spc s u = Try" and "canacquire (sval s (saddr s u)) = Some v"
  shows "seminv (goto u (Deq True) (s\<lparr>sval := (sval s)(saddr s u := v)\<rparr>))"
  using assms seminv_val[OF i] canacquire_val[OF i assms(4)]
  by (intro seminv_move[OF i, of u]) (auto simp: sem_defs stuck_def credit_def canacquire_Some)

lemma seminv_try_fail:
  assumes i: "seminv s" and "u < snp s" and "spc s u = Try" and "canacquire (sval s (saddr s u)) = None"
  shows "seminv (goto u Sleep s)"
  using assms seminv_val[OF i]
  by (intro seminv_move[OF i, of u]) (auto simp: sem_defs stuck_def credit_def canacquire_None)

lemma seminv_unsleep:
  assumes i: "seminv s" and "u < snp s" and "spc s u = Sleep \<or> spc s u = Asleep" and "c = Top \<or> c = Deq False"
  shows "seminv (goto u c (s\<lparr>sms := ms\<rparr>))"
  using assms seminv_val[OF i]
  by (intro seminv_move[OF i, of u]) (auto simp: sem_defs stuck_def credit_def)

lemma seminv_sleep_on:
  assumes i: "seminv s" and "u < snp s" and "spc s u = Sleep" and "\<not> semawoke u s"
  shows "seminv (goto u Asleep s)"
  using assms seminv_val[OF i]
  by (intro seminv_move[OF i, of u]) (auto simp: sem_defs stuck_def credit_def)

lemma seminv_pass:
  assumes i: "seminv s" and "u < snp s" and "spc s u = Check acq" and "\<not> swait s u"
  shows "seminv (goto u (WLock 1 (Acq acq)) s)"
  using assms seminv_val[OF i]
  by (intro seminv_move[OF i, of u]) (auto simp: sem_defs stuck_def credit_def)

lemma seminv_release:
  assumes i: "seminv s" and "u < snp s" and "spc s u = Out" and d: "0 \<le> delta" and v: "0 \<le> sval s a"
  shows "seminv (goto u (WLock delta Rel) (s\<lparr>sval := (sval s)(a := s32 (sval s a + delta)), saddr := (saddr s)(u := a)\<rparr>))"
proof -
  have "s32 (sval s a + delta) \<le> sval s a + delta" using d v by (intro s32_le) simp
  then show ?thesis using assms seminv_val[OF i] s32_ge[of "sval s a + delta"] s32_less[of "sval s a + delta"]
    by (intro seminv_move[OF i, of u]) (auto simp: sem_defs stuck_def credit_def)
qed

lemma seminv_skip:
  assumes i: "seminv s" and "u < snp s" and w: "spc s u = Walk n (p # rest) k" and "0 < n"
    and "\<not> (saddr s p = saddr s u \<and> swait s p)"
  shows "seminv (goto u (Walk n rest k) s)"
proof -
  have "distinct (p # rest)" using i shapeD(6)[of s u] w by (simp add: seminv_def)
  then show ?thesis using assms seminv_val[OF i]
    by (intro seminv_move[OF i, of u]) (auto simp: sem_defs stuck_def credit_def)
qed

text \<open>Steps that change the list or its lock.\<close>

lemma stuck_listed: "shape s \<Longrightarrow> stuck s x \<Longrightarrow> x \<in> set (slist s)"
  using shapeD(2)[of s x] by (auto simp: stuck_def)

lemma no_walker: "shape s \<Longrightarrow> slock s = None \<Longrightarrow> \<not> walks (spc s u)"
  using shapeD(4)[of s u] by auto

lemma ahead_walks: "ahead c \<noteq> [] \<Longrightarrow> walks c"
  by (cases c) auto

lemma no_ahead: "shape s \<Longrightarrow> slock s = None \<Longrightarrow> ahead (spc s u) = []"
  using no_walker ahead_walks by blast

lemma WWake_walks: "shape s \<Longrightarrow> slock s = None \<Longrightarrow> spc s u \<noteq> WWake p n rest k"
  using no_walker[of s u] by auto

lemma seminv_list:
  assumes i: "seminv s" and u: "u < snp s" and free: "slock s = None"
    and s': "s' = goto u c (s\<lparr>slist := l, swait := w\<rparr>)" and w: "\<And>v. v \<noteq> u \<Longrightarrow> w v = swait s v"
    and l: "distinct l" "set l - {u} = set (slist s) - {u}" "u \<in> set l \<longleftrightarrow> onlist c"
    and c: "\<not> walks c" "0 \<le> owed c" "c \<noteq> Asleep" "\<not> stuck s' u"
    and st: "\<And>a x. credit s a x u \<le> credit s' a x u"
  shows "seminv s'"
proof -
  have sb: "shape s" "balance s" using i by (simp_all add: seminv_def)
  have ah: "ahead (spc s' v) = []" for v using no_ahead[OF sb(1) free, of v] c(1) ahead_walks[of c] s' by (cases "v = u") (auto simp: goto_def)
  have on: "v \<in> set l \<longleftrightarrow> onlist (spc s' v)" for v
    using shapeD(2)[OF sb(1), of v] l(2,3) s' by (cases "v = u") (auto simp: goto_def)
  have nowk: "\<not> walks (spc s' v)" for v using no_walker[OF sb(1) free, of v] c(1) s' by (cases "v = u") (simp_all add: goto_def)
  have "0 \<le> owed (spc s' v) \<and> (spc s' v \<noteq> Out \<longrightarrow> v < snp s)" for v
    using shapeD(3,7)[OF sb(1), of v] c(2) u s' by (cases "v = u") (auto simp: goto_def)
  moreover have "\<not> (spc s' p = Asleep \<and> \<not> swait s' p)" for p
    using shapeD(10)[OF sb(1), of p] WWake_walks[OF sb(1) free] c(3) s' w[of p] by (cases "p = u") (auto simp: goto_def)
  moreover have "slist s' = l" "slock s' = None" "snp s' = snp s" "sval s' = sval s" using s' free by (simp_all add: goto_def)
  ultimately have sh: "shape s'" using ah on nowk l(1) shapeD(8,9)[OF sb(1)] by (intro shapeI) auto
  have "balance s'"
    using st c(4) w s' by (intro balance_move[OF sb(2) sh u]) (auto simp: goto_def)
  then show ?thesis using sh by (simp add: seminv_def)
qed

lemma seminv_queue:
  assumes i: "seminv s" and "u < snp s" and q: "spc s u = Queue" and "slock s = None"
  shows "seminv (goto u Top (semqueue u s))"
proof -
  have sh: "shape s" using i by (simp add: seminv_def)
  have "u \<notin> set (slist s)" using shapeD(2)[OF sh, of u] q by simp
  then show ?thesis using assms shapeD(1)[OF sh]
    by (intro seminv_list[OF i, of u _ Top "(swait s)(u := False)" "slist s @ [u]"])
      (auto simp: sem_defs stuck_def credit_def)
qed

lemma seminv_dequeue:
  assumes i: "seminv s" and "u < snp s" and q: "spc s u = Deq acq" and "slock s = None"
  shows "seminv (goto u (Check acq) (semdequeue u s))"
proof -
  have sh: "shape s" using i by (simp add: seminv_def)
  show ?thesis using assms shapeD(1)[OF sh]
    by (intro seminv_list[OF i, of u _ "Check acq" "swait s" "remove1 u (slist s)"])
      (auto simp: sem_defs stuck_def credit_def)
qed

lemma seminv_wlock:
  assumes i: "seminv s" and u: "u < snp s" and q: "spc s u = WLock n k" and free: "slock s = None"
  shows "seminv (goto u (Walk n (slist s) k) (s\<lparr>slock := Some u\<rparr>))" (is "seminv ?s")
proof -
  have sb: "shape s" "balance s" using i by (simp_all add: seminv_def)
  have "slock ?s = Some v \<longleftrightarrow> walks (spc ?s v)" for v using no_walker[OF sb(1) free, of v] by (simp add: goto_def)
  moreover have "set (ahead (spc ?s v)) \<subseteq> set (slist ?s) \<and> distinct (ahead (spc ?s v))" for v
    using no_ahead[OF sb(1) free, of v] shapeD(1)[OF sb(1)] by (simp add: goto_def)
  moreover have "0 \<le> owed (spc ?s v) \<and> (spc ?s v \<noteq> Out \<longrightarrow> v < snp s) \<and> (v \<in> set (slist s) \<longleftrightarrow> onlist (spc ?s v))" for v
    using shapeD(2,3,7)[OF sb(1), of v] u q by (auto simp: goto_def)
  moreover have "\<not> (spc ?s p = Asleep \<and> \<not> swait ?s p)" for p
    using shapeD(10)[OF sb(1), of p] WWake_walks[OF sb(1) free] by (auto simp: goto_def)
  moreover have "slist ?s = slist s" "snp ?s = snp s" "sval ?s = sval s" by (simp_all add: goto_def)
  ultimately have sh: "shape ?s" using shapeD(1,8,9)[OF sb(1)] by (intro shapeI) auto
  have "balance ?s"
    using stuck_listed[OF sb(1)] q by (intro balance_move[OF sb(2) sh u]) (auto simp: goto_def stuck_def credit_def)
  then show ?thesis using sh by (simp add: seminv_def)
qed

lemma one_walker: "shape s \<Longrightarrow> walks (spc s u) \<Longrightarrow> walks (spc s v) \<Longrightarrow> u = v"
  using shapeD(4)[of s u] shapeD(4)[of s v] by auto

lemma seminv_walk_end:
  assumes i: "seminv s" and u: "u < snp s" and q: "spc s u = Walk n rest k" and e: "rest = [] \<or> \<not> n > 0"
  shows "seminv ((goto u Out (s\<lparr>slock := None\<rparr>))\<lparr>sres := r\<rparr>)" (is "seminv ?s")
proof -
  have sb: "shape s" "balance s" using i by (simp_all add: seminv_def)
  have n0: "rest = [] \<or> n = 0" using e shapeD(7)[OF sb(1), of u] q by auto
  have nw: "\<not> walks (spc ?s v)" for v using one_walker[OF sb(1), of u v] q by (auto simp: goto_def)
  moreover have "ahead (spc ?s v) = []" for v using nw[of v] ahead_walks by blast
  moreover have "0 \<le> owed (spc ?s v) \<and> (spc ?s v \<noteq> Out \<longrightarrow> v < snp s) \<and> (v \<in> set (slist s) \<longleftrightarrow> onlist (spc ?s v))" for v
    using shapeD(2,3,7)[OF sb(1), of v] u q by (auto simp: goto_def)
  moreover have "\<not> (spc ?s p = Asleep \<and> \<not> swait ?s p)" for p
  proof
    assume "spc ?s p = Asleep \<and> \<not> swait ?s p"
    then obtain w m rest' k' where "spc s w = WWake p m rest' k'" using shapeD(10)[OF sb(1), of p] by (auto simp: goto_def split: if_splits)
    then show False using one_walker[OF sb(1), of u w] q by auto
  qed
  moreover have "slist ?s = slist s" "slock ?s = None" "snp ?s = snp s" "sval ?s = sval s" by (simp_all add: goto_def)
  ultimately have sh: "shape ?s" using shapeD(1,8,9)[OF sb(1)] by (intro shapeI) auto
  have "balance ?s"
    using n0 q by (intro balance_move[OF sb(2) sh u]) (auto simp: goto_def stuck_def credit_def)
  then show ?thesis using sh by (simp add: seminv_def)
qed

lemma worth_hit: "onlist c \<Longrightarrow> worth x False c = worth x True c + 1"
  by (cases c) auto

text \<open>The wakeup given to \<open>p\<close> is worth to the others what the walker gives up.\<close>

lemma seminv_hit:
  assumes i: "seminv s" and u: "u < snp s" and q: "spc s u = Walk n (p # rest) k" and pos: "0 < n"
    and a: "saddr s p = saddr s u" and w: "swait s p"
  shows "seminv (goto u (WWake p (n - 1) rest k) (s\<lparr>swait := (swait s)(p := False)\<rparr>))" (is "seminv ?s")
proof -
  have sb: "shape s" "balance s" using i by (simp_all add: seminv_def)
  have pl: "p \<in> set (slist s)" using shapeD(5)[OF sb(1), of u] q by simp
  then have on: "onlist (spc s p)" using shapeD(2)[OF sb(1), of p] by simp
  have pu: "p \<noteq> u" and pn: "p < snp s" using on q shapeD(3)[OF sb(1), of p] by (cases "spc s p"; auto)+
  have d: "distinct (p # rest)" using shapeD(6)[OF sb(1), of u] q by simp
  have "slock ?s = Some v \<longleftrightarrow> walks (spc ?s v)" for v using shapeD(4)[OF sb(1), of v] shapeD(4)[OF sb(1), of u] q by (auto simp: goto_def)
  moreover have "set (ahead (spc ?s v)) \<subseteq> set (slist ?s) \<and> distinct (ahead (spc ?s v))" for v
    using shapeD(5,6)[OF sb(1), of v] q by (auto simp: goto_def)
  moreover have "0 \<le> owed (spc ?s v) \<and> (spc ?s v \<noteq> Out \<longrightarrow> v < snp s) \<and> (v \<in> set (slist s) \<longleftrightarrow> onlist (spc ?s v))" for v
    using shapeD(2,3,7)[OF sb(1), of v] u q pos by (auto simp: goto_def)
  moreover have "\<exists>w m rest k. spc ?s w = WWake x m rest k \<and> saddr ?s w = saddr ?s x" if x: "spc ?s x = Asleep" "\<not> swait ?s x" for x
  proof (cases "x = p")
    case False
    then have "spc s x = Asleep" "\<not> swait s x" using x by (auto simp: goto_def split: if_splits)
    then obtain w m rest' k' where "spc s w = WWake x m rest' k'" using shapeD(10)[OF sb(1), of x] by blast
    then show ?thesis using one_walker[OF sb(1), of u w] q by auto
  qed (use a in \<open>auto simp: goto_def\<close>)
  moreover have "slist ?s = slist s" "snp ?s = snp s" "sval ?s = sval s" by (simp_all add: goto_def)
  ultimately have sh: "shape ?s" using shapeD(1,8,9)[OF sb(1)] by (intro shapeI) auto
  have "balance ?s"
  proof (rule balanceI[OF sb(2) sh])
    fix x assume x: "stuck ?s x" "0 < sval ?s (saddr ?s x)"
    have xp: "x \<noteq> p" and sx: "stuck s x" using x(1) by (auto simp: stuck_def goto_def split: if_splits)
    let ?f = "credit s (saddr s x) x" and ?g = "credit ?s (saddr s x) x" and ?d = "if saddr s u = saddr s x then 1 else (0::int)"
    have "sum ?f {..<snp s} + ?d \<le> sum (?f(p := ?g p)) {..<snp s}"
      using pn on w pu a by (intro sum_le_upd[of p]) (auto simp: credit_def goto_def worth_hit)
    moreover have "sum (?f(p := ?g p)) {..<snp s} + - ?d \<le> sum ?g {..<snp s}"
      using u pu q xp pos by (intro sum_le_upd[of u]) (auto simp: credit_def goto_def)
    ultimately show "stuck s x \<and> saddr ?s x = saddr s x \<and> sum ?f {..<snp s} + (sval ?s (saddr s x) - sval s (saddr s x)) \<le> sum ?g {..<snp s}"
      using sx by (simp add: goto_def)
  qed (simp add: goto_def)
  then show ?thesis using sh by (simp add: seminv_def)
qed

lemma seminv_wake_none:
  assumes i: "seminv s" and u: "u < snp s" and q: "spc s u = WWake p n rest k" and na: "spc s p \<noteq> Asleep"
  shows "seminv (goto u (Walk n rest k) s)" (is "seminv ?s")
proof -
  have sb: "shape s" "balance s" using i by (simp_all add: seminv_def)
  have "slock ?s = Some v \<longleftrightarrow> walks (spc ?s v)" for v using shapeD(4)[OF sb(1), of v] shapeD(4)[OF sb(1), of u] q by (auto simp: goto_def)
  moreover have "set (ahead (spc ?s v)) \<subseteq> set (slist ?s) \<and> distinct (ahead (spc ?s v))" for v
    using shapeD(5,6)[OF sb(1), of v] q by (auto simp: goto_def)
  moreover have "0 \<le> owed (spc ?s v) \<and> (spc ?s v \<noteq> Out \<longrightarrow> v < snp s) \<and> (v \<in> set (slist s) \<longleftrightarrow> onlist (spc ?s v))" for v
    using shapeD(2,3,7)[OF sb(1), of v] u q by (auto simp: goto_def)
  moreover have "\<not> (spc ?s x = Asleep \<and> \<not> swait ?s x)" for x
  proof
    assume x: "spc ?s x = Asleep \<and> \<not> swait ?s x"
    then obtain w m rest' k' where w: "spc s w = WWake x m rest' k'" using shapeD(10)[OF sb(1), of x] by (auto simp: goto_def split: if_splits)
    then have "w = u" using one_walker[OF sb(1), of u w] q by auto
    then show False using w q na x by (auto simp: goto_def split: if_splits)
  qed
  moreover have "slist ?s = slist s" "snp ?s = snp s" "sval ?s = sval s" by (simp_all add: goto_def)
  ultimately have sh: "shape ?s" using shapeD(1,8,9)[OF sb(1)] by (intro shapeI) auto
  have "balance ?s" using q by (intro balance_move[OF sb(2) sh u]) (auto simp: goto_def stuck_def credit_def)
  then show ?thesis using sh by (simp add: seminv_def)
qed

lemma seminv_wake_up:
  assumes i: "seminv s" and u: "u < snp s" and q: "spc s u = WWake p n rest k" and p: "spc s p = Asleep"
  shows "seminv (goto u (Walk n rest k) (resume p d s))"
proof -
  obtain c ms where c: "resume p d s = goto p c (s\<lparr>sms := ms\<rparr>)" "c = Top \<or> c = Deq False" using resume_form by blast
  have "p < snp s" using i shapeD(3)[of s p] p by (simp add: seminv_def)
  then have "seminv (resume p d s)" unfolding c(1) using seminv_unsleep[OF i] p c(2) by blast
  moreover have "u < snp (resume p d s)" "spc (resume p d s) u = WWake p n rest k" "spc (resume p d s) p \<noteq> Asleep"
    using u q p c by (auto simp: goto_def)
  ultimately show ?thesis by (rule seminv_wake_none)
qed

lemma seminv_step:
  assumes i: "seminv s" and "sstep s s'"
  shows "seminv s'"
  using assms(2)
proof cases
  case (bad u ok a c)
  then show ?thesis using seminv_returns[OF i, of u] by (simp add: returns_def)
next
  case (fast u ok a c b ms v)
  then show ?thesis using seminv_fast[OF i] by simp
next
  case (poll u ok a c)
  then show ?thesis using seminv_returns[OF i, of u] by (simp add: returns_def)
next
  case (sleep_not u d)
  then show ?thesis using resume_form[of u d s] seminv_unsleep[OF i, of u] by auto
next
  case (note_ u)
  then show ?thesis using seminv_unsleep[OF i, of u "Deq False" "sms s"] by simp
next
  case (timeout u m d)
  then show ?thesis using resume_form[of u d s] seminv_unsleep[OF i, of u] by auto
next
  case (check_done u acq)
  then show ?thesis using finish_form[of u "Acq acq" s] seminv_returns[OF i, of u] by auto
next
  case (release u ok a delta)
  then show ?thesis using seminv_release[OF i] by (auto simp: semargs_def)
next
  case (walk_end u n rest k)
  then show ?thesis using finish_form[of u k "s\<lparr>slock := None\<rparr>"] seminv_walk_end[OF i, of u] by auto
qed (use i seminv_block seminv_queue seminv_top seminv_try_ok seminv_try_fail seminv_sleep_on seminv_dequeue seminv_pass
    seminv_wlock seminv_skip seminv_hit seminv_wake_up seminv_wake_none in auto)

section \<open>No lost wakeups\<close>

definition sinit :: "semsys \<Rightarrow> bool" where
  "sinit s \<longleftrightarrow> slist s = [] \<and> slock s = None \<and> (\<forall>u. spc s u = Out) \<and> (\<forall>a. - (2 ^ 31) \<le> sval s a \<and> sval s a < 2 ^ 31)"

definition semgoal :: "semsys \<Rightarrow> bool" where
  "semgoal s \<longleftrightarrow> (\<forall>p. spc s p = Asleep \<and> 0 < sval s (saddr s p) \<longrightarrow>
     (\<exists>u. u \<noteq> p \<and> spc s u \<noteq> Out \<and> spc s u \<noteq> Asleep \<and> saddr s u = saddr s p))"

lemma worth_positive: "0 < worth x w c \<Longrightarrow> c \<noteq> Out \<and> (c = Asleep \<longrightarrow> \<not> w)"
  by (cases c) auto

lemma seminv_goal:
  assumes "seminv s"
  shows "semgoal s"
  unfolding semgoal_def
proof (intro allI impI)
  fix p assume p: "spc s p = Asleep \<and> 0 < sval s (saddr s p)"
  have sb: "shape s" "balance s" using assms by (simp_all add: seminv_def)
  have owing: "\<exists>u. u \<noteq> x \<and> spc s u \<noteq> Out \<and> spc s u \<noteq> Asleep \<and> saddr s u = saddr s x"
    if x: "spc s x = Asleep" "\<not> swait s x" for x
  proof -
    obtain u n rest k where u: "spc s u = WWake x n rest k" "saddr s u = saddr s x" using shapeD(10)[OF sb(1) x] by blast
    then have "u \<noteq> x" using x(1) by auto
    then show ?thesis using u by auto
  qed
  show "\<exists>u. u \<noteq> p \<and> spc s u \<noteq> Out \<and> spc s u \<noteq> Asleep \<and> saddr s u = saddr s p"
  proof (cases "swait s p")
    case True
    then have "0 < (\<Sum>u \<in> {..<snp s}. credit s (saddr s p) p u)" using sb(2) p by (force simp: balance_def stuck_def)
    then obtain u where u: "0 < credit s (saddr s p) p u" by (meson not_le sum_nonpos)
    then have w: "saddr s u = saddr s p" "0 < worth p (swait s u) (spc s u)" by (auto simp: credit_def split: if_splits)
    show ?thesis
    proof (cases "spc s u = Asleep")
      case asl: True
      then have "\<not> swait s u" using worth_positive[OF w(2)] by simp
      then obtain v where "v \<noteq> u" "spc s v \<noteq> Out" "spc s v \<noteq> Asleep" "saddr s v = saddr s u" using owing[OF asl] by blast
      then show ?thesis using w(1) p by (intro exI[of _ v]) auto
    next
      case False
      then show ?thesis using w worth_positive[OF w(2)] p by (intro exI[of _ u]) auto
    qed
  next
    case False
    then show ?thesis using owing p by blast
  qed
qed

interpretation sema: safety sinit sstep seminv semgoal
proof unfold_locales
  show "seminv s" if "sinit s" for s
    using that by (auto simp: sinit_def seminv_def shape_def balance_def stuck_def)
qed (auto intro: seminv_step seminv_goal)

definition semsys0 :: semsys where
  "semsys0 = \<lparr>snp = 2, sval = \<lambda>_. 0, slist = [], slock = None, swait = \<lambda>_. False, saddr = \<lambda>_. 0, sms = \<lambda>_. None,
     spc = \<lambda>_. Out, sres = \<lambda>_. None\<rparr>"

lemma sinit_semsys0: "sinit semsys0"
  by (simp add: sinit_def semsys0_def)

text \<open>Process 0 waits at address 7 and sleeps, and process 1 has just released one ticket.\<close>

lemma semsys0_run: "\<exists>t. sstep\<^sup>*\<^sup>* semsys0 t \<and> spc t 0 = Asleep \<and> saddr t 0 = 7 \<and> sval t 7 = 1"
proof -
  define s1 where "s1 = goto 0 Queue (semsys0\<lparr>saddr := (saddr semsys0)(0 := 7), sms := (sms semsys0)(0 := None)\<rparr>)"
  define s2 where "s2 = goto 0 Top (semqueue 0 s1)"
  define s3 where "s3 = goto 0 Try (s2\<lparr>swait := (swait s2)(0 := True)\<rparr>)"
  define s4 where "s4 = goto 0 Sleep s3"
  define s5 where "s5 = goto 0 Asleep s4"
  define s6 where "s6 = goto 1 (WLock 1 Rel) (s5\<lparr>sval := (sval s5)(7 := s32 (sval s5 7 + 1)), saddr := (saddr s5)(1 := 7)\<rparr>)"
  note d = s6_def s5_def s4_def s3_def s2_def s1_def semsys0_def sem_defs canacquire_def
  have "sstep semsys0 s1" unfolding s1_def
    by (rule sstep.block[where ok = True and c = "Acquire True" and m = 0]) (simp_all add: d semargs_def)
  moreover have "sstep s1 s2" unfolding s2_def by (rule sstep.queue) (simp_all add: d)
  moreover have "sstep s2 s3" unfolding s3_def by (rule sstep.top) (simp_all add: d)
  moreover have "sstep s3 s4" unfolding s4_def by (rule sstep.try_fail) (simp_all add: d)
  moreover have "sstep s4 s5" unfolding s5_def by (rule sstep.sleep_on) (simp_all add: d)
  moreover have "sstep s5 s6" unfolding s6_def by (rule sstep.release[where ok = True]) (simp_all add: d semargs_def)
  ultimately have "sstep\<^sup>*\<^sup>* semsys0 s6" by (meson r_into_rtranclp rtranclp_trans)
  moreover have "spc s6 0 = Asleep" "saddr s6 0 = 7" "sval s6 7 = 1" by (simp_all add: d s32_def)
  ultimately show ?thesis by blast
qed

text \<open>
  C28: No wakeup is lost. In every state reached by any number of processes that acquire, with or
  without a timeout, release, are interrupted and are woken in any interleaving, when a
  process sleeps on a semaphore whose value is positive, some other process is still in the
  middle of a call on the same semaphore; so when all calls have returned or sleep,
  nobody sleeps while there are tickets.\<close>

theorem no_lost_wakeup:
  assumes "sinit s" and "sstep\<^sup>*\<^sup>* s t" and "spc t p = Asleep" and "0 < sval t (saddr t p)"
  shows "\<exists>u. u \<noteq> p \<and> spc t u \<noteq> Out \<and> spc t u \<noteq> Asleep \<and> saddr t u = saddr t p"
  using sema.reached_goal[OF assms(1,2)] assms(3,4) unfolding semgoal_def by blast

theorem no_lost_wakeup_witness:
  "sinit semsys0 \<and> (\<exists>t. sstep\<^sup>*\<^sup>* semsys0 t \<and> spc t 0 = Asleep \<and> sval t 7 = 1
     \<and> (\<exists>u. u \<noteq> 0 \<and> spc t u \<noteq> Out \<and> spc t u \<noteq> Asleep \<and> saddr t u = 7))"
proof -
  obtain t where t: "sstep\<^sup>*\<^sup>* semsys0 t" "spc t 0 = Asleep" "saddr t 0 = 7" "sval t 7 = 1" using semsys0_run by blast
  have "\<exists>u. u \<noteq> 0 \<and> spc t u \<noteq> Out \<and> spc t u \<noteq> Asleep \<and> saddr t u = 7"
    using no_lost_wakeup[OF sinit_semsys0 t(1,2)] t(3,4) by simp
  then show ?thesis using t sinit_semsys0 by blast
qed

section \<open>Negative timeouts\<close>

text \<open>
  C37: \<open>tsemacquire\<close> with a negative timeout (\<open>2^31\<close> ms or more arrive as such) can take a ticket and
  say it did not. There is a run
  from an empty semaphore at address 7 in which process 0 calls \<open>tsemacquire\<close> with -1 ms and
  blocks; a \<open>semrelease\<close> of process 1 makes the value 1; process 0, about to try again, takes the
  ticket by its compare-and-swap, the value is 0, it has acquired; and its next two steps, leaving
  the queue and the final test, end the call with the result 0, which is the one for a timeout.
  Then every process is out of its call and the value is 0: nobody knows of the ticket.\<close>

theorem tsem_negative_loses_ticket:
  "\<exists>s1 s2 s3 s4 t.
     sval semsys0 7 = 0 \<and> sinit semsys0
     \<and> sstep semsys0 s1 \<and> spc s1 0 = Queue \<and> saddr s1 0 = 7 \<and> sms s1 0 = Some (- 1)
     \<and> sstep\<^sup>*\<^sup>* s1 s2 \<and> spc s2 0 = Try \<and> sms s2 0 = Some (- 1) \<and> saddr s2 0 = 7 \<and> sval s2 7 = 1
     \<and> sstep s2 s3 \<and> spc s3 0 = Deq True \<and> sval s3 7 = 0
     \<and> sstep s3 s4 \<and> spc s4 0 = Check True
     \<and> sstep s4 t \<and> (\<forall>u. spc t u = Out) \<and> sval t 7 = 0 \<and> sres t 0 = Some (Returns 0)"
proof -
  define s1 where "s1 = goto 0 Queue (semsys0\<lparr>saddr := (saddr semsys0)(0 := 7), sms := (sms semsys0)(0 := Some (- 1))\<rparr>)"
  define s2 where "s2 = goto 1 (WLock 1 Rel) (s1\<lparr>sval := (sval s1)(7 := s32 (sval s1 7 + 1)), saddr := (saddr s1)(1 := 7)\<rparr>)"
  define s3 where "s3 = goto 1 (Walk 1 (slist s2) Rel) (s2\<lparr>slock := Some 1\<rparr>)"
  define s4 where "s4 = finish 1 Rel (s3\<lparr>slock := None\<rparr>)"
  define s5 where "s5 = goto 0 Top (semqueue 0 s4)"
  define s6 where "s6 = goto 0 Try (s5\<lparr>swait := (swait s5)(0 := True)\<rparr>)"
  define s7 where "s7 = goto 0 (Deq True) (s6\<lparr>sval := (sval s6)(saddr s6 0 := 0)\<rparr>)"
  define s8 where "s8 = goto 0 (Check True) (semdequeue 0 s7)"
  define s9 where "s9 = finish 0 (Acq True) s8"
  note d = s9_def s8_def s7_def s6_def s5_def s4_def s3_def s2_def s1_def semsys0_def sem_defs canacquire_def finish_def s32_def
  have "sstep semsys0 s1" unfolding s1_def
    by (rule sstep.block[where ok = True and c = "Tacquire (- 1)" and m = "- 1"]) (simp_all add: d semargs_def)
  moreover have "sstep s1 s2" unfolding s2_def by (rule sstep.release[where ok = True]) (simp_all add: d semargs_def)
  moreover have "sstep s2 s3" unfolding s3_def by (rule sstep.wlock) (simp_all add: d)
  moreover have "sstep s3 s4" unfolding s4_def by (rule sstep.walk_end[where n = 1 and rest = "[]"]) (simp_all add: d)
  moreover have "sstep s4 s5" unfolding s5_def by (rule sstep.queue) (simp_all add: d)
  moreover have "sstep s5 s6" unfolding s6_def by (rule sstep.top) (simp_all add: d)
  moreover have "sstep s6 s7" unfolding s7_def by (rule sstep.try_ok) (simp_all add: d)
  moreover have "sstep s7 s8" unfolding s8_def by (rule sstep.dequeue) (simp_all add: d)
  moreover have "sstep s8 s9" unfolding s9_def by (rule sstep.check_done) (simp_all add: d)
  ultimately have run: "sstep semsys0 s1" "sstep\<^sup>*\<^sup>* s1 s6" "sstep s6 s7" "sstep s7 s8" "sstep s8 s9"
    by simp_all
  moreover have "spc s1 0 = Queue" "saddr s1 0 = 7" "sms s1 0 = Some (- 1)"
    "spc s6 0 = Try" "saddr s6 0 = 7" "sms s6 0 = Some (- 1)" "sval s6 7 = 1" "spc s7 0 = Deq True" "sval s7 7 = 0" "spc s8 0 = Check True"
    by (simp_all add: d)
  moreover have "sval s9 7 = 0" "sres s9 0 = Some (Returns 0)" "\<forall>u. spc s9 u = Out" "sinit semsys0" "sval semsys0 7 = 0"
    by (simp_all add: d acquired_result_def sinit_def)
  ultimately show ?thesis by blast
qed

end
