(* ===== verification/Physalloc.thy ===== *)
theory Physalloc
  imports Plan9_Prelude
begin

text \<open>
  The buddy allocator of physical memory (\<open>src/k10/physalloc.c\<close>) and the logarithm it uses
  (\<open>src/port/log2.c\<close>).

  Memory addresses, sizes and block numbers are integers; a block number is an address divided by the
  smallest block size, and \<open>BLOCK\<close> makes it an index of the array \<open>blocks\<close>. All numbers that
  reach \<open>BLOCK\<close> are at least that of \<open>b->memory\<close>, so it does not wrap. The array is a function
  on all indices, since the code never checks its bounds: a store beyond its end, which the wrong index in
  the splitting loop of \<open>xphysalloc\<close> can cause, changes an entry no block has, where the code would change
  other memory. Only \<open>next\<close> of the list heads \<open>avail\<close> is used. The lock
  makes each routine one step.
\<close>

section \<open>Logarithm\<close>

text \<open>The table \<open>log2init\<close> fills in: \<open>log2v[i] = log2v[i/2] + 1\<close> from 2 on.\<close>

function log2v :: "int \<Rightarrow> nat" where
  "log2v i = (if i < 2 then 0 else log2v (i div 2) + 1)"
  by auto
termination by (relation "measure nat") auto

declare log2v.simps [simp del]

text \<open>The look-up of a 32-bit number, one byte at a time.\<close>

definition log2tab :: "int \<Rightarrow> nat" where
  "log2tab n =
    (if n div 2 ^ 8 = 0 then log2v n
     else if n div 2 ^ 16 = 0 then 8 + log2v (n div 2 ^ 8)
     else if n div 2 ^ 24 = 0 then 16 + log2v (n div 2 ^ 16)
     else 24 + log2v (n div 2 ^ 24))"

definition log2ceil :: "u64 \<Rightarrow> nat" where
  "log2ceil m =
    (let r = (if m AND (m - 1) \<noteq> 0 then 1 else 0);
         n = uint m mod 2 ^ 32
     in if n \<noteq> uint m then log2tab (uint m div 2 ^ 32) + (r + 32) else log2tab n + r)"

section \<open>Allocators\<close>

definition BKmin :: nat where "BKmin = 21"
definition BKmax :: nat where "BKmax = 30"
definition Ndoms :: nat where "Ndoms = 16"

record buddy =
  btag :: bool       \<comment> \<open>\<open>Avail\<close>\<close>
  kval :: nat
  bnext :: int
  bprev :: int
  bp :: "nat option"

record bal =
  base :: int
  bsize :: int
  nfree :: int
  nblocks :: int
  kmin :: nat
  kmax :: nat
  bminsz :: int
  memory :: int
  blocks :: "int \<Rightarrow> buddy"
  avail :: "nat \<Rightarrow> int"

definition INDEX :: "bal \<Rightarrow> int \<Rightarrow> int" where
  "INDEX b v = v div bminsz b"

definition BLOCK :: "bal \<Rightarrow> int \<Rightarrow> int" where
  "BLOCK b i = i - INDEX b (memory b)"

definition bset :: "int \<Rightarrow> (buddy \<Rightarrow> buddy) \<Rightarrow> bal \<Rightarrow> bal" where
  "bset n f b = b\<lparr>blocks := (blocks b)(n := f (blocks b n))\<rparr>"

definition aset :: "nat \<Rightarrow> int \<Rightarrow> bal \<Rightarrow> bal" where
  "aset k i b = b\<lparr>avail := (avail b)(k := i)\<rparr>"

section \<open>Freeing\<close>

text \<open>Put block \<open>i\<close> on the list of its size.\<close>

definition putlist :: "int \<Rightarrow> int \<Rightarrow> bal \<Rightarrow> bal" where
  "putlist i sz b =
    (let l = BLOCK b i; k = kval (blocks b l);
         b = bset l (\<lambda>r. r\<lparr>btag := True, bnext := avail b k, bprev := 0\<rparr>) b;
         b = (if bnext (blocks b l) \<noteq> 0 then bset (BLOCK b (bnext (blocks b l))) (\<lambda>r. r\<lparr>bprev := i\<rparr>) b else b);
         b = aset k i b
     in b\<lparr>nfree := nfree b + sz div bminsz b\<rparr>)"

text \<open>Remove the buddy \<open>p\<close> from the list.\<close>

definition unlist :: "int \<Rightarrow> bal \<Rightarrow> bal" where
  "unlist p b =
    (let b = (if bprev (blocks b p) \<noteq> 0
              then bset p (\<lambda>r. r\<lparr>bprev := 0\<rparr>) (bset (BLOCK b (bprev (blocks b p))) (\<lambda>r. r\<lparr>bnext := bnext (blocks b p)\<rparr>) b)
              else aset (kval (blocks b p)) 0 b);
         b = (if bnext (blocks b p) \<noteq> 0
              then bset p (\<lambda>r. r\<lparr>bnext := 0\<rparr>) (bset (BLOCK b (bnext (blocks b p))) (\<lambda>r. r\<lparr>bprev := bprev (blocks b p)\<rparr>) b)
              else b)
     in bset p (\<lambda>r. r\<lparr>btag := False\<rparr>) b)"

text \<open>The loop at \<open>S1\<close>. The division by \<open>(1<<l->kval)/b->bminsz\<close> traps when that is zero.\<close>

partial_function (option) freeloop :: "int \<Rightarrow> int \<Rightarrow> bal \<Rightarrow> (fault + bal) option" where
  "freeloop i sz b =
    (let l = BLOCK b i;
         b = bset l (\<lambda>r. r\<lparr>bp := None\<rparr>) b;
         k = kval (blocks b l);
         n = 2 ^ k div bminsz b
     in if n = 0 then Some (Inl (Panic ''divide error''))
        else
          let p = (if odd (l div n) then l - n else l + n) in
          if k = kmax b \<or> \<not> btag (blocks b p) \<or> btag (blocks b p) \<and> kval (blocks b p) \<noteq> k
          then Some (Inr (putlist i sz b))
          else
            let b = unlist p b;
                l = (if p < l then p else l);
                i = l + INDEX b (memory b);
                b = bset l (\<lambda>r. r\<lparr>kval := kval r + 1\<rparr>) b
            in freeloop i sz b)"

definition xphysfree :: "int \<Rightarrow> int \<Rightarrow> bal \<Rightarrow> (fault + bal) option" where
  "xphysfree data sz b = (if data = 0 then Some (Inr b) else freeloop (INDEX b data) sz b)"

section \<open>Allocating\<close>

text \<open>\<open>while(j > k)\<close>: the upper halves go on the lists of smaller blocks.\<close>

fun splitblk :: "int \<Rightarrow> nat \<Rightarrow> nat \<Rightarrow> bal \<Rightarrow> bal" where
  "splitblk i k j b =
    (if j > k then
       let j = j - 1; u = i + 2 ^ j div bminsz b; p = BLOCK b i + 2 ^ j div bminsz b;
           b = bset p (\<lambda>r. r\<lparr>btag := True, kval := j, bnext := avail b j, bprev := 0\<rparr>) b;
           b = (if bnext (blocks b p) \<noteq> 0 then bset (BLOCK b (bnext (blocks b p))) (\<lambda>r. r\<lparr>bprev := u\<rparr>) b else b);
           b = aset j u b
       in splitblk i k j b
     else b)"

declare splitblk.simps [simp del]

text \<open>
  The statement \<open>blocks[avail[j].next].prev = 0\<close> uses a block number where an index is meant.
\<close>

definition takeblk :: "nat \<Rightarrow> nat \<Rightarrow> bal \<Rightarrow> bal" where
  "takeblk k j b =
    (let i = avail b j; l = BLOCK b i;
         b = aset j (bnext (blocks b l)) b;
         b = bset (avail b j) (\<lambda>r. r\<lparr>bprev := 0\<rparr>) b;
         b = bset l (\<lambda>r. r\<lparr>bprev := 0, bnext := 0, btag := False, kval := k\<rparr>) b
     in splitblk i k j b)"

definition xphysalloc :: "int \<Rightarrow> nat \<Rightarrow> bal \<Rightarrow> fault + (int \<times> bal)" where
  "xphysalloc sz tag b =
    (if \<not> bsize b > 0 then Inl (Panic ''assert'')
     else
       let sz = (if sz < bminsz b then bminsz b else sz);
           k = log2ceil (word_of_int sz)
       in (case find (\<lambda>j. avail b j \<noteq> 0) [k..<kmax b + 1] of
             None \<Rightarrow> Inr (0, b)
           | Some j \<Rightarrow>
               let i = avail b j;
                   b = takeblk k j b;
                   b = b\<lparr>nfree := nfree b - sz div bminsz b\<rparr>;
                   m = memory b + bminsz b * BLOCK b i
               in if \<not> (m \<ge> base b \<and> m < base b + bsize b) then Inl (Panic ''assert'')
                  else Inr (m, bset (BLOCK b i) (\<lambda>r. r\<lparr>bp := Some tag\<rparr>) b)))"

section \<open>Domains\<close>

record physsys =
  bals :: "nat \<Rightarrow> bal"
  ndoms :: nat

definition owns :: "physsys \<Rightarrow> int \<Rightarrow> nat \<Rightarrow> bool" where
  "owns s data i \<longleftrightarrow> base (bals s i) \<le> data \<and> data < base (bals s i) + bsize (bals s i)"

text \<open>\<open>1<<log2ceil(size)\<close> and \<open>1<<l->kval\<close> are of type \<open>int\<close>: no block is larger than \<open>2^30\<close>, so they do not overflow.\<close>

definition physfree :: "int \<Rightarrow> int \<Rightarrow> physsys \<Rightarrow> (fault + physsys) option" where
  "physfree data sz s =
    (case find (owns s data) [0..<Ndoms] of
       None \<Rightarrow> Some (Inl (Panic ''physfree: no bal''))
     | Some i \<Rightarrow> map_option (map_sum id (\<lambda>b. s\<lparr>bals := (bals s)(i := b)\<rparr>))
         (xphysfree data (2 ^ log2ceil (word_of_int sz)) (bals s i)))"

definition phystag :: "int \<Rightarrow> physsys \<Rightarrow> nat option" where
  "phystag data s =
    (case find (owns s data) [0..<Ndoms] of
       None \<Rightarrow> None
     | Some i \<Rightarrow> let b = bals s i in if data = 0 then None else bp (blocks b (BLOCK b (INDEX b data))))"

text \<open>The first domain that has the memory, in order.\<close>

fun trydoms :: "int \<Rightarrow> nat \<Rightarrow> int \<Rightarrow> nat list \<Rightarrow> physsys \<Rightarrow> fault + (int \<times> int \<times> physsys)" where
  "trydoms sz tag color [] s = Inr (0, color, s)"
| "trydoms sz tag color (i # is) s =
    (if kmin (bals s i) > 0 then
       bindE (xphysalloc sz tag (bals s i)) (\<lambda>(m, b).
         let s = s\<lparr>bals := (bals s)(i := b)\<rparr>
         in if m \<noteq> 0 then Inr (m, int i, s) else trydoms sz tag color is s)
     else trydoms sz tag color is s)"

definition physalloc :: "int \<Rightarrow> int \<Rightarrow> nat \<Rightarrow> physsys \<Rightarrow> fault + (int \<times> int \<times> physsys)" where
  "physalloc sz color tag s =
    (if color \<ge> 0 \<and> ndoms s = 0 then Inl (Panic ''divide error'')
     else
       let c = nat color mod ndoms s in
       bindE (if color \<ge> 0 \<and> kmin (bals s c) > 0
              then bindE (xphysalloc sz tag (bals s c)) (\<lambda>(m, b). Inr (m, int c, s\<lparr>bals := (bals s)(c := b)\<rparr>))
              else Inr (0, color, s))
         (\<lambda>(m, color, s). if m = 0 then trydoms sz tag color [0..<ndoms s] s else Inr (m, color, s)))"

section \<open>Initialisation\<close>

definition plop :: "int \<Rightarrow> nat \<Rightarrow> bal \<Rightarrow> (fault + bal) option" where
  "plop a k b = xphysfree a (2 ^ k) (bset (BLOCK b (INDEX b a)) (\<lambda>r. r\<lparr>kval := k\<rparr>) b)"

text \<open>
  The three loops of \<open>iimbchunk\<close>: up to the largest block, through it, and down again. \<open>a & s\<close>
  tests the bit \<open>s = 2^k\<close> of the address.
\<close>

partial_function (option) chunkup :: "int \<Rightarrow> int \<Rightarrow> nat \<Rightarrow> bal \<Rightarrow> (fault + (int \<times> nat \<times> bal)) option" where
  "chunkup a e k b =
    (if a + 2 ^ k < e \<and> k < kmax b then
       if odd (a div 2 ^ k) then
         Option.bind (plop a k b) (\<lambda>r. case r of Inl f \<Rightarrow> Some (Inl f) | Inr b \<Rightarrow> chunkup (a + 2 ^ k) e (k + 1) b)
       else chunkup a e (k + 1) b
     else Some (Inr (a, k, b)))"

partial_function (option) chunkmid :: "int \<Rightarrow> int \<Rightarrow> nat \<Rightarrow> bal \<Rightarrow> (fault + (int \<times> bal)) option" where
  "chunkmid a e k b =
    (if a + 2 ^ k \<le> e then
       Option.bind (plop a k b) (\<lambda>r. case r of Inl f \<Rightarrow> Some (Inl f) | Inr b \<Rightarrow> chunkmid (a + 2 ^ k) e k b)
     else Some (Inr (a, b)))"

partial_function (option) chunkdown :: "int \<Rightarrow> int \<Rightarrow> nat \<Rightarrow> bal \<Rightarrow> (fault + bal) option" where
  "chunkdown a e k b =
    (if a < e then
       if a + 2 ^ k \<le> e then
         Option.bind (plop a k b) (\<lambda>r. case r of Inl f \<Rightarrow> Some (Inl f) | Inr b \<Rightarrow> chunkdown (a + 2 ^ k) e (k - 1) b)
       else chunkdown a e (k - 1) b
     else Some (Inr b))"

definition iimbchunk :: "int \<Rightarrow> int \<Rightarrow> bal \<Rightarrow> (fault + bal) option" where
  "iimbchunk a e b =
    (let a = (a + bminsz b - 1) div bminsz b * bminsz b;
         e = e div bminsz b * bminsz b;
         b = b\<lparr>nblocks := nblocks b + (e - a) div bminsz b\<rparr>
     in Option.bind (chunkup a e (kmin b) b) (\<lambda>r. case r of Inl f \<Rightarrow> Some (Inl f) | Inr (a, k, b) \<Rightarrow>
          Option.bind (chunkmid a e k b) (\<lambda>r. case r of Inl f \<Rightarrow> Some (Inl f) | Inr (a, b) \<Rightarrow> chunkdown a e (k - 1) b)))"

definition emptybal :: "int \<Rightarrow> int \<Rightarrow> int \<Rightarrow> bal" where
  "emptybal pmstart addr len =
    \<lparr>base = addr, bsize = len, nfree = 0, nblocks = 0, kmin = BKmin, kmax = BKmax, bminsz = 2 ^ BKmin, memory = pmstart,
     blocks = \<lambda>_. \<lparr>btag = False, kval = 0, bnext = 0, bprev = 0, bp = None\<rparr>, avail = \<lambda>_. 0\<rparr>"

definition overlapping :: "physsys \<Rightarrow> nat \<Rightarrow> bal \<Rightarrow> bool" where
  "overlapping s dm b \<longleftrightarrow> list_ex (\<lambda>i. kmin (bals s i) \<noteq> 0 \<and> i \<noteq> dm \<and> base (bals s i) < base b + bsize b
     \<and> base (bals s i) + bsize (bals s i) > base b + bsize b) [0..<Ndoms]"

text \<open>The allocations of the two arrays are taken to succeed.\<close>

definition physinit :: "int \<Rightarrow> int \<Rightarrow> int \<Rightarrow> int \<Rightarrow> physsys \<Rightarrow> (fault + physsys) option" where
  "physinit pmstart addr len dm s =
    (let dm = (if dm < 0 \<or> dm \<ge> int Ndoms then 0 else nat dm);
         s = (if dm \<ge> ndoms s then s\<lparr>ndoms := dm + 1\<rparr> else s);
         b = bals s dm
     in if kmin b \<noteq> 0 \<and> addr < base b then Some (Inl (Panic ''physinit: decreasing base''))
        else
          let b = (if kmin b = 0 then emptybal pmstart addr len
                   else if base b + bsize b < addr + len then b\<lparr>bsize := (addr - base b) + len\<rparr> else b)
          in if kmin (bals s dm) \<noteq> 0 \<and> overlapping s dm b then Some (Inl (Panic ''physinit: doms overlap''))
             else if \<not> (addr \<ge> base b \<and> addr + len \<le> base b + bsize b) then Some (Inl (Panic ''assert''))
             else map_option (map_sum id (\<lambda>b. s\<lparr>bals := (bals s)(dm := b)\<rparr>)) (iimbchunk addr (addr + len) b))"

declare freeloop.simps [code] chunkup.simps [code] chunkmid.simps [code] chunkdown.simps [code]

end
