(* ===== verification/Physalloc_Correct.thy ===== *)
theory Physalloc_Correct
  imports Physalloc
begin

text \<open>
  Properties of the physical memory allocator: the logarithm is exact, an allocation takes
  one block of the right size and alignment out of the free memory and leaves the rest as it
  was, and, by a concrete run, allocations mixed with frees can hand out the same memory twice.
\<close>

section \<open>Logarithm\<close>

lemma log2v_bounds: "1 \<le> i \<Longrightarrow> 2 ^ log2v i \<le> i \<and> i < 2 * 2 ^ log2v i"
proof (induction i rule: log2v.induct)
  case (1 i)
  show ?case
  proof (cases "i < 2")
    case True
    then show ?thesis using 1(2) by (simp add: log2v.simps)
  next
    case False
    then have "2 ^ log2v (i div 2) \<le> i div 2 \<and> i div 2 < 2 * 2 ^ log2v (i div 2)" using 1 by simp
    then show ?thesis using False by (subst (1 2) log2v.simps) auto
  qed
qed

lemma floor_unique:
  fixes i :: int
  assumes "2 ^ j \<le> i" "i < 2 * 2 ^ j" "2 ^ k \<le> i" "i < 2 * 2 ^ k"
  shows "j = k"
proof -
  have "(2::int) ^ j < 2 ^ (k + 1)" "(2::int) ^ k < 2 ^ (j + 1)" using assms by simp_all
  then have "j < k + 1" "k < j + 1" by (simp_all only: power_strict_increasing_iff)
  then show ?thesis by simp
qed

lemma log2v_shift: "2 ^ s \<le> n \<Longrightarrow> s + log2v (n div 2 ^ s) = log2v n"
proof (rule floor_unique[of _ n])
  assume n: "2 ^ s \<le> n"
  then have "1 \<le> n div 2 ^ s" by (simp add: pos_imp_zdiv_pos_iff int_one_le_iff_zero_less)
  then have b: "2 ^ log2v (n div 2 ^ s) \<le> n div 2 ^ s" "n div 2 ^ s < 2 * 2 ^ log2v (n div 2 ^ s)" using log2v_bounds by blast+
  have "2 ^ log2v (n div 2 ^ s) * 2 ^ s \<le> n div 2 ^ s * 2 ^ s" using b(1) by (simp add: mult_right_mono)
  also have "\<dots> \<le> n" by (simp add: minus_mod_eq_div_mult[symmetric])
  finally show "2 ^ (s + log2v (n div 2 ^ s)) \<le> n" by (simp add: power_add mult.commute)
  have "n div 2 ^ s + 1 \<le> 2 * 2 ^ log2v (n div 2 ^ s)" using b(2) by simp
  then have "(n div 2 ^ s + 1) * 2 ^ s \<le> 2 * 2 ^ log2v (n div 2 ^ s) * 2 ^ s" by (simp add: mult_right_mono)
  moreover have "n < (n div 2 ^ s + 1) * 2 ^ s"
    using pos_mod_bound[of "2 ^ s" n, OF zero_less_power[OF zero_less_numeral]] div_mult_mod_eq[of n "2 ^ s"]
    by (simp only: distrib_right)
  ultimately show "n < 2 * 2 ^ (s + log2v (n div 2 ^ s))" by (simp add: power_add algebra_simps)
  have "1 \<le> n" using n by (rule order_trans[rotated]) simp
  then show "2 ^ log2v n \<le> n" "n < 2 * 2 ^ log2v n" using log2v_bounds by blast+
qed

text \<open>The test for a power of two.\<close>

lemma and_pred_power:
  fixes n :: int
  assumes "2 ^ f \<le> n" and "n < 2 * 2 ^ f"
  shows "n AND (n - 1) = 0 \<longleftrightarrow> n = 2 ^ f"
proof
  assume "n = 2 ^ f"
  moreover have "(2::int) ^ f AND (2 ^ f - 1) = take_bit f (2 ^ f)" by (simp only: take_bit_eq_mask mask_eq_exp_minus_1)
  ultimately show "n AND (n - 1) = 0" by (simp add: take_bit_eq_mod)
next
  assume z: "n AND (n - 1) = 0"
  show "n = 2 ^ f"
  proof (rule ccontr)
    assume "n \<noteq> 2 ^ f"
    then have m: "2 ^ f \<le> n - 1" "n - 1 < 2 * 2 ^ f" using assms by simp_all
    have "bit n f" "bit (n - 1) f" using assms m by (simp_all add: bit_iff_odd div_pos_geq div_pos_pos_trivial)
    then have "bit (n AND (n - 1)) f" by (simp add: bit_and_iff)
    then show False using z by simp
  qed
qed

lemma log2tab_eq: "0 \<le> n \<Longrightarrow> log2tab n = log2v n"
proof -
  assume n: "0 \<le> n"
  have "b + log2v (n div 2 ^ b) = log2v n" if "n div 2 ^ b \<noteq> 0" for b
  proof -
    have "2 ^ b \<le> n" using that n by (metis div_pos_pos_trivial not_le)
    then show ?thesis by (rule log2v_shift)
  qed
  from this[of 8] this[of 16] this[of 24] show ?thesis by (simp add: log2tab_def)
qed

lemma log2ceil_floor:
  assumes "0 < uint m"
  shows "log2ceil m = log2v (uint m) + (if m AND (m - 1) \<noteq> 0 then 1 else 0)"
proof (cases "uint m mod 2 ^ 32 = uint m")
  case True
  then show ?thesis using log2tab_eq[of "uint m"] assms by (simp only: log2ceil_def Let_def if_True if_False) simp
next
  case False
  then have "2 ^ 32 \<le> uint m" using assms by (metis mod_pos_pos_trivial not_le order_less_imp_le)
  then have "32 + log2v (uint m div 2 ^ 32) = log2v (uint m)" by (rule log2v_shift)
  moreover have "log2tab (uint m div 2 ^ 32) = log2v (uint m div 2 ^ 32)"
    using assms by (intro log2tab_eq) (simp add: pos_imp_zdiv_nonneg_iff)
  ultimately show ?thesis using False by (simp only: log2ceil_def Let_def if_True if_False not_False_eq_True)
qed

lemma log2ceil_spec:
  assumes "m \<noteq> 0"
  shows "uint m \<le> 2 ^ log2ceil m \<and> (\<forall>k. uint m \<le> 2 ^ k \<longrightarrow> log2ceil m \<le> k)"
proof -
  let ?f = "log2v (uint m)"
  have p: "0 < uint m" using assms uint_ge_0[of m] uint_0_iff[of m] by linarith
  then have b: "2 ^ ?f \<le> uint m" "uint m < 2 * 2 ^ ?f" using log2v_bounds[of "uint m"] by simp_all
  have "uint (m - 1) = uint m - 1" using p uint_sub_lem[of 1 m] by simp
  then have "m AND (m - 1) = 0 \<longleftrightarrow> uint m = 2 ^ ?f"
    using and_pred_power[OF b] by (simp add: word_uint_eq_iff unsigned_and_eq)
  then have c: "log2ceil m = (if uint m = 2 ^ ?f then ?f else ?f + 1)" using log2ceil_floor[OF p] by simp
  have "?f \<le> k" if "uint m \<le> 2 ^ k" for k
  proof -
    have "(2::int) ^ ?f \<le> 2 ^ k" using b(1) that by linarith
    then show ?thesis by simp
  qed
  moreover have "?f + 1 \<le> k" if "uint m \<le> 2 ^ k" "uint m \<noteq> 2 ^ ?f" for k
  proof -
    have "(2::int) ^ ?f < 2 ^ k" using b(1) that by linarith
    then show ?thesis by simp
  qed
  ultimately show ?thesis using b(2) c by auto
qed

text \<open>
  \<open>log2ceil\<close> with its 256-entry table is the exact ceiling of the binary logarithm: for every
  64-bit number \<open>m\<close> other than 0 it is the least \<open>k\<close> with \<open>m \<le> 2^k\<close>.\<close>

lemma log2ceil_exact:
  assumes "m \<noteq> 0"
  shows "uint m \<le> 2 ^ log2ceil m \<and> (\<forall>k. uint m \<le> 2 ^ k \<longrightarrow> log2ceil m \<le> k)"
  using log2ceil_spec[OF assms] .

section \<open>Free lists\<close>

definition nxt :: "bal \<Rightarrow> int \<Rightarrow> int" where
  "nxt b i = bnext (blocks b (BLOCK b i))"

fun chn :: "(int \<Rightarrow> int) \<Rightarrow> int \<Rightarrow> int list \<Rightarrow> bool" where
  "chn f h [] \<longleftrightarrow> h = 0"
| "chn f h (x # xs) \<longleftrightarrow> h = x \<and> x \<noteq> 0 \<and> chn f (f x) xs"

lemma chn_cong: "(\<And>x. x \<in> set xs \<Longrightarrow> f x = g x) \<Longrightarrow> chn f h xs = chn g h xs"
  by (induction xs arbitrary: h) auto

text \<open>The smallest blocks that a block \<open>x\<close> of size \<open>2^k\<close> covers, and the memory on the lists \<open>L\<close>.\<close>

definition cover :: "bal \<Rightarrow> nat \<Rightarrow> int \<Rightarrow> int set" where
  "cover b k x = {x..<x + 2 ^ (k - kmin b)}"

definition freemem :: "bal \<Rightarrow> (nat \<Rightarrow> int list) \<Rightarrow> int set" where
  "freemem b L = (\<Union>k \<in> {kmin b..kmax b}. \<Union>x \<in> set (L k). cover b k x)"

definition inmem :: "bal \<Rightarrow> nat \<Rightarrow> int \<Rightarrow> bool" where
  "inmem b k x \<longleftrightarrow> 0 < x \<and> INDEX b (memory b) \<le> x \<and> base b \<le> x * bminsz b \<and> (x + 2 ^ (k - kmin b)) * bminsz b \<le> base b + bsize b"

definition sane :: "bal \<Rightarrow> bool" where
  "sane b \<longleftrightarrow> bminsz b = 2 ^ kmin b \<and> kmin b \<le> kmax b \<and> memory b mod bminsz b = 0 \<and> 0 < bsize b"

text \<open>\<open>L k\<close> is the list that \<open>avail[k]\<close> heads; the blocks on all lists are in memory and disjoint.\<close>

definition flists :: "bal \<Rightarrow> (nat \<Rightarrow> int list) \<Rightarrow> bool" where
  "flists b L \<longleftrightarrow> sane b \<and> (\<forall>k \<in> {kmin b..kmax b}. chn (nxt b) (avail b k) (L k) \<and> distinct (L k) \<and> (\<forall>x \<in> set (L k). inmem b k x))
    \<and> (\<forall>k \<in> {kmin b..kmax b}. \<forall>k' \<in> {kmin b..kmax b}. \<forall>x \<in> set (L k). \<forall>x' \<in> set (L k'). (k, x) \<noteq> (k', x') \<longrightarrow>
         cover b k x \<inter> cover b k' x' = {})"

definition same_consts :: "bal \<Rightarrow> bal \<Rightarrow> bool" where
  "same_consts b b' \<longleftrightarrow> base b' = base b \<and> bsize b' = bsize b \<and> kmin b' = kmin b \<and> kmax b' = kmax b
    \<and> bminsz b' = bminsz b \<and> memory b' = memory b"

lemma same_consts_simps:
  assumes "same_consts b b'"
  shows "cover b' = cover b" "inmem b' = inmem b" "sane b' = sane b" "INDEX b' = INDEX b" "BLOCK b' = BLOCK b"
    "kmin b' = kmin b" "kmax b' = kmax b" "freemem b' = freemem b"
  using assms by (auto simp: same_consts_def cover_def inmem_def sane_def INDEX_def BLOCK_def freemem_def fun_eq_iff)

lemma cover_self: "x \<in> cover b k x"
  by (simp add: cover_def)

lemma cover_mono: "k \<le> j \<Longrightarrow> cover b k i \<subseteq> cover b j i"
proof -
  assume "k \<le> j"
  then have "(2::int) ^ (k - kmin b) \<le> 2 ^ (j - kmin b)" by (intro power_increasing) auto
  then show ?thesis by (auto simp: cover_def)
qed

lemma freemem_mem: "k \<in> {kmin b..kmax b} \<Longrightarrow> x \<in> set (L k) \<Longrightarrow> cover b k x \<subseteq> freemem b L"
  by (auto simp: freemem_def)

lemma freemem_upd:
  assumes "t \<in> {kmin b..kmax b}"
  shows "freemem b (L(t := ys)) = (\<Union>x \<in> set ys. cover b t x) \<union> (\<Union>k \<in> {kmin b..kmax b} - {t}. \<Union>x \<in> set (L k). cover b k x)"
proof -
  have "freemem b (L(t := ys)) = (\<Union>k \<in> insert t ({kmin b..kmax b} - {t}). \<Union>x \<in> set ((L(t := ys)) k). cover b k x)"
    using assms by (simp add: freemem_def insert_absorb)
  also have "\<dots> = (\<Union>x \<in> set ys. cover b t x) \<union> (\<Union>k \<in> {kmin b..kmax b} - {t}. \<Union>x \<in> set ((L(t := ys)) k). cover b k x)"
    by (simp only: UN_insert fun_upd_same)
  also have "(\<Union>k \<in> {kmin b..kmax b} - {t}. \<Union>x \<in> set ((L(t := ys)) k). cover b k x) = (\<Union>k \<in> {kmin b..kmax b} - {t}. \<Union>x \<in> set (L k). cover b k x)"
    by (rule SUP_cong) auto
  finally show ?thesis .
qed

lemmas freemem_split = freemem_upd[of t b L "L t" for t b L, unfolded fun_upd_triv]

lemma listsD:
  assumes "flists b L" and "k \<in> {kmin b..kmax b}"
  shows "chn (nxt b) (avail b k) (L k)" and "distinct (L k)" and "x \<in> set (L k) \<Longrightarrow> inmem b k x"
    and "k' \<in> {kmin b..kmax b} \<Longrightarrow> x \<in> set (L k) \<Longrightarrow> x' \<in> set (L k') \<Longrightarrow> (k, x) \<noteq> (k', x') \<Longrightarrow> cover b k x \<inter> cover b k' x' = {}"
  using assms unfolding flists_def by blast+

lemma lists_push:
  assumes l: "flists b L" and c: "same_consts b b'" and t: "t \<in> {kmin b..kmax b}" and u: "inmem b t u"
    and d: "cover b t u \<inter> freemem b L = {}" and a: "avail b' = (avail b)(t := u)" "nxt b' u = avail b t"
    and n: "\<And>x. x \<in> freemem b L \<Longrightarrow> INDEX b (memory b) \<le> x \<Longrightarrow> nxt b' x = nxt b x"
  shows "flists b' (L(t := u # L t))" and "freemem b (L(t := u # L t)) = cover b t u \<union> freemem b L"
proof -
  note sc = same_consts_simps[OF c]
  have nn: "nxt b' x = nxt b x" if "k \<in> {kmin b..kmax b}" "x \<in> set (L k)" for k x
    using that freemem_mem[where L = L, OF that] cover_self[of x b k] l by (intro n) (auto simp: flists_def inmem_def)
  have ul: "u \<notin> set (L t)" using d freemem_mem[OF t, of u L] cover_self[of u b t] by auto
  have un: "u \<noteq> x" if "k \<in> {kmin b..kmax b}" "x \<in> set (L k)" for k x
    using d freemem_mem[where L = L, OF that] cover_self[of x b k] cover_self[of u b t] by auto
  have "chn (nxt b') (avail b' k) ((L(t := u # L t)) k)" if k: "k \<in> {kmin b..kmax b}" for k
  proof -
    have "chn (nxt b') (avail b k) (L k)" using l k nn[OF k] chn_cong[of "L k" "nxt b'" "nxt b"] by (auto simp: flists_def)
    then show ?thesis using a u by (cases "k = t") (auto simp: inmem_def)
  qed
  moreover have "cover b k x \<inter> cover b k' x' = {}"
    if h: "k \<in> {kmin b..kmax b}" "k' \<in> {kmin b..kmax b}" "x \<in> set ((L(t := u # L t)) k)" "x' \<in> set ((L(t := u # L t)) k')" "(k, x) \<noteq> (k', x')"
    for k k' x x'
  proof -
    consider "x \<in> set (L k)" "x' \<in> set (L k')" | "k = t" "x = u" "x' \<in> set (L k')" | "k' = t" "x' = u" "x \<in> set (L k)"
      using h by (auto split: if_splits)
    then show ?thesis using listsD(4)[OF l h(1,2)] h d freemem_mem[of k b x L] freemem_mem[of k' b x' L] by cases blast+
  qed
  ultimately show "flists b' (L(t := u # L t))" using l ul u unfolding flists_def sc by (auto split: if_splits)
  show "freemem b (L(t := u # L t)) = cover b t u \<union> freemem b L" by (simp only: freemem_upd[OF t] freemem_split[OF t, of L]) auto
qed

lemma lists_pop:
  assumes l: "flists b L" and c: "same_consts b b'" and t: "t \<in> {kmin b..kmax b}" and L: "L t = u # xs"
    and a: "avail b' = (avail b)(t := nxt b u)"
    and n: "\<And>x. x \<in> freemem b L \<Longrightarrow> x \<noteq> u \<Longrightarrow> INDEX b (memory b) \<le> x \<Longrightarrow> nxt b' x = nxt b x"
  shows "flists b' (L(t := xs))" and "freemem b (L(t := xs)) = freemem b L - cover b t u" and "cover b t u \<subseteq> freemem b L"
    and "inmem b t u" and "avail b t = u"
proof -
  note sc = same_consts_simps[OF c]
  have ut: "u \<in> set (L t)" "distinct (u # xs)" "chn (nxt b) (avail b t) (u # xs)" using listsD(1,2)[OF l t] L by simp_all
  show "inmem b t u" by (rule listsD(3)[OF l t ut(1)])
  show "avail b t = u" using ut(3) by simp
  show cv: "cover b t u \<subseteq> freemem b L" by (rule freemem_mem[where L = L, OF t ut(1)])
  have dj: "cover b k x \<inter> cover b t u = {}" if "k \<in> {kmin b..kmax b}" "x \<in> set ((L(t := xs)) k)" for k x
    using listsD(4)[OF l that(1) t _ ut(1), of x] that(2) ut(2) L by (cases "k = t") auto
  have nn: "nxt b' x = nxt b x" if k: "k \<in> {kmin b..kmax b}" and x: "x \<in> set ((L(t := xs)) k)" for k x
  proof -
    have "x \<in> set (L k)" using x L by (auto split: if_splits)
    then show ?thesis using k freemem_mem[OF k, of x L] cover_self[of x b k] cover_self[of u b t] dj[OF k x] l
      by (intro n) (auto simp: flists_def inmem_def)
  qed
  have "chn (nxt b') (avail b' k) ((L(t := xs)) k)" if k: "k \<in> {kmin b..kmax b}" for k
  proof -
    have "chn (nxt b) (avail b' k) ((L(t := xs)) k)" using l k ut(3) a by (auto simp: flists_def)
    then show ?thesis using nn[OF k] chn_cong[of "(L(t := xs)) k" "nxt b'" "nxt b"] by auto
  qed
  moreover have "x \<in> set (L k)" if "x \<in> set ((L(t := xs)) k)" for k x using that L by (auto split: if_splits)
  ultimately show "flists b' (L(t := xs))" using l ut(2) unfolding flists_def sc by (auto split: if_splits)
  show "freemem b (L(t := xs)) = freemem b L - cover b t u"
  proof -
    have "freemem b (L(t := xs)) \<union> cover b t u = freemem b L"
      by (simp only: freemem_upd[OF t] freemem_split[OF t, of L] L) auto
    moreover have "freemem b (L(t := xs)) \<inter> cover b t u = {}"
      unfolding freemem_def using dj by blast
    ultimately show ?thesis by blast
  qed
qed

section \<open>Splitting\<close>

lemma bset_consts [simp]: "same_consts b (bset n f b')  = same_consts b b'" "same_consts b (aset k i b') = same_consts b b'"
  by (simp_all add: same_consts_def bset_def aset_def)

lemma same_consts_refl [simp]: "same_consts b b"
  by (simp add: same_consts_def)

lemma bset_avail [simp]: "avail (bset n f b) = avail b" "avail (aset k i b) = (avail b)(k := i)" "blocks (aset k i b) = blocks b"
  and bset_blocks [simp]: "blocks (bset n f b) = (blocks b)(n := f (blocks b n))"
  by (simp_all add: bset_def aset_def)

lemma bset_BLOCK [simp]: "BLOCK (bset n f b) = BLOCK b" "BLOCK (aset k i b) = BLOCK b" "bminsz (bset n f b) = bminsz b" "bminsz (aset k i b) = bminsz b"
  by (simp_all add: fun_eq_iff BLOCK_def INDEX_def bset_def aset_def)

lemma units: "sane b \<Longrightarrow> kmin b \<le> k \<Longrightarrow> 2 ^ k div bminsz b = 2 ^ (k - kmin b)"
  by (simp add: sane_def power_diff)

text \<open>One split: the upper half of block \<open>i\<close> goes on the list below.\<close>

lemma split_step:
  assumes l: "flists b L" and j: "kmin b \<le> j" "j + 1 \<le> kmax b" and i: "inmem b (j + 1) i" and d: "cover b (j + 1) i \<inter> freemem b L = {}"
    and b': "b' = (let u = i + 2 ^ j div bminsz b; p = BLOCK b i + 2 ^ j div bminsz b;
        b = bset p (\<lambda>r. r\<lparr>btag := True, kval := j, bnext := avail b j, bprev := 0\<rparr>) b;
        b = (if bnext (blocks b p) \<noteq> 0 then bset (BLOCK b (bnext (blocks b p))) (\<lambda>r. r\<lparr>bprev := u\<rparr>) b else b)
      in aset j u b)"
  shows "\<exists>L'. flists b' L' \<and> same_consts b b' \<and> inmem b' j i \<and> cover b j i \<inter> freemem b L' = {}
    \<and> freemem b L' = freemem b L \<union> (cover b (j + 1) i - cover b j i)"
proof -
  have sn: "sane b" using l by (simp add: flists_def)
  define h :: int where "h = 2 ^ (j - kmin b)"
  have h: "0 < h" "2 ^ j div bminsz b = h" "2 ^ (j + 1 - kmin b) = 2 * h" using units[OF sn j(1)] j(1) by (simp_all add: h_def Suc_diff_le)
  let ?u = "i + h" and ?p = "BLOCK b i + h"
  have pu: "?p = BLOCK b ?u" by (simp add: BLOCK_def)
  have c: "same_consts b b'" using b' by (simp add: Let_def)
  have av: "avail b' = (avail b)(j := ?u)" using b' h(2) by (auto simp: Let_def)
  have bn: "bnext (blocks b' q) = (if q = ?p then avail b j else bnext (blocks b q))" for q using b' h(2) by (auto simp: Let_def)
  have cv: "cover b j ?u = {i + h..<i + 2 * h}" "cover b j i = {i..<i + h}" "cover b (j + 1) i = {i..<i + 2 * h}"
    using h by (simp_all add: cover_def h_def add.commute)
  have m: "inmem b j ?u" "inmem b j i"
  proof -
    have bs: "0 \<le> bminsz b" using sn by (simp add: sane_def)
    have "base b \<le> i * bminsz b" "(i + 2 * h) * bminsz b \<le> base b + bsize b" "0 < i" "INDEX b (memory b) \<le> i"
      using i h(3) by (auto simp: inmem_def)
    moreover have "i * bminsz b \<le> (i + h) * bminsz b" "(i + h) * bminsz b \<le> (i + 2 * h) * bminsz b"
      using bs h(1) by (simp_all add: mult_right_mono)
    ultimately show "inmem b j ?u" "inmem b j i" using h by (auto simp: inmem_def h_def[symmetric] algebra_simps)
  qed
  have t: "j \<in> {kmin b..kmax b}" using j by simp
  have un: "cover b (j + 1) i = cover b j i \<union> cover b j ?u" "cover b j i \<inter> cover b j ?u = {}" unfolding cv using h(1) by auto
  have du: "cover b j ?u \<inter> freemem b L = {}" using d un(1) by blast
  have nu: "nxt b' ?u = avail b j" using bn pu same_consts_simps(5)[OF c] by (simp add: nxt_def)
  have no: "nxt b' x = nxt b x" if "x \<in> freemem b L" "INDEX b (memory b) \<le> x" for x
  proof -
    have "x \<noteq> ?u" using that(1) du cv(1) h(1) by auto
    then have "BLOCK b x \<noteq> ?p" by (simp add: BLOCK_def)
    then show ?thesis using bn same_consts_simps(5)[OF c] by (simp add: nxt_def)
  qed
  note ps = lists_push[OF l c t m(1) du av nu no]
  have "cover b j i \<inter> freemem b (L(j := ?u # L j)) = {}" using ps(2) d un by blast
  moreover have "freemem b (L(j := ?u # L j)) = freemem b L \<union> (cover b (j + 1) i - cover b j i)" using ps(2) un by blast
  moreover have "inmem b' j i" using m(2) same_consts_simps(2)[OF c] by simp
  ultimately show ?thesis using ps(1) c by blast
qed

lemma split_ok:
  assumes "flists b L" and "kmin b \<le> k" and "k \<le> j" and "j \<le> kmax b" and "inmem b j i" and "cover b j i \<inter> freemem b L = {}"
  shows "\<exists>L'. flists (splitblk i k j b) L' \<and> same_consts b (splitblk i k j b) \<and> cover b k i \<inter> freemem b L' = {}
    \<and> freemem b L' = freemem b L \<union> (cover b j i - cover b k i)"
  using assms
proof (induction "j - k" arbitrary: j b L)
  case 0
  then have "splitblk i k j b = b" by (simp add: splitblk.simps)
  then show ?case using 0 by (intro exI[of _ L]) auto
next
  case (Suc n)
  define b' where "b' = (let u = i + 2 ^ (j - 1) div bminsz b; p = BLOCK b i + 2 ^ (j - 1) div bminsz b;
        b = bset p (\<lambda>r. r\<lparr>btag := True, kval := j - 1, bnext := avail b (j - 1), bprev := 0\<rparr>) b;
        b = (if bnext (blocks b p) \<noteq> 0 then bset (BLOCK b (bnext (blocks b p))) (\<lambda>r. r\<lparr>bprev := u\<rparr>) b else b)
      in aset (j - 1) u b)"
  have j: "j - 1 + 1 = j" "k \<le> j - 1" using Suc.hyps(2) by auto
  have s: "splitblk i k j b = splitblk i k (j - 1) b'" unfolding b'_def using j Suc.hyps(2) by (subst splitblk.simps) (simp add: Let_def)
  obtain L1 where L1: "flists b' L1" "same_consts b b'" "inmem b' (j - 1) i" "cover b (j - 1) i \<inter> freemem b L1 = {}"
    "freemem b L1 = freemem b L \<union> (cover b j i - cover b (j - 1) i)"
    using split_step[of b L "j - 1" i b', OF Suc.prems(1) _ _ _ _ b'_def] Suc.prems j by auto
  note sc = same_consts_simps[OF L1(2)]
  have n: "n = j - 1 - k" "j - 1 \<le> kmax b" using Suc.hyps(2) Suc.prems(4) by auto
  obtain L2 where L2: "flists (splitblk i k (j - 1) b') L2" "same_consts b' (splitblk i k (j - 1) b')"
    "cover b k i \<inter> freemem b L2 = {}" "freemem b L2 = freemem b L1 \<union> (cover b (j - 1) i - cover b k i)"
    using Suc.hyps(1)[OF n(1) L1(1)] Suc.prems(2) j(2) L1(3,4) n(2) unfolding sc by blast
  have sub: "cover b k i \<subseteq> cover b (j - 1) i" "cover b (j - 1) i \<subseteq> cover b j i"
    using j by (auto intro!: cover_mono)
  have "same_consts b (splitblk i k (j - 1) b')" using L2(2) L1(2) by (simp add: same_consts_def)
  moreover have "freemem b L2 = freemem b L \<union> (cover b j i - cover b k i)" using L2(4) L1(5) sub by blast
  ultimately show ?case using L2(1,3) s by auto
qed

section \<open>Allocating\<close>

lemma flists_cong:
  assumes "flists b L" and "same_consts b b'" and "avail b' = avail b" and "\<And>x. nxt b' x = nxt b x"
  shows "flists b' L"
proof -
  have "nxt b' = nxt b" using assms(4) by (simp add: fun_eq_iff)
  then show ?thesis using assms(1,3) unfolding flists_def same_consts_simps[OF assms(2)] by simp
qed

lemma takeblk_ok:
  assumes l: "flists b L" and k: "kmin b \<le> k" "k \<le> j" "j \<le> kmax b" and L: "L j = i # xs"
  shows "\<exists>L'. flists (takeblk k j b) L' \<and> same_consts b (takeblk k j b) \<and> freemem b L' = freemem b L - cover b k i
    \<and> cover b k i \<subseteq> freemem b L"
proof -
  define b1 where "b1 = bset (BLOCK b i) (\<lambda>r. r\<lparr>bprev := 0, bnext := 0, btag := False, kval := k\<rparr>)
    (bset (nxt b i) (\<lambda>r. r\<lparr>bprev := 0\<rparr>) (aset j (nxt b i) b))"
  have t: "j \<in> {kmin b..kmax b}" using k by simp
  have c: "same_consts b b1" by (simp add: b1_def)
  have i: "avail b j = i" "inmem b j i" using listsD(1,3)[OF l t] L by auto
  have n: "nxt b1 x = nxt b x" if "x \<noteq> i" for x
  proof -
    have "BLOCK b x \<noteq> BLOCK b i" using that by (simp add: BLOCK_def)
    then show ?thesis by (simp add: nxt_def b1_def same_consts_simps(5)[OF c, unfolded b1_def])
  qed
  have p: "flists b1 (L(j := xs))" "freemem b (L(j := xs)) = freemem b L - cover b j i" "cover b j i \<subseteq> freemem b L"
    using lists_pop[OF l c t L] n by (auto simp: b1_def)
  note sc = same_consts_simps[OF c]
  obtain L' where L': "flists (splitblk i k j b1) L'" "same_consts b1 (splitblk i k j b1)"
    "freemem b L' = freemem b (L(j := xs)) \<union> (cover b j i - cover b k i)" "cover b k i \<inter> freemem b L' = {}"
    using split_ok[OF p(1), of k j i] k i(2) p(2) unfolding sc by blast
  have tb: "takeblk k j b = splitblk i k j b1" by (simp add: takeblk_def Let_def b1_def i(1) nxt_def)
  have "cover b k i \<subseteq> cover b j i" by (rule cover_mono[OF k(2)])
  then have "freemem b L' = freemem b L - cover b k i" "cover b k i \<subseteq> freemem b L" using L'(3) p(2,3) by blast+
  moreover have "same_consts b (splitblk i k j b1)" using c L'(2) by (simp add: same_consts_def)
  ultimately show ?thesis using L'(1) tb by auto
qed

lemma find_SomeD:
  assumes "find P xs = Some x"
  shows "x \<in> set xs" and "P x"
  using assms by (induction xs) (auto split: if_splits)

lemma log2ceil_min:
  assumes "2 ^ n \<le> sz" and "sz < 2 ^ 64"
  shows "n \<le> log2ceil (word_of_int sz)" and "sz \<le> 2 ^ log2ceil (word_of_int sz)"
proof -
  have z: "0 < sz" using assms(1) by (rule less_le_trans[rotated]) simp
  have u: "uint (word_of_int sz :: u64) = sz" using z assms(2) by (simp add: uint_word_of_int)
  then have "(word_of_int sz :: u64) \<noteq> 0" using z by (metis order_less_irrefl unsigned_0)
  then show le: "sz \<le> 2 ^ log2ceil (word_of_int sz)" using log2ceil_spec u by metis
  have "(2::int) ^ n \<le> 2 ^ log2ceil (word_of_int sz)" using assms(1) le by linarith
  then show "n \<le> log2ceil (word_of_int sz)" by simp
qed

definition bal0 :: bal where
  "bal0 = \<lparr>base = 0x600000, bsize = 0x400000, nfree = 2, nblocks = 2, kmin = 21, kmax = 30, bminsz = 0x200000, memory = 0x600000,
     blocks = (\<lambda>_. \<lparr>btag = False, kval = 0, bnext = 0, bprev = 0, bp = None\<rparr>)(0 := \<lparr>btag = True, kval = 22, bnext = 0, bprev = 0, bp = None\<rparr>),
     avail = (\<lambda>_. 0)(22 := 3)\<rparr>"

lemma flists_bal0: "flists bal0 ((\<lambda>_. [])(22 := [3]))"
  by (auto simp: flists_def sane_def bal0_def nxt_def BLOCK_def INDEX_def inmem_def)

lemma inmem_addr:
  assumes "sane b" "inmem b j i"
  shows "base b \<le> i * bminsz b" "i * bminsz b < base b + bsize b" "i * bminsz b \<noteq> 0" "memory b + bminsz b * BLOCK b i = i * bminsz b"
proof -
  have p: "0 < bminsz b" using assms(1) by (auto simp: sane_def)
  have e: "(i + 2 ^ (j - kmin b)) * bminsz b \<le> base b + bsize b" "base b \<le> i * bminsz b" "0 < i" using assms(2) by (auto simp: inmem_def)
  have "i * bminsz b < (i + 2 ^ (j - kmin b)) * bminsz b" using p by simp
  from less_le_trans[OF this e(1)] show "i * bminsz b < base b + bsize b" .
  show "base b \<le> i * bminsz b" by (rule e(2))
  show "i * bminsz b \<noteq> 0" using p e(3) by simp
  have "memory b = INDEX b (memory b) * bminsz b" using assms(1) by (simp add: sane_def INDEX_def) (metis mod_0_imp_dvd dvd_div_mult_self)
  then show "memory b + bminsz b * BLOCK b i = i * bminsz b" by (simp add: BLOCK_def algebra_simps)
qed

text \<open>The size asked for, rounded up to the smallest block, fits a word.\<close>

lemma size_fits:
  assumes "sane b" "sz \<le> 2 ^ kmax b" "kmax b < 64"
  shows "2 ^ kmin b \<le> max sz (bminsz b)" "max sz (bminsz b) < 2 ^ 64"
proof -
  have bm: "bminsz b = 2 ^ kmin b" "kmin b \<le> kmax b" using assms(1) by (simp_all add: sane_def)
  have "(2::int) ^ kmax b < 2 ^ 64" by (rule power_strict_increasing[OF assms(3)]) simp
  moreover have "(2::int) ^ kmin b < 2 ^ 64" by (rule power_strict_increasing) (use bm(2) assms(3) in simp_all)
  ultimately show "2 ^ kmin b \<le> max sz (bminsz b)" "max sz (bminsz b) < 2 ^ 64" using assms(2) bm(1) by auto
qed

text \<open>
  C30: Allocation is correct on sound free lists. When the lists of an allocator hold disjoint blocks
  of its memory, \<open>xphysalloc\<close> does not panic; it fails, leaving all as it was, only when no list
  from the size needed upwards has a block; otherwise it returns an address aligned to the
  smallest block, of a block of size \<open>2^k\<close> that is at least the size asked for and was
  entirely free, and afterwards the lists are sound again and hold exactly the rest.\<close>

theorem xphysalloc_ok:
  assumes l: "flists b L" and sz: "0 < sz" "sz \<le> 2 ^ kmax b" and km: "kmax b < 64"
    and k: "k = log2ceil (word_of_int (max sz (bminsz b)))"
  shows "\<exists>m b'. xphysalloc sz tag b = Inr (m, b') \<and>
    (if m = 0 then b' = b \<and> (\<forall>j \<in> {k..kmax b}. L j = [])
     else \<exists>L'. flists b' L' \<and> m mod bminsz b = 0 \<and> sz \<le> 2 ^ k \<and> cover b k (m div bminsz b) \<subseteq> freemem b L
       \<and> freemem b' L' = freemem b L - cover b k (m div bminsz b))"
proof -
  have sn: "sane b" using l by (simp add: flists_def)
  note s = size_fits[OF sn sz(2) km]
  have kk: "kmin b \<le> k" "sz \<le> 2 ^ k" using log2ceil_min[OF s] k by auto
  have km': "(if sz < bminsz b then bminsz b else sz) = max sz (bminsz b)" by (simp add: max_def)
  have pos: "0 < bsize b" using sn by (simp add: sane_def)
  show ?thesis
  proof (cases "find (\<lambda>j. avail b j \<noteq> 0) [k..<kmax b + 1]")
    case None
    have "L j = []" if "j \<in> {k..kmax b}" for j
    proof -
      have "avail b j = 0" using None that by (auto simp: find_None_iff)
      moreover have "chn (nxt b) (avail b j) (L j)" using listsD(1)[OF l, of j] that kk(1) by auto
      ultimately show ?thesis by (cases "L j") auto
    qed
    then show ?thesis using None pos by (simp add: xphysalloc_def Let_def km' k[symmetric] del: upt_Suc)
  next
    case (Some j)
    have j: "k \<le> j" "j \<le> kmax b" "avail b j \<noteq> 0" using find_SomeD[OF Some] by auto
    have t: "j \<in> {kmin b..kmax b}" using j kk(1) by simp
    then obtain i xs where L: "L j = i # xs" "avail b j = i" using listsD(1)[OF l t] j(3) by (cases "L j") auto
    have im: "inmem b j i" using listsD(3)[OF l t] L(1) by simp
    obtain L' where L': "flists (takeblk k j b) L'" "same_consts b (takeblk k j b)" "freemem b L' = freemem b L - cover b k i"
      "cover b k i \<subseteq> freemem b L" using takeblk_ok[OF l kk(1) j(1,2) L(1)] by blast
    let ?n = "nfree (takeblk k j b) - max sz (bminsz b) div bminsz (takeblk k j b)"
    define b' where "b' = bset (BLOCK b i) (\<lambda>r. r\<lparr>bp := Some tag\<rparr>) ((takeblk k j b)\<lparr>nfree := ?n\<rparr>)"
    have c: "same_consts b b'" "same_consts (takeblk k j b) b'" using L'(2) by (simp_all add: b'_def) (simp_all add: same_consts_def)
    note ok = inmem_addr[OF sn im]
    have bp: "0 < bminsz b" using sn by (auto simp: sane_def)
    have tb: "memory (takeblk k j b) = memory b" "bminsz (takeblk k j b) = bminsz b" "base (takeblk k j b) = base b"
      "bsize (takeblk k j b) = bsize b" using L'(2) by (simp_all add: same_consts_def)
    have bl: "BLOCK (takeblk k j b) = BLOCK b" by (rule same_consts_simps(5)[OF L'(2)])
    have r: "xphysalloc sz tag b = Inr (i * bminsz b, b')"
      using Some pos ok L(2) tb bl by (simp add: xphysalloc_def Let_def km' k[symmetric] b'_def BLOCK_def INDEX_def del: upt_Suc)
    have "flists b' L'" using c(2) by (intro flists_cong[OF L'(1)]) (auto simp: b'_def nxt_def BLOCK_def INDEX_def bset_def)
    moreover have "freemem b' L' = freemem b L - cover b k i" using L'(3) same_consts_simps(8)[OF c(1)] by simp
    moreover have "i * bminsz b div bminsz b = i" using bp by simp
    ultimately show ?thesis using r ok(3) kk(2) L'(4) by auto
  qed
qed

theorem xphysalloc_ok_witness:
  "\<exists>m b'. xphysalloc 0x200000 0 bal0 = Inr (m, b') \<and> m \<noteq> 0 \<and>
     (\<exists>L'. flists b' L' \<and> m mod bminsz bal0 = 0 \<and> freemem b' L' = freemem bal0 ((\<lambda>_. [])(22 := [3])) - cover bal0 21 (m div bminsz bal0))"
proof -
  have k: "(21::nat) = log2ceil (word_of_int (max 0x200000 (bminsz bal0)))" by code_simp
  have h: "(0::int) < 0x200000" "(0x200000::int) \<le> 2 ^ kmax bal0" "kmax bal0 < 64" by (simp_all add: bal0_def)
  note r = xphysalloc_ok[OF flists_bal0 h k, of 0]
  have "\<not> (\<forall>j \<in> {21..kmax bal0}. ((\<lambda>_. [])(22 := [3])) j = ([] :: int list))" by (auto simp: bal0_def intro!: bexI[of _ 22])
  then show ?thesis using r by (auto split: if_splits)
qed

section \<open>A block allocated twice\<close>

text \<open>The allocator before \<open>physinit\<close>, and a run of requests, which gives the addresses allocated.\<close>

definition phys0 :: physsys where
  "phys0 = \<lparr>bals = \<lambda>_. \<lparr>base = 0, bsize = 0, nfree = 0, nblocks = 0, kmin = 0, kmax = 0, bminsz = 0, memory = 0,
     blocks = \<lambda>_. \<lparr>btag = False, kval = 0, bnext = 0, bprev = 0, bp = None\<rparr>, avail = \<lambda>_. 0\<rparr>, ndoms = 0\<rparr>"

datatype preq = Alloc int | Free int int

fun prun :: "preq list \<Rightarrow> physsys \<Rightarrow> int list option" where
  "prun [] s = Some []"
| "prun (Alloc sz # rs) s =
    (case physalloc sz 0 0 s of Inl e \<Rightarrow> None | Inr (m, c, s) \<Rightarrow> map_option (\<lambda>ms. m # ms) (prun rs s))"
| "prun (Free a sz # rs) s = (case physfree a sz s of Some (Inr s) \<Rightarrow> prun rs s | _ \<Rightarrow> None)"

definition mbytes :: "int \<Rightarrow> int" where "mbytes n = n * 1048576"

text \<open>
  C32: The allocator can hand out memory that is in use. With ten megabytes from six on, seven
  allocations and three frees, each of a block that is then allocated, allocate the block at six
  megabytes twice, with no free of it in between: the fifth and the seventh allocation. Taking a block
  clears the back link of the wrong neighbour, since the code indexes \<open>blocks\<close> by a block
  number, and a later merge follows the stale link.\<close>

theorem physalloc_double:
  "Option.bind (physinit (mbytes 6) (mbytes 6) (mbytes 10) 0 phys0) (\<lambda>r. case r of Inl e \<Rightarrow> None | Inr s \<Rightarrow>
     prun [Alloc (mbytes 2), Alloc (mbytes 2), Alloc (mbytes 2), Free (mbytes 6) (mbytes 2), Free (mbytes 10) (mbytes 2),
           Alloc (mbytes 2), Free (mbytes 8) (mbytes 2), Alloc (mbytes 2), Alloc (mbytes 2), Alloc (mbytes 2)] s)
   = Some (map mbytes [6, 8, 10, 10, 6, 12, 6])"
  by code_simp

end
