(* ===== verification/Spec2Isabelle.thy ===== *)
theory Spec2Isabelle
  imports Qio_System Iproute_Table Ipht Ipv4_Correct Qlock_Correct Alarm Timers_Correct Rendez_Correct Rendhash Tcp_Progress Tcphdr Limbo_Correct Mntmux_Runs Sched_System Sched_Prio Sema_Correct Physalloc_Correct
begin

text \<open>
  A verification development of the portable core of the NIX kernel (\<open>src/port\<close>, \<open>src/ip\<close>, and the
  amd64 port \<open>src/k10\<close>).

  \<^bold>\<open>The parts and how they interact.\<close> Devices, pipes and network protocols pass data in
  blocks (\<open>allocb.c\<close>), linked into chains and into queues with flow control (\<open>qio.c\<close>). Packets
  are routed by the interval trees of \<open>iproute.c\<close>, sent and reassembled by \<open>ip.c\<close>; a segment of a stream goes to its
  conversation by the hash table of \<open>ipaux.c\<close> and through the state machine of \<open>tcp.c\<close>. Processes are run by the scheduler of \<open>proc.c\<close>,
  wait for events with its \<open>sleep\<close> and \<open>wakeup\<close>, and exclude each other with the queueing
  locks of \<open>qlock.c\<close>; user processes have the semaphores of \<open>sysproc.c\<close>. The clock interrupt runs
  the timers of \<open>portclock.c\<close>, which convert nanoseconds with \<open>tod.c\<close>; the clock routine wakes the
  alarm process of \<open>alarm.c\<close>. The mount driver \<open>devmnt.c\<close> carries the requests of many processes over one channel to a file server. Physical memory comes from the buddy allocator of \<open>physalloc.c\<close>.

  \<^bold>\<open>The theories.\<close>

  \<^item> \<open>Plan9_Prelude\<close>: machine integers, \<open>fault\<close> and \<open>outcome\<close> (a panic, an error raised, a value),
    the locales \<open>invariant\<close> and \<open>safety\<close> (an invariant of a step relation holds in every reachable
    state) and \<open>sorted_queue\<close> (insertion into a queue kept in order), which the components interpret.
  \<^item> \<open>Block\<close> (\<open>allocb.c\<close>): a block is a record with the buffer and the four offsets of the C pointers;
    allocation takes the address and the outcome of \<open>malloc\<close> from the state \<open>kmem\<close>.
  \<^item> \<open>BlockList\<close>: the routines of \<open>qio.c\<close> on chains (a list of blocks), each proved to change the
    bytes of the chain as it promises.
  \<^item> \<open>Qio\<close>, \<open>Qio_Correct\<close>: every operation of a queue and its correctness; what differs from the
    intention (leaks, lost wakeups, wrong counts) is stated as it is. \<open>Qio_System\<close>: readers and writers
    of a queue as a step relation: bytes come out in order and only \<open>qclose\<close> discards any; every sleeper has a
    reason, and the two sides do not sleep at once unless writes of no bytes are made to a coalescing queue.
  \<^item> \<open>Iproute\<close>, \<open>Iproute_Tree\<close>, \<open>Iproute_Table\<close> (\<open>iproute.c\<close>): the trees of both address families. The
    abstraction of a table is its set of routes; adding, deleting and flushing refine operations on
    sets, and looking up is longest-prefix match. The loop that reinjects displaced nodes is a
    \<open>partial_function\<close> and is proved to return.
  \<^item> \<open>Ipsum\<close> (\<open>ptclbsum.c\<close>, \<open>ipaux.c\<close>): the checksums against the ones' complement sum, for both byte orders.
  \<^item> \<open>Ipht\<close> (\<open>ipaux.c\<close>): the hash table of conversations refines a list with an order of precedence.
  \<^item> \<open>Ipv4\<close>, \<open>Ipv4_Correct\<close> (\<open>ip.c\<close>): sending, receiving and reassembly. The fragments of a packet give the
    packet back in any order of arrival.
  \<^item> \<open>Tcp\<close>, \<open>Tcp_Frame\<close>, \<open>Tcp_Input\<close>, \<open>Tcp_Correct\<close>, \<open>Tcp_Stream\<close>, \<open>Tcp_Progress\<close> (\<open>tcp.c\<close>): the control block of a
    conversation and all that runs on it: windows, output, retransmission, congestion control, the input state
    machine, the timeouts, opening and closing. \<open>Tcp_Frame\<close> shows what the sending side leaves alone. The receiver
    delivers a prefix of its peer's stream whatever happens to the segments, as long as none is urgent or half the sequence space
    away (a step relation over all the entries of a conversation), all of it before the end of file, and accepts what comes in order. The loop over adjacent
    segments ends because the resequencing queue gets shorter.
  \<^item> \<open>Tcphdr\<close> (\<open>tcp.c\<close>): headers on the wire, for both versions of IP; what is sent comes back with its checksum
    verified.
  \<^item> \<open>Limbo\<close>, \<open>Limbo_Correct\<close> (\<open>tcp.c\<close>): the table of calls whose SYN has not been acknowledged, as a map from callers, and
    the search for the conversation of a segment. No conversation is made without a handshake, and a handshake makes
    one to which the caller's segments go, when memory and conversations last. Two theorems show defects: a full table loses entries, and retransmission stops at a call that is not due.
  \<^item> \<open>Mntmux\<close>, \<open>Mntmux_Correct\<close>, \<open>Mntmux_Runs\<close> (\<open>devmnt.c\<close>): the requests of many processes over one channel to a file
    server, as a step relation at the grain of the locks. Every reply goes to the request it answers, and nobody is left asleep
    at the gate of the reader, unless a write fails; a run shows that case.
  \<^item> \<open>Sched\<close>, \<open>Sched_Correct\<close>, \<open>Sched_System\<close>, \<open>Sched_Prio\<close> (\<open>proc.c\<close>): the scheduler for ordinary processes.
    The run queues, kept as pointers, refine lists; over all interleavings of the processors no ready
    process is lost or queued twice and none runs on two processors; the search finds the highest
    priority, and the cpu average and the priorities stay in their ranges.
  \<^item> \<open>Rendez\<close>, \<open>Rendez_Correct\<close> (\<open>proc.c\<close>): \<open>sleep\<close>, \<open>tsleep\<close>, \<open>wakeup\<close> and \<open>postnote\<close> as a step relation at
    the grain of the locks: no wakeup and no note is lost, and the two lock orders do not deadlock.
  \<^item> \<open>Rendhash\<close> (\<open>sysproc.c\<close>, \<open>proc.c\<close>): the rendezvous table of a process group refines a map from tags to
    the process that waits.
  \<^item> \<open>Qlock\<close>, \<open>Qlock_Correct\<close> (\<open>qlock.c\<close>): both kinds of lock, their exclusion, the order of service,
    and that a release never leaves the lock free with a process queued. The loop that wakes the
    readers is a \<open>partial_function\<close> and is proved to return.
  \<^item> \<open>Tod\<close> (\<open>tod.c\<close>, \<open>mul64fract.c\<close>): fixed-point conversions on 64-bit words and the clock, whose
    readings go backwards at most once, to a negative time, unless it is set.
  \<^item> \<open>Timers\<close>, \<open>Timers_Correct\<close> (\<open>portclock.c\<close>): the queue of each processor is in order and, as long as
    \<open>addclock0link\<close> runs on processor 0, its hardware armed in time; the interrupt routine, a
    \<open>partial_function\<close>, is proved to return, for functions of timers that keep the invariant.
  \<^item> \<open>Alarm\<close> (\<open>alarm.c\<close>): the list of alarms, ordered by the wrapping comparison of ticks.
  \<^item> \<open>Sema\<close>, \<open>Sema_Correct\<close> (\<open>sysproc.c\<close>): semaphores as a step relation at the grain of what another
    processor can see, with the invariant that no wakeup is lost, and a run in which a negative timeout
    loses a ticket.
  \<^item> \<open>Physalloc\<close>, \<open>Physalloc_Correct\<close> (\<open>physalloc.c\<close>, \<open>log2.c\<close>): the allocator as it is written. Allocation
    is correct on sound free lists; freeing does not keep them sound, and a run shows a block
    allocated twice.

  \<^bold>\<open>Conventions.\<close> A spin lock held over a section makes it one step. A routine returns the new
  state with its value; a panic or a raised error is a value of a sum. Routines of the machine
  (the reading of a clock, the address an allocator picks, whether a process can be locked) are
  arguments.

  \<^bold>\<open>Not modelled.\<close> Real-time scheduling, fork and exit, page and segment management, channels and the name space, the file operations
  of the mount driver and the framing of its messages,
  the other transport protocols, the interfaces and media below IP, and the devices: state shared with most of the
  kernel, to be added a component at a time. Drivers, boot code and the machine-dependent
  routines: their meaning is that of the hardware. Printing and statistics.
\<close>

end
